(* ===== verification/Prelude.thy ===== *)
theory Prelude
  imports Complex_Main "HOL-Library.Word"
begin

text \<open>
  Shared vocabulary of the development: the machine integer types of the C++ sources, the
  error values of fallible code, the little-endian byte image of a 64-bit integer (the
  sources store and \<^verbatim>\<open>reinterpret_cast\<close> integers on x86-64), the byte slices that
  \<^verbatim>\<open>std::copy\<close> reads and writes, and the generic lemmas on lists and words that the
  component theories use.
\<close>

unbundle bit_operations_syntax

type_synonym u8 = "8 word"
type_synonym u16 = "16 word"
type_synonym u32 = "32 word"
type_synonym u64 = "64 word"
type_synonym bytes = "u8 list"

named_theorems byte_simps \<open>byte images and slices of memory\<close>
named_theorems addr_simps \<open>global addresses and KV blocks as bit fields\<close>

text \<open>
  The ways in which the modelled code stops: a failed \<^verbatim>\<open>assert\<close> (the Makefile never
  defines \<^verbatim>\<open>NDEBUG\<close>), an exception, an access the C++ standard leaves undefined, and
  a loop of the source that does not end within the bound that the model gives it.
\<close>

datatype err =
    AssertionFailed
  | Exception
  | UndefinedBehaviour
  | NullDereference
  | Diverges

lemma unat_u8_le: "unat (b :: u8) \<le> 255"
proof -
  have "unat b < 2 ^ LENGTH(8)" by (rule unsigned_less)
  then show ?thesis by simp
qed

subsection \<open>Sums that stay inside a block\<close>

lemma div_add_in_block:
  fixes a n m :: nat
  assumes "a mod m + n < m"
  shows "(a + n) div m = a div m"
proof -
  have "0 < m" using assms by simp
  have "a + n = (a mod m + n) + m * (a div m)"
    by (simp add: add.assoc [symmetric] add.commute [of "a mod m"])
  then have "(a + n) div m = ((a mod m + n) + m * (a div m)) div m" by simp
  also have "\<dots> = a div m + (a mod m + n) div m"
    using \<open>0 < m\<close> by (simp only: div_mult_self2)
  finally show ?thesis using assms by simp
qed

lemma mod_add_in_block:
  fixes a n m :: nat
  assumes "a mod m + n < m"
  shows "(a + n) mod m = a mod m + n"
  using assms by (metis mod_add_left_eq mod_less)

subsection \<open>Reading and overwriting a slice of a list\<close>

definition bslice :: "nat \<Rightarrow> nat \<Rightarrow> 'a list \<Rightarrow> 'a list" where
  "bslice off n xs = take n (drop off xs)"

definition bsplice :: "nat \<Rightarrow> 'a list \<Rightarrow> 'a list \<Rightarrow> 'a list" where
  "bsplice off ys xs = take off xs @ ys @ drop (off + length ys) xs"

lemma length_bslice [byte_simps]: "off + n \<le> length xs \<Longrightarrow> length (bslice off n xs) = n"
  by (simp add: bslice_def)

lemma length_bsplice [byte_simps]: "off + length ys \<le> length xs \<Longrightarrow> length (bsplice off ys xs) = length xs"
  by (simp add: bsplice_def)

lemma bslice_bsplice_same [byte_simps]:
  "off + length ys \<le> length xs \<Longrightarrow> n = length ys \<Longrightarrow> bslice off n (bsplice off ys xs) = ys"
  by (simp add: bslice_def bsplice_def)

lemma nth_bsplice:
  assumes "off + length ys \<le> length xs" and "i < length xs"
  shows "bsplice off ys xs ! i = (if off \<le> i \<and> i < off + length ys then ys ! (i - off) else xs ! i)"
  using assms by (auto simp: bsplice_def nth_append)

lemma nth_bslice: "off + n \<le> length xs \<Longrightarrow> i < n \<Longrightarrow> bslice off n xs ! i = xs ! (off + i)"
  by (simp add: bslice_def)

lemma bslice_bsplice_disjoint [byte_simps]:
  assumes "off + length ys \<le> length xs" and "a + n \<le> length xs"
    and "a + n \<le> off \<or> off + length ys \<le> a"
  shows "bslice a n (bsplice off ys xs) = bslice a n xs"
proof (rule nth_equalityI)
  show "length (bslice a n (bsplice off ys xs)) = length (bslice a n xs)"
    using assms by (simp add: length_bslice length_bsplice)
next
  fix i assume "i < length (bslice a n (bsplice off ys xs))"
  then have i: "i < n" using assms by (simp add: length_bslice length_bsplice)
  with assms show "bslice a n (bsplice off ys xs) ! i = bslice a n xs ! i"
    by (auto simp: nth_bslice length_bsplice nth_bsplice)
qed

lemma bslice_bslice [byte_simps]:
  "a + n \<le> m \<Longrightarrow> bslice a n (bslice off m xs) = bslice (off + a) n xs"
  by (simp add: bslice_def drop_take min_def add.commute)

lemma bslice_all [byte_simps]: "n = length xs \<Longrightarrow> bslice 0 n xs = xs"
  by (simp add: bslice_def)

lemma bslice_append_left [byte_simps]:
  "off + n \<le> length xs \<Longrightarrow> bslice off n (xs @ ys) = bslice off n xs"
  by (simp add: bslice_def)

lemma bslice_append_right [byte_simps]:
  "length xs \<le> off \<Longrightarrow> bslice off n (xs @ ys) = bslice (off - length xs) n ys"
  by (simp add: bslice_def)

lemma bsplice_bslice_same: "off + n \<le> length xs \<Longrightarrow> bsplice off (bslice off n xs) xs = xs"
  by (simp add: bsplice_def bslice_def)
     (metis add.commute append_take_drop_id drop_drop)

lemma bsplice_bsplice_same:
  "length ys = length zs \<Longrightarrow> off + length ys \<le> length xs \<Longrightarrow>
   bsplice off ys (bsplice off zs xs) = bsplice off ys xs"
  by (simp add: bsplice_def)

subsection \<open>The little-endian image of a 64-bit integer\<close>

fun le_bytes :: "nat \<Rightarrow> u64 \<Rightarrow> bytes" where
  "le_bytes 0 v = []"
| "le_bytes (Suc n) v = ucast (v AND 0xFF) # le_bytes n (drop_bit 8 v)"

fun le_val :: "bytes \<Rightarrow> u64" where
  "le_val [] = 0"
| "le_val (b # bs) = (ucast b :: u64) OR push_bit 8 (le_val bs)"

abbreviation bytes_of_u64 :: "u64 \<Rightarrow> bytes" where
  "bytes_of_u64 v \<equiv> le_bytes 8 v"

abbreviation u64_of_bytes :: "bytes \<Rightarrow> u64" where
  "u64_of_bytes bs \<equiv> le_val bs"

lemma length_le_bytes [simp]: "length (le_bytes n v) = n"
  by (induction n arbitrary: v) auto

lemma byte_mask_u64: "(0xFF :: u64) = mask 8"
  by (simp add: mask_eq_exp_minus_1)

lemma le_val_le_bytes: "n \<le> 8 \<Longrightarrow> le_val (le_bytes n v) = take_bit (8 * n) v"
proof (induction n arbitrary: v)
  case 0
  then show ?case by simp
next
  case (Suc n)
  then have IH: "le_val (le_bytes n (drop_bit 8 v)) = take_bit (8 * n) (drop_bit 8 v)"
    by simp
  show ?case
  proof (rule bit_word_eqI)
    fix i assume i: "i < LENGTH(64)"
    show "bit (le_val (le_bytes (Suc n) v)) i = bit (take_bit (8 * Suc n) v) i"
      using i by (cases "i < 8")
        (auto simp: IH byte_mask_u64 bit_simps not_less)
  qed
qed

lemma u64_of_bytes_of_u64 [simp]: "u64_of_bytes (bytes_of_u64 v) = v"
  using le_val_le_bytes [of 8 v] by (simp add: take_bit_word_eq_self)

end
