(* ===== verification/Global_Address.thy ===== *)
theory Global_Address
  imports Prelude
begin

text \<open>
  \<^verbatim>\<open>src/src/rdma/global_address.hpp\<close>: the 50-bit address of a byte on one of the memory
  servers. The bit field \<^verbatim>\<open>uint64_t raw : 50\<close> is a \<^typ>\<open>50 word\<close>; the
  \<^verbatim>\<open>padding\<close> bits carry no information. The server index occupies bits 42 to 49 and
  the offset the 42 bits below them.
\<close>

type_synonym GlobalAddress = "50 word"

definition offset_mask :: u64 where
  "offset_mask = 0x0003FFFFFFFFFF"

definition GlobalAddress_of :: "u8 \<Rightarrow> u64 \<Rightarrow> GlobalAddress" where
  "GlobalAddress_of index off =
     ucast (push_bit 42 (ucast index :: u64) OR (off AND offset_mask))"

definition GlobalAddress_raw :: "u64 \<Rightarrow> GlobalAddress" where
  "GlobalAddress_raw address = ucast address"

definition server_index :: "GlobalAddress \<Rightarrow> u8" where
  "server_index g = ucast (drop_bit 42 (ucast g :: u64))"

definition gaddr_offset :: "GlobalAddress \<Rightarrow> u64" where
  "gaddr_offset g = (ucast g :: u64) AND offset_mask"

definition uintptr :: "GlobalAddress \<Rightarrow> u64" where
  "uintptr g = ucast g"

definition Null :: GlobalAddress where
  "Null = GlobalAddress_raw 0"

text \<open>
  Clients write \<^verbatim>\<open>addr + n\<close>: the address converts to \<^verbatim>\<open>uintptr_t\<close>, the sum is a
  64-bit integer, and the implicit constructor truncates it to the 50-bit field.
\<close>

definition gaddr_add :: "GlobalAddress \<Rightarrow> u64 \<Rightarrow> GlobalAddress" where
  "gaddr_add g n = GlobalAddress_raw (uintptr g + n)"

lemma offset_mask_mask: "offset_mask = mask 42"
  by (simp add: offset_mask_def mask_eq_exp_minus_1)

lemma server_index_GlobalAddress_of [simp]: "server_index (GlobalAddress_of i off) = i"
  by (rule bit_word_eqI)
     (auto simp: server_index_def GlobalAddress_of_def offset_mask_mask bit_simps)

lemma gaddr_offset_GlobalAddress_of: "gaddr_offset (GlobalAddress_of i off) = off AND offset_mask"
  by (rule bit_word_eqI)
     (auto simp: gaddr_offset_def GlobalAddress_of_def offset_mask_mask bit_simps)

lemma GlobalAddress_of_parts [simp]: "GlobalAddress_of (server_index g) (gaddr_offset g) = g"
  by (rule bit_word_eqI)
     (auto simp: server_index_def gaddr_offset_def GlobalAddress_of_def offset_mask_mask bit_simps)

lemma unat_gaddr: "unat (g :: GlobalAddress) < 2 ^ 50"
  using unsigned_less [of g] by simp

lemma unat_uintptr [simp]: "unat (uintptr g) = unat g"
proof -
  have "unat g < 2 ^ 64" using unat_gaddr [of g] by simp
  then show ?thesis by (simp add: uintptr_def unsigned_ucast_eq take_bit_eq_mod)
qed

lemma unat_gaddr_offset: "unat (gaddr_offset g) = unat g mod 2 ^ 42"
proof -
  have "gaddr_offset g = take_bit 42 (uintptr g)"
    by (simp add: gaddr_offset_def uintptr_def offset_mask_mask take_bit_eq_mask)
  then have "unat (gaddr_offset g) = take_bit 42 (unat (uintptr g))"
    by (simp only: unsigned_take_bit_eq)
  then show ?thesis by (simp only: unat_uintptr take_bit_eq_mod)
qed

lemma unat_server_index: "unat (server_index g) = unat g div 2 ^ 42"
proof -
  have "unat g div 2 ^ 42 < 2 ^ 8"
    using unat_gaddr [of g] by (simp add: less_mult_imp_div_less)
  then show ?thesis
    by (simp add: server_index_def uintptr_def [symmetric] unsigned_drop_bit_eq unsigned_ucast_eq
        take_bit_nat_eq_self drop_bit_eq_div unat_div)
qed

lemma gaddr_offset_less: "unat (gaddr_offset g) < 2 ^ 42"
  by (simp add: unat_gaddr_offset)

lemma GlobalAddress_raw_uintptr [simp]: "GlobalAddress_raw (uintptr g) = g"
  by (rule bit_word_eqI) (auto simp: GlobalAddress_raw_def uintptr_def bit_simps)

lemma unat_GlobalAddress_raw: "unat (GlobalAddress_raw v) = unat v mod 2 ^ 50"
  by (simp only: GlobalAddress_raw_def unsigned_ucast_eq unsigned_take_bit_eq take_bit_eq_mod) simp

lemma uintptr_GlobalAddress_raw: "unat v < 2 ^ 50 \<Longrightarrow> uintptr (GlobalAddress_raw v) = v"
  by (simp add: word_unat_eq_iff unat_GlobalAddress_raw)

lemma unat_gaddr_split: "unat g = unat (server_index g) * 2 ^ 42 + unat (gaddr_offset g)"
  by (simp add: unat_server_index unat_gaddr_offset)

lemma unat_gaddr_add:
  assumes "unat (gaddr_offset g) + unat n < 2 ^ 42"
  shows "unat (gaddr_add g n) = unat g + unat n"
proof -
  have "unat (server_index g) < 2 ^ 8"
    using unsigned_less [of "server_index g"] by simp
  then have "unat (server_index g) * 2 ^ 42 + unat (gaddr_offset g) + unat n < 2 ^ 50"
    using assms by simp
  then have "unat g + unat n < 2 ^ 50" by (simp only: unat_gaddr_split [of g])
  then show ?thesis
    by (simp add: gaddr_add_def unat_GlobalAddress_raw unat_word_ariths)
qed

lemma server_index_gaddr_add:
  assumes "unat (gaddr_offset g) + unat n < 2 ^ 42"
  shows "server_index (gaddr_add g n) = server_index g"
proof -
  have "unat (server_index (gaddr_add g n)) = unat (server_index g)"
    using assms by (simp only: unat_server_index unat_gaddr_add unat_gaddr_offset div_add_in_block)
  then show ?thesis by (simp add: word_unat_eq_iff)
qed

lemma gaddr_offset_gaddr_add:
  assumes "unat (gaddr_offset g) + unat n < 2 ^ 42"
  shows "unat (gaddr_offset (gaddr_add g n)) = unat (gaddr_offset g) + unat n"
  using assms by (simp only: unat_gaddr_offset unat_gaddr_add mod_add_in_block)

lemmas gaddr_add_simps [addr_simps] =
  server_index_gaddr_add gaddr_offset_gaddr_add

subsection \<open>Properties\<close>

text \<open>
  C32. Addresses are pairs. Splitting an address into its server and its offset and joining
  the two again is the identity, joining keeps the server index and the low 42 bits of the
  offset, and adding a displacement that stays inside the 42 bits moves the offset and leaves the
  server alone.
\<close>

theorem gaddr_split_join:
  assumes "unat (gaddr_offset g) + unat n < 2 ^ 42"
  shows "GlobalAddress_of (server_index g) (gaddr_offset g) = g \<and>
    server_index (GlobalAddress_of i off) = i \<and>
    unat (gaddr_offset (GlobalAddress_of i off)) = unat off mod 2 ^ 42 \<and>
    server_index (gaddr_add g n) = server_index g \<and>
    unat (gaddr_offset (gaddr_add g n)) = unat (gaddr_offset g) + unat n"
proof -
  have "gaddr_offset (GlobalAddress_of i off) = take_bit 42 off"
    by (simp add: gaddr_offset_GlobalAddress_of offset_mask_mask take_bit_eq_mask)
  then have "unat (gaddr_offset (GlobalAddress_of i off)) = unat off mod 2 ^ 42"
    by (simp only: unsigned_take_bit_eq) (simp only: take_bit_eq_mod)
  then show ?thesis using assms by (simp only: gaddr_add_simps) simp
qed

theorem gaddr_split_join_witness:
  "server_index (gaddr_add (GlobalAddress_of 3 100) 28) = 3 \<and>
   unat (gaddr_offset (gaddr_add (GlobalAddress_of 3 100) 28)) = 128"
proof -
  have off: "gaddr_offset (GlobalAddress_of 3 100) = 100" by code_simp
  show ?thesis using gaddr_split_join [of "GlobalAddress_of 3 100" 28 3 100] by (simp add: off)
qed

end
