(* ===== verification/Kv_Block.thy ===== *)
theory Kv_Block
  imports Global_Address
begin

text \<open>
  \<^verbatim>\<open>src/src/kv_index/faunus_index.hpp\<close>, namespace \<^verbatim>\<open>faunus_index_internal\<close>: the 12-bit
  fingerprint of a key and the 64-bit \<^verbatim>\<open>KVBlock\<close>, the slot of a leaf, which packs a
  fingerprint (bits 52 to 63), the address of the key-value item (bits 2 to 51), a free bit
  and a lock bit. The masks are written as in the source: the two of \<^verbatim>\<open>setAddr\<close> have 15
  hexadecimal digits, one fewer than the other masks of the class.
\<close>

subsection \<open>Fingerprint\<close>

type_synonym Fingerprint = "12 word"

definition Fingerprint_of :: "u16 \<Rightarrow> Fingerprint" where
  "Fingerprint_of v = ucast (v AND 0x0FFF)"

fun fp_hash :: "u16 \<Rightarrow> bytes \<Rightarrow> u16" where
  "fp_hash hash [] = hash"
| "fp_hash hash (b # bs) = fp_hash (hash XOR ucast b) bs"

definition Fingerprint_of_key :: "bytes \<Rightarrow> Fingerprint" where
  "Fingerprint_of_key key = ucast (fp_hash 0 key AND 0x0FFF)"

subsection \<open>KVBlock\<close>

type_synonym KVBlock = u64

definition getFingerprint :: "KVBlock \<Rightarrow> Fingerprint" where
  "getFingerprint raw = Fingerprint_of (ucast (drop_bit 52 raw))"

definition getAddr :: "KVBlock \<Rightarrow> GlobalAddress" where
  "getAddr raw = GlobalAddress_raw (drop_bit 2 (raw AND 0x000FFFFFFFFFFFFF))"

definition isFree :: "KVBlock \<Rightarrow> bool" where
  "isFree raw \<longleftrightarrow> drop_bit 1 (raw AND 0x2) \<noteq> 0"

definition isLocked :: "KVBlock \<Rightarrow> bool" where
  "isLocked raw \<longleftrightarrow> raw AND 0x1 \<noteq> 0"

definition setFingerprint :: "KVBlock \<Rightarrow> Fingerprint \<Rightarrow> KVBlock" where
  "setFingerprint raw fp = (raw AND 0x000FFFFFFFFFFFFF) OR push_bit 52 (ucast fp)"

definition setAddr :: "KVBlock \<Rightarrow> GlobalAddress \<Rightarrow> KVBlock" where
  "setAddr raw ptr = (raw AND 0xFFF000000000003) OR (push_bit 2 (ucast ptr) AND 0x000FFFFFFFFFFFC)"

definition setFree :: "KVBlock \<Rightarrow> bool \<Rightarrow> KVBlock" where
  "setFree raw free = (raw AND 0xFFFFFFFFFFFFFFFD) OR push_bit 1 (of_bool free)"

definition setLocked :: "KVBlock \<Rightarrow> bool \<Rightarrow> KVBlock" where
  "setLocked raw locked = (raw AND 0xFFFFFFFFFFFFFFFE) OR of_bool locked"

definition KVBlock_of :: "Fingerprint \<Rightarrow> GlobalAddress \<Rightarrow> bool \<Rightarrow> bool \<Rightarrow> KVBlock" where
  "KVBlock_of fp ptr free locked =
     setLocked (setFree (setAddr (setFingerprint 0 fp) ptr) free) locked"

subsection \<open>The masks as bit ranges\<close>

lemma mask_low52: "(0x000FFFFFFFFFFFFF :: u64) = mask 52"
  by (simp add: mask_eq_exp_minus_1)

lemma mask_setAddr_keep: "(0xFFF000000000003 :: u64) = push_bit 48 (mask 12) OR mask 2"
  by (simp add: mask_eq_exp_minus_1 push_bit_eq_mult)

lemma mask_setAddr_new: "(0x000FFFFFFFFFFFC :: u64) = push_bit 2 (mask 46)"
  by (simp add: mask_eq_exp_minus_1 push_bit_eq_mult)

lemma mask_not_free: "(0xFFFFFFFFFFFFFFFD :: u64) = NOT (push_bit 1 (mask 1))"
  by (simp add: mask_eq_exp_minus_1 push_bit_eq_mult)

lemma mask_not_locked: "(0xFFFFFFFFFFFFFFFE :: u64) = NOT (mask 1)"
  by (simp add: mask_eq_exp_minus_1)

lemma mask_fp: "(0x0FFF :: u16) = mask 12"
  by (simp add: mask_eq_exp_minus_1)

lemmas kv_masks = mask_low52 mask_setAddr_keep mask_setAddr_new mask_not_free mask_not_locked mask_fp

lemma isFree_bit: "isFree raw \<longleftrightarrow> bit raw 1"
proof -
  have "drop_bit 1 (raw AND 0x2) = of_bool (bit raw 1)"
    by (rule bit_word_eqI) (auto simp: bit_simps)
  then show ?thesis by (simp add: isFree_def)
qed

lemma isLocked_bit: "isLocked raw \<longleftrightarrow> bit raw 0"
  by (simp add: isLocked_def and_one_eq bit_0 odd_iff_mod_2_eq_one)

lemma bit_getFingerprint: "bit (getFingerprint raw) n \<longleftrightarrow> n < 12 \<and> bit raw (52 + n)"
  by (auto simp: getFingerprint_def Fingerprint_of_def kv_masks bit_simps)

lemma bit_getAddr: "bit (getAddr raw) n \<longleftrightarrow> n < 50 \<and> bit raw (2 + n)"
  by (auto simp: getAddr_def GlobalAddress_raw_def kv_masks bit_simps)

lemma bit_setFingerprint:
  "bit (setFingerprint raw fp) n \<longleftrightarrow> (if n < 52 then bit raw n else n < 64 \<and> bit fp (n - 52))"
  by (auto simp: setFingerprint_def kv_masks bit_simps)

lemma bit_setAddr:
  "bit (setAddr raw ptr) n \<longleftrightarrow>
     (if n < 2 then bit raw n else if n < 48 then bit ptr (n - 2) else n < 60 \<and> bit raw n)"
  by (auto simp: setAddr_def kv_masks bit_simps)

lemma bit_setFree: "bit (setFree raw f) n \<longleftrightarrow> (if n = 1 then f else bit raw n)"
  by (auto simp: setFree_def kv_masks bit_simps dest: bit_imp_le_length)

lemma bit_setLocked: "bit (setLocked raw l) n \<longleftrightarrow> (if n = 0 then l else bit raw n)"
  by (auto simp: setLocked_def kv_masks bit_simps dest: bit_imp_le_length)

lemmas kv_bits = isFree_bit isLocked_bit bit_getFingerprint bit_getAddr
  bit_setFingerprint bit_setAddr bit_setFree bit_setLocked

subsection \<open>What the accessors read back\<close>

lemma getFingerprint_KVBlock_of: "getFingerprint (KVBlock_of fp ptr f l) = fp AND mask 8"
  by (rule bit_word_eqI) (auto simp: KVBlock_of_def kv_bits bit_simps)

lemma getAddr_KVBlock_of: "getAddr (KVBlock_of fp ptr f l) = ptr AND mask 46"
  by (rule bit_word_eqI) (auto simp: KVBlock_of_def kv_bits bit_simps)

lemma isFree_KVBlock_of [simp]: "isFree (KVBlock_of fp ptr f l) = f"
  by (simp add: KVBlock_of_def kv_bits)

lemma isLocked_KVBlock_of [simp]: "isLocked (KVBlock_of fp ptr f l) = l"
  by (simp add: KVBlock_of_def kv_bits)

lemma setLocked_accessors [simp]:
  "getFingerprint (setLocked b l) = getFingerprint b"
  "getAddr (setLocked b l) = getAddr b"
  "isFree (setLocked b l) = isFree b"
  "isLocked (setLocked b l) = l"
  by (auto intro!: bit_word_eqI simp: kv_bits)

lemma setFree_accessors [simp]:
  "getFingerprint (setFree b f) = getFingerprint b"
  "getAddr (setFree b f) = getAddr b"
  "isFree (setFree b f) = f"
  "isLocked (setFree b f) = isLocked b"
  by (auto intro!: bit_word_eqI simp: kv_bits)

lemma kvblock_eqI:
  assumes "getFingerprint a = getFingerprint b" and "getAddr a = getAddr b"
    and "isFree a = isFree b" and "isLocked a = isLocked b"
  shows "a = b"
proof (rule bit_word_eqI)
  fix n assume n: "n < LENGTH(64)"
  show "bit a n = bit b n"
  proof (cases "n < 52")
    case True
    then consider "n = 0" | "n = 1" | "2 \<le> n" "n - 2 < 50" by linarith
    then show ?thesis
    proof cases
      case 3
      then have "2 + (n - 2) = n" by simp
      with 3 show ?thesis
        using assms(2) bit_getAddr [of a "n - 2"] bit_getAddr [of b "n - 2"] by simp
    qed (use assms(3,4) in \<open>simp_all add: isFree_bit isLocked_bit\<close>)
  next
    case False
    with n have "n - 52 < 12" and "52 + (n - 52) = n" by simp_all
    then show ?thesis
      using assms(1) bit_getFingerprint [of a "n - 52"] bit_getFingerprint [of b "n - 52"]
      by simp
  qed
qed

text \<open>The hash of a key is an exclusive-or of bytes, so its fingerprint fits in eight bits.\<close>

lemma bit_fp_hash: "(\<And>i. 8 \<le> i \<Longrightarrow> \<not> bit h i) \<Longrightarrow> 8 \<le> n \<Longrightarrow> \<not> bit (fp_hash h bs) n"
proof (induction bs arbitrary: h)
  case (Cons b bs)
  have "\<not> bit (h XOR ucast b) i" if "8 \<le> i" for i
    using Cons.prems(1) [OF that] that by (auto simp: bit_simps dest: bit_imp_le_length)
  then show ?case using Cons.IH Cons.prems(2) by simp
qed simp

lemma Fingerprint_of_key_low: "Fingerprint_of_key key AND mask 8 = Fingerprint_of_key key"
proof (rule bit_word_eqI)
  fix n
  have "8 \<le> n \<Longrightarrow> \<not> bit (fp_hash 0 key) n" by (rule bit_fp_hash) simp_all
  then show "bit (Fingerprint_of_key key AND mask 8) n = bit (Fingerprint_of_key key) n"
    by (cases "n < 8") (auto simp: Fingerprint_of_key_def kv_masks bit_simps)
qed

lemma getFingerprint_KVBlock_of_key [simp]:
  "getFingerprint (KVBlock_of (Fingerprint_of_key key) ptr f l) = Fingerprint_of_key key"
  by (simp add: getFingerprint_KVBlock_of Fingerprint_of_key_low)

lemma mask46_iff: "(ptr :: GlobalAddress) AND mask 46 = ptr \<longleftrightarrow> unat ptr < 2 ^ 46"
proof -
  have "unat (ptr AND mask 46) = unat ptr mod 2 ^ 46"
    by (simp only: take_bit_eq_mask [symmetric] unsigned_take_bit_eq) (simp only: take_bit_eq_mod)
  then have "ptr AND mask 46 = ptr \<longleftrightarrow> unat ptr mod 2 ^ 46 = unat ptr"
    by (simp only: word_unat_eq_iff)
  also have "\<dots> \<longleftrightarrow> unat ptr < 2 ^ 46"
    by (simp add: mod_eq_self_iff_div_eq_0 div_eq_0_iff)
  finally show ?thesis .
qed

lemma getAddr_KVBlock_of_iff: "getAddr (KVBlock_of fp ptr f l) = ptr \<longleftrightarrow> unat ptr < 2 ^ 46"
  by (simp add: getAddr_KVBlock_of mask46_iff)

lemma addr_small_iff_server: "unat ptr < 2 ^ 46 \<longleftrightarrow> unat (server_index ptr) < 16"
  by (simp add: unat_server_index div_less_iff_less_mult)

subsection \<open>Taking and releasing the lock bit with fetch-and-add\<close>

lemma faa_lock:
  assumes "\<not> isLocked raw"
  shows "raw + 1 = setLocked raw True"
proof -
  have "raw AND 1 = 0"
    using assms by (simp add: isLocked_def)
  then have "raw + 1 = raw OR 1"
    by (rule disjunctive_add_eq_or)
  moreover have "raw OR 1 = setLocked raw True"
    by (rule bit_word_eqI) (auto simp: bit_setLocked bit_simps)
  ultimately show ?thesis by simp
qed

lemma faa_unlock:
  assumes "isLocked raw"
  shows "raw - 1 = setLocked raw False"
proof -
  have "setLocked raw False + 1 = setLocked (setLocked raw False) True"
    by (rule faa_lock) simp
  also have "\<dots> = raw"
    by (rule bit_word_eqI) (use assms in \<open>auto simp: bit_setLocked isLocked_bit\<close>)
  finally show ?thesis by (simp add: eq_diff_eq [symmetric])
qed

subsection \<open>Properties\<close>

text \<open>
  C30. What a slot of a leaf remembers. A block built for a key, an address and the two flags
  reads back the fingerprint of the key and both flags; it reads back the address exactly when
  the address lies on one of the servers 0 to 15, because \<^verbatim>\<open>setAddr\<close> keeps 46 of the 50 address bits.
\<close>

theorem kvblock_fields:
  "getFingerprint (KVBlock_of (Fingerprint_of_key key) ptr free locked) = Fingerprint_of_key key \<and>
   isFree (KVBlock_of (Fingerprint_of_key key) ptr free locked) = free \<and>
   isLocked (KVBlock_of (Fingerprint_of_key key) ptr free locked) = locked \<and>
   (getAddr (KVBlock_of (Fingerprint_of_key key) ptr free locked) = ptr \<longleftrightarrow> unat (server_index ptr) < 16)"
  by (simp only: getFingerprint_KVBlock_of_key isFree_KVBlock_of isLocked_KVBlock_of
      getAddr_KVBlock_of_iff addr_small_iff_server simp_thms)

text \<open>
  Fetch-and-add as a lock. Adding 1 to an unlocked block locks it and adding \<open>-1\<close> (64-bit
  wrap-around) to a locked one unlocks it; neither touches the fingerprint, the address or the
  free bit, and the second undoes the first.
\<close>

theorem kvblock_lock_faa:
  "(if isLocked raw then raw + (-1) = setLocked raw False else raw + 1 = setLocked raw True) \<and>
   raw + 1 + (-1) = raw \<and>
   (\<forall>l. getFingerprint (setLocked raw l) = getFingerprint raw \<and> getAddr (setLocked raw l) = getAddr raw \<and>
        isFree (setLocked raw l) = isFree raw \<and> isLocked (setLocked raw l) = l)"
  using faa_lock [of raw] faa_unlock [of raw] by simp

end
