(* ===== verification/Array_Var.thy ===== *)
theory Array_Var
  imports Prelude
begin

text \<open>
  \<^verbatim>\<open>src/src/util/array_var.hpp\<close>: \<^verbatim>\<open>ArrayVar<N>\<close>, the fixed-size big-endian byte array
  that keys and values are instances of. A value of the class is its array \<^verbatim>\<open>data_\<close>, a byte
  list of length \<open>N\<close>; the template argument is the argument \<open>N\<close> of the constructors.
  \<open>be_val\<close> is the number such an array denotes: the comparison operators are the order of
  these numbers, and \<^verbatim>\<open>+=\<close>, \<^verbatim>\<open>-=\<close> are their sum and difference modulo \<open>256 ^ N\<close>.
\<close>

subsection \<open>Constructors\<close>

definition ArrayVar_default :: "nat \<Rightarrow> bytes" where
  "ArrayVar_default N = replicate N 0"

text \<open>
  The loops over \<^verbatim>\<open>i = 0, \<dots>, N - 1\<close> recurse on the number of iterations left, which is
  \<open>N - i\<close>; the index \<^verbatim>\<open>idx = N - 1 - i\<close> is then the predecessor of that number.
\<close>

fun of_u64_loop :: "nat \<Rightarrow> nat \<Rightarrow> u64 \<Rightarrow> bytes \<Rightarrow> bytes" where
  "of_u64_loop 0 i v data = data"
| "of_u64_loop (Suc idx) i v data =
     (if i < 8 then of_u64_loop idx (Suc i) (drop_bit 8 v) (data[idx := ucast (v AND 0xFF)])
      else of_u64_loop idx (Suc i) v (data[idx := 0]))"

definition ArrayVar_of_u64 :: "nat \<Rightarrow> u64 \<Rightarrow> bytes" where
  "ArrayVar_of_u64 N v = of_u64_loop N 0 v (replicate N 0)"

definition ArrayVar_of_bytes :: "nat \<Rightarrow> bytes \<Rightarrow> nat \<Rightarrow> bytes" where
  "ArrayVar_of_bytes N src sz = bsplice 0 (take (min sz N) src) (replicate N 0)"

definition ArrayVar_min :: "nat \<Rightarrow> bytes" where
  "ArrayVar_min N = ArrayVar_default N"

definition ArrayVar_max :: "nat \<Rightarrow> bytes" where
  "ArrayVar_max N = replicate N 0xFF"

subsection \<open>Comparison\<close>

text \<open>\<^verbatim>\<open>memcmp\<close> returns a number whose sign is that of the first difference of two bytes.\<close>

fun memcmp :: "bytes \<Rightarrow> bytes \<Rightarrow> int" where
  "memcmp (a # as) (b # bs) = (if a = b then memcmp as bs else uint a - uint b)"
| "memcmp _ _ = 0"

definition key_eq :: "bytes \<Rightarrow> bytes \<Rightarrow> bool" where "key_eq a b \<longleftrightarrow> memcmp a b = 0"
definition key_lt :: "bytes \<Rightarrow> bytes \<Rightarrow> bool" where "key_lt a b \<longleftrightarrow> memcmp a b < 0"
definition key_le :: "bytes \<Rightarrow> bytes \<Rightarrow> bool" where "key_le a b \<longleftrightarrow> memcmp a b \<le> 0"
definition key_ne :: "bytes \<Rightarrow> bytes \<Rightarrow> bool" where "key_ne a b \<longleftrightarrow> memcmp a b \<noteq> 0"
definition key_gt :: "bytes \<Rightarrow> bytes \<Rightarrow> bool" where "key_gt a b \<longleftrightarrow> memcmp a b > 0"
definition key_ge :: "bytes \<Rightarrow> bytes \<Rightarrow> bool" where "key_ge a b \<longleftrightarrow> memcmp a b \<ge> 0"

subsection \<open>Arithmetic\<close>

fun add_loop :: "nat \<Rightarrow> nat \<Rightarrow> u64 \<Rightarrow> u16 \<Rightarrow> bytes \<Rightarrow> bytes" where
  "add_loop 0 i v carry data = data"
| "add_loop (Suc idx) i v carry data =
     (let add = (if i < 8 then carry + ucast (v AND 0xFF) else carry);
          sum = ucast (data ! idx) + add;
          data' = data[idx := ucast (sum AND 0xFF)];
          carry' = (if sum > 0xFF then 1 else 0);
          v' = (if i < 8 then drop_bit 8 v else v)
      in add_loop idx (Suc i) v' carry' data')"

definition add_assign :: "bytes \<Rightarrow> u64 \<Rightarrow> bytes" where
  "add_assign data v = add_loop (length data) 0 v 0 data"

fun sub_loop :: "nat \<Rightarrow> nat \<Rightarrow> u64 \<Rightarrow> int \<Rightarrow> bytes \<Rightarrow> bytes" where
  "sub_loop 0 i v borrow data = data"
| "sub_loop (Suc idx) i v borrow data =
     (let sub = (if i < 8 then borrow + uint (v AND 0xFF) else borrow);
          res = uint (data ! idx) - sub;
          res' = (if res < 0 then res + 256 else res);
          borrow' = (if res < 0 then 1 else 0);
          data' = data[idx := word_of_int res'];
          v' = (if i < 8 then drop_bit 8 v else v)
      in sub_loop idx (Suc i) v' borrow' data')"

definition sub_assign :: "bytes \<Rightarrow> u64 \<Rightarrow> bytes" where
  "sub_assign data v = sub_loop (length data) 0 v 0 data"

subsection \<open>The specialisation of \<open>std::hash\<close>\<close>

definition array_hash :: "bytes \<Rightarrow> u64" where
  "array_hash a = foldl (\<lambda>h b. h * 31 + ucast b) 0 a"

subsection \<open>The denoted number\<close>

fun be_val :: "bytes \<Rightarrow> nat" where
  "be_val [] = 0"
| "be_val (b # bs) = unat b * 256 ^ length bs + be_val bs"

lemma be_val_less: "be_val bs < 256 ^ length bs"
proof (induction bs)
  case (Cons b bs)
  have "unat b \<le> 255" by (rule unat_u8_le)
  then have "unat b * 256 ^ length bs \<le> 255 * 256 ^ length bs" by (rule mult_le_mono1)
  then show ?case
    using Cons.IH unfolding be_val.simps length_Cons power_Suc by linarith
qed simp

lemma be_val_append: "be_val (as @ bs) = be_val as * 256 ^ length bs + be_val bs"
  by (induction as) (simp_all add: power_add algebra_simps)

lemma be_val_snoc: "be_val (as @ [b]) = be_val as * 256 + unat b"
  by (simp add: be_val_append)

lemma be_val_replicate_0 [simp]: "be_val (replicate n 0) = 0"
  by (induction n) simp_all

lemma be_val_lex:
  assumes "length as = length bs" and "a < (b :: u8)"
  shows "be_val (a # as) < be_val (b # bs)"
proof -
  have "be_val (a # as) < unat a * 256 ^ length as + 256 ^ length as"
    using be_val_less [of as] by simp
  also have "\<dots> = (unat a + 1) * 256 ^ length as" by simp
  also have "\<dots> \<le> unat b * 256 ^ length as"
    using assms(2) by (intro mult_le_mono1) (simp add: word_less_nat_alt)
  also have "\<dots> \<le> be_val (b # bs)" using assms(1) by simp
  finally show ?thesis .
qed

lemma be_val_inj: "length as = length bs \<Longrightarrow> be_val as = be_val bs \<longleftrightarrow> as = bs"
proof (induction as bs rule: list_induct2)
  case (Cons a as b bs)
  show ?case
  proof (cases a b rule: linorder_cases)
    case less
    then show ?thesis using be_val_lex [OF Cons.hyps less] by auto
  next
    case greater
    then show ?thesis using be_val_lex [OF Cons.hyps [symmetric] greater] by auto
  qed (use Cons in simp)
qed simp

lemma memcmp_be_val:
  "length as = length bs \<Longrightarrow>
     (memcmp as bs < 0 \<longleftrightarrow> be_val as < be_val bs) \<and> (memcmp as bs = 0 \<longleftrightarrow> as = bs)"
proof (induction as bs rule: list_induct2)
  case (Cons a as b bs)
  show ?case
  proof (cases a b rule: linorder_cases)
    case less
    then show ?thesis
      using be_val_lex [OF Cons.hyps less] by (auto simp: word_less_def)
  next
    case greater
    then show ?thesis
      using be_val_lex [OF Cons.hyps [symmetric] greater] by (auto simp: word_less_def)
  qed (use Cons in simp)
qed simp

lemma key_eq_iff: "length a = length b \<Longrightarrow> key_eq a b \<longleftrightarrow> a = b"
  by (simp add: key_eq_def memcmp_be_val)

lemma key_ne_iff: "length a = length b \<Longrightarrow> key_ne a b \<longleftrightarrow> a \<noteq> b"
  by (simp add: key_ne_def memcmp_be_val)

lemma key_lt_iff: "length a = length b \<Longrightarrow> key_lt a b \<longleftrightarrow> be_val a < be_val b"
  by (simp add: key_lt_def memcmp_be_val)

lemma key_le_iff: "length a = length b \<Longrightarrow> key_le a b \<longleftrightarrow> be_val a \<le> be_val b"
  by (simp add: key_le_def le_less memcmp_be_val be_val_inj)

lemma key_ge_iff: "length a = length b \<Longrightarrow> key_ge a b \<longleftrightarrow> be_val b \<le> be_val a"
  by (simp add: key_ge_def linorder_not_less [symmetric] memcmp_be_val)

lemma key_gt_iff: "length a = length b \<Longrightarrow> key_gt a b \<longleftrightarrow> be_val b < be_val a"
  by (simp add: key_gt_def linorder_not_le [symmetric] key_le_iff [unfolded key_le_def])

lemmas key_order_simps = key_eq_iff key_ne_iff key_lt_iff key_le_iff key_ge_iff key_gt_iff

subsection \<open>Lengths\<close>

lemma length_of_u64_loop [simp]: "length (of_u64_loop n i v data) = length data"
  by (induction n i v data rule: of_u64_loop.induct) simp_all

lemma length_add_loop [simp]: "length (add_loop n i v c data) = length data"
  by (induction n i v c data rule: add_loop.induct) (simp_all add: Let_def)

lemma length_sub_loop [simp]: "length (sub_loop n i v b data) = length data"
  by (induction n i v b data rule: sub_loop.induct) (simp_all add: Let_def)

lemma length_ArrayVar [simp]:
  "length (ArrayVar_default N) = N"
  "length (ArrayVar_of_u64 N v) = N"
  "length (ArrayVar_min N) = N"
  "length (ArrayVar_max N) = N"
  "length (add_assign a v) = length a"
  "length (sub_assign a v) = length a"
  by (simp_all add: ArrayVar_default_def ArrayVar_of_u64_def ArrayVar_min_def ArrayVar_max_def
      add_assign_def sub_assign_def)

subsection \<open>The arithmetic loops\<close>

lemma unat_low_byte: "unat (v AND 0xFF) = unat v mod 256" for v :: u64
proof -
  have "unat (v AND 0xFF) = take_bit 8 (unat v)"
    by (simp only: byte_mask_u64 take_bit_eq_mask [symmetric] unsigned_take_bit_eq)
  then show ?thesis by (simp only: take_bit_eq_mod) simp
qed

lemma unat_low_byte16: "unat (ucast (v AND 0xFF) :: u16) = unat v mod 256" for v :: u64
proof -
  have "unat (ucast (v AND 0xFF) :: u16) = take_bit 16 (unat (v AND 0xFF))"
    by (simp only: unsigned_ucast_eq) simp
  also have "\<dots> = (unat v mod 256) mod 2 ^ 16"
    by (simp only: take_bit_eq_mod unat_low_byte)
  also have "\<dots> = unat v mod 256"
    by (rule mod_less) (rule less_le_trans [OF mod_less_divisor], simp_all)
  finally show ?thesis .
qed

lemma unat_ucast_low_byte: "unat (ucast (s AND 0xFF) :: u8) = unat s mod 256" for s :: u16
proof -
  have "(ucast (s AND 0xFF) :: u8) = ucast s"
  proof (rule bit_word_eqI)
    fix n assume n: "n < LENGTH(8)"
    have m: "(0xFF :: u16) = mask 8" by (simp add: mask_eq_exp_minus_1)
    show "bit (ucast (s AND 0xFF) :: u8) n = bit (ucast s :: u8) n"
      unfolding m using n by (simp add: bit_simps)
  qed
  then show ?thesis by (simp add: unsigned_ucast_eq take_bit_eq_mod unat_mod)
qed

lemma unat_drop_byte: "unat (drop_bit 8 v) = unat v div 256" for v :: u64
  by (simp add: drop_bit_eq_div unat_div)

text \<open>One step of a multi-byte sum: peel off the least significant digit.\<close>

lemma mod_peel_byte:
  fixes b x m :: nat
  assumes "b < 256"
  shows "(256 * x + b) mod (256 * m) = 256 * (x mod m) + b"
  using assms by (simp add: mod_mult2_eq)

lemma next_digit:
  fixes v :: u64
  assumes "unat v < 256 ^ (8 - i)"
  defines "v' \<equiv> if i < 8 then drop_bit 8 v else v"
  shows "unat v = unat v' * 256 + unat v mod 256" and "unat v' < 256 ^ (8 - Suc i)"
proof -
  show "unat v = unat v' * 256 + unat v mod 256"
    using assms by (cases "i < 8") (simp_all add: unat_drop_byte)
  have "256 ^ (8 - i) = 256 * (256 :: nat) ^ (8 - Suc i)" if "i < 8"
    using that by (simp add: Suc_diff_Suc flip: power_Suc)
  then show "unat v' < 256 ^ (8 - Suc i)"
    using assms by (auto simp: unat_drop_byte div_less_iff_less_mult mult.commute)
qed

lemma add_loop_be_val:
  assumes "unat v < 256 ^ (8 - i)" and "unat c \<le> 1" and "length lo = i"
  shows "be_val (add_loop (length hi) i v c (hi @ lo)) =
    ((be_val hi + unat v + unat c) mod 256 ^ length hi) * 256 ^ i + be_val lo"
  using assms
proof (induction hi arbitrary: i v c lo rule: rev_induct)
  case Nil
  then show ?case by simp
next
  case (snoc b hi)
  define add where "add = (if i < 8 then c + ucast (v AND 0xFF) else c)"
  define s where "s = ucast b + add"
  define c' where "c' = (if s > 0xFF then 1 else (0 :: u16))"
  define b' where "b' = (ucast (s AND 0xFF) :: u8)"
  define v' where "v' = (if i < 8 then drop_bit 8 v else v)"
  have v: "unat v = unat v' * 256 + unat v mod 256" and v': "unat v' < 256 ^ (8 - Suc i)"
    using next_digit [OF snoc.prems(1)] by (simp_all add: v'_def)
  have add: "unat add = unat v mod 256 + unat c"
    using snoc.prems(1,2) mod_less_divisor [of 256 "unat v"]
    by (auto simp: add_def unat_word_ariths unat_low_byte16)
  have s: "unat s = unat b + unat v mod 256 + unat c"
    using snoc.prems(2) unat_u8_le [of b]
    by (simp add: s_def unat_word_ariths add unsigned_ucast_eq take_bit_nat_eq_self)
  have small: "unat s < 512"
    unfolding s using snoc.prems(2) unat_u8_le [of b] mod_less_divisor [of 256 "unat v"] by linarith
  have bc: "unat b' + 256 * unat c' = unat s"
  proof (cases "unat s > 255")
    case True
    then have "c' = 1" by (simp add: c'_def word_less_nat_alt)
    moreover have "unat s mod 256 = unat s - 256" using True small by (simp add: mod_if)
    ultimately show ?thesis using True by (simp add: b'_def unat_ucast_low_byte)
  next
    case False
    then have "c' = 0" by (simp add: c'_def word_less_nat_alt)
    then show ?thesis using False by (simp add: b'_def unat_ucast_low_byte)
  qed
  have "add_loop (length (hi @ [b])) i v c ((hi @ [b]) @ lo) = add_loop (length hi) (Suc i) v' c' (hi @ (b' # lo))"
    by (simp add: Let_def s_def [symmetric] add_def [symmetric] c'_def b'_def v'_def list_update_append nth_append)
  also have "be_val \<dots> = ((be_val hi + unat v' + unat c') mod 256 ^ length hi) * 256 ^ Suc i + be_val (b' # lo)"
    by (rule snoc.IH) (use v' snoc.prems(3) in \<open>auto simp: c'_def\<close>)
  also have "\<dots> = (256 * ((be_val hi + unat v' + unat c') mod 256 ^ length hi) + unat b') * 256 ^ i + be_val lo"
    using snoc.prems(3) by (simp add: algebra_simps)
  also have "256 * ((be_val hi + unat v' + unat c') mod 256 ^ length hi) + unat b' =
      (256 * (be_val hi + unat v' + unat c') + unat b') mod 256 ^ length (hi @ [b])"
    using mod_peel_byte [of "unat b'" "be_val hi + unat v' + unat c'" "256 ^ length hi"] unat_u8_le [of b']
    by simp
  also have "256 * (be_val hi + unat v' + unat c') + unat b' = be_val (hi @ [b]) + unat v + unat c"
    using v s bc by (simp add: be_val_snoc)
  finally show ?case .
qed

lemma unat_u64_digits: "unat (v :: u64) < 256 ^ (8 - 0)"
proof -
  have "unat v < 2 ^ LENGTH(64)" by (rule unsigned_less)
  then show ?thesis by simp
qed

lemma add_assign_be_val: "be_val (add_assign a v) = (be_val a + unat v) mod 256 ^ length a"
  using add_loop_be_val [of v 0 0 "[]" a, OF unat_u64_digits] by (simp add: add_assign_def)

text \<open>The subtraction loop satisfies the same digit-wise invariant, read from the result.\<close>

lemma sub_loop_be_val:
  assumes "unat v < 256 ^ (8 - i)" and "c \<in> {0, 1}" and "length lo = i"
  shows "\<exists>r. sub_loop (length hi) i v c (hi @ lo) = r @ lo \<and> length r = length hi \<and>
    (be_val r + unat v + nat c) mod 256 ^ length hi = be_val hi"
  using assms
proof (induction hi arbitrary: i v c lo rule: rev_induct)
  case Nil
  then show ?case by simp
next
  case (snoc b hi)
  define vm where "vm = unat v mod 256"
  define res where "res = uint b - (c + int vm)"
  define c' where "c' = (if res < 0 then 1 else (0 :: int))"
  define b' where "b' = (word_of_int (if res < 0 then res + 256 else res) :: u8)"
  define v' where "v' = (if i < 8 then drop_bit 8 v else v)"
  have v: "unat v = unat v' * 256 + vm" and v': "unat v' < 256 ^ (8 - Suc i)"
    using next_digit [OF snoc.prems(1)] by (simp_all add: v'_def vm_def)
  have sub: "(if i < 8 then c + uint (v AND 0xFF) else c) = c + int vm"
  proof (cases "i < 8")
    case True
    have "uint (v AND 0xFF) = int (unat (v AND 0xFF))" by (rule uint_nat)
    then show ?thesis using True by (simp only: vm_def unat_low_byte if_True)
  qed (use snoc.prems(1) in \<open>simp add: vm_def\<close>)
  have vm: "vm < 256" by (simp add: vm_def)
  have "uint b < 2 ^ LENGTH(8)" by (rule unsigned_less)
  then have b: "0 \<le> uint b" "uint b < 256" by simp_all
  have c: "0 \<le> c" "c \<le> 1" using snoc.prems(2) by auto
  have "- 256 \<le> res" "res < 256" unfolding res_def using b vm c by linarith+
  then have "uint b' = (if res < 0 then res + 256 else res)"
    by (simp add: b'_def unsigned_of_int take_bit_int_eq_self)
  then have "uint b' + int vm + c = uint b + 256 * c'"
    by (simp add: c'_def res_def)
  then have "int (unat b' + vm + nat c) = int (unat b + 256 * nat c')"
    using c(1) by (simp add: c'_def split: if_splits)
  then have digit: "unat b' + vm + nat c = unat b + 256 * nat c'"
    by (simp only: of_nat_eq_iff)
  have step: "sub_loop (length (hi @ [b])) i v c ((hi @ [b]) @ lo) = sub_loop (length hi) (Suc i) v' c' (hi @ (b' # lo))"
    by (simp add: Let_def sub res_def c'_def b'_def v'_def list_update_append nth_append)
  have c': "c' \<in> {0, 1}" by (simp add: c'_def)
  obtain r where r: "sub_loop (length hi) (Suc i) v' c' (hi @ (b' # lo)) = r @ (b' # lo)"
      "length r = length hi" "(be_val r + unat v' + nat c') mod 256 ^ length hi = be_val hi"
    using snoc.IH [of v' "Suc i" c' "b' # lo", OF v' c'] snoc.prems(3) by auto
  have "be_val (r @ [b']) + unat v + nat c = 256 * (be_val r + unat v' + nat c') + unat b"
    using v digit by (simp add: be_val_snoc)
  then have "(be_val (r @ [b']) + unat v + nat c) mod 256 ^ length (hi @ [b]) =
      (256 * (be_val r + unat v' + nat c') + unat b) mod (256 * 256 ^ length hi)"
    by (simp only: length_append_singleton power_Suc)
  also have "\<dots> = 256 * be_val hi + unat b"
    using unat_u8_le [of b] by (subst mod_peel_byte) (simp_all only: r(3))
  finally have "(be_val (r @ [b']) + unat v + nat c) mod 256 ^ length (hi @ [b]) = be_val (hi @ [b])"
    by (simp add: be_val_snoc)
  then show ?case
    using step r(1,2) by (intro exI [of _ "r @ [b']"]) simp
qed

lemma sub_assign_be_val: "(be_val (sub_assign a v) + unat v) mod 256 ^ length a = be_val a"
  using sub_loop_be_val [of v 0 0 "[]" a, OF unat_u64_digits] by (auto simp: sub_assign_def)

lemma of_u64_loop_be_val:
  assumes "unat v < 256 ^ (8 - i)" and "length lo = i"
  shows "be_val (of_u64_loop (length hi) i v (hi @ lo)) =
    (unat v mod 256 ^ length hi) * 256 ^ i + be_val lo"
  using assms
proof (induction hi arbitrary: i v lo rule: rev_induct)
  case Nil
  then show ?case by simp
next
  case (snoc b hi)
  define v' where "v' = (if i < 8 then drop_bit 8 v else v)"
  define b' where "b' = (if i < 8 then ucast (v AND 0xFF) else (0 :: u8))"
  have v: "unat v = unat v' * 256 + unat v mod 256" and v': "unat v' < 256 ^ (8 - Suc i)"
    using next_digit [OF snoc.prems(1)] by (simp_all add: v'_def)
  have b': "unat b' = unat v mod 256"
    using snoc.prems(1)
    by (cases "i < 8") (simp_all add: b'_def unsigned_ucast_eq unat_low_byte take_bit_eq_mod)
  have "of_u64_loop (length (hi @ [b])) i v ((hi @ [b]) @ lo) = of_u64_loop (length hi) (Suc i) v' (hi @ (b' # lo))"
    by (simp add: b'_def v'_def list_update_append)
  also have "be_val \<dots> = (unat v' mod 256 ^ length hi) * 256 ^ Suc i + be_val (b' # lo)"
    by (rule snoc.IH) (use v' snoc.prems(2) in simp_all)
  also have "\<dots> = (256 * (unat v' mod 256 ^ length hi) + unat b') * 256 ^ i + be_val lo"
    using snoc.prems(2) by (simp add: algebra_simps)
  also have "256 * (unat v' mod 256 ^ length hi) + unat b' = (256 * unat v' + unat b') mod 256 ^ length (hi @ [b])"
    using mod_peel_byte [of "unat b'" "unat v'" "256 ^ length hi"] unat_u8_le [of b'] by simp
  also have "256 * unat v' + unat b' = unat v"
    using v b' by simp
  finally show ?case .
qed

lemma ArrayVar_of_u64_be_val: "be_val (ArrayVar_of_u64 N v) = unat v mod 256 ^ N"
  using of_u64_loop_be_val [of v 0 "[]" "replicate N 0", OF unat_u64_digits]
  by (simp add: ArrayVar_of_u64_def)

lemma ArrayVar_max_be_val: "be_val (ArrayVar_max N) = 256 ^ N - 1"
proof (induction N)
  case (Suc N)
  then show ?case
    by (simp add: ArrayVar_max_def)
qed (simp add: ArrayVar_max_def)

lemma key_min_le: "length k = N \<Longrightarrow> key_ge k (ArrayVar_min N)"
  by (simp add: key_ge_iff) (simp add: ArrayVar_min_def ArrayVar_default_def)

lemma key_lt_max_iff: "length k = N \<Longrightarrow> key_lt k (ArrayVar_max N) \<longleftrightarrow> k \<noteq> ArrayVar_max N"
  using be_val_less [of k] be_val_inj [of k "ArrayVar_max N"]
  by (auto simp: key_lt_iff ArrayVar_max_be_val)

lemma mod_add_cancel_nat:
  fixes a b v m :: nat
  assumes "(a + v) mod m = (b + v) mod m"
  shows "a mod m = b mod m"
proof -
  have "(int a + int v) mod int m = (int b + int v) mod int m"
    using assms by (metis of_nat_add of_nat_mod)
  from mod_diff_cong [OF this refl, of "int v"] have "int a mod int m = int b mod int m" by simp
  then show ?thesis by (metis of_nat_eq_iff of_nat_mod)
qed

subsection \<open>Properties\<close>

text \<open>
  C31. Arrays of the same length compare as the numbers they denote, so keys built from 64-bit
  integers compare as those integers when they have at least eight bytes.
\<close>

theorem array_order_is_numeric:
  assumes "length a = length b" and "8 \<le> N"
  shows "(key_lt a b \<longleftrightarrow> be_val a < be_val b) \<and> (key_le a b \<longleftrightarrow> be_val a \<le> be_val b) \<and>
    (key_gt a b \<longleftrightarrow> be_val b < be_val a) \<and> (key_ge a b \<longleftrightarrow> be_val b \<le> be_val a) \<and>
    (key_eq a b \<longleftrightarrow> a = b) \<and> (key_ne a b \<longleftrightarrow> a \<noteq> b) \<and>
    (key_lt (ArrayVar_of_u64 N v) (ArrayVar_of_u64 N w) \<longleftrightarrow> v < w)"
proof -
  have "(2 :: nat) ^ 64 = 256 ^ 8" by simp
  also have "\<dots> \<le> 256 ^ N" using assms(2) by (intro power_increasing) simp_all
  finally have large: "(2 :: nat) ^ 64 \<le> 256 ^ N" .
  have "unat x < 256 ^ N" for x :: u64
  proof -
    have "unat x < 2 ^ LENGTH(64)" by (rule unsigned_less)
    then show ?thesis using large by simp
  qed
  then have "be_val (ArrayVar_of_u64 N x) = unat x" for x
    by (simp add: ArrayVar_of_u64_be_val)
  then show ?thesis
    using assms(1) by (simp add: key_order_simps length_ArrayVar word_less_nat_alt)
qed

theorem array_order_is_numeric_witness:
  "key_lt (ArrayVar_of_u64 8 255) (ArrayVar_of_u64 8 256) \<and> \<not> key_lt [2, 0] [1, 255]"
  using array_order_is_numeric [of "[2, 0]" "[1, 255]" 8 255 256] by simp

text \<open>
  The addition and the subtraction of an integer are the ones of the denoted numbers modulo
  \<open>256 ^ N\<close>, and each undoes the other.
\<close>

theorem array_arithmetic:
  "be_val (add_assign a v) = (be_val a + unat v) mod 256 ^ length a \<and>
   (be_val (sub_assign a v) + unat v) mod 256 ^ length a = be_val a \<and>
   add_assign (sub_assign a v) v = a \<and> sub_assign (add_assign a v) v = a"
proof -
  let ?M = "256 ^ length a :: nat"
  have "be_val (add_assign (sub_assign a v) v) = be_val a"
    using sub_assign_be_val [of a v] by (simp add: add_assign_be_val length_ArrayVar)
  then have add: "add_assign (sub_assign a v) v = a"
    by (subst (asm) be_val_inj) (simp_all add: length_ArrayVar)
  have "(be_val (sub_assign (add_assign a v) v) + unat v) mod ?M = (be_val a + unat v) mod ?M"
    using sub_assign_be_val [of "add_assign a v" v] by (simp add: add_assign_be_val length_ArrayVar)
  then have "be_val (sub_assign (add_assign a v) v) mod ?M = be_val a mod ?M"
    by (rule mod_add_cancel_nat)
  moreover have "be_val (sub_assign (add_assign a v) v) < ?M"
    using be_val_less [of "sub_assign (add_assign a v) v"] by (simp add: length_ArrayVar)
  ultimately have "be_val (sub_assign (add_assign a v) v) = be_val a"
    using be_val_less [of a] by simp
  then have "sub_assign (add_assign a v) v = a"
    by (subst (asm) be_val_inj) (simp_all add: length_ArrayVar)
  then show ?thesis using add add_assign_be_val sub_assign_be_val by simp
qed

end
