(* ===== verification/Rdma_Simulation.thy ===== *)
theory Rdma_Simulation
  imports Global_Address
begin

text \<open>
  \<^verbatim>\<open>src/src/rdma/rdma_simulation.hpp\<close> and \<^verbatim>\<open>rdma_simulation.cpp\<close>: the memory region of one
  server, a vector of bytes, and the four one-sided verbs on it. An \<^verbatim>\<open>RDMAOp\<close> is a tagged
  union with one variant per verb. Its buffers are pointers into the memory of the client:
  the descriptor of the model carries what a WRITE reads through its pointer (\<open>None\<close> for a
  null pointer) and the value a CAS reads through \<^verbatim>\<open>cas.expected\<close>; what a verb stores
  through a pointer of the client is the second component of its result, an \<open>RDMAOut\<close>.
  The verbs read and write 64-bit integers in the byte order of the machine (little-endian).
\<close>

datatype RDMAOpType = READ | WRITE | CAS | FAA

datatype RDMAOp =
    ReadOp (op_addr: GlobalAddress) bool u64
  | WriteOp (op_addr: GlobalAddress) "bytes option" u64
  | CasOp (op_addr: GlobalAddress) u64 u64
  | FaaOp (op_addr: GlobalAddress) u64

fun op_type :: "RDMAOp \<Rightarrow> RDMAOpType" where
  "op_type (ReadOp _ _ _) = READ"
| "op_type (WriteOp _ _ _) = WRITE"
| "op_type (CasOp _ _ _) = CAS"
| "op_type (FaaOp _ _) = FAA"

fun set_addr :: "GlobalAddress \<Rightarrow> RDMAOp \<Rightarrow> RDMAOp" where
  "set_addr a (ReadOp _ buf n) = ReadOp a buf n"
| "set_addr a (WriteOp _ buf n) = WriteOp a buf n"
| "set_addr a (CasOp _ e d) = CasOp a e d"
| "set_addr a (FaaOp _ i) = FaaOp a i"

datatype RDMAOut = NoOut | ReadOut bytes | CasOut u64 | FaaOut u64

type_synonym memory = bytes

definition RDMASimulation_init :: "nat \<Rightarrow> memory" where
  "RDMASimulation_init memory_size = replicate memory_size 0"

definition vec_size :: "memory \<Rightarrow> u64" where
  "vec_size mem = of_nat (length mem)"

definition load64 :: "memory \<Rightarrow> nat \<Rightarrow> u64" where
  "load64 mem a = u64_of_bytes (bslice a 8 mem)"

definition store64 :: "memory \<Rightarrow> nat \<Rightarrow> u64 \<Rightarrow> memory" where
  "store64 mem a v = bsplice a (bytes_of_u64 v) mem"

subsection \<open>The verbs\<close>

text \<open>
  The bounds checks are 64-bit sums, as in the source; a sum that wraps around passes the
  check and the copy then runs out of bounds, which is undefined behaviour.
\<close>

fun rdma_read :: "memory \<Rightarrow> RDMAOp \<Rightarrow> err + (bool \<times> RDMAOut)" where
  "rdma_read mem (ReadOp addr buffer n) =
     (if uintptr addr + n > vec_size mem \<or> \<not> buffer then Inl AssertionFailed
      else if unat addr + unat n > length mem then Inl UndefinedBehaviour
      else Inr (True, ReadOut (bslice (unat addr) (unat n) mem)))"
| "rdma_read mem _ = Inl AssertionFailed"

fun rdma_write :: "memory \<Rightarrow> RDMAOp \<Rightarrow> err + (bool \<times> RDMAOut \<times> memory)" where
  "rdma_write mem (WriteOp addr buffer n) =
     (if uintptr addr + n > vec_size mem then Inr (False, NoOut, mem)
      else case buffer of
        None \<Rightarrow> Inr (False, NoOut, mem)
      | Some data \<Rightarrow>
          if unat addr + unat n > length mem \<or> length data < unat n then Inl UndefinedBehaviour
          else Inr (True, NoOut, bsplice (unat addr) (take (unat n) data) mem))"
| "rdma_write mem _ = Inl AssertionFailed"

fun rdma_cas :: "memory \<Rightarrow> RDMAOp \<Rightarrow> err + (bool \<times> RDMAOut \<times> memory)" where
  "rdma_cas mem (CasOp addr expected desired) =
     (if uintptr addr + 8 > vec_size mem then Inr (False, NoOut, mem)
      else let cur = load64 mem (unat addr) in
        if cur = expected then Inr (True, CasOut expected, store64 mem (unat addr) desired)
        else Inr (True, CasOut cur, mem))"
| "rdma_cas mem _ = Inl AssertionFailed"

fun rdma_faa :: "memory \<Rightarrow> RDMAOp \<Rightarrow> err + (u64 \<times> memory)" where
  "rdma_faa mem (FaaOp addr increment) =
     (if uintptr addr + 8 \<le> vec_size mem
      then let old = load64 mem (unat addr) in Inr (old, store64 mem (unat addr) (old + increment))
      else Inr (0, mem))"
| "rdma_faa mem _ = Inl AssertionFailed"

fun coalesce_ops :: "memory \<Rightarrow> RDMAOp list \<Rightarrow> err + memory" where
  "coalesce_ops mem [] = Inr mem"
| "coalesce_ops mem (op # ops) =
     (case op_type op of
        READ \<Rightarrow> (case rdma_read mem op of Inl e \<Rightarrow> Inl e | Inr _ \<Rightarrow> coalesce_ops mem ops)
      | WRITE \<Rightarrow> (case rdma_write mem op of Inl e \<Rightarrow> Inl e | Inr (_, _, m) \<Rightarrow> coalesce_ops m ops)
      | CAS \<Rightarrow> (case rdma_cas mem op of Inl e \<Rightarrow> Inl e | Inr (_, _, m) \<Rightarrow> coalesce_ops m ops)
      | FAA \<Rightarrow> (case rdma_faa mem op of Inl e \<Rightarrow> Inl e | Inr (_, m) \<Rightarrow> coalesce_ops m ops))"

subsection \<open>The bounds checks over the natural numbers\<close>

text \<open>No vector of a C++ program holds \<open>2 ^ 63\<close> bytes (\<^verbatim>\<open>max_size\<close> is smaller).\<close>

definition mem_ok :: "memory \<Rightarrow> bool" where
  "mem_ok mem \<longleftrightarrow> length mem < 2 ^ 63"

lemma unat_vec_size: "mem_ok mem \<Longrightarrow> unat (vec_size mem) = length mem"
  by (simp add: mem_ok_def vec_size_def unat_of_nat)

lemma bounds_check:
  assumes "mem_ok mem" and "unat n < 2 ^ 63"
  shows "uintptr addr + n > vec_size mem \<longleftrightarrow> unat addr + unat n > length mem"
proof -
  have "unat addr < 2 ^ 50" by (rule unat_gaddr)
  with assms(2) have "unat (uintptr addr + n) = unat addr + unat n"
    by (simp add: unat_word_ariths)
  then show ?thesis
    using assms(1) by (simp add: word_less_nat_alt unat_vec_size)
qed

lemma bounds_check8:
  assumes "mem_ok mem"
  shows "uintptr addr + 8 > vec_size mem \<longleftrightarrow> unat addr + 8 > length mem"
    and "uintptr addr + 8 \<le> vec_size mem \<longleftrightarrow> unat addr + 8 \<le> length mem"
  using bounds_check [OF assms, of 8 addr] by (simp_all flip: not_less)

lemma mem_ok_store64 [simp]: "a + 8 \<le> length mem \<Longrightarrow> mem_ok (store64 mem a v) = mem_ok mem"
  by (simp add: mem_ok_def store64_def length_bsplice)

lemma length_store64 [simp]: "a + 8 \<le> length mem \<Longrightarrow> length (store64 mem a v) = length mem"
  by (simp add: store64_def length_bsplice)

lemma load64_store64_same [byte_simps]: "a + 8 \<le> length mem \<Longrightarrow> load64 (store64 mem a v) a = v"
  by (simp add: load64_def store64_def bslice_bsplice_same)

lemma load64_store64_disjoint [byte_simps]:
  "a + 8 \<le> length mem \<Longrightarrow> b + 8 \<le> length mem \<Longrightarrow> b + 8 \<le> a \<or> a + 8 \<le> b \<Longrightarrow>
   load64 (store64 mem a v) b = load64 mem b"
  by (simp add: load64_def store64_def bslice_bsplice_disjoint)

lemma bslice_store64_disjoint [byte_simps]:
  "a + 8 \<le> length mem \<Longrightarrow> b + n \<le> length mem \<Longrightarrow> b + n \<le> a \<or> a + 8 \<le> b \<Longrightarrow>
   bslice b n (store64 mem a v) = bslice b n mem"
  by (simp add: store64_def bslice_bsplice_disjoint)

lemma load64_bsplice_disjoint [byte_simps]:
  "a + length bs \<le> length mem \<Longrightarrow> b + 8 \<le> length mem \<Longrightarrow> b + 8 \<le> a \<or> a + length bs \<le> b \<Longrightarrow>
   load64 (bsplice a bs mem) b = load64 mem b"
  by (simp add: load64_def bslice_bsplice_disjoint)

subsection \<open>The verbs inside and outside the region\<close>

lemma rdma_read_ok:
  assumes "mem_ok mem" and "unat addr + unat n \<le> length mem"
  shows "rdma_read mem (ReadOp addr True n) = Inr (True, ReadOut (bslice (unat addr) (unat n) mem))"
proof -
  have "unat n < 2 ^ 63" using assms by (simp add: mem_ok_def)
  then show ?thesis using assms bounds_check [OF assms(1)] by simp
qed

lemma rdma_write_ok:
  assumes "mem_ok mem" and "unat addr + unat n \<le> length mem" and "length data = unat n"
  shows "rdma_write mem (WriteOp addr (Some data) n) = Inr (True, NoOut, bsplice (unat addr) data mem)"
proof -
  have "unat n < 2 ^ 63" using assms by (simp add: mem_ok_def)
  then show ?thesis using assms bounds_check [OF assms(1)] by simp
qed

lemma rdma_cas_ok:
  assumes "mem_ok mem" and "unat addr + 8 \<le> length mem"
  shows "rdma_cas mem (CasOp addr expected desired) =
    (if load64 mem (unat addr) = expected
     then Inr (True, CasOut expected, store64 mem (unat addr) desired)
     else Inr (True, CasOut (load64 mem (unat addr)), mem))"
  using assms bounds_check8(1) [OF assms(1), of addr] by (simp add: Let_def)

lemma rdma_faa_ok:
  assumes "mem_ok mem" and "unat addr + 8 \<le> length mem"
  shows "rdma_faa mem (FaaOp addr inc) =
    Inr (load64 mem (unat addr), store64 mem (unat addr) (load64 mem (unat addr) + inc))"
  using assms bounds_check8(2) [OF assms(1), of addr] by (simp add: Let_def)

declare rdma_read.simps [simp del] rdma_write.simps [simp del] rdma_cas.simps [simp del] rdma_faa.simps [simp del]

lemmas rdma_verbs_ok = rdma_read_ok rdma_write_ok rdma_cas_ok rdma_faa_ok

lemma rdma_write_length: "rdma_write mem op = Inr (ok, out, mem') \<Longrightarrow> length mem' = length mem"
  by (cases op) (auto simp: rdma_write.simps length_bsplice min_def split: if_splits option.splits)

end
