(* ===== verification/Memory_Server.thy ===== *)
theory Memory_Server
  imports Rdma_Simulation "HOL-Library.Multiset"
begin

text \<open>
  \<^verbatim>\<open>src/src/rdma/memory_server.hpp\<close> and \<^verbatim>\<open>memory_server.cpp\<close>: a memory server owns a memory
  region, a bump allocator over it and a worker thread that serves queued allocation and
  free requests. The queues are \<^verbatim>\<open>moodycamel::ConcurrentQueue\<close>s, third-party code: their
  operations are the argument \<open>Q\<close> of the definitions that use them, and \<open>queue_law\<close> states
  what the documentation of the library promises to a single consumer.
\<close>

subsection \<open>The third-party queue\<close>

record ('v, 'q) queue_ops =
  q_empty :: 'q
  q_enqueue :: "'v \<Rightarrow> 'q \<Rightarrow> 'q"
  q_try_dequeue :: "'q \<Rightarrow> ('v \<times> 'q) option"

definition queue_law :: "('v, 'q) queue_ops \<Rightarrow> ('q \<Rightarrow> 'v multiset) \<Rightarrow> bool" where
  "queue_law Q elems \<longleftrightarrow>
     elems (q_empty Q) = {#} \<and>
     (\<forall>v q. elems (q_enqueue Q v q) = add_mset v (elems q)) \<and>
     (\<forall>q. q_try_dequeue Q q = None \<longleftrightarrow> elems q = {#}) \<and>
     (\<forall>q v q'. q_try_dequeue Q q = Some (v, q') \<longrightarrow> elems q = add_mset v (elems q'))"

text \<open>A first-in first-out list satisfies the law; witnesses use it.\<close>

definition fifo_ops :: "('v, 'v list) queue_ops" where
  "fifo_ops = \<lparr>q_empty = [], q_enqueue = (\<lambda>v q. q @ [v]),
     q_try_dequeue = (\<lambda>q. case q of [] \<Rightarrow> None | v # q' \<Rightarrow> Some (v, q'))\<rparr>"

lemma fifo_queue_law: "queue_law fifo_ops mset"
  by (auto simp: queue_law_def fifo_ops_def split: list.splits)

lemma queue_law_empty: "queue_law Q elems \<Longrightarrow> elems (q_empty Q) = {#}"
  by (simp add: queue_law_def)

lemma queue_law_enqueue: "queue_law Q elems \<Longrightarrow> elems (q_enqueue Q v q) = add_mset v (elems q)"
  by (simp add: queue_law_def)

lemma queue_law_None: "queue_law Q elems \<Longrightarrow> q_try_dequeue Q q = None \<longleftrightarrow> elems q = {#}"
  by (simp add: queue_law_def)

lemma queue_law_Some:
  "queue_law Q elems \<Longrightarrow> q_try_dequeue Q q = Some (v, q') \<Longrightarrow> elems q = add_mset v (elems q')"
  unfolding queue_law_def by blast

subsection \<open>The server\<close>

record MemoryServer =
  ms_rdma :: memory
  next_offset :: u64
  allocated :: "u64 set"

definition MemoryServer_init :: "nat \<Rightarrow> MemoryServer" where
  "MemoryServer_init memory_size =
     \<lparr>ms_rdma = RDMASimulation_init memory_size, next_offset = 0, allocated = {}\<rparr>"

definition ms_allocate :: "MemoryServer \<Rightarrow> u64 \<Rightarrow> u64 \<times> MemoryServer" where
  "ms_allocate s sz =
     (let offset = next_offset s
      in (offset, s\<lparr>next_offset := next_offset s + sz, allocated := insert offset (allocated s)\<rparr>))"

definition ms_free :: "MemoryServer \<Rightarrow> u64 \<Rightarrow> MemoryServer" where
  "ms_free s offset = s\<lparr>allocated := allocated s - {offset}\<rparr>"

definition enqueue_alloc :: "(u64 \<times> 'p, 'q) queue_ops \<Rightarrow> u64 \<Rightarrow> 'p \<Rightarrow> 'q \<Rightarrow> 'q" where
  "enqueue_alloc Q sz promise q = q_enqueue Q (sz, promise) q"

definition enqueue_free :: "(u64, 'q) queue_ops \<Rightarrow> u64 \<Rightarrow> 'q \<Rightarrow> 'q" where
  "enqueue_free Q offset q = q_enqueue Q offset q"

text \<open>
  The two inner loops of \<^verbatim>\<open>worker_loop\<close>. A promise that is set is recorded with its value,
  in the order in which the promises are set. A loop that never ends is \<open>None\<close>.
\<close>

partial_function (option) drain_allocs ::
  "(u64 \<times> 'p, 'q) queue_ops \<Rightarrow> 'q \<Rightarrow> MemoryServer \<Rightarrow> ('p \<times> u64) list \<Rightarrow>
   ('q \<times> MemoryServer \<times> ('p \<times> u64) list) option" where
  "drain_allocs Q q s acc =
     (case q_try_dequeue Q q of
        None \<Rightarrow> Some (q, s, acc)
      | Some (item, q') \<Rightarrow>
          drain_allocs Q q' (snd (ms_allocate s (fst item)))
            (acc @ [(snd item, fst (ms_allocate s (fst item)))]))"

partial_function (option) drain_frees ::
  "(u64, 'q) queue_ops \<Rightarrow> 'q \<Rightarrow> MemoryServer \<Rightarrow> ('q \<times> MemoryServer) option" where
  "drain_frees Q q s =
     (case q_try_dequeue Q q of
        None \<Rightarrow> Some (q, s)
      | Some (offset, q') \<Rightarrow> drain_frees Q q' (ms_free s offset))"

text \<open>One iteration of the outer loop; the wait at its end has no effect on the state.\<close>

definition worker_iteration ::
  "(u64 \<times> 'p, 'q) queue_ops \<Rightarrow> (u64, 'r) queue_ops \<Rightarrow> 'q \<Rightarrow> 'r \<Rightarrow> MemoryServer \<Rightarrow>
   ('q \<times> 'r \<times> MemoryServer \<times> ('p \<times> u64) list) option" where
  "worker_iteration QA QF aq fq s =
     (case drain_allocs QA aq s [] of
        None \<Rightarrow> None
      | Some (aq', s', acc) \<Rightarrow>
          (case drain_frees QF fq s' of
             None \<Rightarrow> None
           | Some (fq', s'') \<Rightarrow> Some (aq', fq', s'', acc)))"

subsection \<open>Allocated regions\<close>

text \<open>
  The regions handed out for a sequence of requests, as long as the offset counter does not
  wrap around: each starts where the one before it ends.
\<close>

fun ms_allocate_all :: "MemoryServer \<Rightarrow> u64 list \<Rightarrow> (u64 \<times> u64) list \<times> MemoryServer" where
  "ms_allocate_all s [] = ([], s)"
| "ms_allocate_all s (n # ns) =
     (let (off, s1) = ms_allocate s n; (regions, s2) = ms_allocate_all s1 ns
      in ((off, n) # regions, s2))"

definition region :: "u64 \<times> u64 \<Rightarrow> nat set" where
  "region r = {unat (fst r) ..< unat (fst r) + unat (snd r)}"

definition laid_out :: "nat \<Rightarrow> (u64 \<times> u64) list \<Rightarrow> bool" where
  "laid_out a rs \<longleftrightarrow> (\<forall>r \<in> set rs. a \<le> unat (fst r)) \<and>
     sorted_wrt (\<lambda>r r'. unat (fst r) + unat (snd r) \<le> unat (fst r')) rs"

lemma ms_allocate_next:
  assumes "unat (next_offset s) + unat n < 2 ^ 64"
  shows "unat (next_offset (snd (ms_allocate s n))) = unat (next_offset s) + unat n"
  using assms by (simp add: ms_allocate_def Let_def unat_word_ariths)

lemma ms_allocate_all_layout:
  assumes "unat (next_offset s) + sum_list (map unat ns) < 2 ^ 64"
    and "ms_allocate_all s ns = (rs, s')"
  shows "map snd rs = ns \<and> laid_out (unat (next_offset s)) rs \<and>
    unat (next_offset s') = unat (next_offset s) + sum_list (map unat ns)"
  using assms
proof (induction ns arbitrary: s rs s')
  case Nil
  then show ?case by (simp add: laid_out_def)
next
  case (Cons n ns)
  obtain off s1 where alloc: "ms_allocate s n = (off, s1)" by force
  obtain rs1 s2 where rest: "ms_allocate_all s1 ns = (rs1, s2)" by force
  have off: "off = next_offset s" using alloc by (simp add: ms_allocate_def Let_def)
  have s1: "unat (next_offset s1) = unat (next_offset s) + unat n"
    using ms_allocate_next [of s n] alloc Cons.prems(1) by simp
  have IH: "map snd rs1 = ns \<and> laid_out (unat (next_offset s1)) rs1 \<and>
      unat (next_offset s2) = unat (next_offset s1) + sum_list (map unat ns)"
    by (rule Cons.IH [OF _ rest]) (use Cons.prems(1) s1 in simp)
  have "rs = (off, n) # rs1" "s' = s2"
    using Cons.prems(2) alloc rest by simp_all
  then show ?case using IH s1 off by (auto simp: laid_out_def)
qed

lemma ms_allocate_all_effect:
  "ms_allocate_all s ns = (rs, s') \<Longrightarrow>
   ms_rdma s' = ms_rdma s \<and> allocated s' = allocated s \<union> set (map fst rs)"
proof (induction ns arbitrary: s rs s')
  case (Cons n ns)
  then show ?case
    by (fastforce simp: ms_allocate_def Let_def split: prod.splits)
qed simp

lemma laid_out_disjoint:
  assumes "laid_out a rs" and "i < j" and "j < length rs"
  shows "region (rs ! i) \<inter> region (rs ! j) = {}"
proof -
  have "unat (fst (rs ! i)) + unat (snd (rs ! i)) \<le> unat (fst (rs ! j))"
    using assms by (auto simp: laid_out_def sorted_wrt_iff_nth_less)
  then show ?thesis by (auto simp: region_def)
qed

subsection \<open>The worker serves every request\<close>

lemma drain_frees_served:
  assumes "queue_law Q elems"
  shows "\<exists>q' s'. drain_frees Q q s = Some (q', s') \<and> elems q' = {#} \<and>
    allocated s' = allocated s - set_mset (elems q) \<and> next_offset s' = next_offset s \<and>
    ms_rdma s' = ms_rdma s"
proof (induction "size (elems q)" arbitrary: q s)
  case 0
  then have "q_try_dequeue Q q = None" using assms by (simp add: queue_law_None)
  then show ?case using 0 by (subst drain_frees.simps) simp
next
  case (Suc n)
  then have "q_try_dequeue Q q \<noteq> None" using assms by (auto simp: queue_law_None)
  then obtain off q1 where deq: "q_try_dequeue Q q = Some (off, q1)" by auto
  then have elems: "elems q = add_mset off (elems q1)" using assms by (simp add: queue_law_Some)
  then have "n = size (elems q1)" using Suc.hyps(2) by simp
  from Suc.hyps(1) [OF this, of "ms_free s off"] show ?case
    by (subst drain_frees.simps) (auto simp: deq elems ms_free_def)
qed

lemma drain_allocs_served:
  assumes "queue_law Q elems"
  shows "\<exists>q' s' items. drain_allocs Q q s acc = Some (q', s', acc @ zip (map snd items)
        (map fst (fst (ms_allocate_all s (map fst items))))) \<and>
      s' = snd (ms_allocate_all s (map fst items)) \<and> mset items = elems q \<and> elems q' = {#}"
proof (induction "size (elems q)" arbitrary: q s acc)
  case 0
  then have "q_try_dequeue Q q = None" using assms by (simp add: queue_law_None)
  then show ?case using 0 by (subst drain_allocs.simps) simp
next
  case (Suc n)
  then have "q_try_dequeue Q q \<noteq> None" using assms by (auto simp: queue_law_None)
  then obtain item q1 where deq: "q_try_dequeue Q q = Some (item, q1)" by auto
  then have elems: "elems q = add_mset item (elems q1)" using assms by (simp add: queue_law_Some)
  then have "n = size (elems q1)" using Suc.hyps(2) by simp
  from Suc.hyps(1) [OF this, of "snd (ms_allocate s (fst item))" "acc @ [(snd item, fst (ms_allocate s (fst item)))]"]
  obtain q' s' items where IH: "drain_allocs Q q1 (snd (ms_allocate s (fst item))) (acc @ [(snd item, fst (ms_allocate s (fst item)))]) =
      Some (q', s', (acc @ [(snd item, fst (ms_allocate s (fst item)))]) @ zip (map snd items)
        (map fst (fst (ms_allocate_all (snd (ms_allocate s (fst item))) (map fst items)))))"
     "s' = snd (ms_allocate_all (snd (ms_allocate s (fst item))) (map fst items))"
     "mset items = elems q1" "elems q' = {#}"
    by blast
  show ?case
    by (subst drain_allocs.simps, rule exI [of _ q'], rule exI [of _ s'], rule exI [of _ "item # items"])
       (use IH elems in \<open>simp add: deq Let_def split_beta\<close>)
qed

subsection \<open>Properties\<close>

text \<open>
  C29. One round of the worker serves every queued request. Whatever queue implementation keeps
  the documented contract, the round ends, both queues are empty afterwards, every queued
  allocation got its promise set, the regions it handed out are pairwise disjoint and lie above
  everything allocated before (as long as the offset counter does not wrap), the memory is
  untouched, and exactly the queued offsets were removed from the set of allocated ones.
\<close>

theorem worker_serves_all:
  assumes "queue_law QA ea" and "queue_law QF ef"
    and "unat (next_offset s) + sum_mset (image_mset (\<lambda>item. unat (fst item)) (ea aq)) < 2 ^ 64"
  shows "\<exists>aq' fq' s' replies items. worker_iteration QA QF aq fq s = Some (aq', fq', s', replies) \<and>
    ea aq' = {#} \<and> ef fq' = {#} \<and> mset items = ea aq \<and> map fst replies = map snd items \<and>
    laid_out (unat (next_offset s)) (zip (map snd replies) (map fst items)) \<and>
    (\<forall>i j. i < j \<longrightarrow> j < length items \<longrightarrow>
       region (snd (replies ! i), fst (items ! i)) \<inter> region (snd (replies ! j), fst (items ! j)) = {}) \<and>
    ms_rdma s' = ms_rdma s \<and>
    allocated s' = (allocated s \<union> set (map snd replies)) - set_mset (ef fq)"
proof -
  obtain aq' s1 items where A: "drain_allocs QA aq s [] = Some (aq', s1, [] @ zip (map snd items)
        (map fst (fst (ms_allocate_all s (map fst items)))))"
      "s1 = snd (ms_allocate_all s (map fst items))" "mset items = ea aq" "ea aq' = {#}"
    using drain_allocs_served [OF assms(1), of aq s "[]"] by blast
  obtain fq' s2 where F: "drain_frees QF fq s1 = Some (fq', s2)" "ef fq' = {#}"
      "allocated s2 = allocated s1 - set_mset (ef fq)" "ms_rdma s2 = ms_rdma s1"
    using drain_frees_served [OF assms(2), of fq s1] by blast
  define rs where "rs = fst (ms_allocate_all s (map fst items))"
  have all: "ms_allocate_all s (map fst items) = (rs, s1)" by (simp add: rs_def A(2))
  have "sum_list (map unat (map fst items)) = sum_mset (image_mset (\<lambda>item. unat (fst item)) (ea aq))"
    unfolding A(3) [symmetric] by (simp add: sum_mset_sum_list [symmetric] comp_def)
  then have lay: "map snd rs = map fst items \<and> laid_out (unat (next_offset s)) rs"
    using ms_allocate_all_layout [OF _ all] assms(3) by simp
  then have len: "length rs = length items" by (metis length_map)
  have rs: "zip (map fst rs) (map fst items) = rs" using lay by (metis zip_map_fst_snd)
  have nth: "(fst (rs ! i), fst (items ! i)) = rs ! i" if "i < length items" for i
    using that lay len by (metis nth_map prod.collapse)
  have eff: "ms_rdma s1 = ms_rdma s \<and> allocated s1 = allocated s \<union> set (map fst rs)"
    using ms_allocate_all_effect [OF all] .
  let ?replies = "zip (map snd items) (map fst rs)"
  have "worker_iteration QA QF aq fq s = Some (aq', fq', s2, ?replies)"
    using A(1) F(1) by (simp add: worker_iteration_def rs_def)
  moreover have "map fst ?replies = map snd items" "map snd ?replies = map fst rs" using len by simp_all
  moreover have "region (fst (rs ! i), fst (items ! i)) \<inter> region (fst (rs ! j), fst (items ! j)) = {}"
    if "i < j" "j < length items" for i j
    using laid_out_disjoint [of "unat (next_offset s)" rs i j] lay that len nth [of i] nth [of j] by simp
  ultimately show ?thesis
    using A(3,4) F eff lay rs len
    by (intro exI [of _ aq'] exI [of _ fq'] exI [of _ s2] exI [of _ ?replies] exI [of _ items]) simp
qed

theorem worker_serves_all_witness:
  "\<exists>aq' fq' s' replies items. worker_iteration fifo_ops fifo_ops [(8, ''a''), (24, ''b'')] [0] (MemoryServer_init 64) =
      Some (aq', fq', s', replies) \<and> map fst replies = map snd items \<and>
      mset items = {#(8 :: u64, ''a''), (24, ''b'')#} \<and> ms_rdma s' = RDMASimulation_init 64"
proof -
  have "unat (next_offset (MemoryServer_init 64)) +
      sum_mset (image_mset (\<lambda>item. unat (fst item)) (mset [(8 :: u64, ''a''), (24, ''b'')])) < 2 ^ 64"
    by (simp add: MemoryServer_init_def)
  from worker_serves_all [OF fifo_queue_law fifo_queue_law this, of "[0]"]
  obtain aq' fq' s' replies items where
      "worker_iteration fifo_ops fifo_ops [(8, ''a''), (24, ''b'')] [0] (MemoryServer_init 64) = Some (aq', fq', s', replies)"
      "map fst replies = map snd items" "mset items = mset [(8 :: u64, ''a''), (24, ''b'')]"
      "ms_rdma s' = ms_rdma (MemoryServer_init 64)"
    by (elim exE conjE) (rule that; assumption)
  then show ?thesis
    by (intro exI [of _ aq'] exI [of _ fq'] exI [of _ s'] exI [of _ replies] exI [of _ items])
       (simp add: MemoryServer_init_def)
qed

end
