(* ===== verification/Thread_Stats.thy ===== *)
theory Thread_Stats
  imports Rdma_Simulation
begin

text \<open>
  \<^verbatim>\<open>src/src/util/thread_stats.hpp\<close> and \<^verbatim>\<open>src/src/util/histogram_latency_sampler.hpp\<close>: the
  per-thread statistics. The histograms are arrays of 64-bit counters, here lists of a fixed
  length; latencies, of type \<^verbatim>\<open>double\<close> in the source, are rational numbers here, and the
  floor of the logarithm that selects a latency bucket is computed exactly.
\<close>

definition bump :: "u64 list \<Rightarrow> nat \<Rightarrow> u64 list" where
  "bump buckets i = buckets[i := buckets ! i + 1]"

subsection \<open>DiscreteHistogram\<close>

record DiscreteHistogram =
  dh_buckets :: "u64 list"
  dh_total :: u64

definition DiscreteHistogram_init :: DiscreteHistogram where
  "DiscreteHistogram_init = \<lparr>dh_buckets = replicate 256 0, dh_total = 0\<rparr>"

definition dh_index :: "u32 \<Rightarrow> nat" where
  "dh_index v = min (unat v) (256 - 1)"

definition dh_record :: "DiscreteHistogram \<Rightarrow> u32 \<Rightarrow> DiscreteHistogram" where
  "dh_record h v = h\<lparr>dh_buckets := bump (dh_buckets h) (dh_index v), dh_total := dh_total h + 1\<rparr>"

definition dh_get_count :: "DiscreteHistogram \<Rightarrow> u32 \<Rightarrow> u64" where
  "dh_get_count h v = dh_buckets h ! dh_index v"

definition dh_get_overflow_count :: "DiscreteHistogram \<Rightarrow> u64" where
  "dh_get_overflow_count h = dh_buckets h ! 255"

definition dh_get_distribution :: "DiscreteHistogram \<Rightarrow> (u32 \<times> u64) list" where
  "dh_get_distribution h =
     [(of_nat i, dh_buckets h ! i). i \<leftarrow> [0..<256], dh_buckets h ! i > 0]"

definition dh_reset :: "DiscreteHistogram \<Rightarrow> DiscreteHistogram" where
  "dh_reset h = h\<lparr>dh_buckets := replicate 256 0, dh_total := 0\<rparr>"

subsection \<open>LogarithmicByteHistogram\<close>

record LogarithmicByteHistogram =
  lb_buckets :: "u64 list"
  lb_total_samples :: u64
  lb_total_bytes :: u64

definition LogarithmicByteHistogram_init :: LogarithmicByteHistogram where
  "LogarithmicByteHistogram_init = \<lparr>lb_buckets = replicate 32 0, lb_total_samples = 0, lb_total_bytes = 0\<rparr>"

text \<open>The \<^verbatim>\<open>while\<close> loop of \<^verbatim>\<open>get_bucket_index\<close>; the bucket is less than 31 when it goes on.\<close>

function lb_index_loop :: "u64 \<Rightarrow> nat \<Rightarrow> nat" where
  "lb_index_loop n bucket =
     (if n > push_bit bucket 1 \<and> bucket < 32 - 1 then lb_index_loop n (Suc bucket) else bucket)"
  by pat_completeness auto
termination
  by (relation "measure (\<lambda>(n, bucket). 31 - bucket)") auto

declare lb_index_loop.simps [simp del]

definition lb_get_bucket_index :: "u64 \<Rightarrow> nat" where
  "lb_get_bucket_index n = (if n = 0 then 0 else lb_index_loop n 0)"

definition lb_record :: "LogarithmicByteHistogram \<Rightarrow> u64 \<Rightarrow> LogarithmicByteHistogram" where
  "lb_record h n = h\<lparr>lb_buckets := bump (lb_buckets h) (lb_get_bucket_index n),
     lb_total_samples := lb_total_samples h + 1, lb_total_bytes := lb_total_bytes h + n\<rparr>"

definition lb_get_distribution :: "LogarithmicByteHistogram \<Rightarrow> (u64 \<times> u64) list" where
  "lb_get_distribution h =
     [(if i = 0 then 0 else push_bit i 1, lb_buckets h ! i). i \<leftarrow> [0..<32], lb_buckets h ! i > 0]"

definition lb_reset :: "LogarithmicByteHistogram \<Rightarrow> LogarithmicByteHistogram" where
  "lb_reset h = h\<lparr>lb_buckets := replicate 32 0, lb_total_samples := 0, lb_total_bytes := 0\<rparr>"

subsection \<open>CacheStats\<close>

record CacheStats =
  cs_hits :: u64
  cs_misses :: u64

definition CacheStats_init :: CacheStats where
  "CacheStats_init = \<lparr>cs_hits = 0, cs_misses = 0\<rparr>"

definition record_hit :: "CacheStats \<Rightarrow> CacheStats" where
  "record_hit c = c\<lparr>cs_hits := cs_hits c + 1\<rparr>"

definition record_miss :: "CacheStats \<Rightarrow> CacheStats" where
  "record_miss c = c\<lparr>cs_misses := cs_misses c + 1\<rparr>"

definition total_accesses :: "CacheStats \<Rightarrow> u64" where
  "total_accesses c = cs_hits c + cs_misses c"

definition cs_reset :: "CacheStats \<Rightarrow> CacheStats" where
  "cs_reset c = c\<lparr>cs_hits := 0, cs_misses := 0\<rparr>"

subsection \<open>HistogramLatencySampler\<close>

record LatencySampler =
  ls_buckets :: "u64 list"
  ls_total :: u64
  ls_overflow :: u64

definition LatencySampler_init :: LatencySampler where
  "LatencySampler_init = \<lparr>ls_buckets = replicate 32 0, ls_total = 0, ls_overflow = 0\<rparr>"

definition MIN_LATENCY_US :: rat where
  "MIN_LATENCY_US = 1 / 2"

definition get_bucket_upper_bound :: "nat \<Rightarrow> rat" where
  "get_bucket_upper_bound i = MIN_LATENCY_US * 2 ^ i"

definition get_bucket_lower_bound :: "nat \<Rightarrow> rat" where
  "get_bucket_lower_bound i = (if i = 0 then 0 else MIN_LATENCY_US * 2 ^ (i - 1))"

text \<open>The floor of the base-2 logarithm, cut off at \<open>k + n\<close>: the number of doublings that fit.\<close>

fun log2_floor_upto :: "nat \<Rightarrow> nat \<Rightarrow> rat \<Rightarrow> nat" where
  "log2_floor_upto 0 k x = k"
| "log2_floor_upto (Suc n) k x = (if 2 ^ Suc k \<le> x then log2_floor_upto n (Suc k) x else k)"

definition ls_get_bucket_index :: "rat \<Rightarrow> nat" where
  "ls_get_bucket_index latency_us =
     (if latency_us < MIN_LATENCY_US then 0 else log2_floor_upto 31 0 (latency_us / MIN_LATENCY_US))"

definition add_sample :: "LatencySampler \<Rightarrow> rat \<Rightarrow> LatencySampler" where
  "add_sample s latency_us =
     (let i = ls_get_bucket_index latency_us;
          s' = (if i = 32 - 1 \<and> latency_us > get_bucket_upper_bound i
                then s\<lparr>ls_overflow := ls_overflow s + 1\<rparr>
                else s\<lparr>ls_buckets := bump (ls_buckets s) i\<rparr>)
      in s'\<lparr>ls_total := ls_total s' + 1\<rparr>)"

text \<open>
  \<^verbatim>\<open>calculate_percentile\<close>: the loop over the buckets with its cumulative count. The
  interpolation divides by the count of the bucket; in \<^verbatim>\<open>double\<close> arithmetic \<open>0 / 0\<close> is
  NaN, which is \<open>None\<close> here.
\<close>

fun percentile_loop :: "u64 list \<Rightarrow> nat \<Rightarrow> u64 \<Rightarrow> u64 \<Rightarrow> rat option" where
  "percentile_loop [] i target cumulative = Some (get_bucket_upper_bound 31 * 2)"
| "percentile_loop (c # cs) i target cumulative =
     (if cumulative + c \<ge> target
      then (let lower = get_bucket_lower_bound i; upper = get_bucket_upper_bound i in
            if c = 0 then None
            else let fraction = of_nat (unat (target - cumulative)) / of_nat (unat c)
                 in Some (lower + fraction * (upper - lower)))
      else percentile_loop cs (Suc i) target (cumulative + c))"

definition calculate_percentile :: "LatencySampler \<Rightarrow> rat \<Rightarrow> rat option" where
  "calculate_percentile s percentile =
     (if ls_total s = 0 then Some 0
      else percentile_loop (ls_buckets s) 0
             (of_nat (nat \<lfloor>percentile * of_nat (unat (ls_total s))\<rfloor>)) 0)"

subsection \<open>OperationEntry and ThreadStats\<close>

datatype OperationKind = Insert | Read | Update | Delete

primrec kind_index :: "OperationKind \<Rightarrow> nat" where
  "kind_index Insert = 0"
| "kind_index Read = 1"
| "kind_index Update = 2"
| "kind_index Delete = 3"

primrec op_index :: "RDMAOpType \<Rightarrow> nat" where
  "op_index READ = 0"
| "op_index WRITE = 1"
| "op_index CAS = 2"
| "op_index FAA = 3"

record OperationEntry =
  successes :: u64
  failures :: u64
  latency_samples :: LatencySampler
  rtt_counts_per_op :: DiscreteHistogram
  rdma_op_counts_per_op :: "DiscreteHistogram list"
  bytes_read_per_op :: LogarithmicByteHistogram
  bytes_written_per_op :: LogarithmicByteHistogram
  cache_stats :: CacheStats
  retry_counts_per_op :: DiscreteHistogram
  local_lock_acquisitions :: u64
  local_lock_handovers :: u64

definition OperationEntry_init :: OperationEntry where
  "OperationEntry_init = \<lparr>successes = 0, failures = 0, latency_samples = LatencySampler_init,
     rtt_counts_per_op = DiscreteHistogram_init,
     rdma_op_counts_per_op = replicate 4 DiscreteHistogram_init,
     bytes_read_per_op = LogarithmicByteHistogram_init,
     bytes_written_per_op = LogarithmicByteHistogram_init,
     cache_stats = CacheStats_init, retry_counts_per_op = DiscreteHistogram_init,
     local_lock_acquisitions = 0, local_lock_handovers = 0\<rparr>"

definition oe_record_operation :: "rat \<Rightarrow> bool \<Rightarrow> OperationEntry \<Rightarrow> OperationEntry" where
  "oe_record_operation latency_us success e =
     (if success
      then e\<lparr>successes := successes e + 1, latency_samples := add_sample (latency_samples e) latency_us\<rparr>
      else e\<lparr>failures := failures e + 1\<rparr>)"

definition oe_record_rtt_count :: "u32 \<Rightarrow> OperationEntry \<Rightarrow> OperationEntry" where
  "oe_record_rtt_count n e = e\<lparr>rtt_counts_per_op := dh_record (rtt_counts_per_op e) n\<rparr>"

definition oe_record_rdma_operation :: "RDMAOpType \<Rightarrow> u32 \<Rightarrow> OperationEntry \<Rightarrow> OperationEntry" where
  "oe_record_rdma_operation t n e =
     (if op_index t < length (rdma_op_counts_per_op e)
      then e\<lparr>rdma_op_counts_per_op := (rdma_op_counts_per_op e)
             [op_index t := dh_record (rdma_op_counts_per_op e ! op_index t) n]\<rparr>
      else e)"

definition oe_record_bytes_read :: "u64 \<Rightarrow> OperationEntry \<Rightarrow> OperationEntry" where
  "oe_record_bytes_read n e = e\<lparr>bytes_read_per_op := lb_record (bytes_read_per_op e) n\<rparr>"

definition oe_record_bytes_written :: "u64 \<Rightarrow> OperationEntry \<Rightarrow> OperationEntry" where
  "oe_record_bytes_written n e = e\<lparr>bytes_written_per_op := lb_record (bytes_written_per_op e) n\<rparr>"

definition oe_record_cache_hit :: "OperationEntry \<Rightarrow> OperationEntry" where
  "oe_record_cache_hit e = e\<lparr>cache_stats := record_hit (cache_stats e)\<rparr>"

definition oe_record_cache_miss :: "OperationEntry \<Rightarrow> OperationEntry" where
  "oe_record_cache_miss e = e\<lparr>cache_stats := record_miss (cache_stats e)\<rparr>"

definition oe_record_retry_count :: "u32 \<Rightarrow> OperationEntry \<Rightarrow> OperationEntry" where
  "oe_record_retry_count n e = e\<lparr>retry_counts_per_op := dh_record (retry_counts_per_op e) n\<rparr>"

definition oe_record_local_lock_acquisition :: "bool \<Rightarrow> OperationEntry \<Rightarrow> OperationEntry" where
  "oe_record_local_lock_acquisition was_handover e =
     (let e' = e\<lparr>local_lock_acquisitions := local_lock_acquisitions e + 1\<rparr>
      in if was_handover then e'\<lparr>local_lock_handovers := local_lock_handovers e' + 1\<rparr> else e')"

definition oe_reset :: "OperationEntry \<Rightarrow> OperationEntry" where
  "oe_reset e = e\<lparr>successes := 0, failures := 0, latency_samples := LatencySampler_init,
     rtt_counts_per_op := dh_reset (rtt_counts_per_op e),
     rdma_op_counts_per_op := map dh_reset (rdma_op_counts_per_op e),
     bytes_read_per_op := lb_reset (bytes_read_per_op e),
     bytes_written_per_op := lb_reset (bytes_written_per_op e),
     cache_stats := cs_reset (cache_stats e),
     retry_counts_per_op := dh_reset (retry_counts_per_op e),
     local_lock_acquisitions := 0, local_lock_handovers := 0\<rparr>"

text \<open>A \<^verbatim>\<open>ThreadStats\<close> is its array \<^verbatim>\<open>per_op\<close>, one entry per operation kind.\<close>

type_synonym ThreadStats = "OperationEntry list"

definition ThreadStats_init :: ThreadStats where
  "ThreadStats_init = replicate 4 OperationEntry_init"

definition ts_update :: "OperationKind \<Rightarrow> (OperationEntry \<Rightarrow> OperationEntry) \<Rightarrow> ThreadStats \<Rightarrow> ThreadStats" where
  "ts_update kind f st = st[kind_index kind := f (st ! kind_index kind)]"

definition ts_reset :: "ThreadStats \<Rightarrow> ThreadStats" where
  "ts_reset st = map oe_reset st"

subsection \<open>ThreadStatsTracker\<close>

record ThreadStatsTracker =
  st_stats :: ThreadStats
  current_op :: OperationKind
  tracking_active :: bool
  rtt_count :: u32
  rdma_op_counts :: "u32 list"
  bytes_read :: u64
  bytes_written :: u64
  retry_count :: u32

text \<open>The constructor leaves \<^verbatim>\<open>current_op_\<close> uninitialised; \<open>k\<close> is whatever it holds.\<close>

definition ThreadStatsTracker_init :: "ThreadStats \<Rightarrow> OperationKind \<Rightarrow> ThreadStatsTracker" where
  "ThreadStatsTracker_init st k = \<lparr>st_stats = st, current_op = k, tracking_active = False,
     rtt_count = 0, rdma_op_counts = replicate 4 0, bytes_read = 0, bytes_written = 0, retry_count = 0\<rparr>"

definition begin_operation :: "OperationKind \<Rightarrow> ThreadStatsTracker \<Rightarrow> ThreadStatsTracker" where
  "begin_operation kind t = t\<lparr>current_op := kind, tracking_active := True, rtt_count := 0,
     rdma_op_counts := replicate 4 0, bytes_read := 0, bytes_written := 0, retry_count := 0\<rparr>"

definition tr_update :: "(OperationEntry \<Rightarrow> OperationEntry) \<Rightarrow> ThreadStatsTracker \<Rightarrow> ThreadStatsTracker" where
  "tr_update f t = t\<lparr>st_stats := ts_update (current_op t) f (st_stats t)\<rparr>"

definition record_op_counts :: "ThreadStatsTracker \<Rightarrow> ThreadStatsTracker" where
  "record_op_counts t = fold (\<lambda>ty t. if rdma_op_counts t ! op_index ty > 0
       then tr_update (oe_record_rdma_operation ty (rdma_op_counts t ! op_index ty)) t else t)
     [READ, WRITE, CAS, FAA] t"

definition end_operation :: "rat \<Rightarrow> bool \<Rightarrow> ThreadStatsTracker \<Rightarrow> ThreadStatsTracker" where
  "end_operation latency_us success t =
     (if \<not> tracking_active t then t
      else let t1 = tr_update (oe_record_operation latency_us success) t;
               t2 = tr_update (oe_record_rtt_count (rtt_count t1)) t1;
               t3 = record_op_counts t2;
               t4 = tr_update (oe_record_bytes_read (bytes_read t3)) t3;
               t5 = tr_update (oe_record_bytes_written (bytes_written t4)) t4;
               t6 = tr_update (oe_record_retry_count (retry_count t5)) t5
           in t6\<lparr>tracking_active := False\<rparr>)"

definition count_op :: "RDMAOp \<Rightarrow> ThreadStatsTracker \<Rightarrow> ThreadStatsTracker" where
  "count_op op t =
     (let i = op_index (op_type op);
          t' = (if i < length (rdma_op_counts t)
                then t\<lparr>rdma_op_counts := (rdma_op_counts t)[i := rdma_op_counts t ! i + 1]\<rparr> else t)
      in case op of
           ReadOp _ _ n \<Rightarrow> t'\<lparr>bytes_read := bytes_read t' + n\<rparr>
         | WriteOp _ _ n \<Rightarrow> t'\<lparr>bytes_written := bytes_written t' + n\<rparr>
         | _ \<Rightarrow> t')"

definition record_rdma_op :: "RDMAOp \<Rightarrow> ThreadStatsTracker \<Rightarrow> ThreadStatsTracker" where
  "record_rdma_op op t =
     (if \<not> tracking_active t then t else count_op op (t\<lparr>rtt_count := rtt_count t + 1\<rparr>))"

definition record_rdma_ops :: "RDMAOp list \<Rightarrow> ThreadStatsTracker \<Rightarrow> ThreadStatsTracker" where
  "record_rdma_ops ops t =
     (if \<not> tracking_active t then t else fold count_op ops (t\<lparr>rtt_count := rtt_count t + 1\<rparr>))"

definition tr_record_cache_hit :: "ThreadStatsTracker \<Rightarrow> ThreadStatsTracker" where
  "tr_record_cache_hit t = (if tracking_active t then tr_update oe_record_cache_hit t else t)"

definition tr_record_cache_miss :: "ThreadStatsTracker \<Rightarrow> ThreadStatsTracker" where
  "tr_record_cache_miss t = (if tracking_active t then tr_update oe_record_cache_miss t else t)"

definition record_retry :: "ThreadStatsTracker \<Rightarrow> ThreadStatsTracker" where
  "record_retry t = (if tracking_active t then t\<lparr>retry_count := retry_count t + 1\<rparr> else t)"

definition tr_record_local_lock_acquisition :: "bool \<Rightarrow> ThreadStatsTracker \<Rightarrow> ThreadStatsTracker" where
  "tr_record_local_lock_acquisition h t =
     (if tracking_active t then tr_update (oe_record_local_lock_acquisition h) t else t)"

subsection \<open>Averages and summaries\<close>

definition dh_get_average :: "DiscreteHistogram \<Rightarrow> rat" where
  "dh_get_average h =
     (if dh_total h = 0 then 0
      else let sum = foldl (\<lambda>s i. s + of_nat i * dh_buckets h ! i) 0 [0..<256 - 1];
               sum' = sum + 255 * dh_buckets h ! (256 - 1)
           in of_nat (unat sum') / of_nat (unat (dh_total h)))"

definition lb_get_bucket_center :: "nat \<Rightarrow> u64" where
  "lb_get_bucket_center i = (if i = 0 then 0 else push_bit (i - 1) 1)"

definition lb_get_average_bytes :: "LogarithmicByteHistogram \<Rightarrow> rat" where
  "lb_get_average_bytes h =
     (if lb_total_samples h = 0 then 0 else of_nat (unat (lb_total_bytes h)) / of_nat (unat (lb_total_samples h)))"

definition hit_rate :: "CacheStats \<Rightarrow> rat" where
  "hit_rate c =
     (let total = total_accesses c in if total > 0 then of_nat (unat (cs_hits c)) / of_nat (unat total) else 0)"

text \<open>The centre of a bucket, \<^verbatim>\<open>MIN_LATENCY_US * pow(2, i + 0.5)\<close>, is the only irrational number of the file.\<close>

definition ls_get_bucket_center :: "nat \<Rightarrow> real" where
  "ls_get_bucket_center i = (if i = 0 then of_rat MIN_LATENCY_US / 2 else of_rat MIN_LATENCY_US * 2 powr (real i + 1 / 2))"

definition get_histogram :: "LatencySampler \<Rightarrow> (real \<times> u64) list" where
  "get_histogram s = [(ls_get_bucket_center i, ls_buckets s ! i). i \<leftarrow> [0..<32], ls_buckets s ! i > 0]"

definition calculate_standard_percentiles :: "LatencySampler \<Rightarrow> rat option \<times> rat option \<times> rat option" where
  "calculate_standard_percentiles s = (calculate_percentile s (50 / 100), calculate_percentile s (95 / 100), calculate_percentile s (99 / 100))"

lemma foldl_sum: "foldl (\<lambda>s i. s + f i) (a :: u64) is = a + (\<Sum>i\<leftarrow>is. f i)"
  by (induction "is" arbitrary: a) (simp_all add: add.assoc)

definition weighted_sum :: "u64 list \<Rightarrow> u64" where
  "weighted_sum bs = (\<Sum>i = 0..<length bs. of_nat i * bs ! i)"

lemma weighted_sum_bump: "i < length bs \<Longrightarrow> weighted_sum (bump bs i) = weighted_sum bs + of_nat i"
proof -
  assume i: "i < length bs"
  have "weighted_sum (bump bs i) = (\<Sum>j = 0..<length bs. of_nat j * bs ! j + (if j = i then of_nat i else 0))"
    unfolding weighted_sum_def by (intro sum.cong) (auto simp: bump_def nth_list_update algebra_simps)
  also have "\<dots> = weighted_sum bs + (\<Sum>j = 0..<length bs. if j = i then of_nat i else 0)"
    by (simp only: sum.distrib weighted_sum_def)
  finally show ?thesis using i by simp
qed

lemma dh_average_sum:
  assumes "length (dh_buckets h) = 256" and "dh_total h \<noteq> 0"
  shows "dh_get_average h = of_nat (unat (weighted_sum (dh_buckets h))) / of_nat (unat (dh_total h))"
proof -
  have "weighted_sum (dh_buckets h) = (\<Sum>i = 0..<Suc 255. of_nat i * dh_buckets h ! i)"
    unfolding weighted_sum_def assms(1) by (rule arg_cong [of _ _ "\<lambda>n. \<Sum>i = 0..<n. _ i"]) simp
  also have "\<dots> = (\<Sum>i\<leftarrow>[0..<255]. of_nat i * dh_buckets h ! i) + 255 * dh_buckets h ! 255"
    unfolding sum.atLeast0_lessThan_Suc interv_sum_list_conv_sum_set_nat by simp
  finally show ?thesis using assms(2) by (simp add: dh_get_average_def foldl_sum)
qed

text \<open>
  The average of a discrete histogram is the mean of the recorded values, each cut off at 255, as long as their sum fits
  into 64 bits.
\<close>

lemma dh_average_exact:
  assumes "vs \<noteq> []" and "255 * length vs < 2 ^ 64"
  shows "dh_get_average (foldl dh_record DiscreteHistogram_init vs) = of_nat (\<Sum>v\<leftarrow>vs. min (unat v) 255) / of_nat (length vs)"
proof -
  have run: "length (dh_buckets (foldl dh_record h vs)) = 256 \<and> dh_total (foldl dh_record h vs) = dh_total h + of_nat (length vs) \<and>
      weighted_sum (dh_buckets (foldl dh_record h vs)) = weighted_sum (dh_buckets h) + of_nat (\<Sum>v\<leftarrow>vs. min (unat v) 255)"
    if "length (dh_buckets h) = 256" for h vs
    using that
  proof (induction vs arbitrary: h)
    case (Cons v vs)
    have "dh_index v < length (dh_buckets h)" using Cons.prems by (simp add: dh_index_def)
    note step = weighted_sum_bump [OF this]
    have "length (dh_buckets (dh_record h v)) = 256" using Cons.prems by (simp add: dh_record_def bump_def)
    from Cons.IH [OF this] show ?case using step by (simp add: dh_record_def dh_index_def add.assoc)
  qed simp
  let ?h = "foldl dh_record DiscreteHistogram_init vs"
  have init: "weighted_sum (dh_buckets DiscreteHistogram_init) = 0" "dh_total DiscreteHistogram_init = 0"
    by (simp_all add: weighted_sum_def DiscreteHistogram_init_def)
  have "(\<Sum>v\<leftarrow>vs. min (unat v) 255) \<le> 255 * length vs" for vs :: "u32 list" by (induction vs) (auto simp: min_def)
  then have small: "(\<Sum>v\<leftarrow>vs. min (unat v) 255) < 2 ^ 64" using assms(2) by (meson le_less_trans)
  have "length vs < 2 ^ 64" using assms(2) by simp
  note small = small this
  have r: "length (dh_buckets ?h) = 256" "dh_total ?h = of_nat (length vs)" "weighted_sum (dh_buckets ?h) = of_nat (\<Sum>v\<leftarrow>vs. min (unat v) 255)"
    using run [of DiscreteHistogram_init vs] init by (simp_all add: DiscreteHistogram_init_def)
  have u: "unat (of_nat (length vs) :: u64) = length vs" "unat (of_nat (\<Sum>v\<leftarrow>vs. min (unat v) 255) :: u64) = (\<Sum>v\<leftarrow>vs. min (unat v) 255)"
    using small by (simp_all add: unat_of_nat)
  then have "dh_total ?h \<noteq> 0" using assms(1) r(2) by (metis length_0_conv unat_0)
  from dh_average_sum [OF r(1) this] show ?thesis using u r(2,3) by simp
qed

text \<open>
  The bounds of the latency buckets do not fit their indexes: a latency that is counted in a bucket is not below the
  bucket's upper bound, so that every interpolated percentile is too small.
\<close>

lemma log2_floor_upto_le: "2 ^ k \<le> x \<Longrightarrow> 2 ^ log2_floor_upto n k x \<le> x"
  by (induction n arbitrary: k) simp_all

lemma latency_above_bucket:
  assumes "MIN_LATENCY_US \<le> latency_us"
  shows "get_bucket_upper_bound (ls_get_bucket_index latency_us) \<le> latency_us"
proof -
  have "2 ^ log2_floor_upto 31 0 (latency_us / MIN_LATENCY_US) \<le> latency_us / MIN_LATENCY_US"
    using assms by (intro log2_floor_upto_le) (simp add: MIN_LATENCY_US_def)
  then show ?thesis using assms by (simp add: ls_get_bucket_index_def get_bucket_upper_bound_def MIN_LATENCY_US_def)
qed

end
