(* ===== verification/Rdma_Manager.thy ===== *)
theory Rdma_Manager
  imports Memory_Server Thread_Stats
begin

text \<open>
  \<^verbatim>\<open>src/src/rdma/rdma_manager.hpp\<close> and \<^verbatim>\<open>rdma_manager.cpp\<close>: the manager routes an operation
  on a global address to the memory server it names, models the latency of the network and of
  the queue in front of each server, and accounts for both in per-thread statistics.
  A thread is a number; a reading of the steady clock is an argument of the operations
  (\<open>now i\<close> is the \<open>i\<close>-th reading of the call); sleeping has no effect on the state.
  The keys of \<^verbatim>\<open>server_finish_times_\<close>, shared pointers to servers, are server indices.
\<close>

record RDMAThreadStats =
  op_counts :: "u64 list"
  total_rtt_ns :: u64

record RDMAManager =
  mem_servers :: "MemoryServer list"
  mem_per_server :: u64
  base_rtt_ns :: u64
  sleep_enabled :: bool
  server_finish_times :: "nat \<Rightarrow> u64 option"
  thread_stats :: "(nat \<times> RDMAThreadStats) list"
  trackers :: "nat \<Rightarrow> ThreadStatsTracker option"

definition RDMAThreadStats_init :: RDMAThreadStats where
  "RDMAThreadStats_init = \<lparr>op_counts = replicate 4 0, total_rtt_ns = 0\<rparr>"

definition RDMAManager_init :: "MemoryServer list \<Rightarrow> u64 \<Rightarrow> u64 \<Rightarrow> RDMAManager" where
  "RDMAManager_init servers mem_per base_rtt =
     \<lparr>mem_servers = servers, mem_per_server = mem_per, base_rtt_ns = base_rtt, sleep_enabled = True,
      server_finish_times = (\<lambda>_. None), thread_stats = [], trackers = (\<lambda>_. None)\<rparr>"

definition set_thread_stats_tracker :: "nat \<Rightarrow> ThreadStatsTracker option \<Rightarrow> RDMAManager \<Rightarrow> RDMAManager" where
  "set_thread_stats_tracker tid t m = m\<lparr>trackers := (trackers m)(tid := t)\<rparr>"

definition set_sleep :: "bool \<Rightarrow> RDMAManager \<Rightarrow> RDMAManager" where
  "set_sleep b m = m\<lparr>sleep_enabled := b\<rparr>"

definition allocate_on_server :: "RDMAManager \<Rightarrow> u8 \<Rightarrow> u64 \<Rightarrow> err + (u64 \<times> RDMAManager)" where
  "allocate_on_server m i sz =
     (if unat i < length (mem_servers m)
      then let (off, s) = ms_allocate (mem_servers m ! unat i) sz
           in Inr (off, m\<lparr>mem_servers := (mem_servers m)[unat i := s]\<rparr>)
      else Inl Exception)"

subsection \<open>Latency\<close>

text \<open>
  The source computes the delay in \<^verbatim>\<open>long double\<close> and truncates; up to \<open>2 ^ 34\<close> bytes the
  product with \<open>10 ^ 9\<close> is exact, and the model is the exact quotient.
\<close>

definition calculate_bw_delay_ns :: "RDMAOp \<Rightarrow> u64" where
  "calculate_bw_delay_ns op =
     (let n = (case op of ReadOp _ _ n \<Rightarrow> unat n | WriteOp _ _ n \<Rightarrow> unat n | _ \<Rightarrow> 8)
      in of_nat ((n * 1000000000) div 12500000000))"

text \<open>
  The compare-and-swap loop on the finish time of a server is one atomic update: the loop
  repeats until the value it computed from is the value it replaces.
\<close>

definition get_server_time_delay :: "RDMAManager \<Rightarrow> nat \<Rightarrow> u64 \<Rightarrow> u64 \<Rightarrow> u64 \<times> RDMAManager" where
  "get_server_time_delay m server T_trans T_now =
     (let T_prev_finish = (case server_finish_times m server of None \<Rightarrow> 0 | Some t \<Rightarrow> t);
          T_server_free = (if T_prev_finish > T_now then T_prev_finish else T_now);
          T_expected_finish = T_server_free + T_trans;
          T_queue = (if T_prev_finish > T_now then T_prev_finish - T_now else 0)
      in (T_queue + T_trans,
          m\<lparr>server_finish_times := (server_finish_times m)(server := Some T_expected_finish)\<rparr>))"

subsection \<open>Execution\<close>

definition get_server :: "RDMAManager \<Rightarrow> GlobalAddress \<Rightarrow> (nat \<times> u64) option" where
  "get_server m g =
     (if unat (server_index g) < length (mem_servers m)
      then Some (unat (server_index g), gaddr_offset g) else None)"

definition set_server_memory :: "RDMAManager \<Rightarrow> nat \<Rightarrow> memory \<Rightarrow> RDMAManager" where
  "set_server_memory m i mem =
     m\<lparr>mem_servers := (mem_servers m)[i := (mem_servers m ! i)\<lparr>ms_rdma := mem\<rparr>]\<rparr>"

definition execute_rdma :: "RDMAManager \<Rightarrow> RDMAOp \<Rightarrow> err + (bool \<times> RDMAOut \<times> RDMAManager)" where
  "execute_rdma m op =
     (case get_server m (op_addr op) of
        None \<Rightarrow> Inr (False, NoOut, m)
      | Some (i, local_addr) \<Rightarrow>
          (let local_op = set_addr (GlobalAddress_raw local_addr) op;
               mem = ms_rdma (mem_servers m ! i)
           in case op_type op of
                READ \<Rightarrow> (case rdma_read mem local_op of
                    Inl e \<Rightarrow> Inl e | Inr (ok, out) \<Rightarrow> Inr (ok, out, m))
              | WRITE \<Rightarrow> (case rdma_write mem local_op of
                    Inl e \<Rightarrow> Inl e | Inr (ok, out, mem') \<Rightarrow> Inr (ok, out, set_server_memory m i mem'))
              | CAS \<Rightarrow> (case rdma_cas mem local_op of
                    Inl e \<Rightarrow> Inl e | Inr (ok, out, mem') \<Rightarrow> Inr (ok, out, set_server_memory m i mem'))
              | FAA \<Rightarrow> (case rdma_faa mem local_op of
                    Inl e \<Rightarrow> Inl e | Inr (old, mem') \<Rightarrow> Inr (True, NoOut, set_server_memory m i mem'))))"

subsection \<open>Statistics\<close>

definition ensure_thread_stats :: "nat \<Rightarrow> RDMAManager \<Rightarrow> RDMAManager" where
  "ensure_thread_stats tid m =
     (if tid \<in> fst ` set (thread_stats m) then m
      else m\<lparr>thread_stats := thread_stats m @ [(tid, RDMAThreadStats_init)]\<rparr>)"

definition count_stats :: "RDMAOpType \<Rightarrow> u64 \<Rightarrow> RDMAThreadStats \<Rightarrow> RDMAThreadStats" where
  "count_stats t rtt st =
     st\<lparr>op_counts := (op_counts st)[op_index t := op_counts st ! op_index t + 1],
        total_rtt_ns := total_rtt_ns st + rtt\<rparr>"

definition add_thread_stats :: "nat \<Rightarrow> RDMAOpType \<Rightarrow> u64 \<Rightarrow> RDMAManager \<Rightarrow> RDMAManager" where
  "add_thread_stats tid t rtt m =
     m\<lparr>thread_stats := map (\<lambda>(i, st). (i, if i = tid then count_stats t rtt st else st)) (thread_stats m)\<rparr>"

definition with_tracker :: "nat \<Rightarrow> (ThreadStatsTracker \<Rightarrow> ThreadStatsTracker) \<Rightarrow> RDMAManager \<Rightarrow> RDMAManager" where
  "with_tracker tid f m =
     (case trackers m tid of None \<Rightarrow> m
      | Some t \<Rightarrow> m\<lparr>trackers := (trackers m)(tid := Some (f t))\<rparr>)"

definition collect_stats :: "RDMAManager \<Rightarrow> u64 list \<times> u64 \<times> (nat \<times> RDMAThreadStats) list" where
  "collect_stats m =
     (fold (\<lambda>(_, st) acc. map2 (+) acc (op_counts st)) (thread_stats m) (replicate 4 0),
      fold (\<lambda>(_, st) acc. acc + total_rtt_ns st) (thread_stats m) 0,
      thread_stats m)"

definition reset_stats :: "RDMAManager \<Rightarrow> RDMAManager" where
  "reset_stats m =
     m\<lparr>thread_stats := map (\<lambda>(i, st). (i, st\<lparr>op_counts := map (\<lambda>_. 0) (op_counts st), total_rtt_ns := 0\<rparr>))
        (thread_stats m)\<rparr>"

subsection \<open>Performing operations\<close>

definition perform_op ::
  "nat \<Rightarrow> (nat \<Rightarrow> u64) \<Rightarrow> RDMAManager \<Rightarrow> RDMAOp \<Rightarrow> err + (bool \<times> RDMAOut \<times> RDMAManager)" where
  "perform_op tid now m op =
     (if \<not> unat (server_index (op_addr op)) < length (mem_servers m) then Inl AssertionFailed
      else case get_server m (op_addr op) of
        None \<Rightarrow> Inr (False, NoOut, m)
      | Some (i, _) \<Rightarrow>
          (let one_way_ns = base_rtt_ns m div 2;
               bw_delay_ns = calculate_bw_delay_ns op;
               (server_delay, m1) = get_server_time_delay m i bw_delay_ns (now 0);
               pre_op_sleep = one_way_ns + server_delay
           in case execute_rdma m1 op of
                Inl e \<Rightarrow> Inl e
              | Inr (result, out, m2) \<Rightarrow>
                  (let post_op_sleep = one_way_ns + (if op_type op = READ then bw_delay_ns else 0);
                       m3 = ensure_thread_stats tid m2;
                       m4 = add_thread_stats tid (op_type op) (pre_op_sleep + post_op_sleep) m3
                   in Inr (result, out, with_tracker tid (record_rdma_op op) m4))))"

text \<open>The loop of \<^verbatim>\<open>perform_batch\<close>; \<open>k\<close> numbers the clock readings.\<close>

fun batch_loop ::
  "nat \<Rightarrow> (nat \<Rightarrow> u64) \<Rightarrow> nat \<Rightarrow> RDMAManager \<Rightarrow> RDMAOp list \<Rightarrow> RDMAOut list \<Rightarrow>
   err + (bool \<times> RDMAOut list \<times> RDMAManager)" where
  "batch_loop tid now k m [] outs = Inr (True, outs, m)"
| "batch_loop tid now k m (op # ops) outs =
     (case get_server m (op_addr op) of
        None \<Rightarrow> Inr (False, outs, m)
      | Some (i, _) \<Rightarrow>
          (let one_way_ns = base_rtt_ns m div 2;
               bw_delay_ns = calculate_bw_delay_ns op;
               (server_delay, m1) = get_server_time_delay m i bw_delay_ns (now k)
           in case execute_rdma m1 op of
                Inl e \<Rightarrow> Inl e
              | Inr (result, out, m2) \<Rightarrow>
                  if \<not> result then Inr (False, outs, m2)
                  else batch_loop tid now (Suc k)
                         (add_thread_stats tid (op_type op) (one_way_ns + server_delay + one_way_ns) m2)
                         ops (outs @ [out])))"

definition perform_batch ::
  "nat \<Rightarrow> (nat \<Rightarrow> u64) \<Rightarrow> RDMAManager \<Rightarrow> RDMAOp list \<Rightarrow> err + (bool \<times> RDMAOut list \<times> RDMAManager)" where
  "perform_batch tid now m ops =
     (if ops = [] then Inr (True, [], m)
      else case batch_loop tid now 0 (ensure_thread_stats tid m) ops [] of
        Inl e \<Rightarrow> Inl e
      | Inr (ok, outs, m') \<Rightarrow>
          Inr (ok, outs, if ok then with_tracker tid (record_rdma_ops ops) m' else m'))"

end
