(* ===== verification/Allocators.thy ===== *)
theory Allocators
  imports Rdma_Manager
begin

text \<open>
  \<^verbatim>\<open>src/src/rdma/local_allocator.hpp\<close>, \<^verbatim>\<open>rpc_allocator.hpp\<close> and \<^verbatim>\<open>simple_allocator.hpp\<close>: the
  slab allocators of a compute server, the abstract \<^verbatim>\<open>Allocator\<close> that backs them, and its two
  implementations, one that asks the memory servers in turn and one that asks the C++ heap.
  Offsets are 64-bit words and \<open>-1\<close> is the failure value of the interface. The free list of a
  slab is a third-party queue, the argument \<open>Q\<close>; a backing allocator is a function that takes a
  chunk size and its state and returns an offset and the new state, or an error.
\<close>

type_synonym 's backing = "u64 \<Rightarrow> 's \<Rightarrow> err + (u64 \<times> 's)"

subsection \<open>SlabAllocator\<close>

record 'q SlabAllocator =
  slab_size :: u64
  num_slabs :: u64
  free_list :: 'q

text \<open>\<^verbatim>\<open>get_offsets_from_chunk\<close>: a slab size of 0, or a sum that wraps, makes the loop endless.\<close>

partial_function (option) get_offsets_loop :: "u64 \<Rightarrow> u64 \<Rightarrow> u64 \<Rightarrow> u64 list \<Rightarrow> u64 list option" where
  "get_offsets_loop slab limit offset acc =
     (if offset < limit then get_offsets_loop slab limit (offset + slab) (acc @ [offset])
      else Some acc)"

definition get_offsets_from_chunk :: "u64 \<Rightarrow> u64 \<Rightarrow> u64 \<Rightarrow> u64 list option" where
  "get_offsets_from_chunk slab start_offset chunk_size =
     get_offsets_loop slab (start_offset + chunk_size) start_offset []"

definition get_slabs_nolock ::
  "(u64, 'q) queue_ops \<Rightarrow> 's backing \<Rightarrow> u64 \<Rightarrow> 'q SlabAllocator \<Rightarrow> 's \<Rightarrow> err + ('q SlabAllocator \<times> 's)" where
  "get_slabs_nolock Q backing slabs_to_add sa st =
     (let chunk_size = slabs_to_add * slab_size sa
      in case backing chunk_size st of
           Inl e \<Rightarrow> Inl e
         | Inr (new_chunk, st') \<Rightarrow>
             if new_chunk = -1 then Inr (sa, st')
             else case get_offsets_from_chunk (slab_size sa) new_chunk chunk_size of
               None \<Rightarrow> Inl Diverges
             | Some new_offsets \<Rightarrow>
                 Inr (sa\<lparr>free_list := fold (q_enqueue Q) new_offsets (free_list sa),
                         num_slabs := num_slabs sa + of_nat (length new_offsets)\<rparr>, st'))"

definition SlabAllocator_new ::
  "(u64, 'q) queue_ops \<Rightarrow> 's backing \<Rightarrow> u64 \<Rightarrow> u64 \<Rightarrow> 's \<Rightarrow> err + ('q SlabAllocator \<times> 's)" where
  "SlabAllocator_new Q backing sz n st =
     get_slabs_nolock Q backing n \<lparr>slab_size = sz, num_slabs = n, free_list = q_empty Q\<rparr> st"

definition allocate_nogrowth :: "(u64, 'q) queue_ops \<Rightarrow> 'q SlabAllocator \<Rightarrow> u64 \<times> 'q SlabAllocator" where
  "allocate_nogrowth Q sa =
     (case q_try_dequeue Q (free_list sa) of
        Some (offset, q) \<Rightarrow> (offset, sa\<lparr>free_list := q\<rparr>)
      | None \<Rightarrow> (-1, sa))"

text \<open>
  \<^verbatim>\<open>SlabAllocator::allocate\<close>: a first attempt, a second one under the growth lock (with no other
  thread in between it sees the same queue), growth, and a last attempt.
\<close>

definition slab_allocate ::
  "(u64, 'q) queue_ops \<Rightarrow> 's backing \<Rightarrow> 'q SlabAllocator \<Rightarrow> 's \<Rightarrow> err + (u64 \<times> 'q SlabAllocator \<times> 's)" where
  "slab_allocate Q backing sa st =
     (case q_try_dequeue Q (free_list sa) of
        Some (offset, q) \<Rightarrow> Inr (offset, sa\<lparr>free_list := q\<rparr>, st)
      | None \<Rightarrow>
          (case q_try_dequeue Q (free_list sa) of
             Some (offset, q) \<Rightarrow> Inr (offset, sa\<lparr>free_list := q\<rparr>, st)
           | None \<Rightarrow>
               (case get_slabs_nolock Q backing (num_slabs sa) sa st of
                  Inl e \<Rightarrow> Inl e
                | Inr (sa', st') \<Rightarrow>
                    (case q_try_dequeue Q (free_list sa') of
                       Some (offset, q) \<Rightarrow> Inr (offset, sa'\<lparr>free_list := q\<rparr>, st')
                     | None \<Rightarrow> Inr (-1, sa', st')))))"

definition slab_free :: "(u64, 'q) queue_ops \<Rightarrow> u64 \<Rightarrow> 'q SlabAllocator \<Rightarrow> 'q SlabAllocator" where
  "slab_free Q offset sa = sa\<lparr>free_list := q_enqueue Q offset (free_list sa)\<rparr>"

subsection \<open>LocalAllocator\<close>

type_synonym 'q LocalAllocator = "u64 \<Rightarrow> 'q SlabAllocator option"

text \<open>The constructor visits the sizes in the order of the \<^verbatim>\<open>std::set\<close>, that is increasing.\<close>

fun LocalAllocator_new ::
  "(u64, 'q) queue_ops \<Rightarrow> 's backing \<Rightarrow> u64 list \<Rightarrow> u64 \<Rightarrow> 's \<Rightarrow> err + ('q LocalAllocator \<times> 's)" where
  "LocalAllocator_new Q backing [] n st = Inr (Map.empty, st)"
| "LocalAllocator_new Q backing (sz # sizes) n st =
     (case SlabAllocator_new Q backing sz n st of
        Inl e \<Rightarrow> Inl e
      | Inr (sa, st') \<Rightarrow>
          (case LocalAllocator_new Q backing sizes n st' of
             Inl e \<Rightarrow> Inl e
           | Inr (slabs, st'') \<Rightarrow> Inr (slabs(sz \<mapsto> sa), st'')))"

definition local_allocate ::
  "(u64, 'q) queue_ops \<Rightarrow> 's backing \<Rightarrow> u64 \<Rightarrow> 'q LocalAllocator \<Rightarrow> 's \<Rightarrow>
   err + (u64 \<times> 'q LocalAllocator \<times> 's)" where
  "local_allocate Q backing sz la st =
     (case la sz of
        None \<Rightarrow> Inr (-1, la, st)
      | Some sa \<Rightarrow>
          (case slab_allocate Q backing sa st of
             Inl e \<Rightarrow> Inl e
           | Inr (off, sa', st') \<Rightarrow> Inr (off, la(sz \<mapsto> sa'), st')))"

definition local_free :: "(u64, 'q) queue_ops \<Rightarrow> u64 \<Rightarrow> u64 \<Rightarrow> 'q LocalAllocator \<Rightarrow> 'q LocalAllocator" where
  "local_free Q sz offset la =
     (case la sz of None \<Rightarrow> la | Some sa \<Rightarrow> la(sz \<mapsto> slab_free Q offset sa))"

subsection \<open>RPCAllocator\<close>

text \<open>
  The state is the list of servers and the round-robin counter, a function-local
  \<^verbatim>\<open>static std::atomic\<close>. The worker of the chosen server fulfils the promise with the result
  of \<^verbatim>\<open>MemoryServer::allocate\<close>, which the call waits for. With no servers the remainder is a
  division by zero, and an index past the end of \<^verbatim>\<open>servers_\<close> is undefined behaviour too.
\<close>

definition pick_server :: "nat \<Rightarrow> u64 \<Rightarrow> nat \<times> u64" where
  "pick_server n rr = (unat (rr mod of_nat n), rr + 1)"

definition rpc_allocate :: "(MemoryServer list \<times> u64) backing" where
  "rpc_allocate chunk_size st =
     (let (servers, rr) = st in
      if servers = [] then Inl UndefinedBehaviour
      else let (server_idx, rr') = pick_server (length servers) rr;
               (offset, s) = ms_allocate (servers ! server_idx) chunk_size
           in Inr (uintptr (GlobalAddress_of (of_nat server_idx) offset), (servers[server_idx := s], rr')))"

definition rpc_free :: "u64 \<Rightarrow> MemoryServer list \<Rightarrow> err + MemoryServer list" where
  "rpc_free offset servers =
     (let g = GlobalAddress_raw offset; server_idx = unat (server_index g) in
      if server_idx < length servers
      then Inr (servers[server_idx := ms_free (servers ! server_idx) (gaddr_offset g)])
      else Inl UndefinedBehaviour)"

subsection \<open>SimpleAllocator\<close>

text \<open>
  \<^verbatim>\<open>::operator new\<close> belongs to the language runtime; \<open>heap_new\<close>, an argument, is the address it
  returns for a size when the addresses in the set are in use (\<open>None\<close> for \<^verbatim>\<open>std::bad_alloc\<close>).
\<close>

definition simple_allocate :: "(u64 \<Rightarrow> u64 set \<Rightarrow> u64 option) \<Rightarrow> u64 set backing" where
  "simple_allocate heap_new chunk_size allocs =
     (case heap_new chunk_size allocs of
        None \<Rightarrow> Inr (-1, allocs)
      | Some p \<Rightarrow> Inr (p, insert p allocs))"

definition simple_free :: "u64 \<Rightarrow> u64 set \<Rightarrow> u64 set" where
  "simple_free offset allocs = (if offset \<in> allocs then allocs - {offset} else allocs)"

subsection \<open>The slabs of a chunk\<close>

lemma unat_slab_offset:
  fixes start slab :: u64
  assumes "unat start + n * unat slab < 2 ^ 64" and "i \<le> n"
  shows "unat (start + of_nat i * slab) = unat start + i * unat slab"
proof (cases "slab = 0")
  case False
  then have pos: "0 < unat slab" by (simp add: unat_gt_0)
  have le: "i * unat slab \<le> n * unat slab" using assms(2) by (rule mult_le_mono1)
  then have sum: "unat start + i * unat slab < 2 ^ 64" using assms(1) by linarith
  have "i \<le> i * unat slab" using pos by simp
  then have "i < 2 ^ 64" using sum by linarith
  then have "unat (of_nat i :: u64) = i" by (simp add: unat_of_nat)
  moreover have "i * unat slab < 2 ^ 64" using sum by linarith
  ultimately have "unat (of_nat i * slab) = i * unat slab"
    by (simp add: unat_word_ariths)
  then show ?thesis using sum by (simp add: unat_word_ariths)
qed simp

lemma get_offsets_loop_slabs:
  assumes "unat start + n * unat slab < 2 ^ 64" and "0 < slab" and "k \<le> n"
  shows "get_offsets_loop slab (start + of_nat n * slab) (start + of_nat (n - k) * slab) acc =
    Some (acc @ map (\<lambda>i. start + of_nat i * slab) [n - k..<n])"
  using assms(3)
proof (induction k arbitrary: acc)
  case 0
  then show ?case by (subst get_offsets_loop.simps) simp
next
  case (Suc k)
  let ?i = "n - Suc k"
  have i: "?i < n" "Suc ?i = n - k" using Suc.prems by simp_all
  have "unat (start + of_nat ?i * slab) < unat (start + of_nat n * slab)"
    using i(1) assms(2) unat_slab_offset [OF assms(1), of ?i] unat_slab_offset [OF assms(1), of n]
    by (simp add: unat_gt_0 word_neq_0_conv [symmetric])
  then have less: "start + of_nat ?i * slab < start + of_nat n * slab"
    by (simp add: word_less_nat_alt)
  have step: "start + of_nat ?i * slab + slab = start + of_nat (n - k) * slab"
    unfolding i(2) [symmetric] by (simp add: algebra_simps)
  have "[?i..<n] = ?i # [n - k..<n]" using i by (simp add: upt_conv_Cons)
  moreover have "get_offsets_loop slab (start + of_nat n * slab) (start + of_nat ?i * slab) acc =
      get_offsets_loop slab (start + of_nat n * slab) (start + of_nat (n - k) * slab)
        (acc @ [start + of_nat ?i * slab])"
    by (subst get_offsets_loop.simps) (simp only: less step if_True)
  ultimately show ?case
    using Suc.IH [of "acc @ [start + of_nat ?i * slab]"] Suc.prems by simp
qed

lemma get_offsets_from_chunk_slabs:
  assumes "unat start + n * unat slab < 2 ^ 64" and "0 < slab"
  shows "get_offsets_from_chunk slab start (of_nat n * slab) =
    Some (map (\<lambda>i. start + of_nat i * slab) [0..<n])"
  using get_offsets_loop_slabs [OF assms, of n "[]"] by (simp add: get_offsets_from_chunk_def)

subsection \<open>Blocks that do not overlap\<close>

definition block :: "nat \<Rightarrow> u64 \<Rightarrow> nat set" where
  "block sz off = {unat off ..< unat off + sz}"

definition tiled :: "nat set \<Rightarrow> nat \<Rightarrow> u64 multiset \<Rightarrow> bool" where
  "tiled area sz offs \<longleftrightarrow> (\<forall>a \<in># offs. count offs a = 1 \<and> block sz a \<subseteq> area) \<and>
     (\<forall>a \<in># offs. \<forall>b \<in># offs. a \<noteq> b \<longrightarrow> block sz a \<inter> block sz b = {})"

lemma tiled_mono: "tiled area sz offs \<Longrightarrow> area \<subseteq> area' \<Longrightarrow> tiled area' sz offs"
  unfolding tiled_def by blast

lemma tiled_union:
  assumes A: "tiled A sz xs" and B: "tiled B sz ys" and "A \<inter> B = {}" and "0 < sz"
  shows "tiled (A \<union> B) sz (xs + ys)"
proof -
  have apart: "block sz a \<inter> block sz b = {}" if "a \<in># xs" "b \<in># ys" for a b
    using that A B assms(3) unfolding tiled_def by blast
  have "unat a \<in> block sz a" for a using assms(4) by (simp add: block_def)
  then have "a \<in># xs \<Longrightarrow> a \<notin># ys" for a using apart by blast
  then have "count (xs + ys) a = 1 \<and> block sz a \<subseteq> A \<union> B" if "a \<in># xs + ys" for a
    using that A B unfolding tiled_def by (metis add.right_neutral add_0 count_eq_zero_iff count_union
        le_supI1 le_supI2 union_iff)
  moreover have "block sz a \<inter> block sz b = {}" if mem: "a \<in># xs + ys" "b \<in># xs + ys" and ne: "a \<noteq> b" for a b
  proof -
    consider "a \<in># xs" "b \<in># xs" | "a \<in># ys" "b \<in># ys" | "a \<in># xs" "b \<in># ys" | "b \<in># xs" "a \<in># ys"
      using mem unfolding union_iff by blast
    then show ?thesis using A B ne apart unfolding tiled_def by cases blast+
  qed
  ultimately show ?thesis unfolding tiled_def by blast
qed

lemma tiled_slabs:
  assumes "unat start + n * unat slab < 2 ^ 64" and "0 < slab"
  shows "tiled {unat start ..< unat start + n * unat slab} (unat slab)
    (mset (map (\<lambda>i. start + of_nat i * slab) [0..<n]))"
proof -
  let ?f = "\<lambda>i. start + of_nat i * slab"
  have pos: "unat slab \<noteq> 0" using assms(2) by (simp add: unat_eq_0 word_neq_0_conv)
  have un: "unat (?f i) = unat start + i * unat slab" if "i < n" for i
    using unat_slab_offset [OF assms(1), of i] that by simp
  have inj: "inj_on ?f {0..<n}"
  proof (rule inj_onI)
    fix i j assume "i \<in> {0..<n}" "j \<in> {0..<n}" "?f i = ?f j"
    then have "unat start + i * unat slab = unat start + j * unat slab"
      using un [of i] un [of j] by (metis atLeastLessThan_iff)
    then show "i = j" using pos by simp
  qed
  then have "distinct (map ?f [0..<n])" by (simp add: distinct_map)
  then have count: "a \<in> ?f ` {0..<n} \<Longrightarrow> count (mset (map ?f [0..<n])) a = 1" for a
    using distinct_count_atmost_1 [of "map ?f [0..<n]"] by simp
  have sub: "block (unat slab) (?f i) \<subseteq> {unat start ..< unat start + n * unat slab}" if "i < n" for i
  proof -
    have "Suc i * unat slab \<le> n * unat slab" using that by (intro mult_le_mono1) simp
    then show ?thesis using un [OF that] by (auto simp: block_def)
  qed
  have disj: "block (unat slab) (?f i) \<inter> block (unat slab) (?f j) = {}" if "i < j" "j < n" for i j
  proof -
    have "Suc i * unat slab \<le> j * unat slab" using that by (intro mult_le_mono1) simp
    then show ?thesis using un [of i] un [of j] that by (auto simp: block_def)
  qed
  have disj': "block (unat slab) (?f i) \<inter> block (unat slab) (?f j) = {}"
    if "i < n" "j < n" "?f i \<noteq> ?f j" for i j
    using disj [of i j] disj [of j i] that by (cases i j rule: linorder_cases) (auto simp: Int_commute)
  show ?thesis
    unfolding tiled_def using count sub disj' by auto
qed

lemma elems_fold_enqueue:
  "queue_law Q elems \<Longrightarrow> elems (fold (q_enqueue Q) xs q) = elems q + mset xs"
  by (induction xs arbitrary: q) (simp_all add: queue_law_enqueue)

lemma unat_minus_1: "unat (-1 :: u64) = 2 ^ 64 - 1"
  by (simp add: unsigned_minus_1_eq_mask mask_eq_exp_minus_1)

lemma dequeue_tiled:
  assumes Q: "queue_law Q elems" and deq: "q_try_dequeue Q q = Some (off, q')"
    and A: "tiled A sz (elems q + live)" and bound: "A \<subseteq> {..< 2 ^ 64 - 1}" and "0 < sz"
  shows "off \<noteq> -1 \<and> tiled A sz (elems q' + add_mset off live)"
proof -
  have elems: "elems q = add_mset off (elems q')" using queue_law_Some [OF Q deq] .
  have "unat off \<in> block sz off" using assms(5) by (simp add: block_def)
  moreover have "block sz off \<subseteq> A" using A elems by (auto simp: tiled_def)
  ultimately have "unat off < 2 ^ 64 - 1" using bound by blast
  then have "off \<noteq> -1" by (metis less_irrefl unat_minus_1)
  then show ?thesis using A elems by simp
qed

text \<open>
  The allocators of all size classes together: every class tiles an area of its own. \<open>live sz\<close>
  are the offsets that clients hold of class \<open>sz\<close>.
\<close>

definition local_inv ::
  "('q \<Rightarrow> u64 multiset) \<Rightarrow> nat set \<Rightarrow> (u64 \<Rightarrow> u64 multiset) \<Rightarrow> 'q LocalAllocator \<Rightarrow> bool" where
  "local_inv elems own live la \<longleftrightarrow> (\<exists>area.
     (\<forall>sz sa. la sz = Some sa \<longrightarrow> slab_size sa = sz \<and> 0 < sz \<and> area sz \<subseteq> own \<and>
        tiled (area sz) (unat sz) (elems (free_list sa) + live sz)) \<and>
     (\<forall>sz sz'. sz \<in> dom la \<longrightarrow> sz' \<in> dom la \<longrightarrow> sz \<noteq> sz' \<longrightarrow> area sz \<inter> area sz' = {}))"

lemma local_inv_disjoint:
  assumes "local_inv elems own live la" and "a \<in># live sz" and "b \<in># live sz'" and "(sz, a) \<noteq> (sz', b)"
    and "sz \<in> dom la" and "sz' \<in> dom la"
  shows "block (unat sz) a \<inter> block (unat sz') b = {}"
  using assms unfolding local_inv_def tiled_def by (cases "sz = sz'") (auto, blast+)

lemma local_free_keeps:
  assumes "queue_law Q elems" and "local_inv elems own live la" and "off \<in># live sz"
  shows "local_inv elems own (live(sz := live sz - {#off#})) (local_free Q sz off la)"
proof -
  have "elems (q_enqueue Q off q) + (live sz - {#off#}) = elems q + live sz" for q
    using assms(3) by (simp add: queue_law_enqueue [OF assms(1)])
  then have cls: "\<exists>sa. la s = Some sa \<and> slab_size sa' = slab_size sa \<and>
      elems (free_list sa') + (live(sz := live sz - {#off#})) s = elems (free_list sa) + live s"
    if "local_free Q sz off la s = Some sa'" for s sa'
    using that by (auto simp: local_free_def slab_free_def split: option.splits if_splits)
  have dom: "dom (local_free Q sz off la) = dom la"
    by (auto simp: local_free_def split: option.splits if_splits)
  obtain area where area: "\<And>sz sa. la sz = Some sa \<Longrightarrow> slab_size sa = sz \<and> 0 < sz \<and> area sz \<subseteq> own \<and>
        tiled (area sz) (unat sz) (elems (free_list sa) + live sz)"
    and sep: "\<forall>sz sz'. sz \<in> dom la \<longrightarrow> sz' \<in> dom la \<longrightarrow> sz \<noteq> sz' \<longrightarrow> area sz \<inter> area sz' = {}"
    using assms(2) unfolding local_inv_def by blast
  have "slab_size sa' = s \<and> 0 < s \<and> area s \<subseteq> own \<and>
      tiled (area s) (unat s) (elems (free_list sa') + (live(sz := live sz - {#off#})) s)"
    if "local_free Q sz off la s = Some sa'" for s sa'
    using cls [OF that] area by metis
  then show ?thesis
    unfolding local_inv_def dom using sep by (intro exI [of _ area]) blast
qed

subsection \<open>The \<^verbatim>\<open>Allocator\<close> interface and its client, the slab allocator\<close>

locale chunk_source =
  fixes alloc :: "'s backing"
    and owned :: "'s \<Rightarrow> nat set"
    and serves :: "'s \<Rightarrow> u64 \<Rightarrow> bool"
  assumes alloc_fresh: "serves s n \<Longrightarrow> \<exists>off s'. alloc n s = Inr (off, s') \<and>
      (if off = -1 then owned s' = owned s
       else unat off + unat n < 2 ^ 64 \<and> block (unat n) off \<inter> owned s = {} \<and>
            owned s' = owned s \<union> block (unat n) off)"
    and owned_bound: "serves s n \<Longrightarrow> owned s \<subseteq> {..< 2 ^ 64 - 1}"
begin

lemma get_slabs_nolock_tiles:
  assumes Q: "queue_law Q elems" and "serves st (n * slab_size sa)" and "0 < slab_size sa"
    and "unat n * unat (slab_size sa) < 2 ^ 64"
  shows "\<exists>sa' st' area. get_slabs_nolock Q alloc n sa st = Inr (sa', st') \<and>
    slab_size sa' = slab_size sa \<and> area \<inter> owned st = {} \<and> owned st' = owned st \<union> area \<and>
    area \<subseteq> {..< 2 ^ 64 - 1} \<and> (\<exists>offs. elems (free_list sa') = elems (free_list sa) + offs \<and> tiled area (unat (slab_size sa)) offs \<and>
      (size offs = unat n \<or> (\<exists>st''. alloc (n * slab_size sa) st = Inr (-1, st''))))"
proof -
  let ?sz = "slab_size sa"
  have chunk: "unat (n * ?sz) = unat n * unat ?sz" using assms(4) by (simp add: unat_word_ariths)
  obtain off st' where alloc: "alloc (n * ?sz) st = Inr (off, st')"
    and fresh: "if off = -1 then owned st' = owned st
       else unat off + unat (n * ?sz) < 2 ^ 64 \<and> block (unat (n * ?sz)) off \<inter> owned st = {} \<and>
            owned st' = owned st \<union> block (unat (n * ?sz)) off"
    using alloc_fresh [OF assms(2)] by blast
  show ?thesis
  proof (cases "off = -1")
    case True
    then show ?thesis
      using alloc fresh by (auto simp: get_slabs_nolock_def Let_def tiled_def intro!: exI [of _ "{}"] exI [of _ "{#}"])
  next
    case False
    then have room: "unat off + unat n * unat ?sz < 2 ^ 64" using fresh chunk by simp
    let ?offs = "map (\<lambda>i. off + of_nat i * ?sz) [0..<unat n]"
    have slabs: "get_offsets_from_chunk ?sz off (n * ?sz) = Some ?offs"
      using get_offsets_from_chunk_slabs [OF room assms(3)] by simp
    have "tiled (block (unat (n * ?sz)) off) (unat ?sz) (mset ?offs)"
      using tiled_slabs [OF room assms(3)] by (simp only: block_def chunk)
    moreover have "block (unat (n * ?sz)) off \<subseteq> {..< 2 ^ 64 - 1}"
      using room by (auto simp: block_def chunk)
    ultimately show ?thesis
      using False alloc fresh slabs elems_fold_enqueue [OF Q, of ?offs "free_list sa"]
      by (auto simp: get_slabs_nolock_def Let_def)
  qed
qed

text \<open>
  The free slabs of a slab allocator and the ones its clients hold tile an area; growing the
  allocator extends the area by a chunk that no other client of the backing allocator owns.
\<close>

lemma slab_allocate_tiles:
  assumes Q: "queue_law Q elems" and "serves st (num_slabs sa * slab_size sa)"
    and pos: "0 < slab_size sa" and "unat (num_slabs sa) * unat (slab_size sa) < 2 ^ 64"
    and area: "area \<subseteq> owned st" and tiled: "tiled area (unat (slab_size sa)) (elems (free_list sa) + live)"
  shows "\<exists>off sa' st' area'. slab_allocate Q alloc sa st = Inr (off, sa', st') \<and>
    slab_size sa' = slab_size sa \<and> area \<subseteq> area' \<and> (area' - area) \<inter> owned st = {} \<and>
    owned st' = owned st \<union> area' \<and>
    tiled area' (unat (slab_size sa)) (elems (free_list sa') + (if off = -1 then live else add_mset off live)) \<and>
    (off = -1 \<longrightarrow> num_slabs sa = 0 \<or> (\<exists>st''. alloc (num_slabs sa * slab_size sa) st = Inr (-1, st'')))"
proof -
  let ?sz = "unat (slab_size sa)"
  have sz: "0 < ?sz" using pos by (simp add: unat_gt_0 word_neq_0_conv)
  have bound: "owned st \<subseteq> {..< 2 ^ 64 - 1}" using assms(2) by (rule owned_bound)
  show ?thesis
  proof (cases "q_try_dequeue Q (free_list sa)")
    case (Some r)
    obtain off q' where r: "r = (off, q')" by force
    have "off \<noteq> -1 \<and> tiled area ?sz (elems q' + add_mset off live)"
      using Some area bound tiled unfolding r by (intro dequeue_tiled [OF Q _ _ _ sz, of "free_list sa"]) auto
    then show ?thesis
      using Some area unfolding r
      by (intro exI [of _ off] exI [of _ "sa\<lparr>free_list := q'\<rparr>"] exI [of _ st] exI [of _ area])
         (auto simp: slab_allocate_def)
  next
    case None
    obtain sa' st' new offs where grow: "get_slabs_nolock Q alloc (num_slabs sa) sa st = Inr (sa', st')"
        "slab_size sa' = slab_size sa" "new \<inter> owned st = {}" "owned st' = owned st \<union> new"
        "elems (free_list sa') = elems (free_list sa) + offs" "tiled new ?sz offs"
        "size offs = unat (num_slabs sa) \<or> (\<exists>st''. alloc (num_slabs sa * slab_size sa) st = Inr (-1, st''))" and new_bound: "new \<subseteq> {..< 2 ^ 64 - 1}"
      using get_slabs_nolock_tiles [OF Q assms(2) pos assms(4)] by blast
    have "tiled (area \<union> new) ?sz ((elems (free_list sa) + live) + offs)"
      using tiled grow(6) grow(3) area sz by (intro tiled_union) auto
    then have all: "tiled (area \<union> new) ?sz (elems (free_list sa') + live)"
      using grow(5) by (simp add: ac_simps)
    show ?thesis
    proof (cases "q_try_dequeue Q (free_list sa')")
      case None
      then have "offs = {#}" using queue_law_None [OF Q] grow(5) by simp
      then have "num_slabs sa = 0 \<or> (\<exists>st''. alloc (num_slabs sa * slab_size sa) st = Inr (-1, st''))"
        using grow(7) by (auto simp: unat_eq_0)
      then show ?thesis
        using None \<open>q_try_dequeue Q (free_list sa) = None\<close> grow all area
        by (intro exI [of _ "-1"] exI [of _ sa'] exI [of _ st'] exI [of _ "area \<union> new"])
           (auto simp: slab_allocate_def)
    next
      case (Some r)
      obtain off q' where r: "r = (off, q')" by force
      have "off \<noteq> -1 \<and> tiled (area \<union> new) ?sz (elems q' + add_mset off live)"
        using Some area bound all new_bound unfolding r by (intro dequeue_tiled [OF Q _ _ _ sz, of "free_list sa'"]) auto
      then show ?thesis
        using \<open>q_try_dequeue Q (free_list sa) = None\<close> Some grow area unfolding r
        by (intro exI [of _ off] exI [of _ "sa'\<lparr>free_list := q'\<rparr>"] exI [of _ st'] exI [of _ "area \<union> new"])
           (auto simp: slab_allocate_def)
    qed
  qed
qed

lemma local_allocate_keeps:
  assumes Q: "queue_law Q elems" and inv: "local_inv elems (owned st) live la" and la: "la sz = Some sa"
    and "serves st (num_slabs sa * slab_size sa)" and "unat (num_slabs sa) * unat (slab_size sa) < 2 ^ 64"
  shows "\<exists>off la' st'. local_allocate Q alloc sz la st = Inr (off, la', st') \<and>
    local_inv elems (owned st') (if off = -1 then live else live(sz := add_mset off (live sz))) la' \<and>
    (off = -1 \<longrightarrow> num_slabs sa = 0 \<or> (\<exists>st''. alloc (num_slabs sa * sz) st = Inr (-1, st'')))"
proof -
  obtain area where cls: "\<And>sz sa. la sz = Some sa \<Longrightarrow> slab_size sa = sz \<and> 0 < sz \<and> area sz \<subseteq> owned st \<and>
        tiled (area sz) (unat sz) (elems (free_list sa) + live sz)"
    and sep: "\<And>sz sz'. sz \<in> dom la \<Longrightarrow> sz' \<in> dom la \<Longrightarrow> sz \<noteq> sz' \<Longrightarrow> area sz \<inter> area sz' = {}"
    using inv unfolding local_inv_def by blast
  have sz: "slab_size sa = sz" "0 < sz" "area sz \<subseteq> owned st" 
       "tiled (area sz) (unat sz) (elems (free_list sa) + live sz)"
    using cls [OF la] by auto
  obtain off sa' st' area' where step: "slab_allocate Q alloc sa st = Inr (off, sa', st')"
      "slab_size sa' = sz" "area sz \<subseteq> area'" "(area' - area sz) \<inter> owned st = {}" "owned st' = owned st \<union> area'"
      "tiled area' (unat sz) (elems (free_list sa') + (if off = -1 then live sz else add_mset off (live sz)))"
      "off = -1 \<longrightarrow> num_slabs sa = 0 \<or> (\<exists>st''. alloc (num_slabs sa * sz) st = Inr (-1, st''))"
    using slab_allocate_tiles [OF Q assms(4), of "area sz" "live sz"] sz assms(5) by auto
  have others: "area s \<inter> area' = {}" if "s \<in> dom la" "s \<noteq> sz" for s
  proof -
    have "area s \<inter> area sz = {}" using sep [OF that(1) _ that(2)] la by blast
    moreover have "area s \<subseteq> owned st" using that(1) cls by blast
    ultimately show ?thesis using step(4) by blast
  qed
  have "local_inv elems (owned st') (if off = -1 then live else live(sz := add_mset off (live sz))) (la(sz \<mapsto> sa'))"
    unfolding local_inv_def
  proof (rule exI [of _ "area(sz := area')"], intro conjI allI impI)
    fix s sa0 assume s: "(la(sz \<mapsto> sa')) s = Some sa0"
    show "slab_size sa0 = s" "0 < s" "(area(sz := area')) s \<subseteq> owned st'"
      using s step(2,5) sz(2) cls [of s sa0] by (auto split: if_splits)
    show "tiled ((area(sz := area')) s) (unat s)
        (elems (free_list sa0) + (if off = -1 then live else live(sz := add_mset off (live sz))) s)"
      using s step(6) cls [of s sa0] by (auto split: if_splits)
  next
    fix s s' assume "s \<in> dom (la(sz \<mapsto> sa'))" "s' \<in> dom (la(sz \<mapsto> sa'))" "s \<noteq> s'"
    then show "(area(sz := area')) s \<inter> (area(sz := area')) s' = {}"
      using others [of s] others [of s'] sep [of s s'] la by (auto split: if_splits)
  qed
  then show ?thesis using la step(1,7) by (auto simp: local_allocate_def)
qed

end

subsection \<open>The memory servers as a chunk source\<close>

definition server_area :: "nat \<Rightarrow> u64 \<Rightarrow> nat set" where
  "server_area i next = {i * 2 ^ 42 ..< i * 2 ^ 42 + unat next}"

definition rpc_owned :: "MemoryServer list \<times> u64 \<Rightarrow> nat set" where
  "rpc_owned st = (\<Union>i < length (fst st). server_area i (next_offset (fst st ! i)))"

definition rpc_serves :: "MemoryServer list \<times> u64 \<Rightarrow> u64 \<Rightarrow> bool" where
  "rpc_serves st n \<longleftrightarrow> fst st \<noteq> [] \<and> length (fst st) \<le> 256 \<and>
     (\<forall>s \<in> set (fst st). unat (next_offset s) \<le> 2 ^ 42) \<and>
     unat (next_offset (fst st ! fst (pick_server (length (fst st)) (snd st)))) + unat n < 2 ^ 42"

lemma unat_GlobalAddress_of:
  assumes "i < 256" and "unat off < 2 ^ 42"
  shows "unat (uintptr (GlobalAddress_of (of_nat i) off)) = i * 2 ^ 42 + unat off"
proof -
  let ?g = "GlobalAddress_of (of_nat i) off"
  have "gaddr_offset ?g = take_bit 42 off"
    by (simp add: gaddr_offset_GlobalAddress_of offset_mask_mask take_bit_eq_mask)
  then have "unat (gaddr_offset ?g) = take_bit 42 (unat off)" by (simp only: unsigned_take_bit_eq)
  then have off: "unat (gaddr_offset ?g) = unat off"
    using assms(2) by (simp only: take_bit_eq_mod mod_less)
  have "unat (server_index ?g) = i" using assms(1) by (simp add: unat_of_nat)
  then show ?thesis by (simp only: unat_uintptr unat_gaddr_split [of ?g] off)
qed

lemma server_area_disjoint:
  assumes "i \<noteq> j" and "unat a \<le> 2 ^ 42" and "unat b \<le> 2 ^ 42"
  shows "server_area i a \<inter> server_area j b = {}"
proof -
  have "i * 2 ^ 42 + 2 ^ 42 \<le> j * 2 ^ 42 \<or> j * 2 ^ 42 + 2 ^ 42 \<le> (i * 2 ^ 42 :: nat)"
    using assms(1) by (cases i j rule: linorder_cases) auto
  then show ?thesis using assms(2,3) by (auto simp: server_area_def)
qed

lemma pick_server_less: "0 < n \<Longrightarrow> n \<le> 256 \<Longrightarrow> fst (pick_server n rr) < n"
  by (simp add: pick_server_def unat_mod unat_of_nat)

lemma rpc_allocate_eq:
  fixes servers rr n
  defines "i \<equiv> fst (pick_server (length servers) rr)"
  assumes "rpc_serves (servers, rr) n"
  obtains off s' where "rpc_allocate n (servers, rr) = Inr (off, (servers[i := s'], rr + 1))" and "i < length servers"
    and "unat off = i * 2 ^ 42 + unat (next_offset (servers ! i))"
    and "unat (next_offset s') = unat (next_offset (servers ! i)) + unat n"
proof (rule that)
  let ?nx = "next_offset (servers ! i)"
  have ne: "servers \<noteq> []" "length servers \<le> 256" and room: "unat ?nx + unat n < 2 ^ 42"
    using assms(2) by (auto simp: rpc_serves_def i_def)
  show i: "i < length servers" using pick_server_less [of "length servers" rr] ne by (simp add: i_def)
  show "rpc_allocate n (servers, rr) = Inr (uintptr (GlobalAddress_of (of_nat i) ?nx),
      (servers[i := snd (ms_allocate (servers ! i) n)], rr + 1))"
    using ne by (simp add: rpc_allocate_def i_def pick_server_def ms_allocate_def Let_def)
  show "unat (uintptr (GlobalAddress_of (of_nat i) ?nx)) = i * 2 ^ 42 + unat ?nx"
    using i ne(2) room by (intro unat_GlobalAddress_of) linarith+
  show "unat (next_offset (snd (ms_allocate (servers ! i) n))) = unat ?nx + unat n"
    using room by (intro ms_allocate_next) simp
qed

lemma rpc_owned_update:
  assumes "i < length servers" and "unat off = i * 2 ^ 42 + unat (next_offset (servers ! i))"
    and "unat (next_offset s') = unat (next_offset (servers ! i)) + unat n"
  shows "rpc_owned (servers[i := s'], rr') = rpc_owned (servers, rr) \<union> block (unat n) off"
proof -
  let ?rest = "\<Union>j \<in> {..<length servers} - {i}. server_area j (next_offset (servers ! j))"
  have "rpc_owned (servers[i := s'], rr') = server_area i (next_offset s') \<union> ?rest"
    using assms(1) by (auto simp: rpc_owned_def nth_list_update split: if_splits)
  moreover have "rpc_owned (servers, rr) = server_area i (next_offset (servers ! i)) \<union> ?rest"
    using assms(1) by (auto simp: rpc_owned_def)
  moreover have "server_area i (next_offset s') = server_area i (next_offset (servers ! i)) \<union> block (unat n) off"
    by (auto simp: server_area_def block_def assms(2,3))
  ultimately show ?thesis by blast
qed

interpretation rpc: chunk_source rpc_allocate rpc_owned rpc_serves
proof unfold_locales
  fix st n assume serves: "rpc_serves st n"
  obtain servers rr where st: "st = (servers, rr)" by force
  define i where "i = fst (pick_server (length servers) rr)"
  obtain off s' where alloc: "rpc_allocate n st = Inr (off, (servers[i := s'], rr + 1))" and i: "i < length servers"
    and off: "unat off = i * 2 ^ 42 + unat (next_offset (servers ! i))"
    and nx: "unat (next_offset s') = unat (next_offset (servers ! i)) + unat n"
    using rpc_allocate_eq [of servers rr n] serves unfolding st i_def by metis
  have len: "length servers \<le> 256" and le: "\<And>s. s \<in> set servers \<Longrightarrow> unat (next_offset s) \<le> 2 ^ 42"
    and room: "unat (next_offset (servers ! i)) + unat n < 2 ^ 42"
    using serves by (auto simp: rpc_serves_def st i_def)
  have "i * 2 ^ 42 + 2 ^ 42 \<le> (2 ^ 50 :: nat)" using i len by simp
  then have small: "unat off + unat n < 2 ^ 50" using off room by linarith
  then have ne1: "off \<noteq> -1" using unat_minus_1 by auto
  have "block (unat n) off \<inter> server_area j (next_offset (servers ! j)) = {}" if "j < length servers" for j
  proof (cases "j = i")
    case False
    have "server_area i (next_offset s') \<inter> server_area j (next_offset (servers ! j)) = {}"
      using False nx room le that by (intro server_area_disjoint) auto
    moreover have "block (unat n) off \<subseteq> server_area i (next_offset s')"
      by (auto simp: block_def server_area_def off nx)
    ultimately show ?thesis by blast
  qed (auto simp: block_def server_area_def off)
  then have "block (unat n) off \<inter> rpc_owned st = {}" by (auto simp: rpc_owned_def st)
  then show "\<exists>off s'. rpc_allocate n st = Inr (off, s') \<and>
      (if off = -1 then rpc_owned s' = rpc_owned st
       else unat off + unat n < 2 ^ 64 \<and> block (unat n) off \<inter> rpc_owned st = {} \<and>
            rpc_owned s' = rpc_owned st \<union> block (unat n) off)"
    using alloc ne1 small rpc_owned_update [OF i off nx, of "rr + 1" rr] by (auto simp: st)
next
  fix st n assume serves: "rpc_serves st n"
  have "server_area i (next_offset (fst st ! i)) \<subseteq> {..< 2 ^ 64 - 1}" if "i < length (fst st)" for i
  proof -
    have "i * 2 ^ 42 + 2 ^ 42 \<le> (2 ^ 50 :: nat)" and "unat (next_offset (fst st ! i)) \<le> 2 ^ 42"
      using serves that by (auto simp: rpc_serves_def)
    then show ?thesis by (auto simp: server_area_def)
  qed
  then show "rpc_owned st \<subseteq> {..< 2 ^ 64 - 1}" by (auto simp: rpc_owned_def)
qed

lemma rpc_allocate_not_minus_1:
  assumes "rpc_serves st n"
  shows "rpc_allocate n st \<noteq> Inr (-1, st')"
proof -
  obtain servers rr where st: "st = (servers, rr)" by force
  define i where "i = fst (pick_server (length servers) rr)"
  obtain off s' where "rpc_allocate n st = Inr (off, (servers[i := s'], rr + 1))"
    and "i < length servers" and "unat off = i * 2 ^ 42 + unat (next_offset (servers ! i))"
    using rpc_allocate_eq [of servers rr n] assms unfolding st i_def by metis
  moreover have "length servers \<le> 256" and "unat (next_offset (servers ! i)) + unat n < 2 ^ 42"
    using assms by (auto simp: rpc_serves_def st i_def)
  ultimately have "unat off < 2 ^ 64 - 1" by simp
  then have "off \<noteq> -1" using unat_minus_1 by auto
  then show ?thesis using \<open>rpc_allocate n st = _\<close> by auto
qed

lemma local_allocate_dom: "local_allocate Q backing sz la st = Inr (off, la', st') \<Longrightarrow> dom la' = dom la"
  by (auto simp: local_allocate_def split: option.splits sum.splits if_splits)

lemma local_inv_count:
  assumes "local_inv elems own live la" and "sz \<in> dom la" and "a \<in># live sz"
  shows "count (live sz) a = 1"
proof -
  obtain sa area where "la sz = Some sa" and "tiled area (unat sz) (elems (free_list sa) + live sz)"
    using assms(1,2) unfolding local_inv_def by blast
  then have "count (elems (free_list sa) + live sz) a = 1"
    using assms(3) unfolding tiled_def by (metis union_iff)
  moreover have "0 < count (live sz) a" using assms(3) by (simp only: count_greater_zero_iff)
  ultimately show ?thesis unfolding count_union by linarith
qed

lemma local_inv_fresh: "la = [sz \<mapsto> \<lparr>slab_size = sz, num_slabs = n, free_list = q_empty Q\<rparr>] \<Longrightarrow>
   queue_law Q elems \<Longrightarrow> 0 < sz \<Longrightarrow> local_inv elems {} (\<lambda>_. {#}) la"
  by (auto simp: local_inv_def tiled_def queue_law_empty)

subsection \<open>Properties\<close>

text \<open>
  C15. Live blocks never overlap. Take a compute server whose slab allocators are backed by the
  memory servers, in a state in which the free and the live blocks of every size class tile
  disjoint areas of the allocated regions. Then an allocation of a managed size succeeds, the
  invariant holds again with the new block among the live ones, and the new block shares no byte
  with any block that a client already holds, of whatever size class.
\<close>

theorem local_allocate_no_overlap:
  assumes "queue_law Q elems" and "local_inv elems (rpc_owned st) live la" and "la sz = Some sa"
    and "rpc_serves st (num_slabs sa * slab_size sa)" and "num_slabs sa \<noteq> 0"
    and "unat (num_slabs sa) * unat (slab_size sa) < 2 ^ 64"
  shows "\<exists>off la' st'. local_allocate Q rpc_allocate sz la st = Inr (off, la', st') \<and> off \<noteq> -1 \<and>
    local_inv elems (rpc_owned st') (live(sz := add_mset off (live sz))) la' \<and>
    (\<forall>sz' b. sz' \<in> dom la \<longrightarrow> b \<in># live sz' \<longrightarrow> block (unat sz) off \<inter> block (unat sz') b = {})"
proof -
  have size: "slab_size sa = sz" using assms(2,3) unfolding local_inv_def by blast
  obtain off la' st' where step: "local_allocate Q rpc_allocate sz la st = Inr (off, la', st')"
    and inv: "local_inv elems (rpc_owned st') (if off = -1 then live else live(sz := add_mset off (live sz))) la'"
    and "off = -1 \<longrightarrow> num_slabs sa = 0 \<or> (\<exists>st''. rpc_allocate (num_slabs sa * sz) st = Inr (-1, st''))"
    using rpc.local_allocate_keeps [OF assms(1,2,3,4,6)] by blast
  then have off: "off \<noteq> -1"
    using assms(4,5) rpc_allocate_not_minus_1 [of st "num_slabs sa * sz"] size by blast
  let ?live = "live(sz := add_mset off (live sz))"
  have inv': "local_inv elems (rpc_owned st') ?live la'" using inv off by simp
  have dom: "dom la' = dom la" using step by (rule local_allocate_dom)
  have sz: "sz \<in> dom la'" using dom assms(3) by auto
  have "block (unat sz) off \<inter> block (unat sz') b = {}" if "sz' \<in> dom la" "b \<in># live sz'" for sz' b
  proof (rule local_inv_disjoint [OF inv' _ _ _ sz])
    have "count (?live sz) off = 1" by (rule local_inv_count [OF inv' sz]) simp
    then have "off \<notin># live sz" by (simp add: not_in_iff)
    then show "(sz, off) \<noteq> (sz', b)" using that(2) by auto
  qed (use that dom in auto)
  then show ?thesis using step off inv' by blast
qed

theorem local_allocate_no_overlap_witness:
  "\<exists>off la' st'. local_allocate fifo_ops rpc_allocate 8
      [8 \<mapsto> \<lparr>slab_size = 8, num_slabs = 2, free_list = []\<rparr>] ([MemoryServer_init 64], 0) = Inr (off, la', st') \<and>
    off \<noteq> -1 \<and> local_inv mset (rpc_owned st') ((\<lambda>_. {#})(8 := {#off#})) la'"
proof -
  let ?la = "[8 \<mapsto> \<lparr>slab_size = 8, num_slabs = 2, free_list = []\<rparr>] :: u64 list LocalAllocator"
  let ?st = "([MemoryServer_init 64], 0)"
  have own: "rpc_owned ?st = {}" by (simp add: rpc_owned_def server_area_def MemoryServer_init_def)
  have inv: "local_inv mset (rpc_owned ?st) (\<lambda>_. {#}) ?la"
    unfolding own by (rule local_inv_fresh [of _ 8 2 fifo_ops, OF _ fifo_queue_law]) (simp_all add: fifo_ops_def)
  have serves: "rpc_serves ?st 16"
    by (simp add: rpc_serves_def pick_server_def MemoryServer_init_def)
  show ?thesis
    using local_allocate_no_overlap [OF fifo_queue_law inv, of 8 "\<lparr>slab_size = 8, num_slabs = 2, free_list = []\<rparr>"] serves
    by auto
qed

end
