(* ===== verification/Remote_Memory.thy ===== *)
theory Remote_Memory
  imports Rdma_Manager
begin

text \<open>
  What the manager promises to its clients, stated over the contents of the memory regions
  alone: \<open>rmem m\<close> is the list of the regions of the servers of \<open>m\<close>, \<open>rm_step\<close> is the effect
  of an operation whose range lies inside a region (\<open>op_valid\<close>), and the refinement lemmas
  say that \<open>execute_rdma\<close>, \<open>perform_op\<close> and \<open>perform_batch\<close> have exactly that effect. The
  locale \<open>byte_store\<close> states the laws of loads and stores that clients reason with.
\<close>

type_synonym rmemory = "memory list"

definition rmem :: "RDMAManager \<Rightarrow> rmemory" where
  "rmem m = map ms_rdma (mem_servers m)"

definition rm_ok :: "rmemory \<Rightarrow> bool" where
  "rm_ok r \<longleftrightarrow> (\<forall>mem \<in> set r. mem_ok mem)"

definition rm_valid :: "rmemory \<Rightarrow> GlobalAddress \<Rightarrow> nat \<Rightarrow> bool" where
  "rm_valid r g n \<longleftrightarrow> unat (server_index g) < length r \<and>
     unat (gaddr_offset g) + n \<le> length (r ! unat (server_index g))"

definition rm_load :: "rmemory \<Rightarrow> GlobalAddress \<Rightarrow> nat \<Rightarrow> bytes" where
  "rm_load r g n = bslice (unat (gaddr_offset g)) n (r ! unat (server_index g))"

definition rm_store :: "rmemory \<Rightarrow> GlobalAddress \<Rightarrow> bytes \<Rightarrow> rmemory" where
  "rm_store r g bs =
     r[unat (server_index g) := bsplice (unat (gaddr_offset g)) bs (r ! unat (server_index g))]"

definition apart :: "GlobalAddress \<Rightarrow> nat \<Rightarrow> GlobalAddress \<Rightarrow> nat \<Rightarrow> bool" where
  "apart g n h k \<longleftrightarrow> server_index g \<noteq> server_index h \<or>
     unat (gaddr_offset g) + n \<le> unat (gaddr_offset h) \<or> unat (gaddr_offset h) + k \<le> unat (gaddr_offset g)"

subsection \<open>The laws of a byte store\<close>

locale byte_store =
  fixes load :: "'s \<Rightarrow> GlobalAddress \<Rightarrow> nat \<Rightarrow> bytes"
    and store :: "'s \<Rightarrow> GlobalAddress \<Rightarrow> bytes \<Rightarrow> 's"
    and valid :: "'s \<Rightarrow> GlobalAddress \<Rightarrow> nat \<Rightarrow> bool"
  assumes length_load: "valid s g n \<Longrightarrow> length (load s g n) = n"
    and valid_store: "valid s g (length bs) \<Longrightarrow> valid (store s g bs) h k = valid s h k"
    and valid_mono: "valid s g n \<Longrightarrow> k \<le> n \<Longrightarrow> valid s g k"
    and load_store_same: "valid s g (length bs) \<Longrightarrow> load (store s g bs) g (length bs) = bs"
    and load_store_apart: "valid s g (length bs) \<Longrightarrow> valid s h k \<Longrightarrow> apart g (length bs) h k \<Longrightarrow>
      load (store s g bs) h k = load s h k"
begin

lemma object_roundtrip:
  assumes "valid s g sz" and "length (enc x) = sz" and "dec (enc x) = x"
  shows "dec (load (store s g (enc x)) g sz) = x"
  using assms load_store_same [of s g "enc x"] by simp

lemma object_frame:
  assumes "valid s g sz" and "length (enc x) = sz" and "valid s h k" and "apart g sz h k"
  shows "dec (load (store s g (enc x)) h k) = dec (load s h k)"
  using assms load_store_apart [of s g "enc x" h k] by simp

lemma store_twice:
  assumes "valid s g n" and "length as = n" and "length bs = n"
  shows "load (store (store s g as) g bs) g n = bs"
  using assms by (metis load_store_same valid_store)

end

lemma rm_valid_store:
  "rm_valid r g (length bs) \<Longrightarrow> rm_valid (rm_store r g bs) h k = rm_valid r h k"
  by (cases "server_index g = server_index h")
     (auto simp: rm_valid_def rm_store_def length_bsplice nth_list_update)

lemma rm_load_store_apart:
  assumes "rm_valid r g (length bs)" and "rm_valid r h k" and "apart g (length bs) h k"
  shows "rm_load (rm_store r g bs) h k = rm_load r h k"
proof (cases "server_index g = server_index h")
  case True
  then show ?thesis
    using assms by (auto simp: rm_load_def rm_store_def rm_valid_def apart_def bslice_bsplice_disjoint)
next
  case False
  then have "unat (server_index g) \<noteq> unat (server_index h)" by (simp add: word_unat_eq_iff)
  then show ?thesis by (simp add: rm_load_def rm_store_def)
qed

interpretation rm: byte_store rm_load rm_store rm_valid
proof unfold_locales
  fix r :: rmemory and g h n k bs
  show "rm_valid r g n \<Longrightarrow> length (rm_load r g n) = n"
    by (simp add: rm_valid_def rm_load_def length_bslice)
  show "rm_valid r g (length bs) \<Longrightarrow> rm_valid (rm_store r g bs) h k = rm_valid r h k"
    by (rule rm_valid_store)
  show "rm_valid r g n \<Longrightarrow> k \<le> n \<Longrightarrow> rm_valid r g k"
    by (simp add: rm_valid_def)
  show "rm_valid r g (length bs) \<Longrightarrow> rm_load (rm_store r g bs) g (length bs) = bs"
    by (simp add: rm_valid_def rm_load_def rm_store_def bslice_bsplice_same)
  show "rm_valid r g (length bs) \<Longrightarrow> rm_valid r h k \<Longrightarrow> apart g (length bs) h k \<Longrightarrow>
      rm_load (rm_store r g bs) h k = rm_load r h k"
    by (rule rm_load_store_apart)
qed

subsection \<open>The effect of an operation on the regions\<close>

definition rm_load64 :: "rmemory \<Rightarrow> GlobalAddress \<Rightarrow> u64" where
  "rm_load64 r g = u64_of_bytes (rm_load r g 8)"

fun op_valid :: "rmemory \<Rightarrow> RDMAOp \<Rightarrow> bool" where
  "op_valid r (ReadOp g buffer n) \<longleftrightarrow> buffer \<and> rm_valid r g (unat n)"
| "op_valid r (WriteOp g buffer n) \<longleftrightarrow>
     (case buffer of None \<Rightarrow> False | Some data \<Rightarrow> length data = unat n \<and> rm_valid r g (unat n))"
| "op_valid r (CasOp g _ _) \<longleftrightarrow> rm_valid r g 8"
| "op_valid r (FaaOp g _) \<longleftrightarrow> rm_valid r g 8"

fun rm_step :: "rmemory \<Rightarrow> RDMAOp \<Rightarrow> RDMAOut \<times> rmemory" where
  "rm_step r (ReadOp g _ n) = (ReadOut (rm_load r g (unat n)), r)"
| "rm_step r (WriteOp g buffer n) =
     (NoOut, case buffer of None \<Rightarrow> r | Some data \<Rightarrow> rm_store r g data)"
| "rm_step r (CasOp g expected desired) =
     (if rm_load64 r g = expected then (CasOut expected, rm_store r g (bytes_of_u64 desired))
      else (CasOut (rm_load64 r g), r))"
| "rm_step r (FaaOp g inc) = (NoOut, rm_store r g (bytes_of_u64 (rm_load64 r g + inc)))"

lemma op_addr_set_addr [simp]: "op_addr (set_addr a op) = a"
  by (cases op) simp_all

lemma unat_local_addr: "unat (GlobalAddress_raw (gaddr_offset g)) = unat (gaddr_offset g)"
proof -
  have "unat (gaddr_offset g) < 2 ^ 50" using gaddr_offset_less [of g] by simp
  then show ?thesis by (simp only: unat_GlobalAddress_raw mod_less)
qed

lemma rmem_set_server_memory:
  "i < length (mem_servers m) \<Longrightarrow> rmem (set_server_memory m i mem) = (rmem m)[i := mem]"
  by (simp add: rmem_def set_server_memory_def map_update)

lemma rm_ok_nth: "rm_ok r \<Longrightarrow> i < length r \<Longrightarrow> mem_ok (r ! i)"
  by (simp add: rm_ok_def)

lemma get_server_valid:
  "rm_valid (rmem m) g n \<Longrightarrow> get_server m g = Some (unat (server_index g), gaddr_offset g)"
  by (simp add: get_server_def rm_valid_def rmem_def)

lemma rmem_nth: "i < length (mem_servers m) \<Longrightarrow> ms_rdma (mem_servers m ! i) = rmem m ! i"
  by (simp add: rmem_def)

lemma length_rmem [simp]: "length (rmem m) = length (mem_servers m)"
  by (simp add: rmem_def)

lemma execute_rdma_refines:
  assumes ok: "rm_ok (rmem m)" and v: "op_valid (rmem m) op"
  shows "\<exists>m'. execute_rdma m op = Inr (True, fst (rm_step (rmem m) op), m') \<and>
    rmem m' = snd (rm_step (rmem m) op)"
proof -
  let ?i = "unat (server_index (op_addr op))" and ?a = "gaddr_offset (op_addr op)"
  have i: "?i < length (mem_servers m)"
    using v by (cases op) (auto simp: rm_valid_def split: option.splits)
  then have get: "get_server m (op_addr op) = Some (?i, ?a)" by (simp add: get_server_def)
  have mem: "mem_ok (rmem m ! ?i)" using ok i by (simp add: rm_ok_nth)
  have ex: "execute_rdma m op =
      (let local_op = set_addr (GlobalAddress_raw ?a) op; mem = rmem m ! ?i
       in case op_type op of
            READ \<Rightarrow> (case rdma_read mem local_op of
                Inl e \<Rightarrow> Inl e | Inr (ok, out) \<Rightarrow> Inr (ok, out, m))
          | WRITE \<Rightarrow> (case rdma_write mem local_op of
                Inl e \<Rightarrow> Inl e | Inr (ok, out, mem') \<Rightarrow> Inr (ok, out, set_server_memory m ?i mem'))
          | CAS \<Rightarrow> (case rdma_cas mem local_op of
                Inl e \<Rightarrow> Inl e | Inr (ok, out, mem') \<Rightarrow> Inr (ok, out, set_server_memory m ?i mem'))
          | FAA \<Rightarrow> (case rdma_faa mem local_op of
                Inl e \<Rightarrow> Inl e | Inr (old, mem') \<Rightarrow> Inr (True, NoOut, set_server_memory m ?i mem')))"
    by (simp add: execute_rdma_def get rmem_nth [OF i])
  note local = rm_valid_def rm_load_def rm_store_def rm_load64_def load64_def store64_def unat_local_addr
  show ?thesis
  proof (cases op)
    case (ReadOp g b n)
    then show ?thesis
      using v ex rdma_read_ok [OF mem, of "GlobalAddress_raw ?a" n] by (simp add: local)
  next
    case (WriteOp g b n)
    then obtain data where "b = Some data" "length data = unat n" "rm_valid (rmem m) g (unat n)"
      using v by (auto split: option.splits)
    then show ?thesis
      using ex WriteOp rdma_write_ok [OF mem, of "GlobalAddress_raw ?a" n data]
      by (simp add: local rmem_set_server_memory)
  next
    case (CasOp g e d)
    then show ?thesis
      using v ex rdma_cas_ok [OF mem, of "GlobalAddress_raw ?a" e d]
      by (auto simp: local rmem_set_server_memory)
  next
    case (FaaOp g inc)
    then show ?thesis
      using v ex rdma_faa_ok [OF mem, of "GlobalAddress_raw ?a" inc]
      by (simp add: local rmem_set_server_memory)
  qed
qed

subsection \<open>The accounting of the manager leaves the regions alone\<close>

lemma rmem_get_server_time_delay [simp]:
  "rmem (snd (get_server_time_delay m i t n)) = rmem m"
  by (simp add: get_server_time_delay_def Let_def rmem_def)

lemma rmem_accounting [simp]:
  "rmem (ensure_thread_stats tid m) = rmem m"
  "rmem (add_thread_stats tid t n m) = rmem m"
  "rmem (with_tracker tid f m) = rmem m"
  by (simp_all add: rmem_def ensure_thread_stats_def add_thread_stats_def with_tracker_def split: option.splits)

lemma op_valid_server: "op_valid r op \<Longrightarrow> unat (server_index (op_addr op)) < length r"
  by (cases op) (auto simp: rm_valid_def split: option.splits)

lemma rm_ok_store:
  assumes "rm_valid r g (length bs)"
  shows "rm_ok (rm_store r g bs) = rm_ok r"
proof -
  have "length (rm_store r g bs ! i) = length (r ! i)" if "i < length r" for i
    using assms that by (auto simp: rm_store_def rm_valid_def nth_list_update length_bsplice)
  then show ?thesis
    by (simp add: rm_ok_def mem_ok_def all_set_conv_all_nth rm_store_def)
qed

lemma rm_step_keeps:
  assumes "op_valid r op"
  shows "rm_valid (snd (rm_step r op)) g n = rm_valid r g n"
    and "rm_ok (snd (rm_step r op)) = rm_ok r"
  using assms by (cases op; auto simp: rm_valid_store rm_ok_store split: option.splits)+

lemma op_valid_cong: "(\<And>g n. rm_valid r g n = rm_valid r' g n) \<Longrightarrow> op_valid r op = op_valid r' op"
  by (cases op) (auto split: option.splits)

fun rm_steps :: "rmemory \<Rightarrow> RDMAOp list \<Rightarrow> RDMAOut list \<times> rmemory" where
  "rm_steps r [] = ([], r)"
| "rm_steps r (op # ops) =
     (let (out, r1) = rm_step r op; (outs, r2) = rm_steps r1 ops in (out # outs, r2))"

lemma perform_op_refines:
  assumes "rm_ok (rmem m)" and "op_valid (rmem m) op"
  shows "\<exists>m'. perform_op tid now m op = Inr (True, fst (rm_step (rmem m) op), m') \<and>
    rmem m' = snd (rm_step (rmem m) op)"
proof -
  let ?i = "unat (server_index (op_addr op))"
  have i: "?i < length (mem_servers m)" using op_valid_server [OF assms(2)] by simp
  obtain d m1 where delay: "get_server_time_delay m ?i (calculate_bw_delay_ns op) (now 0) = (d, m1)"
    by force
  then have m1: "rmem m1 = rmem m" by (metis rmem_get_server_time_delay snd_conv)
  obtain m2 where "execute_rdma m1 op = Inr (True, fst (rm_step (rmem m) op), m2)"
      "rmem m2 = snd (rm_step (rmem m) op)"
    using execute_rdma_refines [of m1 op] assms m1 by auto
  then show ?thesis
    using i delay by (simp add: perform_op_def get_server_def Let_def)
qed

lemma batch_loop_refines:
  assumes "rm_ok (rmem m)" and "\<forall>op \<in> set ops. op_valid (rmem m) op"
  shows "\<exists>m'. batch_loop tid now k m ops outs = Inr (True, outs @ fst (rm_steps (rmem m) ops), m') \<and>
    rmem m' = snd (rm_steps (rmem m) ops)"
  using assms
proof (induction ops arbitrary: k m outs)
  case Nil
  then show ?case by simp
next
  case (Cons op ops)
  let ?i = "unat (server_index (op_addr op))"
  have v: "op_valid (rmem m) op" using Cons.prems(2) by simp
  have i: "?i < length (mem_servers m)" using op_valid_server [OF v] by simp
  obtain d m1 where delay: "get_server_time_delay m ?i (calculate_bw_delay_ns op) (now k) = (d, m1)"
    by force
  then have m1: "rmem m1 = rmem m" by (metis rmem_get_server_time_delay snd_conv)
  obtain m2 where ex: "execute_rdma m1 op = Inr (True, fst (rm_step (rmem m) op), m2)"
      and m2: "rmem m2 = snd (rm_step (rmem m) op)"
    using execute_rdma_refines [of m1 op] Cons.prems(1) v m1 by auto
  define m3 where "m3 = add_thread_stats tid (op_type op) (base_rtt_ns m div 2 + d + base_rtt_ns m div 2) m2"
  have m3: "rmem m3 = snd (rm_step (rmem m) op)" by (simp add: m3_def m2)
  have "\<exists>m'. batch_loop tid now (Suc k) m3 ops (outs @ [fst (rm_step (rmem m) op)]) =
      Inr (True, (outs @ [fst (rm_step (rmem m) op)]) @ fst (rm_steps (rmem m3) ops), m') \<and>
      rmem m' = snd (rm_steps (rmem m3) ops)"
  proof (rule Cons.IH)
    show "rm_ok (rmem m3)" using Cons.prems(1) v by (simp add: m3 rm_step_keeps)
    show "\<forall>op' \<in> set ops. op_valid (rmem m3) op'"
      using Cons.prems(2) v op_valid_cong [of "rmem m3" "rmem m"] by (simp add: m3 rm_step_keeps)
  qed
  then show ?case
    using i delay ex by (simp add: get_server_def Let_def split_beta m3_def m2)
qed

lemma perform_batch_refines:
  assumes "rm_ok (rmem m)" and "\<forall>op \<in> set ops. op_valid (rmem m) op"
  shows "\<exists>m'. perform_batch tid now m ops = Inr (True, fst (rm_steps (rmem m) ops), m') \<and>
    rmem m' = snd (rm_steps (rmem m) ops)"
proof (cases "ops = []")
  case False
  have "\<exists>m'. batch_loop tid now 0 (ensure_thread_stats tid m) ops [] =
      Inr (True, [] @ fst (rm_steps (rmem (ensure_thread_stats tid m)) ops), m') \<and>
      rmem m' = snd (rm_steps (rmem (ensure_thread_stats tid m)) ops)"
    by (rule batch_loop_refines) (use assms in simp_all)
  then show ?thesis using False by (auto simp: perform_batch_def)
qed (simp add: perform_batch_def)

end
