(* ===== verification/Local_Lock.thy ===== *)
theory Local_Lock
  imports Global_Address
begin

text \<open>
  \<^verbatim>\<open>src/src/util/local_lock_manager.hpp\<close>: the ticket locks with which the threads of one compute server queue for
  a remote lock, and the handover of the remote lock from one thread to the next. Each access to an
  atomic variable is one step of \<open>thread_step\<close>; \<open>sys_step i\<close> lets thread \<open>i\<close> do its next step, so a
  list of thread numbers is an interleaving. Two components of \<open>lock_state\<close> are history variables that the code does not
  have: the result of the last release and the number of handovers in a row; \<open>ls_issued\<close> counts tickets.
\<close>

subsection \<open>Definitions\<close>

definition kNumOfLock :: u64 where "kNumOfLock = 256 * 1024 div 8"
definition kMaxHandOverTime :: u8 where "kMaxHandOverTime = 8"
definition kHandoverFlagSlots :: nat where "kHandoverFlagSlots = 1024"

record LocalLockNode =
  ticket_lock :: u64
  handover_count :: u8
  handover_flags :: "bool list"

definition LocalLockNode_init :: LocalLockNode where
  "LocalLockNode_init = \<lparr>ticket_lock = 0, handover_count = 0, handover_flags = replicate kHandoverFlagSlots False\<rparr>"

definition next_ticket :: "u64 \<Rightarrow> u32" where
  "next_ticket lock_val = ucast (lock_val AND 0xFFFFFFFF)"

definition current_serving :: "u64 \<Rightarrow> u32" where
  "current_serving lock_val = ucast (drop_bit 32 lock_val)"

definition waiters :: "u64 \<Rightarrow> u32" where
  "waiters lock_val = next_ticket lock_val - current_serving lock_val - 1"

definition flag_slot :: "u32 \<Rightarrow> nat" where
  "flag_slot t = unat t mod kHandoverFlagSlots"

record LocalLockManager =
  local_locks :: "LocalLockNode list"
  cs_rdma_tag :: u64

definition LocalLockManager_init :: "u64 \<Rightarrow> nat \<Rightarrow> LocalLockManager" where
  "LocalLockManager_init hash_val num_ms =
     \<lparr>local_locks = replicate (num_ms * unat kNumOfLock) LocalLockNode_init,
      cs_rdma_tag = (let tag = hash_val AND 0xFFFFFFFFFFFFFFFF in if tag = 0 then 1 else tag)\<rparr>"

definition get_lock_index :: "GlobalAddress \<Rightarrow> u64" where
  "get_lock_index addr = ucast (server_index addr) * kNumOfLock + gaddr_offset addr mod kNumOfLock"

definition can_hand_over :: "LocalLockNode \<Rightarrow> bool" where
  "can_hand_over node \<longleftrightarrow> waiters (ticket_lock node) > 0 \<and> handover_count node < kMaxHandOverTime"

text \<open>
  Where a thread is: in \<^verbatim>\<open>acquire\<close> it spins with a ticket, reads the handover flag and clears it; it
  then holds the lock; in \<^verbatim>\<open>release\<close> it has read the ticket word, decides, and either marks the next ticket
  and counts the handover or resets the counter; the last step advances the serving half.
\<close>

datatype lock_pc =
    Idle
  | Spin u32
  | Check u32
  | Clear u32 bool
  | Held bool
  | Decide u64
  | Mark u32
  | Count
  | Reset
  | Advance bool

fun thread_step :: "lock_pc \<Rightarrow> LocalLockNode \<Rightarrow> lock_pc \<times> LocalLockNode" where
  "thread_step Idle nd = (Spin (next_ticket (ticket_lock nd)), nd\<lparr>ticket_lock := ticket_lock nd + 1\<rparr>)"
| "thread_step (Spin my_ticket) nd =
     (if my_ticket = current_serving (ticket_lock nd) then (Check my_ticket, nd) else (Spin my_ticket, nd))"
| "thread_step (Check my_ticket) nd = (Clear my_ticket (handover_flags nd ! flag_slot my_ticket), nd)"
| "thread_step (Clear my_ticket was_handed_over) nd =
     (Held was_handed_over, nd\<lparr>handover_flags := (handover_flags nd)[flag_slot my_ticket := False]\<rparr>)"
| "thread_step (Held was_handed_over) nd = (Decide (ticket_lock nd), nd)"
| "thread_step (Decide lock_val) nd =
     (if waiters lock_val > 0 \<and> handover_count nd < kMaxHandOverTime then (Mark (current_serving lock_val), nd)
      else (Reset, nd))"
| "thread_step (Mark serving) nd =
     (Count, nd\<lparr>handover_flags := (handover_flags nd)[flag_slot (serving + 1) := True]\<rparr>)"
| "thread_step Count nd = (Advance True, nd\<lparr>handover_count := handover_count nd + 1\<rparr>)"
| "thread_step Reset nd = (Advance False, nd\<lparr>handover_count := 0\<rparr>)"
| "thread_step (Advance handover) nd = (Idle, nd\<lparr>ticket_lock := ticket_lock nd + push_bit 32 1\<rparr>)"

text \<open>
  What one call does when no other thread of the compute server moves while it runs: an
  acquisition that finds another ticket in service spins for ever.
\<close>

datatype lock_call = LAcquire | LRelease | LCanHandOver

primrec thread_steps :: "nat \<Rightarrow> lock_pc \<Rightarrow> LocalLockNode \<Rightarrow> lock_pc \<times> LocalLockNode" where
  "thread_steps 0 pc nd = (pc, nd)"
| "thread_steps (Suc n) pc nd = (case thread_step pc nd of (pc', nd') \<Rightarrow> thread_steps n pc' nd')"

definition node_acquire :: "LocalLockNode \<Rightarrow> err + (bool \<times> LocalLockNode)" where
  "node_acquire nd = (case thread_steps 4 Idle nd of (Held b, nd') \<Rightarrow> Inr (b, nd') | _ \<Rightarrow> Inl Diverges)"

definition node_release :: "LocalLockNode \<Rightarrow> bool \<times> LocalLockNode" where
  "node_release nd =
     (case thread_steps 3 (Held False) nd of
        (Advance h, nd') \<Rightarrow> (h, snd (thread_step (Advance h) nd'))
      | (pc, nd') \<Rightarrow> (True, snd (thread_steps 2 pc nd')))"

definition lock_manager_call ::
  "lock_call \<Rightarrow> GlobalAddress \<Rightarrow> LocalLockManager \<Rightarrow> err + (bool \<times> LocalLockManager)" where
  "lock_manager_call c addr m =
     (let idx = unat (get_lock_index addr); node = local_locks m ! idx;
          put = (\<lambda>nd. m\<lparr>local_locks := (local_locks m)[idx := nd]\<rparr>)
      in if idx < length (local_locks m)
         then (case c of
             LAcquire \<Rightarrow> (case node_acquire node of Inl e \<Rightarrow> Inl e | Inr (b, nd) \<Rightarrow> Inr (b, put nd))
           | LRelease \<Rightarrow> (case node_release node of (h, nd) \<Rightarrow> Inr (h, put nd))
           | LCanHandOver \<Rightarrow> Inr (can_hand_over node, m))
         else Inl UndefinedBehaviour)"

record lock_state =
  ls_node :: LocalLockNode
  ls_pc :: "nat \<Rightarrow> lock_pc"
  ls_issued :: nat
  ls_last :: bool
  ls_streak :: nat

definition sys_step :: "nat \<Rightarrow> lock_state \<Rightarrow> lock_state" where
  "sys_step i s =
     (let (pc', nd') = thread_step (ls_pc s i) (ls_node s) in
      \<lparr>ls_node = nd', ls_pc = (ls_pc s)(i := pc'),
       ls_issued = (if ls_pc s i = Idle then Suc (ls_issued s) else ls_issued s),
       ls_last = (case ls_pc s i of Advance b \<Rightarrow> b | _ \<Rightarrow> ls_last s),
       ls_streak = (case ls_pc s i of Advance b \<Rightarrow> (if b then Suc (ls_streak s) else 0) | _ \<Rightarrow> ls_streak s)\<rparr>)"

definition lock_init :: lock_state where
  "lock_init = \<lparr>ls_node = LocalLockNode_init, ls_pc = (\<lambda>_. Idle), ls_issued = 0, ls_last = False, ls_streak = 0\<rparr>"

inductive lock_reachable :: "lock_state \<Rightarrow> bool" where
  start: "lock_reachable lock_init"
| step: "lock_reachable s \<Longrightarrow> lock_reachable (sys_step i s)"

subsection \<open>The two halves of the ticket word\<close>

definition nxt :: "LocalLockNode \<Rightarrow> nat" where "nxt nd = unat (ticket_lock nd) mod 2 ^ 32"
definition srv :: "LocalLockNode \<Rightarrow> nat" where "srv nd = unat (ticket_lock nd) div 2 ^ 32"

lemma unat_next_ticket: "unat (next_ticket v) = unat v mod 2 ^ 32"
proof -
  have "v AND 0xFFFFFFFF = take_bit 32 v" by (simp add: take_bit_eq_mask mask_eq_exp_minus_1)
  then show ?thesis by (simp add: next_ticket_def unsigned_ucast_eq unsigned_take_bit_eq take_bit_eq_mod unat_mod)
qed

lemma unat_current_serving: "unat (current_serving v) = unat v div 2 ^ 32"
proof -
  have "unat v < 2 ^ LENGTH(64)" by (rule unsigned_less)
  then have "unat v div 2 ^ 32 < 2 ^ 32" by (simp add: less_mult_imp_div_less)
  then show ?thesis
    by (simp add: current_serving_def unsigned_ucast_eq unsigned_drop_bit_eq drop_bit_eq_div take_bit_eq_mod unat_div)
qed

lemma nxt_srv: "unat (next_ticket (ticket_lock nd)) = nxt nd" "unat (current_serving (ticket_lock nd)) = srv nd"
  by (simp_all add: nxt_def srv_def unat_next_ticket unat_current_serving)

lemma take_ticket_counts:
  assumes "nxt nd < 2 ^ 32 - 1"
  shows "nxt (nd\<lparr>ticket_lock := ticket_lock nd + 1\<rparr>) = Suc (nxt nd)" "srv (nd\<lparr>ticket_lock := ticket_lock nd + 1\<rparr>) = srv nd"
proof -
  let ?v = "unat (ticket_lock nd)"
  have lt: "?v < 2 ^ 64" using unsigned_less [of "ticket_lock nd"] by simp
  have room: "?v mod 2 ^ 32 + 1 < 2 ^ 32" using assms unfolding nxt_def by linarith
  have "unat (ticket_lock nd + 1) = ?v + 1"
  proof -
    have "?v \<noteq> 2 ^ 64 - 1" using room by auto
    then show ?thesis using lt by (simp add: unat_word_ariths)
  qed
  then show "nxt (nd\<lparr>ticket_lock := ticket_lock nd + 1\<rparr>) = Suc (nxt nd)"
      "srv (nd\<lparr>ticket_lock := ticket_lock nd + 1\<rparr>) = srv nd"
    using mod_add_in_block [OF room] div_add_in_block [OF room] by (simp_all add: nxt_def srv_def)
qed

lemma advance_counts:
  assumes "srv nd < 2 ^ 32 - 1"
  shows "nxt (nd\<lparr>ticket_lock := ticket_lock nd + push_bit 32 1\<rparr>) = nxt nd"
    "srv (nd\<lparr>ticket_lock := ticket_lock nd + push_bit 32 1\<rparr>) = Suc (srv nd)"
proof -
  let ?v = "unat (ticket_lock nd)"
  have "?v < (2 ^ 32 - 1) * 2 ^ 32" using assms unfolding srv_def by (simp add: div_less_iff_less_mult)
  then have "unat (ticket_lock nd + push_bit 32 1) = ?v + 2 ^ 32" by (simp add: unat_word_ariths)
  then show "nxt (nd\<lparr>ticket_lock := ticket_lock nd + push_bit 32 1\<rparr>) = nxt nd"
    "srv (nd\<lparr>ticket_lock := ticket_lock nd + push_bit 32 1\<rparr>) = Suc (srv nd)"
    by (simp_all add: nxt_def srv_def)
qed


subsection \<open>Invariants\<close>

fun inside :: "lock_pc \<Rightarrow> bool" where
  "inside Idle = False"
| "inside (Spin t) = False"
| "inside _ = True"

text \<open>Tickets: who waits with which one, and what the release in progress has read.\<close>

definition ticket_inv :: "lock_state \<Rightarrow> bool" where
  "ticket_inv s \<longleftrightarrow>
     nxt (ls_node s) = ls_issued s \<and> srv (ls_node s) \<le> nxt (ls_node s) \<and>
     (\<forall>i t. ls_pc s i = Spin t \<longrightarrow> srv (ls_node s) \<le> unat t \<and> unat t < nxt (ls_node s)) \<and>
     (\<forall>i j t. ls_pc s i = Spin t \<and> ls_pc s j = Spin t \<longrightarrow> i = j) \<and>
     (\<forall>i j. inside (ls_pc s i) \<and> inside (ls_pc s j) \<longrightarrow> i = j) \<and>
     (\<forall>i j t. inside (ls_pc s i) \<and> ls_pc s j = Spin t \<longrightarrow> unat t \<noteq> srv (ls_node s)) \<and>
     (\<forall>i. inside (ls_pc s i) \<longrightarrow> srv (ls_node s) < nxt (ls_node s))"

definition cover_inv :: "lock_state \<Rightarrow> bool" where
  "cover_inv s \<longleftrightarrow> (\<forall>m. srv (ls_node s) \<le> m \<and> m < nxt (ls_node s) \<longrightarrow>
     (m = srv (ls_node s) \<and> (\<exists>i. inside (ls_pc s i))) \<or> (\<exists>i t. ls_pc s i = Spin t \<and> unat t = m))"

fun pc_inv :: "lock_state \<Rightarrow> lock_pc \<Rightarrow> bool" where
  "pc_inv s (Check t) \<longleftrightarrow> unat t = srv (ls_node s)"
| "pc_inv s (Clear t b) \<longleftrightarrow> unat t = srv (ls_node s) \<and> b = ls_last s"
| "pc_inv s (Held b) \<longleftrightarrow> b = ls_last s"
| "pc_inv s (Decide v) \<longleftrightarrow> unat (current_serving v) = srv (ls_node s) \<and> srv (ls_node s) < unat (next_ticket v) \<and>
     unat (next_ticket v) \<le> nxt (ls_node s)"
| "pc_inv s (Mark t) \<longleftrightarrow> unat t = srv (ls_node s) \<and> Suc (srv (ls_node s)) < nxt (ls_node s)"
| "pc_inv s Count \<longleftrightarrow> Suc (srv (ls_node s)) < nxt (ls_node s)"
| "pc_inv s (Advance b) \<longleftrightarrow> (b \<longrightarrow> Suc (srv (ls_node s)) < nxt (ls_node s))"
| "pc_inv s _ \<longleftrightarrow> True"

definition flags_of :: "nat \<Rightarrow> bool \<Rightarrow> bool list" where
  "flags_of m b = (replicate kHandoverFlagSlots False)[m mod kHandoverFlagSlots := b]"

fun flags_inv :: "lock_state \<Rightarrow> lock_pc \<Rightarrow> bool" where
  "flags_inv s (Check t) \<longleftrightarrow> handover_flags (ls_node s) = flags_of (srv (ls_node s)) (ls_last s)"
| "flags_inv s (Clear t b) \<longleftrightarrow> handover_flags (ls_node s) = flags_of (srv (ls_node s)) (ls_last s)"
| "flags_inv s Count \<longleftrightarrow> handover_flags (ls_node s) = flags_of (Suc (srv (ls_node s))) True"
| "flags_inv s (Advance b) \<longleftrightarrow> handover_flags (ls_node s) = flags_of (Suc (srv (ls_node s))) b"
| "flags_inv s Idle \<longleftrightarrow> True"
| "flags_inv s (Spin t) \<longleftrightarrow> True"
| "flags_inv s _ \<longleftrightarrow> handover_flags (ls_node s) = flags_of 0 False"

fun count_inv :: "lock_state \<Rightarrow> lock_pc \<Rightarrow> bool" where
  "count_inv s Idle \<longleftrightarrow> True"
| "count_inv s (Spin t) \<longleftrightarrow> True"
| "count_inv s (Advance b) \<longleftrightarrow> unat (handover_count (ls_node s)) = (if b then Suc (ls_streak s) else 0) \<and>
     unat (handover_count (ls_node s)) \<le> 8"
| "count_inv s (Mark t) \<longleftrightarrow> unat (handover_count (ls_node s)) = ls_streak s \<and> ls_streak s < 8"
| "count_inv s Count \<longleftrightarrow> unat (handover_count (ls_node s)) = ls_streak s \<and> ls_streak s < 8"
| "count_inv s _ \<longleftrightarrow> unat (handover_count (ls_node s)) = ls_streak s"

definition lock_inv :: "lock_state \<Rightarrow> bool" where
  "lock_inv s \<longleftrightarrow> ticket_inv s \<and> cover_inv s \<and>
     (\<forall>i. pc_inv s (ls_pc s i) \<and> flags_inv s (ls_pc s i) \<and> count_inv s (ls_pc s i)) \<and> ls_streak s \<le> 8 \<and>
     ((\<forall>i. \<not> inside (ls_pc s i)) \<longrightarrow>
        handover_flags (ls_node s) = flags_of (srv (ls_node s)) (ls_last s) \<and>
        unat (handover_count (ls_node s)) = ls_streak s)"

lemma lock_inv_init: "lock_inv lock_init"
  by (simp add: lock_inv_def ticket_inv_def cover_inv_def lock_init_def LocalLockNode_init_def nxt_def srv_def flags_of_def
      list_eq_iff_nth_eq nth_list_update)


lemma outside_invs: "\<not> inside pc \<Longrightarrow> pc_inv s pc \<and> flags_inv s pc \<and> count_inv s pc"
  by (cases pc) simp_all

lemma lock_invD:
  assumes "lock_inv s"
  shows "pc_inv s (ls_pc s i)" "flags_inv s (ls_pc s i)" "count_inv s (ls_pc s i)"
    "inside (ls_pc s i) \<Longrightarrow> inside (ls_pc s j) \<Longrightarrow> i = j"
    "inside (ls_pc s i) \<Longrightarrow> srv (ls_node s) < nxt (ls_node s)"
    "nxt (ls_node s) = ls_issued s"
  using assms by (auto simp: lock_inv_def ticket_inv_def)

text \<open>A step of the thread inside that stays inside and leaves the ticket word alone.\<close>

lemma inside_step:
  assumes inv: "lock_inv s" and i: "inside (ls_pc s i)" "inside pc'" and t: "ticket_lock nd' = ticket_lock (ls_node s)"
    and s': "s' = \<lparr>ls_node = nd', ls_pc = (ls_pc s)(i := pc'), ls_issued = ls_issued s, ls_last = ls_last s, ls_streak = ls_streak s\<rparr>"
    and invs: "pc_inv s' pc'" "flags_inv s' pc'" "count_inv s' pc'"
  shows "lock_inv s'"
proof -
  have ts: "nxt nd' = nxt (ls_node s)" "srv nd' = srv (ls_node s)" using t by (simp_all add: nxt_def srv_def)
  have others: "\<not> inside (ls_pc s j)" if "j \<noteq> i" for j using lock_invD(4) [OF inv i(1)] that by blast
  have "ticket_inv s'"
    using inv i others unfolding lock_inv_def ticket_inv_def s' by (auto simp: ts)
  moreover have "cover_inv s'"
    unfolding cover_inv_def
  proof (intro allI impI)
    fix m assume m: "srv (ls_node s') \<le> m \<and> m < nxt (ls_node s')"
    then have "(m = srv (ls_node s) \<and> (\<exists>i. inside (ls_pc s i))) \<or> (\<exists>j t. ls_pc s j = Spin t \<and> unat t = m)"
      using inv by (simp add: lock_inv_def cover_inv_def s' ts)
    then show "m = srv (ls_node s') \<and> (\<exists>i. inside (ls_pc s' i)) \<or> (\<exists>j t. ls_pc s' j = Spin t \<and> unat t = m)"
    proof
      assume "\<exists>j t. ls_pc s j = Spin t \<and> unat t = m"
      then obtain j t where "ls_pc s j = Spin t" "unat t = m" by blast
      moreover from this have "j \<noteq> i" using i(1) by auto
      ultimately show ?thesis by (auto simp: s')
    qed (use i(2) in \<open>auto simp: s' ts\<close>)
  qed
  moreover have "pc_inv s' (ls_pc s' j) \<and> flags_inv s' (ls_pc s' j) \<and> count_inv s' (ls_pc s' j)" for j
    using invs outside_invs [OF others] by (cases "j = i") (simp_all add: s')
  moreover have "inside (ls_pc s' i)" using i(2) by (simp add: s')
  ultimately show ?thesis using inv by (auto simp: lock_inv_def s')
qed

lemma sys_step_inside:
  "inside (ls_pc s i) \<Longrightarrow> (\<forall>b. ls_pc s i \<noteq> Advance b) \<Longrightarrow>
   sys_step i s = \<lparr>ls_node = snd (thread_step (ls_pc s i) (ls_node s)),
     ls_pc = (ls_pc s)(i := fst (thread_step (ls_pc s i) (ls_node s))), ls_issued = ls_issued s, ls_last = ls_last s, ls_streak = ls_streak s\<rparr>"
proof (cases "ls_pc s i")
  case (Advance b)
  assume "\<forall>b. ls_pc s i \<noteq> Advance b"
  then show ?thesis using Advance by blast
qed (simp_all add: sys_step_def Let_def)

lemma flag_slot_mod: "unat t = m \<Longrightarrow> flag_slot t = m mod kHandoverFlagSlots"
  by (simp add: flag_slot_def)

lemma flags_of_simps:
  "flags_of m b ! (m mod kHandoverFlagSlots) = b"
  "(flags_of m b)[m mod kHandoverFlagSlots := b'] = flags_of m b'"
  "flags_of m False = replicate kHandoverFlagSlots False"
  by (simp_all add: flags_of_def kHandoverFlagSlots_def list_eq_iff_nth_eq nth_list_update)

lemma waiters_pos:
  assumes "unat (current_serving v) < unat (next_ticket v)"
  shows "waiters v > 0 \<longleftrightarrow> Suc (unat (current_serving v)) < unat (next_ticket v)"
proof -
  have "next_ticket v - current_serving v = of_nat (unat (next_ticket v) - unat (current_serving v))"
    using assms by (simp add: of_nat_diff)
  then have "waiters v = of_nat (unat (next_ticket v) - unat (current_serving v) - 1)"
    using assms by (simp add: waiters_def of_nat_diff)
  moreover have "unat (next_ticket v) < 2 ^ 32" using unsigned_less [of "next_ticket v"] by simp
  ultimately have "unat (waiters v) = unat (next_ticket v) - unat (current_serving v) - 1"
    by (simp add: unat_of_nat)
  then show ?thesis using assms by (simp add: word_less_nat_alt less_diff_conv)
qed


lemma counts_other_fields [simp]:
  "nxt (nd\<lparr>handover_flags := f\<rparr>) = nxt nd" "srv (nd\<lparr>handover_flags := f\<rparr>) = srv nd"
  "nxt (nd\<lparr>handover_count := n\<rparr>) = nxt nd" "srv (nd\<lparr>handover_count := n\<rparr>) = srv nd"
  by (simp_all add: nxt_def srv_def)

lemma nxt_less: "nxt nd < 2 ^ 32"
  by (simp add: nxt_def)

lemma unat_Suc_ticket: "unat (t :: u32) = m \<Longrightarrow> Suc m < nxt nd \<Longrightarrow> unat (t + 1) = Suc m"
  using nxt_less [of nd] by (simp add: unat_word_ariths)

lemma handover_count_limit: "c < kMaxHandOverTime \<longleftrightarrow> unat c < 8"
  by (simp add: kMaxHandOverTime_def word_less_nat_alt)

lemma unat_Suc_count: "unat (c :: u8) < 8 \<Longrightarrow> unat (c + 1) = Suc (unat c)"
  by (simp add: unat_word_ariths)

lemma flags_of_set: "(replicate kHandoverFlagSlots False)[m mod kHandoverFlagSlots := b] = flags_of m b"
  by (simp add: flags_of_def)

lemma lock_inv_inside:
  assumes inv: "lock_inv s" and i: "inside (ls_pc s i)" "\<forall>b. ls_pc s i \<noteq> Advance b"
  shows "lock_inv (sys_step i s)"
proof -
  note D = lock_invD(1-3) [OF inv, of i]
  have lt: "srv (ls_node s) < nxt (ls_node s)" by (rule lock_invD(5) [OF inv i(1)])
  show ?thesis
    unfolding sys_step_inside [OF i]
  proof (rule inside_step [OF inv i(1) _ _ refl]; cases "ls_pc s i")
  qed (use i D lt in \<open>auto simp: flag_slot_mod flags_of_simps flags_of_set nxt_srv waiters_pos unat_Suc_ticket
      handover_count_limit unat_Suc_count\<close>)
qed


lemma ticket_inv_spin:
  "ticket_inv s \<Longrightarrow> ls_pc s i = Spin t \<Longrightarrow> srv (ls_node s) \<le> unat t \<and> unat t < nxt (ls_node s)"
  unfolding ticket_inv_def by blast

lemma ticket_inv_inside:
  "ticket_inv s \<Longrightarrow> inside (ls_pc s i) \<Longrightarrow> ls_pc s j = Spin t \<Longrightarrow> unat t \<noteq> srv (ls_node s)"
  unfolding ticket_inv_def by blast

lemma lock_inv_idle:
  assumes inv: "lock_inv s" and i: "ls_pc s i = Idle" and room: "ls_issued s < 2 ^ 32 - 1"
  shows "lock_inv (sys_step i s)"
proof -
  let ?nd = "ls_node s" and ?s' = "sys_step i s"
  define nd' where "nd' = ?nd\<lparr>ticket_lock := ticket_lock ?nd + 1\<rparr>"
  define t where "t = next_ticket (ticket_lock ?nd)"
  have "nxt ?nd < 2 ^ 32 - 1" using room lock_invD(6) [OF inv] by simp
  then have n: "nxt nd' = Suc (nxt ?nd)" "srv nd' = srv ?nd"
    unfolding nd'_def by (rule take_ticket_counts)+
  have nd': "handover_flags nd' = handover_flags ?nd" "handover_count nd' = handover_count ?nd" by (simp_all add: nd'_def)
  have t: "unat t = nxt ?nd" by (simp add: t_def nxt_srv)
  have s': "?s' = \<lparr>ls_node = nd', ls_pc = (ls_pc s)(i := Spin t), ls_issued = Suc (ls_issued s), ls_last = ls_last s, ls_streak = ls_streak s\<rparr>"
    by (simp add: sys_step_def i nd'_def t_def)
  have T: "ticket_inv s" using inv by (simp add: lock_inv_def)
  have fresh: "ls_pc s j \<noteq> Spin t" for j using ticket_inv_spin [OF T, of j t] t by auto
  have le: "srv ?nd \<le> nxt ?nd" using T by (simp add: ticket_inv_def)
  have "ticket_inv ?s'"
    using T i fresh le unfolding ticket_inv_def s' by (auto simp: n t less_SucI)
  moreover have "cover_inv ?s'"
    unfolding cover_inv_def
  proof (intro allI impI)
    fix m assume m: "srv (ls_node ?s') \<le> m \<and> m < nxt (ls_node ?s')"
    show "m = srv (ls_node ?s') \<and> (\<exists>i. inside (ls_pc ?s' i)) \<or> (\<exists>j t. ls_pc ?s' j = Spin t \<and> unat t = m)"
    proof (cases "m = nxt ?nd")
      case True
      then show ?thesis using t by (auto simp: s')
    next
      case False
      then have "(m = srv ?nd \<and> (\<exists>j. inside (ls_pc s j))) \<or> (\<exists>j t. ls_pc s j = Spin t \<and> unat t = m)"
        using inv m by (simp add: lock_inv_def cover_inv_def s' n)
      then show ?thesis
      proof
        assume "m = srv ?nd \<and> (\<exists>j. inside (ls_pc s j))"
        then obtain j where "m = srv ?nd" "inside (ls_pc s j)" by blast
        moreover from this have "j \<noteq> i" using i by auto
        ultimately show ?thesis by (auto simp: s' n)
      next
        assume "\<exists>j t. ls_pc s j = Spin t \<and> unat t = m"
        then obtain j t' where "ls_pc s j = Spin t'" "unat t' = m" by blast
        moreover from this have "j \<noteq> i" using i by auto
        ultimately show ?thesis by (auto simp: s')
      qed
    qed
  qed
  moreover have "pc_inv ?s' (ls_pc ?s' j) \<and> flags_inv ?s' (ls_pc ?s' j) \<and> count_inv ?s' (ls_pc ?s' j)" for j
    using lock_invD(1-3) [OF inv, of j] by (cases "ls_pc s j"; cases "j = i") (auto simp: s' n i nd')
  moreover have "ls_pc ?s' j = ls_pc s j" if "j \<noteq> i" for j using that by (simp add: s')
  then have "(\<forall>j. \<not> inside (ls_pc ?s' j)) \<longrightarrow> (\<forall>j. \<not> inside (ls_pc s j))" using i by (metis inside.simps(1))
  ultimately show ?thesis using inv n by (auto simp: lock_inv_def s' nd')
qed

lemma lock_inv_spin:
  assumes inv: "lock_inv s" and i: "ls_pc s i = Spin t"
  shows "lock_inv (sys_step i s)"
proof (cases "t = current_serving (ticket_lock (ls_node s))")
  case False
  then have "sys_step i s = s" using i by (simp add: sys_step_def fun_upd_idem)
  then show ?thesis using inv by simp
next
  case True
  let ?nd = "ls_node s"
  have t: "unat t = srv ?nd" using True by (simp add: nxt_srv)
  have s': "sys_step i s = s\<lparr>ls_pc := (ls_pc s)(i := Check t)\<rparr>" using True i by (simp add: sys_step_def)
  have none: "\<not> inside (ls_pc s j)" for j using inv i t by (auto simp: lock_inv_def ticket_inv_def)
  have T: "ticket_inv s" using inv by (simp add: lock_inv_def)
  have other: "unat t' \<noteq> srv ?nd" if "ls_pc s j = Spin t'" "j \<noteq> i" for j t'
  proof
    assume "unat t' = srv ?nd"
    then have "t' = t" using t by (simp add: word_unat_eq_iff)
    then show False using T i that by (auto simp: ticket_inv_def)
  qed
  have "ticket_inv (sys_step i s)"
    using T none other t i ticket_inv_spin [OF T i] unfolding ticket_inv_def s' by (auto split: if_splits)
  moreover have "cover_inv (sys_step i s)"
    using inv t i none unfolding lock_inv_def cover_inv_def s'
    by (auto split: if_splits) (metis lock_pc.inject(1))
  moreover have "pc_inv (sys_step i s) (ls_pc (sys_step i s) j) \<and> flags_inv (sys_step i s) (ls_pc (sys_step i s) j) \<and>
      count_inv (sys_step i s) (ls_pc (sys_step i s) j)" for j
    using inv none t outside_invs [OF none, of "sys_step i s" j] by (cases "j = i") (auto simp: s' lock_inv_def)
  ultimately show ?thesis using inv by (auto simp: lock_inv_def s')
qed

lemma lock_inv_advance:
  assumes inv: "lock_inv s" and i: "ls_pc s i = Advance b"
  shows "lock_inv (sys_step i s)"
proof -
  let ?nd = "ls_node s" and ?s' = "sys_step i s"
  define nd' where "nd' = ?nd\<lparr>ticket_lock := ticket_lock ?nd + push_bit 32 1\<rparr>"
  have nd': "handover_flags nd' = handover_flags ?nd" "handover_count nd' = handover_count ?nd" by (simp_all add: nd'_def)
  have lt: "srv ?nd < nxt ?nd" using lock_invD(5) [OF inv, of i] i by simp
  have "nxt ?nd < 2 ^ 32" by (rule nxt_less)
  then have "srv ?nd < 2 ^ 32 - 1" using lt by linarith
  then have n: "nxt nd' = nxt ?nd" "srv nd' = Suc (srv ?nd)"
    unfolding nd'_def by (rule advance_counts)+
  have s': "?s' = \<lparr>ls_node = nd', ls_pc = (ls_pc s)(i := Idle), ls_issued = ls_issued s, ls_last = b,
      ls_streak = (if b then Suc (ls_streak s) else 0)\<rparr>"
    by (simp add: sys_step_def i nd'_def)
  have none: "\<not> inside (ls_pc ?s' j)" for j using lock_invD(4) [OF inv, of i j] i by (auto simp: s')
  have T: "ticket_inv s" using inv by (simp add: lock_inv_def)
  have "ticket_inv ?s'"
    unfolding ticket_inv_def
  proof (intro conjI allI impI)
    fix j t assume j: "ls_pc ?s' j = Spin t"
    then have old: "ls_pc s j = Spin t" by (simp add: s' split: if_splits)
    then have "unat t \<noteq> srv ?nd" using ticket_inv_inside [OF T _ old, of i] i by simp
    then show "srv (ls_node ?s') \<le> unat t" "unat t < nxt (ls_node ?s')"
      using ticket_inv_spin [OF T old] by (simp_all add: s' n)
  next
    fix j k t assume "ls_pc ?s' j = Spin t \<and> ls_pc ?s' k = Spin t"
    then show "j = k" using T by (auto simp: ticket_inv_def s' split: if_splits)
  qed (use T lt none in \<open>auto simp: ticket_inv_def s' n\<close>)
  moreover have "cover_inv ?s'"
    unfolding cover_inv_def
  proof (intro allI impI)
    fix m assume "srv (ls_node ?s') \<le> m \<and> m < nxt (ls_node ?s')"
    then have m: "srv ?nd \<le> m \<and> m < nxt ?nd" "m \<noteq> srv ?nd" by (auto simp: s' n)
    have "cover_inv s" using inv by (simp add: lock_inv_def)
    then have "\<exists>j t. ls_pc s j = Spin t \<and> unat t = m"
      using m unfolding cover_inv_def by blast
    then obtain j t where "ls_pc s j = Spin t" "unat t = m" by blast
    moreover from this have "j \<noteq> i" using i by auto
    ultimately show "m = srv (ls_node ?s') \<and> (\<exists>i. inside (ls_pc ?s' i)) \<or> (\<exists>j t. ls_pc ?s' j = Spin t \<and> unat t = m)"
      by (auto simp: s')
  qed
  moreover have "handover_flags nd' = flags_of (srv nd') b" "unat (handover_count nd') = ls_streak ?s'" "ls_streak ?s' \<le> 8"
    using lock_invD(2,3) [OF inv, of i] i by (auto simp: nd' n s')
  ultimately show ?thesis using outside_invs [OF none] by (simp add: lock_inv_def) (simp add: s')
qed

lemma lock_inv_step:
  assumes "lock_inv s" and "ls_issued (sys_step i s) < 2 ^ 32"
  shows "lock_inv (sys_step i s)"
proof (cases "ls_pc s i")
  case Idle
  then have "ls_issued s < 2 ^ 32 - 1" using assms(2) by (simp add: sys_step_def)
  then show ?thesis by (rule lock_inv_idle [OF assms(1) Idle])
next
  case (Spin t)
  then show ?thesis by (rule lock_inv_spin [OF assms(1)])
next
  case (Advance b)
  then show ?thesis by (rule lock_inv_advance [OF assms(1)])
qed (use lock_inv_inside [OF assms(1), of i] in simp_all)

lemma issued_mono: "ls_issued s \<le> ls_issued (sys_step i s)"
  by (simp add: sys_step_def split: prod.splits)

lemma lock_reachable_inv: "lock_reachable s \<Longrightarrow> ls_issued s < 2 ^ 32 \<Longrightarrow> lock_inv s"
proof (induction rule: lock_reachable.induct)
  case start
  show ?case by (rule lock_inv_init)
next
  case (step s i)
  then show ?case using lock_inv_step issued_mono [of s i] by simp
qed

lemma lock_reachable_run: "lock_reachable s \<Longrightarrow> lock_reachable (fold sys_step schedule s)"
  by (induction schedule arbitrary: s) (auto intro: lock_reachable.step)

text \<open>A schedule after which thread 0 holds the lock and thread 1 waits.\<close>

definition sample_lock_state :: lock_state where
  "sample_lock_state = fold sys_step [0, 1, 0, 0, 0] lock_init"

lemma sample_lock_state:
  "lock_reachable sample_lock_state" "ls_issued sample_lock_state = 2" "ls_pc sample_lock_state 0 = Held False"
  "ls_pc sample_lock_state 1 = Spin 1"
proof -
  show "lock_reachable sample_lock_state"
    unfolding sample_lock_state_def by (rule lock_reachable_run [OF lock_reachable.start])
  show "ls_issued sample_lock_state = 2" "ls_pc sample_lock_state 0 = Held False" "ls_pc sample_lock_state 1 = Spin 1"
    by code_simp+
qed

subsection \<open>Properties\<close>

text \<open>
  C13. The local lock is safe for any number of threads and any interleaving of their atomic accesses, as
  long as fewer than $2^{32}$ tickets have been issued: at most one thread is between the end of its
  wait and the end of its release; \<^verbatim>\<open>acquire\<close> reports a handover exactly when the release before it did;
  and at most \<^verbatim>\<open>kMaxHandOverTime\<close> = 8 releases in a row hand over.
\<close>

theorem local_lock_safe:
  assumes "lock_reachable s" and "ls_issued s < 2 ^ 32"
  shows "(\<forall>i j. inside (ls_pc s i) \<and> inside (ls_pc s j) \<longrightarrow> i = j) \<and>
    (\<forall>i was_handed_over. ls_pc s i = Held was_handed_over \<longrightarrow> was_handed_over = ls_last s) \<and> ls_streak s \<le> 8"
proof -
  have inv: "lock_inv s" by (rule lock_reachable_inv [OF assms])
  have "was_handed_over = ls_last s" if "ls_pc s i = Held was_handed_over" for i was_handed_over
    using lock_invD(1) [OF inv, of i] that by simp
  moreover have "ls_streak s \<le> 8" using inv by (simp add: lock_inv_def)
  ultimately show ?thesis using lock_invD(4) [OF inv] by blast
qed

theorem local_lock_safe_witness:
  "ls_pc sample_lock_state 0 = Held False \<and> \<not> inside (ls_pc sample_lock_state 1) \<and> ls_last sample_lock_state = False"
  using local_lock_safe [OF sample_lock_state(1)] sample_lock_state(2-4) by auto

text \<open>
  C14. The local lock never gets stuck: whenever some thread waits or is inside (fewer than $2^{32}$
  tickets issued), there is a thread that is not idle and whose next step makes progress; if nobody is
  inside, it is the one with the ticket being served, so the threads enter in the order of their tickets.
\<close>

theorem local_lock_progress:
  assumes "lock_reachable s" and "ls_issued s < 2 ^ 32" and "ls_pc s k \<noteq> Idle"
  shows "\<exists>i. ls_pc s i \<noteq> Idle \<and> ls_pc (sys_step i s) i \<noteq> ls_pc s i \<and>
    (inside (ls_pc s i) \<or> (\<exists>t. ls_pc s i = Spin t \<and> t = current_serving (ticket_lock (ls_node s)) \<and>
       (\<forall>j t'. ls_pc s j = Spin t' \<longrightarrow> unat t \<le> unat t')))"
proof -
  have inv: "lock_inv s" by (rule lock_reachable_inv [OF assms(1,2)])
  have T: "ticket_inv s" and C: "cover_inv s" using inv by (simp_all add: lock_inv_def)
  show ?thesis
  proof (cases "\<exists>i. inside (ls_pc s i)")
    case True
    then obtain i where i: "inside (ls_pc s i)" by blast
    then have "ls_pc (sys_step i s) i \<noteq> ls_pc s i"
      by (cases "ls_pc s i") (auto simp: sys_step_def Let_def)
    then show ?thesis using i by (intro exI [of _ i]) auto
  next
    case False
    then have "\<not> inside (ls_pc s k)" by blast
    then obtain t0 where "ls_pc s k = Spin t0" using assms(3) by (cases "ls_pc s k") auto
    then have "srv (ls_node s) \<le> srv (ls_node s) \<and> srv (ls_node s) < nxt (ls_node s)"
      using ticket_inv_spin [OF T] by fastforce
    then obtain i t where i: "ls_pc s i = Spin t" "unat t = srv (ls_node s)"
      using C False unfolding cover_inv_def by blast
    have t: "t = current_serving (ticket_lock (ls_node s))"
      using i(2) nxt_srv(2) [of "ls_node s"] by (simp add: word_unat_eq_iff)
    then have "ls_pc (sys_step i s) i \<noteq> ls_pc s i" using i(1) by (simp add: sys_step_def)
    moreover have "\<forall>j t'. ls_pc s j = Spin t' \<longrightarrow> unat t \<le> unat t'" using ticket_inv_spin [OF T] i(2) by auto
    ultimately show ?thesis using i(1) t by (intro exI [of _ i]) auto
  qed
qed


theorem local_lock_progress_witness:
  "\<exists>i. ls_pc sample_lock_state i \<noteq> Idle \<and> ls_pc (sys_step i sample_lock_state) i \<noteq> ls_pc sample_lock_state i"
  using local_lock_progress [OF sample_lock_state(1), of 1] sample_lock_state(2-4) by auto

text \<open>
  C34. The ticket counter overflows into the serving counter. Both halves live in one 64-bit word and
  \<^verbatim>\<open>fetch_add(1)\<close> carries: when the low half is $2^{32}-1$ and an idle thread takes a ticket, the lock
  starts to serve the next ticket although the holder has not released, so a waiting thread enters the
  critical section beside it.
\<close>

theorem local_lock_overflow_breaks_exclusion:
  assumes "ls_pc s i = Held b" and "ls_pc s j = Spin t" and "t = current_serving (ticket_lock (ls_node s)) + 1"
    and "ls_pc s k = Idle" and "nxt (ls_node s) = 2 ^ 32 - 1" and "srv (ls_node s) < 2 ^ 32 - 1"
  shows "i \<noteq> j \<and> ls_pc (sys_step j (sys_step k s)) i = Held b \<and> ls_pc (sys_step j (sys_step k s)) j = Check t"
proof -
  let ?v = "ticket_lock (ls_node s)"
  have v: "unat ?v = srv (ls_node s) * 2 ^ 32 + (2 ^ 32 - 1)"
    using assms(5) unfolding nxt_def srv_def by (metis div_mult_mod_eq)
  then have "unat (?v + 1) = (srv (ls_node s) + 1) * 2 ^ 32"
    using assms(6) by (simp add: unat_word_ariths)
  then have "unat (current_serving (?v + 1)) = srv (ls_node s) + 1" by (simp add: unat_current_serving)
  moreover have "unat (current_serving ?v + 1) = srv (ls_node s) + 1"
    using assms(6) nxt_srv(2) [of "ls_node s"] by (simp add: unat_word_ariths)
  ultimately have "t = current_serving (?v + 1)" using assms(3) by (simp add: word_unat_eq_iff)
  moreover have "i \<noteq> j" "k \<noteq> i" "k \<noteq> j" using assms by auto
  ultimately show ?thesis using assms by (simp add: sys_step_def)
qed

definition overflow_state :: lock_state where
  "overflow_state = \<lparr>ls_node = LocalLockNode_init\<lparr>ticket_lock := 0xFFFFFFFDFFFFFFFF\<rparr>,
     ls_pc = (\<lambda>_. Idle)(0 := Held False, 1 := Spin 0xFFFFFFFE), ls_issued = 2 ^ 32 - 1, ls_last = False, ls_streak = 0\<rparr>"

theorem local_lock_overflow_breaks_exclusion_witness:
  "lock_inv overflow_state \<and> ls_pc (sys_step 1 (sys_step 2 overflow_state)) 0 = Held False \<and>
    ls_pc (sys_step 1 (sys_step 2 overflow_state)) 1 = Check 0xFFFFFFFE"
proof -
  have n: "nxt (ls_node overflow_state) = 2 ^ 32 - 1" "srv (ls_node overflow_state) = 2 ^ 32 - 3"
    by (simp_all add: overflow_state_def nxt_def srv_def)
  have "current_serving 0xFFFFFFFDFFFFFFFF = 0xFFFFFFFD" by code_simp
  then have serving: "0xFFFFFFFE = current_serving (ticket_lock (ls_node overflow_state)) + 1"
    by (simp add: overflow_state_def)
  have pcs: "ls_pc overflow_state 0 = Held False" "ls_pc overflow_state 1 = Spin 0xFFFFFFFE" "ls_pc overflow_state 2 = Idle"
    by (simp_all add: overflow_state_def)
  have issued: "ls_issued overflow_state = 2 ^ 32 - 1" by (simp add: overflow_state_def)
  have only: "ls_pc overflow_state i = Spin t \<longleftrightarrow> i = 1 \<and> t = 0xFFFFFFFE" "inside (ls_pc overflow_state i) \<longleftrightarrow> i = 0" for i t
    by (auto simp: overflow_state_def)
  have t: "unat (0xFFFFFFFE :: u32) = 2 ^ 32 - 2" by simp
  have "ticket_inv overflow_state"
    unfolding ticket_inv_def n only issued using t by auto
  moreover have "cover_inv overflow_state"
    unfolding cover_inv_def n only
  proof (intro allI impI)
    fix m :: nat assume "2 ^ 32 - 3 \<le> m \<and> m < 2 ^ 32 - 1"
    then have "m = 2 ^ 32 - 3 \<or> m = 2 ^ 32 - 2" by linarith
    then show "m = 2 ^ 32 - 3 \<and> (\<exists>i :: nat. i = 0) \<or> (\<exists>i t. (i = (1 :: nat) \<and> t = (0xFFFFFFFE :: u32)) \<and> unat t = m)"
      using t by auto
  qed
  moreover have "pc_inv overflow_state (ls_pc overflow_state i) \<and> flags_inv overflow_state (ls_pc overflow_state i) \<and>
      count_inv overflow_state (ls_pc overflow_state i)" for i
    by (simp add: overflow_state_def LocalLockNode_init_def flags_of_simps)
  moreover have "inside (ls_pc overflow_state 0)" using pcs by simp
  ultimately have "lock_inv overflow_state" unfolding lock_inv_def by (auto simp: overflow_state_def)
  then show ?thesis
    using local_lock_overflow_breaks_exclusion [OF pcs(1,2) serving pcs(3) n(1)] n(2) by simp
qed

text \<open>
  C35. Every lock of a memory server has a slot of its own in the table, and two addresses share a lock
  exactly when they are on the same server and their offsets agree modulo 32768. The tag that marks the
  remote locks of a compute server is never the value of a free lock.
\<close>

theorem local_lock_table:
  assumes "unat (server_index a) < num_ms"
  shows "unat (get_lock_index a) < length (local_locks (LocalLockManager_init h num_ms)) \<and>
    cs_rdma_tag (LocalLockManager_init h num_ms) \<noteq> 0 \<and>
    (get_lock_index a = get_lock_index b \<longleftrightarrow>
      server_index a = server_index b \<and> gaddr_offset a mod 32768 = gaddr_offset b mod 32768)"
proof -
  have k: "kNumOfLock = 32768" by (simp add: kNumOfLock_def)
  have index: "unat (get_lock_index a) = unat (server_index a) * 32768 + unat (gaddr_offset a mod 32768) \<and>
      unat (gaddr_offset a mod 32768) < 32768" for a
  proof -
    have m: "unat (gaddr_offset a mod 32768) < 32768" by (simp add: unat_mod)
    have s: "unat (ucast (server_index a) :: u64) = unat (server_index a)" using unat_u8_le [of "server_index a"] by (simp add: unsigned_ucast_eq take_bit_nat_eq_self)
    have "unat (server_index a) \<le> 255" by (rule unat_u8_le)
    then have "unat (get_lock_index a) = unat (server_index a) * 32768 + unat (gaddr_offset a mod 32768)"
      using m by (simp add: get_lock_index_def k unat_word_ariths s)
    then show ?thesis using m by blast
  qed
  have "unat (server_index a) * 32768 + unat (gaddr_offset a mod 32768) < num_ms * 32768"
  proof -
    have "Suc (unat (server_index a)) * 32768 \<le> num_ms * 32768" using assms by (intro mult_le_mono1) simp
    then show ?thesis using index [of a] by simp
  qed
  then have len: "unat (get_lock_index a) < length (local_locks (LocalLockManager_init h num_ms))"
    using index [of a] by (simp add: LocalLockManager_init_def k)
  have "get_lock_index a = get_lock_index b \<longleftrightarrow>
      server_index a = server_index b \<and> gaddr_offset a mod 32768 = gaddr_offset b mod 32768"
  proof
    assume "get_lock_index a = get_lock_index b"
    then have eq: "unat (server_index a) * 32768 + unat (gaddr_offset a mod 32768) =
        unat (server_index b) * 32768 + unat (gaddr_offset b mod 32768)"
      using index by metis
    have "unat (server_index a) = unat (server_index b)"
      using arg_cong [OF eq, of "\<lambda>n. n div 32768"] index by simp
    moreover from this have "unat (gaddr_offset a mod 32768) = unat (gaddr_offset b mod 32768)" using eq by simp
    ultimately show "server_index a = server_index b \<and> gaddr_offset a mod 32768 = gaddr_offset b mod 32768"
      by (simp add: word_unat_eq_iff)
  qed (simp add: get_lock_index_def k)
  then show ?thesis using len by (simp add: LocalLockManager_init_def Let_def)
qed


theorem local_lock_table_witness:
  "unat (get_lock_index (GlobalAddress_of 1 32769)) < length (local_locks (LocalLockManager_init 0 2)) \<and>
    get_lock_index (GlobalAddress_of 1 32769) = get_lock_index (GlobalAddress_of 1 1)"
proof -
  have i: "server_index (GlobalAddress_of 1 32769) = 1" "server_index (GlobalAddress_of 1 1) = 1"
      "gaddr_offset (GlobalAddress_of 1 32769) mod 32768 = gaddr_offset (GlobalAddress_of 1 1) mod 32768"
    by code_simp+
  have "unat (server_index (GlobalAddress_of 1 32769)) < 2" unfolding i(1) by simp
  from local_lock_table [OF this, of 0 "GlobalAddress_of 1 1"] show ?thesis unfolding i by blast
qed

end
