(* ===== verification/Client_Prog.thy ===== *)
theory Client_Prog
  imports Allocators Remote_Memory Local_Lock
begin

text \<open>
  The index code runs on compute servers. Its only access to shared state is through
  the RDMA manager, the slab allocators, the local locks, the node cache, the per-thread random generator and the
  statistics tracker. A function of the index is a \<open>prog\<close>: a value, an error, or one of these
  calls with the code that continues from its result. \<open>run\<close> executes a program against a
  handler, a record with one function per call. \<open>mgr_handler\<close> is the handler made of the
  manager, the allocators and the cache of a compute server; \<open>mem_handler\<close> works on the contents
  of the memory regions alone, and the locale \<open>handler_refinement\<close> shows that what a program does
  over the second it does over the first.
  The last section translates the helper functions of \<^verbatim>\<open>rdma_manager.hpp\<close> and \<^verbatim>\<open>rdma_manager.cpp\<close>.
\<close>

subsection \<open>Programs\<close>

datatype TrackEvent = TrackRetry | TrackCacheHit | TrackCacheMiss | TrackLocalLock bool

datatype SmoOp = SPLIT | MERGE | STOP

datatype ('c, 'a) prog =
    Ret 'a
  | Abort err
  | Perform RDMAOp "bool \<times> RDMAOut \<Rightarrow> ('c, 'a) prog"
  | PerformBatch "RDMAOp list" "bool \<times> RDMAOut list \<Rightarrow> ('c, 'a) prog"
  | Allocate u64 "u64 \<Rightarrow> ('c, 'a) prog"
  | Free u64 u64 "('c, 'a) prog"
  | Rand64 "u64 \<Rightarrow> ('c, 'a) prog"
  | CacheSearch bytes "(nat \<times> 'c) option \<Rightarrow> ('c, 'a) prog"
  | CacheAdd bytes bytes 'c "('c, 'a) prog"
  | CacheInvalidate nat "('c, 'a) prog"
  | Track TrackEvent "('c, 'a) prog"
  | EnqueueSmo nat SmoOp GlobalAddress "('c, 'a) prog"
  | LocalLock lock_call GlobalAddress "bool \<Rightarrow> ('c, 'a) prog"

primrec bind :: "('c, 'a) prog \<Rightarrow> ('a \<Rightarrow> ('c, 'b) prog) \<Rightarrow> ('c, 'b) prog" where
  "bind (Ret a) f = f a"
| "bind (Abort e) f = Abort e"
| "bind (Perform op k) f = Perform op (\<lambda>r. bind (k r) f)"
| "bind (PerformBatch ops k) f = PerformBatch ops (\<lambda>r. bind (k r) f)"
| "bind (Allocate n k) f = Allocate n (\<lambda>off. bind (k off) f)"
| "bind (Free n off p) f = Free n off (bind p f)"
| "bind (Rand64 k) f = Rand64 (\<lambda>r. bind (k r) f)"
| "bind (CacheSearch key k) f = CacheSearch key (\<lambda>e. bind (k e) f)"
| "bind (CacheAdd lo hi c p) f = CacheAdd lo hi c (bind p f)"
| "bind (CacheInvalidate e p) f = CacheInvalidate e (bind p f)"
| "bind (Track ev p) f = Track ev (bind p f)"
| "bind (EnqueueSmo i op g p) f = EnqueueSmo i op g (bind p f)"
| "bind (LocalLock c g k) f = LocalLock c g (\<lambda>b. bind (k b) f)"

lemma bind_Ret [simp]: "bind p Ret = p"
  by (induction p) simp_all

lemma bind_assoc: "bind (bind p f) g = bind p (\<lambda>a. bind (f a) g)"
  by (induction p) simp_all

subsection \<open>Execution\<close>

record ('w, 'c) handler =
  h_op :: "RDMAOp \<Rightarrow> 'w \<Rightarrow> err + (bool \<times> RDMAOut \<times> 'w)"
  h_batch :: "RDMAOp list \<Rightarrow> 'w \<Rightarrow> err + (bool \<times> RDMAOut list \<times> 'w)"
  h_alloc :: "u64 \<Rightarrow> 'w \<Rightarrow> err + (u64 \<times> 'w)"
  h_free :: "u64 \<Rightarrow> u64 \<Rightarrow> 'w \<Rightarrow> 'w"
  h_rand :: "'w \<Rightarrow> u64 \<times> 'w"
  h_search :: "bytes \<Rightarrow> 'w \<Rightarrow> (nat \<times> 'c) option \<times> 'w"
  h_add :: "bytes \<Rightarrow> bytes \<Rightarrow> 'c \<Rightarrow> 'w \<Rightarrow> 'w"
  h_invalidate :: "nat \<Rightarrow> 'w \<Rightarrow> 'w"
  h_track :: "TrackEvent \<Rightarrow> 'w \<Rightarrow> 'w"
  h_enqueue :: "nat \<Rightarrow> SmoOp \<Rightarrow> GlobalAddress \<Rightarrow> 'w \<Rightarrow> 'w"
  h_local :: "lock_call \<Rightarrow> GlobalAddress \<Rightarrow> 'w \<Rightarrow> err + (bool \<times> 'w)"

primrec run :: "('w, 'c) handler \<Rightarrow> ('c, 'a) prog \<Rightarrow> 'w \<Rightarrow> err + ('a \<times> 'w)" where
  "run H (Ret a) w = Inr (a, w)"
| "run H (Abort e) w = Inl e"
| "run H (Perform op k) w =
     (case h_op H op w of Inl e \<Rightarrow> Inl e | Inr (ok, out, w') \<Rightarrow> run H (k (ok, out)) w')"
| "run H (PerformBatch ops k) w =
     (case h_batch H ops w of Inl e \<Rightarrow> Inl e | Inr (ok, outs, w') \<Rightarrow> run H (k (ok, outs)) w')"
| "run H (Allocate n k) w =
     (case h_alloc H n w of Inl e \<Rightarrow> Inl e | Inr (off, w') \<Rightarrow> run H (k off) w')"
| "run H (Free n off p) w = run H p (h_free H n off w)"
| "run H (Rand64 k) w = (case h_rand H w of (r, w') \<Rightarrow> run H (k r) w')"
| "run H (CacheSearch key k) w = (case h_search H key w of (e, w') \<Rightarrow> run H (k e) w')"
| "run H (CacheAdd lo hi c p) w = run H p (h_add H lo hi c w)"
| "run H (CacheInvalidate e p) w = run H p (h_invalidate H e w)"
| "run H (Track ev p) w = run H p (h_track H ev w)"
| "run H (EnqueueSmo i op g p) w = run H p (h_enqueue H i op g w)"
| "run H (LocalLock c g k) w = (case h_local H c g w of Inl e \<Rightarrow> Inl e | Inr (b, w') \<Rightarrow> run H (k b) w')"

lemma run_bind:
  "run H (bind p f) w = (case run H p w of Inl e \<Rightarrow> Inl e | Inr (a, w') \<Rightarrow> run H (f a) w')"
  by (induction p arbitrary: w) (auto split: sum.splits prod.splits)

lemma run_bind_Inr: "run H p w = Inr (a, w') \<Longrightarrow> run H (bind p f) w = run H (f a) w'"
  by (simp add: run_bind)

text \<open>
  \<open>all_ops P p\<close>: every RDMA operation that \<open>p\<close> can issue satisfies \<open>P\<close>, whatever the
  calls return. It speaks about every interleaving with other clients, since these can
  influence a program only through the results of its calls.
\<close>

primrec all_ops :: "(RDMAOp \<Rightarrow> bool) \<Rightarrow> ('c, 'a) prog \<Rightarrow> bool" where
  "all_ops P (Ret a) \<longleftrightarrow> True"
| "all_ops P (Abort e) \<longleftrightarrow> True"
| "all_ops P (Perform op k) \<longleftrightarrow> P op \<and> (\<forall>r. all_ops P (k r))"
| "all_ops P (PerformBatch ops k) \<longleftrightarrow> list_all P ops \<and> (\<forall>r. all_ops P (k r))"
| "all_ops P (Allocate n k) \<longleftrightarrow> (\<forall>off. all_ops P (k off))"
| "all_ops P (Free n off p) \<longleftrightarrow> all_ops P p"
| "all_ops P (Rand64 k) \<longleftrightarrow> (\<forall>r. all_ops P (k r))"
| "all_ops P (CacheSearch key k) \<longleftrightarrow> (\<forall>e. all_ops P (k e))"
| "all_ops P (CacheAdd lo hi c p) \<longleftrightarrow> all_ops P p"
| "all_ops P (CacheInvalidate e p) \<longleftrightarrow> all_ops P p"
| "all_ops P (Track ev p) \<longleftrightarrow> all_ops P p"
| "all_ops P (EnqueueSmo i op g p) \<longleftrightarrow> all_ops P p"
| "all_ops P (LocalLock c g k) \<longleftrightarrow> (\<forall>b. all_ops P (k b))"

lemma all_ops_bind:
  "all_ops P p \<Longrightarrow> (\<And>a. all_ops P (f a)) \<Longrightarrow> all_ops P (bind p f)"
  by (induction p) simp_all

lemma all_ops_mono: "all_ops P p \<Longrightarrow> (\<And>op. P op \<Longrightarrow> R op) \<Longrightarrow> all_ops R p"
  by (induction p) (auto simp: list_all_iff)

subsection \<open>The handler over the contents of the memory regions\<close>

record ('e, 'c) env_ops =
  e_alloc :: "u64 \<Rightarrow> 'e \<Rightarrow> err + (u64 \<times> 'e)"
  e_free :: "u64 \<Rightarrow> u64 \<Rightarrow> 'e \<Rightarrow> 'e"
  e_rand :: "'e \<Rightarrow> u64 \<times> 'e"
  e_search :: "bytes \<Rightarrow> 'e \<Rightarrow> (nat \<times> 'c) option \<times> 'e"
  e_add :: "bytes \<Rightarrow> bytes \<Rightarrow> 'c \<Rightarrow> 'e \<Rightarrow> 'e"
  e_invalidate :: "nat \<Rightarrow> 'e \<Rightarrow> 'e"
  e_enqueue :: "nat \<Rightarrow> SmoOp \<Rightarrow> GlobalAddress \<Rightarrow> 'e \<Rightarrow> 'e"
  e_local :: "lock_call \<Rightarrow> GlobalAddress \<Rightarrow> 'e \<Rightarrow> err + (bool \<times> 'e)"

definition mem_op :: "RDMAOp \<Rightarrow> rmemory \<times> 'e \<Rightarrow> err + (bool \<times> RDMAOut \<times> (rmemory \<times> 'e))" where
  "mem_op op w =
     (if rm_ok (fst w) \<and> op_valid (fst w) op
      then Inr (True, fst (rm_step (fst w) op), (snd (rm_step (fst w) op), snd w))
      else Inl AssertionFailed)"

definition mem_batch :: "RDMAOp list \<Rightarrow> rmemory \<times> 'e \<Rightarrow> err + (bool \<times> RDMAOut list \<times> (rmemory \<times> 'e))" where
  "mem_batch ops w =
     (if rm_ok (fst w) \<and> list_all (op_valid (fst w)) ops
      then Inr (True, fst (rm_steps (fst w) ops), (snd (rm_steps (fst w) ops), snd w))
      else Inl AssertionFailed)"

definition mem_handler :: "('e, 'c) env_ops \<Rightarrow> (rmemory \<times> 'e, 'c) handler" where
  "mem_handler E =
     \<lparr>h_op = mem_op, h_batch = mem_batch,
      h_alloc = (\<lambda>n w. case e_alloc E n (snd w) of Inl e \<Rightarrow> Inl e | Inr (off, e') \<Rightarrow> Inr (off, (fst w, e'))),
      h_free = (\<lambda>n off w. (fst w, e_free E n off (snd w))),
      h_rand = (\<lambda>w. case e_rand E (snd w) of (r, e') \<Rightarrow> (r, (fst w, e'))),
      h_search = (\<lambda>key w. case e_search E key (snd w) of (x, e') \<Rightarrow> (x, (fst w, e'))),
      h_add = (\<lambda>lo hi c w. (fst w, e_add E lo hi c (snd w))),
      h_invalidate = (\<lambda>x w. (fst w, e_invalidate E x (snd w))),
      h_track = (\<lambda>ev w. w),
      h_enqueue = (\<lambda>i op g w. (fst w, e_enqueue E i op g (snd w))),
      h_local = (\<lambda>c g w. case e_local E c g (snd w) of Inl e \<Rightarrow> Inl e | Inr (b, e') \<Rightarrow> Inr (b, (fst w, e')))\<rparr>"

locale handler_refinement =
  fixes H :: "('w, 'c) handler"
    and E :: "('e, 'c) env_ops"
    and absw :: "'w \<Rightarrow> rmemory \<times> 'e"
  assumes op_sim: "rm_ok (fst (absw w)) \<Longrightarrow> op_valid (fst (absw w)) op \<Longrightarrow>
      \<exists>w'. h_op H op w = Inr (True, fst (rm_step (fst (absw w)) op), w') \<and>
           absw w' = (snd (rm_step (fst (absw w)) op), snd (absw w))"
    and batch_sim: "rm_ok (fst (absw w)) \<Longrightarrow> list_all (op_valid (fst (absw w))) ops \<Longrightarrow>
      \<exists>w'. h_batch H ops w = Inr (True, fst (rm_steps (fst (absw w)) ops), w') \<and>
           absw w' = (snd (rm_steps (fst (absw w)) ops), snd (absw w))"
    and alloc_sim: "e_alloc E n (snd (absw w)) = Inr (off, e') \<Longrightarrow>
      \<exists>w'. h_alloc H n w = Inr (off, w') \<and> absw w' = (fst (absw w), e')"
    and free_sim: "absw (h_free H n off w) = (fst (absw w), e_free E n off (snd (absw w)))"
    and rand_sim: "e_rand E (snd (absw w)) = (r, e') \<Longrightarrow>
      \<exists>w'. h_rand H w = (r, w') \<and> absw w' = (fst (absw w), e')"
    and search_sim: "e_search E key (snd (absw w)) = (x, e') \<Longrightarrow>
      \<exists>w'. h_search H key w = (x, w') \<and> absw w' = (fst (absw w), e')"
    and add_sim: "absw (h_add H lo hi c w) = (fst (absw w), e_add E lo hi c (snd (absw w)))"
    and invalidate_sim: "absw (h_invalidate H i w) = (fst (absw w), e_invalidate E i (snd (absw w)))"
    and track_sim: "absw (h_track H ev w) = absw w"
    and enqueue_sim: "absw (h_enqueue H i sop g w) = (fst (absw w), e_enqueue E i sop g (snd (absw w)))"
    and local_sim: "e_local E lc g (snd (absw w)) = Inr (b, e') \<Longrightarrow>
      \<exists>w'. h_local H lc g w = Inr (b, w') \<and> absw w' = (fst (absw w), e')"
begin

lemma run_refines:
  "run (mem_handler E) p (absw w) = Inr (a, v) \<Longrightarrow> \<exists>w'. run H p w = Inr (a, w') \<and> absw w' = v"
proof (induction p arbitrary: w)
  case (Perform op k)
  then have ok: "rm_ok (fst (absw w))" "op_valid (fst (absw w)) op"
    by (auto simp: mem_handler_def mem_op_def split: if_splits)
  obtain w1 where w1: "h_op H op w = Inr (True, fst (rm_step (fst (absw w)) op), w1)"
      "absw w1 = (snd (rm_step (fst (absw w)) op), snd (absw w))"
    using op_sim [OF ok] by blast
  then have "run (mem_handler E) (k (True, fst (rm_step (fst (absw w)) op))) (absw w1) = Inr (a, v)"
    using Perform.prems ok by (simp add: mem_handler_def mem_op_def)
  then show ?case using Perform.IH w1(1) by fastforce
next
  case (PerformBatch ops k)
  then have ok: "rm_ok (fst (absw w))" "list_all (op_valid (fst (absw w))) ops"
    by (auto simp: mem_handler_def mem_batch_def split: if_splits)
  obtain w1 where w1: "h_batch H ops w = Inr (True, fst (rm_steps (fst (absw w)) ops), w1)"
      "absw w1 = (snd (rm_steps (fst (absw w)) ops), snd (absw w))"
    using batch_sim [OF ok] by blast
  then have "run (mem_handler E) (k (True, fst (rm_steps (fst (absw w)) ops))) (absw w1) = Inr (a, v)"
    using PerformBatch.prems ok by (simp add: mem_handler_def mem_batch_def)
  then show ?case using PerformBatch.IH w1(1) by fastforce
next
  case (Allocate n k)
  then obtain off e' where al: "e_alloc E n (snd (absw w)) = Inr (off, e')"
      "run (mem_handler E) (k off) (fst (absw w), e') = Inr (a, v)"
    by (auto simp: mem_handler_def split: sum.splits)
  obtain w1 where "h_alloc H n w = Inr (off, w1)" "absw w1 = (fst (absw w), e')"
    using alloc_sim [OF al(1)] by blast
  then show ?case using Allocate.IH [of "k off" w1] al(2) by auto
next
  case (Free n off p)
  then show ?case using Free.IH [of "h_free H n off w"] by (simp add: mem_handler_def free_sim)
next
  case (Rand64 k)
  obtain r e' where r: "e_rand E (snd (absw w)) = (r, e')" by force
  obtain w1 where "h_rand H w = (r, w1)" "absw w1 = (fst (absw w), e')"
    using rand_sim [OF r] by blast
  then show ?case using Rand64.IH [of "k r" w1] Rand64.prems r by (auto simp: mem_handler_def)
next
  case (CacheSearch key k)
  obtain x e' where x: "e_search E key (snd (absw w)) = (x, e')" by force
  obtain w1 where "h_search H key w = (x, w1)" "absw w1 = (fst (absw w), e')"
    using search_sim [OF x] by blast
  then show ?case using CacheSearch.IH [of "k x" w1] CacheSearch.prems x by (auto simp: mem_handler_def)
next
  case (CacheAdd lo hi c p)
  then show ?case using CacheAdd.IH [of "h_add H lo hi c w"] by (simp add: mem_handler_def add_sim)
next
  case (CacheInvalidate i p)
  then show ?case using CacheInvalidate.IH [of "h_invalidate H i w"] by (simp add: mem_handler_def invalidate_sim)
next
  case (Track ev p)
  then show ?case using Track.IH [of "h_track H ev w"] by (simp add: mem_handler_def track_sim)
next
  case (EnqueueSmo i op g p)
  then show ?case using EnqueueSmo.IH [of "h_enqueue H i op g w"] by (simp add: mem_handler_def enqueue_sim)
next
  case (LocalLock c g k)
  then obtain b e' where b: "e_local E c g (snd (absw w)) = Inr (b, e')"
      "run (mem_handler E) (k b) (fst (absw w), e') = Inr (a, v)"
    by (auto simp: mem_handler_def split: sum.splits)
  obtain w1 where "h_local H c g w = Inr (b, w1)" "absw w1 = (fst (absw w), e')"
    using local_sim [OF b(1)] by blast
  then show ?case using LocalLock.IH [of "k b" w1] b(2) by auto
qed auto

end

subsection \<open>Execution steps over the regions\<close>

named_theorems mem_run \<open>execution of programs by the handler over memory regions\<close>

lemma mem_handler_op [mem_run]:
  "h_op (mem_handler E) op (r, e) =
     (if rm_ok r \<and> op_valid r op then Inr (True, fst (rm_step r op), (snd (rm_step r op), e))
      else Inl AssertionFailed)"
  by (simp add: mem_handler_def mem_op_def)

lemma mem_handler_batch [mem_run]:
  "h_batch (mem_handler E) ops (r, e) =
     (if rm_ok r \<and> list_all (op_valid r) ops then Inr (True, fst (rm_steps r ops), (snd (rm_steps r ops), e))
      else Inl AssertionFailed)"
  by (simp add: mem_handler_def mem_batch_def)

lemma mem_handler_env [mem_run]:
  "h_alloc (mem_handler E) n (r, e) =
     (case e_alloc E n e of Inl er \<Rightarrow> Inl er | Inr (off, e') \<Rightarrow> Inr (off, (r, e')))"
  "h_free (mem_handler E) n off (r, e) = (r, e_free E n off e)"
  "h_rand (mem_handler E) (r, e) = (fst (e_rand E e), (r, snd (e_rand E e)))"
  "h_search (mem_handler E) key (r, e) = (fst (e_search E key e), (r, snd (e_search E key e)))"
  "h_add (mem_handler E) lo hi c (r, e) = (r, e_add E lo hi c e)"
  "h_invalidate (mem_handler E) x (r, e) = (r, e_invalidate E x e)"
  "h_track (mem_handler E) ev (r, e) = (r, e)"
  "h_enqueue (mem_handler E) i sop g (r, e) = (r, e_enqueue E i sop g e)"
  "h_local (mem_handler E) lc g (r, e) =
     (case e_local E lc g e of Inl er \<Rightarrow> Inl er | Inr (b, e') \<Rightarrow> Inr (b, (r, e')))"
  by (simp_all add: mem_handler_def split: prod.splits sum.splits)

subsection \<open>The handler of a compute server\<close>

text \<open>
  The cache is a parameter: an instance of \<open>cache_ops\<close> over a state of its own. The readings of
  the clock and the random numbers still to come are streams of the state. The maintenance
  queues are third-party queues, like the free lists of the slab allocators.
\<close>

record ('cs, 'c) cache_ops =
  c_search :: "bytes \<Rightarrow> 'cs \<Rightarrow> (nat \<times> 'c) option \<times> 'cs"
  c_add :: "bytes \<Rightarrow> bytes \<Rightarrow> 'c \<Rightarrow> 'cs \<Rightarrow> 'cs"
  c_invalidate :: "nat \<Rightarrow> 'cs \<Rightarrow> 'cs"

record ('q, 'cs, 'm) cworld =
  cw_mgr :: RDMAManager
  cw_alloc :: "'q LocalAllocator"
  cw_rr :: u64
  cw_clock :: "nat \<Rightarrow> u64"
  cw_rand :: "nat \<Rightarrow> u64"
  cw_cache :: 'cs
  cw_queues :: "'m list"
  cw_locks :: LocalLockManager

primrec track_fun :: "TrackEvent \<Rightarrow> ThreadStatsTracker \<Rightarrow> ThreadStatsTracker" where
  "track_fun TrackRetry = record_retry"
| "track_fun TrackCacheHit = tr_record_cache_hit"
| "track_fun TrackCacheMiss = tr_record_cache_miss"
| "track_fun (TrackLocalLock was_handover) = tr_record_local_lock_acquisition was_handover"

definition mgr_alloc :: "(u64, 'q) queue_ops \<Rightarrow> u64 \<Rightarrow> ('q, 'cs, 'm) cworld \<Rightarrow> err + (u64 \<times> ('q, 'cs, 'm) cworld)" where
  "mgr_alloc Q n w =
     (case local_allocate Q rpc_allocate n (cw_alloc w) (mem_servers (cw_mgr w), cw_rr w) of
        Inl e \<Rightarrow> Inl e
      | Inr (off, la, (servers, rr)) \<Rightarrow>
          Inr (off, w\<lparr>cw_mgr := (cw_mgr w)\<lparr>mem_servers := servers\<rparr>, cw_alloc := la, cw_rr := rr\<rparr>))"

definition mgr_handler ::
  "(u64, 'q) queue_ops \<Rightarrow> (SmoOp \<times> GlobalAddress, 'm) queue_ops \<Rightarrow> ('cs, 'c) cache_ops \<Rightarrow> nat \<Rightarrow> (('q, 'cs, 'm) cworld, 'c) handler" where
  "mgr_handler Q MQ C tid =
     \<lparr>h_op = (\<lambda>op w. case perform_op tid (cw_clock w) (cw_mgr w) op of
          Inl e \<Rightarrow> Inl e
        | Inr (ok, out, m) \<Rightarrow> Inr (ok, out, w\<lparr>cw_mgr := m, cw_clock := (\<lambda>i. cw_clock w (i + 1))\<rparr>)),
      h_batch = (\<lambda>ops w. case perform_batch tid (cw_clock w) (cw_mgr w) ops of
          Inl e \<Rightarrow> Inl e
        | Inr (ok, outs, m) \<Rightarrow> Inr (ok, outs, w\<lparr>cw_mgr := m, cw_clock := (\<lambda>i. cw_clock w (i + length ops))\<rparr>)),
      h_alloc = mgr_alloc Q,
      h_free = (\<lambda>n off w. w\<lparr>cw_alloc := local_free Q n off (cw_alloc w)\<rparr>),
      h_rand = (\<lambda>w. (cw_rand w 0, w\<lparr>cw_rand := (\<lambda>i. cw_rand w (i + 1))\<rparr>)),
      h_search = (\<lambda>key w. case c_search C key (cw_cache w) of (e, cs) \<Rightarrow> (e, w\<lparr>cw_cache := cs\<rparr>)),
      h_add = (\<lambda>lo hi c w. w\<lparr>cw_cache := c_add C lo hi c (cw_cache w)\<rparr>),
      h_invalidate = (\<lambda>e w. w\<lparr>cw_cache := c_invalidate C e (cw_cache w)\<rparr>),
      h_track = (\<lambda>ev w. w\<lparr>cw_mgr := with_tracker tid (track_fun ev) (cw_mgr w)\<rparr>),
      h_enqueue = (\<lambda>i op g w. w\<lparr>cw_queues := (cw_queues w)[i := q_enqueue MQ (op, g) (cw_queues w ! i)]\<rparr>),
      h_local = (\<lambda>c g w. case lock_manager_call c g (cw_locks w) of
          Inl e \<Rightarrow> Inl e | Inr (b, m) \<Rightarrow> Inr (b, w\<lparr>cw_locks := m\<rparr>))\<rparr>"

text \<open>What a compute server sees besides the contents of the regions.\<close>

record ('q, 'cs, 'm) menv =
  me_servers :: "MemoryServer list"
  me_alloc :: "'q LocalAllocator"
  me_rr :: u64
  me_rand :: "nat \<Rightarrow> u64"
  me_cache :: 'cs
  me_queues :: "'m list"
  me_locks :: LocalLockManager

definition strip :: "MemoryServer \<Rightarrow> MemoryServer" where
  "strip s = s\<lparr>ms_rdma := []\<rparr>"

definition mgr_env ::
  "(u64, 'q) queue_ops \<Rightarrow> (SmoOp \<times> GlobalAddress, 'm) queue_ops \<Rightarrow> ('cs, 'c) cache_ops \<Rightarrow> (('q, 'cs, 'm) menv, 'c) env_ops" where
  "mgr_env Q MQ C =
     \<lparr>e_alloc = (\<lambda>n e. case local_allocate Q rpc_allocate n (me_alloc e) (me_servers e, me_rr e) of
          Inl er \<Rightarrow> Inl er
        | Inr (off, la, (servers, rr)) \<Rightarrow> Inr (off, e\<lparr>me_servers := servers, me_alloc := la, me_rr := rr\<rparr>)),
      e_free = (\<lambda>n off e. e\<lparr>me_alloc := local_free Q n off (me_alloc e)\<rparr>),
      e_rand = (\<lambda>e. (me_rand e 0, e\<lparr>me_rand := (\<lambda>i. me_rand e (i + 1))\<rparr>)),
      e_search = (\<lambda>key e. case c_search C key (me_cache e) of (x, cs) \<Rightarrow> (x, e\<lparr>me_cache := cs\<rparr>)),
      e_add = (\<lambda>lo hi c e. e\<lparr>me_cache := c_add C lo hi c (me_cache e)\<rparr>),
      e_invalidate = (\<lambda>x e. e\<lparr>me_cache := c_invalidate C x (me_cache e)\<rparr>),
      e_enqueue = (\<lambda>i op g e. e\<lparr>me_queues := (me_queues e)[i := q_enqueue MQ (op, g) (me_queues e ! i)]\<rparr>),
      e_local = (\<lambda>c g e. case lock_manager_call c g (me_locks e) of
          Inl er \<Rightarrow> Inl er | Inr (b, m) \<Rightarrow> Inr (b, e\<lparr>me_locks := m\<rparr>))\<rparr>"

definition mgr_abs :: "('q, 'cs, 'm) cworld \<Rightarrow> rmemory \<times> ('q, 'cs, 'm) menv" where
  "mgr_abs w = (rmem (cw_mgr w),
     \<lparr>me_servers = map strip (mem_servers (cw_mgr w)), me_alloc = cw_alloc w, me_rr = cw_rr w,
      me_rand = cw_rand w, me_cache = cw_cache w, me_queues = cw_queues w, me_locks = cw_locks w\<rparr>)"

subsection \<open>The manager leaves the allocation state of the servers alone\<close>

definition bumps :: "RDMAManager \<Rightarrow> MemoryServer list" where
  "bumps m = map strip (mem_servers m)"

lemma bumps_accounting [simp]:
  "bumps (snd (get_server_time_delay m i T n)) = bumps m"
  "bumps (ensure_thread_stats tid m) = bumps m"
  "bumps (add_thread_stats tid t d m) = bumps m"
  "bumps (with_tracker tid f m) = bumps m"
  by (simp_all add: bumps_def get_server_time_delay_def ensure_thread_stats_def add_thread_stats_def
      with_tracker_def Let_def split: option.splits)

lemma bumps_set_server_memory [simp]: "bumps (set_server_memory m i mem) = bumps m"
proof (cases "i < length (mem_servers m)")
  case True
  then have "map strip ((mem_servers m)[i := (mem_servers m ! i)\<lparr>ms_rdma := mem\<rparr>]) = map strip (mem_servers m)"
    by (intro nth_equalityI) (auto simp: nth_list_update strip_def)
  then show ?thesis by (simp add: bumps_def set_server_memory_def)
qed (simp add: bumps_def set_server_memory_def list_update_beyond)

lemma bumps_execute_rdma: "execute_rdma m op = Inr (ok, out, m') \<Longrightarrow> bumps m' = bumps m"
  by (auto simp: execute_rdma_def Let_def split: option.splits sum.splits RDMAOpType.splits prod.splits)

lemma bumps_perform_op:
  assumes "perform_op tid now m op = Inr (ok, out, m')"
  shows "bumps m' = bumps m"
proof -
  obtain d m1 where "get_server_time_delay m (unat (server_index (op_addr op))) (calculate_bw_delay_ns op) (now 0) = (d, m1)"
    by force
  moreover have "bumps m1 = bumps m" using calculation by (metis bumps_accounting(1) snd_conv)
  ultimately show ?thesis
    using assms by (auto simp: perform_op_def get_server_def Let_def dest!: bumps_execute_rdma split: if_splits sum.splits prod.splits)
qed

lemma bumps_batch_loop:
  "batch_loop tid now k m ops outs = Inr (ok, outs', m') \<Longrightarrow> bumps m' = bumps m"
proof (induction ops arbitrary: k m outs)
  case (Cons op ops)
  obtain d m1 where d: "get_server_time_delay m (unat (server_index (op_addr op))) (calculate_bw_delay_ns op) (now k) = (d, m1)"
    by force
  then have m1: "bumps m1 = bumps m" by (metis bumps_accounting(1) snd_conv)
  show ?case
    using Cons.prems d m1
    by (auto simp: get_server_def Let_def dest!: bumps_execute_rdma Cons.IH split: if_splits sum.splits prod.splits)
qed simp

lemma bumps_perform_batch: "perform_batch tid now m ops = Inr (ok, outs, m') \<Longrightarrow> bumps m' = bumps m"
  by (auto simp: perform_batch_def dest!: bumps_batch_loop split: if_splits sum.splits)

lemma pick_server_in_range: "0 < n \<Longrightarrow> fst (pick_server n rr) < n"
proof -
  assume n: "0 < n"
  have "unat rr < 2 ^ LENGTH(64)" by (rule unsigned_less)
  then have "unat (rr mod of_nat n) < n"
    using n by (cases "n mod 2 ^ 64 = 0")
      (auto simp: unat_mod unat_of_nat take_bit_eq_mod intro: order_less_le_trans [OF mod_less_divisor])
  then show ?thesis by (simp add: pick_server_def)
qed

lemma rpc_allocate_strip:
  "rpc_allocate n (map strip ss, rr) =
    (case rpc_allocate n (ss, rr) of Inl e \<Rightarrow> Inl e
     | Inr (off, (ss', rr')) \<Rightarrow> Inr (off, (map strip ss', rr')))"
proof (cases "ss = []")
  case False
  define i where "i = fst (pick_server (length ss) rr)"
  have "i < length ss" using False pick_server_in_range [of "length ss" rr] by (simp add: i_def)
  moreover have "pick_server (length ss) rr = (i, rr + 1)" by (simp add: i_def pick_server_def)
  ultimately show ?thesis
    using False by (cases "ss ! i") (simp add: rpc_allocate_def ms_allocate_def strip_def Let_def map_update)
qed (simp add: rpc_allocate_def)

lemma rpc_allocate_memory:
  assumes "rpc_allocate n (ss, rr) = Inr (off, (ss', rr'))"
  shows "map ms_rdma ss' = map ms_rdma ss"
proof -
  define i where "i = fst (pick_server (length ss) rr)"
  have "ss \<noteq> []" using assms by (auto simp: rpc_allocate_def)
  then have i: "i < length ss" using pick_server_in_range [of "length ss" rr] by (simp add: i_def)
  have "pick_server (length ss) rr = (i, rr + 1)" by (simp add: i_def pick_server_def)
  then obtain s where "ss' = ss[i := s]" "ms_rdma s = ms_rdma (ss ! i)"
    using assms \<open>ss \<noteq> []\<close> by (auto simp: rpc_allocate_def ms_allocate_def Let_def)
  then show ?thesis by (simp add: map_update) (metis list_update_id map_update)
qed

lemma get_slabs_nolock_strip:
  "get_slabs_nolock Q rpc_allocate n sa (map strip ss, rr) =
    (case get_slabs_nolock Q rpc_allocate n sa (ss, rr) of Inl e \<Rightarrow> Inl e
     | Inr (sa', (ss', rr')) \<Rightarrow> Inr (sa', (map strip ss', rr')))"
  by (auto simp: get_slabs_nolock_def rpc_allocate_strip Let_def split: sum.splits option.splits)

lemma get_slabs_nolock_memory:
  "get_slabs_nolock Q rpc_allocate n sa (ss, rr) = Inr (sa', (ss', rr')) \<Longrightarrow> map ms_rdma ss' = map ms_rdma ss"
  by (auto simp: get_slabs_nolock_def Let_def dest!: rpc_allocate_memory split: sum.splits option.splits if_splits)

lemma local_allocate_strip:
  "local_allocate Q rpc_allocate n la (map strip ss, rr) =
    (case local_allocate Q rpc_allocate n la (ss, rr) of Inl e \<Rightarrow> Inl e
     | Inr (off, la', (ss', rr')) \<Rightarrow> Inr (off, la', (map strip ss', rr')))"
  by (auto simp: local_allocate_def slab_allocate_def get_slabs_nolock_strip split: sum.splits option.splits prod.splits)

lemma local_allocate_memory:
  "local_allocate Q rpc_allocate n la (ss, rr) = Inr (off, la', (ss', rr')) \<Longrightarrow> map ms_rdma ss' = map ms_rdma ss"
  by (auto simp: local_allocate_def slab_allocate_def dest!: get_slabs_nolock_memory split: sum.splits option.splits prod.splits)

interpretation mgr: handler_refinement "mgr_handler Q MQ C tid" "mgr_env Q MQ C" mgr_abs for Q MQ C tid
proof unfold_locales
  fix w :: "('a, 'c, 'b) cworld" and op ops n off e' r key x lo hi c i ev
  show "rm_ok (fst (mgr_abs w)) \<Longrightarrow> op_valid (fst (mgr_abs w)) op \<Longrightarrow>
      \<exists>w'. h_op (mgr_handler Q MQ C tid) op w = Inr (True, fst (rm_step (fst (mgr_abs w)) op), w') \<and>
           mgr_abs w' = (snd (rm_step (fst (mgr_abs w)) op), snd (mgr_abs w))"
    using perform_op_refines [of "cw_mgr w" op tid "cw_clock w"] bumps_perform_op
    by (fastforce simp: mgr_handler_def mgr_abs_def bumps_def)
  show "rm_ok (fst (mgr_abs w)) \<Longrightarrow> list_all (op_valid (fst (mgr_abs w))) ops \<Longrightarrow>
      \<exists>w'. h_batch (mgr_handler Q MQ C tid) ops w = Inr (True, fst (rm_steps (fst (mgr_abs w)) ops), w') \<and>
           mgr_abs w' = (snd (rm_steps (fst (mgr_abs w)) ops), snd (mgr_abs w))"
    using perform_batch_refines [of "cw_mgr w" ops tid "cw_clock w"] bumps_perform_batch
    by (fastforce simp: mgr_handler_def mgr_abs_def bumps_def list_all_iff)
  show "e_alloc (mgr_env Q MQ C) n (snd (mgr_abs w)) = Inr (off, e') \<Longrightarrow>
      \<exists>w'. h_alloc (mgr_handler Q MQ C tid) n w = Inr (off, w') \<and> mgr_abs w' = (fst (mgr_abs w), e')"
    using local_allocate_memory [of Q n "cw_alloc w" "mem_servers (cw_mgr w)" "cw_rr w"]
    by (auto simp: mgr_env_def mgr_handler_def mgr_abs_def mgr_alloc_def local_allocate_strip rmem_def
        split: sum.splits prod.splits)
qed (auto simp: mgr_env_def mgr_handler_def mgr_abs_def rmem_def with_tracker_def split: option.splits prod.splits sum.splits)

subsection \<open>The helper functions of the manager\<close>

text \<open>
  \<^verbatim>\<open>assert(e)\<close> on a call evaluates the call and stops the program when it returns false. A READ
  that reports failure leaves its buffer as it was: the helpers then return no bytes.
\<close>

definition assert_then :: "bool \<Rightarrow> ('c, 'a) prog \<Rightarrow> ('c, 'a) prog" where
  "assert_then b p = (if b then p else Abort AssertionFailed)"

fun out_bytes :: "RDMAOut \<Rightarrow> bytes option" where
  "out_bytes (ReadOut bs) = Some bs"
| "out_bytes _ = None"

fun out_expected :: "u64 \<Rightarrow> RDMAOut \<Rightarrow> u64" where
  "out_expected e (CasOut v) = v"
| "out_expected e _ = e"

definition rdma_read_object :: "GlobalAddress \<Rightarrow> u64 \<Rightarrow> ('c, bool \<times> bytes option) prog" where
  "rdma_read_object gaddr sz = Perform (ReadOp gaddr True sz) (\<lambda>(ok, out). Ret (ok, out_bytes out))"

definition rdma_write_object :: "GlobalAddress \<Rightarrow> bytes \<Rightarrow> ('c, bool) prog" where
  "rdma_write_object gaddr obj =
     Perform (WriteOp gaddr (Some obj) (of_nat (length obj))) (\<lambda>(ok, out). Ret ok)"

definition get_read_batch :: "u64 \<Rightarrow> GlobalAddress list \<Rightarrow> RDMAOp list" where
  "get_read_batch sz gaddrs = map (\<lambda>g. ReadOp g True sz) gaddrs"

definition get_write_batch :: "GlobalAddress list \<Rightarrow> bytes list \<Rightarrow> RDMAOp list" where
  "get_write_batch gaddrs objs = map2 (\<lambda>g obj. WriteOp g (Some obj) (of_nat (length obj))) gaddrs objs"

definition rdma_read_batch :: "u64 \<Rightarrow> GlobalAddress list \<Rightarrow> ('c, bool \<times> bytes option list) prog" where
  "rdma_read_batch sz gaddrs =
     PerformBatch (get_read_batch sz gaddrs) (\<lambda>(ok, outs). Ret (ok, map out_bytes outs))"

definition rdma_write_batch :: "GlobalAddress list \<Rightarrow> bytes list \<Rightarrow> ('c, bool) prog" where
  "rdma_write_batch gaddrs objs = PerformBatch (get_write_batch gaddrs objs) (\<lambda>(ok, outs). Ret ok)"

definition rdma_try_acquire_lock :: "GlobalAddress \<Rightarrow> ('c, bool) prog" where
  "rdma_try_acquire_lock lock_address =
     Perform (CasOp lock_address 0 1) (\<lambda>(ok, out). assert_then ok (Ret (out_expected 0 out = 0)))"

definition rdma_release_lock :: "GlobalAddress \<Rightarrow> ('c, bool) prog" where
  "rdma_release_lock lock_address = Perform (FaaOp lock_address (-1)) (\<lambda>(ok, out). Ret ok)"

definition rdma_cas_release_lock :: "GlobalAddress \<Rightarrow> ('c, bool) prog" where
  "rdma_cas_release_lock lock_address =
     Perform (WriteOp lock_address (Some (bytes_of_u64 0)) 8) (\<lambda>(ok, out). Ret ok)"

lemma rdma_try_acquire_lock_run:
  assumes "rm_ok r" and "rm_valid r g 8"
  shows "run (mem_handler E) (rdma_try_acquire_lock g) (r, e) =
    (if rm_load64 r g = 0 then Inr (True, (rm_store r g (bytes_of_u64 1), e)) else Inr (False, (r, e)))"
  using assms by (simp add: rdma_try_acquire_lock_def mem_run assert_then_def)

lemma rdma_release_lock_run:
  assumes "rm_ok r" and "rm_valid r g 8"
  shows "run (mem_handler E) (rdma_release_lock g) (r, e) =
    Inr (True, (rm_store r g (bytes_of_u64 (rm_load64 r g - 1)), e))"
  using assms by (simp add: rdma_release_lock_def mem_run)

lemma rdma_read_object_run:
  assumes "rm_ok r" and "rm_valid r g (unat n)"
  shows "run (mem_handler E) (rdma_read_object g n) (r, e) = Inr ((True, Some (rm_load r g (unat n))), (r, e))"
  using assms by (simp add: rdma_read_object_def mem_run)

lemma rdma_write_object_run:
  assumes "rm_ok r" and "rm_valid r g (length bs)"
  shows "run (mem_handler E) (rdma_write_object g bs) (r, e) = Inr (True, (rm_store r g bs, e))"
proof -
  have "length bs < 2 ^ 64"
  proof -
    let ?mem = "r ! unat (server_index g)"
    have "?mem \<in> set r" and "length bs \<le> length ?mem" using assms(2) by (auto simp: rm_valid_def)
    then show ?thesis using assms(1) by (auto simp: rm_ok_def mem_ok_def)
  qed
  then have "unat (of_nat (length bs) :: u64) = length bs" by (simp add: unat_of_nat)
  then show ?thesis using assms by (simp add: rdma_write_object_def mem_run)
qed

end
