(* ===== verification/Faunus_Layout.thy ===== *)
theory Faunus_Layout
  imports Kv_Block Array_Var Client_Prog
begin

text \<open>
  \<^verbatim>\<open>src/src/kv_index/faunus_index.hpp\<close> and \<^verbatim>\<open>kv_index.hpp\<close>: the nodes of the tree and how they
  lie in remote memory. The macros of the build (\<^verbatim>\<open>KEY_SIZE\<close>, \<^verbatim>\<open>VALUE_SIZE\<close>, the branch factor, the
  split watermark and \<^verbatim>\<open>FAUNUS_MAINTENANCE_ENABLED\<close>) are the fields of a \<open>Config\<close>. Nodes
  are read and written as objects through \<^verbatim>\<open>reinterpret_cast\<close>: \<open>enc_leaf\<close>, \<open>enc_node\<close> and
  \<open>enc_item\<close> are their images in memory, with the padding that the compiler inserts. \<^verbatim>\<open>ArrayVar\<close> and
  \<^verbatim>\<open>GlobalAddress\<close> are packed, so only the integers of the header are aligned.
\<close>

record Config =
  KEY_SIZE :: nat
  VALUE_SIZE :: nat
  branch_factor :: nat
  SPLIT_WATERMARK :: rat
  MAINTENANCE_ENABLED :: bool

text \<open>The compile-time checks of the headers.\<close>

definition config_ok :: "Config \<Rightarrow> bool" where
  "config_ok c \<longleftrightarrow> 0 < KEY_SIZE c \<and> KEY_SIZE c \<le> 1024 \<and> 0 < VALUE_SIZE c \<and> VALUE_SIZE c \<le> 1024 \<and>
     0 < branch_factor c \<and> branch_factor c \<le> 256 \<and> 0 < SPLIT_WATERMARK c \<and> SPLIT_WATERMARK c \<le> 1"

subsection \<open>Node types\<close>

record Header =
  lock :: u64
  level :: u64
  fence_lo :: bytes
  fence_hi :: bytes
  last_index :: u64

record LeafNode =
  leaf_header :: Header
  kv_blocks :: "KVBlock list"

record InternalEntry =
  entry_key :: bytes
  entry_child :: GlobalAddress

record InternalNode =
  node_header :: Header
  entries :: "InternalEntry list"

record KVItem =
  item_key :: bytes
  item_value :: bytes

text \<open>Value initialisation, \<^verbatim>\<open>header{}\<close>, \<^verbatim>\<open>LeafNode{}\<close> and \<^verbatim>\<open>InternalNode{}\<close>.\<close>

definition Header_init :: "Config \<Rightarrow> Header" where
  "Header_init c = \<lparr>lock = 0, level = 0, fence_lo = ArrayVar_default (KEY_SIZE c),
     fence_hi = ArrayVar_default (KEY_SIZE c), last_index = 0\<rparr>"

definition LeafNode_init :: "Config \<Rightarrow> LeafNode" where
  "LeafNode_init c =
     \<lparr>leaf_header = Header_init c,
      kv_blocks = replicate (branch_factor c) (KVBlock_of (Fingerprint_of 0) (GlobalAddress_raw 0) True False)\<rparr>"

definition InternalEntry_init :: "Config \<Rightarrow> InternalEntry" where
  "InternalEntry_init c = \<lparr>entry_key = ArrayVar_default (KEY_SIZE c), entry_child = GlobalAddress_raw 0\<rparr>"

definition InternalNode_init :: "Config \<Rightarrow> InternalNode" where
  "InternalNode_init c =
     \<lparr>node_header = Header_init c, entries = replicate (branch_factor c) (InternalEntry_init c)\<rparr>"

subsection \<open>Sizes and offsets\<close>

definition header_pad :: "Config \<Rightarrow> nat" where
  "header_pad c = (8 - (2 * KEY_SIZE c) mod 8) mod 8"

definition sizeof_Header :: "Config \<Rightarrow> nat" where
  "sizeof_Header c = 16 + 2 * KEY_SIZE c + header_pad c + 8"

definition sizeof_LeafNode :: "Config \<Rightarrow> nat" where
  "sizeof_LeafNode c = sizeof_Header c + 8 * branch_factor c"

definition sizeof_InternalEntry :: "Config \<Rightarrow> nat" where
  "sizeof_InternalEntry c = KEY_SIZE c + 8"

definition node_pad :: "Config \<Rightarrow> nat" where
  "node_pad c = (8 - (branch_factor c * sizeof_InternalEntry c) mod 8) mod 8"

definition sizeof_InternalNode :: "Config \<Rightarrow> nat" where
  "sizeof_InternalNode c = sizeof_Header c + branch_factor c * sizeof_InternalEntry c + node_pad c"

definition sizeof_KVItem :: "Config \<Rightarrow> nat" where
  "sizeof_KVItem c = KEY_SIZE c + VALUE_SIZE c"

text \<open>\<^verbatim>\<open>OFFSET_OF_ARRAY_ELEM(LeafNode, kv_blocks, index)\<close> and the address of a slot and of the lock.\<close>

definition offset_of_kv_block :: "Config \<Rightarrow> nat \<Rightarrow> nat" where
  "offset_of_kv_block c index = sizeof_Header c + 8 * index"

definition kvblock_address :: "Config \<Rightarrow> GlobalAddress \<Rightarrow> nat \<Rightarrow> GlobalAddress" where
  "kvblock_address c leaf_address index = gaddr_add leaf_address (of_nat (offset_of_kv_block c index))"

definition lock_address :: "GlobalAddress \<Rightarrow> GlobalAddress" where
  "lock_address node_address = gaddr_add node_address 0"

definition get_required_sizes :: "Config \<Rightarrow> nat set" where
  "get_required_sizes c =
     {8, VALUE_SIZE c, sizeof_LeafNode c, sizeof_InternalNode c, sizeof_KVItem c}"

subsection \<open>Images in memory\<close>

definition enc_header :: "Config \<Rightarrow> Header \<Rightarrow> bytes" where
  "enc_header c h = bytes_of_u64 (lock h) @ bytes_of_u64 (level h) @ fence_lo h @ fence_hi h @
     replicate (header_pad c) 0 @ bytes_of_u64 (last_index h)"

definition dec_header :: "Config \<Rightarrow> bytes \<Rightarrow> Header" where
  "dec_header c bs =
     \<lparr>lock = u64_of_bytes (bslice 0 8 bs), level = u64_of_bytes (bslice 8 8 bs),
      fence_lo = bslice 16 (KEY_SIZE c) bs, fence_hi = bslice (16 + KEY_SIZE c) (KEY_SIZE c) bs,
      last_index = u64_of_bytes (bslice (16 + 2 * KEY_SIZE c + header_pad c) 8 bs)\<rparr>"

definition enc_leaf :: "Config \<Rightarrow> LeafNode \<Rightarrow> bytes" where
  "enc_leaf c l = enc_header c (leaf_header l) @ concat (map bytes_of_u64 (kv_blocks l))"

definition dec_leaf :: "Config \<Rightarrow> bytes \<Rightarrow> LeafNode" where
  "dec_leaf c bs =
     \<lparr>leaf_header = dec_header c bs,
      kv_blocks = map (\<lambda>i. u64_of_bytes (bslice (offset_of_kv_block c i) 8 bs)) [0..<branch_factor c]\<rparr>"

definition enc_entry :: "InternalEntry \<Rightarrow> bytes" where
  "enc_entry e = entry_key e @ bytes_of_u64 (uintptr (entry_child e))"

definition dec_entry :: "Config \<Rightarrow> bytes \<Rightarrow> InternalEntry" where
  "dec_entry c bs = \<lparr>entry_key = bslice 0 (KEY_SIZE c) bs,
     entry_child = GlobalAddress_raw (u64_of_bytes (bslice (KEY_SIZE c) 8 bs))\<rparr>"

definition enc_node :: "Config \<Rightarrow> InternalNode \<Rightarrow> bytes" where
  "enc_node c n = enc_header c (node_header n) @ concat (map enc_entry (entries n)) @ replicate (node_pad c) 0"

definition dec_node :: "Config \<Rightarrow> bytes \<Rightarrow> InternalNode" where
  "dec_node c bs =
     \<lparr>node_header = dec_header c bs,
      entries = map (\<lambda>i. dec_entry c (bslice (sizeof_Header c + i * sizeof_InternalEntry c) (sizeof_InternalEntry c) bs))
        [0..<branch_factor c]\<rparr>"

definition enc_item :: "KVItem \<Rightarrow> bytes" where
  "enc_item it = item_key it @ item_value it"

definition dec_item :: "Config \<Rightarrow> bytes \<Rightarrow> KVItem" where
  "dec_item c bs = \<lparr>item_key = bslice 0 (KEY_SIZE c) bs, item_value = bslice (KEY_SIZE c) (VALUE_SIZE c) bs\<rparr>"

subsection \<open>Shape of the objects\<close>

definition header_wf :: "Config \<Rightarrow> Header \<Rightarrow> bool" where
  "header_wf c h \<longleftrightarrow> length (fence_lo h) = KEY_SIZE c \<and> length (fence_hi h) = KEY_SIZE c"

definition leaf_wf :: "Config \<Rightarrow> LeafNode \<Rightarrow> bool" where
  "leaf_wf c l \<longleftrightarrow> header_wf c (leaf_header l) \<and> length (kv_blocks l) = branch_factor c"

definition node_wf :: "Config \<Rightarrow> InternalNode \<Rightarrow> bool" where
  "node_wf c n \<longleftrightarrow> header_wf c (node_header n) \<and> length (entries n) = branch_factor c \<and>
     (\<forall>e \<in> set (entries n). length (entry_key e) = KEY_SIZE c)"

definition item_wf :: "Config \<Rightarrow> KVItem \<Rightarrow> bool" where
  "item_wf c it \<longleftrightarrow> length (item_key it) = KEY_SIZE c \<and> length (item_value it) = VALUE_SIZE c"

subsection \<open>Round trips\<close>

lemma length_concat_uniform: "(\<And>x. x \<in> set xs \<Longrightarrow> length x = n) \<Longrightarrow> length (concat xs) = length xs * n"
  by (induction xs) simp_all

lemma length_concat_u64: "length (concat (map bytes_of_u64 xs)) = 8 * length xs"
  by (induction xs) simp_all

lemma bslice_concat:
  assumes "\<And>x. x \<in> set xs \<Longrightarrow> length x = n" and "i < length xs"
  shows "bslice (i * n) n (concat xs) = xs ! i"
  using assms
proof (induction xs arbitrary: i)
  case (Cons x xs)
  then show ?case
    by (cases i) (auto simp: bslice_def)
qed simp

lemma length_enc_header: "header_wf c h \<Longrightarrow> length (enc_header c h) = sizeof_Header c"
  by (simp add: enc_header_def header_wf_def sizeof_Header_def)

lemma dec_enc_header:
  assumes "header_wf c h"
  shows "dec_header c (enc_header c h @ rest) = h"
  using assms
  by (simp add: dec_header_def enc_header_def header_wf_def byte_simps)

lemma length_enc_leaf: "leaf_wf c l \<Longrightarrow> length (enc_leaf c l) = sizeof_LeafNode c"
  by (simp add: enc_leaf_def leaf_wf_def length_enc_header sizeof_LeafNode_def length_concat_u64)

lemma dec_enc_leaf:
  assumes "leaf_wf c l"
  shows "dec_leaf c (enc_leaf c l @ rest) = l"
proof -
  have len: "length (enc_header c (leaf_header l)) = sizeof_Header c"
    using assms by (simp add: leaf_wf_def length_enc_header)
  have "u64_of_bytes (bslice (offset_of_kv_block c i) 8 (enc_leaf c l @ rest)) = kv_blocks l ! i"
    if i: "i < length (kv_blocks l)" for i
  proof -
    let ?bs = "concat (map bytes_of_u64 (kv_blocks l))"
    have lb: "length ?bs = length (kv_blocks l) * 8" by (subst length_concat_uniform [where n = 8]) auto
    have "bslice (offset_of_kv_block c i) 8 (enc_leaf c l @ rest) = bslice (i * 8) 8 (?bs @ rest)"
      by (simp add: enc_leaf_def offset_of_kv_block_def len bslice_append_right mult.commute)
    also have "\<dots> = bslice (i * 8) 8 ?bs"
      using i lb by (intro bslice_append_left) simp
    also have "\<dots> = bytes_of_u64 (kv_blocks l ! i)"
      using i by (subst bslice_concat) auto
    finally show ?thesis by simp
  qed
  then have "map (\<lambda>i. u64_of_bytes (bslice (offset_of_kv_block c i) 8 (enc_leaf c l @ rest))) [0..<branch_factor c] = kv_blocks l"
    using assms by (intro nth_equalityI) (auto simp: leaf_wf_def)
  moreover have "dec_header c (enc_leaf c l @ rest) = leaf_header l"
    using assms by (simp add: enc_leaf_def leaf_wf_def dec_enc_header)
  ultimately show ?thesis by (simp add: dec_leaf_def)
qed

lemma length_enc_entry: "length (entry_key e) = KEY_SIZE c \<Longrightarrow> length (enc_entry e) = sizeof_InternalEntry c"
  by (simp add: enc_entry_def sizeof_InternalEntry_def)

lemma dec_enc_entry: "length (entry_key e) = KEY_SIZE c \<Longrightarrow> dec_entry c (enc_entry e) = e"
  by (simp add: dec_entry_def enc_entry_def byte_simps)

lemma length_enc_node:
  assumes "node_wf c n"
  shows "length (enc_node c n) = sizeof_InternalNode c"
proof -
  have "length (concat (map enc_entry (entries n))) = length (map enc_entry (entries n)) * sizeof_InternalEntry c"
    using assms by (intro length_concat_uniform) (auto simp: node_wf_def length_enc_entry)
  then show ?thesis
    using assms by (simp add: enc_node_def node_wf_def length_enc_header sizeof_InternalNode_def)
qed

lemma dec_enc_node:
  assumes "node_wf c n"
  shows "dec_node c (enc_node c n @ rest) = n"
proof -
  let ?s = "sizeof_InternalEntry c"
  have len: "length (enc_header c (node_header n)) = sizeof_Header c"
    using assms by (simp add: node_wf_def length_enc_header)
  have uni: "length x = ?s" if "x \<in> set (map enc_entry (entries n))" for x
    using that assms by (auto simp: node_wf_def length_enc_entry)
  have "dec_entry c (bslice (sizeof_Header c + i * ?s) ?s (enc_node c n @ rest)) = entries n ! i"
    if i: "i < length (entries n)" for i
  proof -
    let ?bs = "concat (map enc_entry (entries n))"
    have "length ?bs = length (entries n) * ?s" using length_concat_uniform [of "map enc_entry (entries n)", OF uni] by simp
    moreover have "i * ?s + ?s \<le> length (entries n) * ?s"
      using i by (metis Suc_leI add.commute mult_Suc mult_le_mono1)
    ultimately have "i * ?s + ?s \<le> length ?bs" by simp
    then have "bslice (sizeof_Header c + i * ?s) ?s (enc_node c n @ rest) = bslice (i * ?s) ?s ?bs"
      by (simp add: enc_node_def len bslice_append_right bslice_append_left)
    also have "\<dots> = enc_entry (entries n ! i)"
      using i uni by (subst bslice_concat) auto
    finally show ?thesis using i assms by (simp add: node_wf_def dec_enc_entry)
  qed
  then have "map (\<lambda>i. dec_entry c (bslice (sizeof_Header c + i * ?s) ?s (enc_node c n @ rest))) [0..<branch_factor c] = entries n"
    using assms by (intro nth_equalityI) (auto simp: node_wf_def)
  moreover have "dec_header c (enc_node c n @ rest) = node_header n"
    using assms by (simp add: enc_node_def node_wf_def dec_enc_header)
  ultimately show ?thesis by (simp add: dec_node_def)
qed

lemma length_enc_item: "item_wf c it \<Longrightarrow> length (enc_item it) = sizeof_KVItem c"
  by (simp add: enc_item_def item_wf_def sizeof_KVItem_def)

lemma dec_enc_item: "item_wf c it \<Longrightarrow> dec_item c (enc_item it @ rest) = it"
  by (simp add: dec_item_def enc_item_def item_wf_def byte_simps)

subsection \<open>Objects in remote memory\<close>

definition leaf_at :: "Config \<Rightarrow> rmemory \<Rightarrow> GlobalAddress \<Rightarrow> LeafNode" where
  "leaf_at c r g = dec_leaf c (rm_load r g (sizeof_LeafNode c))"

definition node_at :: "Config \<Rightarrow> rmemory \<Rightarrow> GlobalAddress \<Rightarrow> InternalNode" where
  "node_at c r g = dec_node c (rm_load r g (sizeof_InternalNode c))"

definition item_at :: "Config \<Rightarrow> rmemory \<Rightarrow> GlobalAddress \<Rightarrow> KVItem" where
  "item_at c r g = dec_item c (rm_load r g (sizeof_KVItem c))"

text \<open>The offset of an address has 42 bits; larger regions could not be addressed.\<close>

definition rm_small :: "rmemory \<Rightarrow> bool" where
  "rm_small r \<longleftrightarrow> (\<forall>mem \<in> set r. length mem \<le> 2 ^ 42)"

lemma rm_small_ok: "rm_small r \<Longrightarrow> rm_ok r"
  by (auto simp: rm_small_def rm_ok_def mem_ok_def)

lemma rm_small_store:
  assumes "rm_valid r g (length bs)"
  shows "rm_small (rm_store r g bs) = rm_small r"
proof -
  have "length (rm_store r g bs ! i) = length (r ! i)" if "i < length r" for i
    using assms that by (auto simp: rm_store_def rm_valid_def nth_list_update length_bsplice)
  then show ?thesis by (simp add: rm_small_def all_set_conv_all_nth rm_store_def)
qed

lemma sub_address:
  assumes "rm_small r" and "rm_valid r g m" and "n + k \<le> m" and "0 < k"
  shows "server_index (gaddr_add g (of_nat n)) = server_index g"
    and "unat (gaddr_offset (gaddr_add g (of_nat n))) = unat (gaddr_offset g) + n"
proof -
  have "length (r ! unat (server_index g)) \<le> 2 ^ 42"
    using assms(1,2) by (simp add: rm_small_def rm_valid_def)
  then have room: "unat (gaddr_offset g) + n < 2 ^ 42"
    using assms(2,3,4) unfolding rm_valid_def by linarith
  then have n: "unat (of_nat n :: u64) = n" by (simp add: unat_of_nat)
  show "server_index (gaddr_add g (of_nat n)) = server_index g"
    by (rule server_index_gaddr_add) (use room n in simp)
  show "unat (gaddr_offset (gaddr_add g (of_nat n))) = unat (gaddr_offset g) + n"
    using gaddr_offset_gaddr_add [of g "of_nat n"] room n by simp
qed

lemma sub_valid:
  assumes "rm_small r" and "rm_valid r g m" and "n + k \<le> m" and "0 < k"
  shows "rm_valid r (gaddr_add g (of_nat n)) k"
  using assms sub_address [OF assms] by (simp add: rm_valid_def)

lemma sub_load:
  assumes "rm_small r" and "rm_valid r g m" and "n + k \<le> m" and "0 < k"
  shows "rm_load r (gaddr_add g (of_nat n)) k = bslice n k (rm_load r g m)"
  using assms sub_address [OF assms] by (simp add: rm_load_def bslice_bslice)

lemma sub_store:
  assumes "rm_small r" and "rm_valid r g m" and "n + length bs \<le> m" and "0 < length bs"
  shows "rm_load (rm_store r (gaddr_add g (of_nat n)) bs) g m = bsplice n bs (rm_load r g m)"
proof -
  let ?mem = "r ! unat (server_index g)" and ?o = "unat (gaddr_offset g)"
  have v: "?o + m \<le> length ?mem" "unat (server_index g) < length r" using assms(2) by (simp_all add: rm_valid_def)
  have "bslice ?o m (bsplice (?o + n) bs ?mem) = bsplice n bs (bslice ?o m ?mem)"
  proof (rule nth_equalityI)
    show "length (bslice ?o m (bsplice (?o + n) bs ?mem)) = length (bsplice n bs (bslice ?o m ?mem))"
      using v assms(3) by (simp add: length_bslice length_bsplice)
    fix i assume "i < length (bslice ?o m (bsplice (?o + n) bs ?mem))"
    then have "i < m" using v assms(3) by (simp add: length_bslice length_bsplice)
    then show "bslice ?o m (bsplice (?o + n) bs ?mem) ! i = bsplice n bs (bslice ?o m ?mem) ! i"
      using v assms(3) by (simp add: nth_bslice nth_bsplice length_bsplice length_bslice)
  qed
  then show ?thesis
    using v sub_address [OF assms] by (simp add: rm_load_def rm_store_def)
qed

lemmas sub_object = sub_valid sub_load sub_store

subsection \<open>Slots and locks of a node in remote memory\<close>

lemma length_dec_leaf [simp]: "length (kv_blocks (dec_leaf c bs)) = branch_factor c"
  by (simp add: dec_leaf_def)

lemma length_dec_node [simp]: "length (entries (dec_node c bs)) = branch_factor c"
  by (simp add: dec_node_def)

lemma slot_in_leaf: "i < branch_factor c \<Longrightarrow> offset_of_kv_block c i + 8 \<le> sizeof_LeafNode c"
  by (simp add: offset_of_kv_block_def sizeof_LeafNode_def)

lemma header_fits:
  "8 \<le> sizeof_Header c" "16 \<le> sizeof_Header c" "sizeof_Header c \<le> sizeof_LeafNode c"
  "sizeof_Header c \<le> sizeof_InternalNode c"
  by (simp_all add: sizeof_Header_def sizeof_LeafNode_def sizeof_InternalNode_def)

lemma dec_header_cong:
  "(\<And>a n. a + n \<le> sizeof_Header c \<Longrightarrow> bslice a n bs = bslice a n bs') \<Longrightarrow> dec_header c bs = dec_header c bs'"
  by (simp add: dec_header_def sizeof_Header_def)

lemma dec_header_slot:
  assumes "length bs = sizeof_LeafNode c" and "i < branch_factor c"
  shows "dec_header c (bsplice (offset_of_kv_block c i) (bytes_of_u64 v) bs) = dec_header c bs"
  using assms slot_in_leaf [OF assms(2)]
  by (intro dec_header_cong bslice_bsplice_disjoint)
     (auto simp: offset_of_kv_block_def sizeof_LeafNode_def)

lemma dec_leaf_slot_update:
  assumes "length bs = sizeof_LeafNode c" and "i < branch_factor c"
  shows "dec_leaf c (bsplice (offset_of_kv_block c i) (bytes_of_u64 v) bs) =
    (dec_leaf c bs)\<lparr>kv_blocks := (kv_blocks (dec_leaf c bs))[i := v]\<rparr>"
proof -
  let ?bs' = "bsplice (offset_of_kv_block c i) (bytes_of_u64 v) bs"
  have "u64_of_bytes (bslice (offset_of_kv_block c j) 8 ?bs') =
      (kv_blocks (dec_leaf c bs))[i := v] ! j" if j: "j < branch_factor c" for j
  proof (cases "j = i")
    case True
    then show ?thesis
      using assms j slot_in_leaf [OF j] by (simp add: bslice_bsplice_same)
  next
    case False
    then have "offset_of_kv_block c j + 8 \<le> offset_of_kv_block c i \<or>
        offset_of_kv_block c i + 8 \<le> offset_of_kv_block c j"
      by (auto simp: offset_of_kv_block_def)
    then show ?thesis
      using assms j False slot_in_leaf [OF j] slot_in_leaf [OF assms(2)]
      by (simp add: bslice_bsplice_disjoint dec_leaf_def)
  qed
  then have "map (\<lambda>j. u64_of_bytes (bslice (offset_of_kv_block c j) 8 ?bs')) [0..<branch_factor c] =
      (kv_blocks (dec_leaf c bs))[i := v]"
    by (intro nth_equalityI) simp_all
  then show ?thesis
    using dec_header_slot [OF assms, of v] by (simp add: dec_leaf_def)
qed

lemma slot_valid:
  "rm_small r \<Longrightarrow> rm_valid r g (sizeof_LeafNode c) \<Longrightarrow> i < branch_factor c \<Longrightarrow> rm_valid r (kvblock_address c g i) 8"
  unfolding kvblock_address_def by (rule sub_valid [OF _ _ slot_in_leaf]) simp_all

lemma slot_load:
  assumes "rm_small r" and "rm_valid r g (sizeof_LeafNode c)" and "i < branch_factor c"
  shows "rm_load64 r (kvblock_address c g i) = kv_blocks (leaf_at c r g) ! i"
  using assms sub_load [OF assms(1,2) slot_in_leaf [OF assms(3)]]
  by (simp add: rm_load64_def kvblock_address_def leaf_at_def dec_leaf_def)

lemma slot_store:
  assumes "rm_small r" and "rm_valid r g (sizeof_LeafNode c)" and "i < branch_factor c"
  shows "leaf_at c (rm_store r (kvblock_address c g i) (bytes_of_u64 v)) g =
    (leaf_at c r g)\<lparr>kv_blocks := (kv_blocks (leaf_at c r g))[i := v]\<rparr>"
  using assms sub_store [OF assms(1,2), of "offset_of_kv_block c i" "bytes_of_u64 v"] slot_in_leaf [OF assms(3)]
    rm.length_load [OF assms(2)]
  by (simp add: leaf_at_def kvblock_address_def dec_leaf_slot_update)

lemma gaddr_add_0 [simp]: "gaddr_add g 0 = g"
  by (simp add: gaddr_add_def)

lemma lock_address_eq [simp]: "lock_address g = g"
  by (simp add: lock_address_def)

lemma leaf_lock_load:
  assumes "rm_valid r g (sizeof_LeafNode c)"
  shows "rm_load64 r g = lock (leaf_header (leaf_at c r g))"
proof -
  have "8 \<le> sizeof_LeafNode c" using header_fits(1,3) [of c] by linarith
  then show ?thesis
    by (simp add: rm_load64_def leaf_at_def dec_leaf_def dec_header_def rm_load_def bslice_bslice)
qed

lemma node_lock_load:
  assumes "rm_valid r g (sizeof_InternalNode c)"
  shows "rm_load64 r g = lock (node_header (node_at c r g))"
proof -
  have "8 \<le> sizeof_InternalNode c" using header_fits(1,4) [of c] by linarith
  then show ?thesis
    by (simp add: rm_load64_def node_at_def dec_node_def dec_header_def rm_load_def bslice_bslice)
qed

text \<open>A leaf read as an internal node shows the same header (\<^verbatim>\<open>find_node\<close> relies on it).\<close>

lemma node_header_of_leaf: "node_header (node_at c r g) = leaf_header (leaf_at c r g)"
proof -
  have "bslice a n (rm_load r g (sizeof_InternalNode c)) = bslice a n (rm_load r g (sizeof_LeafNode c))"
    if "a + n \<le> sizeof_Header c" for a n
    using that header_fits(3,4) [of c] by (simp add: rm_load_def bslice_bslice)
  then have "dec_header c (rm_load r g (sizeof_InternalNode c)) = dec_header c (rm_load r g (sizeof_LeafNode c))"
    by (rule dec_header_cong)
  then show ?thesis by (simp add: node_at_def leaf_at_def dec_node_def dec_leaf_def)
qed

lemma leaf_at_store:
  assumes "rm_valid r g (sizeof_LeafNode c)" and "leaf_wf c l"
  shows "leaf_at c (rm_store r g (enc_leaf c l)) g = l"
  unfolding leaf_at_def
  by (rule rm.object_roundtrip) (use assms dec_enc_leaf [OF assms(2), of "[]"] in \<open>simp_all add: length_enc_leaf\<close>)

lemma node_at_store:
  assumes "rm_valid r g (sizeof_InternalNode c)" and "node_wf c n"
  shows "node_at c (rm_store r g (enc_node c n)) g = n"
  unfolding node_at_def
  by (rule rm.object_roundtrip) (use assms dec_enc_node [OF assms(2), of "[]"] in \<open>simp_all add: length_enc_node\<close>)

lemma item_at_store:
  assumes "rm_valid r g (sizeof_KVItem c)" and "item_wf c it"
  shows "item_at c (rm_store r g (enc_item it)) g = it"
  unfolding item_at_def
  by (rule rm.object_roundtrip) (use assms dec_enc_item [OF assms(2), of "[]"] in \<open>simp_all add: length_enc_item\<close>)

end
