(* ===== verification/Faunus_Node.thy ===== *)
theory Faunus_Node
  imports Faunus_Layout
begin

text \<open>
  The computations of \<^verbatim>\<open>src/src/kv_index/faunus_index.cpp\<close> on nodes that a client holds in its own
  memory, for internal nodes: choosing the child to descend to, inserting a separator and splitting
  a full node. \<open>route\<close> and the lists of separators and children are the abstract view: the
  lemmas say what the index computations on arrays do to these lists, and \<open>node_ok\<close> is the invariant.
\<close>

subsection \<open>Choosing a child\<close>

text \<open>
  The loop of \<^verbatim>\<open>find_node\<close> over the entries up to \<^verbatim>\<open>last_index\<close>. It reads past the array when no
  entry up to its end exceeds the key and \<^verbatim>\<open>last_index\<close> is not less than the branch factor.
\<close>

definition next_child :: "bytes \<Rightarrow> InternalNode \<Rightarrow> err + GlobalAddress" where
  "next_child key node =
     (let li = unat (last_index (node_header node)) in
      case find (\<lambda>e. key_lt key (entry_key e)) (take (Suc li) (entries node)) of
        Some e \<Rightarrow> Inr (entry_child e)
      | None \<Rightarrow> if li < length (entries node) then Inr (entry_child (entries node ! li))
                else Inl UndefinedBehaviour)"

subsection \<open>Inserting a separator\<close>

definition has_separator :: "bytes \<Rightarrow> InternalNode \<Rightarrow> bool" where
  "has_separator key node =
     list_ex (\<lambda>e. key_eq (entry_key e) key) (rev (take (Suc (unat (last_index (node_header node)))) (entries node)))"

definition insert_position :: "bytes \<Rightarrow> nat \<Rightarrow> InternalEntry list \<Rightarrow> nat" where
  "insert_position key li es =
     (case find (\<lambda>i. key_lt (entry_key (es ! i)) key) (rev [0..<li]) of Some i \<Rightarrow> Suc i | None \<Rightarrow> 0)"

text \<open>
  The loop that moves keys and children to the right, from \<open>i\<close> down to the position of the new
  entry. With the position 0 its last iteration reads \<^verbatim>\<open>entries[-1].key\<close>, outside of the array;
  \<open>oob\<close> is whatever it finds there.
\<close>

fun shift_entries :: "bytes \<Rightarrow> nat \<Rightarrow> nat \<Rightarrow> InternalEntry list \<Rightarrow> InternalEntry list" where
  "shift_entries oob index 0 es = es"
| "shift_entries oob index (Suc j) es =
     (if Suc j > index
      then let k = (if 1 \<le> j then entry_key (es ! (j - 1)) else oob);
               es1 = es[j := (es ! j)\<lparr>entry_key := k\<rparr>];
               es2 = es1[Suc j := (es1 ! Suc j)\<lparr>entry_child := entry_child (es1 ! j)\<rparr>]
           in shift_entries oob index j es2
      else es)"

definition place_entry :: "nat \<Rightarrow> bytes \<Rightarrow> GlobalAddress \<Rightarrow> InternalEntry list \<Rightarrow> InternalEntry list" where
  "place_entry index key child es =
     (let es1 = es[Suc index := (es ! Suc index)\<lparr>entry_child := child\<rparr>]
      in es1[index := (es1 ! index)\<lparr>entry_key := key\<rparr>])"

definition insert_entry :: "bytes \<Rightarrow> bytes \<Rightarrow> GlobalAddress \<Rightarrow> InternalNode \<Rightarrow> InternalNode" where
  "insert_entry oob key child node =
     (let li = unat (last_index (node_header node));
          index = insert_position key li (entries node)
      in node\<lparr>entries := place_entry index key child (shift_entries oob index (Suc li) (entries node)),
              node_header := (node_header node)\<lparr>last_index := last_index (node_header node) + 1\<rparr>\<rparr>)"

subsection \<open>Splitting an internal node\<close>

definition split_entries :: "Config \<Rightarrow> bytes \<Rightarrow> bytes \<Rightarrow> GlobalAddress \<Rightarrow> InternalNode \<Rightarrow> InternalEntry list" where
  "split_entries c oob key child node =
     (let li = unat (last_index (node_header node));
          es = take (Suc li) (entries node) @ [InternalEntry_init c];
          index = insert_position key li (entries node)
      in place_entry index key child (shift_entries oob index (length es - 1) es))"

text \<open>The halves: \<open>(middle key, new right node, old node as left half)\<close>, for the list \<open>es\<close> above.\<close>

definition split_node :: "Config \<Rightarrow> InternalEntry list \<Rightarrow> InternalNode \<Rightarrow> err + (bytes \<times> InternalNode \<times> InternalNode)" where
  "split_node c es node =
     (let bf = branch_factor c; middle = bf div 2; middle_key = entry_key (es ! middle);
          right_es = fold (\<lambda>i r. r[i - middle - 1 := es ! i]) [Suc middle..<length es] (entries (InternalNode_init c));
          left_es = fold (\<lambda>i l. if i < bf then l[i := InternalEntry_init c] else l) [Suc middle..<length es] (entries node);
          left_es' = fold (\<lambda>i l. l[i := es ! i]) [0..<Suc middle] left_es
      in if length es \<noteq> Suc bf then Inl AssertionFailed
         else if \<not> middle < bf - 1 then Inl AssertionFailed
         else Inr (middle_key,
           \<lparr>node_header = (Header_init c)\<lparr>level := level (node_header node),
               last_index := of_nat (bf - middle - 1), fence_lo := middle_key, fence_hi := fence_hi (node_header node)\<rparr>,
            entries = right_es\<rparr>,
           \<lparr>node_header = (node_header node)\<lparr>last_index := of_nat middle, fence_hi := middle_key\<rparr>,
            entries = left_es'\<rparr>))"

subsection \<open>Separators, children and routing\<close>

definition separators :: "InternalNode \<Rightarrow> bytes list" where
  "separators n = map entry_key (take (unat (last_index (node_header n))) (entries n))"

definition children :: "InternalNode \<Rightarrow> GlobalAddress list" where
  "children n = map entry_child (take (Suc (unat (last_index (node_header n)))) (entries n))"

definition rank :: "bytes list \<Rightarrow> bytes \<Rightarrow> nat" where
  "rank ss k = length (filter (\<lambda>s. be_val s \<le> be_val k) ss)"

definition route :: "bytes list \<Rightarrow> GlobalAddress list \<Rightarrow> bytes \<Rightarrow> GlobalAddress" where
  "route ss cs k = cs ! rank ss k"

definition node_ok :: "Config \<Rightarrow> InternalNode \<Rightarrow> bool" where
  "node_ok c n \<longleftrightarrow> node_wf c n \<and> unat (last_index (node_header n)) < branch_factor c \<and>
     sorted_wrt (<) (map be_val (separators n)) \<and>
     (\<forall>s \<in> set (separators n). be_val (fence_lo (node_header n)) < be_val s \<and> be_val s < be_val (fence_hi (node_header n)))"

text \<open>
  The keys that are stored from \<^verbatim>\<open>last_index\<close> on are not separators: they are zero, or left over from a split and
  not below the upper fence. The search for an existing separator looks at one of them.
\<close>

definition spare_ok :: "InternalNode \<Rightarrow> bool" where
  "spare_ok n \<longleftrightarrow> (\<forall>e \<in> set (drop (unat (last_index (node_header n))) (entries n)).
     be_val (entry_key e) = 0 \<or> be_val (fence_hi (node_header n)) \<le> be_val (entry_key e))"

definition insert_at :: "nat \<Rightarrow> 'a \<Rightarrow> 'a list \<Rightarrow> 'a list" where
  "insert_at i x xs = take i xs @ x # drop i xs"

lemma length_insert_at [simp]: "i \<le> length xs \<Longrightarrow> length (insert_at i x xs) = Suc (length xs)"
  by (simp add: insert_at_def)

lemma nth_insert_at:
  "i \<le> length xs \<Longrightarrow> p \<le> length xs \<Longrightarrow>
   insert_at i x xs ! p = (if p < i then xs ! p else if p = i then x else xs ! (p - 1))"
  by (auto simp: insert_at_def nth_append nth_Cons')

lemma set_insert_at: "set (insert_at i x xs) = insert x (set xs)"
proof -
  have "set xs = set (take i xs) \<union> set (drop i xs)" by (metis append_take_drop_id set_append)
  then show ?thesis by (auto simp: insert_at_def)
qed

lemma rank_le: "rank ss k \<le> length ss"
  by (simp add: rank_def)

lemma sorted_rank_nth:
  assumes "sorted_wrt (<) (map be_val ss)" and "i < length ss"
  shows "be_val (ss ! i) \<le> be_val k \<longleftrightarrow> i < rank ss k"
  using assms
proof (induction ss arbitrary: i)
  case (Cons s ss)
  show ?case
  proof (cases "be_val s \<le> be_val k")
    case True
    then show ?thesis using Cons by (cases i) (auto simp: rank_def)
  next
    case False
    then have "\<forall>x \<in> set ss. \<not> be_val x \<le> be_val k" using Cons.prems(1) by (auto simp: not_le)
    then have "rank (s # ss) k = 0" using False by (simp add: rank_def filter_empty_conv)
    moreover have "\<not> be_val ((s # ss) ! i) \<le> be_val k"
      using False \<open>\<forall>x \<in> set ss. _\<close> Cons.prems(2) by (cases i) auto
    ultimately show ?thesis by simp
  qed
qed simp

lemma find_first:
  "j < length xs \<Longrightarrow> P (xs ! j) \<Longrightarrow> (\<And>i. i < j \<Longrightarrow> \<not> P (xs ! i)) \<Longrightarrow> find P xs = Some (xs ! j)"
  by (auto simp: find_Some_iff)

lemma next_child_route:
  assumes "node_ok c n" and "length k = KEY_SIZE c"
  shows "next_child k n = Inr (route (separators n) (children n) k)"
proof -
  let ?li = "unat (last_index (node_header n))" and ?es = "entries n"
  let ?P = "\<lambda>e. key_lt k (entry_key e)"
  have li: "?li < length ?es" and keys: "\<And>i. i < length ?es \<Longrightarrow> length (entry_key (?es ! i)) = KEY_SIZE c"
    and sorted: "sorted_wrt (<) (map be_val (separators n))"
    using assms(1) by (auto simp: node_ok_def node_wf_def)
  have lt: "?P (?es ! i) \<longleftrightarrow> \<not> be_val (entry_key (?es ! i)) \<le> be_val k" if "i < length ?es" for i
    using keys [OF that] assms(2) by (simp add: key_lt_iff not_le)
  have sep: "separators n ! i = entry_key (?es ! i)" if "i < ?li" for i
    using that li by (simp add: separators_def)
  have len: "length (separators n) = ?li" using li by (simp add: separators_def)
  let ?j = "rank (separators n) k"
  have j: "?j \<le> ?li" using rank_le [of "separators n" k] len by simp
  have before: "\<not> ?P (take (Suc ?li) ?es ! i)" if "i < ?j" for i
    using that j li sorted_rank_nth [OF sorted, of i k] len sep [of i] lt [of i] by simp
  have child: "route (separators n) (children n) k = entry_child (?es ! ?j)"
    using j li by (simp add: route_def children_def)
  show ?thesis
  proof (cases "?P (take (Suc ?li) ?es ! ?j)")
    case True
    have "find ?P (take (Suc ?li) ?es) = Some (take (Suc ?li) ?es ! ?j)"
      by (rule find_first [of ?j "take (Suc ?li) ?es" ?P]) (use True before j li in simp_all)
    then show ?thesis using j li child by (simp add: next_child_def Let_def)
  next
    case False
    have "?j = ?li"
    proof (rule ccontr)
      assume "?j \<noteq> ?li"
      then have "?j < ?li" using j by simp
      then show False
        using False sorted_rank_nth [OF sorted, of ?j k] len sep [of ?j] lt [of ?j] li by simp
    qed
    then have "find ?P (take (Suc ?li) ?es) = None"
      using before False li by (auto simp: find_None_iff in_set_conv_nth less_Suc_eq)
    then show ?thesis using li child \<open>?j = ?li\<close> by (simp add: next_child_def Let_def)
  qed
qed

subsection \<open>Shifting and placing\<close>

lemma length_shift_entries [simp]: "length (shift_entries oob index m es) = length es"
  by (induction m arbitrary: es) (simp_all add: Let_def)

lemma shift_entries_nth:
  assumes "m < length es" and "index \<le> m" and "p < length es"
  shows "shift_entries oob index m es ! p =
    \<lparr>entry_key = (if index \<le> p \<and> p < m then if 1 \<le> p then entry_key (es ! (p - 1)) else oob else entry_key (es ! p)),
     entry_child = (if index < p \<and> p \<le> m then entry_child (es ! (p - 1)) else entry_child (es ! p))\<rparr>"
  using assms
proof (induction m arbitrary: es)
  case 0
  then show ?case by simp
next
  case (Suc j)
  show ?case
  proof (cases "index = Suc j")
    case True
    then show ?thesis by auto
  next
    case False
    then have ij: "index \<le> j" using Suc.prems(2) by simp
    define es1 where "es1 = es[j := (es ! j)\<lparr>entry_key := (if 1 \<le> j then entry_key (es ! (j - 1)) else oob)\<rparr>]"
    define es2 where "es2 = es1[Suc j := (es1 ! Suc j)\<lparr>entry_child := entry_child (es1 ! j)\<rparr>]"
    have es2: "es2 ! q = \<lparr>entry_key = (if q = j then if 1 \<le> j then entry_key (es ! (j - 1)) else oob else entry_key (es ! q)),
        entry_child = (if q = Suc j then entry_child (es ! j) else entry_child (es ! q))\<rparr>" if "q < length es" for q
      using that Suc.prems(1) by (auto simp: es2_def es1_def nth_list_update)
    have "shift_entries oob index (Suc j) es = shift_entries oob index j es2"
      using ij by (simp add: Let_def es2_def es1_def)
    moreover have "shift_entries oob index j es2 ! p =
      \<lparr>entry_key = (if index \<le> p \<and> p < j then if 1 \<le> p then entry_key (es2 ! (p - 1)) else oob else entry_key (es2 ! p)),
       entry_child = (if index < p \<and> p \<le> j then entry_child (es2 ! (p - 1)) else entry_child (es2 ! p))\<rparr>"
      by (rule Suc.IH) (use Suc.prems ij in \<open>simp_all add: es2_def es1_def\<close>)
    ultimately show ?thesis
      using Suc.prems ij es2 [of p] es2 [of "p - 1"] by auto
  qed
qed

lemma placed_nth:
  assumes "m < length es" and "index < m" and "p < length es"
  shows "place_entry index key child (shift_entries oob index m es) ! p =
    \<lparr>entry_key = (if p < index then entry_key (es ! p) else if p = index then key
        else if p < m then entry_key (es ! (p - 1)) else entry_key (es ! p)),
     entry_child = (if p \<le> index then entry_child (es ! p) else if p = Suc index then child
        else if p \<le> m then entry_child (es ! (p - 1)) else entry_child (es ! p))\<rparr>"
  using assms
  by (auto simp: place_entry_def Let_def nth_list_update shift_entries_nth)

lemma length_place_entry [simp]: "length (place_entry index key child es) = length es"
  by (simp add: place_entry_def Let_def)

lemma placed_keys:
  assumes "m < length es" and "index < m"
  shows "map entry_key (take m (place_entry index key child (shift_entries oob index m es))) =
    insert_at index key (map entry_key (take (m - 1) es))" (is "?l = ?r")
proof (rule nth_equalityI)
  show "length ?l = length ?r" using assms by simp
  fix p assume "p < length ?l"
  then have "p < m" using assms by simp
  then show "?l ! p = ?r ! p" using assms by (auto simp: placed_nth nth_insert_at)
qed

lemma placed_children:
  assumes "m < length es" and "index < m"
  shows "map entry_child (take (Suc m) (place_entry index key child (shift_entries oob index m es))) =
    insert_at (Suc index) child (map entry_child (take m es))" (is "?l = ?r")
proof (rule nth_equalityI)
  show "length ?l = length ?r" using assms by simp
  fix p assume "p < length ?l"
  then have "p \<le> m" using assms by simp
  then show "?l ! p = ?r ! p" using assms by (auto simp: placed_nth nth_insert_at)
qed


subsection \<open>Inserting keeps the order and redirects one range of keys\<close>

lemma insert_position_rank:
  assumes "sorted_wrt (<) (map be_val ss)" and "ss = map entry_key (take li es)" and "li \<le> length es"
    and "\<And>s. s \<in> set ss \<Longrightarrow> length s = length key" and "key \<notin> set ss"
  shows "insert_position key li es = rank ss key"
proof -
  let ?P = "\<lambda>i. key_lt (entry_key (es ! i)) key"
  have len: "length ss = li" using assms(2,3) by simp
  have P: "?P i \<longleftrightarrow> i < rank ss key" if "i < li" for i
  proof -
    have "ss ! i = entry_key (es ! i)" using that assms(2,3) by simp
    moreover have "ss ! i \<in> set ss" using that len by simp
    ultimately have "?P i \<longleftrightarrow> be_val (ss ! i) \<le> be_val key"
      using assms(4,5) be_val_inj [of "ss ! i" key] by (auto simp: key_lt_iff le_less)
    then show ?thesis using sorted_rank_nth [OF assms(1), of i key] that len by simp
  qed
  have r: "rank ss key \<le> li" using rank_le [of ss key] len by simp
  show ?thesis
  proof (cases "rank ss key")
    case 0
    then have "find ?P (rev [0..<li]) = None" using P by (auto simp: find_None_iff)
    then show ?thesis using 0 by (simp add: insert_position_def)
  next
    case (Suc j)
    have "find ?P (rev [0..<li]) = Some (rev [0..<li] ! (li - rank ss key))"
      by (rule find_first [of "li - rank ss key" "rev [0..<li]" ?P]) (use P r Suc in \<open>auto simp: rev_nth\<close>)
    moreover have "rev [0..<li] ! (li - rank ss key) = j" using r Suc by (simp add: rev_nth)
    ultimately show ?thesis using Suc by (simp add: insert_position_def)
  qed
qed

lemma sorted_insert_at:
  assumes "sorted_wrt (<) (map be_val ss)" and "\<And>s. s \<in> set ss \<Longrightarrow> be_val s \<noteq> be_val key"
  shows "sorted_wrt (<) (map be_val (insert_at (rank ss key) key ss))"
  using assms
proof (induction ss)
  case Nil
  then show ?case by (simp add: insert_at_def)
next
  case (Cons s ss)
  show ?case
  proof (cases "be_val s \<le> be_val key")
    case True
    then have "insert_at (rank (s # ss) key) key (s # ss) = s # insert_at (rank ss key) key ss"
      by (simp add: rank_def insert_at_def)
    moreover have "be_val s < be_val key" using True Cons.prems(2) [of s] by simp
    ultimately show ?thesis
      using Cons by (simp add: set_insert_at)
  next
    case False
    then have "\<forall>x \<in> set ss. \<not> be_val x \<le> be_val key" using Cons.prems(1) by auto
    then have "rank (s # ss) key = 0" using False by (simp add: rank_def filter_empty_conv)
    then show ?thesis using False Cons.prems(1) by (auto simp: insert_at_def)
  qed
qed

lemma rank_insert_at: "rank (insert_at i key ss) k = rank ss k + (if be_val key \<le> be_val k then 1 else 0)"
proof -
  have "rank ss k = rank (take i ss) k + rank (drop i ss) k"
    unfolding rank_def by (metis append_take_drop_id filter_append length_append)
  then show ?thesis by (simp add: insert_at_def rank_def)
qed

lemma rank_mono: "be_val k \<le> be_val k' \<Longrightarrow> rank ss k \<le> rank ss k'"
  unfolding rank_def by (induction ss) auto

text \<open>
  A separator \<open>key\<close> with the child \<open>new\<close> to its right takes over the keys from \<open>key\<close> on of the
  child that was responsible for \<open>key\<close>, and nothing else.
\<close>

lemma route_insert_at:
  assumes "rank ss key < length cs" and "rank ss k < length cs"
  shows "route (insert_at (rank ss key) key ss) (insert_at (Suc (rank ss key)) new cs) k =
    (if be_val key \<le> be_val k \<and> rank ss k = rank ss key then new else route ss cs k)"
proof (cases "be_val key \<le> be_val k")
  case True
  then have "rank ss key \<le> rank ss k" by (rule rank_mono)
  then show ?thesis
    using True assms by (auto simp: route_def rank_insert_at nth_insert_at)
next
  case False
  then have "rank ss k \<le> rank ss key" by (intro rank_mono) simp
  then show ?thesis
    using False assms by (auto simp: route_def rank_insert_at nth_insert_at)
qed

lemma node_parts:
  assumes "node_ok c n"
  shows "unat (last_index (node_header n)) < length (entries n)"
    and "length (separators n) = unat (last_index (node_header n))"
    and "length (children n) = Suc (unat (last_index (node_header n)))"
    and "\<And>s. s \<in> set (separators n) \<Longrightarrow> length s = KEY_SIZE c"
  using assms by (auto simp: node_ok_def node_wf_def separators_def children_def dest!: in_set_takeD)

lemma has_separator_iff:
  assumes "node_wf c n" and "length key = KEY_SIZE c"
  shows "has_separator key n \<longleftrightarrow> key \<in> entry_key ` set (take (Suc (unat (last_index (node_header n)))) (entries n))"
proof -
  have "key_eq (entry_key e) key \<longleftrightarrow> entry_key e = key" if "e \<in> set (take m (entries n))" for e m
    using assms in_set_takeD [OF that] by (auto simp: node_wf_def key_eq_iff)
  then show ?thesis by (auto simp: has_separator_def list_ex_iff image_iff)
qed

lemma not_has_separator:
  assumes "node_ok c n" and "length key = KEY_SIZE c" and "\<not> has_separator key n"
  shows "key \<notin> set (separators n)"
proof -
  have "set (take m (entries n)) \<subseteq> set (take (Suc m) (entries n))" for m by (simp add: set_take_subset_set_take)
  then show ?thesis
    using assms has_separator_iff [of c n key] by (auto simp: separators_def node_ok_def)
qed

lemma insert_entry_view:
  assumes ok: "node_ok c n" and key: "length key = KEY_SIZE c" "key \<notin> set (separators n)"
    and room: "Suc (unat (last_index (node_header n))) < branch_factor c" and bf: "branch_factor c \<le> 256"
  shows "unat (last_index (node_header (insert_entry oob key child n))) = Suc (unat (last_index (node_header n)))"
    and "separators (insert_entry oob key child n) =
      insert_at (rank (separators n) key) key (separators n)"
    and "children (insert_entry oob key child n) =
      insert_at (Suc (rank (separators n) key)) child (children n)"
proof -
  let ?li = "unat (last_index (node_header n))" and ?es = "entries n"
  have len: "length ?es = branch_factor c" using ok by (simp add: node_ok_def node_wf_def)
  have pos: "insert_position key ?li ?es = rank (separators n) key"
    using ok key node_parts(4) [OF ok] len room
    by (intro insert_position_rank) (auto simp: node_ok_def separators_def)
  have r: "rank (separators n) key < Suc ?li"
    using rank_le [of "separators n" key] node_parts(2) [OF ok] by simp
  show li: "unat (last_index (node_header (insert_entry oob key child n))) = Suc ?li"
    using room bf by (simp add: insert_entry_def Let_def unat_word_ariths)
  have es: "entries (insert_entry oob key child n) =
      place_entry (rank (separators n) key) key child (shift_entries oob (rank (separators n) key) (Suc ?li) ?es)"
    by (simp add: insert_entry_def Let_def pos)
  show "separators (insert_entry oob key child n) = insert_at (rank (separators n) key) key (separators n)"
    using placed_keys [of "Suc ?li" ?es "rank (separators n) key" key child oob] r room len
    by (simp add: separators_def [of "insert_entry oob key child n"] li es) (simp add: separators_def)
  show "children (insert_entry oob key child n) = insert_at (Suc (rank (separators n) key)) child (children n)"
    using placed_children [of "Suc ?li" ?es "rank (separators n) key" key child oob] r room len
    by (simp add: children_def [of "insert_entry oob key child n"] li es) (simp add: children_def)
qed

lemma placed_wf:
  assumes "\<forall>e \<in> set es. length (entry_key e) = K" and "length key = K" and "index < m" and "m < length es"
  shows "\<forall>e \<in> set (place_entry index key child (shift_entries oob index m es)). length (entry_key e) = K"
  using assms by (auto simp: all_set_conv_all_nth placed_nth)

lemma insert_entry_ok:
  assumes ok: "node_ok c n" and key: "length key = KEY_SIZE c" "key \<notin> set (separators n)"
    and room: "Suc (unat (last_index (node_header n))) < branch_factor c" and bf: "branch_factor c \<le> 256"
    and fence: "be_val (fence_lo (node_header n)) < be_val key" "be_val key < be_val (fence_hi (node_header n))"
  shows "node_ok c (insert_entry oob key child n)"
proof -
  let ?n = "insert_entry oob key child n" and ?li = "unat (last_index (node_header n))"
  note view = insert_entry_view [OF ok key room bf, of oob child]
  have hdr: "fence_lo (node_header ?n) = fence_lo (node_header n)" "fence_hi (node_header ?n) = fence_hi (node_header n)"
    by (simp_all add: insert_entry_def Let_def)
  have len: "length (entries n) = branch_factor c" "\<forall>e \<in> set (entries n). length (entry_key e) = KEY_SIZE c"
    using ok by (simp_all add: node_ok_def node_wf_def)
  have pos: "insert_position key ?li (entries n) = rank (separators n) key"
    using ok key node_parts(4) [OF ok] len room
    by (intro insert_position_rank) (auto simp: node_ok_def separators_def)
  have r: "rank (separators n) key < Suc ?li"
    using rank_le [of "separators n" key] node_parts(2) [OF ok] by simp
  have "node_wf c ?n"
    using ok placed_wf [OF len(2) key(1), of "rank (separators n) key" "Suc ?li" child oob] r room len(1)
    by (auto simp: node_wf_def node_ok_def insert_entry_def Let_def pos header_wf_def)
  moreover have "sorted_wrt (<) (map be_val (separators ?n))"
    unfolding view(2) using ok key node_parts(4) [OF ok] be_val_inj
    by (intro sorted_insert_at) (auto simp: node_ok_def)
  moreover have "\<forall>s \<in> set (separators ?n). be_val (fence_lo (node_header ?n)) < be_val s \<and>
      be_val s < be_val (fence_hi (node_header ?n))"
    unfolding view(2) hdr using ok fence by (auto simp: set_insert_at node_ok_def)
  ultimately show ?thesis using view(1) room by (simp add: node_ok_def)
qed


subsection \<open>Splitting an internal node\<close>

lemma fold_update_range:
  assumes "n \<le> length r"
  shows "fold (\<lambda>i r. r[i - d := f i]) [d..<d + n] r = map (\<lambda>p. f (p + d)) [0..<n] @ drop n r"
  using assms
proof (induction n)
  case (Suc n)
  have "drop n r = r ! n # drop (Suc n) r" using Suc.prems by (simp add: Cons_nth_drop_Suc)
  then show ?case
    using Suc by (simp add: list_update_append ac_simps)
qed simp

lemma fold_update_segment:
  assumes "a \<le> b" and "b \<le> length l"
  shows "fold (\<lambda>i l. l[i := f i]) [a..<b] l = take a l @ map f [a..<b] @ drop b l"
  using assms
proof (induction b rule: dec_induct)
  case base
  then show ?case by simp
next
  case (step b)
  have "drop b l = l ! b # drop (Suc b) l" using step.prems by (simp add: Cons_nth_drop_Suc)
  then show ?case using step by (simp add: list_update_append)
qed

lemma split_entries_view:
  assumes ok: "node_ok c n" and key: "length key = KEY_SIZE c" "key \<notin> set (separators n)"
    and full: "Suc (unat (last_index (node_header n))) = branch_factor c"
  shows "length (split_entries c oob key child n) = Suc (branch_factor c)"
    and "map entry_key (take (branch_factor c) (split_entries c oob key child n)) =
      insert_at (rank (separators n) key) key (separators n)"
    and "map entry_child (split_entries c oob key child n) =
      insert_at (Suc (rank (separators n) key)) child (children n)"
    and "\<forall>e \<in> set (split_entries c oob key child n). length (entry_key e) = KEY_SIZE c"
proof -
  let ?li = "unat (last_index (node_header n))" and ?es = "entries n @ [InternalEntry_init c]"
  let ?r = "rank (separators n) key"
  have len: "length (entries n) = branch_factor c" "\<forall>e \<in> set (entries n). length (entry_key e) = KEY_SIZE c"
    using ok by (simp_all add: node_ok_def node_wf_def)
  have pos: "insert_position key ?li (entries n) = ?r"
    using ok key node_parts(4) [OF ok] len full
    by (intro insert_position_rank) (auto simp: node_ok_def separators_def)
  have eq: "split_entries c oob key child n = place_entry ?r key child (shift_entries oob ?r (branch_factor c) ?es)"
    using len(1) full pos by (simp add: split_entries_def Let_def)
  have r: "?r < branch_factor c" "branch_factor c < length ?es"
    using rank_le [of "separators n" key] node_parts(2) [OF ok] full len(1) by simp_all
  have li: "branch_factor c - Suc 0 = ?li" using full by linarith
  show "length (split_entries c oob key child n) = Suc (branch_factor c)"
    using len(1) by (simp add: eq)
  show "map entry_key (take (branch_factor c) (split_entries c oob key child n)) = insert_at ?r key (separators n)"
    using placed_keys [OF r(2,1), of key child oob] li len(1) by (simp add: eq separators_def)
  show "map entry_child (split_entries c oob key child n) = insert_at (Suc ?r) child (children n)"
    using placed_children [OF r(2,1), of key child oob] len(1) unfolding eq children_def full by simp
  have "\<forall>e \<in> set ?es. length (entry_key e) = KEY_SIZE c"
    using len(2) by (simp add: InternalEntry_init_def ArrayVar_default_def)
  then show "\<forall>e \<in> set (split_entries c oob key child n). length (entry_key e) = KEY_SIZE c"
    unfolding eq by (rule placed_wf) (use key r in simp_all)
qed

definition left_half :: "Config \<Rightarrow> InternalEntry list \<Rightarrow> InternalNode \<Rightarrow> InternalNode" where
  "left_half c es n = (let m = branch_factor c div 2 in
     \<lparr>node_header = (node_header n)\<lparr>last_index := of_nat m, fence_hi := entry_key (es ! m)\<rparr>,
      entries = take (Suc m) es @ replicate (branch_factor c - Suc m) (InternalEntry_init c)\<rparr>)"

definition right_half :: "Config \<Rightarrow> InternalEntry list \<Rightarrow> InternalNode \<Rightarrow> InternalNode" where
  "right_half c es n = (let m = branch_factor c div 2 in
     \<lparr>node_header = (Header_init c)\<lparr>level := level (node_header n), last_index := of_nat (branch_factor c - m - 1),
        fence_lo := entry_key (es ! m), fence_hi := fence_hi (node_header n)\<rparr>,
      entries = drop (Suc m) es @ replicate m (InternalEntry_init c)\<rparr>)"

lemma map_nth_segment: "b \<le> length xs \<Longrightarrow> map (\<lambda>i. xs ! i) [a..<b] = drop a (take b xs)"
  by (intro nth_equalityI) auto

lemma split_node_eq:
  assumes len: "length es = Suc (branch_factor c)" and bf: "3 \<le> branch_factor c"
    and n: "length (entries n) = branch_factor c"
  shows "split_node c es n = Inr (entry_key (es ! (branch_factor c div 2)), right_half c es n, left_half c es n)"
proof -
  let ?bf = "branch_factor c" and ?m = "branch_factor c div 2" and ?i = "InternalEntry_init c"
  have m: "?m < ?bf - 1" using bf by linarith
  have "fold (\<lambda>i r. r[i - Suc ?m := es ! i]) [Suc ?m..<Suc ?m + (?bf - ?m)] (replicate ?bf ?i) =
      map (\<lambda>p. es ! (p + Suc ?m)) [0..<?bf - ?m] @ drop (?bf - ?m) (replicate ?bf ?i)"
    by (rule fold_update_range) simp
  moreover have "Suc ?m + (?bf - ?m) = length es" using m len by linarith
  moreover have "map (\<lambda>p. es ! (p + Suc ?m)) [0..<?bf - ?m] = drop (Suc ?m) es"
    using len m by (intro nth_equalityI) (auto simp: add.commute)
  moreover have "?bf - (?bf - ?m) = ?m" using m by linarith
  ultimately have right: "fold (\<lambda>i r. r[i - ?m - 1 := es ! i]) [Suc ?m..<length es] (replicate ?bf ?i) =
      drop (Suc ?m) es @ replicate ?m ?i"
    by (simp del: upt_Suc)
  have "[Suc ?m..<length es] = [Suc ?m..<?bf] @ [?bf]" using m len by simp
  moreover have "fold (\<lambda>i l. if i < ?bf then l[i := ?i] else l) [Suc ?m..<?bf] (entries n) =
      fold (\<lambda>i l. l[i := ?i]) [Suc ?m..<?bf] (entries n)"
    by (rule fold_cong) auto
  moreover have "fold (\<lambda>i l. l[i := ?i]) [Suc ?m..<?bf] (entries n) =
      take (Suc ?m) (entries n) @ map (\<lambda>_. ?i) [Suc ?m..<?bf] @ drop ?bf (entries n)"
    by (rule fold_update_segment) (use m n in linarith)+
  ultimately have clear: "fold (\<lambda>i l. if i < ?bf then l[i := ?i] else l) [Suc ?m..<length es] (entries n) =
      take (Suc ?m) (entries n) @ replicate (?bf - Suc ?m) ?i"
    using n by (simp add: map_replicate_const)
  have "fold (\<lambda>i l. l[i := es ! i]) [0..<Suc ?m] (take (Suc ?m) (entries n) @ replicate (?bf - Suc ?m) ?i) =
      take (Suc ?m) es @ replicate (?bf - Suc ?m) ?i"
    using fold_update_segment [of 0 "Suc ?m" "take (Suc ?m) (entries n) @ replicate (?bf - Suc ?m) ?i" "(!) es"]
      map_nth_segment [of "Suc ?m" es 0] m n len by simp
  then show ?thesis
    using len m clear right
    by (simp add: split_node_def Let_def left_half_def right_half_def InternalNode_init_def del: upt_Suc)
qed

lemma half_index:
  assumes "branch_factor c \<le> 256"
  shows "unat (last_index (node_header (left_half c es n))) = branch_factor c div 2"
    and "unat (last_index (node_header (right_half c es n))) = branch_factor c - branch_factor c div 2 - 1"
  using assms by (simp_all add: left_half_def right_half_def Let_def unat_of_nat)

lemma half_views:
  assumes len: "length es = Suc (branch_factor c)" and bf: "branch_factor c \<le> 256" "0 < branch_factor c"
  defines "m \<equiv> branch_factor c div 2" and "ss \<equiv> map entry_key (take (branch_factor c) es)" and "cs \<equiv> map entry_child es"
  shows "separators (left_half c es n) = take m ss" and "children (left_half c es n) = take (Suc m) cs"
    and "separators (right_half c es n) = drop (Suc m) ss" and "children (right_half c es n) = drop (Suc m) cs"
proof -
  have m: "m < branch_factor c" using bf(2) by (simp add: m_def)
  note idx = half_index [OF bf(1), of es n, folded m_def]
  have es: "entries (left_half c es n) = take (Suc m) es @ replicate (branch_factor c - Suc m) (InternalEntry_init c)"
    "entries (right_half c es n) = drop (Suc m) es @ replicate m (InternalEntry_init c)"
    by (simp_all add: left_half_def right_half_def Let_def m_def)
  show "separators (left_half c es n) = take m ss" "children (left_half c es n) = take (Suc m) cs"
    using m len by (simp_all add: separators_def children_def idx es ss_def cs_def take_map min_def)
  have "take (branch_factor c - m - 1) (drop (Suc m) es @ replicate m (InternalEntry_init c)) =
      drop (Suc m) (take (branch_factor c) es)"
    using m len by (simp add: drop_take)
  then show "separators (right_half c es n) = drop (Suc m) ss"
    by (simp only: separators_def idx es ss_def drop_map)
  have "Suc (branch_factor c - m - 1) = length (drop (Suc m) es)" using m len by simp
  then show "children (right_half c es n) = drop (Suc m) cs"
    by (simp add: children_def idx es cs_def drop_map)
qed

lemma route_halves:
  assumes sorted: "sorted_wrt (<) (map be_val ss)" and m: "m < length ss" and cs: "length cs = Suc (length ss)"
  shows "route ss cs k =
    (if be_val k < be_val (ss ! m) then route (take m ss) (take (Suc m) cs) k
     else route (drop (Suc m) ss) (drop (Suc m) cs) k)"
proof -
  have split: "rank ss k = rank (take (Suc m) ss) k + rank (drop (Suc m) ss) k"
    unfolding rank_def by (metis append_take_drop_id filter_append length_append)
  show ?thesis
  proof (cases "be_val k < be_val (ss ! m)")
    case True
    have "rank ss k \<le> m" using sorted_rank_nth [OF sorted m, of k] True by simp
    have gt: "be_val k < be_val s" if mem: "s \<in> set (drop m ss)" for s
    proof -
      obtain j where j: "j < length (drop m ss)" "s = drop m ss ! j" using mem by (metis in_set_conv_nth)
      then have s: "s = ss ! (m + j)" "m + j < length ss" by simp_all
      then have "be_val (ss ! m) \<le> be_val s"
        using sorted_wrt_nth_less [OF sorted, of m "m + j"] by (cases j) auto
      then show ?thesis using True by simp
    qed
    have "rank ss k = rank (take m ss) k + rank (drop m ss) k"
      unfolding rank_def by (metis append_take_drop_id filter_append length_append)
    moreover have "rank (drop m ss) k = 0" using gt by (auto simp: rank_def filter_empty_conv not_le)
    ultimately show ?thesis using True \<open>rank ss k \<le> m\<close> by (simp add: route_def)
  next
    case False
    have le: "be_val s \<le> be_val k" if mem: "s \<in> set (take (Suc m) ss)" for s
    proof -
      obtain i where i: "s = ss ! i" "i \<le> m" using mem m by (auto simp: in_set_conv_nth)
      then have "be_val s \<le> be_val (ss ! m)"
        using sorted_wrt_nth_less [OF sorted, of i m] m by (cases "i = m") auto
      then show ?thesis using False by simp
    qed
    then have "filter (\<lambda>s. be_val s \<le> be_val k) (take (Suc m) ss) = take (Suc m) ss"
      by (simp add: filter_id_conv)
    then have "rank (take (Suc m) ss) k = Suc m" using m by (simp add: rank_def)
    moreover have "rank (drop (Suc m) ss) k \<le> length ss - Suc m" using rank_le [of "drop (Suc m) ss" k] by simp
    ultimately show ?thesis using False split m cs by (simp add: route_def)
  qed
qed

lemma halves_ok:
  assumes len: "length es = Suc (branch_factor c)" and bf: "branch_factor c \<le> 256" "3 \<le> branch_factor c"
    and keys: "\<forall>e \<in> set es. length (entry_key e) = KEY_SIZE c" and hdr: "header_wf c (node_header n)"
    and sorted: "sorted_wrt (<) (map be_val (map entry_key (take (branch_factor c) es)))"
    and fence: "\<forall>s \<in> set (map entry_key (take (branch_factor c) es)).
      be_val (fence_lo (node_header n)) < be_val s \<and> be_val s < be_val (fence_hi (node_header n))"
  shows "node_ok c (left_half c es n)" and "node_ok c (right_half c es n)"
proof -
  define m where "m = branch_factor c div 2"
  define ss where "ss = map entry_key (take (branch_factor c) es)"
  have m: "m < branch_factor c" "Suc m < length es" "m < length ss" using bf(2) len by (simp_all add: m_def ss_def)
  have "0 < branch_factor c" using bf(2) by simp
  note views = half_views [OF len bf(1) this, of n, folded m_def ss_def]
  note idx = half_index [OF bf(1), of es n, folded m_def]
  have mk: "entry_key (es ! m) = ss ! m" using m len by (simp add: ss_def)
  have init: "length (entry_key (InternalEntry_init c)) = KEY_SIZE c" "length (ArrayVar_default (KEY_SIZE c)) = KEY_SIZE c"
    by (simp_all add: InternalEntry_init_def ArrayVar_default_def)
  have hl: "node_header (left_half c es n) = (node_header n)\<lparr>last_index := of_nat m, fence_hi := ss ! m\<rparr>"
    and hr: "fence_lo (node_header (right_half c es n)) = ss ! m"
      "fence_hi (node_header (right_half c es n)) = fence_hi (node_header n)"
    using mk by (simp_all add: left_half_def right_half_def Let_def m_def)
  have key_m: "length (ss ! m) = KEY_SIZE c" using mk keys m by (metis Suc_lessD nth_mem)
  have before: "be_val s < be_val (ss ! m)" if "s \<in> set (take m ss)" for s
    using that m(3) sorted unfolding ss_def [symmetric]
    by (auto simp: in_set_conv_nth sorted_wrt_map sorted_wrt_iff_nth_less)
  have after: "be_val (ss ! m) < be_val s" if "s \<in> set (drop (Suc m) ss)" for s
    using that m(3) sorted unfolding ss_def [symmetric]
    by (auto simp: in_set_conv_nth sorted_wrt_map sorted_wrt_iff_nth_less)
  have sub: "set (take m ss) \<subseteq> set ss" "set (drop (Suc m) ss) \<subseteq> set ss"
    by (simp_all add: set_take_subset set_drop_subset)
  have "node_wf c (left_half c es n)" "node_wf c (right_half c es n)"
    using keys hdr init m len key_m
    by (auto simp: node_wf_def header_wf_def left_half_def right_half_def Let_def m_def mk [unfolded m_def]
        Header_init_def dest: in_set_takeD in_set_dropD)
  moreover have "sorted_wrt (<) (map be_val (take m ss))" "sorted_wrt (<) (map be_val (drop (Suc m) ss))"
    using sorted unfolding ss_def [symmetric] by (simp_all add: take_map [symmetric] drop_map [symmetric] sorted_wrt_take sorted_wrt_drop)
  ultimately show "node_ok c (left_half c es n)" "node_ok c (right_half c es n)"
    using views idx m fence before after sub unfolding ss_def [symmetric]
    by (auto simp: node_ok_def hl hr)
qed

lemma rank_eq_iff:
  assumes "be_val key \<le> be_val k"
  shows "rank ss k = rank ss key \<longleftrightarrow> (\<forall>s \<in> set ss. \<not> (be_val key < be_val s \<and> be_val s \<le> be_val k))"
proof (induction ss)
  case (Cons s ss)
  have "rank ss key \<le> rank ss k" by (rule rank_mono) (rule assms)
  then show ?case using Cons assms by (auto simp: rank_def)
qed (simp add: rank_def)

subsection \<open>Properties\<close>

text \<open>
  C16. Inserting a separator into a node that has room. For a well-formed node and a new key
  strictly between its fences, the result is well formed, and the search for a child goes to
  the new child exactly for the keys from the new separator up to the next old one; every other key
  is routed as before. None of this depends on \<open>oob\<close>, the value that the shifting loop
  reads in front of the array when the new separator is the smallest.
\<close>

theorem insert_entry_routes:
  assumes "node_ok c n" and "config_ok c" and "length key = KEY_SIZE c" and "length k = KEY_SIZE c"
    and "\<not> has_separator key n" and "Suc (unat (last_index (node_header n))) < branch_factor c"
    and "be_val (fence_lo (node_header n)) < be_val key" and "be_val key < be_val (fence_hi (node_header n))"
  shows "node_ok c (insert_entry oob key child n) \<and>
    next_child k (insert_entry oob key child n) =
      (if be_val key \<le> be_val k \<and> (\<forall>s \<in> set (separators n). \<not> (be_val key < be_val s \<and> be_val s \<le> be_val k))
       then Inr child else next_child k n)"
proof -
  have new: "key \<notin> set (separators n)" using assms(1,3,5) by (rule not_has_separator)
  have bf: "branch_factor c \<le> 256" using assms(2) by (simp add: config_ok_def)
  note view = insert_entry_view [OF assms(1,3) new assms(6) bf, of oob child]
  have ok: "node_ok c (insert_entry oob key child n)"
    using assms new bf by (intro insert_entry_ok)
  have r: "rank (separators n) x < length (children n)" for x
    using rank_le [of "separators n" x] node_parts(2,3) [OF assms(1)] by simp
  have "next_child k (insert_entry oob key child n) =
      Inr (if be_val key \<le> be_val k \<and> rank (separators n) k = rank (separators n) key then child
           else route (separators n) (children n) k)"
    unfolding next_child_route [OF ok assms(4)] view(2,3) route_insert_at [OF r r] ..
  then show ?thesis
    using ok rank_eq_iff [of key k "separators n"] next_child_route [OF assms(1,4)] by auto
qed

text \<open>A node with room, used by the witnesses: branch factor 4, one separator, two children.\<close>

definition sample_config :: Config where
  "sample_config = \<lparr>KEY_SIZE = 1, VALUE_SIZE = 1, branch_factor = 4, SPLIT_WATERMARK = 1 / 2, MAINTENANCE_ENABLED = False\<rparr>"

definition sample_node :: "nat \<Rightarrow> InternalNode" where
  "sample_node li = \<lparr>node_header = \<lparr>lock = 0, level = 1, fence_lo = [0], fence_hi = [255], last_index = of_nat li\<rparr>,
     entries = map (\<lambda>i. \<lparr>entry_key = [of_nat (40 + 40 * i)], entry_child = of_nat (1000 + i)\<rparr>) [0..<4]\<rparr>"

lemma sample_config_ok: "config_ok sample_config"
  by (simp add: config_ok_def sample_config_def)

lemma sample_node_ok: "node_ok sample_config (sample_node 1)" "node_ok sample_config (sample_node 3)"
  by code_simp+

theorem insert_entry_routes_witness:
  "node_ok sample_config (insert_entry [7] [20] 77 (sample_node 1)) \<and>
   next_child [30] (insert_entry [7] [20] 77 (sample_node 1)) = Inr 77 \<and>
   next_child [10] (insert_entry [7] [20] 77 (sample_node 1)) = next_child [10] (sample_node 1)"
proof -
  have pre: "\<not> has_separator [20] (sample_node 1)" "Suc (unat (last_index (node_header (sample_node 1)))) < branch_factor sample_config"
      "separators (sample_node 1) = [[40]]"
    by code_simp+
  have fence: "be_val (fence_lo (node_header (sample_node 1))) < be_val [20]"
      "be_val [20] < be_val (fence_hi (node_header (sample_node 1)))"
    by (simp_all add: sample_node_def)
  have "length [20 :: u8] = KEY_SIZE sample_config" by (simp add: sample_config_def)
  note routes = insert_entry_routes [OF sample_node_ok(1) sample_config_ok this _ pre(1,2) fence, where oob = "[7]" and child = "77"]
  show ?thesis
    using routes [of "[30]"] routes [of "[10]"] pre(3) by (simp add: sample_config_def)
qed

text \<open>
  C17. Splitting a full node. A full well-formed node with at least three entries and a new key
  strictly between its fences are split into a left and a right half, both well formed, at
  a middle key that becomes the upper fence of the left and the lower fence of the right half.
  Sending the keys below the middle key to the left half and the others to the right half
  routes every key as the node did before, except for the range that the new child takes over.
\<close>

theorem split_node_routes:
  assumes "node_ok c n" and "config_ok c" and "3 \<le> branch_factor c"
    and "length key = KEY_SIZE c" and "length k = KEY_SIZE c"
    and "\<not> has_separator key n" and "Suc (unat (last_index (node_header n))) = branch_factor c"
    and "be_val (fence_lo (node_header n)) < be_val key" and "be_val key < be_val (fence_hi (node_header n))"
  shows "\<exists>mk right left. split_node c (split_entries c oob key child n) n = Inr (mk, right, left) \<and>
    node_ok c left \<and> node_ok c right \<and>
    fence_lo (node_header left) = fence_lo (node_header n) \<and> fence_hi (node_header left) = mk \<and>
    fence_lo (node_header right) = mk \<and> fence_hi (node_header right) = fence_hi (node_header n) \<and>
    level (node_header left) = level (node_header n) \<and> level (node_header right) = level (node_header n) \<and>
    next_child k (if be_val k < be_val mk then left else right) =
      (if be_val key \<le> be_val k \<and> (\<forall>s \<in> set (separators n). \<not> (be_val key < be_val s \<and> be_val s \<le> be_val k))
       then Inr child else next_child k n)"
proof -
  let ?es = "split_entries c oob key child n" and ?m = "branch_factor c div 2" and ?ss = "separators n"
  have new: "key \<notin> set ?ss" using assms(1,4,6) by (rule not_has_separator)
  have bf: "branch_factor c \<le> 256" using assms(2) by (simp add: config_ok_def)
  note view = split_entries_view [OF assms(1,4) new assms(7), of oob child]
  have sorted: "sorted_wrt (<) (map be_val (insert_at (rank ?ss key) key ?ss))"
    using assms(1) new node_parts(4) [OF assms(1)] assms(4) be_val_inj
    by (intro sorted_insert_at) (auto simp: node_ok_def)
  have fences: "\<forall>s \<in> set (insert_at (rank ?ss key) key ?ss).
      be_val (fence_lo (node_header n)) < be_val s \<and> be_val s < be_val (fence_hi (node_header n))"
    using assms(1,8,9) by (auto simp: set_insert_at node_ok_def)
  have wf: "header_wf c (node_header n)" "length (entries n) = branch_factor c"
    using assms(1) by (simp_all add: node_ok_def node_wf_def)
  have ok: "node_ok c (left_half c ?es n)" "node_ok c (right_half c ?es n)"
    using halves_ok [OF view(1) bf assms(3) view(4) wf(1)] sorted fences unfolding view(2) by blast+
  have "0 < branch_factor c" using assms(3) by simp
  note halves = half_views [OF view(1) bf this, of n, unfolded view(2,3)]
  have lens: "length (insert_at (rank ?ss key) key ?ss) = branch_factor c"
      "length (insert_at (Suc (rank ?ss key)) child (children n)) = Suc (branch_factor c)"
    using rank_le [of ?ss key] node_parts(2,3) [OF assms(1)] assms(7) by simp_all
  have m: "?m < branch_factor c" using assms(3) by simp
  have mk: "entry_key (?es ! ?m) = insert_at (rank ?ss key) key ?ss ! ?m"
    using view(1) m unfolding view(2) [symmetric] by simp
  have r: "rank ?ss x < length (children n)" for x
    using rank_le [of ?ss x] node_parts(2,3) [OF assms(1)] by simp
  have "next_child k (if be_val k < be_val (entry_key (?es ! ?m)) then left_half c ?es n else right_half c ?es n) =
      Inr (route (insert_at (rank ?ss key) key ?ss) (insert_at (Suc (rank ?ss key)) child (children n)) k)"
    using route_halves [OF sorted, of ?m "insert_at (Suc (rank ?ss key)) child (children n)" k] m lens
      next_child_route [OF ok(1) assms(5)] next_child_route [OF ok(2) assms(5)] halves mk by simp
  also have "\<dots> = (if be_val key \<le> be_val k \<and> (\<forall>s \<in> set ?ss. \<not> (be_val key < be_val s \<and> be_val s \<le> be_val k))
       then Inr child else next_child k n)"
    using rank_eq_iff [of key k ?ss] unfolding route_insert_at [OF r r] next_child_route [OF assms(1,5)] by auto
  finally show ?thesis
    using split_node_eq [OF view(1) assms(3) wf(2)] ok
    by (intro exI [of _ "entry_key (?es ! ?m)"] exI [of _ "right_half c ?es n"] exI [of _ "left_half c ?es n"])
       (simp add: left_half_def right_half_def Let_def)
qed

theorem split_node_routes_witness:
  "\<exists>mk right left. split_node sample_config (split_entries sample_config [7] [60] 77 (sample_node 3)) (sample_node 3) =
      Inr (mk, right, left) \<and> node_ok sample_config left \<and> node_ok sample_config right \<and>
    next_child [70] (if be_val [70] < be_val mk then left else right) = Inr 77"
proof -
  have pre: "\<not> has_separator [60] (sample_node 3)" "Suc (unat (last_index (node_header (sample_node 3)))) = branch_factor sample_config"
      "separators (sample_node 3) = [[40], [80], [120]]" "3 \<le> branch_factor sample_config"
    by code_simp+
  have fence: "be_val (fence_lo (node_header (sample_node 3))) < be_val [60]"
      "be_val [60] < be_val (fence_hi (node_header (sample_node 3)))"
    by (simp_all add: sample_node_def)
  have len: "length [60 :: u8] = KEY_SIZE sample_config" "length [70 :: u8] = KEY_SIZE sample_config"
    by (simp_all add: sample_config_def)
  obtain mk right left where "split_node sample_config (split_entries sample_config [7] [60] 77 (sample_node 3)) (sample_node 3) =
        Inr (mk, right, left)" "node_ok sample_config left" "node_ok sample_config right"
      "next_child [70] (if be_val [70] < be_val mk then left else right) =
        (if be_val [60] \<le> be_val [70] \<and>
            (\<forall>s \<in> set (separators (sample_node 3)). \<not> (be_val [60] < be_val s \<and> be_val s \<le> be_val [70]))
         then Inr 77 else next_child [70] (sample_node 3))"
    using split_node_routes [OF sample_node_ok(2) sample_config_ok pre(4) len pre(1,2) fence, of "[7]" 77]
    by (elim exE conjE) (rule that; assumption)
  then show ?thesis
    using pre(3) by (intro exI [of _ mk] exI [of _ right] exI [of _ left]) simp
qed

text \<open>
  The branch factors 1 and 2 pass the compile-time check, but a node of such a tree can
  never be split: the assertion on the new last index fails.
\<close>

theorem split_node_small_branch_factor:
  assumes "branch_factor c \<le> 2" and "length es = Suc (branch_factor c)"
  shows "split_node c es n = Inl AssertionFailed"
proof -
  have "\<not> branch_factor c div 2 < branch_factor c - 1" using assms(1) by linarith
  then show ?thesis using assms(2) by (simp add: split_node_def Let_def)
qed

theorem split_node_small_branch_factor_witness:
  "config_ok (sample_config\<lparr>branch_factor := 2\<rparr>) \<and>
   split_node (sample_config\<lparr>branch_factor := 2\<rparr>) (take 3 (entries (sample_node 1))) (sample_node 1) = Inl AssertionFailed"
  using split_node_small_branch_factor [of "sample_config\<lparr>branch_factor := 2\<rparr>" "take 3 (entries (sample_node 1))" "sample_node 1"]
  by (simp add: sample_config_def config_ok_def sample_node_def)

end
