(* ===== verification/Faunus_Leaf.thy ===== *)
theory Faunus_Leaf
  imports Faunus_Node
begin

text \<open>
  The computations of \<^verbatim>\<open>src/src/kv_index/faunus_index.cpp\<close> on leaves that a client holds in its own
  memory: the slots whose fingerprint matches a key, the order in which \<^verbatim>\<open>insert\<close> tries the slots,
  the sorted entries of a leaf and their distribution over two leaves.
\<close>

subsection \<open>Definitions\<close>

text \<open>\<^verbatim>\<open>get_fingerprint_collisions\<close>: whether a slot is locked, and the slots that may hold the key.\<close>

definition get_fingerprint_collisions :: "LeafNode \<Rightarrow> Fingerprint \<Rightarrow> bool \<times> (nat \<times> GlobalAddress) list" where
  "get_fingerprint_collisions leaf fp =
     (list_ex isLocked (kv_blocks leaf),
      [(i, getAddr (kv_blocks leaf ! i)). i \<leftarrow> [0..<length (kv_blocks leaf)],
         \<not> isFree (kv_blocks leaf ! i) \<and> getFingerprint (kv_blocks leaf ! i) = fp])"

definition mix64 :: "u64 \<Rightarrow> u64" where
  "mix64 x0 =
     (let x1 = x0 XOR drop_bit 33 x0; x2 = x1 * 0xff51afd7ed558ccd;
          x3 = x2 XOR drop_bit 33 x2; x4 = x3 * 0xc4ceb9fe1a85ec53
      in x4 XOR drop_bit 33 x4)"

definition probe_index :: "Config \<Rightarrow> u64 \<Rightarrow> nat \<Rightarrow> nat" where
  "probe_index c seed i = unat ((of_nat i XOR seed) AND (of_nat (branch_factor c) - 1))"

text \<open>
  The slot loop of \<^verbatim>\<open>insert\<close>: it stops at the first slot, in probing order, that is locked or
  free. \<open>Some (Inl ())\<close> is a locked one, \<open>Some (Inr index)\<close> a free one.
\<close>

definition probe_slots :: "Config \<Rightarrow> u64 \<Rightarrow> LeafNode \<Rightarrow> (unit + nat) option" where
  "probe_slots c seed leaf =
     (case find (\<lambda>i. isLocked (kv_blocks leaf ! probe_index c seed i) \<or> isFree (kv_blocks leaf ! probe_index c seed i))
             [0..<branch_factor c] of
        None \<Rightarrow> None
      | Some i \<Rightarrow>
          Some (if isLocked (kv_blocks leaf ! probe_index c seed i) then Inl () else Inr (probe_index c seed i)))"

definition num_used :: "LeafNode \<Rightarrow> nat" where
  "num_used leaf = length (filter (\<lambda>b. \<not> isFree b) (kv_blocks leaf))"

definition split_limit :: "Config \<Rightarrow> nat" where
  "split_limit c = nat \<lfloor>of_nat (branch_factor c) * SPLIT_WATERMARK c\<rfloor>"

text \<open>\<^verbatim>\<open>std::map<Key, KVBlock>\<close>: an association list in the order of the keys; \<^verbatim>\<open>m[k] = b\<close>.\<close>

fun map_put :: "bytes \<Rightarrow> KVBlock \<Rightarrow> (bytes \<times> KVBlock) list \<Rightarrow> (bytes \<times> KVBlock) list" where
  "map_put k b [] = [(k, b)]"
| "map_put k b ((k', b') # m) =
     (if key_lt k k' then (k, b) # (k', b') # m
      else if key_lt k' k then (k', b') # map_put k b m
      else (k', b) # m)"

definition leaf_entries :: "(bytes \<times> KVBlock) list \<Rightarrow> (bytes \<times> KVBlock) list" where
  "leaf_entries kbs = fold (\<lambda>(k, b). map_put k b) kbs []"

text \<open>The two loops that distribute the sorted entries over the old and the new leaf.\<close>

definition distribute :: "(bytes \<times> KVBlock) list \<Rightarrow> KVBlock list \<Rightarrow> KVBlock list \<Rightarrow> KVBlock list \<times> KVBlock list" where
  "distribute es left right =
     (let middle = length es div 2;
          (l, r) = fold (\<lambda>i (l, r). (l[i := setLocked (snd (es ! i)) False],
                                     r[i := setLocked (snd (es ! (i + middle))) False]))
                    [0..<middle] (left, right)
      in (l, if length es mod 2 \<noteq> 0 then r[middle := setLocked (snd (last es)) False] else r))"

subsection \<open>Sorting and distributing the entries of a leaf\<close>

definition keys_sorted :: "(bytes \<times> KVBlock) list \<Rightarrow> bool" where
  "keys_sorted m \<longleftrightarrow> sorted_wrt (<) (map (be_val \<circ> fst) m)"

lemma set_map_put: "fst ` set (map_put k b m) \<subseteq> insert k (fst ` set m)"
  by (induction k b m rule: map_put.induct) auto

lemma map_put_sorted:
  assumes "keys_sorted m" and "\<forall>x \<in> set m. length (fst x) = length k"
  shows "keys_sorted (map_put k b m) \<and> map_of (map_put k b m) = (map_of m)(k \<mapsto> b)"
  using assms
proof (induction m)
  case Nil
  then show ?case by (auto simp: keys_sorted_def)
next
  case (Cons x m)
  obtain k' b' where x: "x = (k', b')" by force
  have len: "length k' = length k" using Cons.prems(2) x by simp
  have "keys_sorted (map_put k b m) \<and> map_of (map_put k b m) = (map_of m)(k \<mapsto> b)"
    by (rule Cons.IH) (use Cons.prems in \<open>simp_all add: keys_sorted_def\<close>)
  then have IH: "keys_sorted (map_put k b m)" "map_of (map_put k b m) = (map_of m)(k \<mapsto> b)" by blast+
  have above: "be_val k' < be_val (fst y)" if "y \<in> set m" for y
    using Cons.prems(1) that x by (auto simp: keys_sorted_def)
  consider "be_val k < be_val k'" | "be_val k' < be_val k" | "k = k'"
    using be_val_inj [OF len] by (metis linorder_neqE_nat)
  then show ?case
  proof cases
    case 1
    then have eq: "map_put k b (x # m) = (k, b) # x # m" using len by (simp add: x key_lt_iff)
    have "be_val k < be_val (fst y)" if "y \<in> set m" for y using 1 above [OF that] by simp
    then have "keys_sorted ((k, b) # x # m)" using 1 Cons.prems(1) by (simp add: x keys_sorted_def)
    then show ?thesis unfolding eq by (simp add: x fun_eq_iff)
  next
    case 2
    have "be_val k' < be_val (fst y)" if "y \<in> set (map_put k b m)" for y
    proof -
      have "fst y \<in> insert k (fst ` set m)" using set_map_put [of k b m] that by blast
      then show ?thesis using 2 above by auto
    qed
    then have "keys_sorted (x # map_put k b m)" using IH(1) by (simp add: x keys_sorted_def)
    moreover have "map_put k b (x # m) = x # map_put k b m" using 2 len by (simp add: x key_lt_iff)
    moreover have "k \<noteq> k'" using 2 by auto
    ultimately show ?thesis using IH(2) by (auto simp: x fun_eq_iff)
  next
    case 3
    then show ?thesis using Cons.prems(1) by (auto simp: x key_lt_iff keys_sorted_def)
  qed
qed

lemma leaf_entries_sorted:
  assumes "\<forall>x \<in> set kbs. length (fst x) = K"
  shows "keys_sorted (leaf_entries kbs) \<and> map_of (leaf_entries kbs) = map_of (rev kbs) \<and>
    (\<forall>x \<in> set (leaf_entries kbs). length (fst x) = K)"
  using assms
proof (induction kbs rule: rev_induct)
  case Nil
  then show ?case by (simp add: leaf_entries_def keys_sorted_def)
next
  case (snoc x kbs)
  obtain k b where x: "x = (k, b)" by force
  have eq: "leaf_entries (kbs @ [x]) = map_put k b (leaf_entries kbs)" by (simp add: leaf_entries_def x)
  have IH: "keys_sorted (leaf_entries kbs)" "map_of (leaf_entries kbs) = map_of (rev kbs)"
      "\<forall>x \<in> set (leaf_entries kbs). length (fst x) = K"
    using snoc by simp_all
  moreover have "\<forall>y \<in> set (map_put k b (leaf_entries kbs)). length (fst y) = K"
    using set_map_put [of k b "leaf_entries kbs"] IH(3) snoc.prems x by fastforce
  moreover have "keys_sorted (map_put k b (leaf_entries kbs)) \<and>
      map_of (map_put k b (leaf_entries kbs)) = (map_of (leaf_entries kbs))(k \<mapsto> b)"
    by (rule map_put_sorted) (use IH snoc.prems x in auto)
  moreover have "map_of (rev (kbs @ [x])) = (map_of (rev kbs))(k \<mapsto> b)" by (simp add: x)
  ultimately show ?case unfolding eq by metis
qed

lemma fold_pair: "fold (\<lambda>i (l, r). (f i l, g i r)) xs (l, r) = (fold f xs l, fold g xs r)"
  by (induction xs arbitrary: l r) simp_all

lemma fold_update_all:
  assumes "n \<le> length l"
  shows "fold (\<lambda>i l. l[i := f i]) [0..<n] l = map f [0..<n] @ drop n l"
  using fold_update_segment [of 0 n l f] assms by simp

lemma take_last: "length xs = Suc m \<Longrightarrow> xs = take m xs @ [last xs]"
  by (cases xs rule: rev_cases) simp_all

lemma distribute_eq:
  assumes "length es \<le> length left" and "length left = length right"
  shows "distribute es left right =
    (map (\<lambda>e. setLocked (snd e) False) (take (length es div 2) es) @ drop (length es div 2) left,
     map (\<lambda>e. setLocked (snd e) False) (drop (length es div 2) es) @ drop (length es - length es div 2) right)"
proof -
  define m where "m = length es div 2"
  let ?f = "\<lambda>e. setLocked (snd e) False"
  have m: "m + m \<le> length es" "length es \<le> Suc (m + m)" by (simp_all add: m_def)
  have left: "fold (\<lambda>i l. l[i := ?f (es ! i)]) [0..<m] left = map ?f (take m es) @ drop m left"
  proof -
    have "map (\<lambda>i. ?f (es ! i)) [0..<m] = map ?f (take m es)" using m by (intro nth_equalityI) auto
    then show ?thesis using m assms by (subst fold_update_all) auto
  qed
  have right: "fold (\<lambda>i l. l[i := ?f (es ! (i + m))]) [0..<m] right = map ?f (take m (drop m es)) @ drop m right"
  proof -
    have "map (\<lambda>i. ?f (es ! (i + m))) [0..<m] = map ?f (take m (drop m es))"
      using m by (intro nth_equalityI) (auto simp: add.commute)
    then show ?thesis using m assms by (subst fold_update_all) auto
  qed
  show ?thesis
  proof (cases "length es mod 2 = 0")
    case True
    then have n: "length es = m + m" unfolding m_def by presburger
    then show ?thesis
      using left right True by (simp add: distribute_def Let_def fold_pair m_def [symmetric])
  next
    case False
    then have n: "length es = Suc (m + m)" unfolding m_def by presburger
    then have "drop m es = take m (drop m es) @ [last (drop m es)]" by (intro take_last) simp
    moreover have "last (drop m es) = last es" using n by simp
    ultimately have "drop m es = take m (drop m es) @ [last es]" by metis
    from arg_cong [OF this, of "map ?f"]
    have tail: "map ?f (drop m es) = map ?f (take m (drop m es)) @ [?f (last es)]" by simp
    have "drop m right = right ! m # drop (Suc m) right"
      using n assms by (simp add: Cons_nth_drop_Suc)
    then show ?thesis
      using left right False n unfolding m_def [symmetric] tail
      by (simp add: distribute_def Let_def fold_pair m_def [symmetric] list_update_append)
  qed
qed

subsection \<open>The order in which \<open>insert\<close> tries the slots\<close>

lemma probe_index_xor:
  assumes "branch_factor c = 2 ^ p" and "p \<le> 8" and "i < branch_factor c"
  shows "(of_nat i XOR seed) AND (of_nat (branch_factor c) - 1) = of_nat i XOR take_bit p (seed :: u64)"
proof -
  have mask: "of_nat (branch_factor c) - 1 = (mask p :: u64)"
    using assms(1) by (simp add: mask_eq_exp_minus_1)
  have "take_bit p (of_nat i :: u64) = of_nat i"
    using assms by (simp add: take_bit_of_nat take_bit_nat_eq_self)
  then show ?thesis
    unfolding mask take_bit_eq_mask [symmetric] by simp
qed

lemma probe_index_bij:
  assumes "branch_factor c = 2 ^ p" and "p \<le> 8"
  shows "bij_betw (probe_index c seed) {..<branch_factor c} {..<branch_factor c}"
proof -
  have bf: "branch_factor c \<le> 2 ^ 8" using power_increasing [OF assms(2), of "2 :: nat"] assms(1) by simp
  have small: "i < 2 ^ 64" if "i < branch_factor c" for i using that bf by simp
  have "inj_on (probe_index c seed) {..<branch_factor c}"
  proof (rule inj_onI)
    fix i j assume ij: "i \<in> {..<branch_factor c}" "j \<in> {..<branch_factor c}" "probe_index c seed i = probe_index c seed j"
    then have "(of_nat i :: u64) XOR take_bit p seed = of_nat j XOR take_bit p seed"
      using probe_index_xor [OF assms, of i seed] probe_index_xor [OF assms, of j seed]
      by (simp add: probe_index_def word_unat_eq_iff)
    then have "((of_nat i :: u64) XOR take_bit p seed) XOR take_bit p seed =
        (of_nat j XOR take_bit p seed) XOR take_bit p seed" by (rule arg_cong)
    then have "(of_nat i :: u64) = of_nat j" by (simp only: xor.assoc xor_self_eq xor.right_neutral)
    then have "unat (of_nat i :: u64) = unat (of_nat j :: u64)" by simp
    then show "i = j" using ij small by (simp add: unat_of_nat)
  qed
  moreover have "probe_index c seed i < branch_factor c" if "i < branch_factor c" for i
  proof -
    have "(of_nat i XOR seed) AND (of_nat (branch_factor c) - 1) = take_bit p (of_nat i XOR seed)"
      using assms(1) by (simp add: take_bit_eq_mask mask_eq_exp_minus_1)
    then have "probe_index c seed i = take_bit p (unat (of_nat i XOR seed))"
      by (simp only: probe_index_def unsigned_take_bit_eq)
    then show ?thesis using assms(1) by (simp only: take_bit_eq_mod) simp
  qed
  ultimately show ?thesis
    unfolding bij_betw_def by (intro conjI endo_inj_surj) auto
qed

lemma probe_slots_complete:
  assumes "branch_factor c = 2 ^ p" and "p \<le> 8" and "length (kv_blocks l) = branch_factor c"
  shows "probe_slots c seed l = None \<longleftrightarrow> (\<forall>b \<in> set (kv_blocks l). \<not> isLocked b \<and> \<not> isFree b)"
proof -
  have img: "probe_index c seed ` {..<branch_factor c} = {..<branch_factor c}"
    using probe_index_bij [OF assms(1,2)] by (simp add: bij_betw_def)
  have "probe_slots c seed l = None \<longleftrightarrow>
      (\<forall>i < branch_factor c. \<not> isLocked (kv_blocks l ! probe_index c seed i) \<and> \<not> isFree (kv_blocks l ! probe_index c seed i))"
    by (auto simp: probe_slots_def find_None_iff find_Some_iff split: option.splits)
  also have "\<dots> \<longleftrightarrow> (\<forall>j \<in> probe_index c seed ` {..<branch_factor c}. \<not> isLocked (kv_blocks l ! j) \<and> \<not> isFree (kv_blocks l ! j))"
    by auto
  also have "\<dots> \<longleftrightarrow> (\<forall>b \<in> set (kv_blocks l). \<not> isLocked b \<and> \<not> isFree b)"
    unfolding img using assms(3) by (auto simp: all_set_conv_all_nth)
  finally show ?thesis .
qed

lemma probe_slots_Inr:
  "probe_slots c seed l = Some (Inr j) \<Longrightarrow> \<exists>i < branch_factor c. j = probe_index c seed i \<and> isFree (kv_blocks l ! j) \<and> \<not> isLocked (kv_blocks l ! j)"
  by (auto simp: probe_slots_def find_Some_iff split: option.splits if_splits)

subsection \<open>Properties\<close>

text \<open>
  C18. How a leaf is split. The sorted entries hold every key of the leaf once, with the
  block of the highest slot that has the key; the lower half of them goes, unlocked, to the first
  slots of the old leaf and the upper half to the first slots of the new one; and the middle
  key separates the halves: it is above every key of the first and not above any of the second.
\<close>

theorem split_leaf_distribution:
  assumes "\<forall>x \<in> set kbs. length (fst x) = K" and "length (leaf_entries kbs) \<le> length left"
    and "length left = length right" and "2 \<le> length (leaf_entries kbs)"
  shows "let es = leaf_entries kbs; m = length es div 2; mk = fst (es ! m); (l, r) = distribute es left right in
    map_of es = map_of (rev kbs) \<and> distinct (map fst es) \<and>
    take m l = map (\<lambda>e. setLocked (snd e) False) (take m es) \<and>
    take (length es - m) r = map (\<lambda>e. setLocked (snd e) False) (drop m es) \<and>
    (\<forall>e \<in> set (take m es). be_val (fst e) < be_val mk) \<and>
    (\<forall>e \<in> set (drop m es). be_val mk \<le> be_val (fst e))"
proof -
  define es where "es = leaf_entries kbs"
  define m where "m = length es div 2"
  have m: "m < length es" using assms(4) by (simp add: m_def es_def)
  have sorted: "sorted_wrt (<) (map (be_val \<circ> fst) es)" and mo: "map_of es = map_of (rev kbs)"
    using leaf_entries_sorted [OF assms(1)] by (simp_all add: es_def keys_sorted_def)
  have less: "be_val (fst (es ! i)) < be_val (fst (es ! j))" if "i < j" "j < length es" for i j
    using sorted_wrt_nth_less [OF sorted, of i j] that by simp
  have "distinct (map (be_val \<circ> fst) es)" using sorted by (simp add: strict_sorted_iff)
  then have dist: "distinct (map fst es)" by (auto simp: distinct_map dest: inj_on_imageI2)
  have "be_val (fst e) < be_val (fst (es ! m))" if "e \<in> set (take m es)" for e
    using that m less by (auto simp: in_set_conv_nth)
  moreover have "be_val (fst (es ! m)) \<le> be_val (fst e)" if e: "e \<in> set (drop m es)" for e
  proof -
    obtain j where "j < length (drop m es)" "e = drop m es ! j" using e by (metis in_set_conv_nth)
    then have "m + j < length es" "e = es ! (m + j)" by simp_all
    then show ?thesis using less [of m "m + j"] by (cases "j = 0") auto
  qed
  ultimately show ?thesis
    using distribute_eq [of es left right] assms(2,3) m mo dist
    by (simp add: Let_def es_def [symmetric] m_def [symmetric])
qed

theorem split_leaf_distribution_witness:
  "map fst (leaf_entries [([9], 4), ([3], 8), ([9], 12)]) = [[3], [9]] \<and>
   distribute (leaf_entries [([9], 4), ([3], 8), ([9], 12)]) [0, 0] [0, 0] = ([8, 0], [12, 0]) \<and>
   map_of (leaf_entries [([9], 4), ([3], 8), ([9], 12)]) [9] = Some 12"
proof -
  let ?kbs = "[([9], 4), ([3], 8), ([9], 12)] :: (bytes \<times> KVBlock) list"
  have "leaf_entries ?kbs = [([3], 8), ([9], 12)]" by code_simp
  moreover have "distribute [([3], 8), ([9], 12)] [0, 0] [0, 0] = ([8, 0], [12, 0])" by code_simp
  ultimately show ?thesis
    using split_leaf_distribution [of ?kbs 1 "[0, 0]" "[0, 0]"] by simp
qed

text \<open>
  C28. The probing order of \<^verbatim>\<open>insert\<close>. If the branch factor is a power of two, every seed makes the
  loop try every slot exactly once, so it ends without a slot only in a leaf whose slots are all
  taken and unlocked.
\<close>

theorem probe_visits_every_slot:
  assumes "branch_factor c = 2 ^ p" and "p \<le> 8" and "length (kv_blocks l) = branch_factor c"
  shows "bij_betw (probe_index c seed) {..<branch_factor c} {..<branch_factor c} \<and>
    (probe_slots c seed l = None \<longleftrightarrow> (\<forall>b \<in> set (kv_blocks l). \<not> isLocked b \<and> \<not> isFree b))"
  using probe_index_bij [OF assms(1,2)] probe_slots_complete [OF assms] by blast

theorem probe_visits_every_slot_witness:
  "bij_betw (probe_index sample_config 5) {..<branch_factor sample_config} {..<branch_factor sample_config} \<and>
   probe_slots sample_config 5 (LeafNode_init sample_config) \<noteq> None"
proof -
  have bf: "branch_factor sample_config = 2 ^ 2" by (simp add: sample_config_def)
  have "length (kv_blocks (LeafNode_init sample_config)) = branch_factor sample_config"
    by (simp add: LeafNode_init_def)
  moreover have "KVBlock_of (Fingerprint_of 0) (GlobalAddress_raw 0) True False \<in> set (kv_blocks (LeafNode_init sample_config))"
    by (simp add: LeafNode_init_def sample_config_def)
  ultimately show ?thesis
    using probe_visits_every_slot [OF bf, of "LeafNode_init sample_config" 5] isFree_KVBlock_of by (metis numeral_le_iff semiring_norm(68,71))
qed

text \<open>
  With another branch factor, which the compile-time check permits, the loop misses slots:
  with three slots it never tries slot 1, so a leaf whose only free slot is that one looks full.
\<close>

theorem probe_misses_slot:
  assumes "branch_factor c = 3"
  shows "probe_index c seed i \<noteq> 1 \<and>
    (kv_blocks l = [KVBlock_of fp a False False, KVBlock_of fp a True False, KVBlock_of fp a False False] \<longrightarrow>
     probe_slots c seed l = None)"
proof -
  have idx: "probe_index c seed j = 0 \<or> probe_index c seed j = 2" for j
  proof -
    have "(of_nat j XOR seed) AND 2 = (if bit (of_nat j XOR seed) 1 then 2 else 0)"
    proof (rule bit_word_eqI)
      fix b assume "b < LENGTH(64)"
      have two: "(2 :: u64) = push_bit 1 1" by (simp add: push_bit_eq_mult)
      show "bit ((of_nat j XOR seed) AND 2) b = bit (if bit (of_nat j XOR seed) 1 then 2 else (0 :: u64)) b"
        unfolding two by (auto simp: bit_simps)
    qed
    then show ?thesis using assms by (simp add: probe_index_def)
  qed
  have "probe_slots c seed l = None"
    if "kv_blocks l = [KVBlock_of fp a False False, KVBlock_of fp a True False, KVBlock_of fp a False False]"
  proof -
    have "\<not> isLocked (kv_blocks l ! probe_index c seed j) \<and> \<not> isFree (kv_blocks l ! probe_index c seed j)" for j
      using idx [of j] that by (auto simp: numeral_2_eq_2)
    then show ?thesis by (auto simp: probe_slots_def find_Some_iff split: option.splits)
  qed
  then show ?thesis using idx [of i] by auto
qed

theorem probe_misses_slot_witness:
  "config_ok (sample_config\<lparr>branch_factor := 3\<rparr>) \<and> probe_index (sample_config\<lparr>branch_factor := 3\<rparr>) 5 2 \<noteq> 1"
  using probe_misses_slot [of "sample_config\<lparr>branch_factor := 3\<rparr>" 5 2 "LeafNode_init sample_config" 0 0]
  by (simp add: config_ok_def sample_config_def)

text \<open>
  Fingerprints give no false negatives. The candidates of a lookup are exactly the taken
  slots with the fingerprint of the key, in the order of the slots, and a slot that was filled for
  the key is among them with the address of its item (servers 0 to 15).
\<close>

theorem fingerprint_candidates:
  assumes "i < length (kv_blocks l)" and "kv_blocks l ! i = KVBlock_of (Fingerprint_of_key key) addr False locked"
    and "unat (server_index addr) < 16"
  shows "(i, addr) \<in> set (snd (get_fingerprint_collisions l (Fingerprint_of_key key))) \<and>
    (\<forall>j a fp. (j, a) \<in> set (snd (get_fingerprint_collisions l fp)) \<longleftrightarrow>
      j < length (kv_blocks l) \<and> \<not> isFree (kv_blocks l ! j) \<and> getFingerprint (kv_blocks l ! j) = fp \<and>
      a = getAddr (kv_blocks l ! j)) \<and>
    (\<forall>fp. sorted_wrt (<) (map fst (snd (get_fingerprint_collisions l fp)))) \<and>
    (\<forall>fp. fst (get_fingerprint_collisions l fp) \<longleftrightarrow> (\<exists>b \<in> set (kv_blocks l). isLocked b))"
proof -
  have "sorted_wrt (<) (map fst [(i, getAddr (kv_blocks l ! i)). i \<leftarrow> is, P i])"
    if "sorted_wrt (<) is" for "is" :: "nat list" and P
    using that by (induction "is") auto
  moreover have "getAddr (kv_blocks l ! i) = addr"
    using assms(2,3) addr_small_iff_server getAddr_KVBlock_of_iff by metis
  ultimately show ?thesis
    using assms(1,2) by (auto simp: get_fingerprint_collisions_def list_ex_iff)
qed

theorem fingerprint_candidates_witness:
  "(1, GlobalAddress_of 3 640) \<in> set (snd (get_fingerprint_collisions
      ((LeafNode_init sample_config)\<lparr>kv_blocks := [0, KVBlock_of (Fingerprint_of_key [9]) (GlobalAddress_of 3 640) False False, 0, 0]\<rparr>)
      (Fingerprint_of_key [9])))"
  by (rule fingerprint_candidates [THEN conjunct1]) simp_all

end
