(* ===== verification/Faunus_Index.thy ===== *)
theory Faunus_Index
  imports Faunus_Leaf
begin

text \<open>
  \<^verbatim>\<open>src/src/kv_index/faunus_index.cpp\<close>: the operations of the index as client programs. The object
  \<^verbatim>\<open>FaunusIndex\<close> is the record \<open>FaunusIndex\<close>; its pointers to the cache and to the statistics tracker
  may be null (\<open>has_cache\<close>, \<open>has_tracker\<close>). The retry loops of the source run up to a million times,
  which the model counts down. Three loops of the source have no bound: the descent in
  \<^verbatim>\<open>find_node\<close>, the compare-and-swap loop of \<^verbatim>\<open>try_update_kvblock\<close> and the search for a random
  value that differs from the old one; they run at most \<open>fuel\<close> times here and abort with
  \<open>Diverges\<close> when that is not enough. \<open>levels\<close> bounds the recursion from level to level of splits.
  \<open>oob\<close> is what an out-of-bounds read finds (see \<open>shift_entries\<close>) and \<open>kvb_ptr\<close> is the
  numeric value of a pointer that \<^verbatim>\<open>try_delete_kvblock\<close> compares a slot with.
\<close>

record FaunusIndex =
  cfg :: Config
  root_offset_pointer :: GlobalAddress
  has_cache :: bool
  has_tracker :: bool
  tid_hash :: u64
  num_queues :: nat
  fuel :: nat
  levels :: nat
  oob :: bytes
  kvb_ptr :: u64

type_synonym cache_item = "GlobalAddress \<times> InternalNode"
type_synonym 'a fprog = "(cache_item, 'a) prog"

datatype FindNodeResult = FOUND | LOCKED | NO_SUCH_LEVEL | UNKNOWN

definition track :: "FaunusIndex \<Rightarrow> TrackEvent \<Rightarrow> 'a fprog \<Rightarrow> 'a fprog" where
  "track I ev p = (if has_tracker I then Track ev p else Abort NullDereference)"

definition track_cache :: "FaunusIndex \<Rightarrow> nat option \<Rightarrow> 'a fprog \<Rightarrow> 'a fprog" where
  "track_cache I cached_entry p = track I (if cached_entry \<noteq> None then TrackCacheHit else TrackCacheMiss) p"

definition nth_out :: "RDMAOut list \<Rightarrow> nat \<Rightarrow> RDMAOut" where
  "nth_out outs i = (if i < length outs then outs ! i else NoOut)"

definition with_bytes :: "bytes option \<Rightarrow> (bytes \<Rightarrow> 'a fprog) \<Rightarrow> 'a fprog" where
  "with_bytes buf k = (case buf of Some bs \<Rightarrow> k bs | None \<Rightarrow> Abort UndefinedBehaviour)"

definition in_fence :: "bytes \<Rightarrow> Header \<Rightarrow> bool" where
  "in_fence key h \<longleftrightarrow> \<not> (key_lt key (fence_lo h) \<or> key_ge key (fence_hi h))"

definition leaf_bytes :: "FaunusIndex \<Rightarrow> u64" where
  "leaf_bytes I = of_nat (sizeof_LeafNode (cfg I))"

definition node_bytes :: "FaunusIndex \<Rightarrow> u64" where
  "node_bytes I = of_nat (sizeof_InternalNode (cfg I))"

definition item_bytes :: "FaunusIndex \<Rightarrow> u64" where
  "item_bytes I = of_nat (sizeof_KVItem (cfg I))"

subsection \<open>The root pointer\<close>

definition get_root_offset :: "FaunusIndex \<Rightarrow> GlobalAddress fprog" where
  "get_root_offset I =
     Perform (ReadOp (root_offset_pointer I) True 8) (\<lambda>(ok, out).
       assert_then ok (with_bytes (out_bytes out) (\<lambda>bs. Ret (GlobalAddress_raw (u64_of_bytes bs)))))"

definition update_root_offset :: "FaunusIndex \<Rightarrow> GlobalAddress \<Rightarrow> bool fprog" where
  "update_root_offset I new_root_offset =
     bind (get_root_offset I) (\<lambda>old_root_offset.
       Perform (CasOp (root_offset_pointer I) (uintptr old_root_offset) (uintptr new_root_offset)) (\<lambda>(ok, out).
         Ret (ok \<and> out_expected (uintptr old_root_offset) out = uintptr old_root_offset)))"

definition initialize :: "FaunusIndex \<Rightarrow> nat \<Rightarrow> (bool \<times> FaunusIndex) fprog" where
  "initialize I num_maintenance_queues =
     Allocate 8 (\<lambda>ptr.
       let I1 = I\<lparr>root_offset_pointer := GlobalAddress_raw ptr\<rparr> in
       Allocate (leaf_bytes I) (\<lambda>off.
         let root_offset = GlobalAddress_raw off; c = cfg I;
             root = (LeafNode_init c)\<lparr>leaf_header := (Header_init c)
               \<lparr>fence_lo := ArrayVar_min (KEY_SIZE c), fence_hi := ArrayVar_max (KEY_SIZE c)\<rparr>\<rparr>
         in bind (rdma_write_object root_offset (enc_leaf c root)) (\<lambda>success.
              if \<not> success then Ret (False, I1)
              else bind (update_root_offset I1 root_offset) (\<lambda>success.
                Ret (success, if num_maintenance_queues > 0 then I1\<lparr>num_queues := num_maintenance_queues\<rparr> else I1)))))"

subsection \<open>Finding a node\<close>

definition invalidate_entry :: "nat option \<Rightarrow> 'a fprog \<Rightarrow> 'a fprog" where
  "invalidate_entry got p = (case got of None \<Rightarrow> p | Some e \<Rightarrow> CacheInvalidate e p)"

text \<open>
  The loop of \<^verbatim>\<open>find_node\<close>: \<open>got\<close> is the cache entry that the search started from (it is
  also the output \<^verbatim>\<open>cached_entry\<close>), \<open>cached\<close> the cached node of the first iteration.
\<close>

fun descend ::
  "nat \<Rightarrow> FaunusIndex \<Rightarrow> bytes \<Rightarrow> u64 \<Rightarrow> bool \<Rightarrow> nat option \<Rightarrow> bool \<Rightarrow> InternalNode option \<Rightarrow> GlobalAddress \<Rightarrow>
   (FindNodeResult \<times> GlobalAddress \<times> nat option) fprog" where
  "descend 0 I key lvl from_smo got in_root cached node_address = Abort Diverges"
| "descend (Suc n) I key lvl from_smo got in_root cached node_address =
     bind
       (case cached of
          Some node \<Rightarrow> Ret node
        | None \<Rightarrow> bind (rdma_read_object node_address (node_bytes I)) (\<lambda>(ok, buf).
            with_bytes buf (\<lambda>bs.
              let node = dec_node (cfg I) bs; h = node_header node in
              if has_cache I \<and> lock h = 0 \<and> level h = 1 + (if from_smo then 1 else 0)
              then CacheAdd (fence_lo h) (fence_hi h) (node_address, node) (Ret node) else Ret node)))
       (\<lambda>node. let h = node_header node in
          if lock h \<noteq> 0 \<and> (\<not> from_smo \<or> level h > lvl)
          then invalidate_entry got (Ret (LOCKED, node_address, got))
          else if level h = lvl then Ret (FOUND, node_address, got)
          else if level h < lvl
          then assert_then in_root (invalidate_entry got (Ret (NO_SUCH_LEVEL, node_address, got)))
          else case next_child key node of
            Inl e \<Rightarrow> Abort e
          | Inr next_address \<Rightarrow>
              assert_then (node_address \<noteq> next_address)
                (if level h = lvl + 1 then Ret (FOUND, next_address, got)
                 else descend n I key lvl from_smo got False None next_address))"

definition find_node ::
  "FaunusIndex \<Rightarrow> bytes \<Rightarrow> u64 \<Rightarrow> bool \<Rightarrow> bool \<Rightarrow> (FindNodeResult \<times> GlobalAddress \<times> nat option) fprog" where
  "find_node I key lvl from_smo use_cache =
     (let from_root = (\<lambda>got. bind (get_root_offset I) (\<lambda>root.
            descend (fuel I) I key lvl from_smo got True None root))
      in if has_cache I \<and> use_cache
         then CacheSearch key (\<lambda>found. case found of
             None \<Rightarrow> from_root None
           | Some (entry, (cached_address, cached_node)) \<Rightarrow>
               (let h = node_header cached_node in
                assert_then (key_ge key (fence_lo h) \<and> key_lt key (fence_hi h))
                  (if level h \<ge> lvl \<and> (lock h = 0 \<or> from_smo)
                   then if level h = lvl then Ret (FOUND, cached_address, Some entry)
                        else descend (fuel I) I key lvl from_smo (Some entry) False (Some cached_node) cached_address
                   else CacheInvalidate entry (from_root (Some entry)))))
         else from_root None)"

subsection \<open>Candidates and slots\<close>

text \<open>
  The items are read into value-initialised objects: what a READ does not fill stays zero.
\<close>

definition item_of :: "Config \<Rightarrow> RDMAOut \<Rightarrow> KVItem" where
  "item_of c out = (case out_bytes out of
     Some bs \<Rightarrow> dec_item c (bs @ replicate (sizeof_KVItem c - length bs) 0)
   | None \<Rightarrow> dec_item c (replicate (sizeof_KVItem c) 0))"

definition get_candidate_kvs ::
  "FaunusIndex \<Rightarrow> LeafNode \<Rightarrow> Fingerprint \<Rightarrow> bool \<Rightarrow> bool \<Rightarrow> (bool \<times> (nat \<times> KVItem) list) fprog" where
  "get_candidate_kvs I leaf fp from_insert from_read =
     (let (found_smo, candidates_entries) = get_fingerprint_collisions leaf fp;
          sz = (if from_read then item_bytes I else of_nat (KEY_SIZE (cfg I)))
      in if found_smo \<and> \<not> from_read then Ret (False, [])
         else if from_insert \<and> length candidates_entries = 1 then Ret (True, [])
         else if candidates_entries = [] then Ret (True, [])
         else PerformBatch (get_read_batch sz (map snd candidates_entries)) (\<lambda>(ok, outs).
           assert_then ok
             (Ret (True, map (\<lambda>j. (fst (candidates_entries ! j), item_of (cfg I) (nth_out outs j)))
                            [0..<length candidates_entries]))))"

fun update_loop :: "nat \<Rightarrow> FaunusIndex \<Rightarrow> GlobalAddress \<Rightarrow> KVBlock \<Rightarrow> KVBlock \<Rightarrow> KVBlock \<Rightarrow> bool fprog" where
  "update_loop 0 I addr tmp expected new_kvblock = Abort Diverges"
| "update_loop (Suc n) I addr tmp expected new_kvblock =
     (if getFingerprint tmp = getFingerprint expected \<and> \<not> isFree tmp \<and> \<not> isLocked tmp
      then Perform (CasOp addr tmp new_kvblock) (\<lambda>(ok, out).
        assert_then ok
          (let tmp' = out_expected tmp out in
           if tmp' = tmp then Free (item_bytes I) (uintptr (getAddr tmp)) (Ret True)
           else update_loop n I addr tmp' tmp new_kvblock))
      else Ret False)"

definition try_update_kvblock :: "FaunusIndex \<Rightarrow> GlobalAddress \<Rightarrow> KVBlock \<Rightarrow> KVBlock \<Rightarrow> bool fprog" where
  "try_update_kvblock I addr expected_kvb new_kvblock =
     update_loop (fuel I) I addr expected_kvb expected_kvb new_kvblock"

fun random_fp :: "nat \<Rightarrow> Fingerprint \<Rightarrow> Fingerprint fprog" where
  "random_fp 0 old = Abort Diverges"
| "random_fp (Suc n) old = Rand64 (\<lambda>x.
     let new_fp = Fingerprint_of (ucast (x AND 0x0FFF)) in if new_fp = old then random_fp n old else Ret new_fp)"

fun random_addr :: "nat \<Rightarrow> GlobalAddress \<Rightarrow> GlobalAddress fprog" where
  "random_addr 0 old = Abort Diverges"
| "random_addr (Suc n) old = Rand64 (\<lambda>x.
     let new_addr = GlobalAddress_raw (x AND 0x0003FFFFFFFFFF)
     in if new_addr = old then random_addr n old else Ret new_addr)"

definition setDifferentRandomFpAddr :: "FaunusIndex \<Rightarrow> KVBlock \<Rightarrow> KVBlock fprog" where
  "setDifferentRandomFpAddr I b =
     bind (random_fp (fuel I) (getFingerprint b)) (\<lambda>fp.
       let b1 = setFingerprint b fp in
       bind (random_addr (fuel I) (getAddr b1)) (\<lambda>a. Ret (setAddr b1 a)))"

definition try_delete_kvblock :: "FaunusIndex \<Rightarrow> GlobalAddress \<Rightarrow> KVBlock \<Rightarrow> bool fprog" where
  "try_delete_kvblock I addr expected_kvb =
     bind (setDifferentRandomFpAddr I 0) (\<lambda>b.
       let new_kvb = setFree (setLocked b (isLocked expected_kvb)) True in
       Perform (CasOp addr expected_kvb new_kvb) (\<lambda>(ok, out).
         assert_then ok
           (if expected_kvb = kvb_ptr I
            then Free (item_bytes I) (uintptr (getAddr expected_kvb)) (Ret True)
            else Ret False)))"

text \<open>The loop over the candidates of \<^verbatim>\<open>handle_local_remove_dupes\<close>; it returns
  \<open>(result, found, value_out)\<close>.\<close>

fun dupes_loop ::
  "FaunusIndex \<Rightarrow> bytes \<Rightarrow> GlobalAddress \<Rightarrow> LeafNode \<Rightarrow> KVBlock \<Rightarrow> bool \<Rightarrow> bool \<Rightarrow> bytes option \<Rightarrow>
   (nat \<times> KVItem) list \<Rightarrow> (bool \<times> bool \<times> bytes option) fprog" where
  "dupes_loop I key leaf_address leaf new_kvblock from_update found value_out [] = Ret (True, found, value_out)"
| "dupes_loop I key leaf_address leaf new_kvblock from_update found value_out ((index, item) # rest) =
     (if key_eq (item_key item) key
      then if \<not> found
           then if from_update
                then bind (try_update_kvblock I (kvblock_address (cfg I) leaf_address index) (kv_blocks leaf ! index) new_kvblock)
                       (\<lambda>ok. Ret (ok, True, Some (item_value item)))
                else dupes_loop I key leaf_address leaf new_kvblock from_update True (Some (item_value item)) rest
           else bind (try_delete_kvblock I (kvblock_address (cfg I) leaf_address index) (kv_blocks leaf ! index))
                  (\<lambda>_. dupes_loop I key leaf_address leaf new_kvblock from_update found value_out rest)
      else dupes_loop I key leaf_address leaf new_kvblock from_update found value_out rest)"

definition handle_local_remove_dupes ::
  "FaunusIndex \<Rightarrow> bytes \<Rightarrow> GlobalAddress \<Rightarrow> LeafNode \<Rightarrow> KVBlock \<Rightarrow> bool \<Rightarrow> bool \<Rightarrow> bool \<Rightarrow>
   (bool \<times> bool \<times> bytes option) fprog" where
  "handle_local_remove_dupes I key leaf_address leaf new_kvblock from_insert from_read from_update =
     (if \<not> in_fence key (leaf_header leaf) then Ret (False, False, None)
      else if lock (leaf_header leaf) \<noteq> 0 \<and> \<not> from_read then Ret (False, False, None)
      else bind (get_candidate_kvs I leaf (Fingerprint_of_key key) from_insert from_read) (\<lambda>(success, candidate_kvs).
        if candidate_kvs = [] then Ret (success, False, None)
        else dupes_loop I key leaf_address leaf new_kvblock from_update False None candidate_kvs))"

subsection \<open>Reading\<close>

text \<open>
  One iteration of the retry loop: \<open>Inl cached_entry\<close> goes on with the next one, \<open>Inr (found, value)\<close>
  returns.
\<close>

definition read_attempt ::
  "FaunusIndex \<Rightarrow> bytes \<Rightarrow> nat \<Rightarrow> nat option \<Rightarrow> (nat option + (bool \<times> bytes option)) fprog" where
  "read_attempt I key attempt cached_entry =
     (let go = bind (find_node I key 0 False (attempt = 0)) (\<lambda>(find_result, leaf_address, entry).
            assert_then (find_result \<noteq> UNKNOWN \<and> find_result \<noteq> NO_SUCH_LEVEL)
              (if find_result \<noteq> FOUND then Ret (Inl entry)
               else bind (rdma_read_object leaf_address (leaf_bytes I)) (\<lambda>(ok, buf).
                 with_bytes buf (\<lambda>bs.
                   bind (handle_local_remove_dupes I key leaf_address (dec_leaf (cfg I) bs) 0 False True False)
                     (\<lambda>(success, found, value_out).
                        if \<not> success then Ret (Inl entry)
                        else if entry \<noteq> None then track I TrackCacheHit (Ret (Inr (found, value_out)))
                        else Ret (Inr (found, value_out)))))))
      in if attempt > 0
         then track I TrackRetry (if cached_entry \<noteq> None then track I TrackCacheMiss go else go)
         else go)"

primrec read_loop :: "nat \<Rightarrow> FaunusIndex \<Rightarrow> bytes \<Rightarrow> nat \<Rightarrow> nat option \<Rightarrow> (bool \<times> bytes option) fprog" where
  "read_loop 0 I key attempt cached_entry = Abort AssertionFailed"
| "read_loop (Suc n) I key attempt cached_entry =
     bind (read_attempt I key attempt cached_entry) (\<lambda>r. case r of
         Inl entry \<Rightarrow> read_loop n I key (Suc attempt) entry
       | Inr result \<Rightarrow> Ret result)"

definition faunus_read :: "FaunusIndex \<Rightarrow> bytes \<Rightarrow> (bool \<times> bytes option) fprog" where
  "faunus_read I key = read_loop 1000000 I key 0 None"

definition faunus_del :: "FaunusIndex \<Rightarrow> bytes \<Rightarrow> bool fprog" where
  "faunus_del I key = Ret False"

end
