(* ===== verification/Faunus_Update.thy ===== *)
theory Faunus_Update
  imports Faunus_Index
begin

text \<open>
  The part of \<^verbatim>\<open>src/src/kv_index/faunus_index.cpp\<close> that changes the structure of the tree: \<^verbatim>\<open>insert\<close>,
  the split of a leaf, the insertion of a separator into a parent, the split of an internal node,
  a new root, and the maintenance requests.
\<close>

subsection \<open>Locks\<close>

definition trylock_node :: "GlobalAddress \<Rightarrow> bool fprog" where
  "trylock_node node_address = rdma_try_acquire_lock (lock_address node_address)"

definition get_release_node_op :: "GlobalAddress \<Rightarrow> RDMAOp" where
  "get_release_node_op node_address = FaaOp (lock_address node_address) (-1)"

definition get_lock_unlock_kvblocks :: "FaunusIndex \<Rightarrow> GlobalAddress \<Rightarrow> bool \<Rightarrow> RDMAOp list" where
  "get_lock_unlock_kvblocks I leaf_address to_lock =
     map (\<lambda>i. FaaOp (kvblock_address (cfg I) leaf_address i) (if to_lock then 1 else -1)) [0..<branch_factor (cfg I)]"

subsection \<open>A new root\<close>

definition setup_new_root :: "FaunusIndex \<Rightarrow> bytes \<Rightarrow> GlobalAddress \<Rightarrow> u64 \<Rightarrow> bool fprog" where
  "setup_new_root I key right_child lvl =
     Allocate (node_bytes I) (\<lambda>off.
       bind (get_root_offset I) (\<lambda>old_root.
         let c = cfg I; new_root_address = GlobalAddress_raw off; n = InternalNode_init c; es = entries n;
             es1 = es[0 := \<lparr>entry_key = key, entry_child = old_root\<rparr>];
             es2 = es1[1 := (es1 ! 1)\<lparr>entry_child := right_child\<rparr>];
             new_root = \<lparr>node_header = (node_header n)\<lparr>level := lvl, fence_lo := ArrayVar_min (KEY_SIZE c),
                 fence_hi := ArrayVar_max (KEY_SIZE c), last_index := 1\<rparr>, entries = es2\<rparr>
         in if branch_factor c < 2 then Abort UndefinedBehaviour
            else bind (rdma_write_object new_root_address (enc_node c new_root)) (\<lambda>success.
              assert_then success
                (bind (update_root_offset I new_root_address) (\<lambda>success. assert_then success (Ret True))))))"

subsection \<open>Internal nodes\<close>

text \<open>
  \<^verbatim>\<open>split_internal_node\<close> and \<^verbatim>\<open>insert_internal_entry\<close> call each other, one level up at each call; the
  first two definitions take the recursive call as the argument \<open>rec\<close>.
\<close>

definition split_internal_node ::
  "(bytes \<Rightarrow> GlobalAddress \<Rightarrow> u64 \<Rightarrow> bool fprog) \<Rightarrow> FaunusIndex \<Rightarrow> GlobalAddress \<Rightarrow> InternalNode \<Rightarrow> bytes \<Rightarrow> GlobalAddress \<Rightarrow>
   bool fprog" where
  "split_internal_node rec I node_address node key new_child_addr =
     (let c = cfg I in
      case split_node c (split_entries c (oob I) key new_child_addr node) node of
        Inl e \<Rightarrow> Abort e
      | Inr (middle_key, new_node, node') \<Rightarrow>
          Allocate (node_bytes I) (\<lambda>off.
            let new_node_address = GlobalAddress_raw off in
            bind (rdma_write_batch [new_node_address, node_address] [enc_node c new_node, enc_node c node']) (\<lambda>ok.
              assert_then ok
                (bind (rec middle_key new_node_address (level (node_header node') + 1)) (\<lambda>success.
                   assert_then success (Ret False))))))"

text \<open>One iteration of the retry loop: \<open>Inl cached_entry\<close> goes on, \<open>Inr result\<close> returns.\<close>

definition internal_attempt ::
  "(bytes \<Rightarrow> GlobalAddress \<Rightarrow> u64 \<Rightarrow> bool fprog) \<Rightarrow> FaunusIndex \<Rightarrow> bytes \<Rightarrow> GlobalAddress \<Rightarrow> u64 \<Rightarrow> nat \<Rightarrow> nat option \<Rightarrow>
   (nat option + bool) fprog" where
  "internal_attempt rec I key new_child_addr lvl attempt cached_entry =
     (let go =
        bind (find_node I key lvl True (attempt = 0)) (\<lambda>(find_result, node_address, entry).
          assert_then (find_result \<noteq> UNKNOWN)
            (if find_result = NO_SUCH_LEVEL then bind (setup_new_root I key new_child_addr lvl) (\<lambda>b. Ret (Inr b))
             else if find_result \<noteq> FOUND then Ret (Inl entry)
             else (if attempt = 0 \<and> has_tracker I then track_cache I entry else id)
               (PerformBatch [CasOp (lock_address node_address) 0 1, ReadOp node_address True (node_bytes I)] (\<lambda>(ok, outs).
                 assert_then ok (with_bytes (out_bytes (nth_out outs 1)) (\<lambda>bs.
                   let node = dec_node (cfg I) bs; h = node_header node in
                   if out_expected 0 (nth_out outs 0) \<noteq> 0 then Ret (Inl entry)
                   else assert_then (level h = lvl)
                     (if \<not> in_fence key h
                      then bind (rdma_release_lock (lock_address node_address)) (\<lambda>ok. assert_then ok (Ret (Inl entry)))
                      else if \<not> unat (last_index h) < branch_factor (cfg I) then Abort UndefinedBehaviour
                      else
                        let found = has_separator key node;
                            need_split = (\<not> found \<and> last_index h + 1 \<ge> of_nat (branch_factor (cfg I)));
                            release = (\<lambda>ops. PerformBatch (ops @ [get_release_node_op node_address]) (\<lambda>(ok, outs).
                              assert_then ok (Ret (Inr True))))
                        in if need_split
                           then bind (split_internal_node rec I node_address node key new_child_addr) (\<lambda>_. release [])
                           else if \<not> found
                           then release [WriteOp node_address
                                  (Some (enc_node (cfg I) (insert_entry (oob I) key new_child_addr node))) (node_bytes I)]
                           else release [])))))))
      in if attempt > 0 \<and> has_cache I \<and> cached_entry \<noteq> None then invalidate_entry cached_entry go else go)"

primrec internal_loop ::
  "nat \<Rightarrow> (bytes \<Rightarrow> GlobalAddress \<Rightarrow> u64 \<Rightarrow> bool fprog) \<Rightarrow> FaunusIndex \<Rightarrow> bytes \<Rightarrow> GlobalAddress \<Rightarrow> u64 \<Rightarrow> nat \<Rightarrow> nat option \<Rightarrow>
   bool fprog" where
  "internal_loop 0 rec I key new_child_addr lvl attempt cached_entry = Ret False"
| "internal_loop (Suc n) rec I key new_child_addr lvl attempt cached_entry =
     bind (internal_attempt rec I key new_child_addr lvl attempt cached_entry) (\<lambda>r. case r of
         Inl entry \<Rightarrow> internal_loop n rec I key new_child_addr lvl (Suc attempt) entry
       | Inr result \<Rightarrow> Ret result)"

primrec insert_internal_entry :: "nat \<Rightarrow> FaunusIndex \<Rightarrow> bytes \<Rightarrow> GlobalAddress \<Rightarrow> u64 \<Rightarrow> bool fprog" where
  "insert_internal_entry 0 I = (\<lambda>key new_child_addr lvl. Abort Diverges)"
| "insert_internal_entry (Suc f) I = (\<lambda>key new_child_addr lvl.
     internal_loop 1000000 (insert_internal_entry f I) I key new_child_addr lvl 0 None)"

subsection \<open>Splitting a leaf\<close>

definition clear_slot :: "FaunusIndex \<Rightarrow> KVBlock \<Rightarrow> KVBlock fprog" where
  "clear_slot I b = bind (setDifferentRandomFpAddr I b) (\<lambda>b. Ret (setFree (setLocked b False) True))"

fun clear_loop ::
  "FaunusIndex \<Rightarrow> nat \<Rightarrow> bool \<Rightarrow> nat list \<Rightarrow> KVBlock list \<Rightarrow> KVBlock list \<Rightarrow> (KVBlock list \<times> KVBlock list) fprog" where
  "clear_loop I middle is_even [] l r = Ret (l, r)"
| "clear_loop I middle is_even (i # is) l r =
     bind (clear_slot I (l ! i)) (\<lambda>b.
       if i > middle \<or> is_even
       then bind (clear_slot I (r ! i)) (\<lambda>b'. clear_loop I middle is_even is (l[i := b]) (r[i := b']))
       else clear_loop I middle is_even is (l[i := b]) r)"

definition split_leaf :: "FaunusIndex \<Rightarrow> GlobalAddress \<Rightarrow> bool fprog" where
  "split_leaf I leaf_address =
     (let c = cfg I; bf = branch_factor c in
      bind (trylock_node leaf_address) (\<lambda>success.
      if \<not> success then Ret False
      else PerformBatch (get_lock_unlock_kvblocks I leaf_address True @ [ReadOp leaf_address True (leaf_bytes I)]) (\<lambda>(ok, outs).
        assert_then ok (with_bytes (out_bytes (nth_out outs bf)) (\<lambda>bs.
          let leaf = dec_leaf c bs; taken = filter (\<lambda>i. \<not> isFree (kv_blocks leaf ! i)) [0..<bf] in
          assert_then (lock (leaf_header leaf) \<noteq> 0)
          (assert_then (list_all isLocked (kv_blocks leaf))
          (bind (rdma_read_batch (of_nat (KEY_SIZE c)) (map (\<lambda>i. getAddr (kv_blocks leaf ! i)) taken)) (\<lambda>(ok, bufs).
            assert_then ok
            (let keys = map (\<lambda>buf. case buf of Some k \<Rightarrow> k | None \<Rightarrow> ArrayVar_default (KEY_SIZE c)) bufs;
                 es = leaf_entries (zip keys (map (\<lambda>i. kv_blocks leaf ! i) taken))
             in if length es \<le> bf div 2
                then PerformBatch (get_lock_unlock_kvblocks I leaf_address False @ [get_release_node_op leaf_address])
                       (\<lambda>(ok, outs). assert_then ok (Ret False))
                else Allocate (leaf_bytes I) (\<lambda>off.
                  let new_leaf_address = GlobalAddress_raw off; new_leaf = LeafNode_init c;
                      middle = length es div 2; middle_key = fst (es ! middle);
                      (l, r) = distribute es (kv_blocks leaf) (kv_blocks new_leaf)
                  in bind (clear_loop I middle (length es mod 2 = 0) [middle..<bf] l r) (\<lambda>(l, r).
                    let new_leaf' = \<lparr>leaf_header = (leaf_header new_leaf)
                           \<lparr>fence_lo := middle_key, fence_hi := fence_hi (leaf_header leaf)\<rparr>, kv_blocks = r\<rparr>;
                        leaf' = \<lparr>leaf_header = (leaf_header leaf)\<lparr>fence_hi := middle_key\<rparr>, kv_blocks = l\<rparr>
                    in bind (rdma_write_batch [new_leaf_address, leaf_address] [enc_leaf c new_leaf', enc_leaf c leaf']) (\<lambda>ok.
                      assert_then ok
                      (bind (insert_internal_entry (levels I) I middle_key new_leaf_address 1) (\<lambda>success.
                        assert_then success
                        (Perform (get_release_node_op leaf_address) (\<lambda>(ok, out). assert_then ok (Ret True)))))))))))))))))"

subsection \<open>Maintenance requests\<close>

definition hash_int :: "u64 \<Rightarrow> u64" where
  "hash_int x0 =
     (let x1 = (x0 XOR drop_bit 30 x0) * 0xbf58476d1ce4e5b9;
          x2 = (x1 XOR drop_bit 27 x1) * 0x94d049bb133111eb
      in x2 XOR drop_bit 31 x2)"

definition request_smo :: "FaunusIndex \<Rightarrow> SmoOp \<Rightarrow> GlobalAddress \<Rightarrow> bool fprog" where
  "request_smo I op leaf_address =
     (if MAINTENANCE_ENABLED (cfg I)
      then if num_queues I = 0 then Ret False
           else EnqueueSmo (unat (hash_int (uintptr leaf_address) mod of_nat (num_queues I))) op leaf_address (Ret True)
      else Ret True)"

subsection \<open>Insertion\<close>

record InsertState =
  wrote_kvitem :: bool
  leaf_read :: bool
  is_leaf_address :: GlobalAddress
  is_leaf :: LeafNode
  is_cached :: "nat option"

text \<open>
  The second half of an iteration, with the leaf at hand. As above, \<open>Inl\<close> is the state of the
  next iteration and \<open>Inr\<close> the result.
\<close>

definition insert_with_leaf ::
  "FaunusIndex \<Rightarrow> bytes \<Rightarrow> KVBlock \<Rightarrow> nat \<Rightarrow> InsertState \<Rightarrow> (InsertState + bool) fprog" where
  "insert_with_leaf I key kvb attempt st =
     (let c = cfg I; leaf = is_leaf st; leaf_address = is_leaf_address st; cached_entry = is_cached st;
          again = st\<lparr>leaf_read := False\<rparr>;
          finish = (\<lambda>b. track_cache I cached_entry (Ret (Inr b)))
      in bind (get_candidate_kvs I leaf (Fingerprint_of_key key) False False) (\<lambda>(success, candidate_kvs).
         if candidate_kvs = [] \<and> \<not> success then Ret (Inl again)
         else case find (\<lambda>(i, item). key_eq (item_key item) key) candidate_kvs of
           Some (index, item) \<Rightarrow>
             bind (try_update_kvblock I (kvblock_address c leaf_address index) (kv_blocks leaf ! index) kvb) finish
         | None \<Rightarrow>
             (case probe_slots c (mix64 (tid_hash I XOR of_nat attempt)) leaf of
                None \<Rightarrow> Ret (Inl again)
              | Some (Inl _) \<Rightarrow> Ret (Inl again)
              | Some (Inr index) \<Rightarrow>
                  let expected = kv_blocks leaf ! index in
                  PerformBatch [CasOp (kvblock_address c leaf_address index) expected kvb,
                                ReadOp leaf_address True (leaf_bytes I)] (\<lambda>(ok, outs).
                    assert_then ok (with_bytes (out_bytes (nth_out outs 1)) (\<lambda>bs.
                      let leaf' = dec_leaf c bs; h = leaf_header leaf';
                          success = (expected = out_expected expected (nth_out outs 0));
                          inside = (lock h = 0 \<and> in_fence key h)
                      in if \<not> success then Ret (Inl (st\<lparr>leaf_read := inside, is_leaf := leaf'\<rparr>))
                         else if \<not> inside then finish True
                         else if num_used leaf' > split_limit c
                         then if MAINTENANCE_ENABLED c
                              then bind (request_smo I SPLIT leaf_address) (\<lambda>success. assert_then success (finish True))
                              else bind (split_leaf I leaf_address) (\<lambda>_. finish True)
                         else bind (handle_local_remove_dupes I key leaf_address leaf' 0 True False False)
                                (\<lambda>_. finish True)))))))"

definition insert_attempt ::
  "FaunusIndex \<Rightarrow> bytes \<Rightarrow> KVItem \<Rightarrow> GlobalAddress \<Rightarrow> KVBlock \<Rightarrow> nat \<Rightarrow> InsertState \<Rightarrow> (InsertState + bool) fprog" where
  "insert_attempt I key kvitem kvitem_address kvb attempt st =
     (if leaf_read st then insert_with_leaf I key kvb attempt st
      else
        let go =
          bind (find_node I key 0 False (attempt = 0)) (\<lambda>(find_result, leaf_address, entry).
            let st1 = st\<lparr>is_leaf_address := leaf_address, is_cached := entry\<rparr> in
            assert_then (find_result \<noteq> UNKNOWN \<and> find_result \<noteq> NO_SUCH_LEVEL)
            (if find_result \<noteq> FOUND then Ret (Inl st1)
             else PerformBatch (ReadOp leaf_address True (leaf_bytes I) #
                 (if wrote_kvitem st then [] else [WriteOp kvitem_address (Some (enc_item kvitem)) (item_bytes I)])) (\<lambda>(ok, outs).
               assert_then ok (with_bytes (out_bytes (nth_out outs 0)) (\<lambda>bs.
                 let leaf = dec_leaf (cfg I) bs; h = leaf_header leaf;
                     st2 = st1\<lparr>wrote_kvitem := True, is_leaf := leaf\<rparr>
                 in assert_then (level h = 0)
                    (if lock h \<noteq> 0 \<or> \<not> in_fence key h then Ret (Inl st2)
                     else insert_with_leaf I key kvb attempt st2))))))
        in if attempt > 0
           then track I TrackRetry (if has_cache I then invalidate_entry (is_cached st) go else go)
           else go)"

primrec insert_loop ::
  "nat \<Rightarrow> FaunusIndex \<Rightarrow> bytes \<Rightarrow> KVItem \<Rightarrow> GlobalAddress \<Rightarrow> KVBlock \<Rightarrow> nat \<Rightarrow> InsertState \<Rightarrow> bool fprog" where
  "insert_loop 0 I key kvitem kvitem_address kvb attempt st = Abort AssertionFailed"
| "insert_loop (Suc n) I key kvitem kvitem_address kvb attempt st =
     bind (insert_attempt I key kvitem kvitem_address kvb attempt st) (\<lambda>r. case r of
         Inl st' \<Rightarrow> insert_loop n I key kvitem kvitem_address kvb (Suc attempt) st'
       | Inr result \<Rightarrow> Ret result)"

definition faunus_insert :: "FaunusIndex \<Rightarrow> bytes \<Rightarrow> bytes \<Rightarrow> bool fprog" where
  "faunus_insert I key val =
     Allocate (item_bytes I) (\<lambda>off.
       let kvitem_address = GlobalAddress_raw off;
           kvb = KVBlock_of (Fingerprint_of_key key) kvitem_address False False
       in insert_loop 1000000 I key \<lparr>item_key = key, item_value = val\<rparr> kvitem_address kvb 0
            \<lparr>wrote_kvitem = False, leaf_read = False, is_leaf_address = Null, is_leaf = LeafNode_init (cfg I), is_cached = None\<rparr>)"

end
