(* ===== verification/Regions.thy ===== *)
theory Regions
  imports Faunus_Layout
begin

text \<open>
  Vocabulary that the correctness proofs of both indexes share: regions of remote memory that do not overlap,
  and the key-value items that leaves refer to.
\<close>

subsection \<open>Disjoint regions\<close>

definition regions_apart :: "(GlobalAddress \<times> nat) list \<Rightarrow> bool" where
  "regions_apart = sorted_wrt (\<lambda>x y. apart (fst x) (snd x) (fst y) (snd y))"

lemma apart_commute: "apart g n h k \<longleftrightarrow> apart h k g n"
  by (auto simp: apart_def)

lemma regions_apart_simps [simp]:
  "regions_apart []"
  "regions_apart (x # xs) \<longleftrightarrow> (\<forall>y \<in> set xs. apart (fst x) (snd x) (fst y) (snd y)) \<and> regions_apart xs"
  by (simp_all add: regions_apart_def)

lemma regions_apart_append:
  "regions_apart (xs @ ys) \<longleftrightarrow> regions_apart xs \<and> regions_apart ys \<and>
    (\<forall>x \<in> set xs. \<forall>y \<in> set ys. apart (fst x) (snd x) (fst y) (snd y))"
  by (auto simp: regions_apart_def sorted_wrt_append)

lemma regions_apart_mset: "mset xs = mset ys \<Longrightarrow> regions_apart xs = regions_apart ys"
proof (induction xs arbitrary: ys)
  case (Cons x xs)
  then have "x \<in> set ys" by (metis list.set_intros(1) set_mset_mset)
  then obtain as bs where ys: "ys = as @ x # bs" by (meson split_list)
  then have m: "mset xs = mset (as @ bs)" using Cons.prems by simp
  then have "set xs = set (as @ bs)" by (rule mset_eq_setD)
  then show ?case
    using Cons.IH [OF m] by (auto simp: ys regions_apart_append apart_commute)
qed simp

lemma regions_apart_pick:
  assumes "regions_apart xs" and "x \<in> set xs" and "y \<in> set xs" and "x \<noteq> y"
  shows "apart (fst x) (snd x) (fst y) (snd y)"
proof -
  obtain as bs where xs: "xs = as @ x # bs" using assms(2) by (meson split_list)
  then show ?thesis using assms by (auto simp: regions_apart_append apart_commute)
qed

lemma regions_apart_mid:
  assumes "regions_apart (us @ y # vs)"
  shows "\<forall>x \<in> set us \<union> set vs. apart (fst y) (snd y) (fst x) (snd x)"
  using assms by (auto simp: regions_apart_append apart_commute)

lemma regions_apart_insert:
  assumes "regions_apart (us @ vs)" and "\<forall>x \<in> set (us @ vs). apart (fst y) (snd y) (fst x) (snd x)"
  shows "regions_apart (us @ y # vs)"
  using assms by (auto simp: regions_apart_append apart_commute)

lemma regions_apart_distinct:
  assumes "regions_apart xs" and "\<forall>x \<in> set xs. 0 < snd x"
  shows "distinct xs"
  using assms by (induction xs) (auto simp: apart_def)

lemma apart_sub:
  assumes "rm_small r" and "rm_valid r g m" and "n + k \<le> m" and "0 < k" and "apart g m h j"
  shows "apart (gaddr_add g (of_nat n)) k h j"
  using sub_address [OF assms(1-4)] assms(3,5) by (auto simp: apart_def)

subsection \<open>Items\<close>

definition item_pair :: "KVItem \<Rightarrow> bytes \<times> bytes" where
  "item_pair it = (item_key it, item_value it)"

lemma length_item_key_at:
  "rm_valid r g (sizeof_KVItem c) \<Longrightarrow> length (item_key (item_at c r g)) = KEY_SIZE c"
  by (simp add: item_at_def dec_item_def rm.length_load sizeof_KVItem_def length_bslice)

lemma map_of_filter_key:
  "(\<And>x. x \<in> set xs \<Longrightarrow> fst (f x) = k \<Longrightarrow> P x) \<Longrightarrow> map_of (map f (filter P xs)) k = map_of (map f xs) k"
proof (induction xs)
  case (Cons x xs)
  then have "map_of (map f (filter P xs)) k = map_of (map f xs) k" by simp
  then show ?case using Cons.prems [of x] by (cases "f x") auto
qed simp

lemma map_of_insert:
  "k \<notin> fst ` set xs \<Longrightarrow> map_of (xs @ (k, v) # ys) = (map_of (xs @ ys))(k \<mapsto> v)"
  by (induction xs) (auto simp: fun_eq_iff)

subsection \<open>What a sequence of stores leaves alone\<close>

definition changes :: "rmemory \<Rightarrow> rmemory \<Rightarrow> (GlobalAddress \<times> nat) list \<Rightarrow> bool" where
  "changes r r' xs \<longleftrightarrow> (\<forall>g n. rm_valid r' g n = rm_valid r g n) \<and> rm_small r' = rm_small r \<and>
     (\<forall>h k. rm_valid r h k \<longrightarrow> (\<forall>x \<in> set xs. apart (fst x) (snd x) h k) \<longrightarrow> rm_load r' h k = rm_load r h k)"

lemma changesD:
  assumes "changes r r' xs"
  shows "rm_valid r' g n = rm_valid r g n" "rm_small r' = rm_small r"
    "rm_valid r h k \<Longrightarrow> \<forall>x \<in> set xs. apart (fst x) (snd x) h k \<Longrightarrow> rm_load r' h k = rm_load r h k"
  using assms by (simp_all add: changes_def)

lemma changes_store: "rm_valid r g (length bs) \<Longrightarrow> changes r (rm_store r g bs) [(g, length bs)]"
  by (simp add: changes_def rm.valid_store rm_small_store rm.load_store_apart)

lemma changes_trans: "changes r r1 xs \<Longrightarrow> changes r1 r2 ys \<Longrightarrow> changes r r2 (xs @ ys)"
  by (simp add: changes_def)

lemma changes_mono: "changes r r' xs \<Longrightarrow>
    (\<And>h k. rm_valid r h k \<Longrightarrow> \<forall>y \<in> set ys. apart (fst y) (snd y) h k \<Longrightarrow> \<forall>x \<in> set xs. apart (fst x) (snd x) h k) \<Longrightarrow> changes r r' ys"
  by (simp add: changes_def)

lemma changes_sub_store:
  assumes "rm_small r" and "rm_valid r g m" and "n + length bs \<le> m" and "0 < length bs"
  shows "changes r (rm_store r (gaddr_add g (of_nat n)) bs) [(g, m)]"
  by (rule changes_mono [OF changes_store]) (use sub_valid [OF assms] apart_sub [OF assms] in auto)

end
