(* ===== verification/Faunus_Correct.thy ===== *)
theory Faunus_Correct
  imports Faunus_Update Regions
begin

text \<open>
  What the operations of \<^verbatim>\<open>src/src/kv_index/faunus_index.cpp\<close> do to an index in remote memory when one client
  runs alone: the tree that \<^verbatim>\<open>initialize\<close> creates, well-formed trees and the search in them, and the
  result of \<^verbatim>\<open>read\<close>. The programs run on the contents of the memory regions; the refinement in
  \<open>Client_Prog\<close> carries the results over to the manager.
\<close>


subsection \<open>Creating the tree\<close>

lemma config_sizes:
  assumes "config_ok c"
  shows "sizeof_LeafNode c < 2 ^ 32" and "sizeof_InternalNode c < 2 ^ 32" and "sizeof_KVItem c < 2 ^ 32"
    and "0 < sizeof_LeafNode c" and "0 < sizeof_InternalNode c" and "0 < sizeof_KVItem c"
proof -
  have k: "0 < KEY_SIZE c" "KEY_SIZE c \<le> 1024" "VALUE_SIZE c \<le> 1024" "branch_factor c \<le> 256"
    using assms by (simp_all add: config_ok_def)
  have pads: "header_pad c < 8" "node_pad c < 8" by (simp_all add: header_pad_def node_pad_def)
  have "branch_factor c * sizeof_InternalEntry c \<le> 256 * (1024 + 8)"
    using k by (intro mult_le_mono) (simp_all add: sizeof_InternalEntry_def)
  then show "sizeof_InternalNode c < 2 ^ 32"
    using k pads by (simp add: sizeof_InternalNode_def sizeof_Header_def)
  show "sizeof_LeafNode c < 2 ^ 32" "sizeof_KVItem c < 2 ^ 32"
      "0 < sizeof_LeafNode c" "0 < sizeof_InternalNode c" "0 < sizeof_KVItem c"
    using k pads by (simp_all add: sizeof_LeafNode_def sizeof_KVItem_def sizeof_InternalNode_def sizeof_Header_def)
qed

lemma unat_sizes:
  assumes "config_ok (cfg I)"
  shows "unat (leaf_bytes I) = sizeof_LeafNode (cfg I)" and "unat (node_bytes I) = sizeof_InternalNode (cfg I)"
    and "unat (item_bytes I) = sizeof_KVItem (cfg I)" and "unat (of_nat (KEY_SIZE (cfg I)) :: u64) = KEY_SIZE (cfg I)"
  using config_sizes [OF assms] assms
  by (simp_all add: leaf_bytes_def node_bytes_def item_bytes_def unat_of_nat config_ok_def)

definition root_at :: "FaunusIndex \<Rightarrow> rmemory \<Rightarrow> GlobalAddress" where
  "root_at I r = GlobalAddress_raw (rm_load64 r (root_offset_pointer I))"

lemma get_root_offset_run:
  assumes "rm_ok r" and "rm_valid r (root_offset_pointer I) 8"
  shows "run (mem_handler E) (get_root_offset I) (r, e) = Inr (root_at I r, (r, e))"
  using assms by (simp add: get_root_offset_def mem_run assert_then_def with_bytes_def root_at_def rm_load64_def)

lemma update_root_offset_run:
  assumes "rm_ok r" and "rm_valid r (root_offset_pointer I) 8"
    and "unat (rm_load64 r (root_offset_pointer I)) < 2 ^ 50"
  shows "run (mem_handler E) (update_root_offset I g) (r, e) =
    Inr (True, (rm_store r (root_offset_pointer I) (bytes_of_u64 (uintptr g)), e))"
proof -
  have "uintptr (root_at I r) = rm_load64 r (root_offset_pointer I)"
    using assms(3) by (simp only: root_at_def uintptr_GlobalAddress_raw)
  then show ?thesis
    using assms by (simp add: update_root_offset_def run_bind get_root_offset_run mem_run)
qed

definition root_leaf :: "Config \<Rightarrow> LeafNode" where
  "root_leaf c = (LeafNode_init c)\<lparr>leaf_header := (Header_init c)
     \<lparr>fence_lo := ArrayVar_min (KEY_SIZE c), fence_hi := ArrayVar_max (KEY_SIZE c)\<rparr>\<rparr>"

lemma root_leaf_wf: "leaf_wf c (root_leaf c)"
  by (simp add: root_leaf_def leaf_wf_def header_wf_def LeafNode_init_def Header_init_def length_ArrayVar)

lemma initialize_run:
  assumes cfg: "config_ok (cfg I)" and ok: "rm_ok r"
    and alloc: "e_alloc E 8 e = Inr (ptr, e1)" "e_alloc E (leaf_bytes I) e1 = Inr (off, e2)"
    and valid: "rm_valid r (GlobalAddress_raw ptr) 8" "rm_valid r (GlobalAddress_raw off) (sizeof_LeafNode (cfg I))"
    and apart: "apart (GlobalAddress_raw off) (sizeof_LeafNode (cfg I)) (GlobalAddress_raw ptr) 8"
    and zero: "rm_load64 r (GlobalAddress_raw ptr) = 0"
    and new: "I' = I\<lparr>root_offset_pointer := GlobalAddress_raw ptr, num_queues := if nq > 0 then nq else num_queues I\<rparr>"
  shows "\<exists>r'. run (mem_handler E) (initialize I nq) (r, e) = Inr ((True, I'), (r', e2)) \<and>
    rm_load64 r' (GlobalAddress_raw ptr) = uintptr (GlobalAddress_raw off) \<and>
    root_at I' r' = GlobalAddress_raw off \<and> leaf_at (cfg I) r' (GlobalAddress_raw off) = root_leaf (cfg I) \<and>
    rm_small r' = rm_small r \<and> (\<forall>g n. rm_valid r' g n = rm_valid r g n)"
proof -
  let ?p = "GlobalAddress_raw ptr" and ?g = "GlobalAddress_raw off" and ?c = "cfg I"
  define I1 where "I1 = I\<lparr>root_offset_pointer := ?p\<rparr>"
  have len: "length (enc_leaf ?c (root_leaf ?c)) = sizeof_LeafNode ?c" using root_leaf_wf by (rule length_enc_leaf)
  define r1 where "r1 = rm_store r ?g (enc_leaf ?c (root_leaf ?c))"
  define r2 where "r2 = rm_store r1 ?p (bytes_of_u64 (uintptr ?g))"
  have r1: "rm_ok r1" "\<And>g n. rm_valid r1 g n = rm_valid r g n"
    using valid(2) ok len by (simp_all add: r1_def rm_ok_store rm_valid_store)
  have p1: "rm_load64 r1 ?p = 0"
    using rm_load_store_apart [of r ?g "enc_leaf ?c (root_leaf ?c)" ?p 8] valid apart len zero
    by (simp add: r1_def rm_load64_def)
  have v1: "rm_valid r1 ?p (length (bytes_of_u64 (uintptr ?g)))" using valid(1) r1(2) by simp
  have "run (mem_handler E) (initialize I nq) (r, e) =
      Inr ((True, I'), (r2, e2))"
    using alloc ok valid(2) len r1 valid(1) p1 rdma_write_object_run [of r ?g "enc_leaf ?c (root_leaf ?c)" E e2]
      update_root_offset_run [of r1 I1 E ?g e2]
    by (simp add: initialize_def mem_run Let_def run_bind root_leaf_def [symmetric] r1_def [symmetric] I1_def r2_def new)
  moreover have "leaf_at ?c r2 ?g = root_leaf ?c"
  proof -
    have "apart ?p 8 ?g (sizeof_LeafNode ?c)" using apart by (auto simp: apart_def)
    then have "leaf_at ?c r2 ?g = leaf_at ?c r1 ?g"
      using v1 valid(2) r1(2) rm_load_store_apart [OF v1, of ?g "sizeof_LeafNode ?c"]
      by (simp add: leaf_at_def r2_def)
    also have "\<dots> = root_leaf ?c" unfolding r1_def using valid(2) root_leaf_wf by (rule leaf_at_store)
    finally show ?thesis .
  qed
  moreover have root: "rm_load64 r2 ?p = uintptr ?g"
    using rm.load_store_same [OF v1] by (simp add: rm_load64_def r2_def)
  moreover have "root_at I' r2 = ?g" using root by (simp add: root_at_def new)
  moreover have "rm_small r2 = rm_small r" "\<And>g n. rm_valid r2 g n = rm_valid r g n"
    using r1 rm_small_store [OF v1] rm_valid_store [OF v1] rm_small_store [of r ?g "enc_leaf ?c (root_leaf ?c)"] valid(2) len
    by (simp_all add: r2_def r1_def)
  ultimately show ?thesis by (intro exI [of _ r2]) simp
qed


subsection \<open>Well-formed trees in memory\<close>

text \<open>
  \<open>subtree c r g n lo hi\<close>: at \<open>g\<close> there is an unlocked node of level \<open>n\<close> whose subtree is responsible
  for the keys from \<open>lo\<close> up to but not including \<open>hi\<close>. The bounds of the children of an internal
  node are its fences and its separators.
\<close>

definition bounds :: "InternalNode \<Rightarrow> bytes list" where
  "bounds nd = fence_lo (node_header nd) # separators nd @ [fence_hi (node_header nd)]"

inductive subtree :: "Config \<Rightarrow> rmemory \<Rightarrow> GlobalAddress \<Rightarrow> nat \<Rightarrow> bytes \<Rightarrow> bytes \<Rightarrow> bool" for c r where
  leaf: "rm_valid r g (sizeof_LeafNode c) \<Longrightarrow> h = leaf_header (leaf_at c r g) \<Longrightarrow> lock h = 0 \<Longrightarrow> level h = 0 \<Longrightarrow>
    subtree c r g 0 (fence_lo h) (fence_hi h)"
| node: "rm_valid r g (sizeof_InternalNode c) \<Longrightarrow> nd = node_at c r g \<Longrightarrow> node_ok c nd \<Longrightarrow>
    lock (node_header nd) = 0 \<Longrightarrow> unat (level (node_header nd)) = Suc n \<Longrightarrow>
    (\<And>i. i < length (children nd) \<Longrightarrow> subtree c r (children nd ! i) n (bounds nd ! i) (bounds nd ! Suc i)) \<Longrightarrow>
    subtree c r g (Suc n) (fence_lo (node_header nd)) (fence_hi (node_header nd))"

inductive_cases subtree_SucE: "subtree c r g (Suc n) lo hi"
inductive_cases subtree_0E: "subtree c r g 0 lo hi"

text \<open>\<open>leads c r key g n l\<close>: the search for \<open>key\<close> from the node at \<open>g\<close> of level \<open>n\<close> ends at the leaf \<open>l\<close>.\<close>

inductive leads :: "Config \<Rightarrow> rmemory \<Rightarrow> bytes \<Rightarrow> GlobalAddress \<Rightarrow> nat \<Rightarrow> GlobalAddress \<Rightarrow> bool" for c r key where
  here: "rm_valid r g (sizeof_InternalNode c) \<Longrightarrow> lock (node_header (node_at c r g)) = 0 \<Longrightarrow>
    level (node_header (node_at c r g)) = 0 \<Longrightarrow> leads c r key g 0 g"
| parent: "rm_valid r g (sizeof_InternalNode c) \<Longrightarrow> lock (node_header (node_at c r g)) = 0 \<Longrightarrow>
    level (node_header (node_at c r g)) = 1 \<Longrightarrow> next_child key (node_at c r g) = Inr l \<Longrightarrow> g \<noteq> l \<Longrightarrow> leads c r key g 1 l"
| inner: "rm_valid r g (sizeof_InternalNode c) \<Longrightarrow> lock (node_header (node_at c r g)) = 0 \<Longrightarrow>
    unat (level (node_header (node_at c r g))) = Suc (Suc n) \<Longrightarrow>
    next_child key (node_at c r g) = Inr g' \<Longrightarrow> g \<noteq> g' \<Longrightarrow> leads c r key g' (Suc n) l \<Longrightarrow>
    leads c r key g (Suc (Suc n)) l"

lemma subtree_level:
  assumes "subtree c r g n lo hi"
  shows "unat (level (node_header (node_at c r g))) = n"
  using assms by (cases rule: subtree.cases) (simp_all add: node_header_of_leaf)

text \<open>The leaf that the separators make responsible for a key, from the node at \<open>g\<close> of level \<open>n\<close>.\<close>

primrec leaf_for :: "Config \<Rightarrow> rmemory \<Rightarrow> nat \<Rightarrow> GlobalAddress \<Rightarrow> bytes \<Rightarrow> GlobalAddress" where
  "leaf_for c r 0 g key = g"
| "leaf_for c r (Suc n) g key =
     leaf_for c r n (route (separators (node_at c r g)) (children (node_at c r g)) key) key"

lemma unat_1_level: "unat (w :: u64) = Suc 0 \<longleftrightarrow> w = 1"
proof
  assume "unat w = Suc 0"
  then have "(of_nat (unat w) :: u64) = 1" by simp
  then show "w = 1" by simp
qed simp

lemma rank_bounds:
  assumes "node_ok c nd" and "be_val (fence_lo (node_header nd)) \<le> be_val key" and "be_val key < be_val (fence_hi (node_header nd))"
  defines "j \<equiv> rank (separators nd) key"
  shows "j < length (children nd)" and "be_val (bounds nd ! j) \<le> be_val key" and "be_val key < be_val (bounds nd ! Suc j)"
proof -
  have sorted: "sorted_wrt (<) (map be_val (separators nd))" using assms(1) by (simp add: node_ok_def)
  have j: "j \<le> length (separators nd)" using rank_le by (simp add: j_def)
  then show "j < length (children nd)" using node_parts(2,3) [OF assms(1)] by simp
  show "be_val (bounds nd ! j) \<le> be_val key"
    using j assms(2) sorted_rank_nth [OF sorted, of "j - 1" key] unfolding j_def [symmetric]
    by (cases j) (auto simp: bounds_def nth_append)
  show "be_val key < be_val (bounds nd ! Suc j)"
    using j assms(3) sorted_rank_nth [OF sorted, of j key] unfolding j_def [symmetric]
    by (auto simp: bounds_def nth_append)
qed

lemma subtree_leads:
  assumes "subtree c r g n lo hi" and "length key = KEY_SIZE c" and "rm_valid r g (sizeof_InternalNode c)"
    and "be_val lo \<le> be_val key" and "be_val key < be_val hi"
  shows "leads c r key g n (leaf_for c r n g key) \<and>
    (\<exists>lo' hi'. subtree c r (leaf_for c r n g key) 0 lo' hi' \<and> be_val lo' \<le> be_val key \<and> be_val key < be_val hi')"
  using assms
proof (induction rule: subtree.induct)
  case (leaf g h)
  then have "leads c r key g 0 g" by (intro leads.here) (simp_all add: node_header_of_leaf)
  moreover have "subtree c r g 0 (fence_lo h) (fence_hi h)" using leaf.hyps by (rule subtree.leaf)
  ultimately show ?case using leaf.prems by auto
next
  case (node g nd n)
  define j where "j = rank (separators nd) key"
  note b = rank_bounds [OF node.hyps(3) node.prems(3,4), folded j_def]
  let ?g' = "children nd ! j"
  have nxt: "next_child key (node_at c r g) = Inr ?g'"
    using next_child_route [OF node.hyps(3) node.prems(1)] node.hyps(2) by (simp add: route_def j_def)
  have for_leaf: "leaf_for c r (Suc n) g key = leaf_for c r n ?g' key"
    using node.hyps(2) by (simp add: route_def j_def)
  have sub: "subtree c r ?g' n (bounds nd ! j) (bounds nd ! Suc j)" by (rule node.hyps(6)) (rule b(1))
  have ne: "g \<noteq> ?g'"
  proof
    assume "g = ?g'"
    then have "unat (level (node_header nd)) = n" using subtree_level [OF sub] node.hyps(2) by simp
    then show False using node.hyps(5) by simp
  qed
  show ?case
  proof (cases n)
    case 0
    then have "leads c r key g (Suc n) ?g'"
      using node.hyps nxt ne leads.parent [of r g c key ?g'] by (simp add: unat_1_level)
    then show ?thesis unfolding for_leaf using sub 0 b(2,3) by auto
  next
    case (Suc m)
    then have "rm_valid r ?g' (sizeof_InternalNode c)" using sub by (auto elim: subtree_SucE)
    note IH = node.IH [OF b(1) node.prems(1) this b(2,3)]
    then have "leads c r key g (Suc n) (leaf_for c r n ?g' key)"
      using Suc node.hyps nxt ne leads.inner [of r g c m key ?g' "leaf_for c r n ?g' key"] by simp
    then show ?thesis unfolding for_leaf using IH by blast
  qed
qed

subsection \<open>Searching\<close>

lemma descend_run:
  assumes "leads c r key g n l" and "rm_ok r" and "config_ok c" and "cfg I = c" and "\<not> has_cache I" and "n \<le> f"
  shows "run (mem_handler E) (descend (Suc f) I key 0 False None in_root None g) (r, e) = Inr ((FOUND, l, None), (r, e))"
  using assms
proof (induction arbitrary: f in_root rule: leads.induct)
  case (here g)
  then show ?case
    using rdma_read_object_run [of r g "node_bytes I" E e] unat_sizes(2) [of I]
    by (simp add: run_bind with_bytes_def Let_def node_at_def [symmetric])
next
  case (parent g l)
  then show ?case
    using rdma_read_object_run [of r g "node_bytes I" E e] unat_sizes(2) [of I]
    by (simp add: run_bind with_bytes_def Let_def node_at_def [symmetric] assert_then_def)
next
  case (inner g n g' l)
  obtain f' where f: "f = Suc f'" using inner.prems(5) by (cases f) auto
  have lv: "level (node_header (node_at c r g)) \<noteq> 0" "level (node_header (node_at c r g)) \<noteq> 1"
    using inner.hyps(3) by auto
  have "run (mem_handler E) (descend (Suc f) I key 0 False None in_root None g) (r, e) =
      run (mem_handler E) (descend f I key 0 False None False None g') (r, e)"
    using inner.hyps inner.prems rdma_read_object_run [of r g "node_bytes I" E e] unat_sizes(2) [of I] lv
    by (simp add: run_bind with_bytes_def Let_def node_at_def [symmetric] assert_then_def)
  then show ?case using inner.IH [of f' False] inner.prems f by simp
qed

lemma find_node_run:
  assumes "leads (cfg I) r key (root_at I r) n l" and "rm_ok r" and "config_ok (cfg I)" and "\<not> has_cache I" and "n < fuel I"
    and "rm_valid r (root_offset_pointer I) 8"
  shows "run (mem_handler E) (find_node I key 0 False use_cache) (r, e) = Inr ((FOUND, l, None), (r, e))"
proof -
  obtain f where "fuel I = Suc f" using assms(5) by (cases "fuel I") auto
  then show ?thesis
    using assms descend_run [OF assms(1,2,3) refl assms(4), of f]
    by (simp add: find_node_def run_bind get_root_offset_run)
qed


subsection \<open>The contents of a leaf\<close>

lemma map_nth_filter:
  "map (\<lambda>i. g (xs ! i)) (filter (\<lambda>i. Q (xs ! i)) [0..<length xs]) = map g (filter Q xs)"
proof -
  have "map g (filter Q (map ((!) xs) [0..<length xs])) = map (\<lambda>i. g (xs ! i)) (filter (\<lambda>i. Q (xs ! i)) [0..<length xs])"
    unfolding filter_map map_map by (simp add: comp_def)
  then show ?thesis by (simp add: map_nth)
qed

definition slot_item :: "Config \<Rightarrow> rmemory \<Rightarrow> KVBlock \<Rightarrow> KVItem" where
  "slot_item c r b = item_at c r (getAddr b)"

definition taken_slots :: "LeafNode \<Rightarrow> KVBlock list" where
  "taken_slots l = filter (\<lambda>b. \<not> isFree b) (kv_blocks l)"

definition leaf_ok :: "Config \<Rightarrow> rmemory \<Rightarrow> LeafNode \<Rightarrow> bool" where
  "leaf_ok c r l \<longleftrightarrow>
     (\<forall>b \<in> set (taken_slots l). rm_valid r (getAddr b) (sizeof_KVItem c) \<and>
        getFingerprint b = Fingerprint_of_key (item_key (slot_item c r b)) \<and> in_fence (item_key (slot_item c r b)) (leaf_header l)) \<and>
     distinct (map (\<lambda>b. item_key (slot_item c r b)) (taken_slots l)) \<and> \<not> list_ex isLocked (kv_blocks l)"

definition leaf_map :: "Config \<Rightarrow> rmemory \<Rightarrow> LeafNode \<Rightarrow> bytes \<rightharpoonup> bytes" where
  "leaf_map c r l = map_of (map (\<lambda>b. item_pair (slot_item c r b)) (taken_slots l))"

definition candidates_of :: "Config \<Rightarrow> rmemory \<Rightarrow> LeafNode \<Rightarrow> Fingerprint \<Rightarrow> (nat \<times> KVItem) list" where
  "candidates_of c r l fp =
     map (\<lambda>(i, a). (i, item_at c r a)) (snd (get_fingerprint_collisions l fp))"

lemma collisions_filter:
  "snd (get_fingerprint_collisions l fp) =
     map (\<lambda>i. (i, getAddr (kv_blocks l ! i)))
       (filter (\<lambda>i. \<not> isFree (kv_blocks l ! i) \<and> getFingerprint (kv_blocks l ! i) = fp) [0..<length (kv_blocks l)])"
proof -
  have "[(i, g i). i \<leftarrow> xs, P i] = map (\<lambda>i. (i, g i)) (filter P xs)" for xs :: "nat list" and g :: "nat \<Rightarrow> GlobalAddress" and P
    by (induction xs) simp_all
  then show ?thesis by (simp add: get_fingerprint_collisions_def)
qed

lemma candidates_of_items:
  "map (\<lambda>x. f (snd x)) (candidates_of c r l fp) =
     map (\<lambda>b. f (slot_item c r b)) (filter (\<lambda>b. getFingerprint b = fp) (taken_slots l))"
  using map_nth_filter [of "\<lambda>b. f (slot_item c r b)" "kv_blocks l" "\<lambda>b. \<not> isFree b \<and> getFingerprint b = fp"]
  by (simp add: candidates_of_def collisions_filter taken_slots_def slot_item_def comp_def conj_commute)

lemma candidates_of_map:
  assumes "leaf_ok c r l"
  shows "map_of (map (\<lambda>x. item_pair (snd x)) (candidates_of c r l (Fingerprint_of_key key))) key = leaf_map c r l key"
    and "distinct (map (\<lambda>x. item_key (snd x)) (candidates_of c r l fp))"
proof -
  show "map_of (map (\<lambda>x. item_pair (snd x)) (candidates_of c r l (Fingerprint_of_key key))) key = leaf_map c r l key"
    unfolding candidates_of_items leaf_map_def
    by (rule map_of_filter_key) (use assms in \<open>auto simp: leaf_ok_def item_pair_def\<close>)
  show "distinct (map (\<lambda>x. item_key (snd x)) (candidates_of c r l fp))"
    unfolding candidates_of_items
    by (rule distinct_map_filter) (use assms in \<open>simp add: leaf_ok_def\<close>)
qed

subsection \<open>Reading the candidates\<close>

lemma rm_steps_reads [simp]:
  "rm_steps r (get_read_batch n gs) = (map (\<lambda>g. ReadOut (rm_load r g (unat n))) gs, r)"
  by (induction gs) (simp_all add: get_read_batch_def)

lemma get_read_batch_valid:
  "list_all (op_valid r) (get_read_batch n gs) \<longleftrightarrow> (\<forall>g \<in> set gs. rm_valid r g (unat n))"
  by (simp add: get_read_batch_def list_all_iff)

lemma map_nth_snd:
  "map (\<lambda>j. (fst (xs ! j), F (nth_out (map G (map snd xs)) j))) [0..<length xs] = map (\<lambda>(i, a). (i, F (G a))) xs"
  by (rule nth_equalityI) (simp_all add: nth_out_def split_beta)

definition read_size :: "Config \<Rightarrow> bool \<Rightarrow> nat" where
  "read_size c from_read = (if from_read then sizeof_KVItem c else KEY_SIZE c)"

lemma collisions_valid:
  assumes "leaf_ok c r l" and "(i, a) \<in> set (snd (get_fingerprint_collisions l fp))"
  shows "rm_valid r a (sizeof_KVItem c)"
  using assms by (auto simp: collisions_filter leaf_ok_def taken_slots_def)

lemma get_candidate_kvs_run:
  assumes "config_ok (cfg I)" and "rm_ok r" and "leaf_ok (cfg I) r l" and "from_read \<or> \<not> list_ex isLocked (kv_blocks l)"
  shows "run (mem_handler E) (get_candidate_kvs I l fp False from_read) (r, e) =
    Inr ((True, map (\<lambda>(i, a). (i, item_of (cfg I) (ReadOut (rm_load r a (read_size (cfg I) from_read)))))
                  (snd (get_fingerprint_collisions l fp))), (r, e))"
proof -
  let ?n = "if from_read then item_bytes I else of_nat (KEY_SIZE (cfg I))"
  have n: "unat ?n = read_size (cfg I) from_read"
    using unat_sizes(3,4) [OF assms(1)] by (simp add: read_size_def)
  have "read_size (cfg I) from_read \<le> sizeof_KVItem (cfg I)" by (simp add: read_size_def sizeof_KVItem_def)
  then have "list_all (op_valid r) (get_read_batch ?n (map snd (snd (get_fingerprint_collisions l fp))))"
    unfolding get_read_batch_valid n using collisions_valid [OF assms(3)] rm.valid_mono by fastforce
  then show ?thesis
    using assms(2,4) n
    by (auto simp: get_candidate_kvs_def mem_run assert_then_def split_beta Let_def map_nth_snd
        get_fingerprint_collisions_def [THEN arg_cong [of _ _ fst]] simp del: map_map)
qed

lemma item_of_read:
  "rm_valid r g (sizeof_KVItem c) \<Longrightarrow> item_of c (ReadOut (rm_load r g (sizeof_KVItem c))) = item_at c r g"
  by (simp add: item_of_def item_at_def rm.length_load)

lemma get_candidate_kvs_read_run:
  assumes "config_ok (cfg I)" and "rm_ok r" and "leaf_ok (cfg I) r l"
  shows "run (mem_handler E) (get_candidate_kvs I l fp False True) (r, e) =
    Inr ((True, candidates_of (cfg I) r l fp), (r, e))"
proof -
  have "map (\<lambda>(i, a). (i, item_of (cfg I) (ReadOut (rm_load r a (read_size (cfg I) True)))))
      (snd (get_fingerprint_collisions l fp)) = candidates_of (cfg I) r l fp"
    unfolding candidates_of_def
    by (rule map_cong) (use collisions_valid [OF assms(3)] in \<open>auto simp: item_of_read read_size_def\<close>)
  then show ?thesis by (subst get_candidate_kvs_run [OF assms]) simp_all
qed

lemma dupes_loop_found:
  "key \<notin> set (map (\<lambda>x. item_key (snd x)) cs) \<Longrightarrow> \<forall>x \<in> set cs. length (item_key (snd x)) = length key \<Longrightarrow>
    dupes_loop I key g l b False found v cs = Ret (True, found, v)"
  by (induction cs) (auto simp: key_eq_iff)

lemma dupes_loop_unique:
  assumes "distinct (map (\<lambda>x. item_key (snd x)) cs)" and "\<forall>x \<in> set cs. length (item_key (snd x)) = length key"
  defines "m \<equiv> map_of (map (\<lambda>x. item_pair (snd x)) cs)"
  shows "dupes_loop I key g l b False False None cs = Ret (True, m key \<noteq> None, m key)"
  using assms(1,2) unfolding m_def
  by (induction cs) (auto simp: key_eq_iff item_pair_def dupes_loop_found)

lemma handle_local_remove_dupes_read:
  assumes "config_ok (cfg I)" and "rm_ok r" and "leaf_ok (cfg I) r l" and "length key = KEY_SIZE (cfg I)"
    and "in_fence key (leaf_header l)"
  shows "run (mem_handler E) (handle_local_remove_dupes I key g l b False True False) (r, e) =
    Inr ((True, leaf_map (cfg I) r l key \<noteq> None, leaf_map (cfg I) r l key), (r, e))"
proof -
  let ?cs = "candidates_of (cfg I) r l (Fingerprint_of_key key)"
  have "\<forall>x \<in> set ?cs. length (item_key (snd x)) = length key"
    using assms(3,4) length_item_key_at
    by (fastforce simp: candidates_of_def collisions_filter leaf_ok_def taken_slots_def)
  note loop = dupes_loop_unique [OF candidates_of_map(2) [OF assms(3)] this, unfolded candidates_of_map(1) [OF assms(3)]]
  have "leaf_map (cfg I) r l key = None" if "?cs = []"
    using candidates_of_map(1) [OF assms(3), of key] that by simp
  then show ?thesis
    using assms(5) loop
    by (simp add: handle_local_remove_dupes_def run_bind get_candidate_kvs_read_run [OF assms(1-3)])
qed


subsection \<open>Reading a key\<close>

text \<open>
  \<open>tree_ok\<close>: the shape of an index in memory between operations. \<open>tree_map\<close> is what it stores, by the
  leaf that the fences and separators make responsible for a key.
\<close>

definition tree_ok :: "FaunusIndex \<Rightarrow> rmemory \<Rightarrow> nat \<Rightarrow> bool" where
  "tree_ok I r n \<longleftrightarrow> config_ok (cfg I) \<and> rm_ok r \<and> n < fuel I \<and>
     rm_valid r (root_offset_pointer I) 8 \<and> rm_valid r (root_at I r) (sizeof_InternalNode (cfg I)) \<and>
     subtree (cfg I) r (root_at I r) n (ArrayVar_min (KEY_SIZE (cfg I))) (ArrayVar_max (KEY_SIZE (cfg I)))"

lemma tree_leaf:
  assumes "tree_ok I r n" and "length key = KEY_SIZE (cfg I)" and "key \<noteq> ArrayVar_max (KEY_SIZE (cfg I))"
  defines "l \<equiv> leaf_for (cfg I) r n (root_at I r) key"
  shows "leads (cfg I) r key (root_at I r) n l" and "rm_valid r l (sizeof_LeafNode (cfg I))"
    and "lock (leaf_header (leaf_at (cfg I) r l)) = 0" and "level (leaf_header (leaf_at (cfg I) r l)) = 0"
    and "in_fence key (leaf_header (leaf_at (cfg I) r l))"
proof -
  let ?c = "cfg I"
  have "be_val (ArrayVar_min (KEY_SIZE ?c)) \<le> be_val key" "be_val key < be_val (ArrayVar_max (KEY_SIZE ?c))"
    using key_min_le [OF assms(2)] key_lt_max_iff [OF assms(2)] assms(2,3)
    by (simp_all add: key_ge_iff key_lt_iff length_ArrayVar)
  then obtain lo hi where l: "leads ?c r key (root_at I r) n l" "subtree ?c r l 0 lo hi"
      "be_val lo \<le> be_val key" "be_val key < be_val hi"
    using subtree_leads [of ?c r "root_at I r" n] assms(1,2) unfolding tree_ok_def l_def by blast
  from l(2) have leaf: "rm_valid r l (sizeof_LeafNode ?c)" "lock (leaf_header (leaf_at ?c r l)) = 0"
      "level (leaf_header (leaf_at ?c r l)) = 0"
      "lo = fence_lo (leaf_header (leaf_at ?c r l))" "hi = fence_hi (leaf_header (leaf_at ?c r l))"
    by (auto elim: subtree_0E)
  have "length lo = KEY_SIZE ?c" "length hi = KEY_SIZE ?c"
    using leaf header_fits(3) [of ?c]
    by (simp_all add: leaf_at_def dec_leaf_def dec_header_def rm.length_load length_bslice sizeof_Header_def)
  then show "in_fence key (leaf_header (leaf_at ?c r l))"
    using l(3,4) leaf(4,5) assms(2) by (auto simp: in_fence_def key_order_simps)
  show "leads ?c r key (root_at I r) n l" by (rule l(1))
  show "rm_valid r l (sizeof_LeafNode ?c)" "lock (leaf_header (leaf_at ?c r l)) = 0"
      "level (leaf_header (leaf_at ?c r l)) = 0"
    by (rule leaf)+
qed

definition tree_map :: "FaunusIndex \<Rightarrow> rmemory \<Rightarrow> nat \<Rightarrow> bytes \<rightharpoonup> bytes" where
  "tree_map I r n key =
     leaf_map (cfg I) r (leaf_at (cfg I) r (leaf_for (cfg I) r n (root_at I r) key)) key"

lemma read_attempt_run:
  assumes ok: "tree_ok I r n" and cache: "\<not> has_cache I"
    and key: "length key = KEY_SIZE (cfg I)" "key \<noteq> ArrayVar_max (KEY_SIZE (cfg I))"
    and leaf: "leaf_ok (cfg I) r (leaf_at (cfg I) r (leaf_for (cfg I) r n (root_at I r) key))"
  shows "run (mem_handler E) (read_attempt I key 0 None) (r, e) =
    Inr (Inr (tree_map I r n key \<noteq> None, tree_map I r n key), (r, e))"
proof -
  define l where "l = leaf_for (cfg I) r n (root_at I r) key"
  note at = tree_leaf [OF ok key, folded l_def]
  have t: "config_ok (cfg I)" "rm_ok r" "n < fuel I" "rm_valid r (root_offset_pointer I) 8"
    using ok by (simp_all add: tree_ok_def)
  have read: "run (mem_handler E) (rdma_read_object l (leaf_bytes I)) (r, e) =
      Inr ((True, Some (rm_load r l (sizeof_LeafNode (cfg I)))), (r, e))"
    using rdma_read_object_run [OF t(2), of l "leaf_bytes I"] at(2) by (simp add: unat_sizes(1) [OF t(1)])
  show ?thesis
    by (simp add: read_attempt_def run_bind assert_then_def with_bytes_def leaf_at_def [symmetric] tree_map_def
        l_def [symmetric] read find_node_run [OF at(1) t(2,1) cache t(3,4)]
        handle_local_remove_dupes_read [OF t(1,2) leaf [folded l_def] key(1) at(5)])
qed

lemma million_Suc: obtains N where "(1000000 :: nat) = Suc N"
  by (metis Suc_pred zero_less_numeral)

lemma faunus_read_run:
  assumes "tree_ok I r n" and "\<not> has_cache I"
    and "length key = KEY_SIZE (cfg I)" "key \<noteq> ArrayVar_max (KEY_SIZE (cfg I))"
    and "leaf_ok (cfg I) r (leaf_at (cfg I) r (leaf_for (cfg I) r n (root_at I r) key))"
  shows "run (mem_handler E) (faunus_read I key) (r, e) =
    Inr ((tree_map I r n key \<noteq> None, tree_map I r n key), (r, e))"
proof -
  obtain N where N: "(1000000 :: nat) = Suc N" by (rule million_Suc)
  show ?thesis
    unfolding faunus_read_def N read_loop.simps run_bind read_attempt_run [OF assms] by simp
qed

end
