(* ===== verification/Faunus_Map.thy ===== *)
theory Faunus_Map
  imports Faunus_Correct
begin

text \<open>
  The index as a finite map. \<open>tree_inv\<close> is the invariant of an index in remote memory between
  operations: a well-formed tree whose leaves refer to items with matching fingerprints and distinct
  keys, with all nodes and items in disjoint regions (the \<open>footprint\<close>). \<open>tree_map\<close> (in
  \<open>Faunus_Correct\<close>) is the map it stores. The lemmas say how stores change both, and what \<^verbatim>\<open>insert\<close> does.
\<close>

subsection \<open>The parts of a tree\<close>

primrec inner_nodes :: "Config \<Rightarrow> rmemory \<Rightarrow> nat \<Rightarrow> GlobalAddress \<Rightarrow> GlobalAddress list" where
  "inner_nodes c r 0 g = []"
| "inner_nodes c r (Suc n) g = g # concat (map (inner_nodes c r n) (children (node_at c r g)))"

primrec leaves :: "Config \<Rightarrow> rmemory \<Rightarrow> nat \<Rightarrow> GlobalAddress \<Rightarrow> GlobalAddress list" where
  "leaves c r 0 g = [g]"
| "leaves c r (Suc n) g = concat (map (leaves c r n) (children (node_at c r g)))"

definition leaf_items :: "Config \<Rightarrow> LeafNode \<Rightarrow> (GlobalAddress \<times> nat) list" where
  "leaf_items c l = map (\<lambda>b. (getAddr b, sizeof_KVItem c)) (taken_slots l)"

definition node_regions :: "FaunusIndex \<Rightarrow> rmemory \<Rightarrow> nat \<Rightarrow> (GlobalAddress \<times> nat) list" where
  "node_regions I r n =
     (root_offset_pointer I, 8) #
     map (\<lambda>g. (g, sizeof_InternalNode (cfg I))) (inner_nodes (cfg I) r n (root_at I r)) @
     map (\<lambda>g. (g, sizeof_LeafNode (cfg I))) (leaves (cfg I) r n (root_at I r))"

definition item_regions :: "FaunusIndex \<Rightarrow> rmemory \<Rightarrow> nat \<Rightarrow> (GlobalAddress \<times> nat) list" where
  "item_regions I r n =
     concat (map (\<lambda>l. leaf_items (cfg I) (leaf_at (cfg I) r l)) (leaves (cfg I) r n (root_at I r)))"

definition footprint :: "FaunusIndex \<Rightarrow> rmemory \<Rightarrow> nat \<Rightarrow> (GlobalAddress \<times> nat) list" where
  "footprint I r n = node_regions I r n @ item_regions I r n"

definition tree_inv :: "FaunusIndex \<Rightarrow> rmemory \<Rightarrow> nat \<Rightarrow> bool" where
  "tree_inv I r n \<longleftrightarrow> tree_ok I r n \<and> rm_small r \<and> rm_load64 r (root_offset_pointer I) = uintptr (root_at I r) \<and> regions_apart (footprint I r n) \<and>
     (\<forall>h \<in> set (inner_nodes (cfg I) r n (root_at I r)). spare_ok (node_at (cfg I) r h)) \<and>
     (\<forall>l \<in> set (leaves (cfg I) r n (root_at I r)). leaf_ok (cfg I) r (leaf_at (cfg I) r l))"

text \<open>Two memories that show the same inner nodes and leaf headers show the same tree.\<close>

lemma rank_child: "node_ok c nd \<Longrightarrow> rank (separators nd) key < length (children nd)"
  using rank_le [of "separators nd" key] node_parts(2,3) [of c nd] by simp

lemma route_child: "node_ok c nd \<Longrightarrow> route (separators nd) (children nd) key \<in> set (children nd)"
  using rank_child by (simp add: route_def)

lemma leaf_for_leaves:
  assumes "subtree c r g n lo hi"
  shows "leaf_for c r n g key \<in> set (leaves c r n g)"
  using assms
proof (induction rule: subtree.induct)
  case (node g nd n)
  let ?j = "rank (separators nd) key"
  have j: "?j < length (children nd)" using node.hyps(3) by (rule rank_child)
  have "leaf_for c r n (children nd ! ?j) key \<in> set (leaves c r n (children nd ! ?j))" using j by (rule node.IH)
  then show ?case using j node.hyps(2) by (auto simp: route_def intro!: bexI [of _ "children nd ! ?j"])
qed simp

lemma same_shape:
  assumes "subtree c r g n lo hi" and "\<forall>h \<in> set (inner_nodes c r n g). node_at c r' h = node_at c r h"
  shows "inner_nodes c r' n g = inner_nodes c r n g" and "leaves c r' n g = leaves c r n g"
    and "leaf_for c r' n g key = leaf_for c r n g key"
proof -
  have "inner_nodes c r' n g = inner_nodes c r n g \<and> leaves c r' n g = leaves c r n g \<and>
      leaf_for c r' n g key = leaf_for c r n g key"
    using assms
  proof (induction rule: subtree.induct)
    case (node g nd n)
    have nd: "node_at c r' g = nd" using node.prems node.hyps(2) by simp
    have IH: "inner_nodes c r' n h = inner_nodes c r n h \<and> leaves c r' n h = leaves c r n h \<and>
        leaf_for c r' n h key = leaf_for c r n h key" if h: "h \<in> set (children nd)" for h
    proof -
      obtain i where i: "i < length (children nd)" "h = children nd ! i" using h by (metis in_set_conv_nth)
      have "\<forall>k \<in> set (inner_nodes c r n h). node_at c r' k = node_at c r k"
        using node.prems h node.hyps(2) by auto
      then show ?thesis using node.IH [OF i(1)] i(2) by blast
    qed
    have "leaf_for c r' n (route (separators nd) (children nd) key) key =
        leaf_for c r n (route (separators nd) (children nd) key) key"
      using IH route_child [OF node.hyps(3)] by blast
    then show ?case
      using IH node.hyps(2) nd by (simp cong: map_cong)
  qed simp
  then show "inner_nodes c r' n g = inner_nodes c r n g" and "leaves c r' n g = leaves c r n g"
    and "leaf_for c r' n g key = leaf_for c r n g key" by blast+
qed

lemma same_subtree:
  assumes "subtree c r g n lo hi" and "\<forall>h \<in> set (inner_nodes c r n g). node_at c r' h = node_at c r h"
    and "\<forall>h \<in> set (leaves c r n g). leaf_header (leaf_at c r' h) = leaf_header (leaf_at c r h)"
    and "\<And>g n. rm_valid r' g n = rm_valid r g n"
  shows "subtree c r' g n lo hi"
  using assms(1-3)
proof (induction rule: subtree.induct)
  case (leaf g h)
  then have "h = leaf_header (leaf_at c r' g)" by simp
  then show ?case using leaf.hyps(1,3,4) assms(4) by (intro subtree.leaf) simp_all
next
  case (node g nd n)
  show ?case
  proof (rule subtree.node)
    show "nd = node_at c r' g" using node.prems(1) node.hyps(2) by simp
    fix i assume i: "i < length (children nd)"
    then have "children nd ! i \<in> set (children nd)" by simp
    then show "subtree c r' (children nd ! i) n (bounds nd ! i) (bounds nd ! Suc i)"
      using node.IH [OF i] node.prems node.hyps(2) by auto
  qed (use node.hyps assms(4) in simp_all)
qed

lemma subtree_valid:
  assumes "subtree c r g n lo hi"
  shows "(\<forall>h \<in> set (inner_nodes c r n g). rm_valid r h (sizeof_InternalNode c)) \<and>
    (\<forall>h \<in> set (leaves c r n g). rm_valid r h (sizeof_LeafNode c))"
  using assms
proof (induction rule: subtree.induct)
  case (node g nd n)
  have "(\<forall>h \<in> set (inner_nodes c r n k). rm_valid r h (sizeof_InternalNode c)) \<and>
      (\<forall>h \<in> set (leaves c r n k). rm_valid r h (sizeof_LeafNode c))" if "k \<in> set (children nd)" for k
    using node.IH that by (metis in_set_conv_nth)
  then show ?case using node.hyps(1,2) by auto
qed simp


subsection \<open>Changing one slot of a leaf\<close>

definition slot_part :: "KVBlock \<Rightarrow> KVBlock list" where
  "slot_part b = (if isFree b then [] else [b])"

lemma taken_slots_split:
  assumes "i < length (kv_blocks l)"
  shows "\<exists>xs ys. taken_slots l = xs @ slot_part (kv_blocks l ! i) @ ys \<and>
    (\<forall>v. taken_slots (l\<lparr>kv_blocks := (kv_blocks l)[i := v]\<rparr>) = xs @ slot_part v @ ys)"
proof (intro exI conjI allI)
  let ?P = "\<lambda>b. \<not> isFree b"
  show "taken_slots l = filter ?P (take i (kv_blocks l)) @ slot_part (kv_blocks l ! i) @ filter ?P (drop (Suc i) (kv_blocks l))"
    unfolding taken_slots_def slot_part_def
    by (subst id_take_nth_drop [OF assms]) (simp only: filter_append filter.simps, simp)
  show "taken_slots (l\<lparr>kv_blocks := (kv_blocks l)[i := v]\<rparr>) =
      filter ?P (take i (kv_blocks l)) @ slot_part v @ filter ?P (drop (Suc i) (kv_blocks l))" for v
    using assms by (simp add: taken_slots_def slot_part_def upd_conv_take_nth_drop)
qed

lemma leaf_put:
  assumes ok: "leaf_ok c r l" and i: "i < length (kv_blocks l)"
    and items: "\<forall>b \<in> set (taken_slots l). slot_item c r' b = slot_item c r b"
    and valid: "\<And>g n. rm_valid r' g n = rm_valid r g n"
    and v: "\<not> isFree v" "rm_valid r (getAddr v) (sizeof_KVItem c)" "slot_item c r' v = it"
      "getFingerprint v = Fingerprint_of_key (item_key it)" "\<not> isLocked v" "in_fence (item_key it) (leaf_header l)"
    and old: "if isFree (kv_blocks l ! i) then leaf_map c r l (item_key it) = None
      else item_key (slot_item c r (kv_blocks l ! i)) = item_key it"
  defines "l' \<equiv> l\<lparr>kv_blocks := (kv_blocks l)[i := v]\<rparr>"
  shows "leaf_ok c r' l'" and "leaf_map c r' l' = (leaf_map c r l)(item_key it \<mapsto> item_value it)"
    and "mset (leaf_items c l') + mset (map (\<lambda>b. (getAddr b, sizeof_KVItem c)) (slot_part (kv_blocks l ! i))) =
      add_mset (getAddr v, sizeof_KVItem c) (mset (leaf_items c l))"
proof -
  let ?b = "kv_blocks l ! i" and ?key = "\<lambda>b. item_key (slot_item c r b)" and ?pair = "\<lambda>b. item_pair (slot_item c r b)"
  obtain xs ys where l: "taken_slots l = xs @ slot_part ?b @ ys"
      and upd: "\<forall>v. taken_slots (l\<lparr>kv_blocks := (kv_blocks l)[i := v]\<rparr>) = xs @ slot_part v @ ys"
    using taken_slots_split [OF i] by blast
  have l': "taken_slots l' = xs @ [v] @ ys" using upd v(1) by (simp add: l'_def slot_part_def)
  have same: "slot_item c r' b = slot_item c r b" if "b \<in> set xs \<union> set ys" for b
    using items that by (auto simp: l)
  have dist: "distinct (map ?key (taken_slots l))" using ok by (simp add: leaf_ok_def)
  have fresh: "item_key it \<notin> ?key ` (set xs \<union> set ys)"
  proof (cases "isFree ?b")
    case True
    then have "leaf_map c r l (item_key it) = None" using old by simp
    then have "item_key it \<notin> fst ` set (map ?pair (taken_slots l))" by (simp add: leaf_map_def map_of_eq_None_iff)
    then show ?thesis by (simp add: l item_pair_def image_Un image_image)
  next
    case False
    then have "?key ?b = item_key it" "slot_part ?b = [?b]" using old by (simp_all add: slot_part_def)
    then show ?thesis using dist by (auto simp: l)
  qed
  show "leaf_ok c r' l'"
    unfolding leaf_ok_def
  proof (intro conjI)
    show "\<forall>b \<in> set (taken_slots l'). rm_valid r' (getAddr b) (sizeof_KVItem c) \<and>
        getFingerprint b = Fingerprint_of_key (item_key (slot_item c r' b)) \<and> in_fence (item_key (slot_item c r' b)) (leaf_header l')"
      using ok v same valid by (auto simp: leaf_ok_def l l') (simp_all add: l'_def)
    have "map (\<lambda>b. item_key (slot_item c r' b)) (taken_slots l') = map ?key xs @ item_key it # map ?key ys"
      using same v(3) by (simp add: l')
    then show "distinct (map (\<lambda>b. item_key (slot_item c r' b)) (taken_slots l'))"
      using dist fresh by (auto simp: l)
    show "\<not> list_ex isLocked (kv_blocks l')"
      using ok v(5) by (auto simp: leaf_ok_def l'_def list_ex_iff dest!: set_update_subset_insert [THEN subsetD])
  qed
  have "map (\<lambda>b. item_pair (slot_item c r' b)) (taken_slots l') = map ?pair xs @ item_pair it # map ?pair ys"
    using same v(3) by (simp add: l')
  then have new: "leaf_map c r' l' = (map_of (map ?pair xs @ map ?pair ys))(item_key it \<mapsto> item_value it)"
    using fresh map_of_insert [of "item_key it" "map ?pair xs" "item_value it" "map ?pair ys"]
    by (auto simp: leaf_map_def item_pair_def image_iff)
  have "(leaf_map c r l)(item_key it \<mapsto> item_value it) = (map_of (map ?pair xs @ map ?pair ys))(item_key it \<mapsto> item_value it)"
  proof (cases "isFree ?b")
    case False
    then have "slot_part ?b = [?b]" "?key ?b = item_key it" using old by (simp_all add: slot_part_def)
    moreover have "item_key it \<notin> fst ` set (map ?pair xs)" using fresh by (auto simp: item_pair_def)
    ultimately show ?thesis
      using map_of_insert [of "item_key it" "map ?pair xs" "item_value (slot_item c r ?b)" "map ?pair ys"]
      by (simp add: leaf_map_def l item_pair_def)
  qed (simp add: leaf_map_def l slot_part_def)
  then show "leaf_map c r' l' = (leaf_map c r l)(item_key it \<mapsto> item_value it)" using new by simp
  show "mset (leaf_items c l') + mset (map (\<lambda>b. (getAddr b, sizeof_KVItem c)) (slot_part ?b)) =
      add_mset (getAddr v, sizeof_KVItem c) (mset (leaf_items c l))"
    by (simp add: leaf_items_def l l')
qed


text \<open>What a change of memory that keeps the nodes and the headers of the leaves leaves as it was.\<close>

lemma tree_same_shape:
  assumes ok: "tree_ok I r n" and small: "rm_small r'" and valid: "\<And>g n. rm_valid r' g n = rm_valid r g n"
    and root: "root_at I r' = root_at I r"
    and nodes: "\<forall>h \<in> set (inner_nodes (cfg I) r n (root_at I r)). node_at (cfg I) r' h = node_at (cfg I) r h"
    and headers: "\<forall>h \<in> set (leaves (cfg I) r n (root_at I r)).
      leaf_header (leaf_at (cfg I) r' h) = leaf_header (leaf_at (cfg I) r h)"
  shows "tree_ok I r' n" and "node_regions I r' n = node_regions I r n"
    and "leaves (cfg I) r' n (root_at I r') = leaves (cfg I) r n (root_at I r)"
    and "leaf_for (cfg I) r' n (root_at I r') key = leaf_for (cfg I) r n (root_at I r) key"
    and "inner_nodes (cfg I) r' n (root_at I r') = inner_nodes (cfg I) r n (root_at I r)"
proof -
  have sub: "subtree (cfg I) r (root_at I r) n (ArrayVar_min (KEY_SIZE (cfg I))) (ArrayVar_max (KEY_SIZE (cfg I)))"
    using ok by (simp add: tree_ok_def)
  note shape = same_shape [OF sub nodes]
  show "tree_ok I r' n"
    using ok same_subtree [OF sub nodes headers valid] rm_small_ok [OF small] by (simp add: tree_ok_def root valid)
  show "node_regions I r' n = node_regions I r n" by (simp add: node_regions_def root shape)
  show "leaves (cfg I) r' n (root_at I r') = leaves (cfg I) r n (root_at I r)"
    and "leaf_for (cfg I) r' n (root_at I r') key = leaf_for (cfg I) r n (root_at I r) key"
    and "inner_nodes (cfg I) r' n (root_at I r') = inner_nodes (cfg I) r n (root_at I r)"
    by (simp_all add: root shape)
qed

lemma footprint_members:
  assumes "l \<in> set (leaves (cfg I) r n (root_at I r))"
  shows "(l, sizeof_LeafNode (cfg I)) \<in> set (node_regions I r n)"
    and "set (leaf_items (cfg I) (leaf_at (cfg I) r l)) \<subseteq> set (item_regions I r n)"
  using assms by (auto simp: node_regions_def item_regions_def)

lemma item_footprint:
  assumes "l \<in> set (leaves (cfg I) r n (root_at I r))" and "b \<in> set (taken_slots (leaf_at (cfg I) r l))"
  shows "(getAddr b, sizeof_KVItem (cfg I)) \<in> set (footprint I r n)"
  using assms by (auto simp: footprint_def item_regions_def leaf_items_def)

text \<open>Writing outside of the footprint changes nothing.\<close>

lemma leaf_ok_cong:
  assumes "\<forall>b \<in> set (taken_slots l). slot_item c r' b = slot_item c r b" and "\<And>g n. rm_valid r' g n = rm_valid r g n"
  shows "leaf_ok c r' l = leaf_ok c r l" and "leaf_map c r' l = leaf_map c r l"
proof -
  have "map (\<lambda>b. f (slot_item c r' b)) (taken_slots l) = map (\<lambda>b. f (slot_item c r b)) (taken_slots l)"
    for f :: "KVItem \<Rightarrow> 'a" using assms(1) by simp
  then show "leaf_map c r' l = leaf_map c r l" by (metis leaf_map_def)
  have keys: "map (\<lambda>b. item_key (slot_item c r' b)) (taken_slots l) = map (\<lambda>b. item_key (slot_item c r b)) (taken_slots l)"
    using assms(1) by simp
  show "leaf_ok c r' l = leaf_ok c r l" unfolding leaf_ok_def keys using assms by simp
qed

lemma root_at_cong: "rm_load r' (root_offset_pointer I) 8 = rm_load r (root_offset_pointer I) 8 \<Longrightarrow> root_at I r' = root_at I r"
  by (simp add: root_at_def rm_load64_def)

lemma tree_frame:
  assumes inv: "tree_inv I r n" and small: "rm_small r'" and valid: "\<And>g n. rm_valid r' g n = rm_valid r g n"
    and same: "\<forall>x \<in> set (footprint I r n). rm_load r' (fst x) (snd x) = rm_load r (fst x) (snd x)"
  shows "tree_inv I r' n" and "footprint I r' n = footprint I r n" and "tree_map I r' n = tree_map I r n"
    and "leaves (cfg I) r' n (root_at I r') = leaves (cfg I) r n (root_at I r)"
    and "leaf_for (cfg I) r' n (root_at I r') key = leaf_for (cfg I) r n (root_at I r) key"
    and "\<And>l. l \<in> set (leaves (cfg I) r n (root_at I r)) \<Longrightarrow> leaf_at (cfg I) r' l = leaf_at (cfg I) r l \<and>
      leaf_map (cfg I) r' (leaf_at (cfg I) r' l) = leaf_map (cfg I) r (leaf_at (cfg I) r l)"
proof -
  let ?c = "cfg I" and ?ls = "leaves (cfg I) r n (root_at I r)"
  have ok: "tree_ok I r n" using inv by (simp add: tree_inv_def)
  have ptr: "rm_load r' (root_offset_pointer I) 8 = rm_load r (root_offset_pointer I) 8"
    using same by (simp add: footprint_def node_regions_def)
  have root: "root_at I r' = root_at I r" by (rule root_at_cong [OF ptr])
  have nodes: "\<forall>h \<in> set (inner_nodes ?c r n (root_at I r)). node_at ?c r' h = node_at ?c r h"
    using same by (simp add: footprint_def node_regions_def node_at_def ball_Un)
  have leaf: "leaf_at ?c r' l = leaf_at ?c r l" if "l \<in> set ?ls" for l
    using same footprint_members(1) [OF that] by (force simp: footprint_def leaf_at_def)
  have items: "\<forall>b \<in> set (taken_slots (leaf_at ?c r l)). slot_item ?c r' b = slot_item ?c r b" if "l \<in> set ?ls" for l
  proof
    fix b assume "b \<in> set (taken_slots (leaf_at ?c r l))"
    then have "(getAddr b, sizeof_KVItem ?c) \<in> set (footprint I r n)"
      using item_footprint [OF that] by simp
    then show "slot_item ?c r' b = slot_item ?c r b" using same by (force simp: slot_item_def item_at_def)
  qed
  note shape = tree_same_shape [OF ok small valid root nodes]
  have shape: "tree_ok I r' n" "node_regions I r' n = node_regions I r n" "leaves ?c r' n (root_at I r') = ?ls"
      "leaf_for ?c r' n (root_at I r') key = leaf_for ?c r n (root_at I r) key"
      "inner_nodes ?c r' n (root_at I r') = inner_nodes ?c r n (root_at I r)" for key
    using leaf by (auto intro!: shape)
  show lv: "leaves ?c r' n (root_at I r') = ?ls" by (rule shape)
  show lf: "leaf_for ?c r' n (root_at I r') key = leaf_for ?c r n (root_at I r) key" for key by (rule shape)
  show maps: "leaf_at ?c r' l = leaf_at ?c r l \<and> leaf_map ?c r' (leaf_at ?c r' l) = leaf_map ?c r (leaf_at ?c r l)"
    if "l \<in> set ?ls" for l
    using leaf [OF that] leaf_ok_cong(2) [OF items [OF that] valid] by simp
  show fp: "footprint I r' n = footprint I r n"
    using leaf by (simp add: footprint_def item_regions_def shape lv cong: map_cong)
  show "tree_inv I r' n"
    using inv shape(1,5) nodes small fp lv leaf leaf_ok_cong(1) [OF items valid] ptr root by (simp add: tree_inv_def rm_load64_def)
  show "tree_map I r' n = tree_map I r n"
  proof
    fix key
    have "leaf_for ?c r n (root_at I r) key \<in> set ?ls" using ok leaf_for_leaves by (auto simp: tree_ok_def)
    then show "tree_map I r' n key = tree_map I r n key"
      unfolding tree_map_def lf using maps by metis
  qed
qed


lemma tree_leaves_valid:
  assumes "tree_inv I r n" and "l \<in> set (leaves (cfg I) r n (root_at I r))"
  shows "rm_valid r l (sizeof_LeafNode (cfg I))"
  using assms subtree_valid by (fastforce simp: tree_inv_def tree_ok_def)

lemma mset_concat_upd:
  assumes "distinct xs" and "x \<in> set xs" and "\<And>y. y \<in> set xs \<Longrightarrow> y \<noteq> x \<Longrightarrow> g y = f y" and "mset (g x) + A = B + mset (f x)"
  shows "mset (concat (map g xs)) + A = B + mset (concat (map f xs))"
proof -
  obtain as bs where xs: "xs = as @ x # bs" using assms(2) by (meson split_list)
  then have eq: "concat (map g as) = concat (map f as)" "concat (map g bs) = concat (map f bs)"
    using assms(1,3) by (auto intro!: arg_cong [of _ _ concat] map_cong)
  have "mset (concat (map g xs)) + A = (mset (g x) + A) + (mset (concat (map f as)) + mset (concat (map f bs)))"
    by (simp add: xs eq ac_simps)
  then show ?thesis unfolding assms(4) by (simp add: xs ac_simps)
qed

lemma footprint_sizes:
  assumes "config_ok (cfg I)"
  shows "\<forall>x \<in> set (footprint I r n). 0 < snd x"
  using config_sizes [OF assms] by (auto simp: footprint_def node_regions_def item_regions_def leaf_items_def)

text \<open>
  The central lemma: storing in a slot of a leaf the reference to an item that lies outside of the footprint.
\<close>

lemma tree_put:
  assumes inv: "tree_inv I r n" and l: "l \<in> set (leaves (cfg I) r n (root_at I r))" and i: "i < branch_factor (cfg I)"
    and v: "\<not> isFree v" "rm_valid r (getAddr v) (sizeof_KVItem (cfg I))" "slot_item (cfg I) r v = it"
      "getFingerprint v = Fingerprint_of_key (item_key it)" "\<not> isLocked v" "in_fence (item_key it) (leaf_header (leaf_at (cfg I) r l))"
    and new: "\<forall>x \<in> set (footprint I r n). apart (getAddr v) (sizeof_KVItem (cfg I)) (fst x) (snd x)"
    and old: "if isFree (kv_blocks (leaf_at (cfg I) r l) ! i) then leaf_map (cfg I) r (leaf_at (cfg I) r l) (item_key it) = None
      else item_key (slot_item (cfg I) r (kv_blocks (leaf_at (cfg I) r l) ! i)) = item_key it"
    and for_key: "leaf_for (cfg I) r n (root_at I r) (item_key it) = l"
  defines "r' \<equiv> rm_store r (kvblock_address (cfg I) l i) (bytes_of_u64 v)"
  shows "tree_inv I r' n" and "tree_map I r' n = (tree_map I r n)(item_key it \<mapsto> item_value it)"
    and "leaf_at (cfg I) r' l = (leaf_at (cfg I) r l)\<lparr>kv_blocks := (kv_blocks (leaf_at (cfg I) r l))[i := v]\<rparr>"
    and "leaves (cfg I) r' n (root_at I r') = leaves (cfg I) r n (root_at I r)"
    and "\<And>h. h \<in> set (leaves (cfg I) r n (root_at I r)) \<Longrightarrow> h \<noteq> l \<Longrightarrow> leaf_at (cfg I) r' h = leaf_at (cfg I) r h"
    and "mset (footprint I r' n @ map (\<lambda>b. (getAddr b, sizeof_KVItem (cfg I))) (slot_part (kv_blocks (leaf_at (cfg I) r l) ! i))) =
      mset ((getAddr v, sizeof_KVItem (cfg I)) # footprint I r n)"
    and "\<And>g k. rm_valid r' g k = rm_valid r g k" and "leaf_for (cfg I) r' n (root_at I r') k = leaf_for (cfg I) r n (root_at I r) k"
proof -
  let ?c = "cfg I" and ?ls = "leaves (cfg I) r n (root_at I r)" and ?leaf = "leaf_at (cfg I) r l"
  let ?L = "(l, sizeof_LeafNode ?c)"
  have ok: "tree_ok I r n" and small: "rm_small r" and apart: "regions_apart (footprint I r n)"
    and leaves_ok: "\<And>l. l \<in> set ?ls \<Longrightarrow> leaf_ok ?c r (leaf_at ?c r l)" and cfg: "config_ok ?c"
    using inv by (simp_all add: tree_inv_def tree_ok_def)
  have lv: "rm_valid r l (sizeof_LeafNode ?c)" by (rule tree_leaves_valid [OF inv l])
  have slot: "rm_valid r (kvblock_address ?c l i) (length (bytes_of_u64 v))" using slot_valid [OF small lv i] by simp
  show valid: "rm_valid r' g k = rm_valid r g k" for g k unfolding r'_def using slot by (rule rm_valid_store)
  have small': "rm_small r'" unfolding r'_def using rm_small_store [OF slot] small by simp
  have dist: "distinct (footprint I r n)" by (rule regions_apart_distinct [OF apart footprint_sizes [OF cfg]])
  have L: "?L \<in> set (footprint I r n)" using footprint_members(1) [OF l] by (simp add: footprint_def)
  have keep: "rm_load r' g k = rm_load r g k" if "apart l (sizeof_LeafNode ?c) g k" "rm_valid r g k" for g k
    unfolding r'_def
    by (rule rm_load_store_apart [OF slot that(2)])
       (use apart_sub [OF small lv slot_in_leaf [OF i] _ that(1)] in \<open>simp add: kvblock_address_def\<close>)
  have other: "rm_load r' (fst x) (snd x) = rm_load r (fst x) (snd x)"
    if "x \<in> set (footprint I r n)" "x \<noteq> ?L" "rm_valid r (fst x) (snd x)" for x
    by (rule keep) (use regions_apart_pick [OF apart L that(1)] that in simp_all)
  show leaf': "leaf_at ?c r' l = ?leaf\<lparr>kv_blocks := (kv_blocks ?leaf)[i := v]\<rparr>"
    unfolding r'_def by (rule slot_store [OF small lv i])
  have nodes: "\<forall>h \<in> set (inner_nodes ?c r n (root_at I r)). node_at ?c r' h = node_at ?c r h"
  proof
    fix h assume h: "h \<in> set (inner_nodes ?c r n (root_at I r))"
    then have "(h, sizeof_InternalNode ?c) \<noteq> ?L"
      using dist l by (auto simp: footprint_def node_regions_def)
    moreover have "rm_valid r h (sizeof_InternalNode ?c)" using ok h subtree_valid by (fastforce simp: tree_ok_def)
    ultimately show "node_at ?c r' h = node_at ?c r h"
      using other [of "(h, sizeof_InternalNode ?c)"] h by (simp add: node_at_def footprint_def node_regions_def)
  qed
  have ptr: "rm_load r' (root_offset_pointer I) 8 = rm_load r (root_offset_pointer I) 8"
  proof -
    have "(root_offset_pointer I, 8) \<noteq> ?L" using dist l by (auto simp: footprint_def node_regions_def)
    then show ?thesis
      using other [of "(root_offset_pointer I, 8)"] ok by (simp add: footprint_def node_regions_def tree_ok_def)
  qed
  have root: "root_at I r' = root_at I r" by (rule root_at_cong [OF ptr])
  have ptr64: "rm_load64 r' (root_offset_pointer I) = uintptr (root_at I r')"
    using inv ptr by (simp add: root rm_load64_def tree_inv_def)
  show leaves: "leaf_at ?c r' h = leaf_at ?c r h" if "h \<in> set ?ls" "h \<noteq> l" for h
    using other [of "(h, sizeof_LeafNode ?c)"] footprint_members(1) [OF that(1)] tree_leaves_valid [OF inv that(1)] that(2)
    by (simp add: leaf_at_def footprint_def)
  have headers: "\<forall>h \<in> set ?ls. leaf_header (leaf_at ?c r' h) = leaf_header (leaf_at ?c r h)"
    using leaves leaf' by (metis LeafNode.select_convs(1) LeafNode.surjective LeafNode.update_convs(2))
  have items: "\<forall>b \<in> set (taken_slots (leaf_at ?c r h)). slot_item ?c r' b = slot_item ?c r b" if h: "h \<in> set ?ls" for h
  proof
    fix b assume b: "b \<in> set (taken_slots (leaf_at ?c r h))"
    let ?x = "(getAddr b, sizeof_KVItem ?c)"
    have "?x \<in> set (item_regions I r n)" using h b by (auto simp: item_regions_def leaf_items_def)
    moreover have "?L \<in> set (node_regions I r n)" using footprint_members(1) [OF l] .
    ultimately have "?x \<noteq> ?L" and "?x \<in> set (footprint I r n)" using dist by (auto simp: footprint_def)
    moreover have "rm_valid r (getAddr b) (sizeof_KVItem ?c)" using leaves_ok [OF h] b by (simp add: leaf_ok_def)
    ultimately show "slot_item ?c r' b = slot_item ?c r b" using other [of ?x] by (simp add: slot_item_def item_at_def)
  qed
  have it: "slot_item ?c r' v = it"
    using keep [of "getAddr v" "sizeof_KVItem ?c"] new L v(2,3) by (force simp: slot_item_def item_at_def apart_commute)
  note shape = tree_same_shape [OF ok small' valid root nodes headers]
  have lb: "i < length (kv_blocks ?leaf)" using i by (simp add: leaf_at_def)
  note put = leaf_put [OF leaves_ok [OF l] lb items [OF l] valid v(1,2) it v(4-6) old]
  have dist_ls: "distinct ?ls" using dist by (simp add: footprint_def node_regions_def distinct_map inj_on_def)
  let ?old = "mset (map (\<lambda>b. (getAddr b, sizeof_KVItem ?c)) (slot_part (kv_blocks ?leaf ! i)))"
  have regions: "mset (item_regions I r' n) + ?old = {#(getAddr v, sizeof_KVItem ?c)#} + mset (item_regions I r n)"
    unfolding item_regions_def shape(3)
    by (rule mset_concat_upd [OF dist_ls l]) (use leaves leaf' put(3) in simp_all)
  show fp: "mset (footprint I r' n @ map (\<lambda>b. (getAddr b, sizeof_KVItem ?c)) (slot_part (kv_blocks ?leaf ! i))) =
      mset ((getAddr v, sizeof_KVItem ?c) # footprint I r n)"
    using regions by (simp add: footprint_def shape(2) ac_simps)
  show "leaves ?c r' n (root_at I r') = ?ls" "leaf_for ?c r' n (root_at I r') k = leaf_for ?c r n (root_at I r) k" by (rule shape)+
  have "regions_apart ((getAddr v, sizeof_KVItem ?c) # footprint I r n)" using apart new by simp
  then have "regions_apart (footprint I r' n @ map (\<lambda>b. (getAddr b, sizeof_KVItem ?c)) (slot_part (kv_blocks ?leaf ! i)))"
    unfolding regions_apart_mset [OF fp] .
  moreover have "leaf_ok ?c r' (leaf_at ?c r' h)" if "h \<in> set ?ls" for h
    using put(1) leaf' leaves [OF that] leaves_ok [OF that] leaf_ok_cong(1) [OF items [OF that] valid] by (cases "h = l") simp_all
  ultimately show "tree_inv I r' n"
    using inv nodes shape(1) small' ptr64 by (simp add: tree_inv_def shape(3,5) regions_apart_append)
  show "tree_map I r' n = (tree_map I r n)(item_key it \<mapsto> item_value it)"
  proof
    fix key
    let ?h = "leaf_for ?c r n (root_at I r) key"
    have h: "?h \<in> set ?ls" using ok leaf_for_leaves by (auto simp: tree_ok_def)
    show "tree_map I r' n key = ((tree_map I r n)(item_key it \<mapsto> item_value it)) key"
      using put(2) leaf' leaves [OF h] leaf_ok_cong(2) [OF items [OF h] valid] for_key
      by (cases "?h = l") (auto simp: tree_map_def shape(4))
  qed
qed


end
