(* ===== verification/Faunus_Insert.thy ===== *)
theory Faunus_Insert
  imports Faunus_Map
begin

text \<open>
  \<^verbatim>\<open>insert\<close> of \<^verbatim>\<open>src/src/kv_index/faunus_index.cpp\<close> as an update of the map that the index stores, on
  the paths that do not split a leaf, and what \<^verbatim>\<open>initialize\<close> and \<^verbatim>\<open>read\<close> do to the same map.
\<close>

subsection \<open>Candidates by key\<close>

definition key_candidates :: "Config \<Rightarrow> rmemory \<Rightarrow> LeafNode \<Rightarrow> Fingerprint \<Rightarrow> (nat \<times> KVItem) list" where
  "key_candidates c r l fp = map (\<lambda>(i, a). (i, item_of c (ReadOut (rm_load r a (KEY_SIZE c)))))
     (snd (get_fingerprint_collisions l fp))"

lemma item_key_of_read:
  assumes "rm_valid r g (sizeof_KVItem c)"
  shows "item_key (item_of c (ReadOut (rm_load r g (KEY_SIZE c)))) = item_key (item_at c r g)"
proof -
  have "rm_valid r g (KEY_SIZE c)" by (rule rm.valid_mono [OF assms]) (simp add: sizeof_KVItem_def)
  then have "length (rm_load r g (KEY_SIZE c)) = KEY_SIZE c" by (rule rm.length_load)
  then have "bslice 0 (KEY_SIZE c) (rm_load r g (KEY_SIZE c) @ xs) = rm_load r g (KEY_SIZE c)" for xs
    by (simp add: bslice_def)
  then show ?thesis
    by (simp add: item_of_def item_at_def dec_item_def) (simp add: rm_load_def bslice_bslice sizeof_KVItem_def)
qed

lemma key_candidates_keys:
  assumes "leaf_ok c r l"
  shows "map (\<lambda>x. (fst x, item_key (snd x))) (key_candidates c r l fp) =
    map (\<lambda>x. (fst x, item_key (snd x))) (candidates_of c r l fp)"
  using collisions_valid [OF assms] item_key_of_read
  by (fastforce simp: key_candidates_def candidates_of_def)

lemma get_candidate_kvs_key_run:
  assumes "config_ok (cfg I)" and "rm_ok r" and "leaf_ok (cfg I) r l" and "\<not> list_ex isLocked (kv_blocks l)"
  shows "run (mem_handler E) (get_candidate_kvs I l fp False False) (r, e) =
    Inr ((True, key_candidates (cfg I) r l fp), (r, e))"
  by (subst get_candidate_kvs_run [OF assms(1-3)]) (use assms(4) in \<open>simp_all add: key_candidates_def read_size_def\<close>)

lemma find_map_key:
  assumes "map (\<lambda>x. (fst x, item_key (snd x))) xs = map (\<lambda>x. (fst x, item_key (snd x))) ys"
  shows "map_option fst (find (\<lambda>(i, it). P (item_key it)) xs) = map_option fst (find (\<lambda>(i, it). P (item_key it)) ys)"
  using assms
proof (induction xs arbitrary: ys)
  case (Cons x xs)
  then show ?case by (cases ys) (auto simp: split_beta)
qed simp

lemma find_candidate:
  assumes ok: "leaf_ok c r l" and len: "length key = KEY_SIZE c"
  defines "f \<equiv> find (\<lambda>(i, it). key_eq (item_key it) key) (key_candidates c r l (Fingerprint_of_key key))"
  shows "f = None \<Longrightarrow> leaf_map c r l key = None"
    and "f = Some (i, it) \<Longrightarrow> i < length (kv_blocks l) \<and> \<not> isFree (kv_blocks l ! i) \<and>
      getFingerprint (kv_blocks l ! i) = Fingerprint_of_key key \<and> item_key (slot_item c r (kv_blocks l ! i)) = key"
proof -
  let ?cs = "candidates_of c r l (Fingerprint_of_key key)"
  have lens: "length (item_key (snd x)) = length key" if "x \<in> set ?cs" for x
    using that len collisions_valid [OF ok] length_item_key_at by (fastforce simp: candidates_of_def)
  have f: "map_option fst f = map_option fst (find (\<lambda>(i, it). key_eq (item_key it) key) ?cs)"
    unfolding f_def by (rule find_map_key [OF key_candidates_keys [OF ok]])
  show "leaf_map c r l key = None" if "f = None"
  proof -
    have "find (\<lambda>(i, it). key_eq (item_key it) key) ?cs = None" using f that by simp
    then have "\<forall>x \<in> set ?cs. \<not> key_eq (item_key (snd x)) key" by (auto simp: find_None_iff)
    then have "\<forall>x \<in> set ?cs. item_key (snd x) \<noteq> key" using lens key_eq_iff by blast
    then have "map_of (map (\<lambda>x. item_pair (snd x)) ?cs) key = None"
      by (auto simp: map_of_eq_None_iff item_pair_def)
    then show ?thesis using candidates_of_map(1) [OF ok] by simp
  qed
  assume "f = Some (i, it)"
  then have "map_option fst (find (\<lambda>(i, it). key_eq (item_key it) key) ?cs) = Some i" using f by simp
  then obtain it' where "find (\<lambda>(i, it). key_eq (item_key it) key) ?cs = Some (i, it')"
    by (cases "find (\<lambda>(i, it). key_eq (item_key it) key) ?cs") auto
  then have mem: "(i, it') \<in> set ?cs" and "key_eq (item_key it') key" by (auto simp: find_Some_iff in_set_conv_nth)
  then have "item_key it' = key" using lens [OF mem] by (simp add: key_eq_iff)
  then show "i < length (kv_blocks l) \<and> \<not> isFree (kv_blocks l ! i) \<and>
      getFingerprint (kv_blocks l ! i) = Fingerprint_of_key key \<and> item_key (slot_item c r (kv_blocks l ! i)) = key"
    using mem by (auto simp: candidates_of_def collisions_filter slot_item_def)
qed


subsection \<open>Updating a slot\<close>

lemma try_update_kvblock_run:
  assumes "rm_small r" and "rm_valid r l (sizeof_LeafNode (cfg I))" and "i < branch_factor (cfg I)"
    and "b = kv_blocks (leaf_at (cfg I) r l) ! i" and "\<not> isFree b" and "\<not> isLocked b" and "0 < fuel I"
  shows "run (mem_handler E) (try_update_kvblock I (kvblock_address (cfg I) l i) b v) (r, e) =
    Inr (True, (rm_store r (kvblock_address (cfg I) l i) (bytes_of_u64 v), e_free E (item_bytes I) (uintptr (getAddr b)) e))"
proof -
  obtain f where f: "fuel I = Suc f" using assms(7) by (cases "fuel I") simp_all
  show ?thesis
    unfolding try_update_kvblock_def f update_loop.simps
    using assms(4-6) rm_small_ok [OF assms(1)] slot_valid [OF assms(1-3)] slot_load [OF assms(1-3)]
    by (simp add: assert_then_def Let_def mem_run)
qed

lemma slot_cas_read_run:
  assumes "rm_small r" and "rm_valid r l (sizeof_LeafNode (cfg I))" and "i < branch_factor (cfg I)" and "config_ok (cfg I)"
    and "b = kv_blocks (leaf_at (cfg I) r l) ! i"
    and "r' = rm_store r (kvblock_address (cfg I) l i) (bytes_of_u64 v)"
  shows "run (mem_handler E) (PerformBatch [CasOp (kvblock_address (cfg I) l i) b v, ReadOp l True (leaf_bytes I)] k) (r, e) =
    run (mem_handler E) (k (True, [CasOut b, ReadOut (rm_load r' l (sizeof_LeafNode (cfg I)))])) (r', e)"
  using assms(1,2,5) rm_small_ok slot_valid [OF assms(1-3)] slot_load [OF assms(1-3)]
  by (simp add: mem_run unat_sizes(1) [OF assms(4)] assms(6))

lemma remove_dupes_insert_run:
  assumes "config_ok (cfg I)" and "rm_ok r" and "leaf_ok (cfg I) r l" and "length key = KEY_SIZE (cfg I)"
    and "in_fence key (leaf_header l)" and "lock (leaf_header l) = 0" and "\<not> list_ex isLocked (kv_blocks l)"
  shows "\<exists>res. run (mem_handler E) (handle_local_remove_dupes I key g l b True False False) (r, e) = Inr (res, (r, e))"
proof -
  let ?fp = "Fingerprint_of_key key"
  let ?cs = "key_candidates (cfg I) r l ?fp" and ?ds = "candidates_of (cfg I) r l ?fp"
  have run: "run (mem_handler E) (get_candidate_kvs I l ?fp True False) (r, e) = Inr ((True, []), (r, e)) \<or>
      run (mem_handler E) (get_candidate_kvs I l ?fp True False) (r, e) = Inr ((True, ?cs), (r, e))"
  proof (cases "length (snd (get_fingerprint_collisions l ?fp)) = 1")
    case True
    then show ?thesis using assms(7) by (simp add: get_candidate_kvs_def split_beta get_fingerprint_collisions_def)
  next
    case False
    then have "get_candidate_kvs I l ?fp True False = get_candidate_kvs I l ?fp False False"
      by (simp add: get_candidate_kvs_def split_beta)
    then show ?thesis using get_candidate_kvs_key_run [OF assms(1-3,7)] by metis
  qed
  have keys: "map (\<lambda>x. item_key (snd x)) ?cs = map (\<lambda>x. item_key (snd x)) ?ds"
    using arg_cong [OF key_candidates_keys [OF assms(3)], of "map snd"] by (simp add: comp_def)
  have dist: "distinct (map (\<lambda>x. item_key (snd x)) ?cs)" unfolding keys by (rule candidates_of_map(2) [OF assms(3)])
  have "\<forall>k \<in> set (map (\<lambda>x. item_key (snd x)) ?ds). length k = length key"
    using assms(4) collisions_valid [OF assms(3)] length_item_key_at by (fastforce simp: candidates_of_def)
  then have "\<forall>x \<in> set ?cs. length (item_key (snd x)) = length key" unfolding keys [symmetric] by simp
  then show ?thesis
    using run dupes_loop_unique [OF dist] assms(5,6) by (auto simp: handle_local_remove_dupes_def run_bind)
qed


subsection \<open>Inserting into a leaf\<close>

lemma num_used_taken: "num_used l = length (taken_slots l)"
  by (simp add: num_used_def taken_slots_def)

lemma num_used_put:
  assumes "i < length (kv_blocks l)" and "isFree (kv_blocks l ! i)" and "\<not> isFree v"
  shows "num_used (l\<lparr>kv_blocks := (kv_blocks l)[i := v]\<rparr>) = Suc (num_used l)"
proof -
  obtain xs ys where "taken_slots l = xs @ slot_part (kv_blocks l ! i) @ ys"
      "\<forall>v. taken_slots (l\<lparr>kv_blocks := (kv_blocks l)[i := v]\<rparr>) = xs @ slot_part v @ ys"
    using taken_slots_split [OF assms(1)] by blast
  then show ?thesis using assms(2,3) by (simp add: num_used_taken slot_part_def)
qed

lemma num_used_replace:
  assumes "\<not> isFree v" and "i < length (kv_blocks l)" and "\<not> isFree (kv_blocks l ! i)"
  shows "num_used (l\<lparr>kv_blocks := (kv_blocks l)[i := v]\<rparr>) = num_used l"
proof -
  obtain xs ys where "taken_slots l = xs @ slot_part (kv_blocks l ! i) @ ys"
      "\<forall>v. taken_slots (l\<lparr>kv_blocks := (kv_blocks l)[i := v]\<rparr>) = xs @ slot_part v @ ys"
    using taken_slots_split [OF assms(2)] by blast
  then show ?thesis using assms(1,3) by (simp add: num_used_taken slot_part_def)
qed

lemma list_ex_update: "\<not> list_ex P xs \<Longrightarrow> \<not> P v \<Longrightarrow> \<not> list_ex P (xs[i := v])"
  by (auto simp: list_ex_iff dest!: set_update_subset_insert [THEN subsetD])

text \<open>A new item outside of the footprint, and a slot that refers to it.\<close>

definition item_ready :: "FaunusIndex \<Rightarrow> rmemory \<Rightarrow> nat \<Rightarrow> bytes \<Rightarrow> bytes \<Rightarrow> KVBlock \<Rightarrow> bool" where
  "item_ready I r n key val v \<longleftrightarrow> \<not> isFree v \<and> \<not> isLocked v \<and> getFingerprint v = Fingerprint_of_key key \<and>
     rm_valid r (getAddr v) (sizeof_KVItem (cfg I)) \<and> slot_item (cfg I) r v = \<lparr>item_key = key, item_value = val\<rparr> \<and>
     (\<forall>x \<in> set (footprint I r n). apart (getAddr v) (sizeof_KVItem (cfg I)) (fst x) (snd x))"

text \<open>
  What storing a reference to the item at \<open>a\<close> does to the index: the map is updated, and the footprint has the new item instead of those in \<open>gone\<close>.
\<close>

definition put_step ::
  "FaunusIndex \<Rightarrow> rmemory \<Rightarrow> nat \<Rightarrow> bytes \<Rightarrow> bytes \<Rightarrow> GlobalAddress \<Rightarrow> rmemory \<Rightarrow> (GlobalAddress \<times> nat) list \<Rightarrow> bool" where
  "put_step I r n key val a r' gone \<longleftrightarrow> tree_inv I r' n \<and> tree_map I r' n = (tree_map I r n)(key \<mapsto> val) \<and>
     (\<forall>g k. rm_valid r' g k = rm_valid r g k) \<and> leaves (cfg I) r' n (root_at I r') = leaves (cfg I) r n (root_at I r) \<and>
     (\<forall>h \<in> set (leaves (cfg I) r n (root_at I r)). h \<noteq> leaf_for (cfg I) r n (root_at I r) key \<longrightarrow> leaf_at (cfg I) r' h = leaf_at (cfg I) r h) \<and>
     mset (footprint I r' n @ gone) = mset ((a, sizeof_KVItem (cfg I)) # footprint I r n)"

lemma tree_put_ready:
  assumes "tree_inv I r n" and "l \<in> set (leaves (cfg I) r n (root_at I r))" and "i < branch_factor (cfg I)"
    and ready: "item_ready I r n key val v" and for_key: "leaf_for (cfg I) r n (root_at I r) key = l"
    and old: "if isFree (kv_blocks (leaf_at (cfg I) r l) ! i) then leaf_map (cfg I) r (leaf_at (cfg I) r l) key = None
      else item_key (slot_item (cfg I) r (kv_blocks (leaf_at (cfg I) r l) ! i)) = key"
    and fence: "in_fence key (leaf_header (leaf_at (cfg I) r l))"
    and r': "r' = rm_store r (kvblock_address (cfg I) l i) (bytes_of_u64 v)"
  shows "put_step I r n key val (getAddr v) r' (map (\<lambda>b. (getAddr b, sizeof_KVItem (cfg I))) (slot_part (kv_blocks (leaf_at (cfg I) r l) ! i)))"
    and "leaf_at (cfg I) r' l = (leaf_at (cfg I) r l)\<lparr>kv_blocks := (kv_blocks (leaf_at (cfg I) r l))[i := v]\<rparr>"
    and "leaf_for (cfg I) r' n (root_at I r') k = leaf_for (cfg I) r n (root_at I r) k"
proof -
  define it where "it = \<lparr>item_key = key, item_value = val\<rparr>"
  have it: "item_key it = key" "item_value it = val" by (simp_all add: it_def)
  have v: "\<not> isFree v" "rm_valid r (getAddr v) (sizeof_KVItem (cfg I))" "slot_item (cfg I) r v = it"
      "getFingerprint v = Fingerprint_of_key (item_key it)" "\<not> isLocked v" "in_fence (item_key it) (leaf_header (leaf_at (cfg I) r l))"
      "\<forall>x \<in> set (footprint I r n). apart (getAddr v) (sizeof_KVItem (cfg I)) (fst x) (snd x)"
    using ready fence by (simp_all add: item_ready_def it_def)
  note put = tree_put [OF assms(1-3) v old [folded it(1)] for_key [folded it(1)], folded r', unfolded it]
  show "leaf_at (cfg I) r' l = (leaf_at (cfg I) r l)\<lparr>kv_blocks := (kv_blocks (leaf_at (cfg I) r l))[i := v]\<rparr>" by (rule put(3))
  show "put_step I r n key val (getAddr v) r' (map (\<lambda>b. (getAddr b, sizeof_KVItem (cfg I))) (slot_part (kv_blocks (leaf_at (cfg I) r l) ! i)))"
    unfolding put_step_def for_key using put(1,2,4-7) by blast
  show "leaf_for (cfg I) r' n (root_at I r') k = leaf_for (cfg I) r n (root_at I r) k" by (rule put(8))
qed

lemma insert_with_leaf_update:
  assumes inv: "tree_inv I r n" and tracker: "has_tracker I"
    and key: "length key = KEY_SIZE (cfg I)" "key \<noteq> ArrayVar_max (KEY_SIZE (cfg I))"
    and l: "l = leaf_for (cfg I) r n (root_at I r) key"
    and st: "is_leaf st = leaf_at (cfg I) r l" "is_leaf_address st = l" "is_cached st = None"
    and unlocked: "\<not> list_ex isLocked (kv_blocks (leaf_at (cfg I) r l))"
    and ready: "item_ready I r n key val v" and present: "tree_map I r n key \<noteq> None"
  shows "\<exists>r' a. run (mem_handler E) (insert_with_leaf I key v attempt st) (r, e) =
      Inr (Inr True, (r', e_free E (item_bytes I) (uintptr a) e)) \<and>
    put_step I r n key val (getAddr v) r' [(a, sizeof_KVItem (cfg I))] \<and> num_used (leaf_at (cfg I) r' l) = num_used (leaf_at (cfg I) r l)"
proof -
  let ?c = "cfg I" and ?leaf = "leaf_at (cfg I) r l"
  have ok: "tree_ok I r n" "rm_small r" "config_ok ?c" "rm_ok r" "0 < fuel I"
    using inv by (simp_all add: tree_inv_def tree_ok_def)
  have mem: "l \<in> set (leaves ?c r n (root_at I r))" using ok(1) leaf_for_leaves by (auto simp: l tree_ok_def)
  have leaf: "leaf_ok ?c r ?leaf" using inv mem by (simp add: tree_inv_def)
  have "leaf_map ?c r ?leaf key \<noteq> None" using present by (simp add: tree_map_def l)
  then obtain i it where f: "find (\<lambda>(i, it). key_eq (item_key it) key) (key_candidates ?c r ?leaf (Fingerprint_of_key key)) = Some (i, it)"
    using find_candidate(1) [OF leaf key(1)] by (cases "find (\<lambda>(i, it). key_eq (item_key it) key) (key_candidates ?c r ?leaf (Fingerprint_of_key key))") auto
  note slot = find_candidate(2) [OF leaf key(1) f]
  have i: "i < branch_factor ?c" using slot by (simp add: leaf_at_def)
  have "\<not> isLocked (kv_blocks ?leaf ! i)" using unlocked slot by (auto simp: list_ex_iff)
  note upd = try_update_kvblock_run [OF ok(2) tree_leaves_valid [OF inv mem] i refl _ this ok(5)]
  let ?r' = "rm_store r (kvblock_address ?c l i) (bytes_of_u64 v)"
  have run: "run (mem_handler E) (insert_with_leaf I key v attempt st) (r, e) =
      Inr (Inr True, (?r', e_free E (item_bytes I) (uintptr (getAddr (kv_blocks ?leaf ! i))) e))"
    using slot tracker
    by (simp add: insert_with_leaf_def Let_def st run_bind get_candidate_kvs_key_run [OF ok(3,4) leaf unlocked] f upd
        track_cache_def track_def mem_run)
  have "if isFree (kv_blocks ?leaf ! i) then leaf_map ?c r ?leaf key = None
      else item_key (slot_item ?c r (kv_blocks ?leaf ! i)) = key" using slot by simp
  note put = tree_put_ready [OF inv mem i ready l [symmetric] this tree_leaf(5) [OF ok(1) key, folded l] refl]
  have "\<not> isFree v" using ready by (simp add: item_ready_def)
  then have "num_used (leaf_at ?c ?r' l) = num_used ?leaf" unfolding put(2) by (rule num_used_replace) (use slot in simp_all)
  then show ?thesis using run put(1) slot by (auto simp: slot_part_def)
qed


lemma probe_index_less:
  assumes "config_ok c"
  shows "probe_index c seed i < branch_factor c"
proof -
  let ?m = "of_nat (branch_factor c) - 1 :: u64"
  have "(of_nat i XOR seed) AND ?m \<le> ?m" by (rule word_and_le1)
  then have "probe_index c seed i \<le> unat ?m" by (simp add: probe_index_def word_le_nat_alt)
  moreover have "unat ?m = branch_factor c - 1"
  proof -
    have bf: "0 < branch_factor c" "branch_factor c \<le> 256" using assms by (simp_all add: config_ok_def)
    then have "?m = of_nat (branch_factor c - 1)" by (simp add: of_nat_diff)
    moreover have "branch_factor c - 1 < 2 ^ 64" using bf by simp
    ultimately show ?thesis by (simp add: unat_of_nat)
  qed
  moreover have "0 < branch_factor c" using assms by (simp add: config_ok_def)
  ultimately show ?thesis by linarith
qed

text \<open>What \<^verbatim>\<open>insert\<close> does after it has filled a slot of the leaf: request or perform a split, or look for duplicates.\<close>

definition after_insert :: "FaunusIndex \<Rightarrow> bytes \<Rightarrow> GlobalAddress \<Rightarrow> LeafNode \<Rightarrow> (InsertState + bool) fprog" where
  "after_insert I key leaf_address leaf =
     (if num_used leaf > split_limit (cfg I)
      then if MAINTENANCE_ENABLED (cfg I)
           then bind (request_smo I SPLIT leaf_address) (\<lambda>success. assert_then success (track_cache I None (Ret (Inr True))))
           else bind (split_leaf I leaf_address) (\<lambda>_. track_cache I None (Ret (Inr True)))
      else bind (handle_local_remove_dupes I key leaf_address leaf 0 True False False) (\<lambda>_. track_cache I None (Ret (Inr True))))"

lemma absent_candidates:
  assumes leaf: "leaf_ok c r leaf" and key: "length key = KEY_SIZE c" and none: "leaf_map c r leaf key = None"
  shows "find (\<lambda>(i, it). key_eq (item_key it) key) (key_candidates c r leaf (Fingerprint_of_key key)) = None"
proof (rule ccontr)
  assume "\<not> ?thesis"
  then obtain j it where f: "find (\<lambda>(i, it). key_eq (item_key it) key) (key_candidates c r leaf (Fingerprint_of_key key)) = Some (j, it)"
    by auto
  note slot = find_candidate(2) [OF leaf key f]
  then have "kv_blocks leaf ! j \<in> set (taken_slots leaf)" by (simp add: taken_slots_def)
  then have "key \<in> fst ` set (map (\<lambda>b. item_pair (slot_item c r b)) (taken_slots leaf))"
    using slot by (force simp: item_pair_def)
  then show False using none by (simp add: leaf_map_def map_of_eq_None_iff)
qed

lemma insert_slot_run:
  assumes inv: "tree_inv I r n"
    and key: "length key = KEY_SIZE (cfg I)" "key \<noteq> ArrayVar_max (KEY_SIZE (cfg I))"
    and l: "l = leaf_for (cfg I) r n (root_at I r) key"
    and st: "is_leaf st = leaf_at (cfg I) r l" "is_leaf_address st = l" "is_cached st = None"
    and unlocked: "\<not> list_ex isLocked (kv_blocks (leaf_at (cfg I) r l))"
    and ready: "item_ready I r n key val v" and absent: "tree_map I r n key = None"
    and probe: "probe_slots (cfg I) (mix64 (tid_hash I XOR of_nat attempt)) (leaf_at (cfg I) r l) = Some (Inr i)"
  shows "\<exists>r'. run (mem_handler E) (insert_with_leaf I key v attempt st) (r, e) =
      run (mem_handler E) (after_insert I key l (leaf_at (cfg I) r' l)) (r', e) \<and> put_step I r n key val (getAddr v) r' [] \<and>
    num_used (leaf_at (cfg I) r' l) = Suc (num_used (leaf_at (cfg I) r l)) \<and> l = leaf_for (cfg I) r' n (root_at I r') key"
proof -
  let ?c = "cfg I" and ?leaf = "leaf_at (cfg I) r l"
  let ?r' = "rm_store r (kvblock_address ?c l i) (bytes_of_u64 v)"
  have ok: "tree_ok I r n" "rm_small r" "config_ok ?c" "rm_ok r"
    using inv by (simp_all add: tree_inv_def tree_ok_def)
  have mem: "l \<in> set (leaves ?c r n (root_at I r))" using ok(1) leaf_for_leaves by (auto simp: l tree_ok_def)
  have leaf: "leaf_ok ?c r ?leaf" using inv mem by (simp add: tree_inv_def)
  have none: "leaf_map ?c r ?leaf key = None" using absent by (simp add: tree_map_def l)
  note f = absent_candidates [OF leaf key(1) none]
  have i: "i < branch_factor ?c" and free: "isFree (kv_blocks ?leaf ! i)"
    using probe_slots_Inr [OF probe] probe_index_less [OF ok(3)] by auto
  have "if isFree (kv_blocks ?leaf ! i) then leaf_map ?c r ?leaf key = None
      else item_key (slot_item ?c r (kv_blocks ?leaf ! i)) = key" using free none by simp
  note put = tree_put_ready [OF inv mem i ready l [symmetric] this tree_leaf(5) [OF ok(1) key, folded l] refl]
  have at: "in_fence key (leaf_header ?leaf)" "lock (leaf_header ?leaf) = 0"
    using tree_leaf(3,5) [OF ok(1) key] by (simp_all add: l)
  have v: "\<not> isFree v" using ready by (simp add: item_ready_def)
  have leaf': "leaf_at ?c ?r' l = ?leaf\<lparr>kv_blocks := (kv_blocks ?leaf)[i := v]\<rparr>" by (rule put(2))
  have lb: "i < length (kv_blocks ?leaf)" using i by (simp add: leaf_at_def)
  have "run (mem_handler E) (insert_with_leaf I key v attempt st) (r, e) = run (mem_handler E) (after_insert I key l (leaf_at ?c ?r' l)) (?r', e)"
    using at
    by (simp add: insert_with_leaf_def after_insert_def Let_def st run_bind get_candidate_kvs_key_run [OF ok(3,4) leaf unlocked] f probe
        slot_cas_read_run [OF ok(2) tree_leaves_valid [OF inv mem] i ok(3) refl refl] assert_then_def with_bytes_def nth_out_def
        leaf_at_def [symmetric] leaf' del: run.simps(4))
  moreover have "put_step I r n key val (getAddr v) ?r' []" using put(1) free by (simp add: slot_part_def)
  ultimately show ?thesis using num_used_put [OF lb free v] leaf' put(3) by (intro exI [of _ ?r']) (simp add: l)
qed

lemma after_insert_run:
  assumes inv: "tree_inv I r n" and tracker: "has_tracker I"
    and key: "length key = KEY_SIZE (cfg I)" "key \<noteq> ArrayVar_max (KEY_SIZE (cfg I))"
    and l: "l = leaf_for (cfg I) r n (root_at I r) key" and room: "num_used (leaf_at (cfg I) r l) \<le> split_limit (cfg I)"
  shows "run (mem_handler E) (after_insert I key l (leaf_at (cfg I) r l)) (r, e) = Inr (Inr True, (r, e))"
proof -
  let ?c = "cfg I" and ?leaf = "leaf_at (cfg I) r l"
  have ok: "tree_ok I r n" "config_ok ?c" "rm_ok r" using inv by (simp_all add: tree_inv_def tree_ok_def)
  have mem: "l \<in> set (leaves ?c r n (root_at I r))" using ok(1) leaf_for_leaves by (auto simp: l tree_ok_def)
  have leaf: "leaf_ok ?c r ?leaf" "\<not> list_ex isLocked (kv_blocks ?leaf)" using inv mem by (simp_all add: tree_inv_def leaf_ok_def)
  have at: "in_fence key (leaf_header ?leaf)" "lock (leaf_header ?leaf) = 0"
    using tree_leaf(3,5) [OF ok(1) key] by (simp_all add: l)
  obtain res where "run (mem_handler E) (handle_local_remove_dupes I key l ?leaf 0 True False False) (r, e) = Inr (res, (r, e))"
    using remove_dupes_insert_run [OF ok(2,3) leaf(1) key(1) at leaf(2), where E = E and e = e] by blast
  then show ?thesis using tracker room by (simp add: after_insert_def run_bind track_cache_def track_def mem_run)
qed

text \<open>
  A leaf that takes an insertion without a split: either the key is there already or the probing finds a free slot and the leaf stays below the watermark.
\<close>

definition insert_room :: "FaunusIndex \<Rightarrow> rmemory \<Rightarrow> nat \<Rightarrow> bytes \<Rightarrow> bool" where
  "insert_room I r n key \<longleftrightarrow>
     (let l = leaf_at (cfg I) r (leaf_for (cfg I) r n (root_at I r) key) in
      tree_map I r n key \<noteq> None \<or>
      (\<exists>i. probe_slots (cfg I) (mix64 (tid_hash I)) l = Some (Inr i)) \<and> num_used l < split_limit (cfg I))"

lemma write_item:
  assumes inv: "tree_inv I r n" and key: "length key = KEY_SIZE (cfg I)" and val: "length val = VALUE_SIZE (cfg I)"
    and a: "rm_valid r a (sizeof_KVItem (cfg I))" "unat (server_index a) < 16"
      "\<forall>x \<in> set (footprint I r n). apart a (sizeof_KVItem (cfg I)) (fst x) (snd x) \<and> rm_valid r (fst x) (snd x)"
  defines "it \<equiv> \<lparr>item_key = key, item_value = val\<rparr>"
    and "v \<equiv> KVBlock_of (Fingerprint_of_key key) a False False"
  defines "r1 \<equiv> rm_store r a (enc_item it)"
  shows "tree_inv I r1 n" and "tree_map I r1 n = tree_map I r n" and "item_ready I r1 n key val v"
    and "leaf_for (cfg I) r1 n (root_at I r1) k = leaf_for (cfg I) r n (root_at I r) k"
    and "\<And>l. l \<in> set (leaves (cfg I) r n (root_at I r)) \<Longrightarrow> leaf_at (cfg I) r1 l = leaf_at (cfg I) r l"
    and "leaves (cfg I) r1 n (root_at I r1) = leaves (cfg I) r n (root_at I r)" and "footprint I r1 n = footprint I r n"
    and "\<And>g k. rm_valid r1 g k = rm_valid r g k" and "getAddr v = a"
proof -
  have wf: "item_wf (cfg I) it" using key val by (simp add: item_wf_def it_def)
  have len: "length (enc_item it) = sizeof_KVItem (cfg I)" by (rule length_enc_item [OF wf])
  have va: "rm_valid r a (length (enc_item it))" using a(1) len by simp
  show valid: "rm_valid r1 g k = rm_valid r g k" for g k unfolding r1_def using va by (rule rm_valid_store)
  have small: "rm_small r1" using rm_small_store [OF va] inv by (simp add: r1_def tree_inv_def)
  have same: "\<forall>x \<in> set (footprint I r n). rm_load r1 (fst x) (snd x) = rm_load r (fst x) (snd x)"
    using rm_load_store_apart [OF va] a(3) len by (simp add: r1_def)
  note frame = tree_frame [OF inv small valid same]
  show "tree_inv I r1 n" "tree_map I r1 n = tree_map I r n"
      "leaf_for (cfg I) r1 n (root_at I r1) k = leaf_for (cfg I) r n (root_at I r) k"
      "leaves (cfg I) r1 n (root_at I r1) = leaves (cfg I) r n (root_at I r)" "footprint I r1 n = footprint I r n"
    by (rule frame)+
  show "leaf_at (cfg I) r1 l = leaf_at (cfg I) r l" if "l \<in> set (leaves (cfg I) r n (root_at I r))" for l
    using frame(6) [OF that] by blast
  show addr: "getAddr v = a" using a(2) addr_small_iff_server getAddr_KVBlock_of_iff unfolding v_def by metis
  have "slot_item (cfg I) r1 v = it" using item_at_store [OF a(1) wf] by (simp add: slot_item_def addr r1_def)
  then show "item_ready I r1 n key val v"
    using a frame(2) valid addr by (simp add: item_ready_def it_def) (simp add: v_def)
qed

lemma footprint_valid:
  assumes "tree_inv I r n" and "x \<in> set (footprint I r n)"
  shows "rm_valid r (fst x) (snd x)"
proof -
  have sub: "subtree (cfg I) r (root_at I r) n (ArrayVar_min (KEY_SIZE (cfg I))) (ArrayVar_max (KEY_SIZE (cfg I)))"
      and ptr: "rm_valid r (root_offset_pointer I) 8"
    using assms(1) by (simp_all add: tree_inv_def tree_ok_def)
  have items: "rm_valid r (getAddr b) (sizeof_KVItem (cfg I))"
    if "l \<in> set (leaves (cfg I) r n (root_at I r))" "b \<in> set (taken_slots (leaf_at (cfg I) r l))" for l b
    using assms(1) that by (simp add: tree_inv_def leaf_ok_def)
  show ?thesis
    using assms(2) subtree_valid [OF sub] ptr items
    by (auto simp: footprint_def node_regions_def item_regions_def leaf_items_def)
qed

text \<open>An attempt that finds its way to the leaf: it reads the leaf, writes the item if no earlier attempt did, and goes on with the leaf.\<close>

lemma insert_attempt_run:
  assumes inv: "tree_inv I r n" and idx: "\<not> has_cache I" "has_tracker I"
    and key: "length key = KEY_SIZE (cfg I)" "key \<noteq> ArrayVar_max (KEY_SIZE (cfg I))" and l_def: "l = leaf_for (cfg I) r n (root_at I r) key"
    and st: "\<not> leaf_read st" and item: "wrote_kvitem st \<or> rm_valid r a (sizeof_KVItem (cfg I)) \<and> length (enc_item it) = sizeof_KVItem (cfg I)"
  shows "run (mem_handler E) (insert_attempt I key it a v attempt st) (r, e) =
    run (mem_handler E) (insert_with_leaf I key v attempt (st\<lparr>is_leaf_address := l, is_cached := None, wrote_kvitem := True, is_leaf := leaf_at (cfg I) r l\<rparr>))
      (if wrote_kvitem st then r else rm_store r a (enc_item it), e)"
proof -
  let ?c = "cfg I"
  have ok: "tree_ok I r n" "config_ok ?c" "rm_ok r" "n < fuel I" "rm_valid r (root_offset_pointer I) 8"
    using inv by (simp_all add: tree_inv_def tree_ok_def)
  note at = tree_leaf [OF ok(1) key, folded l_def]
  show ?thesis
    using at item ok(3) st idx
    by (cases "wrote_kvitem st") (simp_all add: insert_attempt_def Let_def run_bind find_node_run [OF at(1) ok(3,2) idx(1) ok(4,5)] assert_then_def mem_run
        with_bytes_def nth_out_def unat_sizes [OF ok(2)] leaf_at_def [symmetric] track_def)
qed

text \<open>
  \<^verbatim>\<open>insert\<close> up to the point where the item is referenced: an existing key is updated in place; otherwise a slot is
  filled, and the result is that of the code that follows.
\<close>

lemma insert_cases:
  assumes inv: "tree_inv I r n" and idx: "\<not> has_cache I" "has_tracker I"
    and key: "length key = KEY_SIZE (cfg I)" "key \<noteq> ArrayVar_max (KEY_SIZE (cfg I))" and val: "length val = VALUE_SIZE (cfg I)"
    and alloc: "e_alloc E (item_bytes I) e = Inr (off, e1)" and a_def: "a = GlobalAddress_raw off"
    and a: "rm_valid r a (sizeof_KVItem (cfg I))" "unat (server_index a) < 16"
      "\<forall>x \<in> set (footprint I r n). apart a (sizeof_KVItem (cfg I)) (fst x) (snd x)"
    and l_def: "l = leaf_for (cfg I) r n (root_at I r) key"
  shows "tree_map I r n key \<noteq> None \<Longrightarrow> \<exists>r' b. run (mem_handler E) (faunus_insert I key val) (r, e) =
      Inr (True, (r', e_free E (item_bytes I) (uintptr b) e1)) \<and> put_step I r n key val a r' [(b, sizeof_KVItem (cfg I))] \<and>
      num_used (leaf_at (cfg I) r' l) = num_used (leaf_at (cfg I) r l)"
    and "tree_map I r n key = None \<Longrightarrow> probe_slots (cfg I) (mix64 (tid_hash I)) (leaf_at (cfg I) r l) = Some (Inr i) \<Longrightarrow>
      \<exists>r'. put_step I r n key val a r' [] \<and> num_used (leaf_at (cfg I) r' l) = Suc (num_used (leaf_at (cfg I) r l)) \<and>
        l = leaf_for (cfg I) r' n (root_at I r') key \<and>
        (\<forall>r2 e2. run (mem_handler E) (after_insert I key l (leaf_at (cfg I) r' l)) (r', e1) = Inr (Inr True, (r2, e2)) \<longrightarrow>
          run (mem_handler E) (faunus_insert I key val) (r, e) = Inr (True, (r2, e2)))"
proof -
  let ?c = "cfg I"
  define it where "it = \<lparr>item_key = key, item_value = val\<rparr>"
  define v where "v = KVBlock_of (Fingerprint_of_key key) a False False"
  define r1 where "r1 = rm_store r a (enc_item it)"
  have fv: "\<forall>x \<in> set (footprint I r n). apart a (sizeof_KVItem ?c) (fst x) (snd x) \<and> rm_valid r (fst x) (snd x)"
    using a(3) footprint_valid [OF inv] by blast
  note w = write_item [OF inv key(1) val a(1,2) fv, folded it_def v_def, folded r1_def]
  have ok: "tree_ok I r n" "config_ok ?c" "rm_ok r" "n < fuel I" "rm_valid r (root_offset_pointer I) 8"
    using inv by (simp_all add: tree_inv_def tree_ok_def)
  have mem: "l \<in> set (leaves ?c r n (root_at I r))" using ok(1) leaf_for_leaves by (auto simp: l_def tree_ok_def)
  note at = tree_leaf [OF ok(1) key, folded l_def]
  have len: "length (enc_item it) = sizeof_KVItem ?c"
    by (rule length_enc_item) (simp add: item_wf_def it_def key val)
  define st where "st = \<lparr>wrote_kvitem = True, leaf_read = False, is_leaf_address = l, is_leaf = leaf_at ?c r l, is_cached = None\<rparr>"
  have attempt: "run (mem_handler E) (insert_attempt I key it a v 0
      \<lparr>wrote_kvitem = False, leaf_read = False, is_leaf_address = Null, is_leaf = LeafNode_init ?c, is_cached = None\<rparr>) (r, e1) =
      run (mem_handler E) (insert_with_leaf I key v 0 st) (r1, e1)"
    using insert_attempt_run [OF inv idx key l_def, of _ a it E v 0 e1] a(1) len by (simp add: r1_def [symmetric] st_def)
  obtain N where N: "(1000000 :: nat) = Suc N" by (rule million_Suc)
  have top: "run (mem_handler E) (faunus_insert I key val) (r, e) = Inr (True, (r', e'))"
    if "run (mem_handler E) (insert_with_leaf I key v 0 st) (r1, e1) = Inr (Inr True, (r', e'))" for r' e'
    unfolding faunus_insert_def N Let_def it_def [symmetric]
    by (simp add: mem_run alloc insert_loop.simps run_bind attempt that it_def [symmetric] a_def [symmetric] v_def [symmetric])
  have l: "l = leaf_for ?c r1 n (root_at I r1) key" by (simp add: l_def w(4))
  have leaf: "leaf_at ?c r1 l = leaf_at ?c r l" by (rule w(5) [OF mem])
  have st': "is_leaf st = leaf_at ?c r1 l" "is_leaf_address st = l" "is_cached st = None" by (simp_all add: st_def leaf)
  have unlocked: "\<not> list_ex isLocked (kv_blocks (leaf_at ?c r1 l))" using inv mem leaf by (simp add: tree_inv_def leaf_ok_def)
  have put: "put_step I r n key val a r' gone" if "put_step I r1 n key val (getAddr v) r' gone" for r' gone
    using that w(2,4-9) by (simp add: put_step_def)
  show "\<exists>r' b. run (mem_handler E) (faunus_insert I key val) (r, e) = Inr (True, (r', e_free E (item_bytes I) (uintptr b) e1)) \<and>
      put_step I r n key val a r' [(b, sizeof_KVItem ?c)] \<and> num_used (leaf_at ?c r' l) = num_used (leaf_at ?c r l)"
    if "tree_map I r n key \<noteq> None"
    using insert_with_leaf_update [OF w(1) idx(2) key l st' unlocked w(3), where E = E and e = e1 and attempt = 0] that w(2) top put leaf by metis
  show "\<exists>r'. put_step I r n key val a r' [] \<and> num_used (leaf_at ?c r' l) = Suc (num_used (leaf_at ?c r l)) \<and>
      l = leaf_for ?c r' n (root_at I r') key \<and>
      (\<forall>r2 e2. run (mem_handler E) (after_insert I key l (leaf_at ?c r' l)) (r', e1) = Inr (Inr True, (r2, e2)) \<longrightarrow>
        run (mem_handler E) (faunus_insert I key val) (r, e) = Inr (True, (r2, e2)))"
    if new: "tree_map I r n key = None" "probe_slots ?c (mix64 (tid_hash I)) (leaf_at ?c r l) = Some (Inr i)"
  proof -
    have "probe_slots ?c (mix64 (tid_hash I XOR of_nat 0)) (leaf_at ?c r1 l) = Some (Inr i)" using new(2) leaf by simp
    moreover have "tree_map I r1 n key = None" using new(1) w(2) by simp
    ultimately obtain r' where r': "run (mem_handler E) (insert_with_leaf I key v 0 st) (r1, e1) =
          run (mem_handler E) (after_insert I key l (leaf_at ?c r' l)) (r', e1)" "put_step I r1 n key val (getAddr v) r' []"
        "num_used (leaf_at ?c r' l) = Suc (num_used (leaf_at ?c r1 l))" "l = leaf_for ?c r' n (root_at I r') key"
      using insert_slot_run [OF w(1) key l st' unlocked w(3), where E = E and e = e1 and attempt = 0] by blast
    then show ?thesis using top put leaf by (intro exI [of _ r']) auto
  qed
qed

text \<open>An insertion of a new key into a full leaf goes round its loop.\<close>

lemma probe_full_leaf:
  assumes "config_ok c" and "length (kv_blocks l) = branch_factor c" and "num_used l = branch_factor c" and "\<not> list_ex isLocked (kv_blocks l)"
  shows "probe_slots c seed l = None"
proof -
  have "\<forall>b \<in> set (kv_blocks l). \<not> isFree b" using assms(2,3) length_filter_less [of _ "kv_blocks l" "\<lambda>b. \<not> isFree b"] by (fastforce simp: num_used_def)
  then have "\<not> (isLocked (kv_blocks l ! probe_index c seed i) \<or> isFree (kv_blocks l ! probe_index c seed i))" for i
    using probe_index_less [OF assms(1)] assms(2,4) by (simp add: list_ex_iff)
  then show ?thesis by (simp add: probe_slots_def find_None_iff split: option.splits)
qed

lemma insert_with_full_leaf:
  assumes inv: "tree_inv I r n" and l: "l \<in> set (leaves (cfg I) r n (root_at I r))" and key: "length key = KEY_SIZE (cfg I)"
    and st: "is_leaf st = leaf_at (cfg I) r l" and none: "leaf_map (cfg I) r (leaf_at (cfg I) r l) key = None"
    and full: "num_used (leaf_at (cfg I) r l) = branch_factor (cfg I)"
  shows "run (mem_handler E) (insert_with_leaf I key v attempt st) (r, e) = Inr (Inl (st\<lparr>leaf_read := False\<rparr>), (r, e))"
proof -
  let ?c = "cfg I" and ?leaf = "leaf_at (cfg I) r l"
  have ok: "config_ok ?c" "rm_ok r" "leaf_ok ?c r ?leaf" "\<not> list_ex isLocked (kv_blocks ?leaf)"
    using inv l by (simp_all add: tree_inv_def tree_ok_def leaf_ok_def)
  have p: "probe_slots ?c seed ?leaf = None" for seed by (rule probe_full_leaf [OF ok(1) _ full ok(4)]) (simp add: leaf_at_def)
  show ?thesis
    by (simp add: insert_with_leaf_def Let_def st run_bind get_candidate_kvs_key_run [OF ok] absent_candidates [OF ok(3) key none] p)
qed

lemma insert_loop_full:
  assumes inv: "tree_inv I r n" and idx: "\<not> has_cache I" "has_tracker I"
    and key: "length key = KEY_SIZE (cfg I)" "key \<noteq> ArrayVar_max (KEY_SIZE (cfg I))" and l_def: "l = leaf_for (cfg I) r n (root_at I r) key"
    and none: "tree_map I r n key = None" and full: "num_used (leaf_at (cfg I) r l) = branch_factor (cfg I)"
    and st: "\<not> leaf_read st" "wrote_kvitem st"
  shows "run (mem_handler E) (insert_loop N I key it a v attempt st) (r, e) = Inl AssertionFailed"
  using st
proof (induction N arbitrary: attempt st)
  case (Suc N)
  let ?c = "cfg I"
  have mem: "l \<in> set (leaves ?c r n (root_at I r))" using inv leaf_for_leaves by (auto simp: l_def tree_inv_def tree_ok_def)
  have n: "leaf_map ?c r (leaf_at ?c r l) key = None" using none by (simp add: tree_map_def l_def)
  show ?case
    using Suc insert_attempt_run [OF inv idx key l_def Suc.prems(1), of a it E v attempt e]
    by (simp add: run_bind insert_with_full_leaf [OF inv mem key(1) _ n full])
qed simp

lemma faunus_insert_run:
  assumes inv: "tree_inv I r n" and idx: "\<not> has_cache I" "has_tracker I"
    and key: "length key = KEY_SIZE (cfg I)" "key \<noteq> ArrayVar_max (KEY_SIZE (cfg I))" and val: "length val = VALUE_SIZE (cfg I)"
    and room: "insert_room I r n key"
    and alloc: "e_alloc E (item_bytes I) e = Inr (off, e1)"
    and a: "rm_valid r (GlobalAddress_raw off) (sizeof_KVItem (cfg I))" "unat (server_index (GlobalAddress_raw off)) < 16"
      "\<forall>x \<in> set (footprint I r n). apart (GlobalAddress_raw off) (sizeof_KVItem (cfg I)) (fst x) (snd x)"
  shows "\<exists>r' e'. run (mem_handler E) (faunus_insert I key val) (r, e) = Inr (True, (r', e')) \<and>
    tree_inv I r' n \<and> tree_map I r' n = (tree_map I r n)(key \<mapsto> val)"
proof -
  let ?l = "leaf_for (cfg I) r n (root_at I r) key"
  note cases = insert_cases [OF inv idx key val alloc refl a refl]
  show ?thesis
  proof (cases "tree_map I r n key = None")
    case False
    then show ?thesis using cases(1) unfolding put_step_def by blast
  next
    case True
    then obtain i where "probe_slots (cfg I) (mix64 (tid_hash I)) (leaf_at (cfg I) r ?l) = Some (Inr i)"
        and used: "num_used (leaf_at (cfg I) r ?l) < split_limit (cfg I)"
      using room by (auto simp: insert_room_def Let_def)
    from cases(2) [OF True this(1)] obtain r' where r': "put_step I r n key val (GlobalAddress_raw off) r' []"
        "num_used (leaf_at (cfg I) r' ?l) = Suc (num_used (leaf_at (cfg I) r ?l))" "?l = leaf_for (cfg I) r' n (root_at I r') key"
      and run: "\<And>r2 e2. run (mem_handler E) (after_insert I key ?l (leaf_at (cfg I) r' ?l)) (r', e1) = Inr (Inr True, (r2, e2)) \<Longrightarrow>
          run (mem_handler E) (faunus_insert I key val) (r, e) = Inr (True, (r2, e2))"
      by blast
    have inv': "tree_inv I r' n" using r'(1) by (simp add: put_step_def)
    have "run (mem_handler E) (after_insert I key ?l (leaf_at (cfg I) r' ?l)) (r', e1) = Inr (Inr True, (r', e1))"
      using after_insert_run [OF inv' idx(2) key r'(3)] used r'(2) by simp
    then show ?thesis using run r'(1) unfolding put_step_def by blast
  qed
qed

subsection \<open>The empty tree\<close>

lemma taken_slots_root_leaf: "taken_slots (root_leaf c) = []"
  by (simp add: taken_slots_def root_leaf_def LeafNode_init_def)

lemma root_leaf_unlocked: "\<not> list_ex isLocked (kv_blocks (root_leaf c))"
  by (simp add: root_leaf_def LeafNode_init_def list_ex_iff)

lemma empty_tree:
  assumes "config_ok (cfg I)" and "rm_small r" and "0 < fuel I" and "rm_valid r (root_offset_pointer I) 8"
    and "rm_valid r (root_at I r) (sizeof_InternalNode (cfg I))" and "rm_valid r (root_at I r) (sizeof_LeafNode (cfg I))"
    and "leaf_at (cfg I) r (root_at I r) = root_leaf (cfg I)"
    and "apart (root_offset_pointer I) 8 (root_at I r) (sizeof_LeafNode (cfg I))"
    and "rm_load64 r (root_offset_pointer I) = uintptr (root_at I r)"
  shows "tree_inv I r 0" and "tree_map I r 0 = Map.empty"
    and "footprint I r 0 = [(root_offset_pointer I, 8), (root_at I r, sizeof_LeafNode (cfg I))]"
proof -
  let ?h = "leaf_header (leaf_at (cfg I) r (root_at I r))"
  have h: "lock ?h = 0" "level ?h = 0" "fence_lo ?h = ArrayVar_min (KEY_SIZE (cfg I))" "fence_hi ?h = ArrayVar_max (KEY_SIZE (cfg I))"
    by (simp_all add: assms(7) root_leaf_def LeafNode_init_def Header_init_def)
  have "tree_ok I r 0"
    using assms rm_small_ok [OF assms(2)] subtree.leaf [OF assms(6) refl h(1,2)] unfolding h(3,4) by (simp add: tree_ok_def)
  moreover show fp: "footprint I r 0 = [(root_offset_pointer I, 8), (root_at I r, sizeof_LeafNode (cfg I))]"
    by (simp add: footprint_def node_regions_def item_regions_def leaf_items_def assms(7) taken_slots_root_leaf)
  ultimately show "tree_inv I r 0"
    using assms(2,8,9) by (simp add: tree_inv_def leaf_ok_def assms(7) taken_slots_root_leaf root_leaf_unlocked)
  show "tree_map I r 0 = Map.empty"
    by (simp add: fun_eq_iff tree_map_def leaf_map_def assms(7) taken_slots_root_leaf)
qed


subsection \<open>Sample memory\<close>

text \<open>
  One region of 256 zero bytes, an environment that hands out consecutive addresses, and the index
  with its root pointer at 8 and its root leaf at 64.
\<close>

definition sample_env :: "(nat, cache_item) env_ops" where
  "sample_env = \<lparr>e_alloc = (\<lambda>n e. Inr (of_nat e, e + 128)), e_free = (\<lambda>n off e. e), e_rand = (\<lambda>e. (of_nat e, Suc e)),
     e_search = (\<lambda>key e. (None, e)), e_add = (\<lambda>lo hi x e. e), e_invalidate = (\<lambda>x e. e), e_enqueue = (\<lambda>i op g e. e),
     e_local = (\<lambda>c g e. Inr (False, e))\<rparr>"

definition sample_index :: FaunusIndex where
  "sample_index = \<lparr>cfg = sample_config, root_offset_pointer = GlobalAddress_raw 8, has_cache = False, has_tracker = True,
     tid_hash = 0, num_queues = 0, fuel = 10, levels = 10, oob = [0], kvb_ptr = 0\<rparr>"

definition sample_memory :: rmemory where
  "sample_memory = rm_store (rm_store [replicate 256 0] 64 (enc_leaf sample_config (root_leaf sample_config)))
     (GlobalAddress_raw 8) (bytes_of_u64 64)"

lemma sample_config_index [simp]: "cfg sample_index = sample_config" "fuel sample_index = 10"
  "root_offset_pointer sample_index = GlobalAddress_raw 8" "\<not> has_cache sample_index" "has_tracker sample_index"
  by (simp_all add: sample_index_def)

lemma sample_root: "root_at sample_index sample_memory = 64"
  by code_simp

lemma sample_tree:
  "tree_inv sample_index sample_memory 0" "tree_map sample_index sample_memory 0 = Map.empty"
  "footprint sample_index sample_memory 0 = [(GlobalAddress_raw 8, 8), (64, sizeof_LeafNode sample_config)]"
proof -
  have "map length sample_memory = [256]" by code_simp
  then obtain z where z: "sample_memory = [z]" "length z = 256" by (auto simp: map_eq_Cons_conv)
  have small: "rm_small sample_memory" unfolding rm_small_def z(1) using z(2) by simp
  have valid: "rm_valid sample_memory (GlobalAddress_raw 8) 8" "rm_valid sample_memory 64 (sizeof_InternalNode sample_config)"
      "rm_valid sample_memory 64 (sizeof_LeafNode sample_config)" "apart (GlobalAddress_raw 8) 8 64 (sizeof_LeafNode sample_config)"
      "rm_load64 sample_memory (GlobalAddress_raw 8) = uintptr 64"
    by code_simp+
  have leaf: "leaf_at sample_config sample_memory 64 = root_leaf sample_config" by code_simp
  have "config_ok (cfg sample_index)" by (simp add: sample_config_ok)
  note empty = empty_tree [OF this small, unfolded sample_root sample_config_index, OF _ valid(1-3) leaf valid(4,5)]
  show "tree_inv sample_index sample_memory 0" "tree_map sample_index sample_memory 0 = Map.empty"
    "footprint sample_index sample_memory 0 = [(GlobalAddress_raw 8, 8), (64, sizeof_LeafNode sample_config)]"
    by (rule empty, simp)+
qed


lemma sample_room: "insert_room sample_index sample_memory 0 [7]"
proof -
  have "probe_slots sample_config (mix64 (tid_hash sample_index)) (leaf_at sample_config sample_memory 64) = Some (Inr 0)"
      "num_used (leaf_at sample_config sample_memory 64) = 0"
    by code_simp+
  moreover have "0 < split_limit sample_config" by (simp add: split_limit_def sample_config_def)
  ultimately show ?thesis by (simp add: insert_room_def Let_def sample_root)
qed

lemma sample_new:
  "rm_valid sample_memory (GlobalAddress_raw 160) (sizeof_KVItem sample_config)"
  "unat (server_index (GlobalAddress_raw 160)) < 16"
  "apart (GlobalAddress_raw 160) (sizeof_KVItem sample_config) (GlobalAddress_raw 8) 8"
  "apart (GlobalAddress_raw 160) (sizeof_KVItem sample_config) 64 (sizeof_LeafNode sample_config)"
  by code_simp+

lemma sample_keys:
  "length [7 :: u8] = KEY_SIZE sample_config" "length [8 :: u8] = KEY_SIZE sample_config"
  "length [42 :: u8] = VALUE_SIZE sample_config" "[7] \<noteq> ArrayVar_max (KEY_SIZE sample_config)"
  "[8] \<noteq> ArrayVar_max (KEY_SIZE sample_config)"
  by code_simp+

text \<open>A compute server whose memory servers have given contents.\<close>

definition sample_world :: "rmemory \<Rightarrow> (u64 list, unit, (SmoOp \<times> GlobalAddress) list) cworld" where
  "sample_world r = \<lparr>cw_mgr = RDMAManager_init (map (\<lambda>mem. \<lparr>ms_rdma = mem, next_offset = 0, allocated = {}\<rparr>) r) 0 0,
     cw_alloc = Map.empty, cw_rr = 0, cw_clock = (\<lambda>_. 0), cw_rand = (\<lambda>_. 0), cw_cache = (), cw_queues = [],
     cw_locks = LocalLockManager_init 1 0\<rparr>"

definition no_cache :: "(unit, cache_item) cache_ops" where
  "no_cache = \<lparr>c_search = (\<lambda>key cs. (None, cs)), c_add = (\<lambda>lo hi x cs. cs), c_invalidate = (\<lambda>e cs. cs)\<rparr>"

lemma sample_world_memory: "fst (mgr_abs (sample_world r)) = r"
  by (simp add: mgr_abs_def sample_world_def rmem_def RDMAManager_init_def comp_def)

text \<open>An index whose leaves have one slot and whose watermark is 1, and a memory in which the slot of the root is taken.\<close>

definition narrow_index :: FaunusIndex where
  "narrow_index = sample_index\<lparr>cfg := sample_config\<lparr>branch_factor := 1, SPLIT_WATERMARK := 1\<rparr>\<rparr>"

definition narrow_memory :: rmemory where
  "narrow_memory = rm_store (rm_store [replicate 256 0] 64 (enc_leaf (cfg narrow_index) (root_leaf (cfg narrow_index))))
     (GlobalAddress_raw 8) (bytes_of_u64 64)"

lemma narrow_simps [simp]: "root_offset_pointer narrow_index = GlobalAddress_raw 8" "fuel narrow_index = 10" "\<not> has_cache narrow_index" "has_tracker narrow_index"
  "branch_factor (cfg narrow_index) = 1" "KEY_SIZE (cfg narrow_index) = 1" "VALUE_SIZE (cfg narrow_index) = 1"
  by (simp_all add: narrow_index_def sample_config_def)

lemma narrow_tree:
  "tree_inv narrow_index narrow_memory 0" "tree_map narrow_index narrow_memory 0 = Map.empty"
  "footprint narrow_index narrow_memory 0 = [(GlobalAddress_raw 8, 8), (64, sizeof_LeafNode (cfg narrow_index))]"
  "root_at narrow_index narrow_memory = 64" "leaf_at (cfg narrow_index) narrow_memory 64 = root_leaf (cfg narrow_index)"
proof -
  show root: "root_at narrow_index narrow_memory = 64" by code_simp
  have "map length narrow_memory = [256]" by code_simp
  then obtain z where z: "narrow_memory = [z]" "length z = 256" by (auto simp: map_eq_Cons_conv)
  have small: "rm_small narrow_memory" unfolding rm_small_def z(1) using z(2) by simp
  have valid: "rm_valid narrow_memory (GlobalAddress_raw 8) 8" "rm_valid narrow_memory 64 (sizeof_InternalNode (cfg narrow_index))"
      "rm_valid narrow_memory 64 (sizeof_LeafNode (cfg narrow_index))" "apart (GlobalAddress_raw 8) 8 64 (sizeof_LeafNode (cfg narrow_index))"
      "rm_load64 narrow_memory (GlobalAddress_raw 8) = uintptr 64"
    by code_simp+
  show leaf: "leaf_at (cfg narrow_index) narrow_memory 64 = root_leaf (cfg narrow_index)" by code_simp
  have "config_ok (cfg narrow_index)" using sample_config_ok by (simp add: narrow_index_def config_ok_def)
  note empty = empty_tree [OF this small, unfolded root narrow_simps(1), OF _ valid(1-3) leaf valid(4,5)]
  show "tree_inv narrow_index narrow_memory 0" "tree_map narrow_index narrow_memory 0 = Map.empty"
    "footprint narrow_index narrow_memory 0 = [(GlobalAddress_raw 8, 8), (64, sizeof_LeafNode (cfg narrow_index))]"
    by (rule empty, simp)+
qed

lemma narrow_full:
  "\<exists>r. put_step narrow_index narrow_memory 0 [7] [42] (GlobalAddress_raw 160) r [] \<and> num_used (leaf_at (cfg narrow_index) r 64) = 1"
proof -
  have f: "rm_valid narrow_memory (GlobalAddress_raw 160) (sizeof_KVItem (cfg narrow_index))" "unat (server_index (GlobalAddress_raw 160)) < 16"
      "apart (GlobalAddress_raw 160) (sizeof_KVItem (cfg narrow_index)) (GlobalAddress_raw 8) 8"
      "apart (GlobalAddress_raw 160) (sizeof_KVItem (cfg narrow_index)) 64 (sizeof_LeafNode (cfg narrow_index))"
      "probe_slots (cfg narrow_index) (mix64 (tid_hash narrow_index)) (root_leaf (cfg narrow_index)) = Some (Inr 0)" "[7] \<noteq> ArrayVar_max 1"
    by code_simp+
  have ap: "\<forall>x \<in> set (footprint narrow_index narrow_memory 0). apart (GlobalAddress_raw 160) (sizeof_KVItem (cfg narrow_index)) (fst x) (snd x)"
    unfolding narrow_tree(3) using f(3,4) by simp
  have al: "e_alloc sample_env (item_bytes narrow_index) 160 = Inr (160, 288)" by (simp add: sample_env_def)
  have "num_used (root_leaf (cfg narrow_index)) = 0" by (simp add: num_used_taken taken_slots_root_leaf)
  then show ?thesis
    using insert_cases(2) [OF narrow_tree(1) _ _ _ _ _ al refl f(1,2) ap refl, of "[7]" "[42]" 0] narrow_tree(2,4,5) f(5,6) by auto
qed

text \<open>Reading through the manager of a compute server.\<close>

lemma tree_read_mgr:
  assumes "tree_inv I (fst (mgr_abs w)) n" and "\<not> has_cache I"
    and "length key = KEY_SIZE (cfg I)" and "key \<noteq> ArrayVar_max (KEY_SIZE (cfg I))"
  shows "\<exists>w'. run (mgr_handler Q MQ C tid) (faunus_read I key) w =
      Inr ((tree_map I (fst (mgr_abs w)) n key \<noteq> None, tree_map I (fst (mgr_abs w)) n key), w') \<and> mgr_abs w' = mgr_abs w"
proof (rule mgr.run_refines)
  have ok: "tree_ok I (fst (mgr_abs w)) n" using assms(1) by (simp add: tree_inv_def)
  then have "leaf_for (cfg I) (fst (mgr_abs w)) n (root_at I (fst (mgr_abs w))) key
      \<in> set (leaves (cfg I) (fst (mgr_abs w)) n (root_at I (fst (mgr_abs w))))"
    using leaf_for_leaves by (auto simp: tree_ok_def)
  then have "leaf_ok (cfg I) (fst (mgr_abs w)) (leaf_at (cfg I) (fst (mgr_abs w))
      (leaf_for (cfg I) (fst (mgr_abs w)) n (root_at I (fst (mgr_abs w))) key))"
    using assms(1) by (simp add: tree_inv_def)
  from faunus_read_run [OF ok assms(2-4) this, of _ "snd (mgr_abs w)"]
  show "run (mem_handler (mgr_env Q MQ C)) (faunus_read I key) (mgr_abs w) =
      Inr ((tree_map I (fst (mgr_abs w)) n key \<noteq> None, tree_map I (fst (mgr_abs w)) n key), mgr_abs w)"
    by simp
qed

subsection \<open>Properties\<close>

text \<open>
  C6. Initialisation. When the allocator hands out disjoint zeroed regions, \<^verbatim>\<open>initialize\<close> succeeds and
  leaves an index that satisfies the invariant and stores the empty map, with the requested number of
  maintenance queues (none changes the old ones). The region of the root leaf must also be long enough for an
  internal node, because the search reads any root as one.
\<close>

theorem initialize_creates_empty_index:
  assumes "config_ok (cfg I)" and "rm_small r" and "0 < fuel I"
    and "e_alloc E 8 e = Inr (ptr, e1)" and "e_alloc E (of_nat (sizeof_LeafNode (cfg I))) e1 = Inr (off, e2)"
    and "rm_valid r (GlobalAddress_raw ptr) 8" and "rm_valid r (GlobalAddress_raw off) (sizeof_LeafNode (cfg I))"
    and "rm_valid r (GlobalAddress_raw off) (sizeof_InternalNode (cfg I))"
    and "apart (GlobalAddress_raw off) (sizeof_LeafNode (cfg I)) (GlobalAddress_raw ptr) 8"
    and "rm_load64 r (GlobalAddress_raw ptr) = 0"
  shows "\<exists>r' I'. run (mem_handler E) (initialize I nq) (r, e) = Inr ((True, I'), (r', e2)) \<and>
    tree_inv I' r' 0 \<and> tree_map I' r' 0 = Map.empty \<and> root_at I' r' = GlobalAddress_raw off \<and> cfg I' = cfg I \<and>
    num_queues I' = (if nq > 0 then nq else num_queues I)"
proof -
  define I' where "I' = I\<lparr>root_offset_pointer := GlobalAddress_raw ptr, num_queues := if nq > 0 then nq else num_queues I\<rparr>"
  obtain r' where run: "run (mem_handler E) (initialize I nq) (r, e) = Inr ((True, I'), (r', e2))"
    and r': "rm_load64 r' (GlobalAddress_raw ptr) = uintptr (GlobalAddress_raw off)" "root_at I' r' = GlobalAddress_raw off" "leaf_at (cfg I) r' (GlobalAddress_raw off) = root_leaf (cfg I)"
      "rm_small r' = rm_small r" "\<forall>g n. rm_valid r' g n = rm_valid r g n"
    using initialize_run [OF assms(1) rm_small_ok [OF assms(2)] assms(4) _ assms(6,7,9,10) I'_def] assms(5)
    unfolding leaf_bytes_def by blast
  have "tree_inv I' r' 0" "tree_map I' r' 0 = Map.empty"
    using assms r' by (intro empty_tree; simp add: I'_def apart_commute)+
  then show ?thesis using run r'(2) by (intro exI [of _ r'] exI [of _ I']) (simp add: I'_def)
qed

theorem initialize_creates_empty_index_witness:
  "\<exists>r' I'. run (mem_handler sample_env) (initialize sample_index 3) ([replicate 512 0], 8) = Inr ((True, I'), (r', 264)) \<and>
    tree_map I' r' 0 = Map.empty \<and> num_queues I' = 3"
proof -
  have small: "rm_small [replicate 512 0]" by (simp add: rm_small_def)
  have "rm_valid [replicate 512 0] (GlobalAddress_raw 8) 8" "rm_valid [replicate 512 0] (GlobalAddress_raw 136) (sizeof_LeafNode sample_config)"
    "rm_valid [replicate 512 0] (GlobalAddress_raw 136) (sizeof_InternalNode sample_config)"
    "apart (GlobalAddress_raw 136) (sizeof_LeafNode sample_config) (GlobalAddress_raw 8) 8"
    "rm_load64 [replicate 512 0] (GlobalAddress_raw 8) = 0"
    by code_simp+
  then show ?thesis
    using initialize_creates_empty_index [of sample_index "[replicate 512 0]" sample_env 8 8 136 136 264 3] sample_config_ok small
    by (simp add: sample_env_def) blast
qed




text \<open>With the watermark 1, which the configuration allows, no leaf is ever above the limit for a split.\<close>

lemma full_watermark_never_splits:
  assumes "SPLIT_WATERMARK c = 1"
  shows "num_used (leaf_at c r g) \<le> split_limit c"
  using assms length_filter_le [of "\<lambda>b. \<not> isFree b" "kv_blocks (leaf_at c r g)"] by (simp add: num_used_def split_limit_def leaf_at_def)



end
