(* ===== verification/Search_Tree.thy ===== *)
theory Search_Tree
  imports Faunus_Node
begin

text \<open>
  Search trees of pages, independent of the layout of the pages. A \<open>tree_view\<close> says for every address
  what a client sees there: separators, children and fences of an inner page, the fences of a leaf, and whether the
  page is a leaf or an inner page of a level in a state that is legal between operations. \<open>tree\<close> says
  that an address is the root of a tree of a given height that is responsible for the keys between two
  bounds; the lemmas are about the leaf that is responsible for a key and about trees in two views that
  agree on their pages.
\<close>

record tree_view =
  tv_seps :: "GlobalAddress \<Rightarrow> bytes list"
  tv_kids :: "GlobalAddress \<Rightarrow> GlobalAddress list"
  tv_lo :: "GlobalAddress \<Rightarrow> bytes"
  tv_hi :: "GlobalAddress \<Rightarrow> bytes"
  tv_leaf :: "GlobalAddress \<Rightarrow> bool"
  tv_inner :: "nat \<Rightarrow> GlobalAddress \<Rightarrow> bool"

definition tv_bounds :: "tree_view \<Rightarrow> GlobalAddress \<Rightarrow> bytes list" where
  "tv_bounds V g = tv_lo V g # tv_seps V g @ [tv_hi V g]"

inductive tree :: "tree_view \<Rightarrow> GlobalAddress \<Rightarrow> nat \<Rightarrow> bytes \<Rightarrow> bytes \<Rightarrow> bool" for V where
  leaf: "tv_leaf V g \<Longrightarrow> tree V g 0 (tv_lo V g) (tv_hi V g)"
| inner: "tv_inner V (Suc n) g \<Longrightarrow> length (tv_kids V g) = Suc (length (tv_seps V g)) \<Longrightarrow>
    sorted_wrt (<) (map be_val (tv_seps V g)) \<Longrightarrow>
    (\<And>i. i < length (tv_kids V g) \<Longrightarrow> tree V (tv_kids V g ! i) n (tv_bounds V g ! i) (tv_bounds V g ! Suc i)) \<Longrightarrow>
    tree V g (Suc n) (tv_lo V g) (tv_hi V g)"

inductive_cases tree_0E: "tree V g 0 lo hi"
inductive_cases tree_SucE: "tree V g (Suc n) lo hi"

primrec tree_leaf_for :: "tree_view \<Rightarrow> nat \<Rightarrow> GlobalAddress \<Rightarrow> bytes \<Rightarrow> GlobalAddress" where
  "tree_leaf_for V 0 g k = g"
| "tree_leaf_for V (Suc n) g k = tree_leaf_for V n (route (tv_seps V g) (tv_kids V g) k) k"

primrec tree_inner :: "tree_view \<Rightarrow> nat \<Rightarrow> GlobalAddress \<Rightarrow> GlobalAddress list" where
  "tree_inner V 0 g = []"
| "tree_inner V (Suc n) g = g # concat (map (tree_inner V n) (tv_kids V g))"

primrec tree_leaves :: "tree_view \<Rightarrow> nat \<Rightarrow> GlobalAddress \<Rightarrow> GlobalAddress list" where
  "tree_leaves V 0 g = [g]"
| "tree_leaves V (Suc n) g = concat (map (tree_leaves V n) (tv_kids V g))"

lemma rank_in_bounds:
  assumes "length (tv_kids V g) = Suc (length (tv_seps V g))" and "sorted_wrt (<) (map be_val (tv_seps V g))"
    and "be_val (tv_lo V g) \<le> be_val k" and "be_val k < be_val (tv_hi V g)"
  shows "be_val (tv_bounds V g ! rank (tv_seps V g) k) \<le> be_val k \<and> be_val k < be_val (tv_bounds V g ! Suc (rank (tv_seps V g) k))"
proof -
  let ?ss = "tv_seps V g" and ?j = "rank (tv_seps V g) k"
  have "be_val (tv_bounds V g ! ?j) \<le> be_val k"
  proof (cases ?j)
    case (Suc i)
    then have "i < length ?ss" using rank_le [of ?ss k] by simp
    then show ?thesis using sorted_rank_nth [OF assms(2), of i k] Suc by (simp add: tv_bounds_def nth_append)
  qed (use assms(3) in \<open>simp add: tv_bounds_def\<close>)
  moreover have "be_val k < be_val (tv_bounds V g ! Suc ?j)"
  proof (cases "?j = length ?ss")
    case False
    then have "?j < length ?ss" using rank_le [of ?ss k] by simp
    then show ?thesis using sorted_rank_nth [OF assms(2), of ?j k] by (simp add: tv_bounds_def nth_append not_le)
  qed (use assms(4) in \<open>simp add: tv_bounds_def\<close>)
  ultimately show ?thesis by blast
qed

lemma tree_step:
  assumes "tree V g (Suc n) lo hi" and "be_val lo \<le> be_val k" and "be_val k < be_val hi"
  shows "\<exists>j. route (tv_seps V g) (tv_kids V g) k = tv_kids V g ! j \<and> j < length (tv_kids V g) \<and>
    tree V (tv_kids V g ! j) n (tv_bounds V g ! j) (tv_bounds V g ! Suc j) \<and>
    be_val (tv_bounds V g ! j) \<le> be_val k \<and> be_val k < be_val (tv_bounds V g ! Suc j)"
proof -
  let ?j = "rank (tv_seps V g) k"
  from assms(1) have b: "lo = tv_lo V g" "hi = tv_hi V g" and len: "length (tv_kids V g) = Suc (length (tv_seps V g))"
    and sorted: "sorted_wrt (<) (map be_val (tv_seps V g))"
    and kids: "\<forall>i < length (tv_kids V g). tree V (tv_kids V g ! i) n (tv_bounds V g ! i) (tv_bounds V g ! Suc i)"
    by (auto elim: tree_SucE)
  have "?j < length (tv_kids V g)" using rank_le [of "tv_seps V g" k] len by simp
  then show ?thesis
    using kids rank_in_bounds [OF len sorted] assms(2,3) by (intro exI [of _ ?j]) (simp add: route_def b)
qed

lemma tree_leaf_bounds:
  assumes "tree V g n lo hi" and "be_val lo \<le> be_val k" and "be_val k < be_val hi"
  shows "tv_leaf V (tree_leaf_for V n g k) \<and> be_val (tv_lo V (tree_leaf_for V n g k)) \<le> be_val k \<and>
    be_val k < be_val (tv_hi V (tree_leaf_for V n g k))"
  using assms
proof (induction n arbitrary: g lo hi)
  case 0
  then show ?case by (auto elim: tree_0E)
next
  case (Suc n)
  then show ?case using tree_step [OF Suc.prems] by (auto intro: Suc.IH)
qed

lemma tree_leaf_in_leaves:
  assumes "tree V g n lo hi"
  shows "tree_leaf_for V n g k \<in> set (tree_leaves V n g)"
  using assms
proof (induction rule: tree.induct)
  case (inner n g)
  let ?j = "rank (tv_seps V g) k"
  have j: "?j < length (tv_kids V g)" using rank_le [of "tv_seps V g" k] inner.hyps(2) by simp
  then have "tree_leaf_for V n (tv_kids V g ! ?j) k \<in> set (tree_leaves V n (tv_kids V g ! ?j))" by (rule inner.IH)
  then show ?case using j by (auto simp: route_def intro!: bexI [of _ "tv_kids V g ! ?j"])
qed simp

text \<open>The pages of a tree, and trees in a view that agrees with another one on them.\<close>

lemma tree_pages:
  assumes "tree V g n lo hi"
  shows "(\<forall>h \<in> set (tree_leaves V n g). tv_leaf V h) \<and> (\<forall>h \<in> set (tree_inner V n g). \<exists>m. tv_inner V m h)"
  using assms
proof (induction rule: tree.induct)
  case (inner n g)
  have "(\<forall>h \<in> set (tree_leaves V n k). tv_leaf V h) \<and> (\<forall>h \<in> set (tree_inner V n k). \<exists>m. tv_inner V m h)"
    if "k \<in> set (tv_kids V g)" for k
    using inner.IH that by (metis in_set_conv_nth)
  then show ?case using inner.hyps(1) by auto
qed simp

definition agree_inner :: "tree_view \<Rightarrow> tree_view \<Rightarrow> GlobalAddress \<Rightarrow> bool" where
  "agree_inner V V' h \<longleftrightarrow> tv_seps V' h = tv_seps V h \<and> tv_kids V' h = tv_kids V h \<and> tv_lo V' h = tv_lo V h \<and>
     tv_hi V' h = tv_hi V h \<and> (\<forall>m. tv_inner V' m h = tv_inner V m h)"

definition agree_leaf :: "tree_view \<Rightarrow> tree_view \<Rightarrow> GlobalAddress \<Rightarrow> bool" where
  "agree_leaf V V' h \<longleftrightarrow> tv_lo V' h = tv_lo V h \<and> tv_hi V' h = tv_hi V h \<and> tv_leaf V' h = tv_leaf V h"

lemma tree_agree_shape:
  assumes "tree V g n lo hi" and "\<forall>h \<in> set (tree_inner V n g). agree_inner V V' h"
  shows "tree_inner V' n g = tree_inner V n g \<and> tree_leaves V' n g = tree_leaves V n g \<and>
    tree_leaf_for V' n g k = tree_leaf_for V n g k"
  using assms
proof (induction rule: tree.induct)
  case (inner n g)
  have g: "tv_seps V' g = tv_seps V g" "tv_kids V' g = tv_kids V g" using inner.prems by (auto simp: agree_inner_def)
  have IH: "tree_inner V' n h = tree_inner V n h \<and> tree_leaves V' n h = tree_leaves V n h \<and>
      tree_leaf_for V' n h k = tree_leaf_for V n h k" if h: "h \<in> set (tv_kids V g)" for h
  proof -
    obtain i where "i < length (tv_kids V g)" "h = tv_kids V g ! i" using h by (metis in_set_conv_nth)
    moreover have "\<forall>x \<in> set (tree_inner V n h). agree_inner V V' x" using inner.prems h by auto
    ultimately show ?thesis using inner.IH [of i] by simp
  qed
  have "route (tv_seps V g) (tv_kids V g) k \<in> set (tv_kids V g)"
    using rank_le [of "tv_seps V g" k] inner.hyps(2) by (simp add: route_def)
  then show ?case using IH g by (simp cong: map_cong)
qed simp

lemma tree_agree:
  assumes "tree V g n lo hi" and "\<forall>h \<in> set (tree_inner V n g). agree_inner V V' h"
    and "\<forall>h \<in> set (tree_leaves V n g). agree_leaf V V' h"
  shows "tree V' g n lo hi"
  using assms
proof (induction rule: tree.induct)
  case (leaf g)
  then have "tv_lo V g = tv_lo V' g" "tv_hi V g = tv_hi V' g" "tv_leaf V' g" by (auto simp: agree_leaf_def)
  then show ?case by (simp add: tree.leaf)
next
  case (inner n g)
  have g: "tv_seps V' g = tv_seps V g" "tv_kids V' g = tv_kids V g" "tv_lo V' g = tv_lo V g" "tv_hi V' g = tv_hi V g"
      "tv_inner V' (Suc n) g"
    using inner.prems(1) inner.hyps(1) by (auto simp: agree_inner_def)
  have "tree V' g (Suc n) (tv_lo V' g) (tv_hi V' g)"
  proof (rule tree.inner)
    fix i assume "i < length (tv_kids V' g)"
    then have i: "i < length (tv_kids V g)" by (simp add: g)
    then have "tv_kids V g ! i \<in> set (tv_kids V g)" by simp
    then show "tree V' (tv_kids V' g ! i) n (tv_bounds V' g ! i) (tv_bounds V' g ! Suc i)"
      using inner.IH [OF i] inner.prems by (auto simp: g tv_bounds_def)
  qed (use g inner.hyps in simp_all)
  then show ?case by (simp add: g)
qed

end
