(* ===== verification/Split_Tree.thy ===== *)
theory Split_Tree
  imports Search_Tree
begin

text \<open>
  Search trees while they are being split, independent of the layout of the pages. \<open>ctx\<close> is a tree with a
  hole: everything around one page on the way to a key. A split leaves a \<open>pending\<close> tree behind, in which a page has
  given its upper half to a sibling that its parent does not know yet. The lemmas say what a parent that learns about
  the sibling, a parent that is itself split, and a new root make of a pending tree, and which
  leaf is responsible for a key in each of them.
\<close>

subsection \<open>Lists of lists\<close>

lemma concat_nth_disjoint:
  assumes "distinct (concat (map f xs))" and "i < length xs" and "j < length xs" and "i \<noteq> j"
  shows "set (f (xs ! i)) \<inter> set (f (xs ! j)) = {}"
proof -
  have *: "set (f (xs ! i)) \<inter> set (f (xs ! j)) = {}" if "i < j" "j < length xs" for i j
  proof -
    have "xs = take j xs @ xs ! j # drop (Suc j) xs" using that(2) by (rule id_take_nth_drop)
    then have "concat (map f xs) = concat (map f (take j xs)) @ f (xs ! j) @ concat (map f (drop (Suc j) xs))"
      by (metis concat.simps(2) concat_append list.simps(9) map_append)
    then have "set (concat (map f (take j xs))) \<inter> set (f (xs ! j)) = {}" using assms(1) by auto
    moreover have "xs ! i \<in> set (take j xs)" using that by (auto simp: in_set_conv_nth)
    ultimately show ?thesis by auto
  qed
  show ?thesis using * [of i j] * [of j i] assms(2-4) by (cases "i < j") auto
qed

lemma distinct_concat_nth:
  assumes "distinct (concat (map f xs))" and "j < length xs"
  shows "distinct (f (xs ! j))"
proof -
  have "concat (map f xs) = concat (map f (take j xs)) @ f (xs ! j) @ concat (map f (drop (Suc j) xs))"
    by (subst (1) id_take_nth_drop [OF assms(2)]) simp
  then show ?thesis using assms(1) by simp
qed

lemma mset_concat_nth:
  assumes "j < length xs" and "\<And>i. i < length xs \<Longrightarrow> i \<noteq> j \<Longrightarrow> g (xs ! i) = f (xs ! i)" and "mset (g (xs ! j)) + A = B + mset (f (xs ! j))"
  shows "mset (concat (map g xs)) + A = B + mset (concat (map f xs))"
proof -
  have parts: "concat (map h xs) = concat (map h (take j xs)) @ h (xs ! j) @ concat (map h (drop (Suc j) xs))" for h :: "'a \<Rightarrow> 'b list"
    by (subst (1) id_take_nth_drop [OF assms(1)]) simp
  have "map g (take j xs) = map f (take j xs)" "map g (drop (Suc j) xs) = map f (drop (Suc j) xs)"
    using assms(1,2) by (auto simp: in_set_conv_nth)
  then have "concat (map g (take j xs)) = concat (map f (take j xs))" "concat (map g (drop (Suc j) xs)) = concat (map f (drop (Suc j) xs))"
    by metis+
  then have "mset (concat (map g xs)) + A = (mset (g (xs ! j)) + A) + (mset (concat (map f (take j xs))) + mset (concat (map f (drop (Suc j) xs))))"
    by (simp add: parts ac_simps)
  then show ?thesis unfolding assms(3) by (simp add: parts ac_simps)
qed

subsection \<open>A tree with a hole\<close>

text \<open>
  \<open>ctx V key p m plo phi g n lo hi\<close>: the pages from \<open>g\<close> of height \<open>n\<close> down to the page \<open>p\<close> of height \<open>m\<close> on the way to
  \<open>key\<close>, with the trees beside this way; nothing is said about \<open>p\<close> itself, whose place has the bounds \<open>plo\<close> and \<open>phi\<close>.
\<close>

inductive ctx :: "tree_view \<Rightarrow> bytes \<Rightarrow> GlobalAddress \<Rightarrow> nat \<Rightarrow> bytes \<Rightarrow> bytes \<Rightarrow> GlobalAddress \<Rightarrow> nat \<Rightarrow> bytes \<Rightarrow> bytes \<Rightarrow> bool"
  for V key p m plo phi where
  hole: "ctx V key p m plo phi p m plo phi"
| up: "tv_inner V (Suc n) g \<Longrightarrow> length (tv_kids V g) = Suc (length (tv_seps V g)) \<Longrightarrow>
    sorted_wrt (<) (map be_val (tv_seps V g)) \<Longrightarrow>
    (\<And>i. i < length (tv_kids V g) \<Longrightarrow> i \<noteq> rank (tv_seps V g) key \<Longrightarrow>
       tree V (tv_kids V g ! i) n (tv_bounds V g ! i) (tv_bounds V g ! Suc i)) \<Longrightarrow>
    ctx V key p m plo phi (route (tv_seps V g) (tv_kids V g) key) n
      (tv_bounds V g ! rank (tv_seps V g) key) (tv_bounds V g ! Suc (rank (tv_seps V g) key)) \<Longrightarrow>
    ctx V key p m plo phi g (Suc n) (tv_lo V g) (tv_hi V g)"

text \<open>The separators of the inner pages lie within their fences.\<close>

definition fenced :: "tree_view \<Rightarrow> bool" where
  "fenced V \<longleftrightarrow> (\<forall>n g. tv_inner V n g \<longrightarrow> (\<forall>s \<in> set (tv_seps V g). be_val (tv_lo V g) \<le> be_val s \<and> be_val s \<le> be_val (tv_hi V g)))"

lemma rank_kid: "length (tv_kids V g) = Suc (length (tv_seps V g)) \<Longrightarrow> rank (tv_seps V g) k < length (tv_kids V g)"
  using rank_le [of "tv_seps V g" k] by simp

lemma ctx_bounds:
  assumes "ctx V key p m plo phi g n lo hi" and "fenced V"
  shows "be_val lo \<le> be_val plo" and "be_val phi \<le> be_val hi" and "m \<le> n"
proof -
  have "be_val lo \<le> be_val plo \<and> be_val phi \<le> be_val hi \<and> m \<le> n"
    using assms
  proof (induction rule: ctx.induct)
    case (up n g)
    have "be_val (tv_lo V g) \<le> be_val (tv_bounds V g ! rank (tv_seps V g) key)"
        "be_val (tv_bounds V g ! Suc (rank (tv_seps V g) key)) \<le> be_val (tv_hi V g)"
      using up.prems up.hyps(1) rank_le [of "tv_seps V g" key]
      by (auto simp: fenced_def tv_bounds_def nth_Cons' nth_append)
    then show ?case using up.IH up.prems by simp
  qed simp
  then show "be_val lo \<le> be_val plo" and "be_val phi \<le> be_val hi" and "m \<le> n" by blast+
qed

text \<open>Which child a key belongs to, by the bounds of the children.\<close>

lemma rank_bounds_iff:
  assumes "sorted_wrt (<) (map be_val (tv_seps V g))" and "j \<le> length (tv_seps V g)"
    and "be_val (tv_bounds V g ! j) \<le> be_val k" and "be_val k < be_val (tv_bounds V g ! Suc j)"
  shows "rank (tv_seps V g) k = j"
proof -
  let ?ss = "tv_seps V g"
  have "\<not> rank ?ss k < j"
  proof
    assume "rank ?ss k < j"
    then obtain i where i: "j = Suc i" "rank ?ss k \<le> i" by (cases j) auto
    then have "be_val (?ss ! i) \<le> be_val k" using assms(2,3) by (simp add: tv_bounds_def nth_append)
    then show False using sorted_rank_nth [OF assms(1), of i k] i assms(2) by simp
  qed
  moreover have "\<not> j < rank ?ss k"
  proof
    assume j: "j < rank ?ss k"
    then have "j < length ?ss" using rank_le [of ?ss k] by simp
    then show False using sorted_rank_nth [OF assms(1), of j k] j assms(4) by (simp add: tv_bounds_def nth_append)
  qed
  ultimately show ?thesis by simp
qed

lemma ctx_lists:
  assumes "ctx V key p m plo phi g n lo hi"
  shows "set (tree_inner V m p) \<subseteq> set (tree_inner V n g)" and "set (tree_leaves V m p) \<subseteq> set (tree_leaves V n g)"
proof -
  have "set (tree_inner V m p) \<subseteq> set (tree_inner V n g) \<and> set (tree_leaves V m p) \<subseteq> set (tree_leaves V n g)"
    using assms
  proof (induction rule: ctx.induct)
    case (up n g)
    have "route (tv_seps V g) (tv_kids V g) key \<in> set (tv_kids V g)"
      using rank_kid [OF up.hyps(2)] by (simp add: route_def)
    then show ?case using up.IH by auto
  qed simp
  then show "set (tree_inner V m p) \<subseteq> set (tree_inner V n g)" and "set (tree_leaves V m p) \<subseteq> set (tree_leaves V n g)"
    by blast+
qed

text \<open>
  Two views agree around \<open>p\<close>: on the pages of the tree at \<open>g\<close> that do not belong to the tree at \<open>p\<close>.
\<close>

definition agree_around :: "tree_view \<Rightarrow> tree_view \<Rightarrow> nat \<Rightarrow> GlobalAddress \<Rightarrow> nat \<Rightarrow> GlobalAddress \<Rightarrow> bool" where
  "agree_around V V' m p n g \<longleftrightarrow> distinct (tree_inner V n g) \<and> distinct (tree_leaves V n g) \<and>
     (\<forall>h \<in> set (tree_inner V n g) - set (tree_inner V m p). agree_inner V V' h) \<and>
     (\<forall>h \<in> set (tree_leaves V n g) - set (tree_leaves V m p). agree_leaf V V' h)"

lemma agree_around_kid:
  assumes "agree_around V V' m p (Suc n) g" and "j < length (tv_kids V g)"
    and "set (tree_inner V m p) \<subseteq> set (tree_inner V n (tv_kids V g ! j))"
    and "set (tree_leaves V m p) \<subseteq> set (tree_leaves V n (tv_kids V g ! j))"
  shows "agree_around V V' m p n (tv_kids V g ! j)" and "agree_inner V V' g"
    and "i < length (tv_kids V g) \<Longrightarrow> i \<noteq> j \<Longrightarrow> (\<forall>h \<in> set (tree_inner V n (tv_kids V g ! i)). agree_inner V V' h) \<and>
      (\<forall>h \<in> set (tree_leaves V n (tv_kids V g ! i)). agree_leaf V V' h)"
proof -
  have d: "distinct (concat (map (tree_inner V n) (tv_kids V g)))" "distinct (concat (map (tree_leaves V n) (tv_kids V g)))"
      "g \<notin> set (concat (map (tree_inner V n) (tv_kids V g)))"
    and inner: "\<And>h. h \<in> insert g (set (concat (map (tree_inner V n) (tv_kids V g)))) - set (tree_inner V m p) \<Longrightarrow> agree_inner V V' h"
    and leaf: "\<And>h. h \<in> set (concat (map (tree_leaves V n) (tv_kids V g))) - set (tree_leaves V m p) \<Longrightarrow> agree_leaf V V' h"
    using assms(1) by (auto simp: agree_around_def)
  have part: "set (tree_inner V n (tv_kids V g ! i)) \<subseteq> set (concat (map (tree_inner V n) (tv_kids V g)))"
      "set (tree_leaves V n (tv_kids V g ! i)) \<subseteq> set (concat (map (tree_leaves V n) (tv_kids V g)))" if "i < length (tv_kids V g)" for i
    by (auto intro: bexI [OF _ nth_mem [OF that]])
  show "agree_around V V' m p n (tv_kids V g ! j)"
    unfolding agree_around_def
  proof (intro conjI ballI)
    show "agree_inner V V' h" if "h \<in> set (tree_inner V n (tv_kids V g ! j)) - set (tree_inner V m p)" for h
      using inner part(1) [OF assms(2)] that by blast
    show "agree_leaf V V' h" if "h \<in> set (tree_leaves V n (tv_kids V g ! j)) - set (tree_leaves V m p)" for h
      using leaf part(2) [OF assms(2)] that by blast
  qed (rule distinct_concat_nth [OF d(1) assms(2)], rule distinct_concat_nth [OF d(2) assms(2)])
  have "g \<notin> set (tree_inner V m p)" using d(3) assms(3) part(1) [OF assms(2)] by blast
  then show "agree_inner V V' g" using inner by simp
  assume i: "i < length (tv_kids V g)" "i \<noteq> j"
  show "(\<forall>h \<in> set (tree_inner V n (tv_kids V g ! i)). agree_inner V V' h) \<and>
      (\<forall>h \<in> set (tree_leaves V n (tv_kids V g ! i)). agree_leaf V V' h)"
    using concat_nth_disjoint [OF d(1) i(1) assms(2) i(2)] concat_nth_disjoint [OF d(2) i(1) assms(2) i(2)] assms(3,4)
      inner leaf part [OF i(1)] by blast
qed

lemma agree_innerD:
  assumes "agree_inner V V' g"
  shows "tv_seps V' g = tv_seps V g" "tv_kids V' g = tv_kids V g" "tv_lo V' g = tv_lo V g" "tv_hi V' g = tv_hi V g"
    "tv_inner V' k g = tv_inner V k g" "tv_bounds V' g = tv_bounds V g"
  using assms by (simp_all add: agree_inner_def tv_bounds_def)

lemma ctx_agree:
  assumes "ctx V key p m plo phi g n lo hi" and "agree_around V V' m p n g"
  shows "ctx V' key p m plo phi g n lo hi"
  using assms
proof (induction rule: ctx.induct)
  case hole
  show ?case by (rule ctx.hole)
next
  case (up n g)
  let ?j = "rank (tv_seps V g) key"
  have j: "?j < length (tv_kids V g)" by (rule rank_kid [OF up.hyps(2)])
  note sub = ctx_lists [OF up.hyps(5), unfolded route_def]
  note a = agree_around_kid [OF up.prems j sub]
  note g = agree_innerD [OF a(2)]
  have "ctx V' key p m plo phi g (Suc n) (tv_lo V' g) (tv_hi V' g)"
  proof (rule ctx.up)
    fix i assume "i < length (tv_kids V' g)" "i \<noteq> rank (tv_seps V' g) key"
    then have i: "i < length (tv_kids V g)" "i \<noteq> ?j" by (simp_all add: g)
    show "tree V' (tv_kids V' g ! i) n (tv_bounds V' g ! i) (tv_bounds V' g ! Suc i)"
      unfolding g using tree_agree [OF up.hyps(4) [OF i]] a(3) [OF i] by blast
  qed (use up.hyps up.IH a(1) in \<open>simp_all add: g route_def\<close>)
  then show ?case by (simp add: g)
qed

text \<open>The hole is filled: the tree, its pages, and the leaf that is responsible for a key.\<close>

lemma ctx_fill:
  assumes "ctx V key p m plo phi g n lo hi" and "agree_around V V' m p n g" and "fenced V"
  shows "tree V' p m plo phi \<Longrightarrow> tree V' g n lo hi"
    and "mset (tree_inner V' n g) + mset (tree_inner V m p) = mset (tree_inner V' m p) + mset (tree_inner V n g)"
    and "mset (tree_leaves V' n g) + mset (tree_leaves V m p) = mset (tree_leaves V' m p) + mset (tree_leaves V n g)"
    and "be_val lo \<le> be_val k \<Longrightarrow> be_val k < be_val hi \<Longrightarrow> tree_leaf_for V' n g k =
      (if be_val plo \<le> be_val k \<and> be_val k < be_val phi then tree_leaf_for V' m p k else tree_leaf_for V n g k)"
proof -
  have "(tree V' p m plo phi \<longrightarrow> tree V' g n lo hi) \<and>
    mset (tree_inner V' n g) + mset (tree_inner V m p) = mset (tree_inner V' m p) + mset (tree_inner V n g) \<and>
    mset (tree_leaves V' n g) + mset (tree_leaves V m p) = mset (tree_leaves V' m p) + mset (tree_leaves V n g) \<and>
    (be_val lo \<le> be_val k \<longrightarrow> be_val k < be_val hi \<longrightarrow> tree_leaf_for V' n g k =
      (if be_val plo \<le> be_val k \<and> be_val k < be_val phi then tree_leaf_for V' m p k else tree_leaf_for V n g k))"
    using assms
  proof (induction rule: ctx.induct)
    case hole
    then show ?case by simp
  next
    case (up n g)
    let ?j = "rank (tv_seps V g) key" and ?kid = "\<lambda>i. tv_kids V g ! i"
    have j: "?j < length (tv_kids V g)" by (rule rank_kid [OF up.hyps(2)])
    have rt: "route (tv_seps V g) (tv_kids V g) key = ?kid ?j" by (simp add: route_def)
    note sub = ctx_lists [OF up.hyps(5), unfolded rt]
    note a = agree_around_kid [OF up.prems(1) j sub]
    note g = agree_innerD [OF a(2)]
    note IH = up.IH [unfolded rt, OF a(1) up.prems(2)]
    have other: "tree V' (?kid i) n (tv_bounds V g ! i) (tv_bounds V g ! Suc i)"
        "tree_inner V' n (?kid i) = tree_inner V n (?kid i)" "tree_leaves V' n (?kid i) = tree_leaves V n (?kid i)"
        "tree_leaf_for V' n (?kid i) x = tree_leaf_for V n (?kid i) x" if i: "i < length (tv_kids V g)" "i \<noteq> ?j" for i x
      using tree_agree [OF up.hyps(4) [OF i]] tree_agree_shape [OF up.hyps(4) [OF i]] a(3) [OF i] by blast+
    have "tree V' g (Suc n) (tv_lo V' g) (tv_hi V' g)" if p: "tree V' p m plo phi"
    proof (rule tree.inner)
      fix i assume "i < length (tv_kids V' g)"
      then show "tree V' (tv_kids V' g ! i) n (tv_bounds V' g ! i) (tv_bounds V' g ! Suc i)"
        using IH p other(1) [of i] by (cases "i = ?j") (simp_all add: g)
    qed (use up.hyps in \<open>simp_all add: g\<close>)
    moreover have "mset (tree_inner V' (Suc n) g) + mset (tree_inner V m p) = mset (tree_inner V' m p) + mset (tree_inner V (Suc n) g)"
      using mset_concat_nth [OF j, of "tree_inner V' n" "tree_inner V n"] other(2) IH by (simp add: g)
    moreover have "mset (tree_leaves V' (Suc n) g) + mset (tree_leaves V m p) = mset (tree_leaves V' m p) + mset (tree_leaves V (Suc n) g)"
      using mset_concat_nth [OF j, of "tree_leaves V' n" "tree_leaves V n"] other(3) IH by (simp add: g)
    moreover have "tree_leaf_for V' (Suc n) g k =
        (if be_val plo \<le> be_val k \<and> be_val k < be_val phi then tree_leaf_for V' m p k else tree_leaf_for V (Suc n) g k)"
      if k: "be_val (tv_lo V g) \<le> be_val k" "be_val k < be_val (tv_hi V g)"
    proof (cases "rank (tv_seps V g) k = ?j")
      case True
      then show ?thesis using IH rank_in_bounds [OF up.hyps(2,3) k] by (simp add: g route_def)
    next
      case False
      have "\<not> (be_val plo \<le> be_val k \<and> be_val k < be_val phi)"
      proof
        assume "be_val plo \<le> be_val k \<and> be_val k < be_val phi"
        then have "be_val (tv_bounds V g ! ?j) \<le> be_val k" "be_val k < be_val (tv_bounds V g ! Suc ?j)"
          using ctx_bounds [OF up.hyps(5) up.prems(2)] by linarith+
        then show False using False rank_bounds_iff [OF up.hyps(3)] rank_le by blast
      qed
      then show ?thesis using other(4) [OF rank_kid [OF up.hyps(2)] False] by (auto simp: g route_def)
    qed
    ultimately show ?case by (simp add: g)
  qed
  then show "tree V' p m plo phi \<Longrightarrow> tree V' g n lo hi"
    and "mset (tree_inner V' n g) + mset (tree_inner V m p) = mset (tree_inner V' m p) + mset (tree_inner V n g)"
    and "mset (tree_leaves V' n g) + mset (tree_leaves V m p) = mset (tree_leaves V' m p) + mset (tree_leaves V n g)"
    and "be_val lo \<le> be_val k \<Longrightarrow> be_val k < be_val hi \<Longrightarrow> tree_leaf_for V' n g k =
      (if be_val plo \<le> be_val k \<and> be_val k < be_val phi then tree_leaf_for V' m p k else tree_leaf_for V n g k)"
    by blast+
qed

subsection \<open>Moving the hole\<close>

lemma ctx_level: "ctx V key p m plo phi g n lo hi \<Longrightarrow> m \<le> n"
  by (induction rule: ctx.induct) simp_all

lemma ctx_key:
  assumes "ctx V key p m plo phi g n lo hi" and "fenced V" and "be_val plo \<le> be_val k" and "be_val k < be_val phi"
  shows "ctx V k p m plo phi g n lo hi"
  using assms
proof (induction rule: ctx.induct)
  case hole
  show ?case by (rule ctx.hole)
next
  case (up n g)
  have "be_val (tv_bounds V g ! rank (tv_seps V g) key) \<le> be_val k" "be_val k < be_val (tv_bounds V g ! Suc (rank (tv_seps V g) key))"
    using ctx_bounds [OF up.hyps(5) up.prems(1)] up.prems(2,3) by linarith+
  then have "rank (tv_seps V g) k = rank (tv_seps V g) key" by (rule rank_bounds_iff [OF up.hyps(3) rank_le])
  then show ?case using up.IH [OF up.prems] up.hyps by (intro ctx.up) (simp_all add: route_def)
qed

text \<open>Every leaf of a tree is a hole of the tree, for the keys between its fences.\<close>

lemma tree_ctx_leaf:
  assumes "tree V g n lo hi" and "fenced V" and "l \<in> set (tree_leaves V n g)"
    and "be_val (tv_lo V l) \<le> be_val k" and "be_val k < be_val (tv_hi V l)"
  shows "ctx V k l 0 (tv_lo V l) (tv_hi V l) g n lo hi"
  using assms(1,3)
proof (induction rule: tree.induct)
  case (leaf g)
  then show ?case by (simp add: ctx.hole)
next
  case (inner n g)
  from inner.prems obtain h where "h \<in> set (tv_kids V g)" "l \<in> set (tree_leaves V n h)" by auto
  then obtain i where i: "i < length (tv_kids V g)" "l \<in> set (tree_leaves V n (tv_kids V g ! i))" by (metis in_set_conv_nth)
  note sub = inner.IH [OF this]
  have "be_val (tv_bounds V g ! i) \<le> be_val k" "be_val k < be_val (tv_bounds V g ! Suc i)"
    using ctx_bounds [OF sub assms(2)] assms(4,5) by linarith+
  moreover have "i \<le> length (tv_seps V g)" using i inner.hyps(2) by simp
  ultimately have "rank (tv_seps V g) k = i" using rank_bounds_iff [OF inner.hyps(3)] by blast
  then show ?case using sub inner.hyps by (intro ctx.up) (simp_all add: route_def)
qed

lemma ctx_parent:
  assumes "ctx V key x m xlo xhi g n lo hi" and "m < n"
  shows "\<exists>p plo phi. ctx V key p (Suc m) plo phi g n lo hi \<and> ctx V key x m xlo xhi p (Suc m) plo phi"
  using assms
proof (induction rule: ctx.induct)
  case hole
  then show ?case by simp
next
  case (up n g)
  have here: "ctx V key x m xlo xhi g (Suc n) (tv_lo V g) (tv_hi V g)" using up.hyps by (intro ctx.up)
  show ?case
  proof (cases "m = n")
    case True
    then show ?thesis using here ctx.hole by blast
  next
    case False
    then obtain p plo phi where p: "ctx V key p (Suc m) plo phi (route (tv_seps V g) (tv_kids V g) key) n
        (tv_bounds V g ! rank (tv_seps V g) key) (tv_bounds V g ! Suc (rank (tv_seps V g) key))" "ctx V key x m xlo xhi p (Suc m) plo phi"
      using up.IH up.prems by auto
    then have "ctx V key p (Suc m) plo phi g (Suc n) (tv_lo V g) (tv_hi V g)" using up.hyps by (intro ctx.up)
    then show ?thesis using p(2) by blast
  qed
qed

lemma ctx_here: "ctx V key x m xlo xhi g m lo hi \<Longrightarrow> g = x \<and> lo = xlo \<and> hi = xhi"
  by (erule ctx.cases) (auto dest: ctx_level)

lemma ctx_step:
  assumes "ctx V key x m xlo xhi p (Suc m) plo phi"
  shows "plo = tv_lo V p" "phi = tv_hi V p" "tv_inner V (Suc m) p" "length (tv_kids V p) = Suc (length (tv_seps V p))"
    "sorted_wrt (<) (map be_val (tv_seps V p))" "x = tv_kids V p ! rank (tv_seps V p) key"
    "xlo = tv_bounds V p ! rank (tv_seps V p) key" "xhi = tv_bounds V p ! Suc (rank (tv_seps V p) key)"
    "\<And>i. i < length (tv_kids V p) \<Longrightarrow> i \<noteq> rank (tv_seps V p) key \<Longrightarrow> tree V (tv_kids V p ! i) m (tv_bounds V p ! i) (tv_bounds V p ! Suc i)"
  using assms by (cases rule: ctx.cases; auto dest!: ctx_here simp: route_def)+

subsection \<open>The children of a page\<close>

definition kids_ok :: "tree_view \<Rightarrow> nat \<Rightarrow> bytes list \<Rightarrow> GlobalAddress list \<Rightarrow> bytes \<Rightarrow> bytes \<Rightarrow> bool" where
  "kids_ok V m S C lo hi \<longleftrightarrow> length C = Suc (length S) \<and> sorted_wrt (<) (map be_val S) \<and>
     (\<forall>i < length C. tree V (C ! i) m ((lo # S @ [hi]) ! i) ((lo # S @ [hi]) ! Suc i))"

lemma tree_of_kids:
  assumes "tv_inner V (Suc m) p" and "kids_ok V m (tv_seps V p) (tv_kids V p) (tv_lo V p) (tv_hi V p)"
  shows "tree V p (Suc m) (tv_lo V p) (tv_hi V p)"
  using assms by (intro tree.inner) (simp_all add: kids_ok_def tv_bounds_def)

lemma kids_insert:
  assumes len: "length C = Suc (length S)" and sorted: "sorted_wrt (<) (map be_val S)" and new: "\<forall>s \<in> set S. be_val s \<noteq> be_val key"
    and kids: "\<And>i. i < length C \<Longrightarrow> i \<noteq> rank S key \<Longrightarrow> tree V (C ! i) m ((lo # S @ [hi]) ! i) ((lo # S @ [hi]) ! Suc i)"
    and left: "tree V (C ! rank S key) m ((lo # S @ [hi]) ! rank S key) key"
    and right: "tree V ch m key ((lo # S @ [hi]) ! Suc (rank S key))"
  shows "kids_ok V m (insert_at (rank S key) key S) (insert_at (Suc (rank S key)) ch C) lo hi"
proof -
  let ?j = "rank S key" and ?B = "lo # S @ [hi]"
  have j: "?j \<le> length S" by (rule rank_le)
  have B: "lo # insert_at ?j key S @ [hi] = insert_at (Suc ?j) key ?B" using j by (simp add: insert_at_def)
  have "tree V (insert_at (Suc ?j) ch C ! i) m (insert_at (Suc ?j) key ?B ! i) (insert_at (Suc ?j) key ?B ! Suc i)"
    if i: "i < Suc (length C)" for i
  proof -
    consider "i < ?j" | "i = ?j" | "i = Suc ?j" | "Suc ?j < i" by linarith
    then show ?thesis
      using i j len kids [of i] kids [of "i - 1"] left right
      by cases (simp_all add: nth_insert_at del: nth_Cons_Suc)
  qed
  then show ?thesis
    unfolding kids_ok_def B using j len sorted_insert_at [OF sorted] new by simp
qed

lemma kids_split:
  assumes "kids_ok V m S C lo hi" and "M < length S"
  shows "kids_ok V m (take M S) (take (Suc M) C) lo (S ! M)" and "kids_ok V m (drop (Suc M) S) (drop (Suc M) C) (S ! M) hi"
proof -
  have len: "length C = Suc (length S)" and sorted: "sorted_wrt (<) (map be_val S)"
    and kids: "\<And>i. i < length C \<Longrightarrow> tree V (C ! i) m ((lo # S @ [hi]) ! i) ((lo # S @ [hi]) ! Suc i)"
    using assms(1) by (simp_all add: kids_ok_def)
  have left: "(lo # take M S @ [S ! M]) ! i = (lo # S @ [hi]) ! i" if "i \<le> Suc M" for i
    using that assms(2) by (cases i) (auto simp: nth_append)
  have right: "(S ! M # drop (Suc M) S @ [hi]) ! i = (lo # S @ [hi]) ! (Suc M + i)" if "i \<le> length S - M" for i
    using that assms(2) by (cases i) (auto simp: nth_append)
  show "kids_ok V m (take M S) (take (Suc M) C) lo (S ! M)"
    unfolding kids_ok_def
  proof (intro conjI allI impI)
    fix i assume "i < length (take (Suc M) C)"
    then show "tree V (take (Suc M) C ! i) m ((lo # take M S @ [S ! M]) ! i) ((lo # take M S @ [S ! M]) ! Suc i)"
      using kids [of i] left [of i] left [of "Suc i"] by simp
  qed (use len assms(2) sorted in \<open>simp_all add: take_map [symmetric] sorted_wrt_take\<close>)
  show "kids_ok V m (drop (Suc M) S) (drop (Suc M) C) (S ! M) hi"
    unfolding kids_ok_def
  proof (intro conjI allI impI)
    fix i assume "i < length (drop (Suc M) C)"
    then show "tree V (drop (Suc M) C ! i) m ((S ! M # drop (Suc M) S @ [hi]) ! i) ((S ! M # drop (Suc M) S @ [hi]) ! Suc i)"
      using kids [of "Suc M + i"] right [of i] right [of "Suc i"] len assms(2) by simp
  qed (use len assms(2) sorted in \<open>simp_all add: drop_map [symmetric] sorted_wrt_drop\<close>)
qed

lemma mset_concat_insert_at:
  "mset (concat (map f (insert_at i x xs))) = mset (f x) + mset (concat (map f xs))"
proof -
  have "concat (map f xs) = concat (map f (take i xs)) @ concat (map f (drop i xs))"
    by (metis append_take_drop_id concat_append map_append)
  then show ?thesis by (simp add: insert_at_def)
qed

subsection \<open>Pending trees\<close>

text \<open>
  \<open>pending V key x ch m g n lo hi\<close>: a tree of height \<open>n\<close> at \<open>g\<close> in which the page \<open>x\<close> of height \<open>m\<close> is responsible only for the keys
  below \<open>key\<close> of its place; the tree at \<open>ch\<close>, which no page refers to, has the others.
  \<open>pending_leaf\<close> is the leaf that is responsible for a key when both are taken together.
\<close>

definition pending :: "tree_view \<Rightarrow> bytes \<Rightarrow> GlobalAddress \<Rightarrow> GlobalAddress \<Rightarrow> nat \<Rightarrow> GlobalAddress \<Rightarrow> nat \<Rightarrow> bytes \<Rightarrow> bytes \<Rightarrow> bool" where
  "pending V key x ch m g n lo hi \<longleftrightarrow> (\<exists>xlo. ctx V key x m xlo (tv_hi V ch) g n lo hi \<and> tree V x m xlo key \<and>
     tree V ch m key (tv_hi V ch) \<and> be_val xlo < be_val key \<and> be_val key < be_val (tv_hi V ch))"

definition pending_leaf :: "tree_view \<Rightarrow> bytes \<Rightarrow> GlobalAddress \<Rightarrow> nat \<Rightarrow> GlobalAddress \<Rightarrow> nat \<Rightarrow> bytes \<Rightarrow> GlobalAddress" where
  "pending_leaf V key ch m g n k =
     (if be_val key \<le> be_val k \<and> be_val k < be_val (tv_hi V ch) then tree_leaf_for V m ch k else tree_leaf_for V n g k)"

text \<open>What a pending tree must become: both parts in one tree, with the pages \<open>new\<close> besides.\<close>

definition settles ::
  "tree_view \<Rightarrow> bytes \<Rightarrow> GlobalAddress \<Rightarrow> nat \<Rightarrow> GlobalAddress \<Rightarrow> nat \<Rightarrow> bytes \<Rightarrow> bytes \<Rightarrow> tree_view \<Rightarrow> GlobalAddress \<Rightarrow> nat \<Rightarrow>
   GlobalAddress list \<Rightarrow> bool" where
  "settles V key ch m g n lo hi V' g' n' new \<longleftrightarrow> tree V' g' n' lo hi \<and>
     mset (tree_inner V' n' g') = mset new + mset (tree_inner V n g) + mset (tree_inner V m ch) \<and>
     mset (tree_leaves V' n' g') = mset (tree_leaves V n g) + mset (tree_leaves V m ch) \<and>
     (\<forall>k. be_val lo \<le> be_val k \<longrightarrow> be_val k < be_val hi \<longrightarrow> tree_leaf_for V' n' g' k = pending_leaf V key ch m g n k)"

definition agree_on :: "tree_view \<Rightarrow> tree_view \<Rightarrow> nat \<Rightarrow> GlobalAddress \<Rightarrow> bool" where
  "agree_on V V' n g \<longleftrightarrow> (\<forall>h \<in> set (tree_inner V n g). agree_inner V V' h) \<and> (\<forall>h \<in> set (tree_leaves V n g). agree_leaf V V' h)"

lemma tree_agree_on:
  assumes "tree V g n lo hi" and "agree_on V V' n g"
  shows "tree V' g n lo hi" "tree_inner V' n g = tree_inner V n g" "tree_leaves V' n g = tree_leaves V n g"
    "tree_leaf_for V' n g k = tree_leaf_for V n g k"
proof -
  have a: "\<forall>h \<in> set (tree_inner V n g). agree_inner V V' h" "\<forall>h \<in> set (tree_leaves V n g). agree_leaf V V' h"
    using assms(2) by (simp_all add: agree_on_def)
  show "tree V' g n lo hi" by (rule tree_agree [OF assms(1) a])
  show "tree_inner V' n g = tree_inner V n g" "tree_leaves V' n g = tree_leaves V n g" "tree_leaf_for V' n g k = tree_leaf_for V n g k"
    using tree_agree_shape [OF assms(1) a(1)] by blast+
qed

text \<open>The root itself was split: a new root.\<close>

lemma pending_new_root:
  assumes "pending V key x ch m g m lo hi" and "agree_on V V' m g" and "agree_on V V' m ch"
    and "tv_inner V' (Suc m) q" and "tv_seps V' q = [key]" and "tv_kids V' q = [g, ch]" and "tv_lo V' q = lo" and "tv_hi V' q = hi"
  shows "settles V key ch m g m lo hi V' q (Suc m) [q]"
proof -
  from assms(1) obtain xlo where x: "ctx V key x m xlo (tv_hi V ch) g m lo hi" and t: "tree V x m xlo key" "tree V ch m key (tv_hi V ch)"
    by (auto simp: pending_def)
  have eq: "g = x" "lo = xlo" "hi = tv_hi V ch" using ctx_here [OF x] by simp_all
  note l = tree_agree_on [OF t(1) [folded eq(1,2)] assms(2)] and r = tree_agree_on [OF t(2) [folded eq(3)] assms(3)]
  have "kids_ok V' m [key] [g, ch] lo hi" using l(1) r(1) by (auto simp: kids_ok_def less_Suc_eq)
  then have "tree V' q (Suc m) lo hi" using tree_of_kids [OF assms(4)] assms(5-8) by simp
  moreover have "tree_leaf_for V' (Suc m) q k = pending_leaf V key ch m g m k" if "be_val k < be_val hi" for k
    using that l(4) r(4) eq(3) assms(5,6) by (simp add: pending_leaf_def route_def rank_def)
  ultimately show ?thesis
    using assms(6) l(2,3) r(2,3) by (simp add: settles_def)
qed

text \<open>The parent \<open>p\<close> of the page that was split, with the sibling among its children.\<close>

lemma pending_children:
  assumes "ctx V key x m xlo (tv_hi V ch) p (Suc m) plo phi" and "tree V x m xlo key" and "tree V ch m key (tv_hi V ch)"
    and "\<forall>s \<in> set (tv_seps V p). be_val s \<noteq> be_val key"
    and "\<forall>h \<in> set (tree_inner V (Suc m) p) \<union> set (tree_inner V m ch) - {p}. agree_inner V V' h"
    and "\<forall>h \<in> set (tree_leaves V (Suc m) p) \<union> set (tree_leaves V m ch). agree_leaf V V' h"
    and "distinct (tree_inner V (Suc m) p)" and "p \<notin> set (tree_inner V m ch)"
  shows "kids_ok V' m (insert_at (rank (tv_seps V p) key) key (tv_seps V p))
      (insert_at (Suc (rank (tv_seps V p) key)) ch (tv_kids V p)) plo phi"
    and "\<And>h. h \<in> insert ch (set (tv_kids V p)) \<Longrightarrow> tree_inner V' m h = tree_inner V m h \<and> tree_leaves V' m h = tree_leaves V m h \<and>
      (\<forall>k. tree_leaf_for V' m h k = tree_leaf_for V m h k)"
    and "rank (tv_seps V p) key < length (tv_kids V p)"
proof -
  note s = ctx_step [OF assms(1)]
  have p: "p \<notin> set (tree_inner V m h)" if "h \<in> set (tv_kids V p)" for h using assms(7) that by auto
  have on: "agree_on V V' m h" if "h \<in> insert ch (set (tv_kids V p))" for h
    using that assms(5,6,8) p by (auto simp: agree_on_def)
  show j: "rank (tv_seps V p) key < length (tv_kids V p)" by (rule rank_kid [OF s(4)])
  have kid: "tree V' (tv_kids V p ! i) m (tv_bounds V p ! i) (tv_bounds V p ! Suc i)"
    if i: "i < length (tv_kids V p)" "i \<noteq> rank (tv_seps V p) key" for i
    by (rule tree_agree_on(1) [OF s(9) [OF i] on]) (use i in simp)
  have x: "tree V' x m xlo key" by (rule tree_agree_on(1) [OF assms(2) on]) (use j s(6) in simp)
  have ch: "tree V' ch m key (tv_hi V ch)" by (rule tree_agree_on(1) [OF assms(3) on]) simp
  show "kids_ok V' m (insert_at (rank (tv_seps V p) key) key (tv_seps V p))
      (insert_at (Suc (rank (tv_seps V p) key)) ch (tv_kids V p)) plo phi"
    using s(1,2,6-8) kid x ch by (intro kids_insert [OF s(4,5) assms(4)]) (simp_all add: tv_bounds_def)
  fix h assume h: "h \<in> insert ch (set (tv_kids V p))"
  have "\<exists>lo hi. tree V h m lo hi"
  proof (cases "h = ch")
    case False
    then obtain i where i: "i < length (tv_kids V p)" "h = tv_kids V p ! i" using h by (auto simp: in_set_conv_nth)
    then show ?thesis using s(6,9) assms(2) by (cases "i = rank (tv_seps V p) key") blast+
  qed (use assms(3) in blast)
  then show "tree_inner V' m h = tree_inner V m h \<and> tree_leaves V' m h = tree_leaves V m h \<and> (\<forall>k. tree_leaf_for V' m h k = tree_leaf_for V m h k)"
    using tree_agree_on(2-4) [OF _ on [OF h]] by blast
qed

lemma ctx_leaf_for:
  assumes "ctx V key p m plo phi g n lo hi" and "fenced V" and "be_val plo \<le> be_val k" and "be_val k < be_val phi"
  shows "tree_leaf_for V n g k = tree_leaf_for V m p k"
  using ctx_key [OF assms]
proof (induction rule: ctx.induct)
  case (up n g)
  then show ?case by simp
qed simp

lemma agree_around_parent:
  assumes "distinct (tree_inner V n g)" and "distinct (tree_leaves V n g)"
    and "\<forall>h \<in> set (tree_inner V n g) \<union> A - {p}. agree_inner V V' h" and "\<forall>h \<in> set (tree_leaves V n g) \<union> B. agree_leaf V V' h"
  shows "agree_around V V' (Suc m) p n g"
  using assms by (auto simp: agree_around_def)

lemma ctx_distinct:
  assumes "ctx V key p m plo phi g n lo hi" and "distinct (tree_inner V n g)"
  shows "distinct (tree_inner V m p)"
  using assms
proof (induction rule: ctx.induct)
  case (up n g)
  then have "distinct (concat (map (tree_inner V n) (tv_kids V g)))" by simp
  from distinct_concat_nth [OF this rank_kid [OF up.hyps(2)]] show ?case using up.IH by (simp add: route_def)
qed

lemma insert_route:
  assumes "ctx V key x m xlo (tv_hi V ch) p (Suc m) plo phi" and "be_val xlo < be_val key"
    and "be_val plo \<le> be_val k" and "be_val k < be_val phi"
  shows "route (insert_at (rank (tv_seps V p) key) key (tv_seps V p)) (insert_at (Suc (rank (tv_seps V p) key)) ch (tv_kids V p)) k =
    (if be_val key \<le> be_val k \<and> be_val k < be_val (tv_hi V ch) then ch else route (tv_seps V p) (tv_kids V p) k)"
proof -
  note s = ctx_step [OF assms(1)]
  have "rank (tv_seps V p) k = rank (tv_seps V p) key \<longleftrightarrow> be_val k < be_val (tv_hi V ch)" if "be_val key \<le> be_val k"
    using rank_in_bounds [OF s(4,5), of k] rank_bounds_iff [OF s(5) rank_le, of key k] assms that s(1,2,7,8) by force
  then show ?thesis using route_insert_at [OF rank_kid [OF s(4)] rank_kid [OF s(4)]] by auto
qed

lemma pending_insert:
  assumes fenced: "fenced V" and up: "ctx V key p (Suc m) plo phi g n lo hi" and here: "ctx V key x m xlo (tv_hi V ch) p (Suc m) plo phi"
    and trees: "tree V x m xlo key" "tree V ch m key (tv_hi V ch)" and key: "be_val xlo < be_val key"
    and new: "\<forall>s \<in> set (tv_seps V p). be_val s \<noteq> be_val key"
    and dist: "distinct (tree_inner V n g)" "distinct (tree_leaves V n g)" "p \<notin> set (tree_inner V m ch)"
    and inner: "\<forall>h \<in> set (tree_inner V n g) \<union> set (tree_inner V m ch) - {p}. agree_inner V V' h"
    and leaves: "\<forall>h \<in> set (tree_leaves V n g) \<union> set (tree_leaves V m ch). agree_leaf V V' h"
    and p': "tv_inner V' (Suc m) p" "tv_lo V' p = tv_lo V p" "tv_hi V' p = tv_hi V p"
      "tv_seps V' p = insert_at (rank (tv_seps V p) key) key (tv_seps V p)"
      "tv_kids V' p = insert_at (Suc (rank (tv_seps V p) key)) ch (tv_kids V p)"
  shows "settles V key ch m g n lo hi V' g n []"
proof -
  note s = ctx_step [OF here]
  have sub: "set (tree_inner V (Suc m) p) \<subseteq> set (tree_inner V n g)" "set (tree_leaves V (Suc m) p) \<subseteq> set (tree_leaves V n g)"
    using ctx_lists [OF up] by blast+
  have a: "\<forall>h \<in> set (tree_inner V (Suc m) p) \<union> set (tree_inner V m ch) - {p}. agree_inner V V' h"
      "\<forall>h \<in> set (tree_leaves V (Suc m) p) \<union> set (tree_leaves V m ch). agree_leaf V V' h"
    using inner leaves sub by blast+
  note kids = pending_children [OF here trees new a ctx_distinct [OF up dist(1)] dist(3)]
  have tree: "tree V' p (Suc m) plo phi"
    using tree_of_kids [OF p'(1)] kids(1) unfolding p'(2-5) s(1,2) .
  note fill = ctx_fill [OF up agree_around_parent [OF dist(1,2) inner leaves] fenced]
  have same: "map (tree_inner V' m) (tv_kids V p) = map (tree_inner V m) (tv_kids V p)" "map (tree_leaves V' m) (tv_kids V p) = map (tree_leaves V m) (tv_kids V p)"
      "tree_inner V' m ch = tree_inner V m ch" "tree_leaves V' m ch = tree_leaves V m ch"
    using kids(2) by simp_all
  have "mset (tree_inner V' (Suc m) p) = mset (tree_inner V (Suc m) p) + mset (tree_inner V m ch)"
    "mset (tree_leaves V' (Suc m) p) = mset (tree_leaves V (Suc m) p) + mset (tree_leaves V m ch)"
    by (simp_all add: p'(5) mset_concat_insert_at same)
  then have lists: "mset (tree_inner V' n g) = mset (tree_inner V n g) + mset (tree_inner V m ch)"
      "mset (tree_leaves V' n g) = mset (tree_leaves V n g) + mset (tree_leaves V m ch)"
    using fill(2,3) by (simp_all add: ac_simps)
  have "tree_leaf_for V' n g k = pending_leaf V key ch m g n k" if k: "be_val lo \<le> be_val k" "be_val k < be_val hi" for k
  proof (cases "be_val plo \<le> be_val k \<and> be_val k < be_val phi")
    case True
    have "route (tv_seps V p) (tv_kids V p) k \<in> set (tv_kids V p)" using rank_kid [OF s(4)] by (simp add: route_def)
    then show ?thesis
      using fill(4) [OF k] True insert_route [OF here key, of k] kids(2) ctx_leaf_for [OF up fenced, of k]
      by (auto simp: p'(4,5) pending_leaf_def)
  next
    case False
    have "\<not> (be_val key \<le> be_val k \<and> be_val k < be_val (tv_hi V ch))"
      using False ctx_bounds [OF here fenced] key by linarith
    then show ?thesis using fill(4) [OF k] False by (auto simp: pending_leaf_def)
  qed
  then show ?thesis using fill(1) [OF tree] lists by (simp add: settles_def)
qed

text \<open>
  The parent is full: it is split in turn, between the children \<open>M\<close> and \<open>Suc M\<close> of the list with the new child, and its right
  half \<open>q\<close> is pending one level up.
\<close>

definition passes_on ::
  "tree_view \<Rightarrow> bytes \<Rightarrow> GlobalAddress \<Rightarrow> nat \<Rightarrow> GlobalAddress \<Rightarrow> nat \<Rightarrow> bytes \<Rightarrow> bytes \<Rightarrow> tree_view \<Rightarrow> bytes \<Rightarrow> GlobalAddress \<Rightarrow> GlobalAddress \<Rightarrow> bool" where
  "passes_on V key ch m g n lo hi V' key' p q \<longleftrightarrow> pending V' key' p q (Suc m) g n lo hi \<and>
     mset (tree_inner V' n g) + mset (tree_inner V' (Suc m) q) = {#q#} + mset (tree_inner V n g) + mset (tree_inner V m ch) \<and>
     mset (tree_leaves V' n g) + mset (tree_leaves V' (Suc m) q) = mset (tree_leaves V n g) + mset (tree_leaves V m ch) \<and>
     (\<forall>k. be_val lo \<le> be_val k \<longrightarrow> be_val k < be_val hi \<longrightarrow> pending_leaf V' key' q (Suc m) g n k = pending_leaf V key ch m g n k)"

lemma concat_take_drop: "concat (map f xs) = concat (map f (take i xs)) @ concat (map f (drop i xs))"
  by (metis append_take_drop_id concat_append map_append)

lemma mset_exchange:
  assumes "A' + P = P' + A" and "P' + Q = R + P"
  shows "A' + Q = R + (A :: 'a multiset)"
proof -
  have "(A' + Q) + P = (A' + P) + Q" by (simp add: ac_simps)
  also have "\<dots> = (P' + Q) + A" unfolding assms(1) by (simp add: ac_simps)
  also have "\<dots> = (R + A) + P" unfolding assms(2) by (simp add: ac_simps)
  finally show ?thesis by simp
qed

lemma pending_split:
  fixes V p key ch
  defines "S \<equiv> insert_at (rank (tv_seps V p) key) key (tv_seps V p)"
    and "C \<equiv> insert_at (Suc (rank (tv_seps V p) key)) ch (tv_kids V p)"
  assumes fenced: "fenced V" "fenced V'" and up: "ctx V key p (Suc m) plo phi g n lo hi" and here: "ctx V key x m xlo (tv_hi V ch) p (Suc m) plo phi"
    and trees: "tree V x m xlo key" "tree V ch m key (tv_hi V ch)" and key: "be_val xlo < be_val key"
    and new: "\<forall>s \<in> set (tv_seps V p). be_val s \<noteq> be_val key"
    and dist: "distinct (tree_inner V n g)" "distinct (tree_leaves V n g)" "p \<notin> set (tree_inner V m ch)"
    and inner: "\<forall>h \<in> set (tree_inner V n g) \<union> set (tree_inner V m ch) - {p}. agree_inner V V' h"
    and leaves: "\<forall>h \<in> set (tree_leaves V n g) \<union> set (tree_leaves V m ch). agree_leaf V V' h"
    and M: "M < length S" "be_val plo < be_val (S ! M)" "be_val (S ! M) < be_val phi"
    and p': "tv_inner V' (Suc m) p" "tv_lo V' p = tv_lo V p" "tv_hi V' p = S ! M" "tv_seps V' p = take M S" "tv_kids V' p = take (Suc M) C"
    and q': "tv_inner V' (Suc m) q" "tv_lo V' q = S ! M" "tv_hi V' q = tv_hi V p" "tv_seps V' q = drop (Suc M) S" "tv_kids V' q = drop (Suc M) C"
  shows "passes_on V key ch m g n lo hi V' (S ! M) p q"
proof -
  note s = ctx_step [OF here]
  have sub: "set (tree_inner V (Suc m) p) \<subseteq> set (tree_inner V n g)" "set (tree_leaves V (Suc m) p) \<subseteq> set (tree_leaves V n g)"
    using ctx_lists [OF up] by blast+
  have a: "\<forall>h \<in> set (tree_inner V (Suc m) p) \<union> set (tree_inner V m ch) - {p}. agree_inner V V' h"
      "\<forall>h \<in> set (tree_leaves V (Suc m) p) \<union> set (tree_leaves V m ch). agree_leaf V V' h"
    using inner leaves sub by blast+
  note kids = pending_children [OF here trees new a ctx_distinct [OF up dist(1)] dist(3), folded S_def C_def]
  note halves = kids_split [OF kids(1) M(1)]
  note around = agree_around_parent [OF dist(1,2) inner leaves]
  have tp: "tree V' p (Suc m) plo (S ! M)" using tree_of_kids [OF p'(1)] halves(1) unfolding p'(2-5) s(1) .
  have tq: "tree V' q (Suc m) (S ! M) phi" using tree_of_kids [OF q'(1)] halves(2) unfolding q'(2-5) s(2) .
  have hole: "ctx V' (S ! M) p (Suc m) plo (tv_hi V' q) g n lo hi"
    unfolding q'(3) s(2) [symmetric]
    by (rule ctx_key [OF ctx_agree [OF up around] fenced(2)]) (use M in simp_all)
  have pend: "pending V' (S ! M) p q (Suc m) g n lo hi"
    unfolding pending_def using hole tp tq M s(2) q'(3) by auto
  note fill = ctx_fill [OF up around fenced(1)]
  have same: "map (tree_inner V' m) (tv_kids V p) = map (tree_inner V m) (tv_kids V p)" "map (tree_leaves V' m) (tv_kids V p) = map (tree_leaves V m) (tv_kids V p)"
      "tree_inner V' m ch = tree_inner V m ch" "tree_leaves V' m ch = tree_leaves V m ch"
    using kids(2) by simp_all
  have all: "mset (concat (map (tree_inner V' m) C)) = mset (tree_inner V m ch) + mset (concat (map (tree_inner V m) (tv_kids V p)))"
      "mset (concat (map (tree_leaves V' m) C)) = mset (tree_leaves V m ch) + mset (concat (map (tree_leaves V m) (tv_kids V p)))"
    by (simp_all add: C_def mset_concat_insert_at same)
  have swap: "mset (tree_inner V' (Suc m) p) + mset (tree_inner V' (Suc m) q) = ({#q#} + mset (tree_inner V m ch)) + mset (tree_inner V (Suc m) p)"
    "mset (tree_leaves V' (Suc m) p) + mset (tree_leaves V' (Suc m) q) = mset (tree_leaves V m ch) + mset (tree_leaves V (Suc m) p)"
    using all concat_take_drop [of "tree_inner V' m" C "Suc M"] concat_take_drop [of "tree_leaves V' m" C "Suc M"]
    by (simp_all add: p'(5) q'(5) ac_simps)
  have lists: "mset (tree_inner V' n g) + mset (tree_inner V' (Suc m) q) = {#q#} + mset (tree_inner V n g) + mset (tree_inner V m ch)"
      "mset (tree_leaves V' n g) + mset (tree_leaves V' (Suc m) q) = mset (tree_leaves V n g) + mset (tree_leaves V m ch)"
    using mset_exchange [OF fill(2) swap(1)] mset_exchange [OF fill(3) swap(2)] by (simp_all only: ac_simps)
  have "pending_leaf V' (S ! M) q (Suc m) g n k = pending_leaf V key ch m g n k" if k: "be_val lo \<le> be_val k" "be_val k < be_val hi" for k
  proof (cases "be_val plo \<le> be_val k \<and> be_val k < be_val phi")
    case True
    have sorted: "sorted_wrt (<) (map be_val S)" and len: "length C = Suc (length S)" using kids(1) by (simp_all add: kids_ok_def)
    have mem: "route (tv_seps V p) (tv_kids V p) k \<in> set (tv_kids V p)" using rank_kid [OF s(4)] by (simp add: route_def)
    have rt: "tree_leaf_for V' m (route S C k) k = pending_leaf V key ch m g n k"
      using insert_route [OF here key, of k, folded S_def C_def] True kids(2) mem ctx_leaf_for [OF up fenced(1), of k]
      by (auto simp: pending_leaf_def)
    have "tree_leaf_for V' (Suc m) (if be_val k < be_val (S ! M) then p else q) k = tree_leaf_for V' m (route S C k) k"
      using route_halves [OF sorted M(1) len, of k] by (simp add: p'(4,5) q'(4,5))
    then show ?thesis
      using rt fill(4) [OF k] True by (auto simp: pending_leaf_def q'(3) s(2) [symmetric] not_less)
  next
    case False
    have "\<not> (be_val key \<le> be_val k \<and> be_val k < be_val (tv_hi V ch))"
      using False ctx_bounds [OF here fenced(1)] key by linarith
    moreover have "\<not> (be_val (S ! M) \<le> be_val k \<and> be_val k < be_val phi)" using False M(2) by linarith
    ultimately show ?thesis using fill(4) [OF k] False by (auto simp: pending_leaf_def q'(3) s(2) [symmetric])
  qed
  then show ?thesis using pend lists by (simp add: passes_on_def)
qed

text \<open>Composition: a settled tree of a passed-on pending tree settles the first one.\<close>

lemma passes_on_settles:
  assumes "passes_on V key ch m g n lo hi V1 key1 p q" and "settles V1 key1 q (Suc m) g n lo hi V' g' n' new"
  shows "settles V key ch m g n lo hi V' g' n' (q # new)"
proof -
  have "mset (tree_inner V' n' g') = mset new + (mset (tree_inner V1 n g) + mset (tree_inner V1 (Suc m) q))"
    "mset (tree_leaves V' n' g') = mset (tree_leaves V1 n g) + mset (tree_leaves V1 (Suc m) q)"
    using assms(2) by (simp_all add: settles_def ac_simps)
  then show ?thesis
    using assms by (simp add: settles_def passes_on_def ac_simps)
qed

lemma settles_agree:
  assumes "settles V key ch m g n lo hi V1 g' n' new" and "agree_on V1 V2 n' g'"
  shows "settles V key ch m g n lo hi V2 g' n' new"
proof -
  have "tree V1 g' n' lo hi" using assms(1) by (simp add: settles_def)
  note a = tree_agree_on [OF this assms(2)]
  show ?thesis using assms(1) a by (simp add: settles_def)
qed

subsection \<open>The pages of a pending tree\<close>

lemma ctx_pages:
  assumes "ctx V key p m plo phi g n lo hi" and "tree V p m plo' phi'"
  shows "(\<forall>h \<in> set (tree_leaves V n g). tv_leaf V h) \<and> (\<forall>h \<in> set (tree_inner V n g). \<exists>k. tv_inner V k h)"
  using assms
proof (induction rule: ctx.induct)
  case hole
  then show ?case using tree_pages by blast
next
  case (up n g)
  have "(\<forall>h \<in> set (tree_leaves V n k). tv_leaf V h) \<and> (\<forall>h \<in> set (tree_inner V n k). \<exists>k. tv_inner V k h)"
    if k: "k \<in> set (tv_kids V g)" for k
  proof -
    obtain i where i: "i < length (tv_kids V g)" "k = tv_kids V g ! i" using k by (metis in_set_conv_nth)
    then show ?thesis
      using tree_pages [OF up.hyps(4) [OF i(1)]] up.IH [OF up.prems] by (cases "i = rank (tv_seps V g) key") (simp_all add: route_def)
  qed
  then show ?case using up.hyps(1) by auto
qed

lemma pending_pages:
  assumes "pending V key x ch m g n lo hi"
  shows "\<forall>h \<in> set (tree_leaves V n g) \<union> set (tree_leaves V m ch). tv_leaf V h"
    and "\<forall>h \<in> set (tree_inner V n g) \<union> set (tree_inner V m ch). \<exists>k. tv_inner V k h"
  using assms ctx_pages [of V key x m _ "tv_hi V ch" g n lo hi _ key] tree_pages [of V ch m key "tv_hi V ch"]
  by (auto simp: pending_def)

end
