(* ===== verification/Faunus_Grow.thy ===== *)
theory Faunus_Grow
  imports Faunus_Insert Split_Tree
begin

text \<open>
  How a Faunus tree grows: \<^verbatim>\<open>insert_internal_entry\<close>, \<^verbatim>\<open>split_internal_node\<close> and \<^verbatim>\<open>setup_new_root\<close> of
  \<^verbatim>\<open>src/src/kv_index/faunus_index.cpp\<close> as steps on pending trees (\<open>Split_Tree\<close>). \<open>f_view c r K\<close> is the tree that a
  memory shows when exactly the nodes in \<open>K\<close> are locked.
\<close>

subsection \<open>The tree in memory as a view\<close>

definition f_view :: "Config \<Rightarrow> rmemory \<Rightarrow> GlobalAddress set \<Rightarrow> tree_view" where
  "f_view c r K = \<lparr>tv_seps = (\<lambda>g. separators (node_at c r g)), tv_kids = (\<lambda>g. children (node_at c r g)),
     tv_lo = (\<lambda>g. fence_lo (node_header (node_at c r g))), tv_hi = (\<lambda>g. fence_hi (node_header (node_at c r g))),
     tv_leaf = (\<lambda>g. rm_valid r g (sizeof_LeafNode c) \<and> level (leaf_header (leaf_at c r g)) = 0 \<and>
       lock (leaf_header (leaf_at c r g)) = of_bool (g \<in> K)),
     tv_inner = (\<lambda>n g. rm_valid r g (sizeof_InternalNode c) \<and> node_ok c (node_at c r g) \<and> spare_ok (node_at c r g) \<and>
       lock (node_header (node_at c r g)) = of_bool (g \<in> K) \<and> unat (level (node_header (node_at c r g))) = n)\<rparr>"

lemma f_view_simps [simp]:
  "tv_seps (f_view c r K) g = separators (node_at c r g)" "tv_kids (f_view c r K) g = children (node_at c r g)"
  "tv_lo (f_view c r K) g = fence_lo (node_header (node_at c r g))" "tv_hi (f_view c r K) g = fence_hi (node_header (node_at c r g))"
  "tv_leaf (f_view c r K) g \<longleftrightarrow> rm_valid r g (sizeof_LeafNode c) \<and> level (leaf_header (leaf_at c r g)) = 0 \<and>
     lock (leaf_header (leaf_at c r g)) = of_bool (g \<in> K)"
  "tv_inner (f_view c r K) n g \<longleftrightarrow> rm_valid r g (sizeof_InternalNode c) \<and> node_ok c (node_at c r g) \<and> spare_ok (node_at c r g) \<and>
     lock (node_header (node_at c r g)) = of_bool (g \<in> K) \<and> unat (level (node_header (node_at c r g))) = n"
  by (simp_all add: f_view_def)

lemma f_view_bounds: "tv_bounds (f_view c r K) g = bounds (node_at c r g)"
  by (simp add: tv_bounds_def bounds_def)

lemma f_view_fenced: "fenced (f_view c r K)"
  by (auto simp: fenced_def node_ok_def less_imp_le)

lemma f_view_lists:
  "tree_inner (f_view c r K) n g = inner_nodes c r n g" "tree_leaves (f_view c r K) n g = leaves c r n g"
  "tree_leaf_for (f_view c r K) n g k = leaf_for c r n g k"
  by (induction n arbitrary: g) (simp_all cong: map_cong)

lemma subtree_view:
  assumes "subtree c r g n lo hi" and "\<forall>h \<in> set (inner_nodes c r n g). spare_ok (node_at c r h)"
  shows "tree (f_view c r {}) g n lo hi"
  using assms
proof (induction rule: subtree.induct)
  case (leaf g h)
  then show ?case using tree.leaf [of "f_view c r {}" g] by (simp add: node_header_of_leaf)
next
  case (node g nd n)
  have "tree (f_view c r {}) g (Suc n) (tv_lo (f_view c r {}) g) (tv_hi (f_view c r {}) g)"
  proof (rule tree.inner)
    fix i assume "i < length (tv_kids (f_view c r {}) g)"
    then have i: "i < length (children nd)" using node.hyps(2) by simp
    then have "\<forall>h \<in> set (inner_nodes c r n (children nd ! i)). spare_ok (node_at c r h)"
      using node.prems node.hyps(2) by fastforce
    then show "tree (f_view c r {}) (tv_kids (f_view c r {}) g ! i) n (tv_bounds (f_view c r {}) g ! i) (tv_bounds (f_view c r {}) g ! Suc i)"
      using node.IH [OF i] node.hyps(2) by (simp add: f_view_bounds)
  qed (use node.hyps node.prems node_parts(2,3) [OF node.hyps(3)] in \<open>simp_all add: node_ok_def\<close>)
  then show ?case using node.hyps(2) by simp
qed

lemma view_subtree:
  assumes "tree (f_view c r {}) g n lo hi"
  shows "subtree c r g n lo hi \<and> (\<forall>h \<in> set (inner_nodes c r n g). spare_ok (node_at c r h))"
  using assms
proof (induction rule: tree.induct)
  case (leaf g)
  then show ?case using subtree.leaf [of r g c, OF _ refl] by (simp add: node_header_of_leaf)
next
  case (inner n g)
  have kid: "subtree c r (children (node_at c r g) ! i) n (bounds (node_at c r g) ! i) (bounds (node_at c r g) ! Suc i) \<and>
      (\<forall>h \<in> set (inner_nodes c r n (children (node_at c r g) ! i)). spare_ok (node_at c r h))"
    if "i < length (children (node_at c r g))" for i
    using inner.IH [of i] that by (simp add: f_view_bounds)
  then have "\<forall>h \<in> set (inner_nodes c r n k). spare_ok (node_at c r h)" if "k \<in> set (children (node_at c r g))" for k
    using that by (metis in_set_conv_nth)
  moreover have "subtree c r g (Suc n) (fence_lo (node_header (node_at c r g))) (fence_hi (node_header (node_at c r g)))"
    using inner.hyps(1) kid by (intro subtree.node [OF _ refl]) simp_all
  ultimately show ?case using inner.hyps(1) by simp
qed

subsection \<open>Changing the memory of a view\<close>

definition with_lock :: "u64 \<Rightarrow> InternalNode \<Rightarrow> InternalNode" where
  "with_lock v nd = nd\<lparr>node_header := (node_header nd)\<lparr>lock := v\<rparr>\<rparr>"

lemma with_lock_parts [simp]:
  "separators (with_lock v nd) = separators nd" "children (with_lock v nd) = children nd"
  "node_ok c (with_lock v nd) = node_ok c nd" "spare_ok (with_lock v nd) = spare_ok nd" "entries (with_lock v nd) = entries nd"
  "lock (node_header (with_lock v nd)) = v" "level (node_header (with_lock v nd)) = level (node_header nd)"
  "fence_lo (node_header (with_lock v nd)) = fence_lo (node_header nd)" "fence_hi (node_header (with_lock v nd)) = fence_hi (node_header nd)"
  "last_index (node_header (with_lock v nd)) = last_index (node_header nd)"
  by (simp_all add: with_lock_def separators_def children_def spare_ok_def node_ok_def node_wf_def header_wf_def)

lemma dec_header_lock:
  assumes "sizeof_Header c \<le> length bs"
  shows "dec_header c (bsplice 0 (bytes_of_u64 v) bs) = (dec_header c bs)\<lparr>lock := v\<rparr>"
  using assms
  by (simp add: dec_header_def sizeof_Header_def bslice_bsplice_same bslice_bsplice_disjoint)

lemma node_lock_store:
  assumes "rm_small r" and "rm_valid r g (sizeof_InternalNode c)"
  shows "node_at c (rm_store r g (bytes_of_u64 v)) g = with_lock v (node_at c r g)"
proof -
  let ?bs = "rm_load r g (sizeof_InternalNode c)"
  have len: "length ?bs = sizeof_InternalNode c" by (rule rm.length_load [OF assms(2)])
  have h8: "8 \<le> sizeof_Header c" "sizeof_Header c \<le> sizeof_InternalNode c" by (rule header_fits)+
  have "rm_load (rm_store r g (bytes_of_u64 v)) g (sizeof_InternalNode c) = bsplice 0 (bytes_of_u64 v) ?bs"
    using sub_store [OF assms, of 0 "bytes_of_u64 v"] h8 by simp
  moreover have "bslice (sizeof_Header c + i * sizeof_InternalEntry c) (sizeof_InternalEntry c) (bsplice 0 (bytes_of_u64 v) ?bs) =
      bslice (sizeof_Header c + i * sizeof_InternalEntry c) (sizeof_InternalEntry c) ?bs" if "i < branch_factor c" for i
  proof (rule bslice_bsplice_disjoint)
    have "i * sizeof_InternalEntry c + sizeof_InternalEntry c \<le> branch_factor c * sizeof_InternalEntry c"
      using that by (metis Suc_leI add.commute mult_Suc mult_le_mono1)
    then show "sizeof_Header c + i * sizeof_InternalEntry c + sizeof_InternalEntry c \<le> length ?bs"
      unfolding len by (simp add: sizeof_InternalNode_def)
  qed (use h8 len in simp_all)
  ultimately show ?thesis
    using h8 len by (simp add: node_at_def dec_node_def with_lock_def dec_header_lock)
qed

lemma leaf_lock_store:
  assumes "rm_small r" and "rm_valid r g (sizeof_LeafNode c)"
  shows "leaf_at c (rm_store r g (bytes_of_u64 v)) g = (leaf_at c r g)\<lparr>leaf_header := (leaf_header (leaf_at c r g))\<lparr>lock := v\<rparr>\<rparr>"
proof -
  let ?bs = "rm_load r g (sizeof_LeafNode c)"
  have len: "length ?bs = sizeof_LeafNode c" by (rule rm.length_load [OF assms(2)])
  have h8: "8 \<le> sizeof_Header c" "sizeof_Header c \<le> sizeof_LeafNode c" by (rule header_fits)+
  have "rm_load (rm_store r g (bytes_of_u64 v)) g (sizeof_LeafNode c) = bsplice 0 (bytes_of_u64 v) ?bs"
    using sub_store [OF assms, of 0 "bytes_of_u64 v"] h8 by simp
  moreover have "bslice (offset_of_kv_block c i) 8 (bsplice 0 (bytes_of_u64 v) ?bs) = bslice (offset_of_kv_block c i) 8 ?bs"
    if "i < branch_factor c" for i
    by (rule bslice_bsplice_disjoint) (use h8 len slot_in_leaf [OF that] in \<open>simp_all add: offset_of_kv_block_def\<close>)
  ultimately show ?thesis
    using h8 len by (simp add: leaf_at_def dec_leaf_def dec_header_lock)
qed

lemma f_agree_inner:
  assumes "rm_load r' g (sizeof_InternalNode c) = rm_load r g (sizeof_InternalNode c)"
    and "rm_valid r' g (sizeof_InternalNode c) = rm_valid r g (sizeof_InternalNode c)" and "g \<in> K' \<longleftrightarrow> g \<in> K"
  shows "agree_inner (f_view c r K) (f_view c r' K') g"
  using assms by (simp add: agree_inner_def node_at_def)

lemma f_agree_leaf:
  assumes "rm_load r' g (sizeof_LeafNode c) = rm_load r g (sizeof_LeafNode c)"
    and "rm_valid r' g (sizeof_LeafNode c) = rm_valid r g (sizeof_LeafNode c)" and "g \<in> K' \<longleftrightarrow> g \<in> K"
  shows "agree_leaf (f_view c r K) (f_view c r' K') g"
  using assms by (simp add: agree_leaf_def node_header_of_leaf leaf_at_def)

lemma f_agree_lock:
  assumes "node_at c r' g = with_lock (of_bool (g \<in> K')) (node_at c r g)" and "lock (node_header (node_at c r g)) = of_bool (g \<in> K)"
    and "rm_valid r' g (sizeof_InternalNode c) = rm_valid r g (sizeof_InternalNode c)"
  shows "agree_inner (f_view c r K) (f_view c r' K') g"
  using assms by (simp add: agree_inner_def)

subsection \<open>Spare keys\<close>

text \<open>
  The search of \<^verbatim>\<open>insert_internal_entry\<close> for an existing separator also compares the key that is stored at
  \<^verbatim>\<open>last_index\<close>, which is not a separator. It never equals a key between the fences.
\<close>

lemma spare_ok_nth:
  "spare_ok nd \<longleftrightarrow> (\<forall>i. unat (last_index (node_header nd)) \<le> i \<and> i < length (entries nd) \<longrightarrow>
     be_val (entry_key (entries nd ! i)) = 0 \<or> be_val (fence_hi (node_header nd)) \<le> be_val (entry_key (entries nd ! i)))"
proof -
  have "(\<forall>e \<in> set (drop n xs). P e) \<longleftrightarrow> (\<forall>i. n \<le> i \<and> i < length xs \<longrightarrow> P (xs ! i))" for n and xs :: "'a list" and P
  proof (intro iffI allI impI ballI)
    fix i assume P: "\<forall>e \<in> set (drop n xs). P e" and i: "n \<le> i \<and> i < length xs"
    then have "drop n xs ! (i - n) \<in> set (drop n xs)" by (intro nth_mem) (simp add: diff_less_mono)
    then show "P (xs ! i)" using P i by simp
  next
    fix e assume "\<forall>i. n \<le> i \<and> i < length xs \<longrightarrow> P (xs ! i)" "e \<in> set (drop n xs)"
    then show "P e" by (auto simp: in_set_conv_nth)
  qed
  then show ?thesis unfolding spare_ok_def .
qed

lemma has_separator_spare:
  assumes "node_ok c nd" and "spare_ok nd" and "length key = KEY_SIZE c"
    and "be_val (fence_lo (node_header nd)) < be_val key" and "be_val key < be_val (fence_hi (node_header nd))"
  shows "has_separator key nd \<longleftrightarrow> key \<in> set (separators nd)"
proof -
  let ?li = "unat (last_index (node_header nd))"
  have li: "?li < length (entries nd)" by (rule node_parts(1) [OF assms(1)])
  then have "be_val (entry_key (entries nd ! ?li)) \<noteq> be_val key" using assms(2,4,5) by (force simp: spare_ok_nth)
  moreover have "take (Suc ?li) (entries nd) = take ?li (entries nd) @ [entries nd ! ?li]" using li by (rule take_Suc_conv_app_nth)
  ultimately show ?thesis
    using has_separator_iff [of c nd key] assms(1,3) by (auto simp: node_ok_def separators_def)
qed

lemma insert_entry_spare:
  assumes ok: "node_ok c nd" "spare_ok nd" and key: "length key = KEY_SIZE c" "key \<notin> set (separators nd)"
    and room: "Suc (unat (last_index (node_header nd))) < branch_factor c" and bf: "branch_factor c \<le> 256"
  shows "spare_ok (insert_entry junk key ch nd)"
proof -
  let ?n = "insert_entry junk key ch nd" and ?li = "unat (last_index (node_header nd))" and ?es = "entries nd"
  have len: "length ?es = branch_factor c" using ok(1) by (simp add: node_ok_def node_wf_def)
  have pos: "insert_position key ?li ?es = rank (separators nd) key"
    using ok key node_parts(4) [OF ok(1)] len room by (intro insert_position_rank) (auto simp: node_ok_def separators_def)
  have r: "rank (separators nd) key < Suc ?li" using rank_le [of "separators nd" key] node_parts(2) [OF ok(1)] by simp
  have "entry_key (entries ?n ! p) = entry_key (?es ! p)" if "Suc ?li \<le> p" "p < length ?es" for p
    using placed_nth [of "Suc ?li" ?es "rank (separators nd) key" p key ch junk] r room len that
    by (simp add: insert_entry_def Let_def pos)
  moreover have "length (entries ?n) = length ?es" by (simp add: insert_entry_def Let_def)
  moreover have "fence_hi (node_header ?n) = fence_hi (node_header nd)" by (simp add: insert_entry_def Let_def)
  ultimately show ?thesis
    using ok(2) insert_entry_view(1) [OF ok(1) key room bf, of junk ch]
    by (simp add: spare_ok_nth)
qed

lemma be_val_init [simp]: "be_val (entry_key (InternalEntry_init c)) = 0" "be_val (ArrayVar_default N) = 0" "be_val (ArrayVar_min N) = 0"
  by (simp_all add: InternalEntry_init_def ArrayVar_default_def ArrayVar_min_def)

lemma halves_spare:
  assumes ok: "node_ok c nd" and key: "length key = KEY_SIZE c" "key \<notin> set (separators nd)"
    and full: "Suc (unat (last_index (node_header nd))) = branch_factor c" and bf: "branch_factor c \<le> 256" "3 \<le> branch_factor c"
    and es_def: "es = split_entries c junk key ch nd"
  shows "spare_ok (left_half c es nd)" and "spare_ok (right_half c es nd)"
proof -
  let ?m = "branch_factor c div 2" and ?es = "entries nd @ [InternalEntry_init c]" and ?r = "rank (separators nd) key"
  have len: "length (entries nd) = branch_factor c" using ok by (simp add: node_ok_def node_wf_def)
  have pos: "insert_position key (unat (last_index (node_header nd))) (entries nd) = ?r"
    using ok key node_parts(4) [OF ok] len full by (intro insert_position_rank) (auto simp: node_ok_def separators_def)
  have eq: "es = place_entry ?r key ch (shift_entries junk ?r (branch_factor c) ?es)"
    using len full pos by (simp add: es_def split_entries_def Let_def)
  have r: "?r < branch_factor c" using rank_le [of "separators nd" key] node_parts(2) [OF ok] full by simp
  have last: "entry_key (es ! branch_factor c) = entry_key (InternalEntry_init c)"
    using placed_nth [of "branch_factor c" ?es ?r "branch_factor c" key ch junk] r len by (simp add: eq nth_append)
  have n: "length es = Suc (branch_factor c)" using len by (simp add: eq)
  note idx = half_index [OF bf(1), of es nd]
  have m: "?m < branch_factor c" "?m < length es" using bf(2) n by simp_all
  have "drop ?m (take (Suc ?m) es) = [es ! ?m]" using m by (simp add: take_Suc_conv_app_nth)
  then show "spare_ok (left_half c es nd)"
    using n m unfolding spare_ok_def idx by (auto simp: left_half_def Let_def)
  have "drop (branch_factor c - ?m - 1) (drop (Suc ?m) es) = drop (branch_factor c) es" using m by (simp add: add.commute)
  also have "\<dots> = [es ! branch_factor c]" using n by (simp add: Cons_nth_drop_Suc [symmetric])
  finally show "spare_ok (right_half c es nd)"
    using last n m unfolding spare_ok_def idx by (auto simp: right_half_def Let_def)
qed

subsection \<open>Finding the parent\<close>

lemma level_compare:
  assumes "unat (w :: u64) = n" and "unat lvl = m"
  shows "w = lvl \<longleftrightarrow> n = m" and "w < lvl \<longleftrightarrow> n < m" and "lvl < w \<longleftrightarrow> m < n" and "m < n \<Longrightarrow> w = lvl + 1 \<longleftrightarrow> n = Suc m"
proof -
  show "w = lvl \<longleftrightarrow> n = m" "w < lvl \<longleftrightarrow> n < m" "lvl < w \<longleftrightarrow> m < n"
    using assms by (simp_all add: word_unat_eq_iff word_less_nat_alt)
  assume "m < n"
  moreover have "n < 2 ^ 64" using assms(1) unsigned_less [of w] by auto
  ultimately have "unat (lvl + 1) = Suc m" using assms(2) by (simp add: unat_word_ariths)
  then show "w = lvl + 1 \<longleftrightarrow> n = Suc m" using assms(1) by (simp add: word_unat_eq_iff)
qed

text \<open>The nodes in \<open>K\<close> lie below level \<open>m\<close>.\<close>

definition locked_below :: "Config \<Rightarrow> rmemory \<Rightarrow> GlobalAddress set \<Rightarrow> nat \<Rightarrow> bool" where
  "locked_below c r K m \<longleftrightarrow> (\<forall>h \<in> K. unat (level (node_header (node_at c r h))) < m)"

lemma f_view_unlocked:
  assumes "tv_inner (f_view c r K) n g" and "locked_below c r K m" and "m \<le> n"
  shows "g \<notin> K" and "lock (node_header (node_at c r g)) = 0"
  using assms by (auto simp: locked_below_def)

lemma read_node_run:
  assumes "config_ok (cfg I)" and "rm_ok r" and "rm_valid r g (sizeof_InternalNode (cfg I))" and "\<not> has_cache I"
  shows "run (mem_handler E) (descend (Suc f) I key lvl from_smo got in_root None g) (r, e) =
    run (mem_handler E) (let node = node_at (cfg I) r g; h = node_header node in
      if lock h \<noteq> 0 \<and> (\<not> from_smo \<or> level h > lvl) then invalidate_entry got (Ret (LOCKED, g, got))
      else if level h = lvl then Ret (FOUND, g, got)
      else if level h < lvl then assert_then in_root (invalidate_entry got (Ret (NO_SUCH_LEVEL, g, got)))
      else case next_child key node of Inl e \<Rightarrow> Abort e | Inr next_address \<Rightarrow>
        assert_then (g \<noteq> next_address) (if level h = lvl + 1 then Ret (FOUND, next_address, got)
          else descend f I key lvl from_smo got False None next_address)) (r, e)"
  using assms rdma_read_object_run [of r g "node_bytes I" E e] unat_sizes(2) [of I]
  by (simp add: run_bind with_bytes_def Let_def node_at_def [symmetric])

lemma descend_to_level:
  assumes "ctx (f_view c r K) key p m plo phi g n lo hi" and "tv_inner (f_view c r K) m p" and "cfg I = c"
    and "config_ok c" and "rm_ok r" and "\<not> has_cache I" and "length key = KEY_SIZE c" and "locked_below c r K m"
    and "unat lvl = m" and "n \<le> m + f"
  shows "run (mem_handler E) (descend (Suc f) I key lvl True None in_root None g) (r, e) = Inr ((FOUND, p, None), (r, e))"
  using assms
proof (induction arbitrary: f in_root rule: ctx.induct)
  case hole
  then show ?case
    using read_node_run [of I r p E f key lvl True None in_root e] level_compare [of "level (node_header (node_at c r p))" m lvl m]
    by (simp add: Let_def)
next
  case (up n g)
  let ?nd = "node_at c r g"
  have mn: "m \<le> n" by (rule ctx_level [OF up.hyps(5)])
  have g: "rm_valid r g (sizeof_InternalNode c)" "node_ok c ?nd" "unat (level (node_header ?nd)) = Suc n"
    using up.hyps(1) by simp_all
  have lk: "lock (node_header ?nd) = 0" using f_view_unlocked(2) [OF up.hyps(1) up.prems(7)] mn by simp
  let ?g' = "route (separators ?nd) (children ?nd) key"
  have nxt: "next_child key ?nd = Inr ?g'" by (rule next_child_route [OF g(2) up.prems(6)])
  have lv: "unat (level (node_header (node_at c r ?g'))) = n"
    using up.hyps(5) up.prems(1) by (cases rule: ctx.cases) simp_all
  then have ne: "g \<noteq> ?g'" using g(3) by auto
  note cmp = level_compare [OF g(3) up.prems(8)]
  note read = read_node_run [of I r g E f key lvl True None in_root e, unfolded up.prems(2), OF up.prems(3,4) g(1) up.prems(5)]
  show ?case
  proof (cases "m = n")
    case True
    then have "?g' = p" using ctx_here [of "f_view c r K" key p n] up.hyps(5) by simp
    then show ?thesis using read cmp lk nxt ne True by (simp add: Let_def assert_then_def)
  next
    case False
    then obtain f' where f: "f = Suc f'" "n \<le> m + f'" using up.prems(9) mn by (cases f) auto
    have "run (mem_handler E) (descend (Suc f') I key lvl True None False None ?g') (r, e) = Inr ((FOUND, p, None), (r, e))"
      using up.IH [OF up.prems(1-8) f(2), of False] by simp
    then show ?thesis using read cmp lk nxt ne False mn f(1) by (simp add: Let_def assert_then_def del: descend.simps)
  qed
qed

lemma find_parent_run:
  assumes "ctx (f_view (cfg I) r K) key p m plo phi (root_at I r) n lo hi" and "tv_inner (f_view (cfg I) r K) m p"
    and "config_ok (cfg I)" and "rm_ok r" and "\<not> has_cache I" and "length key = KEY_SIZE (cfg I)" and "locked_below (cfg I) r K m"
    and "unat lvl = m" and "n < fuel I" and "rm_valid r (root_offset_pointer I) 8"
  shows "run (mem_handler E) (find_node I key lvl True use_cache) (r, e) = Inr ((FOUND, p, None), (r, e))"
proof -
  obtain f where "fuel I = Suc f" "n \<le> f" using assms(9) by (cases "fuel I") auto
  then show ?thesis
    using descend_to_level [OF assms(1,2) refl assms(3-8), of f E True e] assms(4,5,10)
    by (simp add: find_node_def run_bind get_root_offset_run del: descend.simps)
qed

lemma find_no_level_run:
  assumes "config_ok (cfg I)" and "rm_ok r" and "\<not> has_cache I" and "rm_valid r (root_offset_pointer I) 8"
    and "rm_valid r (root_at I r) (sizeof_InternalNode (cfg I))"
    and "level (node_header (node_at (cfg I) r (root_at I r))) < lvl" and "0 < fuel I"
  shows "run (mem_handler E) (find_node I key lvl True use_cache) (r, e) = Inr ((NO_SUCH_LEVEL, root_at I r, None), (r, e))"
proof -
  obtain f where "fuel I = Suc f" using assms(7) by (cases "fuel I") auto
  then show ?thesis
    using read_node_run [OF assms(1,2,5,3), of E f key lvl True None True e] assms
    by (auto simp: find_node_def run_bind get_root_offset_run Let_def assert_then_def invalidate_entry_def simp del: descend.simps)
qed

subsection \<open>A new root\<close>

definition new_root :: "Config \<Rightarrow> bytes \<Rightarrow> GlobalAddress \<Rightarrow> GlobalAddress \<Rightarrow> u64 \<Rightarrow> InternalNode" where
  "new_root c key old_root right_child lvl =
     (let n = InternalNode_init c; es1 = (entries n)[0 := \<lparr>entry_key = key, entry_child = old_root\<rparr>]
      in \<lparr>node_header = (node_header n)\<lparr>level := lvl, fence_lo := ArrayVar_min (KEY_SIZE c),
            fence_hi := ArrayVar_max (KEY_SIZE c), last_index := 1\<rparr>,
          entries = es1[1 := (es1 ! 1)\<lparr>entry_child := right_child\<rparr>]\<rparr>)"

lemma new_root_entries:
  assumes "2 \<le> branch_factor c"
  shows "entries (new_root c key old right lvl) = \<lparr>entry_key = key, entry_child = old\<rparr> #
    (InternalEntry_init c)\<lparr>entry_child := right\<rparr> # replicate (branch_factor c - 2) (InternalEntry_init c)"
proof -
  have "branch_factor c = Suc (Suc (branch_factor c - 2))" using assms by simp
  then obtain n where n: "branch_factor c = Suc (Suc n)" by blast
  then show ?thesis by (simp add: new_root_def Let_def InternalNode_init_def)
qed

lemma new_root_parts:
  assumes "2 \<le> branch_factor c"
  shows "separators (new_root c key old right lvl) = [key]" and "children (new_root c key old right lvl) = [old, right]"
    and "lock (node_header (new_root c key old right lvl)) = 0" and "level (node_header (new_root c key old right lvl)) = lvl"
    and "fence_lo (node_header (new_root c key old right lvl)) = ArrayVar_min (KEY_SIZE c)"
    and "fence_hi (node_header (new_root c key old right lvl)) = ArrayVar_max (KEY_SIZE c)"
    and "spare_ok (new_root c key old right lvl)"
    and "length key = KEY_SIZE c \<Longrightarrow> 0 < be_val key \<Longrightarrow> be_val key < be_val (ArrayVar_max (KEY_SIZE c)) \<Longrightarrow>
      node_ok c (new_root c key old right lvl)"
proof -
  let ?nd = "new_root c key old right lvl"
  note es = new_root_entries [OF assms, of key old right lvl]
  have h: "last_index (node_header ?nd) = 1" "lock (node_header ?nd) = 0" "level (node_header ?nd) = lvl"
      "fence_lo (node_header ?nd) = ArrayVar_min (KEY_SIZE c)" "fence_hi (node_header ?nd) = ArrayVar_max (KEY_SIZE c)"
    by (simp_all add: new_root_def Let_def InternalNode_init_def Header_init_def)
  show s: "separators ?nd = [key]" "children ?nd = [old, right]" by (simp_all add: separators_def children_def es h)
  show "lock (node_header ?nd) = 0" "level (node_header ?nd) = lvl"
    "fence_lo (node_header ?nd) = ArrayVar_min (KEY_SIZE c)" "fence_hi (node_header ?nd) = ArrayVar_max (KEY_SIZE c)"
    by (rule h)+
  show "spare_ok ?nd" by (auto simp: spare_ok_def es h)
  assume key: "length key = KEY_SIZE c" "0 < be_val key" "be_val key < be_val (ArrayVar_max (KEY_SIZE c))"
  have "node_wf c ?nd"
    using assms key(1) by (auto simp: node_wf_def header_wf_def h es InternalEntry_init_def)
  then show "node_ok c ?nd" using assms key by (simp add: node_ok_def s h)
qed

lemma node_ok_wf: "node_ok c nd \<Longrightarrow> node_wf c nd"
  by (simp add: node_ok_def)

lemma setup_new_root_eq:
  "setup_new_root I key right_child lvl =
     Allocate (node_bytes I) (\<lambda>off. bind (get_root_offset I) (\<lambda>old_root.
       if branch_factor (cfg I) < 2 then Abort UndefinedBehaviour
       else bind (rdma_write_object (GlobalAddress_raw off) (enc_node (cfg I) (new_root (cfg I) key old_root right_child lvl))) (\<lambda>success.
         assert_then success (bind (update_root_offset I (GlobalAddress_raw off)) (\<lambda>success. assert_then success (Ret True))))))"
  unfolding setup_new_root_def new_root_def Let_def ..

lemma setup_new_root_run:
  assumes cfg: "config_ok (cfg I)" "2 \<le> branch_factor (cfg I)" and r: "rm_small r" "rm_valid r (root_offset_pointer I) 8"
    and ptr: "rm_load64 r (root_offset_pointer I) = uintptr (root_at I r)"
    and alloc: "e_alloc E (node_bytes I) e = Inr (off, e1)"
    and q: "q = GlobalAddress_raw off" "rm_valid r q (sizeof_InternalNode (cfg I))" "apart q (sizeof_InternalNode (cfg I)) (root_offset_pointer I) 8"
    and nr: "nr = new_root (cfg I) key (root_at I r) right lvl" "node_wf (cfg I) nr"
  defines "r1 \<equiv> rm_store r q (enc_node (cfg I) nr)"
  defines "r2 \<equiv> rm_store r1 (root_offset_pointer I) (bytes_of_u64 (uintptr q))"
  shows "run (mem_handler E) (setup_new_root I key right lvl) (r, e) = Inr (True, (r2, e1))"
    and "changes r r2 [(q, sizeof_InternalNode (cfg I)), (root_offset_pointer I, 8)]"
    and "node_at (cfg I) r2 q = nr" and "root_at I r2 = q" and "rm_load64 r2 (root_offset_pointer I) = uintptr q"
proof -
  let ?c = "cfg I" and ?p = "root_offset_pointer I"
  have len: "length (enc_node ?c nr) = sizeof_InternalNode ?c" by (rule length_enc_node [OF nr(2)])
  have ok: "rm_ok r" by (rule rm_small_ok [OF r(1)])
  have c1: "changes r r1 [(q, sizeof_InternalNode ?c)]"
    using changes_store [of r q "enc_node ?c nr"] q(2) unfolding r1_def len by simp
  have v1: "rm_valid r1 ?p (length (bytes_of_u64 (uintptr q)))" using changesD(1) [OF c1] r(2) by simp
  have c2: "changes r1 r2 [(?p, 8)]" using changes_store [OF v1] unfolding r2_def by simp
  show "changes r r2 [(q, sizeof_InternalNode ?c), (?p, 8)]" using changes_trans [OF c1 c2] by simp
  have same: "rm_load64 r1 ?p = rm_load64 r ?p"
    using changesD(3) [OF c1 r(2)] q(3) by (simp add: rm_load64_def)
  then have root1: "root_at I r1 = root_at I r" by (simp add: root_at_def)
  have small1: "rm_small r1" using changesD(2) [OF c1] r(1) by simp
  have "unat (rm_load64 r1 ?p) < 2 ^ 50" unfolding same ptr unat_uintptr using unsigned_less [of "root_at I r"] by simp
  note upd = update_root_offset_run [OF rm_small_ok [OF small1], of I E q e1] 
  have "run (mem_handler E) (update_root_offset I q) (r1, e1) = Inr (True, (r2, e1))"
    unfolding r2_def by (rule upd) (use v1 \<open>unat (rm_load64 r1 ?p) < 2 ^ 50\<close> in simp_all)
  then show "run (mem_handler E) (setup_new_root I key right lvl) (r, e) = Inr (True, (r2, e1))"
    using alloc cfg(2) rdma_write_object_run [OF ok, of q "enc_node ?c nr" E e1] q(2) len get_root_offset_run [OF ok r(2), of E e1]
    by (simp add: setup_new_root_eq mem_run run_bind assert_then_def q(1) [symmetric] r1_def [symmetric] nr(1) [symmetric])
  show load: "rm_load64 r2 ?p = uintptr q" using rm.load_store_same [OF v1] by (simp add: r2_def rm_load64_def)
  then show "root_at I r2 = q" by (simp add: root_at_def)
  have "rm_load r2 q (sizeof_InternalNode ?c) = rm_load r1 q (sizeof_InternalNode ?c)"
    by (rule changesD(3) [OF c2]) (use changesD(1) [OF c1] q(2,3) in \<open>simp_all add: apart_commute\<close>)
  then show "node_at ?c r2 q = nr"
    using node_at_store [OF q(2) nr(2)] by (simp add: node_at_def r1_def)
qed

subsection \<open>The parent is locked, changed and released\<close>

lemma node_of_load: "dec_node c (rm_load r g (sizeof_InternalNode c)) = node_at c r g"
  by (simp add: node_at_def)

text \<open>Everything that \<^verbatim>\<open>insert_internal_entry\<close> knows about the parent \<open>p\<close> when it has found it.\<close>

definition parent_ready :: "FaunusIndex \<Rightarrow> rmemory \<Rightarrow> bytes \<Rightarrow> GlobalAddress \<Rightarrow> u64 \<Rightarrow> bool" where
  "parent_ready I r key p lvl \<longleftrightarrow> config_ok (cfg I) \<and> rm_small r \<and> length key = KEY_SIZE (cfg I) \<and>
     rm_valid r p (sizeof_InternalNode (cfg I)) \<and> node_ok (cfg I) (node_at (cfg I) r p) \<and> spare_ok (node_at (cfg I) r p) \<and>
     lock (node_header (node_at (cfg I) r p)) = 0 \<and> level (node_header (node_at (cfg I) r p)) = lvl \<and>
     be_val (fence_lo (node_header (node_at (cfg I) r p))) < be_val key \<and>
     be_val key < be_val (fence_hi (node_header (node_at (cfg I) r p))) \<and> key \<notin> set (separators (node_at (cfg I) r p))"

lemma node_small:
  assumes "rm_valid r p (sizeof_InternalNode c)"
  shows "rm_valid r p 8"
  using rm.valid_mono [OF assms] header_fits(1,4) [of c] by simp

lemma attempt_locked:
  assumes ready: "parent_ready I r key p lvl"
    and find: "run (mem_handler E) (find_node I key lvl True True) (r, e) = Inr ((FOUND, p, None), (r, e))"
  defines "nd \<equiv> with_lock 1 (node_at (cfg I) r p)" and "r1 \<equiv> rm_store r p (bytes_of_u64 1)"
  shows "run (mem_handler E) (internal_attempt rec I key ch lvl 0 None) (r, e) =
    run (mem_handler E)
      (if Suc (unat (last_index (node_header nd))) < branch_factor (cfg I)
       then PerformBatch [WriteOp p (Some (enc_node (cfg I) (insert_entry (oob I) key ch nd))) (node_bytes I), get_release_node_op p]
         (\<lambda>(ok, outs). assert_then ok (Ret (Inr True)))
       else bind (split_internal_node rec I p nd key ch) (\<lambda>_. PerformBatch [get_release_node_op p] (\<lambda>(ok, outs). assert_then ok (Ret (Inr True)))))
      (r1, e)"
    and "node_at (cfg I) r1 p = nd" and "changes r r1 [(p, sizeof_InternalNode (cfg I))]"
proof -
  let ?c = "cfg I" and ?n = "node_at (cfg I) r p"
  have p: "config_ok ?c" "rm_small r" "length key = KEY_SIZE ?c" "rm_valid r p (sizeof_InternalNode ?c)" "node_ok ?c ?n" "spare_ok ?n"
      "lock (node_header ?n) = 0" "level (node_header ?n) = lvl" "be_val (fence_lo (node_header ?n)) < be_val key"
      "be_val key < be_val (fence_hi (node_header ?n))" "key \<notin> set (separators ?n)"
    using ready by (simp_all add: parent_ready_def)
  have v8: "rm_valid r p 8" by (rule node_small [OF p(4)])
  show nd: "node_at ?c r1 p = nd" unfolding r1_def nd_def by (rule node_lock_store [OF p(2,4)])
  have h8: "8 \<le> sizeof_InternalNode ?c" using header_fits(1,4) [of ?c] by simp
  then show "changes r r1 [(p, sizeof_InternalNode ?c)]"
    using changes_sub_store [OF p(2,4), of 0 "bytes_of_u64 1"] by (simp add: r1_def)
  have z: "rm_load64 r p = 0" using node_lock_load [OF p(4)] p(7) by simp
  have v1: "rm_valid r1 p (sizeof_InternalNode ?c)" using rm_valid_store [of r p "bytes_of_u64 1"] v8 p(4) by (simp add: r1_def)
  have fences: "length (fence_lo (node_header ?n)) = KEY_SIZE ?c" "length (fence_hi (node_header ?n)) = KEY_SIZE ?c"
    using p(5) by (simp_all add: node_ok_def node_wf_def header_wf_def)
  have inside: "in_fence key (node_header nd)" using p(3,9,10) fences by (simp add: in_fence_def nd_def key_lt_iff key_ge_iff)
  have sep: "\<not> has_separator key nd"
    using has_separator_spare [of ?c nd key] p(3,5,6,9-11) by (simp add: nd_def)
  have li: "unat (last_index (node_header nd)) < branch_factor ?c" "branch_factor ?c \<le> 256"
    using p(1,5) by (simp_all add: nd_def node_ok_def config_ok_def)
  have split: "of_nat (branch_factor ?c) \<le> last_index (node_header nd) + 1 \<longleftrightarrow> \<not> Suc (unat (last_index (node_header nd))) < branch_factor ?c"
    using li by (simp add: word_le_nat_alt unat_word_ariths unat_of_nat not_less)
  have batch: "run (mem_handler E) (PerformBatch [CasOp p 0 1, ReadOp p True (node_bytes I)] k) (r, e) =
      run (mem_handler E) (k (True, [CasOut 0, ReadOut (rm_load r1 p (sizeof_InternalNode ?c))])) (r1, e)" for k
    using rm_small_ok [OF p(2)] v8 p(4) z by (simp add: mem_run unat_sizes(2) [OF p(1)] r1_def)
  show "run (mem_handler E) (internal_attempt rec I key ch lvl 0 None) (r, e) =
    run (mem_handler E)
      (if Suc (unat (last_index (node_header nd))) < branch_factor ?c
       then PerformBatch [WriteOp p (Some (enc_node ?c (insert_entry (oob I) key ch nd))) (node_bytes I), get_release_node_op p]
         (\<lambda>(ok, outs). assert_then ok (Ret (Inr True)))
       else bind (split_internal_node rec I p nd key ch) (\<lambda>_. PerformBatch [get_release_node_op p] (\<lambda>(ok, outs). assert_then ok (Ret (Inr True)))))
      (r1, e)"
    using find sep split li(1) inside p(8)
    by (auto simp: internal_attempt_def Let_def run_bind batch assert_then_def nth_out_def with_bytes_def node_of_load nd track_cache_def track_def mem_run
        simp del: run.simps(4))
       (simp_all add: nd_def)
qed

lemma node_store_at:
  assumes "rm_valid r p (sizeof_InternalNode c)" and "node_wf c nd"
  defines "r' \<equiv> rm_store r p (enc_node c nd)"
  shows "node_at c r' p = nd" and "changes r r' [(p, sizeof_InternalNode c)]" and "rm_valid r p (length (enc_node c nd))"
  using node_at_store [OF assms(1,2)] changes_store [of r p "enc_node c nd"] length_enc_node [OF assms(2)] assms(1)
  by (simp_all add: r'_def)

lemma lock_release:
  assumes "rm_small r" and "rm_valid r p (sizeof_InternalNode c)" and "lock (node_header (node_at c r p)) = 1"
  defines "r' \<equiv> rm_store r p (bytes_of_u64 (rm_load64 r p - 1))"
  shows "node_at c r' p = with_lock 0 (node_at c r p)" and "changes r r' [(p, sizeof_InternalNode c)]"
proof -
  have "rm_load64 r p = 1" using node_lock_load [OF assms(2)] assms(3) by simp
  then have r': "r' = rm_store r p (bytes_of_u64 0)" by (simp add: r'_def)
  show "node_at c r' p = with_lock 0 (node_at c r p)" unfolding r' by (rule node_lock_store [OF assms(1,2)])
  have "8 \<le> sizeof_InternalNode c" using header_fits(1,4) [of c] by simp
  then show "changes r r' [(p, sizeof_InternalNode c)]"
    using changes_sub_store [OF assms(1,2), of 0 "bytes_of_u64 0"] by (simp add: r')
qed

lemma changes_same:
  assumes "changes r r1 [x]" and "changes r1 r2 [x]"
  shows "changes r r2 [x]"
  using changes_trans [OF assms] by (rule changes_mono) simp

lemma attempt_room:
  assumes ready: "parent_ready I r key p lvl"
    and find: "run (mem_handler E) (find_node I key lvl True True) (r, e) = Inr ((FOUND, p, None), (r, e))"
    and room: "Suc (unat (last_index (node_header (node_at (cfg I) r p)))) < branch_factor (cfg I)"
  shows "\<exists>r'. run (mem_handler E) (internal_attempt rec I key ch lvl 0 None) (r, e) = Inr (Inr True, (r', e)) \<and>
    changes r r' [(p, sizeof_InternalNode (cfg I))] \<and>
    node_at (cfg I) r' p = with_lock 0 (insert_entry (oob I) key ch (with_lock 1 (node_at (cfg I) r p)))"
proof -
  let ?c = "cfg I" and ?sz = "sizeof_InternalNode (cfg I)"
  define nd where "nd = with_lock 1 (node_at ?c r p)"
  define nd' where "nd' = insert_entry (oob I) key ch nd"
  define r1 where "r1 = rm_store r p (bytes_of_u64 1)"
  define r2 where "r2 = rm_store r1 p (enc_node ?c nd')"
  define r3 where "r3 = rm_store r2 p (bytes_of_u64 (rm_load64 r2 p - 1))"
  have p: "config_ok ?c" "rm_small r" "length key = KEY_SIZE ?c" "rm_valid r p ?sz" "node_ok ?c nd" "key \<notin> set (separators nd)"
      "be_val (fence_lo (node_header nd)) < be_val key" "be_val key < be_val (fence_hi (node_header nd))"
    using ready by (simp_all add: parent_ready_def nd_def)
  note locked = attempt_locked(1) [OF ready find, of rec ch, folded nd_def r1_def] attempt_locked(2,3) [OF ready find, folded nd_def r1_def]
  have bf: "branch_factor ?c \<le> 256" using p(1) by (simp add: config_ok_def)
  have room': "Suc (unat (last_index (node_header nd))) < branch_factor ?c" using room by (simp add: nd_def)
  have ok': "node_ok ?c nd'" unfolding nd'_def by (rule insert_entry_ok [OF p(5,3,6) room' bf p(7,8)])
  have v1: "rm_valid r1 p ?sz" and s1: "rm_small r1" using changesD(1,2) [OF locked(3)] p(2,4) by simp_all
  note w = node_store_at [OF v1 node_ok_wf [OF ok'], folded r2_def]
  have v2: "rm_valid r2 p ?sz" and s2: "rm_small r2" using changesD(1,2) [OF w(2)] v1 s1 by simp_all
  have "lock (node_header nd') = 1" by (simp add: nd'_def nd_def insert_entry_def Let_def)
  note rel = lock_release [OF s2 v2, folded r3_def]
  have run: "run (mem_handler E) (PerformBatch [WriteOp p (Some (enc_node ?c nd')) (node_bytes I), get_release_node_op p]
      (\<lambda>(ok, outs). assert_then ok (Ret (Inr True)))) (r1, e) = Inr (Inr True, (r3, e))"
    using rm_small_ok [OF s1] v1 node_small [OF v1] w(3) length_enc_node [OF node_ok_wf [OF ok']]
    by (simp add: mem_run get_release_node_op_def assert_then_def unat_sizes(2) [OF p(1)] r2_def [symmetric] r3_def)
  have "changes r r3 [(p, ?sz)]"
    using changes_same [OF changes_same [OF locked(3) w(2)] rel(2)] w(1) \<open>lock (node_header nd') = 1\<close> by simp
  moreover have "node_at ?c r3 p = with_lock 0 nd'" using rel(1) w(1) \<open>lock (node_header nd') = 1\<close> by simp
  ultimately show ?thesis
    using locked(1) run room' unfolding nd'_def nd_def by (auto simp: nd'_def nd_def)
qed

lemma attempt_full:
  assumes ready: "parent_ready I r key p lvl"
    and find: "run (mem_handler E) (find_node I key lvl True True) (r, e) = Inr ((FOUND, p, None), (r, e))"
    and full: "Suc (unat (last_index (node_header (node_at (cfg I) r p)))) = branch_factor (cfg I)" and bf: "3 \<le> branch_factor (cfg I)"
    and alloc: "e_alloc E (node_bytes I) e = Inr (off, e1)"
    and q: "q = GlobalAddress_raw off" "rm_valid r q (sizeof_InternalNode (cfg I))"
      "apart q (sizeof_InternalNode (cfg I)) p (sizeof_InternalNode (cfg I))"
    and es_def: "es = split_entries (cfg I) (oob I) key ch (with_lock 1 (node_at (cfg I) r p))"
  shows "\<exists>r2. changes r r2 [(q, sizeof_InternalNode (cfg I)), (p, sizeof_InternalNode (cfg I))] \<and>
    node_at (cfg I) r2 q = right_half (cfg I) es (with_lock 1 (node_at (cfg I) r p)) \<and>
    node_at (cfg I) r2 p = left_half (cfg I) es (with_lock 1 (node_at (cfg I) r p)) \<and>
    node_ok (cfg I) (node_at (cfg I) r2 q) \<and> node_ok (cfg I) (node_at (cfg I) r2 p) \<and>
    (\<forall>r3 e3. run (mem_handler E) (rec (entry_key (es ! (branch_factor (cfg I) div 2))) q (lvl + 1)) (r2, e1) = Inr (True, (r3, e3)) \<longrightarrow>
      rm_small r3 \<longrightarrow> rm_valid r3 p (sizeof_InternalNode (cfg I)) \<longrightarrow>
      run (mem_handler E) (internal_attempt rec I key ch lvl 0 None) (r, e) =
        Inr (Inr True, (rm_store r3 p (bytes_of_u64 (rm_load64 r3 p - 1)), e3)))"
proof -
  let ?c = "cfg I" and ?sz = "sizeof_InternalNode (cfg I)" and ?mk = "entry_key (es ! (branch_factor (cfg I) div 2))"
  define nd where "nd = with_lock 1 (node_at ?c r p)"
  define r1 where "r1 = rm_store r p (bytes_of_u64 1)"
  have p: "config_ok ?c" "rm_small r" "length key = KEY_SIZE ?c" "rm_valid r p ?sz" "node_ok ?c nd" "key \<notin> set (separators nd)"
      "be_val (fence_lo (node_header nd)) < be_val key" "be_val key < be_val (fence_hi (node_header nd))"
    using ready by (simp_all add: parent_ready_def nd_def)
  note locked = attempt_locked(1) [OF ready find, of rec ch, folded nd_def r1_def] attempt_locked(2,3) [OF ready find, folded nd_def r1_def]
  have bf': "branch_factor ?c \<le> 256" using p(1) by (simp add: config_ok_def)
  have full': "Suc (unat (last_index (node_header nd))) = branch_factor ?c" using full by (simp add: nd_def)
  note view = split_entries_view [OF p(5,3,6) full', of "oob I" ch, folded es_def [folded nd_def]]
  have wf: "header_wf ?c (node_header nd)" "length (entries nd) = branch_factor ?c"
    using p(5) by (simp_all add: node_ok_def node_wf_def)
  have sorted: "sorted_wrt (<) (map be_val (insert_at (rank (separators nd) key) key (separators nd)))"
    using p(5,6) node_parts(4) [OF p(5)] p(3) be_val_inj by (intro sorted_insert_at) (auto simp: node_ok_def)
  have fences: "\<forall>s \<in> set (insert_at (rank (separators nd) key) key (separators nd)).
      be_val (fence_lo (node_header nd)) < be_val s \<and> be_val s < be_val (fence_hi (node_header nd))"
    using p(5,7,8) by (auto simp: set_insert_at node_ok_def)
  have ok: "node_ok ?c (left_half ?c es nd)" "node_ok ?c (right_half ?c es nd)"
    using halves_ok [OF view(1) bf' bf view(4) wf(1)] sorted fences unfolding view(2) by blast+
  note split = split_node_eq [OF view(1) bf wf(2)]
  define r2 where "r2 = rm_store (rm_store r1 q (enc_node ?c (right_half ?c es nd))) p (enc_node ?c (left_half ?c es nd))"
  have v1: "rm_valid r1 p ?sz" "rm_valid r1 q ?sz" and s1: "rm_small r1" using changesD(1,2) [OF locked(3)] p(2,4) q(2) by simp_all
  note wq = node_store_at [OF v1(2) node_ok_wf [OF ok(2)]]
  have vq: "rm_valid (rm_store r1 q (enc_node ?c (right_half ?c es nd))) p ?sz" using changesD(1) [OF wq(2)] v1 by simp
  note wp = node_store_at [OF vq node_ok_wf [OF ok(1)], folded r2_def]
  have c12: "changes r1 r2 [(q, ?sz), (p, ?sz)]" using changes_trans [OF wq(2) wp(2)] by simp
  have ch2: "changes r r2 [(q, ?sz), (p, ?sz)]"
    using changes_trans [OF locked(3) c12] by (rule changes_mono) simp
  have lens: "length (enc_node ?c (right_half ?c es nd)) = ?sz" "length (enc_node ?c (left_half ?c es nd)) = ?sz"
    using length_enc_node [OF node_ok_wf [OF ok(2)]] length_enc_node [OF node_ok_wf [OF ok(1)]] by simp_all
  have sz: "unat (of_nat ?sz :: u64) = ?sz" using unat_sizes(2) [OF p(1)] by (simp add: node_bytes_def)
  have wrun: "run (mem_handler E) (rdma_write_batch [q, p] [enc_node ?c (right_half ?c es nd), enc_node ?c (left_half ?c es nd)]) (r1, e1) =
      Inr (True, (r2, e1))"
    using rm_small_ok [OF s1] v1 lens sz by (simp add: rdma_write_batch_def get_write_batch_def mem_run r2_def)
  have at: "node_at ?c r2 p = left_half ?c es nd" "node_at ?c r2 q = right_half ?c es nd"
  proof -
    show "node_at ?c r2 p = left_half ?c es nd" by (rule wp(1))
    have "rm_load r2 q ?sz = rm_load (rm_store r1 q (enc_node ?c (right_half ?c es nd))) q ?sz"
      by (rule changesD(3) [OF wp(2)]) (use changesD(1) [OF wq(2)] v1(2) q(3) in \<open>simp_all add: apart_commute\<close>)
    then show "node_at ?c r2 q = right_half ?c es nd" using wq(1) by (simp add: node_at_def)
  qed
  have lvl: "level (node_header (left_half ?c es nd)) = lvl"
    using ready by (simp add: left_half_def Let_def nd_def parent_ready_def)
  have "run (mem_handler E) (internal_attempt rec I key ch lvl 0 None) (r, e) =
        Inr (Inr True, (rm_store r3 p (bytes_of_u64 (rm_load64 r3 p - 1)), e3))"
    if rec: "run (mem_handler E) (rec ?mk q (lvl + 1)) (r2, e1) = Inr (True, (r3, e3))" "rm_small r3" "rm_valid r3 p ?sz" for r3 e3
    using locked(1) full' rec(1) rm_small_ok [OF rec(2)] node_small [OF rec(3)] lvl
    by (simp add: split_internal_node_def Let_def es_def [folded nd_def, symmetric] split run_bind mem_run alloc q(1) [symmetric] wrun
        assert_then_def get_release_node_op_def)
  then show ?thesis using ch2 at ok unfolding nd_def [symmetric] by (intro exI [of _ r2]) simp
qed

subsection \<open>A tree that grows\<close>

definition all_inner :: "FaunusIndex \<Rightarrow> rmemory \<Rightarrow> nat \<Rightarrow> GlobalAddress \<Rightarrow> nat \<Rightarrow> GlobalAddress list" where
  "all_inner I r m ch n = inner_nodes (cfg I) r n (root_at I r) @ inner_nodes (cfg I) r m ch"

definition all_leaves :: "FaunusIndex \<Rightarrow> rmemory \<Rightarrow> nat \<Rightarrow> GlobalAddress \<Rightarrow> nat \<Rightarrow> GlobalAddress list" where
  "all_leaves I r m ch n = leaves (cfg I) r n (root_at I r) @ leaves (cfg I) r m ch"

definition grow_regions :: "FaunusIndex \<Rightarrow> rmemory \<Rightarrow> nat \<Rightarrow> GlobalAddress \<Rightarrow> nat \<Rightarrow> (GlobalAddress \<times> nat) list \<Rightarrow> (GlobalAddress \<times> nat) list" where
  "grow_regions I r m ch n X = (root_offset_pointer I, 8) #
     map (\<lambda>g. (g, sizeof_InternalNode (cfg I))) (all_inner I r m ch n) @ map (\<lambda>g. (g, sizeof_LeafNode (cfg I))) (all_leaves I r m ch n) @ X"

text \<open>
  The state in which \<^verbatim>\<open>insert_internal_entry\<close> is called for the separator \<open>key\<close> and the new node \<open>ch\<close> of level \<open>m\<close>: a
  pending tree of height \<open>n\<close> whose locked nodes are \<open>K\<close>, all on levels up to \<open>m\<close>, in regions apart from each other
  and from \<open>X\<close>; and what it must have become afterwards, with the nodes \<open>new\<close> besides.
\<close>

definition growing ::
  "FaunusIndex \<Rightarrow> rmemory \<Rightarrow> GlobalAddress set \<Rightarrow> bytes \<Rightarrow> GlobalAddress \<Rightarrow> GlobalAddress \<Rightarrow> nat \<Rightarrow> nat \<Rightarrow> (GlobalAddress \<times> nat) list \<Rightarrow> bool" where
  "growing I r K key x ch m n X \<longleftrightarrow> config_ok (cfg I) \<and> 3 \<le> branch_factor (cfg I) \<and> \<not> has_cache I \<and> Suc n < fuel I \<and> Suc n < 2 ^ 64 \<and>
     rm_small r \<and> length key = KEY_SIZE (cfg I) \<and> rm_valid r (root_offset_pointer I) 8 \<and>
     rm_load64 r (root_offset_pointer I) = uintptr (root_at I r) \<and> rm_valid r (root_at I r) (sizeof_InternalNode (cfg I)) \<and>
     pending (f_view (cfg I) r K) key x ch m (root_at I r) n (ArrayVar_min (KEY_SIZE (cfg I))) (ArrayVar_max (KEY_SIZE (cfg I))) \<and>
     locked_below (cfg I) r K (Suc m) \<and> K \<subseteq> set (all_inner I r m ch n) \<union> set (all_leaves I r m ch n) \<and>
     regions_apart (grow_regions I r m ch n X) \<and> (\<forall>y \<in> set X. rm_valid r (fst y) (snd y))"

definition grown ::
  "FaunusIndex \<Rightarrow> rmemory \<Rightarrow> GlobalAddress set \<Rightarrow> bytes \<Rightarrow> GlobalAddress \<Rightarrow> nat \<Rightarrow> nat \<Rightarrow> (GlobalAddress \<times> nat) list \<Rightarrow>
   rmemory \<Rightarrow> nat \<Rightarrow> GlobalAddress list \<Rightarrow> bool" where
  "grown I r K key ch m n X r' n' new \<longleftrightarrow>
     settles (f_view (cfg I) r K) key ch m (root_at I r) n (ArrayVar_min (KEY_SIZE (cfg I))) (ArrayVar_max (KEY_SIZE (cfg I)))
       (f_view (cfg I) r' K) (root_at I r') n' new \<and> n' \<le> Suc n \<and> rm_small r' \<and> (\<forall>g k. rm_valid r' g k = rm_valid r g k) \<and>
     rm_load64 r' (root_offset_pointer I) = uintptr (root_at I r') \<and> rm_valid r (root_at I r') (sizeof_InternalNode (cfg I)) \<and>
     regions_apart (map (\<lambda>g. (g, sizeof_InternalNode (cfg I))) new @ grow_regions I r m ch n X) \<and>
     (\<forall>y \<in> set (map (\<lambda>g. (g, sizeof_LeafNode (cfg I))) (all_leaves I r m ch n)) \<union> set X. rm_load r' (fst y) (snd y) = rm_load r (fst y) (snd y))"

lemma growing_valid:
  assumes "growing I r K key x ch m n X"
  shows "\<forall>h \<in> set (all_inner I r m ch n). rm_valid r h (sizeof_InternalNode (cfg I))"
    and "\<forall>h \<in> set (all_leaves I r m ch n). rm_valid r h (sizeof_LeafNode (cfg I))"
proof -
  have "pending (f_view (cfg I) r K) key x ch m (root_at I r) n (ArrayVar_min (KEY_SIZE (cfg I))) (ArrayVar_max (KEY_SIZE (cfg I)))"
    using assms by (simp add: growing_def)
  note pages = pending_pages [OF this, unfolded f_view_lists]
  show "\<forall>h \<in> set (all_inner I r m ch n). rm_valid r h (sizeof_InternalNode (cfg I))"
    "\<forall>h \<in> set (all_leaves I r m ch n). rm_valid r h (sizeof_LeafNode (cfg I))"
    using pages by (auto simp: all_inner_def all_leaves_def)
qed

lemma apart_refl: "apart g n g k \<Longrightarrow> n = 0 \<or> k = 0"
  by (auto simp: apart_def)

lemma growing_apart:
  assumes "growing I r K key x ch m n X"
  shows "distinct (all_inner I r m ch n)" and "distinct (all_leaves I r m ch n)"
    and "\<And>h k. h \<in> set (all_inner I r m ch n) \<Longrightarrow> k \<in> set (all_inner I r m ch n) \<Longrightarrow> h \<noteq> k \<Longrightarrow>
      apart h (sizeof_InternalNode (cfg I)) k (sizeof_InternalNode (cfg I))"
    and "\<And>h l. h \<in> set (all_inner I r m ch n) \<Longrightarrow> l \<in> set (all_leaves I r m ch n) \<Longrightarrow>
      apart h (sizeof_InternalNode (cfg I)) l (sizeof_LeafNode (cfg I)) \<and> h \<noteq> l"
    and "\<And>h y. h \<in> set (all_inner I r m ch n) \<Longrightarrow> y \<in> set X \<Longrightarrow> apart h (sizeof_InternalNode (cfg I)) (fst y) (snd y)"
    and "\<And>h. h \<in> set (all_inner I r m ch n) \<Longrightarrow> apart h (sizeof_InternalNode (cfg I)) (root_offset_pointer I) 8"
    and "\<And>l. l \<in> set (all_leaves I r m ch n) \<Longrightarrow> apart (root_offset_pointer I) 8 l (sizeof_LeafNode (cfg I))"
    and "\<And>y. y \<in> set X \<Longrightarrow> apart (root_offset_pointer I) 8 (fst y) (snd y)"
proof -
  let ?i = "map (\<lambda>g. (g, sizeof_InternalNode (cfg I))) (all_inner I r m ch n)" and ?l = "map (\<lambda>g. (g, sizeof_LeafNode (cfg I))) (all_leaves I r m ch n)"
  have all: "regions_apart ((root_offset_pointer I, 8) # ?i @ ?l @ X)" and cfg: "config_ok (cfg I)"
    using assms by (simp_all add: growing_def grow_regions_def)
  note sz = config_sizes(4,5) [OF cfg]
  have i: "regions_apart ?i" and l: "regions_apart ?l" using all by (simp_all add: regions_apart_append)
  have ptr: "\<forall>h \<in> set (all_inner I r m ch n). apart (root_offset_pointer I) 8 h (sizeof_InternalNode (cfg I))"
      "\<forall>l \<in> set (all_leaves I r m ch n). apart (root_offset_pointer I) 8 l (sizeof_LeafNode (cfg I))"
      "\<forall>y \<in> set X. apart (root_offset_pointer I) 8 (fst y) (snd y)"
    using all by (simp_all add: ball_Un)
  show "distinct (all_inner I r m ch n)" using regions_apart_distinct [OF i] sz by (auto simp: distinct_map)
  show "distinct (all_leaves I r m ch n)" using regions_apart_distinct [OF l] sz by (auto simp: distinct_map)
  show "apart h (sizeof_InternalNode (cfg I)) k (sizeof_InternalNode (cfg I))"
    if "h \<in> set (all_inner I r m ch n)" "k \<in> set (all_inner I r m ch n)" "h \<noteq> k" for h k
    using regions_apart_pick [OF i, of "(h, sizeof_InternalNode (cfg I))" "(k, sizeof_InternalNode (cfg I))"] that by auto
  show "apart h (sizeof_InternalNode (cfg I)) l (sizeof_LeafNode (cfg I)) \<and> h \<noteq> l"
    if "h \<in> set (all_inner I r m ch n)" "l \<in> set (all_leaves I r m ch n)" for h l
  proof -
    have "\<forall>y \<in> set ?i. \<forall>z \<in> set ?l. apart (fst y) (snd y) (fst z) (snd z)" using all by (simp add: regions_apart_append ball_Un)
    then have "apart h (sizeof_InternalNode (cfg I)) l (sizeof_LeafNode (cfg I))" using that by simp
    then show ?thesis using apart_refl [of h "sizeof_InternalNode (cfg I)" "sizeof_LeafNode (cfg I)"] sz by auto
  qed
  show "apart h (sizeof_InternalNode (cfg I)) (fst y) (snd y)" if "h \<in> set (all_inner I r m ch n)" "y \<in> set X" for h y
    using all that by (auto simp: regions_apart_append)
  show "apart h (sizeof_InternalNode (cfg I)) (root_offset_pointer I) 8" if "h \<in> set (all_inner I r m ch n)" for h
    using ptr(1) that apart_commute by blast
  show "apart (root_offset_pointer I) 8 l (sizeof_LeafNode (cfg I))" if "l \<in> set (all_leaves I r m ch n)" for l
    using ptr(2) that by blast
  show "apart (root_offset_pointer I) 8 (fst y) (snd y)" if "y \<in> set X" for y using ptr(3) that by blast
qed

lemma growing_key:
  assumes "growing I r K key x ch m n X"
  shows "0 < be_val key" and "be_val key < be_val (ArrayVar_max (KEY_SIZE (cfg I)))" and "m \<le> n"
proof -
  obtain xlo where "ctx (f_view (cfg I) r K) key x m xlo (tv_hi (f_view (cfg I) r K) ch) (root_at I r) n
      (ArrayVar_min (KEY_SIZE (cfg I))) (ArrayVar_max (KEY_SIZE (cfg I)))" "be_val xlo < be_val key" "be_val key < be_val (tv_hi (f_view (cfg I) r K) ch)"
    using assms by (auto simp: growing_def pending_def)
  then show "0 < be_val key" and "be_val key < be_val (ArrayVar_max (KEY_SIZE (cfg I)))" and "m \<le> n"
    using ctx_bounds [OF _ f_view_fenced] by fastforce+
qed

text \<open>A step that changes the nodes in \<open>P\<close> and regions outside of the tree.\<close>

lemma growing_agree:
  assumes g: "growing I r K key x ch m n X" and step: "changes r r' cs" and K': "\<And>h. h \<notin> P \<Longrightarrow> h \<in> K' \<longleftrightarrow> h \<in> K"
    and inner: "\<forall>h \<in> set (all_inner I r m ch n) - P. \<forall>y \<in> set cs. apart (fst y) (snd y) h (sizeof_InternalNode (cfg I))"
    and leaf: "\<forall>h \<in> set (all_leaves I r m ch n). h \<notin> P \<and> (\<forall>y \<in> set cs. apart (fst y) (snd y) h (sizeof_LeafNode (cfg I)))"
    and X: "\<forall>z \<in> set X. \<forall>y \<in> set cs. apart (fst y) (snd y) (fst z) (snd z)"
  shows "\<forall>h \<in> set (all_inner I r m ch n) - P. agree_inner (f_view (cfg I) r K) (f_view (cfg I) r' K') h"
    and "\<forall>h \<in> set (all_leaves I r m ch n). agree_leaf (f_view (cfg I) r K) (f_view (cfg I) r' K') h"
    and "\<forall>y \<in> set (map (\<lambda>g. (g, sizeof_LeafNode (cfg I))) (all_leaves I r m ch n)) \<union> set X. rm_load r' (fst y) (snd y) = rm_load r (fst y) (snd y)"
proof -
  note valid = growing_valid [OF g]
  have "\<forall>y \<in> set X. rm_valid r (fst y) (snd y)" using g by (simp add: growing_def)
  then show "\<forall>y \<in> set (map (\<lambda>g. (g, sizeof_LeafNode (cfg I))) (all_leaves I r m ch n)) \<union> set X. rm_load r' (fst y) (snd y) = rm_load r (fst y) (snd y)"
    using changesD(3) [OF step] valid(2) leaf X by fastforce
  show "\<forall>h \<in> set (all_inner I r m ch n) - P. agree_inner (f_view (cfg I) r K) (f_view (cfg I) r' K') h"
    using changesD(1,3) [OF step] valid(1) inner K' by (intro ballI f_agree_inner) auto
  show "\<forall>h \<in> set (all_leaves I r m ch n). agree_leaf (f_view (cfg I) r K) (f_view (cfg I) r' K') h"
    using changesD(1,3) [OF step] valid(2) leaf K' by (intro ballI f_agree_leaf) auto
qed

text \<open>The root was split: \<^verbatim>\<open>setup_new_root\<close>.\<close>

lemma grow_root:
  assumes g: "growing I r K key x ch n n X" and lvl: "unat lvl = Suc n"
    and alloc: "e_alloc E (node_bytes I) e = Inr (off, e1)"
    and q: "q = GlobalAddress_raw off" "rm_valid r q (sizeof_InternalNode (cfg I))"
      "\<forall>y \<in> set (grow_regions I r n ch n X). apart q (sizeof_InternalNode (cfg I)) (fst y) (snd y)"
  shows "\<exists>r'. run (mem_handler E) (internal_attempt rec I key ch lvl 0 None) (r, e) = Inr (Inr True, (r', e1)) \<and>
    grown I r K key ch n n X r' (Suc n) [q]"
proof -
  let ?c = "cfg I" and ?p = "root_offset_pointer I" and ?V = "f_view (cfg I) r K" and ?g = "root_at I r" and ?sz = "sizeof_InternalNode (cfg I)"
  let ?lo = "ArrayVar_min (KEY_SIZE (cfg I))" and ?hi = "ArrayVar_max (KEY_SIZE (cfg I))"
  have s: "config_ok ?c" "2 \<le> branch_factor ?c" "rm_small r" "rm_valid r ?p 8" "rm_load64 r ?p = uintptr ?g" "length key = KEY_SIZE ?c"
      "\<not> has_cache I" "rm_valid r ?g ?sz" "0 < fuel I" "pending ?V key x ch n ?g n ?lo ?hi" "K \<subseteq> set (all_inner I r n ch n) \<union> set (all_leaves I r n ch n)"
    using g by (simp_all add: growing_def)
  define nr where "nr = new_root ?c key ?g ch lvl"
  note parts = new_root_parts [OF s(2), of key ?g ch lvl, folded nr_def]
  have ok: "node_ok ?c nr" by (rule parts(8) [OF s(6) growing_key(1,2) [OF g]])
  have qp: "apart q ?sz ?p 8" using q(3) by (simp add: grow_regions_def)
  note run = setup_new_root_run [OF s(1-5) alloc q(1,2) qp nr_def node_ok_wf [OF ok]]
  define r' where "r' = rm_store (rm_store r q (enc_node ?c nr)) ?p (bytes_of_u64 (uintptr q))"
  note run = run [folded r'_def]
  have lv: "level (node_header (node_at ?c r ?g)) < lvl"
  proof -
    obtain xlo where "ctx ?V key x n xlo (tv_hi ?V ch) ?g n ?lo ?hi" "tree ?V x n xlo key" using s(10) by (auto simp: pending_def)
    then have "tree ?V ?g n xlo key" using ctx_here by metis
    then have "unat (level (node_header (node_at ?c r ?g))) = n" by (cases rule: tree.cases) (simp_all add: node_header_of_leaf)
    then show ?thesis using lvl by (simp add: word_less_nat_alt)
  qed
  note find = find_no_level_run [OF s(1) rm_small_ok [OF s(3)] s(7,4,8) lv s(9), of E key True e]
  have att: "run (mem_handler E) (internal_attempt rec I key ch lvl 0 None) (r, e) = Inr (Inr True, (r', e1))"
    using find run(1) by (simp add: internal_attempt_def run_bind assert_then_def)
  note qa = q(3) [unfolded grow_regions_def]
  have apart: "\<forall>h \<in> set (all_inner I r n ch n). apart q ?sz h ?sz" "\<forall>h \<in> set (all_leaves I r n ch n). apart q ?sz h (sizeof_LeafNode ?c)"
      "\<forall>y \<in> set X. apart q ?sz (fst y) (snd y)"
    using qa by (auto simp: ball_Un)
  note ga = growing_apart [OF g]
  note agree = growing_agree [OF g run(2), of "{}" K]
  have agree: "\<forall>h \<in> set (all_inner I r n ch n). agree_inner ?V (f_view ?c r' K) h" "\<forall>h \<in> set (all_leaves I r n ch n). agree_leaf ?V (f_view ?c r' K) h"
      "\<forall>y \<in> set (map (\<lambda>g. (g, sizeof_LeafNode ?c)) (all_leaves I r n ch n)) \<union> set X. rm_load r' (fst y) (snd y) = rm_load r (fst y) (snd y)"
    using agree apart ga(6-8) by (auto simp: apart_commute)
  have "q \<notin> K"
    using s(11) apart(1,2) apart_refl [of q ?sz ?sz] apart_refl [of q ?sz "sizeof_LeafNode ?c"] config_sizes(4,5) [OF s(1)] by auto
  have valid: "rm_valid r' g k = rm_valid r g k" for g k by (rule changesD(1) [OF run(2)])
  have "settles ?V key ch n ?g n ?lo ?hi (f_view ?c r' K) q (Suc n) [q]"
  proof (rule pending_new_root [OF s(10)])
    show "agree_on ?V (f_view ?c r' K) n ?g" "agree_on ?V (f_view ?c r' K) n ch"
      using agree(1,2) by (simp_all add: agree_on_def f_view_lists all_inner_def all_leaves_def ball_Un)
  qed (use run(3) parts ok lvl valid q(2) \<open>q \<notin> K\<close> in simp_all)
  moreover have "regions_apart ((q, ?sz) # grow_regions I r n ch n X)" using g q(3) by (simp add: growing_def)
  ultimately have "grown I r K key ch n n X r' (Suc n) [q]"
    using run(2,4,5) valid agree(3) q(2) s(3) changesD(2) [OF run(2)] by (simp add: grown_def)
  then show ?thesis using att by blast
qed

text \<open>There is a parent: \<^verbatim>\<open>find_node\<close> finds it, and it is ready to take the new node.\<close>

lemma separator_gap:
  assumes "sorted_wrt (<) (map be_val S)" and "be_val ((lo # S @ [hi]) ! rank S key) < be_val key" and "s \<in> set S"
  shows "be_val s \<noteq> be_val key"
proof
  assume eq: "be_val s = be_val key"
  obtain i where i: "i < length S" "s = S ! i" using assms(3) by (metis in_set_conv_nth)
  then have r: "i < rank S key" using sorted_rank_nth [OF assms(1) i(1), of key] eq by simp
  then obtain j where j: "rank S key = Suc j" by (cases "rank S key") auto
  then have len: "j < length S" "i \<le> j" using rank_le [of S key] r by simp_all
  then have "be_val (S ! i) \<le> be_val (S ! j)"
    using sorted_wrt_nth_less [OF assms(1), of i j] by (cases "i = j") auto
  then show False using assms(2) i eq j len by (simp add: nth_append)
qed

lemma growing_parent:
  assumes g: "growing I r K key x ch m n X" and "m < n" and lvl: "unat lvl = Suc m"
  obtains p plo phi xlo where
    "ctx (f_view (cfg I) r K) key p (Suc m) plo phi (root_at I r) n (ArrayVar_min (KEY_SIZE (cfg I))) (ArrayVar_max (KEY_SIZE (cfg I)))"
    and "ctx (f_view (cfg I) r K) key x m xlo (tv_hi (f_view (cfg I) r K) ch) p (Suc m) plo phi"
    and "tree (f_view (cfg I) r K) x m xlo key" and "tree (f_view (cfg I) r K) ch m key (tv_hi (f_view (cfg I) r K) ch)"
    and "be_val xlo < be_val key" and "\<forall>s \<in> set (tv_seps (f_view (cfg I) r K) p). be_val s \<noteq> be_val key"
    and "p \<notin> K" and "p \<in> set (all_inner I r m ch n)" and "p \<notin> set (inner_nodes (cfg I) r m ch)"
    and "parent_ready I r key p lvl"
    and "run (mem_handler E) (find_node I key lvl True True) (r, e) = Inr ((FOUND, p, None), (r, e))"
proof -
  let ?c = "cfg I" and ?V = "f_view (cfg I) r K" and ?g = "root_at I r"
  let ?lo = "ArrayVar_min (KEY_SIZE (cfg I))" and ?hi = "ArrayVar_max (KEY_SIZE (cfg I))"
  have s: "config_ok ?c" "rm_small r" "\<not> has_cache I" "n < fuel I" "length key = KEY_SIZE ?c" "rm_valid r (root_offset_pointer I) 8"
      "locked_below ?c r K (Suc m)"
    using g by (simp_all add: growing_def)
  obtain xlo where x: "ctx ?V key x m xlo (tv_hi ?V ch) ?g n ?lo ?hi" and trees: "tree ?V x m xlo key" "tree ?V ch m key (tv_hi ?V ch)"
    and key: "be_val xlo < be_val key" "be_val key < be_val (tv_hi ?V ch)"
    using g by (auto simp: growing_def pending_def)
  obtain p plo phi where up: "ctx ?V key p (Suc m) plo phi ?g n ?lo ?hi" and here: "ctx ?V key x m xlo (tv_hi ?V ch) p (Suc m) plo phi"
    using ctx_parent [OF x assms(2)] by blast
  note st = ctx_step [OF here]
  have gap: "\<forall>s \<in> set (tv_seps ?V p). be_val s \<noteq> be_val key"
    using separator_gap [OF st(5)] key(1) unfolding st(7) tv_bounds_def by blast
  note unl = f_view_unlocked [OF st(3) s(7) order_refl]
  have pin: "p \<in> set (inner_nodes ?c r n ?g)"
    using ctx_lists(1) [OF up] by (auto simp: f_view_lists)
  have pout: "p \<notin> set (inner_nodes ?c r m ch)" using growing_apart(1) [OF g] pin by (auto simp: all_inner_def)
  have b: "be_val plo \<le> be_val xlo" "be_val (tv_hi ?V ch) \<le> be_val phi" using ctx_bounds [OF here f_view_fenced] by simp_all
  have "level (node_header (node_at ?c r p)) = lvl"
    using st(3) lvl by (simp add: word_unat_eq_iff)
  then have ready: "parent_ready I r key p lvl"
    using s(1,2,5) st(1-3) unl(2) b key gap by (auto simp: parent_ready_def)
  have find: "run (mem_handler E) (find_node I key lvl True True) (r, e) = Inr ((FOUND, p, None), (r, e))"
    by (rule find_parent_run [OF up st(3) s(1) rm_small_ok [OF s(2)] s(3,5,7) lvl s(4,6)])
  show thesis
    by (rule that [OF up here trees key(1) gap unl(1) _ pout ready find]) (use pin in \<open>simp add: all_inner_def\<close>)
qed

text \<open>A step that changes one node of the tree, and nodes outside of it.\<close>

lemma growing_step:
  assumes g: "growing I r K key x ch m n X" and p: "p \<in> set (all_inner I r m ch n)"
    and step: "changes r r' (map (\<lambda>q. (q, sizeof_InternalNode (cfg I))) qs @ [(p, sizeof_InternalNode (cfg I))])"
    and q: "\<forall>q \<in> set qs. \<forall>y \<in> set (grow_regions I r m ch n X). apart q (sizeof_InternalNode (cfg I)) (fst y) (snd y)"
    and K': "\<And>h. h \<noteq> p \<Longrightarrow> h \<in> K' \<longleftrightarrow> h \<in> K"
  shows "\<forall>h \<in> set (all_inner I r m ch n) - {p}. agree_inner (f_view (cfg I) r K) (f_view (cfg I) r' K') h"
    and "\<forall>h \<in> set (all_leaves I r m ch n). agree_leaf (f_view (cfg I) r K) (f_view (cfg I) r' K') h"
    and "\<forall>y \<in> set (map (\<lambda>g. (g, sizeof_LeafNode (cfg I))) (all_leaves I r m ch n)) \<union> set X. rm_load r' (fst y) (snd y) = rm_load r (fst y) (snd y)"
    and "rm_load64 r' (root_offset_pointer I) = rm_load64 r (root_offset_pointer I)" and "root_at I r' = root_at I r"
proof -
  let ?sz = "sizeof_InternalNode (cfg I)"
  note ga = growing_apart [OF g]
  have qa: "apart q ?sz (root_offset_pointer I) 8" "\<forall>h \<in> set (all_inner I r m ch n). apart q ?sz h ?sz"
      "\<forall>h \<in> set (all_leaves I r m ch n). apart q ?sz h (sizeof_LeafNode (cfg I))" "\<forall>y \<in> set X. apart q ?sz (fst y) (snd y)"
    if "q \<in> set qs" for q
    using bspec [OF q that] by (simp_all add: grow_regions_def ball_Un)
  have leaf: "h \<noteq> p \<and> apart p ?sz h (sizeof_LeafNode (cfg I))" if "h \<in> set (all_leaves I r m ch n)" for h
    using ga(4) [OF p that] by auto
  have inner: "apart p ?sz h ?sz" if "h \<in> set (all_inner I r m ch n)" "h \<noteq> p" for h
    using ga(3) [OF p that(1)] that(2) by auto
  note agree = growing_agree [OF g step, of "{p}" K']
  show "\<forall>h \<in> set (all_inner I r m ch n) - {p}. agree_inner (f_view (cfg I) r K) (f_view (cfg I) r' K') h"
    "\<forall>h \<in> set (all_leaves I r m ch n). agree_leaf (f_view (cfg I) r K) (f_view (cfg I) r' K') h"
    "\<forall>y \<in> set (map (\<lambda>g. (g, sizeof_LeafNode (cfg I))) (all_leaves I r m ch n)) \<union> set X. rm_load r' (fst y) (snd y) = rm_load r (fst y) (snd y)"
    by ((rule agree; use K' qa leaf inner ga(5) [OF p] in auto))+
  have "rm_valid r (root_offset_pointer I) 8" using g by (simp add: growing_def)
  then show *: "rm_load64 r' (root_offset_pointer I) = rm_load64 r (root_offset_pointer I)"
    using changesD(3) [OF step, of "root_offset_pointer I" 8] qa(1) ga(6) [OF p] by (auto simp: rm_load64_def)
  then show "root_at I r' = root_at I r" by (simp add: root_at_def)
qed

text \<open>The parent has room.\<close>

lemma grow_room:
  assumes g: "growing I r K key x ch m n X" and mn: "m < n" and lvl: "unat lvl = Suc m"
    and ready: "parent_ready I r key p lvl"
    and find: "run (mem_handler E) (find_node I key lvl True True) (r, e) = Inr ((FOUND, p, None), (r, e))"
    and up: "ctx (f_view (cfg I) r K) key p (Suc m) plo phi (root_at I r) n (ArrayVar_min (KEY_SIZE (cfg I))) (ArrayVar_max (KEY_SIZE (cfg I)))"
    and here: "ctx (f_view (cfg I) r K) key x m xlo (tv_hi (f_view (cfg I) r K) ch) p (Suc m) plo phi"
    and trees: "tree (f_view (cfg I) r K) x m xlo key" "tree (f_view (cfg I) r K) ch m key (tv_hi (f_view (cfg I) r K) ch)"
    and key: "be_val xlo < be_val key" "\<forall>s \<in> set (tv_seps (f_view (cfg I) r K) p). be_val s \<noteq> be_val key"
    and p: "p \<notin> K" "p \<in> set (all_inner I r m ch n)" "p \<notin> set (inner_nodes (cfg I) r m ch)"
    and room: "Suc (unat (last_index (node_header (node_at (cfg I) r p)))) < branch_factor (cfg I)"
  shows "\<exists>r'. run (mem_handler E) (internal_attempt rec I key ch lvl 0 None) (r, e) = Inr (Inr True, (r', e)) \<and> grown I r K key ch m n X r' n []"
proof -
  let ?c = "cfg I" and ?V = "f_view (cfg I) r K" and ?g = "root_at I r" and ?sz = "sizeof_InternalNode (cfg I)"
  define nd where "nd = with_lock 1 (node_at ?c r p)"
  obtain r' where run: "run (mem_handler E) (internal_attempt rec I key ch lvl 0 None) (r, e) = Inr (Inr True, (r', e))"
    and step: "changes r r' [(p, ?sz)]" and at: "node_at ?c r' p = with_lock 0 (insert_entry (oob I) key ch nd)"
    using attempt_room [OF ready find room, of rec ch] unfolding nd_def by blast
  have s: "config_ok ?c" "rm_small r" "length key = KEY_SIZE ?c" "rm_valid r p ?sz" "node_ok ?c nd" "spare_ok nd" "key \<notin> set (separators nd)"
      "be_val (fence_lo (node_header nd)) < be_val key" "be_val key < be_val (fence_hi (node_header nd))" "unat (level (node_header nd)) = Suc m"
      "branch_factor ?c \<le> 256" "Suc (unat (last_index (node_header nd))) < branch_factor ?c"
    using ready room lvl by (simp_all add: parent_ready_def nd_def config_ok_def)
  note ok = insert_entry_ok [OF s(5,3,7,12,11,8,9), of "oob I" ch] insert_entry_spare [OF s(5,6,3,7,12,11), of "oob I" ch]
  note view = insert_entry_view(2,3) [OF s(5,3,7,12,11), of "oob I" ch]
  have hdr: "level (node_header (insert_entry (oob I) key ch nd)) = level (node_header nd)"
      "fence_lo (node_header (insert_entry (oob I) key ch nd)) = fence_lo (node_header nd)"
      "fence_hi (node_header (insert_entry (oob I) key ch nd)) = fence_hi (node_header nd)"
    by (simp_all add: insert_entry_def Let_def)
  note same = growing_step [OF g p(2), of r' "[]" K, simplified, OF step]
  have valid: "rm_valid r' g k = rm_valid r g k" for g k by (rule changesD(1) [OF step])
  have d: "distinct (tree_inner ?V n ?g)" "distinct (tree_leaves ?V n ?g)" "p \<notin> set (tree_inner ?V m ch)"
    using growing_apart(1,2) [OF g] p(3) by (simp_all add: f_view_lists all_inner_def all_leaves_def)
  have a: "\<forall>h \<in> set (tree_inner ?V n ?g) \<union> set (tree_inner ?V m ch) - {p}. agree_inner ?V (f_view ?c r' K) h"
      "\<forall>h \<in> set (tree_leaves ?V n ?g) \<union> set (tree_leaves ?V m ch). agree_leaf ?V (f_view ?c r' K) h"
    using same(1,2) by (simp_all add: f_view_lists all_inner_def all_leaves_def)
  have "settles ?V key ch m ?g n (ArrayVar_min (KEY_SIZE ?c)) (ArrayVar_max (KEY_SIZE ?c)) (f_view ?c r' K) ?g n []"
    by (rule pending_insert [OF f_view_fenced up here trees key d a])
       (use valid s ok view hdr at p(1) in \<open>simp_all add: nd_def\<close>)
  then have "grown I r K key ch m n X r' n []"
    using g same(3-5) changesD(1,2) [OF step] by (simp add: grown_def growing_def)
  then show ?thesis using run by blast
qed

text \<open>The parent is full: its right half is pending one level up, while the parent stays locked.\<close>

lemma grow_regions_mset:
  assumes "mset (all_inner I r' m' ch' n) = mset new + mset (all_inner I r m ch n)" and "mset (all_leaves I r' m' ch' n) = mset (all_leaves I r m ch n)"
  shows "mset (grow_regions I r' m' ch' n X) = mset (map (\<lambda>g. (g, sizeof_InternalNode (cfg I))) new @ grow_regions I r m ch n X)"
  using assms by (simp add: grow_regions_def)

lemma passes_on_lists:
  assumes "passes_on (f_view (cfg I) r K) key ch m (root_at I r) n lo hi (f_view (cfg I) r' K') key' p q" and "root_at I r' = root_at I r"
  shows "mset (all_inner I r' (Suc m) q n) = mset [q] + mset (all_inner I r m ch n)"
    and "mset (all_leaves I r' (Suc m) q n) = mset (all_leaves I r m ch n)"
    and "mset (grow_regions I r' (Suc m) q n X) = mset ((q, sizeof_InternalNode (cfg I)) # grow_regions I r m ch n X)"
proof -
  show lists: "mset (all_inner I r' (Suc m) q n) = mset [q] + mset (all_inner I r m ch n)"
      "mset (all_leaves I r' (Suc m) q n) = mset (all_leaves I r m ch n)"
    using assms unfolding passes_on_def f_view_lists all_inner_def all_leaves_def mset_append by simp_all
  show "mset (grow_regions I r' (Suc m) q n X) = mset ((q, sizeof_InternalNode (cfg I)) # grow_regions I r m ch n X)"
    using grow_regions_mset [OF lists, of X] by simp
qed

lemma locked_below_agree:
  assumes "K \<subseteq> set hs \<union> set ls" and "\<forall>h \<in> set hs. agree_inner (f_view c r K) (f_view c r' K') h \<and> (\<exists>k. tv_inner (f_view c r K) k h)"
    and "\<forall>l \<in> set ls. agree_leaf (f_view c r K) (f_view c r' K') l \<and> tv_leaf (f_view c r K) l" and "locked_below c r K m"
  shows "locked_below c r' K m"
  unfolding locked_below_def
proof
  fix h assume h: "h \<in> K"
  then have m: "unat (level (node_header (node_at c r h))) < m" using assms(4) by (simp add: locked_below_def)
  show "unat (level (node_header (node_at c r' h))) < m"
  proof (cases "h \<in> set hs")
    case True
    then obtain k where "tv_inner (f_view c r K) k h" "tv_inner (f_view c r' K') k h"
      using assms(2) by (auto simp: agree_inner_def simp del: f_view_simps)
    then show ?thesis using m by simp
  next
    case False
    then have "tv_leaf (f_view c r K) h" "tv_leaf (f_view c r' K') h"
      using assms(1,3) h by (auto simp: agree_leaf_def simp del: f_view_simps)
    then show ?thesis using m by (simp add: node_header_of_leaf)
  qed
qed

lemma grow_split:
  assumes g: "growing I r K key x ch m n X" and mn: "m < n" and lvl: "unat lvl = Suc m"
    and ready: "parent_ready I r key p lvl"
    and up: "ctx (f_view (cfg I) r K) key p (Suc m) plo phi (root_at I r) n (ArrayVar_min (KEY_SIZE (cfg I))) (ArrayVar_max (KEY_SIZE (cfg I)))"
    and here: "ctx (f_view (cfg I) r K) key x m xlo (tv_hi (f_view (cfg I) r K) ch) p (Suc m) plo phi"
    and trees: "tree (f_view (cfg I) r K) x m xlo key" "tree (f_view (cfg I) r K) ch m key (tv_hi (f_view (cfg I) r K) ch)"
    and key: "be_val xlo < be_val key" "\<forall>s \<in> set (tv_seps (f_view (cfg I) r K) p). be_val s \<noteq> be_val key"
    and p: "p \<notin> K" "p \<in> set (all_inner I r m ch n)" "p \<notin> set (inner_nodes (cfg I) r m ch)"
    and full: "Suc (unat (last_index (node_header (node_at (cfg I) r p)))) = branch_factor (cfg I)"
    and q: "rm_valid r q (sizeof_InternalNode (cfg I))"
      "\<forall>y \<in> set (grow_regions I r m ch n X). apart q (sizeof_InternalNode (cfg I)) (fst y) (snd y)"
    and es_def: "es = split_entries (cfg I) (oob I) key ch (with_lock 1 (node_at (cfg I) r p))"
    and step: "changes r r2 [(q, sizeof_InternalNode (cfg I)), (p, sizeof_InternalNode (cfg I))]"
    and at: "node_at (cfg I) r2 q = right_half (cfg I) es (with_lock 1 (node_at (cfg I) r p))"
      "node_at (cfg I) r2 p = left_half (cfg I) es (with_lock 1 (node_at (cfg I) r p))"
    and ok: "node_ok (cfg I) (node_at (cfg I) r2 q)" "node_ok (cfg I) (node_at (cfg I) r2 p)"
  shows "passes_on (f_view (cfg I) r K) key ch m (root_at I r) n (ArrayVar_min (KEY_SIZE (cfg I))) (ArrayVar_max (KEY_SIZE (cfg I)))
    (f_view (cfg I) r2 (insert p K)) (entry_key (es ! (branch_factor (cfg I) div 2))) p q" (is ?passes)
    and "growing I r2 (insert p K) (entry_key (es ! (branch_factor (cfg I) div 2))) p q (Suc m) n X" (is ?growing)
proof -
  let ?c = "cfg I" and ?V = "f_view (cfg I) r K" and ?V2 = "f_view (cfg I) r2 (insert p K)" and ?g = "root_at I r" and ?sz = "sizeof_InternalNode (cfg I)"
  let ?M = "branch_factor (cfg I) div 2"
  define nd where "nd = with_lock 1 (node_at ?c r p)"
  define S where "S = insert_at (rank (separators nd) key) key (separators nd)"
  define C where "C = insert_at (Suc (rank (separators nd) key)) ch (children nd)"
  have s: "config_ok ?c" "rm_small r" "length key = KEY_SIZE ?c" "rm_valid r p ?sz" "node_ok ?c nd" "spare_ok nd" "key \<notin> set (separators nd)"
      "be_val (fence_lo (node_header nd)) < be_val key" "be_val key < be_val (fence_hi (node_header nd))" "unat (level (node_header nd)) = Suc m"
      "branch_factor ?c \<le> 256" "Suc (unat (last_index (node_header nd))) = branch_factor ?c" "3 \<le> branch_factor ?c"
    using ready full lvl g by (simp_all add: parent_ready_def nd_def config_ok_def growing_def)
  have "0 < branch_factor ?c" using s(13) by simp
  note view = split_entries_view [OF s(5,3,7,12), of "oob I" ch, folded es_def [folded nd_def] S_def C_def]
  note half = half_views [OF view(1) s(11) \<open>0 < branch_factor ?c\<close>, of nd, unfolded view(2,3)]
  note spare = halves_spare [OF s(5,3,7,12,11,13) es_def [folded nd_def]]
  have len: "length S = branch_factor ?c" using view(1,2) by (metis length_map length_take min.absorb2 le_SucI order_refl)
  have M: "?M < length S" using s(13) len by simp
  have mk: "entry_key (es ! ?M) = S ! ?M" using view(1,2) M len by (metis nth_map nth_take length_take min.absorb2 le_SucI order_refl)
  have inS: "S ! ?M \<in> set S" using M by simp
  have hdr: "level (node_header (left_half ?c es nd)) = level (node_header nd)" "level (node_header (right_half ?c es nd)) = level (node_header nd)"
      "fence_lo (node_header (left_half ?c es nd)) = fence_lo (node_header nd)" "fence_hi (node_header (right_half ?c es nd)) = fence_hi (node_header nd)"
      "fence_hi (node_header (left_half ?c es nd)) = S ! ?M" "fence_lo (node_header (right_half ?c es nd)) = S ! ?M"
      "lock (node_header (left_half ?c es nd)) = 1" "lock (node_header (right_half ?c es nd)) = 0"
    using mk by (simp_all add: left_half_def right_half_def Let_def nd_def Header_init_def)
  note same = growing_step [OF g p(2), of r2 "[q]" "insert p K", simplified, OF step q(2)]
  have valid: "rm_valid r2 g k = rm_valid r g k" for g k by (rule changesD(1) [OF step])
  have d: "distinct (tree_inner ?V n ?g)" "distinct (tree_leaves ?V n ?g)" "p \<notin> set (tree_inner ?V m ch)"
    using growing_apart(1,2) [OF g] p(3) by (simp_all add: f_view_lists all_inner_def all_leaves_def)
  have a: "\<forall>h \<in> set (tree_inner ?V n ?g) \<union> set (tree_inner ?V m ch) - {p}. agree_inner ?V ?V2 h"
      "\<forall>h \<in> set (tree_leaves ?V n ?g) \<union> set (tree_leaves ?V m ch). agree_leaf ?V ?V2 h"
    using same(1,2) by (simp_all add: f_view_lists all_inner_def all_leaves_def)
  have SC: "insert_at (rank (tv_seps ?V p) key) key (tv_seps ?V p) = S" "insert_at (Suc (rank (tv_seps ?V p) key)) ch (tv_kids ?V p) = C"
    by (simp_all add: S_def C_def nd_def)
  have qa: "\<forall>h \<in> set (all_inner I r m ch n). apart q ?sz h ?sz" "\<forall>h \<in> set (all_leaves I r m ch n). apart q ?sz h (sizeof_LeafNode ?c)"
    using q(2) by (simp_all add: grow_regions_def ball_Un)
  have "K \<subseteq> set (all_inner I r m ch n) \<union> set (all_leaves I r m ch n)" using g by (simp add: growing_def)
  then have "q \<notin> insert p K"
    using p(2) qa apart_refl [of q ?sz ?sz] apart_refl [of q ?sz "sizeof_LeafNode ?c"] config_sizes(4,5) [OF s(1)] by auto
  have b: "be_val (fence_lo (node_header nd)) < be_val (S ! ?M)" "be_val (S ! ?M) < be_val (fence_hi (node_header nd))"
    using inS s(5,8,9) by (auto simp: S_def set_insert_at node_ok_def)
  note st = ctx_step [OF here]
  show passes: ?passes
    unfolding mk
    by (rule pending_split [OF f_view_fenced f_view_fenced up here trees key d a, unfolded SC, OF M])
       (use at ok spare half hdr valid s(4,10) q(1) b st(1,2) \<open>q \<notin> insert p K\<close> in \<open>simp_all add: nd_def\<close>)
  note lists = passes_on_lists [OF passes same(5)]
  have pages: "\<forall>h \<in> set (all_inner I r m ch n). \<exists>k. tv_inner ?V k h" "\<forall>h \<in> set (all_leaves I r m ch n). tv_leaf ?V h"
    using g pending_pages [of ?V key x ch m ?g n] unfolding growing_def all_inner_def all_leaves_def f_view_lists set_append by blast+
  have "locked_below ?c r2 K (Suc m)"
    by (rule locked_below_agree [of K "filter (\<lambda>h. h \<noteq> p) (all_inner I r m ch n)" "all_leaves I r m ch n"])
       (use g p(1) same(1,2) pages in \<open>auto simp: growing_def simp del: f_view_simps\<close>)
  then have below: "locked_below ?c r2 (insert p K) (Suc (Suc m))"
    using at(2) hdr(1) s(10) by (auto simp: locked_below_def nd_def)
  have K: "insert p K \<subseteq> set (all_inner I r2 (Suc m) q n) \<union> set (all_leaves I r2 (Suc m) q n)"
    using g p(2) mset_eq_setD [OF lists(2)] mset_eq_setD [of "all_inner I r2 (Suc m) q n" "q # all_inner I r m ch n"] lists(1)
    by (auto simp: growing_def)
  have regs: "regions_apart (grow_regions I r2 (Suc m) q n X)"
    unfolding regions_apart_mset [OF lists(3)] using g q(2) by (simp add: growing_def)
  have "length (S ! ?M) = KEY_SIZE ?c" using view(4) mk M len view(1) nth_mem [of ?M es] by (metis less_SucI)
  then show ?growing
    using g passes below K regs same(4,5) valid changesD(2) [OF step] mk by (simp add: growing_def passes_on_def)
qed

lemma grown_pages:
  assumes "grown I r K key ch m n X r' n' new"
  shows "set (inner_nodes (cfg I) r' n' (root_at I r')) = set new \<union> set (all_inner I r m ch n)"
    and "set (leaves (cfg I) r' n' (root_at I r')) = set (all_leaves I r m ch n)"
    and "h \<in> set new \<union> set (all_inner I r m ch n) \<Longrightarrow> \<exists>k. tv_inner (f_view (cfg I) r' K) k h"
    and "h \<in> set (all_leaves I r m ch n) \<Longrightarrow> tv_leaf (f_view (cfg I) r' K) h"
proof -
  let ?V = "f_view (cfg I) r' K"
  have s: "tree ?V (root_at I r') n' (ArrayVar_min (KEY_SIZE (cfg I))) (ArrayVar_max (KEY_SIZE (cfg I)))"
      "mset (tree_inner ?V n' (root_at I r')) = mset (new @ all_inner I r m ch n)"
      "mset (tree_leaves ?V n' (root_at I r')) = mset (all_leaves I r m ch n)"
    using assms by (simp_all add: grown_def settles_def all_inner_def all_leaves_def f_view_lists)
  show i: "set (inner_nodes (cfg I) r' n' (root_at I r')) = set new \<union> set (all_inner I r m ch n)"
    and l: "set (leaves (cfg I) r' n' (root_at I r')) = set (all_leaves I r m ch n)"
    using mset_eq_setD [OF s(2)] mset_eq_setD [OF s(3)] by (simp_all add: f_view_lists)
  show "\<exists>k. tv_inner ?V k h" if "h \<in> set new \<union> set (all_inner I r m ch n)"
    using tree_pages [OF s(1)] that unfolding f_view_lists i by blast
  show "tv_leaf ?V h" if "h \<in> set (all_leaves I r m ch n)"
    using tree_pages [OF s(1)] that unfolding f_view_lists l by blast
qed

lemma grow_release:
  assumes passes: "passes_on (f_view (cfg I) r K) key ch m (root_at I r) n (ArrayVar_min (KEY_SIZE (cfg I))) (ArrayVar_max (KEY_SIZE (cfg I)))
      (f_view (cfg I) r2 (insert p K)) key' p q" and root: "root_at I r2 = root_at I r"
    and g: "growing I r2 (insert p K) key' p q (Suc m) n X" and p: "p \<notin> K" "p \<in> set (all_inner I r2 (Suc m) q n)"
    and valid: "\<And>g k. rm_valid r2 g k = rm_valid r g k"
    and loads: "\<forall>y \<in> set (map (\<lambda>g. (g, sizeof_LeafNode (cfg I))) (all_leaves I r m ch n)) \<union> set X. rm_load r2 (fst y) (snd y) = rm_load r (fst y) (snd y)"
    and grown: "grown I r2 (insert p K) key' q (Suc m) n X r3 n' new"
  defines "r' \<equiv> rm_store r3 p (bytes_of_u64 (rm_load64 r3 p - 1))"
  shows "grown I r K key ch m n X r' n' (q # new)" and "rm_small r3" and "rm_valid r3 p (sizeof_InternalNode (cfg I))"
proof -
  let ?c = "cfg I" and ?sz = "sizeof_InternalNode (cfg I)" and ?p = "root_offset_pointer I" and ?V3 = "f_view (cfg I) r3 (insert p K)"
  let ?new = "map (\<lambda>g. (g, ?sz)) new" and ?lf = "\<lambda>ls. map (\<lambda>g. (g, sizeof_LeafNode ?c)) ls"
  have s: "n' \<le> Suc n" "rm_small r3" "\<forall>g k. rm_valid r3 g k = rm_valid r2 g k" "rm_load64 r3 ?p = uintptr (root_at I r3)"
      "rm_valid r2 (root_at I r3) ?sz" "regions_apart (?new @ grow_regions I r2 (Suc m) q n X)"
      "\<forall>y \<in> set (?lf (all_leaves I r2 (Suc m) q n)) \<union> set X. rm_load r3 (fst y) (snd y) = rm_load r2 (fst y) (snd y)"
    using grown by (simp_all add: grown_def)
  note pages = grown_pages [OF grown]
  obtain k where pk: "tv_inner ?V3 k p" using pages(3) p(2) by blast
  then have vp: "rm_valid r3 p ?sz" "lock (node_header (node_at ?c r3 p)) = 1" by simp_all
  note rel = lock_release [OF s(2) vp, folded r'_def]
  show "rm_small r3" "rm_valid r3 p ?sz" by (rule s(2) vp(1))+
  note ga = growing_apart [OF g]
  note lists = passes_on_lists [OF passes root]
  have inner: "apart p ?sz h ?sz" if "h \<in> set new \<union> set (all_inner I r2 (Suc m) q n)" "h \<noteq> p" for h
  proof -
    have "(p, ?sz) \<in> set (?new @ grow_regions I r2 (Suc m) q n X)" "(h, ?sz) \<in> set (?new @ grow_regions I r2 (Suc m) q n X)"
      using p(2) that(1) by (auto simp: grow_regions_def)
    from regions_apart_pick [OF s(6) this] show ?thesis using that(2) by auto
  qed
  have vleaf: "rm_valid r3 l (sizeof_LeafNode ?c)" if "l \<in> set (all_leaves I r2 (Suc m) q n)" for l using pages(4) [OF that] by simp
  have vinner: "rm_valid r3 h ?sz" if "h \<in> set new \<union> set (all_inner I r2 (Suc m) q n)" for h using pages(3) [OF that] by auto
  have "agree_inner ?V3 (f_view ?c r' K) h" if h: "h \<in> set new \<union> set (all_inner I r2 (Suc m) q n)" for h
  proof (cases "h = p")
    case True
    then show ?thesis using f_agree_lock [of ?c r' p K r3 "insert p K"] rel vp p(1) changesD(1) [OF rel(2)] by simp
  next
    case False
    then show ?thesis using changesD(1,3) [OF rel(2)] vinner [OF h] inner [OF h] by (intro f_agree_inner) auto
  qed
  moreover have "agree_leaf ?V3 (f_view ?c r' K) l" if l: "l \<in> set (all_leaves I r2 (Suc m) q n)" for l
    using changesD(1,3) [OF rel(2)] vleaf [OF l] ga(4) [OF p(2) l] by (intro f_agree_leaf) auto
  ultimately have agree: "agree_on ?V3 (f_view ?c r' K) n' (root_at I r3)"
    unfolding agree_on_def f_view_lists pages(1,2) by blast
  have "rm_valid r3 ?p 8" using g s(3) by (simp add: growing_def)
  then have ptr: "rm_load64 r' ?p = rm_load64 r3 ?p"
    using changesD(3) [OF rel(2), of ?p 8] ga(6) [OF p(2)] by (simp add: rm_load64_def)
  then have root': "root_at I r' = root_at I r3" by (simp add: root_at_def)
  have "settles (f_view ?c r2 (insert p K)) key' q (Suc m) (root_at I r) n (ArrayVar_min (KEY_SIZE ?c)) (ArrayVar_max (KEY_SIZE ?c)) ?V3 (root_at I r3) n' new"
    using grown root by (simp add: grown_def)
  from passes_on_settles [OF passes settles_agree [OF this agree]]
  have settles: "settles (f_view ?c r K) key ch m (root_at I r) n (ArrayVar_min (KEY_SIZE ?c)) (ArrayVar_max (KEY_SIZE ?c))
      (f_view ?c r' K) (root_at I r') n' (q # new)" unfolding root' .
  have regs: "regions_apart (map (\<lambda>g. (g, ?sz)) (q # new) @ grow_regions I r m ch n X)"
    using s(6) regions_apart_mset [of "?new @ grow_regions I r2 (Suc m) q n X" "map (\<lambda>g. (g, ?sz)) (q # new) @ grow_regions I r m ch n X"]
      lists(3) [of X] by simp
  have keep: "rm_load r' (fst y) (snd y) = rm_load r (fst y) (snd y)" if y: "y \<in> set (?lf (all_leaves I r m ch n)) \<union> set X" for y
  proof -
    have y2: "y \<in> set (?lf (all_leaves I r2 (Suc m) q n)) \<union> set X" using y mset_eq_setD [OF lists(2)] by auto
    have "rm_valid r3 (fst y) (snd y)" "apart p ?sz (fst y) (snd y)"
      using y2 vleaf ga(4,5) [OF p(2)] g s(3) by (auto simp: growing_def)
    then have "rm_load r' (fst y) (snd y) = rm_load r3 (fst y) (snd y)" using changesD(3) [OF rel(2)] by simp
    then show ?thesis using bspec [OF s(7) y2] bspec [OF loads y] by simp
  qed
  show "grown I r K key ch m n X r' n' (q # new)"
    unfolding grown_def using settles regs keep s(1-5) valid changesD(1,2) [OF rel(2)] ptr root' by simp
qed

subsection \<open>Inserting a separator, all the way up\<close>

text \<open>
  What splits need of the allocator and of the random numbers of a compute server. \<open>can V e k xs\<close>: in the environment
  \<open>e\<close> at least \<open>k\<close> more allocations of items, leaves or nodes succeed, each with memory that is valid (\<open>V\<close>) and apart
  from the regions \<open>xs\<close> and from those handed out before; the items among them can be given back; and the random numbers vary
  enough for \<^verbatim>\<open>setDifferentRandomFpAddr\<close> to end.
\<close>

locale page_source =
  fixes E :: "('e, cache_item) env_ops" and I :: FaunusIndex
    and can :: "(GlobalAddress \<Rightarrow> nat \<Rightarrow> bool) \<Rightarrow> 'e \<Rightarrow> nat \<Rightarrow> (GlobalAddress \<times> nat) list \<Rightarrow> bool"
  assumes allocates: "can V e (Suc k) xs \<Longrightarrow> sz \<in> {item_bytes I, leaf_bytes I, node_bytes I} \<Longrightarrow>
      \<exists>off e1. e_alloc E sz e = Inr (off, e1) \<and> V (GlobalAddress_raw off) (unat sz) \<and> unat (server_index (GlobalAddress_raw off)) < 16 \<and>
        (\<forall>y \<in> set xs. apart (GlobalAddress_raw off) (unat sz) (fst y) (snd y)) \<and> can V e1 k ((GlobalAddress_raw off, unat sz) # xs)"
    and releases: "can V e k ((g, unat (item_bytes I)) # xs) \<Longrightarrow> \<forall>y \<in> set xs. apart g (unat (item_bytes I)) (fst y) (snd y) \<Longrightarrow>
      can V (e_free E (item_bytes I) (uintptr g) e) k xs"
    and fewer: "can V e k xs \<Longrightarrow> j \<le> k \<Longrightarrow> set ys \<subseteq> set xs \<Longrightarrow> can V e j ys"
    and scramble: "can V e k xs \<Longrightarrow> \<exists>b' e1. run (mem_handler E) (setDifferentRandomFpAddr I b) (r, e) = Inr (b', (r, e1)) \<and> can V e1 k xs"
begin

lemma node_supply:
  assumes "can V e (Suc k) xs" and "config_ok (cfg I)"
  obtains off e1 q where "e_alloc E (node_bytes I) e = Inr (off, e1)" and "q = GlobalAddress_raw off" and "V q (sizeof_InternalNode (cfg I))"
    and "\<forall>y \<in> set xs. apart q (sizeof_InternalNode (cfg I)) (fst y) (snd y)" and "can V e1 k ((q, sizeof_InternalNode (cfg I)) # xs)"
  using allocates [OF assms(1), of "node_bytes I"] unat_sizes(2) [OF assms(2)] by auto

lemma insert_internal_entry_run:
  assumes "growing I r K key x ch m n X" and "unat lvl = Suc m" and "n - m < f" and "can (rm_valid r) e (Suc (n - m) + k) (grow_regions I r m ch n X)"
  shows "\<exists>r' e' n' new. run (mem_handler E) (insert_internal_entry f I key ch lvl) (r, e) = Inr (True, (r', e')) \<and>
    grown I r K key ch m n X r' n' new \<and>
    can (rm_valid r) e' k (map (\<lambda>g. (g, sizeof_InternalNode (cfg I))) new @ grow_regions I r m ch n X)"
  using assms
proof (induction f arbitrary: r K key x ch m lvl e)
  case (Suc f)
  let ?c = "cfg I" and ?sz = "sizeof_InternalNode (cfg I)" and ?rec = "insert_internal_entry f I"
  let ?R = "grow_regions I r m ch n X"
  note g = Suc.prems(1) and lvl = Suc.prems(2)
  have cfg: "config_ok ?c" using g by (simp add: growing_def)
  have mn: "m \<le> n" by (rule growing_key(3) [OF g])
  obtain N where N: "(1000000 :: nat) = Suc N" by (rule million_Suc)
  have top: "run (mem_handler E) (insert_internal_entry (Suc f) I key ch lvl) (r, e) = Inr (True, (r', e'))"
    if "run (mem_handler E) (internal_attempt ?rec I key ch lvl 0 None) (r, e) = Inr (Inr True, (r', e'))" for r' e'
    using that by (simp add: N run_bind)
  show ?case
  proof (cases "m = n")
    case True
    obtain off e1 q where al: "e_alloc E (node_bytes I) e = Inr (off, e1)" "q = GlobalAddress_raw off" "rm_valid r q ?sz"
        "\<forall>y \<in> set ?R. apart q ?sz (fst y) (snd y)" "can (rm_valid r) e1 k ((q, ?sz) # ?R)"
      using node_supply [of "rm_valid r" e k ?R] Suc.prems(4) cfg True by auto
    obtain r' where "run (mem_handler E) (internal_attempt ?rec I key ch lvl 0 None) (r, e) = Inr (Inr True, (r', e1))"
        "grown I r K key ch n n X r' (Suc n) [q]"
      using grow_root [OF g [unfolded True] lvl [unfolded True] al(1-3), of ?rec] al(4) True by blast
    then show ?thesis using top al(5) True by fastforce
  next
    case False
    then have less: "m < n" using mn by simp
    obtain p plo phi xlo where p: "ctx (f_view ?c r K) key p (Suc m) plo phi (root_at I r) n (ArrayVar_min (KEY_SIZE ?c)) (ArrayVar_max (KEY_SIZE ?c))"
        "ctx (f_view ?c r K) key x m xlo (tv_hi (f_view ?c r K) ch) p (Suc m) plo phi" "tree (f_view ?c r K) x m xlo key"
        "tree (f_view ?c r K) ch m key (tv_hi (f_view ?c r K) ch)" "be_val xlo < be_val key" "\<forall>s \<in> set (tv_seps (f_view ?c r K) p). be_val s \<noteq> be_val key"
        "p \<notin> K" "p \<in> set (all_inner I r m ch n)" "p \<notin> set (inner_nodes ?c r m ch)" and ready: "parent_ready I r key p lvl"
      and find: "run (mem_handler E) (find_node I key lvl True True) (r, e) = Inr ((FOUND, p, None), (r, e))"
      by (rule growing_parent [OF g less lvl, where E = E and e = e])
    show ?thesis
    proof (cases "Suc (unat (last_index (node_header (node_at ?c r p)))) < branch_factor ?c")
      case True
      obtain r' where "run (mem_handler E) (internal_attempt ?rec I key ch lvl 0 None) (r, e) = Inr (Inr True, (r', e))" "grown I r K key ch m n X r' n []"
        using grow_room [OF g less lvl ready find p True] by blast
      moreover have "can (rm_valid r) e k ?R" using fewer [OF Suc.prems(4)] by simp
      ultimately show ?thesis using top by fastforce
    next
      case False
      have full: "Suc (unat (last_index (node_header (node_at ?c r p)))) = branch_factor ?c" and bf: "3 \<le> branch_factor ?c"
        using False ready g by (simp_all add: parent_ready_def node_ok_def growing_def)
      obtain off e1 q where al: "e_alloc E (node_bytes I) e = Inr (off, e1)" "q = GlobalAddress_raw off" "rm_valid r q ?sz"
          "\<forall>y \<in> set ?R. apart q ?sz (fst y) (snd y)" "can (rm_valid r) e1 (n - m + k) ((q, ?sz) # ?R)"
        using node_supply [of "rm_valid r" e "n - m + k" ?R] Suc.prems(4) cfg by auto
      have qp: "apart q ?sz p ?sz" using al(4) p(8) by (simp add: grow_regions_def ball_Un)
      define es where "es = split_entries ?c (oob I) key ch (with_lock 1 (node_at ?c r p))"
      obtain r2 where step: "changes r r2 [(q, ?sz), (p, ?sz)]"
        and at: "node_at ?c r2 q = right_half ?c es (with_lock 1 (node_at ?c r p))" "node_at ?c r2 p = left_half ?c es (with_lock 1 (node_at ?c r p))"
          "node_ok ?c (node_at ?c r2 q)" "node_ok ?c (node_at ?c r2 p)"
        and cont: "\<And>r3 e3. run (mem_handler E) (?rec (entry_key (es ! (branch_factor ?c div 2))) q (lvl + 1)) (r2, e1) = Inr (True, (r3, e3)) \<Longrightarrow>
            rm_small r3 \<Longrightarrow> rm_valid r3 p ?sz \<Longrightarrow> run (mem_handler E) (internal_attempt ?rec I key ch lvl 0 None) (r, e) =
              Inr (Inr True, (rm_store r3 p (bytes_of_u64 (rm_load64 r3 p - 1)), e3))"
        using attempt_full [OF ready find full bf al(1-3) qp es_def, of ?rec] by blast
      note split = grow_split [OF g less lvl ready p full al(3,4) es_def step at]
      note same = growing_step(3,5) [OF g p(8), of r2 "[q]" "insert p K", simplified, OF step al(4)]
      have valid: "rm_valid r2 = rm_valid r" using changesD(1) [OF step] by blast
      note lists = passes_on_lists [OF split(1) same(2)]
      have lvl': "unat (lvl + 1) = Suc (Suc m)" using lvl less g by (simp add: unat_word_ariths growing_def)
      have regs: "set (grow_regions I r2 (Suc m) q n X) = set ((q, ?sz) # ?R)" using mset_eq_setD [OF lists(3)] .
      have "can (rm_valid r2) e1 (Suc (n - Suc m) + k) (grow_regions I r2 (Suc m) q n X)"
        unfolding valid by (rule fewer [OF al(5)]) (use less regs in simp_all)
      moreover have "n - Suc m < f" using Suc.prems(3) less by simp
      ultimately obtain r3 e3 n' new where ih:
          "run (mem_handler E) (?rec (entry_key (es ! (branch_factor ?c div 2))) q (lvl + 1)) (r2, e1) = Inr (True, (r3, e3))"
          "grown I r2 (insert p K) (entry_key (es ! (branch_factor ?c div 2))) q (Suc m) n X r3 n' new"
          "can (rm_valid r) e3 k (map (\<lambda>g. (g, ?sz)) new @ grow_regions I r2 (Suc m) q n X)"
        using Suc.IH [OF split(2) lvl'] unfolding valid by blast
      have p2: "p \<in> set (all_inner I r2 (Suc m) q n)"
        using p(8) mset_eq_setD [of "all_inner I r2 (Suc m) q n" "q # all_inner I r m ch n"] lists(1) by simp
      have "\<forall>y \<in> set (map (\<lambda>g. (g, sizeof_LeafNode ?c)) (all_leaves I r m ch n)) \<union> set X. rm_load r2 (fst y) (snd y) = rm_load r (fst y) (snd y)"
        using same(1) by simp
      note rel = grow_release [OF split(1) same(2) split(2) p(7) p2 changesD(1) [OF step] this ih(2)]
      have "can (rm_valid r) e3 k (map (\<lambda>g. (g, ?sz)) (q # new) @ ?R)"
        by (rule fewer [OF ih(3)]) (use regs in auto)
      then show ?thesis using top [OF cont [OF ih(1) rel(2,3)]] rel(1) by blast
    qed
  qed
qed simp

end

end
