(* ===== verification/Faunus_Split.thy ===== *)
theory Faunus_Split
  imports Faunus_Grow
begin

text \<open>
  \<^verbatim>\<open>split_leaf\<close> of \<^verbatim>\<open>src/src/kv_index/faunus_index.cpp\<close> as a step that leaves the stored map alone, and \<^verbatim>\<open>insert\<close> with
  the splits it causes as an update of the map: the leaf and its slots are locked, its entries are distributed over
  the old and a new leaf, and the tree grows (\<open>Faunus_Grow\<close>) until every node is known to its parent.
\<close>

subsection \<open>Locking the slots of a leaf\<close>

lemma rm_steps_append:
  "fst (rm_steps r (xs @ ys)) = fst (rm_steps r xs) @ fst (rm_steps (snd (rm_steps r xs)) ys)"
  "snd (rm_steps r (xs @ ys)) = snd (rm_steps (snd (rm_steps r xs)) ys)"
  by (induction xs arbitrary: r) (simp_all add: Let_def case_prod_unfold)

lemma update_segment:
  assumes "k < length xs"
  shows "(map f (take k xs) @ drop k xs)[k := f (xs ! k)] = map f (take (Suc k) xs) @ drop (Suc k) xs"
proof -
  have "drop k xs = xs ! k # drop (Suc k) xs" using assms by (simp add: Cons_nth_drop_Suc)
  then show ?thesis using assms by (simp add: take_Suc_conv_app_nth list_update_append)
qed

definition add_slots :: "nat \<Rightarrow> u64 \<Rightarrow> LeafNode \<Rightarrow> LeafNode" where
  "add_slots k inc l = l\<lparr>kv_blocks := map (\<lambda>b. b + inc) (take k (kv_blocks l)) @ drop k (kv_blocks l)\<rparr>"

lemma slots_faa:
  assumes "rm_small r" and "rm_valid r g (sizeof_LeafNode c)" and "k \<le> branch_factor c"
    and s_def: "s = rm_steps r (map (\<lambda>i. FaaOp (kvblock_address c g i) inc) [0..<k])"
  shows "fst s = replicate k NoOut \<and> leaf_at c (snd s) g = add_slots k inc (leaf_at c r g) \<and> changes r (snd s) [(g, sizeof_LeafNode c)]"
  using assms(3) unfolding s_def
proof (induction k)
  case 0
  then show ?case by (simp add: add_slots_def changes_def)
next
  case (Suc k)
  let ?ops = "\<lambda>k. map (\<lambda>i. FaaOp (kvblock_address c g i) inc) [0..<k]"
  define r1 where "r1 = snd (rm_steps r (?ops k))"
  define r2 where "r2 = rm_store r1 (kvblock_address c g k) (bytes_of_u64 (rm_load64 r1 (kvblock_address c g k) + inc))"
  have IH: "fst (rm_steps r (?ops k)) = replicate k NoOut" "leaf_at c r1 g = add_slots k inc (leaf_at c r g)" "changes r r1 [(g, sizeof_LeafNode c)]"
    using Suc by (simp_all add: r1_def)
  have k: "k < branch_factor c" using Suc.prems by simp
  have r1: "rm_small r1" "rm_valid r1 g (sizeof_LeafNode c)" using changesD(1,2) [OF IH(3)] assms(1,2) by simp_all
  have len: "length (kv_blocks (leaf_at c r g)) = branch_factor c" by (simp add: leaf_at_def)
  have load: "rm_load64 r1 (kvblock_address c g k) = kv_blocks (leaf_at c r g) ! k"
    using slot_load [OF r1 k] IH(2) len k by (simp add: add_slots_def nth_append)
  have steps: "snd (rm_steps r (?ops (Suc k))) = r2" "fst (rm_steps r (?ops (Suc k))) = replicate (Suc k) NoOut"
    using IH(1) by (simp_all add: rm_steps_append r1_def [symmetric] r2_def replicate_append_same)
  have "leaf_at c r2 g = add_slots (Suc k) inc (leaf_at c r g)"
    using slot_store [OF r1 k, of "kv_blocks (leaf_at c r g) ! k + inc"] update_segment [of k "kv_blocks (leaf_at c r g)" "\<lambda>b. b + inc"] len k
    unfolding r2_def load IH(2) by (simp add: add_slots_def)
  moreover have "changes r1 r2 [(g, sizeof_LeafNode c)]"
    using changes_sub_store [OF r1, of "offset_of_kv_block c k" "bytes_of_u64 (rm_load64 r1 (kvblock_address c g k) + inc)"]
      slot_in_leaf [OF k] by (simp add: r2_def kvblock_address_def)
  then have "changes r r2 [(g, sizeof_LeafNode c)]" by (rule changes_same [OF IH(3)])
  ultimately show ?case unfolding steps by blast
qed

lemma add_slots_all: "length (kv_blocks l) \<le> k \<Longrightarrow> add_slots k inc l = l\<lparr>kv_blocks := map (\<lambda>b. b + inc) (kv_blocks l)\<rparr>"
  by (simp add: add_slots_def)

text \<open>The leaf while its owner splits it: locked, with every slot locked.\<close>

definition locked_leaf :: "LeafNode \<Rightarrow> LeafNode" where
  "locked_leaf l = l\<lparr>leaf_header := (leaf_header l)\<lparr>lock := 1\<rparr>, kv_blocks := map (\<lambda>b. setLocked b True) (kv_blocks l)\<rparr>"

lemma setLocked_undo: "\<not> isLocked b \<Longrightarrow> setLocked (setLocked b True) False = b"
  by (rule kvblock_eqI) simp_all

lemma lock_leaf_run:
  assumes cfg: "config_ok (cfg I)" and r: "rm_small r" "rm_valid r l (sizeof_LeafNode (cfg I))"
    and free: "lock (leaf_header (leaf_at (cfg I) r l)) = 0" "\<not> list_ex isLocked (kv_blocks (leaf_at (cfg I) r l))"
  shows "\<exists>r2. leaf_at (cfg I) r2 l = locked_leaf (leaf_at (cfg I) r l) \<and> changes r r2 [(l, sizeof_LeafNode (cfg I))] \<and>
    (\<forall>k. run (mem_handler E) (bind (trylock_node l) (\<lambda>success. if \<not> success then Ret False
       else PerformBatch (get_lock_unlock_kvblocks I l True @ [ReadOp l True (leaf_bytes I)]) k)) (r, e) =
     run (mem_handler E) (k (True, replicate (branch_factor (cfg I)) NoOut @ [ReadOut (rm_load r2 l (sizeof_LeafNode (cfg I)))])) (r2, e))"
proof -
  let ?c = "cfg I" and ?sz = "sizeof_LeafNode (cfg I)" and ?L = "leaf_at (cfg I) r l"
  define r1 where "r1 = rm_store r l (bytes_of_u64 1)"
  define r2 where "r2 = snd (rm_steps r1 (get_lock_unlock_kvblocks I l True))"
  have h8: "8 \<le> ?sz" using header_fits(1,3) [of ?c] by linarith
  have v8: "rm_valid r l 8" using rm.valid_mono [OF r(2) h8] .
  have c1: "changes r r1 [(l, ?sz)]" using changes_sub_store [OF r, of 0 "bytes_of_u64 1"] h8 by (simp add: r1_def)
  have r1: "rm_small r1" "rm_valid r1 l ?sz" using changesD(1,2) [OF c1] r by simp_all
  have l1: "leaf_at ?c r1 l = ?L\<lparr>leaf_header := (leaf_header ?L)\<lparr>lock := 1\<rparr>\<rparr>" unfolding r1_def by (rule leaf_lock_store [OF r])
  note faa = slots_faa [OF r1 order_refl refl, of 1]
  have ops: "get_lock_unlock_kvblocks I l True = map (\<lambda>i. FaaOp (kvblock_address ?c l i) 1) [0..<branch_factor ?c]"
    by (simp add: get_lock_unlock_kvblocks_def)
  have c2: "changes r1 r2 [(l, ?sz)]" and outs: "fst (rm_steps r1 (get_lock_unlock_kvblocks I l True)) = replicate (branch_factor ?c) NoOut"
    and l2: "leaf_at ?c r2 l = add_slots (branch_factor ?c) 1 (leaf_at ?c r1 l)"
    using faa by (simp_all add: r2_def ops)
  have "length (kv_blocks ?L) = branch_factor ?c" by (simp add: leaf_at_def)
  moreover have "map (\<lambda>b. b + 1) (kv_blocks ?L) = map (\<lambda>b. setLocked b True) (kv_blocks ?L)"
    using free(2) faa_lock by (simp add: list_ex_iff)
  ultimately have "leaf_at ?c r2 l = locked_leaf ?L" using l2 l1 by (simp add: add_slots_all locked_leaf_def)
  moreover have "changes r r2 [(l, ?sz)]" by (rule changes_same [OF c1 c2])
  moreover have "list_all (op_valid r1) (get_lock_unlock_kvblocks I l True @ [ReadOp l True (leaf_bytes I)])"
    using slot_valid [OF r1] r1(2) unat_sizes(1) [OF cfg] by (auto simp: get_lock_unlock_kvblocks_def list_all_iff)
  then have "run (mem_handler E) (bind (trylock_node l) (\<lambda>success. if \<not> success then Ret False
       else PerformBatch (get_lock_unlock_kvblocks I l True @ [ReadOp l True (leaf_bytes I)]) k)) (r, e) =
     run (mem_handler E) (k (True, replicate (branch_factor ?c) NoOut @ [ReadOut (rm_load r2 l ?sz)])) (r2, e)" for k
    using v8 rm_small_ok [OF r(1)] rm_small_ok [OF r1(1)] leaf_lock_load [OF r(2)] free(1) unat_sizes(1) [OF cfg]
    by (simp add: trylock_node_def rdma_try_acquire_lock_def assert_then_def mem_run r1_def [symmetric] rm_steps_append outs r2_def [symmetric])
  ultimately show ?thesis by blast
qed

subsection \<open>Reading the entries\<close>

text \<open>What \<^verbatim>\<open>split_leaf\<close> does once it has the sorted entries \<open>es\<close> of the locked leaf.\<close>

definition finish_split :: "FaunusIndex \<Rightarrow> GlobalAddress \<Rightarrow> LeafNode \<Rightarrow> (bytes \<times> KVBlock) list \<Rightarrow> bool fprog" where
  "finish_split I leaf_address leaf es =
     (let c = cfg I; bf = branch_factor c in
      if length es \<le> bf div 2
      then PerformBatch (get_lock_unlock_kvblocks I leaf_address False @ [get_release_node_op leaf_address])
             (\<lambda>(ok, outs). assert_then ok (Ret False))
      else Allocate (leaf_bytes I) (\<lambda>off.
        let new_leaf_address = GlobalAddress_raw off; new_leaf = LeafNode_init c;
            middle = length es div 2; middle_key = fst (es ! middle);
            (l, r) = distribute es (kv_blocks leaf) (kv_blocks new_leaf)
        in bind (clear_loop I middle (length es mod 2 = 0) [middle..<bf] l r) (\<lambda>(l, r).
          let new_leaf' = \<lparr>leaf_header = (leaf_header new_leaf)
                 \<lparr>fence_lo := middle_key, fence_hi := fence_hi (leaf_header leaf)\<rparr>, kv_blocks = r\<rparr>;
              leaf' = \<lparr>leaf_header = (leaf_header leaf)\<lparr>fence_hi := middle_key\<rparr>, kv_blocks = l\<rparr>
          in bind (rdma_write_batch [new_leaf_address, leaf_address] [enc_leaf c new_leaf', enc_leaf c leaf']) (\<lambda>ok.
            assert_then ok
            (bind (insert_internal_entry (levels I) I middle_key new_leaf_address 1) (\<lambda>success.
              assert_then success
              (Perform (get_release_node_op leaf_address) (\<lambda>(ok, out). assert_then ok (Ret True)))))))))"

definition locked_body :: "FaunusIndex \<Rightarrow> GlobalAddress \<Rightarrow> bool \<times> RDMAOut list \<Rightarrow> bool fprog" where
  "locked_body I leaf_address = (\<lambda>(ok, outs).
     let c = cfg I; bf = branch_factor c in
     assert_then ok (with_bytes (out_bytes (nth_out outs bf)) (\<lambda>bs.
       let leaf = dec_leaf c bs; taken = filter (\<lambda>i. \<not> isFree (kv_blocks leaf ! i)) [0..<bf] in
       assert_then (lock (leaf_header leaf) \<noteq> 0)
       (assert_then (list_all isLocked (kv_blocks leaf))
       (bind (rdma_read_batch (of_nat (KEY_SIZE c)) (map (\<lambda>i. getAddr (kv_blocks leaf ! i)) taken)) (\<lambda>(ok, bufs).
         assert_then ok
         (let keys = map (\<lambda>buf. case buf of Some k \<Rightarrow> k | None \<Rightarrow> ArrayVar_default (KEY_SIZE c)) bufs
          in finish_split I leaf_address leaf (leaf_entries (zip keys (map (\<lambda>i. kv_blocks leaf ! i) taken))))))))))"

lemma split_leaf_eq:
  "split_leaf I l = bind (trylock_node l) (\<lambda>success. if \<not> success then Ret False
     else PerformBatch (get_lock_unlock_kvblocks I l True @ [ReadOp l True (leaf_bytes I)]) (locked_body I l))"
  unfolding split_leaf_def locked_body_def finish_split_def Let_def ..

definition leaf_pairs :: "Config \<Rightarrow> rmemory \<Rightarrow> LeafNode \<Rightarrow> (bytes \<times> KVBlock) list" where
  "leaf_pairs c r l = map (\<lambda>b. (item_key (slot_item c r b), setLocked b True)) (taken_slots l)"

lemma key_load:
  assumes "rm_valid r g (sizeof_KVItem c)"
  shows "rm_load r g (KEY_SIZE c) = item_key (item_at c r g)" and "rm_valid r g (KEY_SIZE c)"
proof -
  show v: "rm_valid r g (KEY_SIZE c)" by (rule rm.valid_mono [OF assms]) (simp add: sizeof_KVItem_def)
  show "rm_load r g (KEY_SIZE c) = item_key (item_at c r g)"
    by (simp add: item_at_def dec_item_def) (simp add: rm_load_def bslice_bslice sizeof_KVItem_def)
qed

lemma taken_locked:
  assumes "length (kv_blocks l) = n"
  defines "bs \<equiv> kv_blocks (locked_leaf l)"
  defines "taken \<equiv> filter (\<lambda>i. \<not> isFree (bs ! i)) [0..<n]"
  shows "map (\<lambda>i. bs ! i) taken = map (\<lambda>b. setLocked b True) (taken_slots l)"
    and "map (\<lambda>i. getAddr (bs ! i)) taken = map getAddr (taken_slots l)"
proof -
  have n: "n = length bs" using assms(1) by (simp add: bs_def locked_leaf_def)
  have f: "filter (\<lambda>b. \<not> isFree b) bs = map (\<lambda>b. setLocked b True) (taken_slots l)"
    by (simp add: bs_def locked_leaf_def taken_slots_def filter_map comp_def)
  show "map (\<lambda>i. bs ! i) taken = map (\<lambda>b. setLocked b True) (taken_slots l)"
    unfolding taken_def n map_nth_filter [of "\<lambda>x. x" bs "\<lambda>b. \<not> isFree b", unfolded f] by simp
  show "map (\<lambda>i. getAddr (bs ! i)) taken = map getAddr (taken_slots l)"
    unfolding taken_def n map_nth_filter [of getAddr bs "\<lambda>b. \<not> isFree b", unfolded f] by simp
qed

lemma split_leaf_start:
  assumes cfg: "config_ok (cfg I)" and r: "rm_small r" "rm_valid r l (sizeof_LeafNode (cfg I))"
    and L: "leaf_at (cfg I) r l = L" "lock (leaf_header L) = 0" "leaf_ok (cfg I) r L"
    and items: "\<forall>b \<in> set (taken_slots L). apart l (sizeof_LeafNode (cfg I)) (getAddr b) (sizeof_KVItem (cfg I))"
  shows "\<exists>r2. leaf_at (cfg I) r2 l = locked_leaf L \<and> changes r r2 [(l, sizeof_LeafNode (cfg I))] \<and>
    run (mem_handler E) (split_leaf I l) (r, e) =
    run (mem_handler E) (finish_split I l (locked_leaf L) (leaf_entries (leaf_pairs (cfg I) r L))) (r2, e)"
proof -
  let ?c = "cfg I" and ?L2 = "locked_leaf L"
  have un: "\<not> list_ex isLocked (kv_blocks L)" using L(3) by (simp add: leaf_ok_def)
  obtain r2 where at: "leaf_at ?c r2 l = ?L2" and step: "changes r r2 [(l, sizeof_LeafNode ?c)]"
    and run: "\<And>k. run (mem_handler E) (bind (trylock_node l) (\<lambda>success. if \<not> success then Ret False
       else PerformBatch (get_lock_unlock_kvblocks I l True @ [ReadOp l True (leaf_bytes I)]) k)) (r, e) =
     run (mem_handler E) (k (True, replicate (branch_factor ?c) NoOut @ [ReadOut (rm_load r2 l (sizeof_LeafNode ?c))])) (r2, e)"
    using lock_leaf_run [OF cfg r, unfolded L(1), OF L(2) un, where E = E and e = e] by blast
  have len: "length (kv_blocks L) = branch_factor ?c" using L(1) by (auto simp: leaf_at_def)
  note taken = taken_locked [OF len]
  have key: "rm_load r2 (getAddr b) (KEY_SIZE ?c) = item_key (slot_item ?c r b)" "rm_valid r2 (getAddr b) (KEY_SIZE ?c)"
    if b: "b \<in> set (taken_slots L)" for b
  proof -
    have v: "rm_valid r (getAddr b) (sizeof_KVItem ?c)" using L(3) b by (simp add: leaf_ok_def)
    have "rm_load r2 (getAddr b) (sizeof_KVItem ?c) = rm_load r (getAddr b) (sizeof_KVItem ?c)"
      using changesD(3) [OF step v] items b by simp
    then show "rm_load r2 (getAddr b) (KEY_SIZE ?c) = item_key (slot_item ?c r b)" "rm_valid r2 (getAddr b) (KEY_SIZE ?c)"
      using key_load [of r2 "getAddr b" ?c] v changesD(1) [OF step] by (simp_all add: slot_item_def item_at_def)
  qed
  have batch: "run (mem_handler E) (rdma_read_batch (of_nat (KEY_SIZE ?c)) (map getAddr (taken_slots L))) (r2, e) =
      Inr ((True, map (\<lambda>b. Some (item_key (slot_item ?c r b))) (taken_slots L)), (r2, e))"
    using rm_small_ok [of r2] changesD(2) [OF step] r(1) key get_read_batch_valid [of r2 "of_nat (KEY_SIZE ?c)"] unat_sizes(4) [OF cfg]
    by (auto simp: rdma_read_batch_def mem_run)
  have lk: "lock (leaf_header ?L2) \<noteq> 0" "list_all isLocked (kv_blocks ?L2)" by (simp_all add: locked_leaf_def list_all_iff)
  have pairs: "zip (map (\<lambda>b. item_key (slot_item ?c r b)) (taken_slots L)) (map (\<lambda>b. setLocked b True) (taken_slots L)) = leaf_pairs ?c r L"
    by (simp add: leaf_pairs_def zip_map_map zip_same_conv_map)
  have "run (mem_handler E) (split_leaf I l) (r, e) = run (mem_handler E) (finish_split I l ?L2 (leaf_entries (leaf_pairs ?c r L))) (r2, e)"
    unfolding split_leaf_eq run using taken batch lk
    by (simp add: locked_body_def Let_def nth_out_def nth_append with_bytes_def leaf_at_def [symmetric] at assert_then_def run_bind comp_def pairs)
  then show ?thesis using at step by blast
qed

lemma leaf_entries_mset:
  assumes "\<forall>x \<in> set kbs. length (fst x) = K" and "distinct (map fst kbs)"
  shows "mset (leaf_entries kbs) = mset kbs" and "sorted_wrt (<) (map (be_val \<circ> fst) (leaf_entries kbs))"
proof -
  let ?es = "leaf_entries kbs"
  have s: "sorted_wrt (<) (map (be_val \<circ> fst) ?es)" "map_of ?es = map_of (rev kbs)"
    using leaf_entries_sorted [OF assms(1)] by (simp_all add: keys_sorted_def)
  show "sorted_wrt (<) (map (be_val \<circ> fst) ?es)" by (rule s(1))
  then have "distinct (map (be_val \<circ> fst) ?es)" by (simp add: strict_sorted_iff)
  then have d: "distinct (map fst ?es)" by (auto simp: distinct_map dest: inj_on_imageI2)
  have "set ?es = set (rev kbs)"
    by (rule map_of_inject_set [THEN iffD1, OF d _ s(2)]) (use assms(2) in \<open>simp add: rev_map [symmetric]\<close>)
  then show "mset ?es = mset kbs"
    using set_eq_iff_mset_eq_distinct [of ?es kbs] d assms(2) by (simp add: distinct_map)
qed

text \<open>The entries of a leaf that satisfies its invariant.\<close>

lemma split_entries_facts:
  assumes ok: "leaf_ok c r L" and es_def: "es = leaf_entries (leaf_pairs c r L)"
  shows "mset (map (\<lambda>x. setLocked (snd x) False) es) = mset (taken_slots L)"
    and "sorted_wrt (<) (map (be_val \<circ> fst) es)" and "length es = num_used L"
    and "\<And>x. x \<in> set es \<Longrightarrow> setLocked (snd x) False \<in> set (taken_slots L) \<and> fst x = item_key (slot_item c r (setLocked (snd x) False)) \<and>
      length (fst x) = KEY_SIZE c \<and> in_fence (fst x) (leaf_header L)"
proof -
  have un: "\<not> isLocked b" if "b \<in> set (taken_slots L)" for b
    using ok that by (auto simp: leaf_ok_def list_ex_iff taken_slots_def)
  have len: "length (item_key (slot_item c r b)) = KEY_SIZE c" if "b \<in> set (taken_slots L)" for b
    using ok that length_item_key_at [of r "getAddr b" c] by (simp add: leaf_ok_def slot_item_def)
  have keys: "map fst (leaf_pairs c r L) = map (\<lambda>b. item_key (slot_item c r b)) (taken_slots L)"
    by (simp add: leaf_pairs_def)
  have "\<forall>x \<in> set (leaf_pairs c r L). length (fst x) = KEY_SIZE c" using len by (auto simp: leaf_pairs_def)
  moreover have "distinct (map fst (leaf_pairs c r L))" using ok unfolding keys leaf_ok_def by simp
  ultimately have m: "mset es = mset (leaf_pairs c r L)" and s: "sorted_wrt (<) (map (be_val \<circ> fst) es)"
    unfolding es_def by (rule leaf_entries_mset)+
  show "sorted_wrt (<) (map (be_val \<circ> fst) es)" by (rule s)
  have "map (\<lambda>x. setLocked (snd x) False) (leaf_pairs c r L) = taken_slots L"
    using setLocked_undo un by (simp add: leaf_pairs_def comp_def map_idI)
  then show "mset (map (\<lambda>x. setLocked (snd x) False) es) = mset (taken_slots L)"
    using m by (metis mset_map)
  show "length es = num_used L" using mset_eq_length [OF m] by (simp add: leaf_pairs_def num_used_taken)
  fix x assume "x \<in> set es"
  then obtain b where b: "b \<in> set (taken_slots L)" "x = (item_key (slot_item c r b), setLocked b True)"
    using mset_eq_setD [OF m] by (auto simp: leaf_pairs_def)
  then show "setLocked (snd x) False \<in> set (taken_slots L) \<and> fst x = item_key (slot_item c r (setLocked (snd x) False)) \<and>
      length (fst x) = KEY_SIZE c \<and> in_fence (fst x) (leaf_header L)"
    using setLocked_undo [OF un [OF b(1)]] len [OF b(1)] ok by (simp add: leaf_ok_def)
qed

subsection \<open>Clearing the slots that are left over\<close>

definition blank :: "KVBlock \<Rightarrow> bool" where
  "blank b \<longleftrightarrow> isFree b \<and> \<not> isLocked b"

context page_source
begin

lemma clear_slot_run:
  assumes "can V e k xs"
  shows "\<exists>b' e1. run (mem_handler E) (clear_slot I b) (r, e) = Inr (b', (r, e1)) \<and> blank b' \<and> can V e1 k xs"
proof -
  obtain b' e1 where "run (mem_handler E) (setDifferentRandomFpAddr I b) (r, e) = Inr (b', (r, e1))" "can V e1 k xs"
    using scramble [OF assms] by blast
  then show ?thesis by (simp add: clear_slot_def run_bind blank_def)
qed

lemma clear_loop_run:
  assumes "can V e k xs" and "n \<le> length left" and "n \<le> length right"
  shows "\<exists>l' r' e1. run (mem_handler E) (clear_loop I m ev [a..<n] left right) (r, e) = Inr ((l', r'), (r, e1)) \<and> can V e1 k xs \<and>
    length l' = length left \<and> length r' = length right \<and>
    (\<forall>i < length left. if a \<le> i \<and> i < n then blank (l' ! i) else l' ! i = left ! i) \<and>
    (\<forall>i < length right. if a \<le> i \<and> i < n \<and> (m < i \<or> ev) then blank (r' ! i) else r' ! i = right ! i)"
  using assms
proof (induction "n - a" arbitrary: a left right e)
  case 0
  then show ?case by auto
next
  case (Suc j)
  then have a: "a < n" "[a..<n] = a # [Suc a..<n]" "j = n - Suc a" by (simp_all add: upt_conv_Cons)
  obtain b e1 where b: "run (mem_handler E) (clear_slot I (left ! a)) (r, e) = Inr (b, (r, e1))" "blank b" "can V e1 k xs"
    using clear_slot_run [OF Suc.prems(1)] by blast
  have above: "a \<le> i \<longleftrightarrow> Suc a \<le> i" if "i \<noteq> a" for i using that by auto
  have left: "\<forall>i < length left. if a \<le> i \<and> i < n then blank (l' ! i) else l' ! i = left ! i"
    if "\<forall>i < length (left[a := b]). if Suc a \<le> i \<and> i < n then blank (l' ! i) else l' ! i = left[a := b] ! i" for l'
  proof (intro allI impI)
    fix i assume "i < length left"
    then show "if a \<le> i \<and> i < n then blank (l' ! i) else l' ! i = left ! i"
      using that [rule_format, of i] b(2) a(1) by (cases "i = a") (auto simp: above)
  qed
  show ?case
  proof (cases "m < a \<or> ev")
    case True
    obtain b' e2 where b': "run (mem_handler E) (clear_slot I (right ! a)) (r, e1) = Inr (b', (r, e2))" "blank b'" "can V e2 k xs"
      using clear_slot_run [OF b(3)] by blast
    obtain l' r' e3 where IH: "run (mem_handler E) (clear_loop I m ev [Suc a..<n] (left[a := b]) (right[a := b'])) (r, e2) = Inr ((l', r'), (r, e3))"
        "can V e3 k xs" "length l' = length left" "length r' = length right"
        "\<forall>i < length (left[a := b]). if Suc a \<le> i \<and> i < n then blank (l' ! i) else l' ! i = left[a := b] ! i"
        "\<forall>i < length (right[a := b']). if Suc a \<le> i \<and> i < n \<and> (m < i \<or> ev) then blank (r' ! i) else r' ! i = right[a := b'] ! i"
      using Suc.hyps(1) [OF a(3) b'(3), of "left[a := b]" "right[a := b']", unfolded length_list_update, OF Suc.prems(2,3)]
      unfolding length_list_update by blast
    have "if a \<le> i \<and> i < n \<and> (m < i \<or> ev) then blank (r' ! i) else r' ! i = right ! i" if "i < length right" for i
      using IH(6) [rule_format, of i] that b'(2) a(1) True by (cases "i = a") (auto simp: above)
    then show ?thesis
      using IH(1-4) left [OF IH(5)] b(1) b'(1) a(2) True by (intro exI [of _ l'] exI [of _ r'] exI [of _ e3]) (simp add: run_bind)
  next
    case False
    obtain l' r' e3 where IH: "run (mem_handler E) (clear_loop I m ev [Suc a..<n] (left[a := b]) right) (r, e1) = Inr ((l', r'), (r, e3))"
        "can V e3 k xs" "length l' = length left" "length r' = length right"
        "\<forall>i < length (left[a := b]). if Suc a \<le> i \<and> i < n then blank (l' ! i) else l' ! i = left[a := b] ! i"
        "\<forall>i < length right. if Suc a \<le> i \<and> i < n \<and> (m < i \<or> ev) then blank (r' ! i) else r' ! i = right ! i"
      using Suc.hyps(1) [OF a(3) b(3), of "left[a := b]" right, unfolded length_list_update, OF Suc.prems(2,3)]
      unfolding length_list_update by blast
    have "if a \<le> i \<and> i < n \<and> (m < i \<or> ev) then blank (r' ! i) else r' ! i = right ! i" if "i < length right" for i
      using IH(6) [rule_format, of i] that False by (cases "i = a") (auto simp: above)
    then show ?thesis
      using IH(1-4) left [OF IH(5)] b(1) a(2) False by (intro exI [of _ l'] exI [of _ r'] exI [of _ e3]) (simp add: run_bind)
  qed
qed

end

lemma half_slots:
  assumes "length A \<le> length xs" and "\<forall>i < length A. xs ! i = A ! i" and "\<forall>i. length A \<le> i \<and> i < length xs \<longrightarrow> blank (xs ! i)"
    and "\<forall>a \<in> set A. \<not> isFree a \<and> \<not> isLocked a"
  shows "filter (\<lambda>b. \<not> isFree b) xs = A" and "\<not> list_ex isLocked xs"
proof -
  have "take (length A) xs = A" using assms(1,2) by (intro nth_equalityI) simp_all
  then have xs: "xs = A @ drop (length A) xs" by (metis append_take_drop_id)
  have blank: "\<forall>b \<in> set (drop (length A) xs). blank b"
  proof
    fix b assume "b \<in> set (drop (length A) xs)"
    then obtain i where "i < length (drop (length A) xs)" "b = drop (length A) xs ! i" by (metis in_set_conv_nth)
    then show "blank b" using assms(1,3) by simp
  qed
  have "filter (\<lambda>b. \<not> isFree b) A = A" using assms(4) by simp
  moreover have "filter (\<lambda>b. \<not> isFree b) (drop (length A) xs) = []" using blank by (simp add: blank_def)
  ultimately show "filter (\<lambda>b. \<not> isFree b) xs = A" by (subst xs) simp
  show "\<not> list_ex isLocked xs" using assms(4) blank by (subst xs) (auto simp: list_ex_iff blank_def)
qed

context page_source
begin

lemma split_slots_run:
  assumes can: "can V e k xs" and ok: "leaf_ok c r L" and len: "length (kv_blocks L) = n" "length right = n" "\<forall>b \<in> set right. blank b"
    and es_def: "es = leaf_entries (leaf_pairs c r L)" and m_def: "m = length es div 2"
    and d: "distribute es (kv_blocks (locked_leaf L)) right = (dl, dr)"
  shows "\<exists>l' r' e1. run (mem_handler E) (clear_loop I m (length es mod 2 = 0) [m..<n] dl dr) (rr, e) = Inr ((l', r'), (rr, e1)) \<and> can V e1 k xs \<and>
    length l' = n \<and> length r' = n \<and>
    filter (\<lambda>b. \<not> isFree b) l' = map (\<lambda>x. setLocked (snd x) False) (take m es) \<and> \<not> list_ex isLocked l' \<and>
    filter (\<lambda>b. \<not> isFree b) r' = map (\<lambda>x. setLocked (snd x) False) (drop m es) \<and> \<not> list_ex isLocked r'"
proof -
  let ?u = "\<lambda>x. setLocked (snd x) False" and ?A = "map (\<lambda>x. setLocked (snd x) False) (take m es)" and ?B = "map (\<lambda>x. setLocked (snd x) False) (drop m es)"
  note facts = split_entries_facts [OF ok es_def]
  have "num_used L \<le> n" using len(1) by (simp add: num_used_def) (metis length_filter_le)
  then have le: "length es \<le> n" using facts(3) by simp
  have ll: "length (kv_blocks (locked_leaf L)) = n" using len(1) by (simp add: locked_leaf_def)
  have dl: "dl = ?A @ drop m (kv_blocks (locked_leaf L))" and dr: "dr = ?B @ drop (length es - m) right"
    using distribute_eq [of es "kv_blocks (locked_leaf L)" right] le ll len(2) d by (simp_all add: m_def)
  have m: "m \<le> length es" "length es - m \<le> n" using le by (simp_all add: m_def)
  have lens: "length dl = n" "length dr = n" using ll len(2) m le by (simp_all add: dl dr)
  obtain l' r' e1 where run: "run (mem_handler E) (clear_loop I m (length es mod 2 = 0) [m..<n] dl dr) (rr, e) = Inr ((l', r'), (rr, e1))" "can V e1 k xs"
      "length l' = n" "length r' = n" and left: "\<forall>i < n. if m \<le> i \<and> i < n then blank (l' ! i) else l' ! i = dl ! i"
      and right: "\<forall>i < n. if m \<le> i \<and> i < n \<and> (m < i \<or> length es mod 2 = 0) then blank (r' ! i) else r' ! i = dr ! i"
    using clear_loop_run [OF can, of n dl dr m "length es mod 2 = 0" m rr] unfolding lens by blast
  have taken: "\<not> isFree (?u x) \<and> \<not> isLocked (?u x)" if "x \<in> set es" for x
    using facts(4) [OF that] by (simp add: taken_slots_def)
  have A: "length ?A \<le> length l'" "\<forall>i < length ?A. l' ! i = ?A ! i" "\<forall>i. length ?A \<le> i \<and> i < length l' \<longrightarrow> blank (l' ! i)"
      "\<forall>a \<in> set ?A. \<not> isFree a \<and> \<not> isLocked a"
    using left m le run(3) taken by (auto simp: dl nth_append dest: in_set_takeD)
  have t: "length es - m = (if length es mod 2 = 0 then m else Suc m)" unfolding m_def by presburger
  have same: "r' ! i = ?B ! i" if "i < length es - m" for i
    using right [rule_format, of i] that t m by (auto simp: dr nth_append split: if_splits)
  have rest: "blank (r' ! i)" if "length es - m \<le> i" "i < n" for i
    using right [rule_format, of i] that t by (auto split: if_splits)
  have B: "length ?B \<le> length r'" "\<forall>i < length ?B. r' ! i = ?B ! i" "\<forall>i. length ?B \<le> i \<and> i < length r' \<longrightarrow> blank (r' ! i)"
      "\<forall>a \<in> set ?B. \<not> isFree a \<and> \<not> isLocked a"
    using same rest m run(4) taken by (auto dest: in_set_dropD)
  show ?thesis using run half_slots [OF A] half_slots [OF B] by blast
qed

end

subsection \<open>The two halves of a leaf\<close>

lemma leaf_map_Some_iff:
  assumes "distinct (map (\<lambda>b. item_key (slot_item c r b)) (taken_slots l))"
  shows "leaf_map c r l k = Some v \<longleftrightarrow> (\<exists>b \<in> set (taken_slots l). item_key (slot_item c r b) = k \<and> item_value (slot_item c r b) = v)"
proof -
  have "distinct (map fst (map (\<lambda>b. item_pair (slot_item c r b)) (taken_slots l)))"
    using assms by (simp add: comp_def item_pair_def)
  from map_of_eq_Some_iff [OF this] show ?thesis by (auto simp: leaf_map_def item_pair_def)
qed

lemma leaf_map_cong:
  assumes "leaf_ok c r l" and "leaf_ok c r l'"
    and "\<And>b. item_key (slot_item c r b) = k \<Longrightarrow> b \<in> set (taken_slots l') \<longleftrightarrow> b \<in> set (taken_slots l)"
  shows "leaf_map c r l' k = leaf_map c r l k"
proof -
  have "leaf_map c r l' k = Some v \<longleftrightarrow> leaf_map c r l k = Some v" for v
    using leaf_map_Some_iff [of c r l k v] leaf_map_Some_iff [of c r l' k v] assms by (auto simp: leaf_ok_def)
  then show ?thesis by (metis option.exhaust)
qed

lemma in_fence_val:
  assumes "length k = n" and "length (fence_lo h) = n" and "length (fence_hi h) = n"
  shows "in_fence k h \<longleftrightarrow> be_val (fence_lo h) \<le> be_val k \<and> be_val k < be_val (fence_hi h)"
  using assms by (auto simp: in_fence_def key_lt_iff key_ge_iff)

lemma leaf_halves:
  fixes lh rh
  assumes ok: "leaf_ok c r L" and wf: "header_wf c (leaf_header L)"
    and es_def: "es = leaf_entries (leaf_pairs c r L)" and m_def: "m = length es div 2" and two: "2 \<le> length es" and mk_def: "mk = fst (es ! m)"
    and taken: "taken_slots lh = map (\<lambda>x. setLocked (snd x) False) (take m es)" "taken_slots rh = map (\<lambda>x. setLocked (snd x) False) (drop m es)"
    and un: "\<not> list_ex isLocked (kv_blocks lh)" "\<not> list_ex isLocked (kv_blocks rh)"
    and h: "fence_lo (leaf_header lh) = fence_lo (leaf_header L)" "fence_hi (leaf_header lh) = mk"
      "fence_lo (leaf_header rh) = mk" "fence_hi (leaf_header rh) = fence_hi (leaf_header L)"
  shows "leaf_ok c r lh" and "leaf_ok c r rh" and "length mk = KEY_SIZE c"
    and "be_val (fence_lo (leaf_header L)) < be_val mk" and "be_val mk < be_val (fence_hi (leaf_header L))"
    and "\<not> (be_val mk \<le> be_val k \<and> be_val k < be_val (fence_hi (leaf_header L))) \<Longrightarrow> leaf_map c r lh k = leaf_map c r L k"
    and "be_val mk \<le> be_val k \<Longrightarrow> leaf_map c r rh k = leaf_map c r L k"
    and "mset (leaf_items c lh) + mset (leaf_items c rh) = mset (leaf_items c L)"
proof -
  let ?u = "\<lambda>x. setLocked (snd x) False"
  note facts = split_entries_facts [OF ok es_def]
  have fl: "length (fence_lo (leaf_header L)) = KEY_SIZE c" "length (fence_hi (leaf_header L)) = KEY_SIZE c"
    using wf by (simp_all add: header_wf_def)
  have m: "m < length es" "0 < m" using two by (simp_all add: m_def)
  have key: "fst x = item_key (slot_item c r (?u x))" "length (fst x) = KEY_SIZE c"
      "be_val (fence_lo (leaf_header L)) \<le> be_val (fst x)" "be_val (fst x) < be_val (fence_hi (leaf_header L))" if "x \<in> set es" for x
    using facts(4) [OF that] in_fence_val [OF _ fl, of "fst x"] by metis+
  have mem: "es ! m \<in> set es" "es ! 0 \<in> set es" using m by (auto intro: nth_mem)
  have less: "be_val (fst (es ! i)) < be_val (fst (es ! j))" if "i < j" "j < length es" for i j
    using sorted_wrt_nth_less [OF facts(2), of i j] that by simp
  show mkl: "length mk = KEY_SIZE c" and hi: "be_val mk < be_val (fence_hi (leaf_header L))"
    using key(2,4) [OF mem(1)] by (simp_all add: mk_def)
  show lo: "be_val (fence_lo (leaf_header L)) < be_val mk"
    using key(3) [OF mem(2)] less [of 0 m] m by (simp add: mk_def)
  have below: "be_val (fst x) < be_val mk" if "x \<in> set (take m es)" for x
    using that m less by (auto simp: in_set_conv_nth mk_def)
  have above: "be_val mk \<le> be_val (fst x)" if x: "x \<in> set (drop m es)" for x
  proof -
    obtain j where "j < length (drop m es)" "x = drop m es ! j" using x by (metis in_set_conv_nth)
    then have "m + j < length es" "x = es ! (m + j)" by simp_all
    then show ?thesis using less [of m "m + j"] by (cases "j = 0") (auto simp: mk_def)
  qed
  have perm: "mset (taken_slots lh) + mset (taken_slots rh) = mset (taken_slots L)"
  proof -
    have "mset es = mset (take m es) + mset (drop m es)" by (metis append_take_drop_id mset_append)
    then show ?thesis using facts(1) by (simp add: taken)
  qed
  have split: "set (taken_slots L) = set (taken_slots lh) \<union> set (taken_slots rh)"
    using arg_cong [OF perm, of set_mset] by simp
  have "mset (map (\<lambda>b. item_key (slot_item c r b)) (taken_slots lh @ taken_slots rh)) = mset (map (\<lambda>b. item_key (slot_item c r b)) (taken_slots L))"
    using arg_cong [OF perm, of "image_mset (\<lambda>b. item_key (slot_item c r b))"] by simp
  then have "distinct (map (\<lambda>b. item_key (slot_item c r b)) (taken_slots lh @ taken_slots rh))"
    using ok mset_eq_imp_distinct_iff unfolding leaf_ok_def by blast
  then have dist: "distinct (map (\<lambda>b. item_key (slot_item c r b)) (taken_slots lh))" "distinct (map (\<lambda>b. item_key (slot_item c r b)) (taken_slots rh))"
    by simp_all
  have lkey: "be_val (fence_lo (leaf_header L)) \<le> be_val (item_key (slot_item c r b)) \<and> be_val (item_key (slot_item c r b)) < be_val mk \<and>
      length (item_key (slot_item c r b)) = KEY_SIZE c" if b: "b \<in> set (taken_slots lh)" for b
  proof -
    obtain x where x: "x \<in> set (take m es)" "b = ?u x" using b unfolding taken by auto
    then show ?thesis using key [OF in_set_takeD [OF x(1)]] below [OF x(1)] by metis
  qed
  have rkey: "be_val mk \<le> be_val (item_key (slot_item c r b)) \<and> be_val (item_key (slot_item c r b)) < be_val (fence_hi (leaf_header L)) \<and>
      length (item_key (slot_item c r b)) = KEY_SIZE c" if b: "b \<in> set (taken_slots rh)" for b
  proof -
    obtain x where x: "x \<in> set (drop m es)" "b = ?u x" using b unfolding taken by auto
    then show ?thesis using key [OF in_set_dropD [OF x(1)]] above [OF x(1)] by metis
  qed
  show lok: "leaf_ok c r lh"
    using ok un(1) dist split lkey in_fence_val [of _ "KEY_SIZE c" "leaf_header lh"] fl mkl h by (auto simp: leaf_ok_def)
  show rok: "leaf_ok c r rh"
    using ok un(2) dist split rkey in_fence_val [of _ "KEY_SIZE c" "leaf_header rh"] fl mkl h by (auto simp: leaf_ok_def)
  show "leaf_map c r lh k = leaf_map c r L k" if "\<not> (be_val mk \<le> be_val k \<and> be_val k < be_val (fence_hi (leaf_header L)))"
    by (rule leaf_map_cong [OF ok lok]) (use that split rkey in auto)
  show "leaf_map c r rh k = leaf_map c r L k" if "be_val mk \<le> be_val k"
    by (rule leaf_map_cong [OF ok rok]) (use that split lkey in fastforce)
  show "mset (leaf_items c lh) + mset (leaf_items c rh) = mset (leaf_items c L)"
    using arg_cong [OF perm, of "image_mset (\<lambda>b. (getAddr b, sizeof_KVItem c))"] by (simp add: leaf_items_def)
qed

subsection \<open>From a tree to a pending tree\<close>

lemma tree_inv_view:
  "tree_inv I r n \<longleftrightarrow> config_ok (cfg I) \<and> rm_small r \<and> n < fuel I \<and> rm_valid r (root_offset_pointer I) 8 \<and>
     rm_valid r (root_at I r) (sizeof_InternalNode (cfg I)) \<and> rm_load64 r (root_offset_pointer I) = uintptr (root_at I r) \<and>
     tree (f_view (cfg I) r {}) (root_at I r) n (ArrayVar_min (KEY_SIZE (cfg I))) (ArrayVar_max (KEY_SIZE (cfg I))) \<and>
     regions_apart (footprint I r n) \<and> (\<forall>l \<in> set (leaves (cfg I) r n (root_at I r)). leaf_ok (cfg I) r (leaf_at (cfg I) r l))"
  using subtree_view [of "cfg I" r "root_at I r" n] view_subtree [of "cfg I" r "root_at I r" n] rm_small_ok [of r]
  by (auto simp: tree_inv_def tree_ok_def)

lemma tree_regions:
  assumes "tree_inv I r n"
  shows "distinct (inner_nodes (cfg I) r n (root_at I r))" and "distinct (leaves (cfg I) r n (root_at I r))"
    and "\<And>h l. h \<in> set (inner_nodes (cfg I) r n (root_at I r)) \<Longrightarrow> l \<in> set (leaves (cfg I) r n (root_at I r)) \<Longrightarrow>
      apart l (sizeof_LeafNode (cfg I)) h (sizeof_InternalNode (cfg I)) \<and> h \<noteq> l"
    and "\<And>h l. h \<in> set (leaves (cfg I) r n (root_at I r)) \<Longrightarrow> l \<in> set (leaves (cfg I) r n (root_at I r)) \<Longrightarrow> h \<noteq> l \<Longrightarrow>
      apart l (sizeof_LeafNode (cfg I)) h (sizeof_LeafNode (cfg I))"
    and "\<And>l y. l \<in> set (leaves (cfg I) r n (root_at I r)) \<Longrightarrow> y \<in> set (item_regions I r n) \<Longrightarrow> apart l (sizeof_LeafNode (cfg I)) (fst y) (snd y)"
    and "\<And>l. l \<in> set (leaves (cfg I) r n (root_at I r)) \<Longrightarrow> apart l (sizeof_LeafNode (cfg I)) (root_offset_pointer I) 8"
proof -
  let ?in = "inner_nodes (cfg I) r n (root_at I r)" and ?ls = "leaves (cfg I) r n (root_at I r)"
  let ?i = "map (\<lambda>g. (g, sizeof_InternalNode (cfg I))) ?in" and ?l = "map (\<lambda>g. (g, sizeof_LeafNode (cfg I))) ?ls"
  have all: "regions_apart ((root_offset_pointer I, 8) # ?i @ ?l @ item_regions I r n)" and cfg: "config_ok (cfg I)"
    using assms by (simp_all add: tree_inv_view footprint_def node_regions_def)
  note sz = config_sizes(4,5) [OF cfg]
  have i: "regions_apart ?i" and l: "regions_apart ?l" using all by (simp_all add: regions_apart_append)
  show "distinct ?in" using regions_apart_distinct [OF i] sz by (auto simp: distinct_map)
  show "distinct ?ls" using regions_apart_distinct [OF l] sz by (auto simp: distinct_map)
  show "apart l (sizeof_LeafNode (cfg I)) h (sizeof_InternalNode (cfg I)) \<and> h \<noteq> l" if "h \<in> set ?in" "l \<in> set ?ls" for h l
  proof -
    have "\<forall>y \<in> set ?i. \<forall>z \<in> set ?l. apart (fst y) (snd y) (fst z) (snd z)" using all by (simp add: regions_apart_append ball_Un)
    then have a: "apart h (sizeof_InternalNode (cfg I)) l (sizeof_LeafNode (cfg I))" using that by simp
    then show ?thesis using apart_refl [of h "sizeof_InternalNode (cfg I)" "sizeof_LeafNode (cfg I)"] sz by (auto simp: apart_commute)
  qed
  show "apart l (sizeof_LeafNode (cfg I)) h (sizeof_LeafNode (cfg I))" if "h \<in> set ?ls" "l \<in> set ?ls" "h \<noteq> l" for h l
    using regions_apart_pick [OF l, of "(l, sizeof_LeafNode (cfg I))" "(h, sizeof_LeafNode (cfg I))"] that by auto
  show "apart l (sizeof_LeafNode (cfg I)) (fst y) (snd y)" if "l \<in> set ?ls" "y \<in> set (item_regions I r n)" for l y
  proof -
    have "\<forall>y \<in> set ?l. \<forall>z \<in> set (item_regions I r n). apart (fst y) (snd y) (fst z) (snd z)" using all by (simp add: regions_apart_append)
    then show ?thesis using that by simp
  qed
  show "apart l (sizeof_LeafNode (cfg I)) (root_offset_pointer I) 8" if "l \<in> set ?ls" for l
    using all that by (simp add: ball_Un apart_commute)
qed

lemma leaf_store_at:
  assumes "rm_valid r g (sizeof_LeafNode c)" and "leaf_wf c l"
  defines "r' \<equiv> rm_store r g (enc_leaf c l)"
  shows "leaf_at c r' g = l" and "changes r r' [(g, sizeof_LeafNode c)]" and "rm_valid r g (length (enc_leaf c l))"
  using leaf_at_store [OF assms(1,2)] changes_store [of r g "enc_leaf c l"] length_enc_leaf [OF assms(2)] assms(1)
  by (simp_all add: r'_def)

text \<open>
  The leaf \<open>l\<close> and the new leaf \<open>q\<close> are written: the tree of height \<open>n\<close> is pending, with \<open>l\<close> locked.
\<close>

lemma split_pending:
  assumes inv: "tree_inv I r n" and l: "l \<in> set (leaves (cfg I) r n (root_at I r))"
    and idx: "3 \<le> branch_factor (cfg I)" "\<not> has_cache I" "Suc n < fuel I" "Suc n < 2 ^ 64"
    and q: "rm_valid r q (sizeof_LeafNode (cfg I))" "\<forall>y \<in> set (footprint I r n). apart q (sizeof_LeafNode (cfg I)) (fst y) (snd y)"
    and step: "changes r r3 [(q, sizeof_LeafNode (cfg I)), (l, sizeof_LeafNode (cfg I))]"
    and at: "leaf_at (cfg I) r3 l = lh" "leaf_at (cfg I) r3 q = rh"
    and lh: "lock (leaf_header lh) = 1" "level (leaf_header lh) = 0" "fence_lo (leaf_header lh) = fence_lo (leaf_header (leaf_at (cfg I) r l))"
      "fence_hi (leaf_header lh) = mk"
    and rh: "lock (leaf_header rh) = 0" "level (leaf_header rh) = 0" "fence_lo (leaf_header rh) = mk"
      "fence_hi (leaf_header rh) = fence_hi (leaf_header (leaf_at (cfg I) r l))"
    and mk: "length mk = KEY_SIZE (cfg I)" "be_val (fence_lo (leaf_header (leaf_at (cfg I) r l))) < be_val mk"
      "be_val mk < be_val (fence_hi (leaf_header (leaf_at (cfg I) r l)))"
  shows "growing I r3 {l} mk l q 0 n (item_regions I r n)"
    and "inner_nodes (cfg I) r3 n (root_at I r3) = inner_nodes (cfg I) r n (root_at I r)"
    and "leaves (cfg I) r3 n (root_at I r3) = leaves (cfg I) r n (root_at I r)"
    and "leaf_for (cfg I) r3 n (root_at I r3) k = leaf_for (cfg I) r n (root_at I r) k"
    and "mset (grow_regions I r3 0 q n (item_regions I r n)) = mset ((q, sizeof_LeafNode (cfg I)) # footprint I r n)"
    and "q \<notin> set (leaves (cfg I) r n (root_at I r))" and "root_at I r3 = root_at I r"
proof -
  let ?c = "cfg I" and ?V = "f_view (cfg I) r {}" and ?V3 = "f_view (cfg I) r3 {l}" and ?g = "root_at I r" and ?sz = "sizeof_LeafNode (cfg I)"
  let ?lo = "ArrayVar_min (KEY_SIZE (cfg I))" and ?hi = "ArrayVar_max (KEY_SIZE (cfg I))"
  have s: "config_ok ?c" "rm_small r" "rm_valid r (root_offset_pointer I) 8" "rm_valid r ?g (sizeof_InternalNode ?c)"
      "rm_load64 r (root_offset_pointer I) = uintptr ?g" "tree ?V ?g n ?lo ?hi" "regions_apart (footprint I r n)"
    using inv by (simp_all add: tree_inv_view)
  note reg = tree_regions [OF inv]
  have valid: "rm_valid r3 g k = rm_valid r g k" for g k by (rule changesD(1) [OF step])
  have qa: "apart q ?sz (root_offset_pointer I) 8" "\<forall>h \<in> set (inner_nodes ?c r n ?g). apart q ?sz h (sizeof_InternalNode ?c)"
      "\<forall>h \<in> set (leaves ?c r n ?g). apart q ?sz h ?sz" "\<forall>y \<in> set (item_regions I r n). apart q ?sz (fst y) (snd y)"
    using q(2) by (simp_all add: footprint_def node_regions_def ball_Un)
  note pages = tree_pages [OF s(6), unfolded f_view_lists]
  have ptr: "rm_load64 r3 (root_offset_pointer I) = rm_load64 r (root_offset_pointer I)"
    using changesD(3) [OF step s(3)] qa(1) reg(6) [OF l] by (simp add: rm_load64_def)
  then show root: "root_at I r3 = ?g" by (simp add: root_at_def)
  have inner: "agree_inner ?V ?V3 h" if h: "h \<in> set (inner_nodes ?c r n ?g)" for h
  proof (rule f_agree_inner)
    have "rm_valid r h (sizeof_InternalNode ?c)" using pages h by auto
    then show "rm_load r3 h (sizeof_InternalNode ?c) = rm_load r h (sizeof_InternalNode ?c)"
      using changesD(3) [OF step] qa(2) reg(3) [OF h l] h by auto
  qed (use reg(3) [OF h l] valid in auto)
  have other: "rm_load r3 h ?sz = rm_load r h ?sz" if h: "h \<in> set (leaves ?c r n ?g)" "h \<noteq> l" for h
    using changesD(3) [OF step, of h ?sz] pages qa(3) reg(4) [OF h(1) l h(2)] h(1) by auto
  have leaf: "agree_leaf ?V ?V3 h" if h: "h \<in> set (leaves ?c r n ?g)" "h \<noteq> l" for h
    by (rule f_agree_leaf) (use other [OF h] valid h(2) in auto)
  have "\<forall>h \<in> set (tree_inner ?V n ?g). agree_inner ?V ?V3 h" using inner by (simp add: f_view_lists)
  from tree_agree_shape [OF s(6) this]
  show shape: "inner_nodes ?c r3 n (root_at I r3) = inner_nodes ?c r n ?g" "leaves ?c r3 n (root_at I r3) = leaves ?c r n ?g"
    "leaf_for ?c r3 n (root_at I r3) k = leaf_for ?c r n ?g k" for k
    unfolding f_view_lists root by blast+
  show qn: "q \<notin> set (leaves ?c r n ?g)" using qa(3) apart_refl [of q ?sz ?sz] config_sizes(4) [OF s(1)] by auto
  have around: "agree_around ?V ?V3 0 l n ?g"
    using reg(1,2) inner leaf by (simp add: agree_around_def f_view_lists)
  have hi: "tv_hi ?V3 q = fence_hi (leaf_header (leaf_at ?c r l))" using at(2) rh(4) by (simp add: node_header_of_leaf)
  have "ctx ?V mk l 0 (tv_lo ?V l) (tv_hi ?V l) ?g n ?lo ?hi"
    by (rule tree_ctx_leaf [OF s(6) f_view_fenced]) (use l mk in \<open>simp_all add: f_view_lists node_header_of_leaf\<close>)
  from ctx_agree [OF this around] have hole: "ctx ?V3 mk l 0 (fence_lo (leaf_header (leaf_at ?c r l))) (tv_hi ?V3 q) ?g n ?lo ?hi"
    unfolding hi by (simp add: node_header_of_leaf)
  have vl: "rm_valid r3 l ?sz" using pages l valid by auto
  have "q \<noteq> l" using qn l by auto
  then have tl: "tree ?V3 l 0 (fence_lo (leaf_header (leaf_at ?c r l))) mk" and tq: "tree ?V3 q 0 mk (tv_hi ?V3 q)"
    using tree.leaf [of ?V3 l] tree.leaf [of ?V3 q] vl valid q(1) at lh rh by (simp_all add: node_header_of_leaf)
  have pend: "pending ?V3 mk l q 0 (root_at I r3) n ?lo ?hi"
    unfolding pending_def root using hole tl tq mk(2,3) hi by auto
  show regs: "mset (grow_regions I r3 0 q n (item_regions I r n)) = mset ((q, ?sz) # footprint I r n)"
    by (simp add: grow_regions_def all_inner_def all_leaves_def shape footprint_def node_regions_def)
  have "regions_apart (grow_regions I r3 0 q n (item_regions I r n))"
    unfolding regions_apart_mset [OF regs] using s(7) q(2) by simp
  moreover have "locked_below ?c r3 {l} (Suc 0)" using at(1) lh(2) by (simp add: locked_below_def node_header_of_leaf)
  moreover have "l \<in> set (all_leaves I r3 0 q n)" using l by (simp add: all_leaves_def shape)
  moreover have "\<forall>y \<in> set (item_regions I r n). rm_valid r3 (fst y) (snd y)"
    using footprint_valid [OF inv] valid by (simp add: footprint_def)
  ultimately show "growing I r3 {l} mk l q 0 n (item_regions I r n)"
    using s pend idx mk(1) valid changesD(2) [OF step] ptr root by (simp add: growing_def)
qed

subsection \<open>From the grown tree back to the invariant\<close>

text \<open>The lock of the leaf is released: the tree that has grown is a tree without locks.\<close>

lemma split_release:
  assumes g: "growing I r K key x ch m n X" and K: "K = {l}" and l: "l \<in> set (all_leaves I r m ch n)" "lock (leaf_header (leaf_at (cfg I) r l)) = 1"
    and grown: "grown I r K key ch m n X r4 n' new" and r5_def: "r5 = rm_store r4 l (bytes_of_u64 (rm_load64 r4 l - 1))"
  shows "settles (f_view (cfg I) r K) key ch m (root_at I r) n (ArrayVar_min (KEY_SIZE (cfg I))) (ArrayVar_max (KEY_SIZE (cfg I)))
      (f_view (cfg I) r5 {}) (root_at I r5) n' new"
    and "rm_small r4" and "rm_valid r4 l 8" and "rm_small r5" and "\<And>g k. rm_valid r5 g k = rm_valid r g k"
    and "rm_load64 r5 (root_offset_pointer I) = uintptr (root_at I r5)" and "rm_valid r (root_at I r5) (sizeof_InternalNode (cfg I))"
    and "leaf_at (cfg I) r5 l = (leaf_at (cfg I) r l)\<lparr>leaf_header := (leaf_header (leaf_at (cfg I) r l))\<lparr>lock := 0\<rparr>\<rparr>"
    and "\<And>h. h \<in> set (all_leaves I r m ch n) \<Longrightarrow> h \<noteq> l \<Longrightarrow> leaf_at (cfg I) r5 h = leaf_at (cfg I) r h"
    and "\<And>y. y \<in> set X \<Longrightarrow> rm_load r5 (fst y) (snd y) = rm_load r (fst y) (snd y)"
proof -
  let ?c = "cfg I" and ?sz = "sizeof_LeafNode (cfg I)" and ?isz = "sizeof_InternalNode (cfg I)" and ?p = "root_offset_pointer I"
  let ?V4 = "f_view (cfg I) r4 K" and ?V5 = "f_view (cfg I) r5 {}"
  have s: "rm_small r4" "\<And>g k. rm_valid r4 g k = rm_valid r g k" "rm_load64 r4 ?p = uintptr (root_at I r4)" "rm_valid r (root_at I r4) ?isz"
      "regions_apart (map (\<lambda>g. (g, ?isz)) new @ grow_regions I r m ch n X)"
      "\<forall>y \<in> set (map (\<lambda>g. (g, ?sz)) (all_leaves I r m ch n)) \<union> set X. rm_load r4 (fst y) (snd y) = rm_load r (fst y) (snd y)"
    using grown by (simp_all add: grown_def)
  note pages = grown_pages [OF grown] and ga = growing_apart [OF g]
  have cfg: "config_ok ?c" and vX: "\<forall>y \<in> set X. rm_valid r (fst y) (snd y)" and vp: "rm_valid r ?p 8" using g by (simp_all add: growing_def)
  have vl: "rm_valid r4 h ?sz" if "h \<in> set (all_leaves I r m ch n)" for h using growing_valid(2) [OF g] that s(2) by simp
  have at4: "leaf_at ?c r4 h = leaf_at ?c r h" if "h \<in> set (all_leaves I r m ch n)" for h using s(6) that by (simp add: leaf_at_def ball_Un)
  have h8: "8 \<le> ?sz" using header_fits(1,3) [of ?c] by linarith
  show "rm_small r4" by (rule s(1))
  show "rm_valid r4 l 8" using rm.valid_mono [OF vl [OF l(1)] h8] .
  have one: "rm_load64 r4 l = 1" using leaf_lock_load [OF vl [OF l(1)]] at4 [OF l(1)] l(2) by simp
  have r5: "r5 = rm_store r4 l (bytes_of_u64 0)" by (simp add: r5_def one)
  show at5: "leaf_at ?c r5 l = (leaf_at ?c r l)\<lparr>leaf_header := (leaf_header (leaf_at ?c r l))\<lparr>lock := 0\<rparr>\<rparr>"
    unfolding r5 leaf_lock_store [OF s(1) vl [OF l(1)]] at4 [OF l(1)] ..
  have step: "changes r4 r5 [(l, ?sz)]" using changes_sub_store [OF s(1) vl [OF l(1)], of 0 "bytes_of_u64 0"] h8 by (simp add: r5)
  show v5: "rm_valid r5 g k = rm_valid r g k" for g k using changesD(1) [OF step] s(2) by simp
  show "rm_small r5" using changesD(2) [OF step] s(1) by simp
  have la: "apart l ?sz h ?sz" if "h \<in> set (all_leaves I r m ch n)" "h \<noteq> l" for h
  proof -
    have "regions_apart (map (\<lambda>g. (g, ?sz)) (all_leaves I r m ch n))"
      using g by (simp add: growing_def grow_regions_def regions_apart_append)
    from regions_apart_pick [OF this, of "(l, ?sz)" "(h, ?sz)"] show ?thesis using that l(1) by auto
  qed
  have lx: "apart l ?sz (fst y) (snd y)" if "y \<in> set X" for y
  proof -
    have "\<forall>y \<in> set (map (\<lambda>g. (g, ?sz)) (all_leaves I r m ch n)). \<forall>z \<in> set X. apart (fst y) (snd y) (fst z) (snd z)"
      using g by (simp add: growing_def grow_regions_def regions_apart_append)
    then show ?thesis using that l(1) by simp
  qed
  have li: "apart l ?sz h ?isz \<and> h \<noteq> l" if h: "h \<in> set new \<union> set (all_inner I r m ch n)" for h
  proof (cases "h \<in> set (all_inner I r m ch n)")
    case True
    then show ?thesis using ga(4) [OF True l(1)] by (simp add: apart_commute)
  next
    case False
    have "(l, ?sz) \<in> set (grow_regions I r m ch n X)" using l(1) by (simp add: grow_regions_def)
    then have "apart h ?isz l ?sz" using s(5) False h by (force simp: regions_apart_append)
    then show ?thesis using apart_refl [of h ?isz ?sz] config_sizes(4,5) [OF cfg] by (auto simp: apart_commute)
  qed
  have same: "rm_load r5 h k = rm_load r4 h k" if "apart l ?sz h k" "rm_valid r h k" for h k
    using changesD(3) [OF step, of h k] that s(2) by simp
  show "rm_load r5 (fst y) (snd y) = rm_load r (fst y) (snd y)" if "y \<in> set X" for y
    using same [OF lx [OF that]] vX s(6) that by simp
  show other: "leaf_at ?c r5 h = leaf_at ?c r h" if h: "h \<in> set (all_leaves I r m ch n)" "h \<noteq> l" for h
    using same [OF la [OF h]] at4 [OF h(1)] growing_valid(2) [OF g] h(1) by (simp add: leaf_at_def)
  have ptr: "rm_load64 r5 ?p = rm_load64 r4 ?p"
    using same [of ?p 8] ga(7) [OF l(1)] vp by (simp add: rm_load64_def apart_commute)
  then have root: "root_at I r5 = root_at I r4" by (simp add: root_at_def)
  show "rm_load64 r5 ?p = uintptr (root_at I r5)" "rm_valid r (root_at I r5) ?isz" using s(3,4) ptr root by simp_all
  have "agree_inner ?V4 ?V5 h" if h: "h \<in> set new \<union> set (all_inner I r m ch n)" for h
  proof -
    have v: "rm_valid r h ?isz" using pages(3) [OF h] s(2) by auto
    show ?thesis by (rule f_agree_inner) (use li [OF h] same [OF _ v] s(2) v5 K in auto)
  qed
  moreover have "agree_leaf ?V4 ?V5 h" if h: "h \<in> set (all_leaves I r m ch n)" for h
  proof (cases "h = l")
    case True
    then show ?thesis using at5 at4 [OF l(1)] l(2) s(2) v5 K by (simp add: agree_leaf_def node_header_of_leaf)
  next
    case False
    then show ?thesis using other [OF h False] at4 [OF h] s(2) v5 K by (simp add: agree_leaf_def node_header_of_leaf)
  qed
  ultimately have "agree_on ?V4 ?V5 n' (root_at I r4)" unfolding agree_on_def f_view_lists pages(1,2) by blast
  then show "settles (f_view ?c r K) key ch m (root_at I r) n (ArrayVar_min (KEY_SIZE ?c)) (ArrayVar_max (KEY_SIZE ?c)) ?V5 (root_at I r5) n' new"
    using settles_agree grown unfolding grown_def root by blast
qed

lemma leaf_header_wf: "rm_valid r g (sizeof_LeafNode c) \<Longrightarrow> header_wf c (leaf_header (leaf_at c r g))"
  using header_fits(3) [of c]
  by (simp add: header_wf_def leaf_at_def dec_leaf_def dec_header_def rm.length_load length_bslice sizeof_Header_def)

lemma be_val_max: "length k = n \<Longrightarrow> be_val k \<le> be_val (ArrayVar_max n)"
  using key_lt_max_iff [of k n] by (cases "k = ArrayVar_max n") (auto simp: key_lt_iff length_ArrayVar)

lemma leaf_map_in_range:
  assumes "leaf_ok c r L" and "header_wf c (leaf_header L)" and "leaf_map c r L k \<noteq> None"
  shows "be_val k < be_val (ArrayVar_max (KEY_SIZE c))"
proof -
  obtain b where b: "b \<in> set (taken_slots L)" "item_key (slot_item c r b) = k"
    using assms(1,3) leaf_map_Some_iff [of c r L k] by (auto simp: leaf_ok_def)
  then have "length k = KEY_SIZE c" "in_fence k (leaf_header L)"
    using assms(1) length_item_key_at [of r "getAddr b" c] by (auto simp: leaf_ok_def slot_item_def)
  then have "be_val k < be_val (fence_hi (leaf_header L))" using assms(2) in_fence_val [of k "KEY_SIZE c"] by (simp add: header_wf_def)
  then show ?thesis using be_val_max [of "fence_hi (leaf_header L)" "KEY_SIZE c"] assms(2) by (simp add: header_wf_def)
qed

lemma mset_concat_cong: "mset xs = mset ys \<Longrightarrow> mset (concat (map f xs)) = mset (concat (map f ys))"
  by (simp add: mset_concat) (metis mset_map sum_mset_sum_list)

lemma tree_map_out_of_range:
  assumes "tree_inv I r n" and "\<not> be_val k < be_val (ArrayVar_max (KEY_SIZE (cfg I)))"
  shows "tree_map I r n k = None"
proof -
  let ?l = "leaf_for (cfg I) r n (root_at I r) k"
  have l: "?l \<in> set (leaves (cfg I) r n (root_at I r))" using assms(1) leaf_for_leaves by (auto simp: tree_inv_def tree_ok_def)
  then have "leaf_ok (cfg I) r (leaf_at (cfg I) r ?l)" using assms(1) by (simp add: tree_inv_def)
  from leaf_map_in_range [OF this leaf_header_wf [OF tree_leaves_valid [OF assms(1) l]], of k] show ?thesis
    using assms(2) unfolding tree_map_def by blast
qed

text \<open>
  The contents: \<open>lh\<close> and \<open>rh\<close> share out the entries of the leaf \<open>l\<close>, so the tree stores the same map as before.
\<close>

lemma split_settled:
  assumes inv: "tree_inv I r n" and l: "l \<in> set (leaves (cfg I) r n (root_at I r))" and n': "n' < fuel I"
    and r3: "root_at I r3 = root_at I r" "leaves (cfg I) r3 n (root_at I r3) = leaves (cfg I) r n (root_at I r)"
      "\<And>k. leaf_for (cfg I) r3 n (root_at I r3) k = leaf_for (cfg I) r n (root_at I r) k" "q \<notin> set (leaves (cfg I) r n (root_at I r))"
      "fence_hi (leaf_header (leaf_at (cfg I) r3 q)) = fence_hi (leaf_header (leaf_at (cfg I) r l))"
    and settles: "settles (f_view (cfg I) r3 {l}) mk q 0 (root_at I r3) n (ArrayVar_min (KEY_SIZE (cfg I))) (ArrayVar_max (KEY_SIZE (cfg I)))
      (f_view (cfg I) r5 {}) (root_at I r5) n' new"
    and r5: "rm_small r5" "\<And>g k. rm_valid r5 g k = rm_valid r g k" "rm_load64 r5 (root_offset_pointer I) = uintptr (root_at I r5)"
      "rm_valid r (root_at I r5) (sizeof_InternalNode (cfg I))" "leaf_at (cfg I) r5 l = lh" "leaf_at (cfg I) r5 q = rh"
      "\<And>h. h \<in> set (leaves (cfg I) r n (root_at I r)) \<Longrightarrow> h \<noteq> l \<Longrightarrow> leaf_at (cfg I) r5 h = leaf_at (cfg I) r h"
      "\<And>y. y \<in> set (item_regions I r n) \<Longrightarrow> rm_load r5 (fst y) (snd y) = rm_load r (fst y) (snd y)"
    and regs: "regions_apart (map (\<lambda>g. (g, sizeof_InternalNode (cfg I))) new @ grow_regions I r3 0 q n (item_regions I r n))"
    and ok: "leaf_ok (cfg I) r lh" "leaf_ok (cfg I) r rh"
    and taken: "set (taken_slots lh) \<union> set (taken_slots rh) \<subseteq> set (taken_slots (leaf_at (cfg I) r l))"
    and maps: "\<And>k. \<not> (be_val mk \<le> be_val k \<and> be_val k < be_val (fence_hi (leaf_header (leaf_at (cfg I) r l)))) \<Longrightarrow>
        leaf_map (cfg I) r lh k = leaf_map (cfg I) r (leaf_at (cfg I) r l) k"
      "\<And>k. be_val mk \<le> be_val k \<Longrightarrow> leaf_map (cfg I) r rh k = leaf_map (cfg I) r (leaf_at (cfg I) r l) k"
    and items: "mset (leaf_items (cfg I) lh) + mset (leaf_items (cfg I) rh) = mset (leaf_items (cfg I) (leaf_at (cfg I) r l))"
    and route: "\<And>k. be_val mk \<le> be_val k \<Longrightarrow> be_val k < be_val (fence_hi (leaf_header (leaf_at (cfg I) r l))) \<Longrightarrow> leaf_for (cfg I) r n (root_at I r) k = l"
  shows "tree_inv I r5 n'" and "tree_map I r5 n' = tree_map I r n"
    and "mset (footprint I r5 n') = mset (map (\<lambda>g. (g, sizeof_InternalNode (cfg I))) new @ grow_regions I r3 0 q n (item_regions I r n))"
    and "set (leaves (cfg I) r5 n' (root_at I r5)) = insert q (set (leaves (cfg I) r n (root_at I r)))"
proof -
  let ?c = "cfg I" and ?ls = "leaves (cfg I) r n (root_at I r)"
  have cfg: "config_ok ?c" "rm_valid r (root_offset_pointer I) 8" using inv by (simp_all add: tree_inv_view)
  have t: "tree (f_view ?c r5 {}) (root_at I r5) n' (ArrayVar_min (KEY_SIZE ?c)) (ArrayVar_max (KEY_SIZE ?c))"
    and mi: "mset (inner_nodes ?c r5 n' (root_at I r5)) = mset (new @ all_inner I r3 0 q n)"
    and ml: "mset (leaves ?c r5 n' (root_at I r5)) = mset (?ls @ [q])"
    and lf: "\<And>k. 0 \<le> be_val k \<Longrightarrow> be_val k < be_val (ArrayVar_max (KEY_SIZE ?c)) \<Longrightarrow> leaf_for ?c r5 n' (root_at I r5) k =
      (if be_val mk \<le> be_val k \<and> be_val k < be_val (fence_hi (leaf_header (leaf_at ?c r l))) then q else leaf_for ?c r n (root_at I r) k)"
    using settles r3 by (simp_all add: settles_def f_view_lists all_inner_def pending_leaf_def node_header_of_leaf)
  show ls: "set (leaves ?c r5 n' (root_at I r5)) = insert q (set ?ls)" using mset_eq_setD [OF ml] by simp
  have item: "slot_item ?c r5 b = slot_item ?c r b" if "h \<in> set ?ls" "b \<in> set (taken_slots (leaf_at ?c r h))" for h b
    using r5(8) [of "(getAddr b, sizeof_KVItem ?c)"] footprint_members(2) [OF that(1)] that(2)
    by (auto simp: slot_item_def item_at_def leaf_items_def)
  have cong: "leaf_ok ?c r5 x = leaf_ok ?c r x \<and> leaf_map ?c r5 x = leaf_map ?c r x"
    if "h \<in> set ?ls" "set (taken_slots x) \<subseteq> set (taken_slots (leaf_at ?c r h))" for h x
    using leaf_ok_cong [of x ?c r5 r] item [OF that(1)] that(2) r5(2) by blast
  have lok: "leaf_ok ?c r5 lh" "leaf_map ?c r5 lh = leaf_map ?c r lh" "leaf_ok ?c r5 rh" "leaf_map ?c r5 rh = leaf_map ?c r rh"
    using cong [OF l, of lh] cong [OF l, of rh] ok taken by simp_all
  have leaf: "leaf_ok ?c r5 (leaf_at ?c r5 h) \<and> leaf_map ?c r5 (leaf_at ?c r5 h) = leaf_map ?c r (leaf_at ?c r h)"
    if "h \<in> set ?ls" "h \<noteq> l" for h
    using cong [OF that(1) order_refl] r5(7) [OF that] inv that(1) by (simp add: tree_inv_view)
  have all: "\<forall>h \<in> set (leaves ?c r5 n' (root_at I r5)). leaf_ok ?c r5 (leaf_at ?c r5 h)"
    unfolding ls using leaf lok(1,3) r5(5,6) by blast
  have "mset (concat (map (\<lambda>h. leaf_items ?c (leaf_at ?c r5 h)) ?ls)) + mset (leaf_items ?c rh) = {#} + mset (item_regions I r n)"
    unfolding item_regions_def
    by (rule mset_concat_upd [OF tree_regions(2) [OF inv] l]) (use r5(5,7) items in simp_all)
  then have "mset (item_regions I r5 n') = mset (item_regions I r n)"
    using mset_concat_cong [OF ml, of "\<lambda>h. leaf_items ?c (leaf_at ?c r5 h)"] r5(6) by (simp add: item_regions_def)
  then show fp: "mset (footprint I r5 n') = mset (map (\<lambda>g. (g, sizeof_InternalNode ?c)) new @ grow_regions I r3 0 q n (item_regions I r n))"
    using mi ml r3(2) by (simp add: footprint_def node_regions_def grow_regions_def all_leaves_def)
  show inv5: "tree_inv I r5 n'"
    unfolding tree_inv_view regions_apart_mset [OF fp] using cfg r5(1-4) n' t all regs by simp
  show "tree_map I r5 n' = tree_map I r n"
  proof
    fix k
    show "tree_map I r5 n' k = tree_map I r n k"
    proof (cases "be_val k < be_val (ArrayVar_max (KEY_SIZE ?c))")
      case False
      then show ?thesis using tree_map_out_of_range [OF inv5] tree_map_out_of_range [OF inv] by simp
    next
      case True
      have mem: "leaf_for ?c r n (root_at I r) k \<in> set ?ls" using inv leaf_for_leaves by (auto simp: tree_inv_def tree_ok_def)
      show ?thesis
        using lf [OF _ True] route [of k] maps [of k] lok r5(5,6) leaf [OF mem]
        by (cases "leaf_for ?c r n (root_at I r) k = l") (auto simp: tree_map_def)
    qed
  qed
qed

subsection \<open>The whole split\<close>

text \<open>A step that touches the bytes of one leaf but leaves the leaf as it was.\<close>

lemma tree_leaf_same:
  assumes inv: "tree_inv I r n" and l: "l \<in> set (leaves (cfg I) r n (root_at I r))"
    and step: "changes r r' [(l, sizeof_LeafNode (cfg I))]" and at: "leaf_at (cfg I) r' l = leaf_at (cfg I) r l"
  shows "tree_inv I r' n" and "tree_map I r' n = tree_map I r n" and "footprint I r' n = footprint I r n"
    and "leaves (cfg I) r' n (root_at I r') = leaves (cfg I) r n (root_at I r)"
    and "\<And>h. h \<in> set (leaves (cfg I) r n (root_at I r)) \<Longrightarrow> leaf_at (cfg I) r' h = leaf_at (cfg I) r h"
proof -
  let ?c = "cfg I" and ?ls = "leaves (cfg I) r n (root_at I r)"
  note reg = tree_regions [OF inv]
  have ok: "tree_ok I r n" and small: "rm_small r'" using inv changesD(2) [OF step] by (simp_all add: tree_inv_def)
  have valid: "rm_valid r' g k = rm_valid r g k" for g k by (rule changesD(1) [OF step])
  have ptr: "rm_load64 r' (root_offset_pointer I) = rm_load64 r (root_offset_pointer I)"
    using changesD(3) [OF step] reg(6) [OF l] ok by (simp add: rm_load64_def tree_ok_def)
  then have root: "root_at I r' = root_at I r" by (simp add: root_at_def)
  have pages: "\<forall>h \<in> set (inner_nodes ?c r n (root_at I r)). rm_valid r h (sizeof_InternalNode ?c)"
    using ok subtree_valid by (fastforce simp: tree_ok_def)
  have nodes: "\<forall>h \<in> set (inner_nodes ?c r n (root_at I r)). node_at ?c r' h = node_at ?c r h"
    using changesD(3) [OF step] reg(3) [OF _ l] pages by (simp add: node_at_def)
  show leaf: "leaf_at ?c r' h = leaf_at ?c r h" if h: "h \<in> set ?ls" for h
    using changesD(3) [OF step tree_leaves_valid [OF inv h]] reg(4) [OF h l] at by (cases "h = l") (simp_all add: leaf_at_def)
  have item: "slot_item ?c r' b = slot_item ?c r b" if h: "h \<in> set ?ls" and b: "b \<in> set (taken_slots (leaf_at ?c r h))" for h b
  proof -
    have "(getAddr b, sizeof_KVItem ?c) \<in> set (item_regions I r n)"
      using footprint_members(2) [OF h] b by (auto simp: leaf_items_def)
    then have "apart l (sizeof_LeafNode ?c) (getAddr b) (sizeof_KVItem ?c)" "rm_valid r (getAddr b) (sizeof_KVItem ?c)"
      using reg(5) [OF l] footprint_valid [OF inv] by (force simp: footprint_def)+
    then show ?thesis using changesD(3) [OF step] by (simp add: slot_item_def item_at_def)
  qed
  note shape = tree_same_shape [OF ok small valid root nodes]
  have shape: "tree_ok I r' n" "node_regions I r' n = node_regions I r n" "leaves ?c r' n (root_at I r') = ?ls"
      "leaf_for ?c r' n (root_at I r') key = leaf_for ?c r n (root_at I r) key"
      "inner_nodes ?c r' n (root_at I r') = inner_nodes ?c r n (root_at I r)" for key
    using leaf by (auto intro!: shape)
  show lv: "leaves ?c r' n (root_at I r') = ?ls" by (rule shape)
  show fp: "footprint I r' n = footprint I r n" using leaf by (simp add: footprint_def item_regions_def shape lv cong: map_cong)
  have cong: "leaf_ok ?c r' (leaf_at ?c r h) = leaf_ok ?c r (leaf_at ?c r h)" "leaf_map ?c r' (leaf_at ?c r h) = leaf_map ?c r (leaf_at ?c r h)"
    if "h \<in> set ?ls" for h
    using leaf_ok_cong [of "leaf_at ?c r h" ?c r' r] item [OF that] valid by simp_all
  show "tree_inv I r' n" using inv shape(1,5) nodes small fp lv leaf cong(1) ptr root by (simp add: tree_inv_def)
  have "leaf_for ?c r n (root_at I r) k \<in> set ?ls" for k using ok leaf_for_leaves by (auto simp: tree_ok_def)
  then show "tree_map I r' n = tree_map I r n" using leaf cong(2) by (simp add: fun_eq_iff tree_map_def shape(4))
qed

lemma unlock_leaf_run:
  assumes cfg: "config_ok (cfg I)" and r2: "rm_small r2" "rm_valid r2 l (sizeof_LeafNode (cfg I))" "leaf_at (cfg I) r2 l = locked_leaf L"
    and L: "length (kv_blocks L) = branch_factor (cfg I)" "lock (leaf_header L) = 0" "\<not> list_ex isLocked (kv_blocks L)"
  shows "\<exists>r3. run (mem_handler E) (PerformBatch (get_lock_unlock_kvblocks I l False @ [get_release_node_op l]) (\<lambda>(ok, outs). assert_then ok (Ret False))) (r2, e) =
      Inr (False, (r3, e)) \<and> changes r2 r3 [(l, sizeof_LeafNode (cfg I))] \<and> leaf_at (cfg I) r3 l = L"
proof -
  let ?c = "cfg I" and ?sz = "sizeof_LeafNode (cfg I)"
  define r1 where "r1 = snd (rm_steps r2 (get_lock_unlock_kvblocks I l False))"
  define r3 where "r3 = rm_store r1 l (bytes_of_u64 (rm_load64 r1 l - 1))"
  have ops: "get_lock_unlock_kvblocks I l False = map (\<lambda>i. FaaOp (kvblock_address ?c l i) (-1)) [0..<branch_factor ?c]"
    by (simp add: get_lock_unlock_kvblocks_def)
  have c1: "changes r2 r1 [(l, ?sz)]" and l1: "leaf_at ?c r1 l = add_slots (branch_factor ?c) (-1) (locked_leaf L)"
    using slots_faa [OF r2(1,2) order_refl refl, of "-1"] r2(3) by (simp_all add: r1_def ops)
  have r1: "rm_small r1" "rm_valid r1 l ?sz" using changesD(1,2) [OF c1] r2 by simp_all
  have "b - 1 = setLocked b False" if "b \<in> set (kv_blocks (locked_leaf L))" for b
    using that by (intro faa_unlock) (auto simp: locked_leaf_def)
  moreover have "setLocked (setLocked b True) False = b" if "b \<in> set (kv_blocks L)" for b
    using L(3) that by (intro setLocked_undo) (auto simp: list_ex_iff)
  ultimately have "map (\<lambda>b. b - 1) (kv_blocks (locked_leaf L)) = kv_blocks L"
    by (auto simp: locked_leaf_def intro!: map_idI)
  then have l1: "leaf_at ?c r1 l = L\<lparr>leaf_header := (leaf_header L)\<lparr>lock := 1\<rparr>\<rparr>"
    using l1 L(1) by (simp add: add_slots_all locked_leaf_def)
  have h8: "8 \<le> ?sz" using header_fits(1,3) [of ?c] by linarith
  have "rm_load64 r1 l = 1" using leaf_lock_load [OF r1(2)] l1 by simp
  then have r3: "r3 = rm_store r1 l (bytes_of_u64 0)" by (simp add: r3_def)
  have "L\<lparr>leaf_header := (leaf_header L)\<lparr>lock := 0\<rparr>\<rparr> = L" using L(2) by (cases L; cases "leaf_header L") simp
  then have "leaf_at ?c r3 l = L" unfolding r3 leaf_lock_store [OF r1] l1 by simp
  moreover have "changes r1 r3 [(l, ?sz)]" using changes_sub_store [OF r1, of 0 "bytes_of_u64 0"] h8 by (simp add: r3)
  then have "changes r2 r3 [(l, ?sz)]" by (rule changes_same [OF c1])
  moreover have "list_all (op_valid r2) (get_lock_unlock_kvblocks I l False @ [get_release_node_op l])"
    using slot_valid [OF r2(1,2)] rm.valid_mono [OF r2(2) h8] by (auto simp: get_lock_unlock_kvblocks_def get_release_node_op_def list_all_iff)
  then have "run (mem_handler E) (PerformBatch (get_lock_unlock_kvblocks I l False @ [get_release_node_op l]) (\<lambda>(ok, outs). assert_then ok (Ret False))) (r2, e) =
      Inr (False, (r3, e))"
    using rm_small_ok [OF r2(1)] by (simp add: mem_run assert_then_def rm_steps_append r1_def [symmetric] get_release_node_op_def r3_def)
  ultimately show ?thesis by blast
qed

text \<open>No leaf is full.\<close>

definition roomy :: "FaunusIndex \<Rightarrow> rmemory \<Rightarrow> nat \<Rightarrow> GlobalAddress set \<Rightarrow> bool" where
  "roomy I r n except \<longleftrightarrow> (\<forall>h \<in> set (leaves (cfg I) r n (root_at I r)) - except. num_used (leaf_at (cfg I) r h) < branch_factor (cfg I))"

lemma init_slots_blank: "\<forall>b \<in> set (kv_blocks (LeafNode_init c)). blank b"
  by (simp add: LeafNode_init_def blank_def)

lemma leaf_route:
  assumes inv: "tree_inv I r n" and l: "l \<in> set (leaves (cfg I) r n (root_at I r))"
    and k: "be_val (fence_lo (leaf_header (leaf_at (cfg I) r l))) \<le> be_val k" "be_val k < be_val (fence_hi (leaf_header (leaf_at (cfg I) r l)))"
  shows "leaf_for (cfg I) r n (root_at I r) k = l"
proof -
  let ?V = "f_view (cfg I) r {}"
  have t: "tree ?V (root_at I r) n (ArrayVar_min (KEY_SIZE (cfg I))) (ArrayVar_max (KEY_SIZE (cfg I)))" using inv by (simp add: tree_inv_view)
  have "ctx ?V k l 0 (tv_lo ?V l) (tv_hi ?V l) (root_at I r) n (ArrayVar_min (KEY_SIZE (cfg I))) (ArrayVar_max (KEY_SIZE (cfg I)))"
    by (rule tree_ctx_leaf [OF t f_view_fenced]) (use l k in \<open>simp_all add: f_view_lists node_header_of_leaf\<close>)
  from ctx_leaf_for [OF this f_view_fenced, of k] show ?thesis using k by (simp add: f_view_lists(3) [of "cfg I" r "{}", symmetric] node_header_of_leaf)
qed

context page_source
begin

lemma finish_split_run:
  assumes inv: "tree_inv I r n" and l: "l \<in> set (leaves (cfg I) r n (root_at I r))"
    and idx: "3 \<le> branch_factor (cfg I)" "\<not> has_cache I" "Suc n < fuel I" "Suc n < 2 ^ 64" "n < levels I"
    and r2: "leaf_at (cfg I) r2 l = locked_leaf (leaf_at (cfg I) r l)" "changes r r2 [(l, sizeof_LeafNode (cfg I))]"
    and es_def: "es = leaf_entries (leaf_pairs (cfg I) r (leaf_at (cfg I) r l))" and big: "branch_factor (cfg I) div 2 < length es"
    and can: "can (rm_valid r) e (Suc (Suc n + k)) (footprint I r n)"
  shows "\<exists>r5 e5 n'. run (mem_handler E) (finish_split I l (locked_leaf (leaf_at (cfg I) r l)) es) (r2, e) = Inr (True, (r5, e5)) \<and> n' \<le> Suc n \<and>
    tree_inv I r5 n' \<and> tree_map I r5 n' = tree_map I r n \<and> (\<forall>g k. rm_valid r5 g k = rm_valid r g k) \<and> can (rm_valid r) e5 k (footprint I r5 n') \<and>
    (\<forall>X. roomy I r n (insert l X) \<longrightarrow> roomy I r5 n' X) \<and> set (leaves (cfg I) r n (root_at I r)) \<subseteq> set (leaves (cfg I) r5 n' (root_at I r5))"
proof -
  let ?c = "cfg I" and ?sz = "sizeof_LeafNode (cfg I)" and ?L = "leaf_at (cfg I) r l" and ?ls = "leaves (cfg I) r n (root_at I r)"
  let ?L2 = "locked_leaf (leaf_at (cfg I) r l)" and ?X = "item_regions I r n" and ?bf = "branch_factor (cfg I)"
  have cfg: "config_ok ?c" and small: "rm_small r" and ok: "leaf_ok ?c r ?L" using inv l by (simp_all add: tree_inv_view)
  have vl: "rm_valid r l ?sz" by (rule tree_leaves_valid [OF inv l])
  have lockL: "lock (leaf_header ?L) = 0" "level (leaf_header ?L) = 0"
    using tree_pages [of "f_view ?c r {}" "root_at I r" n] inv l by (auto simp: tree_inv_view f_view_lists)
  have len: "length (kv_blocks ?L) = ?bf" by (simp add: leaf_at_def)
  define m where "m = length es div 2"
  define mk where "mk = fst (es ! m)"
  have two: "2 \<le> length es" using big idx(1) by linarith
  have le: "length es \<le> ?bf"
    using split_entries_facts(3) [OF ok es_def] len by (metis length_filter_le num_used_def)
  obtain off e1 where al: "e_alloc E (leaf_bytes I) e = Inr (off, e1)" "rm_valid r (GlobalAddress_raw off) ?sz"
      "\<forall>y \<in> set (footprint I r n). apart (GlobalAddress_raw off) ?sz (fst y) (snd y)" "can (rm_valid r) e1 (Suc n + k) ((GlobalAddress_raw off, ?sz) # footprint I r n)"
    using allocates [OF can, of "leaf_bytes I"] unat_sizes(1) [OF cfg] by auto
  define q where "q = GlobalAddress_raw off"
  obtain dl dr where d: "distribute es (kv_blocks ?L2) (kv_blocks (LeafNode_init ?c)) = (dl, dr)" by force
  have lenI: "length (kv_blocks (LeafNode_init ?c)) = ?bf" by (simp add: LeafNode_init_def)
  obtain l' r' e2 where clr: "run (mem_handler E) (clear_loop I m (length es mod 2 = 0) [m..<?bf] dl dr) (r2, e1) = Inr ((l', r'), (r2, e2))"
      "can (rm_valid r) e2 (Suc n + k) ((q, ?sz) # footprint I r n)" "length l' = ?bf" "length r' = ?bf"
      "filter (\<lambda>b. \<not> isFree b) l' = map (\<lambda>x. setLocked (snd x) False) (take m es)" "\<not> list_ex isLocked l'"
      "filter (\<lambda>b. \<not> isFree b) r' = map (\<lambda>x. setLocked (snd x) False) (drop m es)" "\<not> list_ex isLocked r'"
    using split_slots_run [OF al(4) ok len lenI init_slots_blank es_def m_def d, of r2] unfolding q_def by blast
  define lh where "lh = \<lparr>leaf_header = (leaf_header ?L)\<lparr>fence_hi := mk\<rparr>, kv_blocks = l'\<rparr>"
  define lh2 where "lh2 = \<lparr>leaf_header = (leaf_header ?L2)\<lparr>fence_hi := mk\<rparr>, kv_blocks = l'\<rparr>"
  define rh where "rh = \<lparr>leaf_header = (Header_init ?c)\<lparr>fence_lo := mk, fence_hi := fence_hi (leaf_header ?L2)\<rparr>, kv_blocks = r'\<rparr>"
  have wf: "header_wf ?c (leaf_header ?L)" by (rule leaf_header_wf [OF vl])
  have taken: "taken_slots lh = map (\<lambda>x. setLocked (snd x) False) (take m es)" "taken_slots rh = map (\<lambda>x. setLocked (snd x) False) (drop m es)"
    using clr(5,7) by (simp_all add: taken_slots_def lh_def rh_def)
  note half = leaf_halves [OF ok wf es_def m_def two mk_def taken]
  have hdr: "fence_lo (leaf_header lh) = fence_lo (leaf_header ?L)" "fence_hi (leaf_header lh) = mk" "fence_lo (leaf_header rh) = mk"
      "fence_hi (leaf_header rh) = fence_hi (leaf_header ?L)" "\<not> list_ex isLocked (kv_blocks lh)" "\<not> list_ex isLocked (kv_blocks rh)"
    using clr(6,8) by (simp_all add: lh_def rh_def locked_leaf_def)
  note half = half [OF hdr(5,6,1-4)]
  have wfs: "leaf_wf ?c lh2" "leaf_wf ?c rh"
    using wf half(3) clr(3,4) by (simp_all add: leaf_wf_def lh2_def rh_def header_wf_def locked_leaf_def Header_init_def length_ArrayVar)
  define r3 where "r3 = rm_store (rm_store r2 q (enc_leaf ?c rh)) l (enc_leaf ?c lh2)"
  have v2: "rm_valid r2 g k = rm_valid r g k" for g k by (rule changesD(1) [OF r2(2)])
  have q: "rm_valid r q ?sz" "\<forall>y \<in> set (footprint I r n). apart q ?sz (fst y) (snd y)" using al(2,3) by (simp_all add: q_def)
  note wq = leaf_store_at [of r2 q ?c rh, unfolded v2, OF q(1) wfs(2)]
  have vl1: "rm_valid (rm_store r2 q (enc_leaf ?c rh)) l ?sz" using changesD(1) [OF wq(2)] v2 vl by simp
  note wl = leaf_store_at [OF vl1 wfs(1), folded r3_def]
  have step: "changes r r3 [(q, ?sz), (l, ?sz)]"
    using changes_trans [OF r2(2) changes_trans [OF wq(2) wl(2)]] by (rule changes_mono) simp
  have ql: "apart q ?sz l ?sz" using q(2) footprint_members(1) [OF l] by (force simp: footprint_def)
  have "rm_load r3 q ?sz = rm_load (rm_store r2 q (enc_leaf ?c rh)) q ?sz"
    by (rule changesD(3) [OF wl(2)]) (use changesD(1) [OF wq(2)] v2 q(1) ql in \<open>simp_all add: apart_commute\<close>)
  then have at: "leaf_at ?c r3 l = lh2" "leaf_at ?c r3 q = rh" using wl(1) wq(1) by (simp_all add: leaf_at_def)
  have h2: "lock (leaf_header lh2) = 1" "level (leaf_header lh2) = 0" "fence_lo (leaf_header lh2) = fence_lo (leaf_header ?L)" "fence_hi (leaf_header lh2) = mk"
      "lock (leaf_header rh) = 0" "level (leaf_header rh) = 0"
    using lockL by (simp_all add: lh2_def rh_def locked_leaf_def Header_init_def)
  note pend = split_pending [OF inv l idx(1-4) q step at h2(1-6) hdr(3,4) half(3-5)]
  have v3: "rm_valid r3 = rm_valid r" using changesD(1) [OF step] by blast
  have sets: "set (grow_regions I r3 0 q n ?X) = set ((q, ?sz) # footprint I r n)" using mset_eq_setD [OF pend(5)] .
  have "can (rm_valid r3) e2 (Suc (n - 0) + k) (grow_regions I r3 0 q n ?X)"
    unfolding v3 by (rule fewer [OF clr(2)]) (use sets in simp_all)
  from insert_internal_entry_run [OF pend(1) _ _ this, of 1 "levels I"] idx(5)
  obtain r4 e4 n' new where grow: "run (mem_handler E) (insert_internal_entry (levels I) I mk q 1) (r3, e2) = Inr (True, (r4, e4))"
      "grown I r3 {l} mk q 0 n ?X r4 n' new" "can (rm_valid r) e4 k (map (\<lambda>g. (g, sizeof_InternalNode ?c)) new @ grow_regions I r3 0 q n ?X)"
    unfolding v3 by auto
  define r5 where "r5 = rm_store r4 l (bytes_of_u64 (rm_load64 r4 l - 1))"
  have lin: "l \<in> set (all_leaves I r3 0 q n)" using l pend(3) by (simp add: all_leaves_def)
  note rel = split_release [OF pend(1) refl lin _ grow(2) r5_def, unfolded at(1), OF h2(1)]
  have n': "n' \<le> Suc n" "n' < fuel I" using grow(2) idx(3) by (simp_all add: grown_def)
  have lh5: "leaf_at ?c r5 l = lh" using rel(8) lockL by (simp add: lh_def lh2_def locked_leaf_def)
  have "q \<noteq> l" using pend(6) l by auto
  have leaf5: "leaf_at ?c r5 q = rh" "\<And>h. h \<in> set ?ls \<Longrightarrow> h \<noteq> l \<Longrightarrow> leaf_at ?c r5 h = leaf_at ?c r h"
  proof -
    show "leaf_at ?c r5 q = rh" using rel(9) [of q] at(2) \<open>q \<noteq> l\<close> by (simp add: all_leaves_def)
    fix h assume h: "h \<in> set ?ls" "h \<noteq> l"
    have "apart q ?sz h ?sz" using q(2) footprint_members(1) [OF h(1)] by (force simp: footprint_def)
    then have "rm_load r3 h ?sz = rm_load r h ?sz"
      using changesD(3) [OF step tree_leaves_valid [OF inv h(1)]] tree_regions(4) [OF inv h(1) l h(2)] by simp
    then show "leaf_at ?c r5 h = leaf_at ?c r h" using rel(9) [of h] h pend(3) by (simp add: all_leaves_def leaf_at_def)
  qed
  have load5: "rm_load r5 (fst y) (snd y) = rm_load r (fst y) (snd y)" if "y \<in> set ?X" for y
    using rel(10) [OF that] changesD(3) [OF step, of "fst y" "snd y"] q(2) tree_regions(5) [OF inv l that] that footprint_valid [OF inv, of y]
    by (simp add: footprint_def)
  have regs: "regions_apart (map (\<lambda>g. (g, sizeof_InternalNode ?c)) new @ grow_regions I r3 0 q n ?X)" using grow(2) by (simp add: grown_def)
  have sub: "set (taken_slots lh) \<union> set (taken_slots rh) \<subseteq> set (taken_slots ?L)"
    using split_entries_facts(4) [OF ok es_def] unfolding taken by (auto dest: in_set_takeD in_set_dropD)
  have v5: "rm_valid r5 g k = rm_valid r g k" for g k using rel(5) v3 by simp
  have route: "leaf_for ?c r n (root_at I r) k = l" if "be_val mk \<le> be_val k" "be_val k < be_val (fence_hi (leaf_header ?L))" for k
    by (rule leaf_route [OF inv l]) (use half(4) that in simp_all)
  have hiq: "fence_hi (leaf_header (leaf_at ?c r3 q)) = fence_hi (leaf_header ?L)" using at(2) hdr(4) by simp
  note fin = split_settled [OF inv l n'(2) pend(7,3,4,6) hiq rel(1) rel(4) v5 rel(6) rel(7) [unfolded v3] lh5 leaf5 load5 regs half(1,2) sub half(6,7,8) route]
  have room: "roomy I r5 n' X" if "roomy I r n (insert l X)" for X
    unfolding roomy_def
  proof (rule ballI)
    fix h assume h: "h \<in> set (leaves ?c r5 n' (root_at I r5)) - X"
    have "num_used lh < ?bf" "num_used rh < ?bf" using taken le two by (simp_all add: num_used_taken m_def)
    moreover have "num_used (leaf_at ?c r5 h) < ?bf" if "h \<in> set ?ls" "h \<noteq> l"
      using leaf5(2) [OF that] \<open>roomy I r n (insert l X)\<close> that h by (simp add: roomy_def)
    ultimately show "num_used (leaf_at ?c r5 h) < ?bf" using h fin(4) lh5 leaf5(1) by (cases "h = l") auto
  qed
  have lens: "length (enc_leaf ?c rh) = ?sz" "length (enc_leaf ?c lh2) = ?sz" using length_enc_leaf [OF wfs(2)] length_enc_leaf [OF wfs(1)] by simp_all
  have sz: "unat (of_nat ?sz :: u64) = ?sz" using unat_sizes(1) [OF cfg] by (simp add: leaf_bytes_def)
  have "rm_small r2" using changesD(2) [OF r2(2)] small by simp
  then have wrun: "run (mem_handler E) (rdma_write_batch [q, l] [enc_leaf ?c rh, enc_leaf ?c lh2]) (r2, e2) = Inr (True, (r3, e2))"
    using rm_small_ok [of r2] v2 vl q(1) lens sz by (simp add: rdma_write_batch_def get_write_batch_def mem_run r3_def)
  have "run (mem_handler E) (finish_split I l ?L2 es) (r2, e) = Inr (True, (r5, e4))"
    using big al(1) clr(1) wrun grow(1) rm_small_ok [OF rel(2)] rel(3)
    by (simp add: finish_split_def Let_def mem_run run_bind assert_then_def d m_def [symmetric] mk_def [symmetric] q_def [symmetric]
        LeafNode_init_def [of ?c, THEN arg_cong, of leaf_header] lh2_def [symmetric] rh_def [symmetric] get_release_node_op_def r5_def)
  moreover have "can (rm_valid r) e4 k (footprint I r5 n')" by (rule fewer [OF grow(3)]) (use mset_eq_setD [OF fin(3)] in simp_all)
  moreover have "set ?ls \<subseteq> set (leaves ?c r5 n' (root_at I r5))" using fin(4) by auto
  ultimately show ?thesis using n'(1) fin(1,2) v5 room by blast
qed

end

context page_source
begin

lemma split_leaf_run:
  assumes inv: "tree_inv I r n" and l: "l \<in> set (leaves (cfg I) r n (root_at I r))"
    and idx: "3 \<le> branch_factor (cfg I)" "\<not> has_cache I" "Suc n < fuel I" "Suc n < 2 ^ 64" "n < levels I"
    and can: "can (rm_valid r) e (Suc (Suc n + k)) (footprint I r n)"
  shows "\<exists>r' e' n'. run (mem_handler E) (split_leaf I l) (r, e) =
      Inr (branch_factor (cfg I) div 2 < num_used (leaf_at (cfg I) r l), (r', e')) \<and> n' \<le> Suc n \<and>
    tree_inv I r' n' \<and> tree_map I r' n' = tree_map I r n \<and> (\<forall>g k. rm_valid r' g k = rm_valid r g k) \<and> can (rm_valid r) e' k (footprint I r' n') \<and>
    (\<forall>X. roomy I r n (insert l X) \<longrightarrow> roomy I r' n' X) \<and> set (leaves (cfg I) r n (root_at I r)) \<subseteq> set (leaves (cfg I) r' n' (root_at I r'))"
proof -
  let ?c = "cfg I" and ?L = "leaf_at (cfg I) r l"
  define es where "es = leaf_entries (leaf_pairs ?c r ?L)"
  have s: "config_ok ?c" "rm_small r" "leaf_ok ?c r ?L" using inv l by (simp_all add: tree_inv_view)
  have vl: "rm_valid r l (sizeof_LeafNode ?c)" by (rule tree_leaves_valid [OF inv l])
  have lk: "lock (leaf_header ?L) = 0"
    using tree_pages [of "f_view ?c r {}" "root_at I r" n] inv l by (auto simp: tree_inv_view f_view_lists)
  have items: "\<forall>b \<in> set (taken_slots ?L). apart l (sizeof_LeafNode ?c) (getAddr b) (sizeof_KVItem ?c)"
    using tree_regions(5) [OF inv l] footprint_members(2) [OF l] by (force simp: leaf_items_def)
  have used: "length es = num_used ?L" by (rule split_entries_facts(3) [OF s(3) es_def])
  obtain r2 where r2: "leaf_at ?c r2 l = locked_leaf ?L" "changes r r2 [(l, sizeof_LeafNode ?c)]"
    and run: "run (mem_handler E) (split_leaf I l) (r, e) = run (mem_handler E) (finish_split I l (locked_leaf ?L) es) (r2, e)"
    using split_leaf_start [OF s(1,2) vl refl lk s(3) items, where E = E and e = e] unfolding es_def by blast
  show ?thesis
  proof (cases "branch_factor ?c div 2 < length es")
    case True
    then show ?thesis using finish_split_run [OF inv l idx r2 es_def True can] run used by simp
  next
    case False
    have r2': "rm_small r2" "rm_valid r2 l (sizeof_LeafNode ?c)" using changesD(1,2) [OF r2(2)] s(2) vl by simp_all
    have L: "length (kv_blocks ?L) = branch_factor ?c" "\<not> list_ex isLocked (kv_blocks ?L)" using s(3) by (simp_all add: leaf_at_def leaf_ok_def)
    obtain r3 where r3: "run (mem_handler E) (PerformBatch (get_lock_unlock_kvblocks I l False @ [get_release_node_op l]) (\<lambda>(ok, outs). assert_then ok (Ret False))) (r2, e) =
        Inr (False, (r3, e))" "changes r2 r3 [(l, sizeof_LeafNode ?c)]" "leaf_at ?c r3 l = ?L"
      using unlock_leaf_run [OF s(1) r2' r2(1) L(1) lk L(2), where E = E and e = e] by blast
    note same = tree_leaf_same [OF inv l changes_same [OF r2(2) r3(2)] r3(3)]
    have "run (mem_handler E) (split_leaf I l) (r, e) = Inr (False, (r3, e))" using run r3(1) False by (simp add: finish_split_def Let_def)
    moreover have "can (rm_valid r) e k (footprint I r3 n)" unfolding same(3) by (rule fewer [OF can]) simp_all
    moreover have "rm_valid r3 g k = rm_valid r g k" for g k using changesD(1) [OF r3(2)] changesD(1) [OF r2(2)] by simp
    moreover have "roomy I r3 n X" if "roomy I r n (insert l X)" for X
      unfolding roomy_def same(4)
    proof
      have "num_used ?L < branch_factor ?c" using False used idx(1) by linarith
      then show "num_used (leaf_at ?c r3 h) < branch_factor ?c" if "h \<in> set (leaves ?c r n (root_at I r)) - X" for h
        using that same(5) \<open>roomy I r n (insert l X)\<close> by (cases "h = l") (auto simp: roomy_def)
    qed
    moreover have "set (leaves ?c r n (root_at I r)) \<subseteq> set (leaves ?c r3 n (root_at I r3))" using same(4) by simp
    ultimately show ?thesis using same(1,2) False used by (intro exI [of _ r3] exI [of _ e] exI [of _ n]) simp
  qed
qed

end

end
