(* ===== verification/Faunus_Store.thy ===== *)
theory Faunus_Store
  imports Faunus_Split
begin

text \<open>
  A Faunus index as a store of key-value pairs: \<^verbatim>\<open>insert\<close> of \<^verbatim>\<open>src/src/kv_index/faunus_index.cpp\<close> with all the splits it
  causes, and the slab allocators and the random numbers of a compute server as
  the source of pages that splits need.
\<close>

subsection \<open>Insertion with splits\<close>

text \<open>An index without node cache and maintenance threads, whose leaves have a power of two of slots and are split before they are full.\<close>

definition plain_index :: "FaunusIndex \<Rightarrow> bool" where
  "plain_index I \<longleftrightarrow> (\<exists>p \<le> 8. branch_factor (cfg I) = 2 ^ p) \<and> 3 \<le> branch_factor (cfg I) \<and> split_limit (cfg I) < branch_factor (cfg I) \<and>
     \<not> has_cache I \<and> has_tracker I \<and> \<not> MAINTENANCE_ENABLED (cfg I)"

lemma probe_finds_slot:
  assumes "branch_factor c = 2 ^ p" and "p \<le> 8" and "length (kv_blocks l) = branch_factor c"
    and "\<not> list_ex isLocked (kv_blocks l)" and "num_used l < branch_factor c"
  shows "\<exists>i. probe_slots c seed l = Some (Inr i)"
proof -
  have "\<exists>b \<in> set (kv_blocks l). isFree b"
  proof (rule ccontr)
    assume "\<not> ?thesis"
    then have "filter (\<lambda>b. \<not> isFree b) (kv_blocks l) = kv_blocks l" by simp
    then show False using assms(3,5) by (simp add: num_used_def)
  qed
  then have "probe_slots c seed l \<noteq> None" using probe_slots_complete [OF assms(1-3)] by blast
  moreover have "\<not> isLocked (kv_blocks l ! probe_index c seed i)" if "i < branch_factor c" for i
  proof -
    have "probe_index c seed i < length (kv_blocks l)"
      using bij_betwE [OF probe_index_bij [OF assms(1,2), of seed]] that assms(3) by auto
    then show ?thesis using assms(4) by (simp add: list_ex_iff)
  qed
  ultimately show ?thesis
    by (auto simp: probe_slots_def find_Some_iff split: option.splits)
qed

context page_source
begin

text \<open>\<^verbatim>\<open>insert\<close> up to the split: either it has returned, or its leaf is above the watermark and the rest is left to \<open>after_insert\<close>.\<close>

lemma insert_step:
  assumes inv: "tree_inv I r n" "roomy I r n X" and bf: "branch_factor (cfg I) = 2 ^ p" "p \<le> 8" "split_limit (cfg I) < branch_factor (cfg I)"
    and idx: "\<not> has_cache I" "has_tracker I"
    and key: "length key = KEY_SIZE (cfg I)" "key \<noteq> ArrayVar_max (KEY_SIZE (cfg I))" and val: "length val = VALUE_SIZE (cfg I)"
    and l_def: "l = leaf_for (cfg I) r n (root_at I r) key" and room: "num_used (leaf_at (cfg I) r l) < branch_factor (cfg I)"
    and can: "can (rm_valid r) e (Suc k) (footprint I r n)"
  shows "\<exists>r' e' over. tree_inv I r' n \<and> tree_map I r' n = (tree_map I r n)(key \<mapsto> val) \<and> rm_valid r' = rm_valid r \<and>
    leaves (cfg I) r' n (root_at I r') = leaves (cfg I) r n (root_at I r) \<and> l \<in> set (leaves (cfg I) r n (root_at I r)) \<and>
    can (rm_valid r) e' k (footprint I r' n) \<and> roomy I r' n (if over then insert l X else X) \<and>
    (if over then split_limit (cfg I) < num_used (leaf_at (cfg I) r' l) \<and>
       (\<forall>r2 e2. run (mem_handler E) (after_insert I key l (leaf_at (cfg I) r' l)) (r', e') = Inr (Inr True, (r2, e2)) \<longrightarrow>
          run (mem_handler E) (faunus_insert I key val) (r, e) = Inr (True, (r2, e2)))
     else run (mem_handler E) (faunus_insert I key val) (r, e) = Inr (True, (r', e')))"
proof -
  let ?c = "cfg I" and ?isz = "sizeof_KVItem (cfg I)" and ?bf = "branch_factor (cfg I)"
  have cfg: "config_ok ?c" using inv(1) by (simp add: tree_inv_view)
  have mem: "l \<in> set (leaves ?c r n (root_at I r))" using inv(1) leaf_for_leaves by (auto simp: l_def tree_inv_def tree_ok_def)
  obtain off e1 where al: "e_alloc E (item_bytes I) e = Inr (off, e1)" and v: "rm_valid r (GlobalAddress_raw off) ?isz"
      "unat (server_index (GlobalAddress_raw off)) < 16" "\<forall>y \<in> set (footprint I r n). apart (GlobalAddress_raw off) ?isz (fst y) (snd y)"
      and can1: "can (rm_valid r) e1 k ((GlobalAddress_raw off, ?isz) # footprint I r n)"
    using allocates [OF can, of "item_bytes I"] unat_sizes(3) [OF cfg] by auto
  note cases = insert_cases [OF inv(1) idx key val al refl v l_def]
  have kept: "tree_inv I r' n" "tree_map I r' n = (tree_map I r n)(key \<mapsto> val)" "rm_valid r' = rm_valid r"
      "leaves ?c r' n (root_at I r') = leaves ?c r n (root_at I r)"
    if "put_step I r n key val (GlobalAddress_raw off) r' gone" for r' gone
    using that unfolding put_step_def by blast+
  have others: "roomy I r' n (insert l X)" "num_used (leaf_at ?c r' l) < ?bf \<Longrightarrow> roomy I r' n X"
    if "put_step I r n key val (GlobalAddress_raw off) r' gone" for r' gone
  proof -
    have "num_used (leaf_at ?c r' h) < ?bf" if "h \<in> set (leaves ?c r n (root_at I r))" "h \<noteq> l" "h \<notin> X" for h
      using \<open>put_step I r n key val (GlobalAddress_raw off) r' gone\<close> that inv(2) by (auto simp: put_step_def roomy_def l_def)
    then show "roomy I r' n (insert l X)" "num_used (leaf_at ?c r' l) < ?bf \<Longrightarrow> roomy I r' n X"
      unfolding roomy_def kept(4) [OF that] by blast+
  qed
  show ?thesis
  proof (cases "tree_map I r n key = None")
    case False
    obtain r' b where r': "run (mem_handler E) (faunus_insert I key val) (r, e) = Inr (True, (r', e_free E (item_bytes I) (uintptr b) e1))"
        and put: "put_step I r n key val (GlobalAddress_raw off) r' [(b, ?isz)]" and used: "num_used (leaf_at ?c r' l) = num_used (leaf_at ?c r l)"
      using cases(1) [OF False] by blast
    have fp: "mset ((b, ?isz) # footprint I r' n) = mset ((GlobalAddress_raw off, ?isz) # footprint I r n)" using put by (simp add: put_step_def)
    have "regions_apart ((b, ?isz) # footprint I r' n)" unfolding regions_apart_mset [OF fp] using v(3) inv(1) by (simp add: tree_inv_def)
    moreover have "can (rm_valid r) e1 k ((b, ?isz) # footprint I r' n)" by (rule fewer [OF can1]) (use mset_eq_setD [OF fp] in simp_all)
    ultimately have "can (rm_valid r) (e_free E (item_bytes I) (uintptr b) e1) k (footprint I r' n)"
      using releases [of "rm_valid r" e1 k b] unat_sizes(3) [OF cfg] by simp
    moreover have "roomy I r' n X" by (rule others(2) [OF put]) (use used room in simp)
    ultimately show ?thesis using r' kept [OF put] mem by (intro exI [of _ r'] exI [of _ "e_free E (item_bytes I) (uintptr b) e1"] exI [of _ False]) simp
  next
    case True
    have leaf: "\<not> list_ex isLocked (kv_blocks (leaf_at ?c r l))" using inv(1) mem by (simp add: tree_inv_def leaf_ok_def)
    have len: "length (kv_blocks (leaf_at ?c r l)) = ?bf" by (simp add: leaf_at_def)
    obtain j where "probe_slots ?c (mix64 (tid_hash I)) (leaf_at ?c r l) = Some (Inr j)" using probe_finds_slot [OF bf(1,2) len leaf room] by blast
    from cases(2) [OF True this] obtain r' where put: "put_step I r n key val (GlobalAddress_raw off) r' []" and l': "l = leaf_for ?c r' n (root_at I r') key"
      and run: "\<And>r2 e2. run (mem_handler E) (after_insert I key l (leaf_at ?c r' l)) (r', e1) = Inr (Inr True, (r2, e2)) \<Longrightarrow>
          run (mem_handler E) (faunus_insert I key val) (r, e) = Inr (True, (r2, e2))"
      by blast
    have fp: "mset (footprint I r' n) = mset ((GlobalAddress_raw off, ?isz) # footprint I r n)" using put by (simp add: put_step_def)
    have st: "can (rm_valid r) e1 k (footprint I r' n)" by (rule fewer [OF can1]) (use mset_eq_setD [OF fp] in simp_all)
    show ?thesis
    proof (cases "num_used (leaf_at ?c r' l) \<le> split_limit ?c")
      case True
      have "run (mem_handler E) (faunus_insert I key val) (r, e) = Inr (True, (r', e1))"
        by (rule run [OF after_insert_run [OF kept(1) [OF put] idx(2) key l' True]])
      moreover have "roomy I r' n X" by (rule others(2) [OF put]) (use True bf(3) in simp)
      ultimately show ?thesis using kept [OF put] mem st by (intro exI [of _ r'] exI [of _ e1] exI [of _ False]) simp
    next
      case False
      then show ?thesis
        using kept [OF put] mem st others(1) [OF put] run by (intro exI [of _ r'] exI [of _ e1] exI [of _ True]) simp
    qed
  qed
qed

lemma insert_run:
  assumes inv: "tree_inv I r n" "roomy I r n {}" and plain: "plain_index I" and n: "Suc n < fuel I" "Suc n < 2 ^ 64" "n < levels I"
    and key: "length key = KEY_SIZE (cfg I)" "key \<noteq> ArrayVar_max (KEY_SIZE (cfg I))" and val: "length val = VALUE_SIZE (cfg I)"
    and can: "can (rm_valid r) e (Suc (Suc (Suc n + k))) (footprint I r n)"
  shows "\<exists>r' e' n'. run (mem_handler E) (faunus_insert I key val) (r, e) = Inr (True, (r', e')) \<and> n' \<le> Suc n \<and>
    tree_inv I r' n' \<and> roomy I r' n' {} \<and> tree_map I r' n' = (tree_map I r n)(key \<mapsto> val) \<and> rm_valid r' = rm_valid r \<and>
    can (rm_valid r') e' k (footprint I r' n')"
proof -
  let ?c = "cfg I" and ?bf = "branch_factor (cfg I)" and ?l = "leaf_for (cfg I) r n (root_at I r) key"
  obtain p where p: "?bf = 2 ^ p" "p \<le> 8" and idx: "split_limit ?c < ?bf" "\<not> has_cache I" "has_tracker I" "3 \<le> ?bf" "\<not> MAINTENANCE_ENABLED ?c"
    using plain by (auto simp: plain_index_def)
  have "?l \<in> set (leaves ?c r n (root_at I r))" using inv(1) leaf_for_leaves by (auto simp: tree_inv_def tree_ok_def)
  then have room: "num_used (leaf_at ?c r ?l) < ?bf" using inv(2) by (simp add: roomy_def)
  obtain r1 e1 over where one: "tree_inv I r1 n" "tree_map I r1 n = (tree_map I r n)(key \<mapsto> val)" "rm_valid r1 = rm_valid r"
      "?l \<in> set (leaves ?c r1 n (root_at I r1))" "can (rm_valid r1) e1 (Suc (Suc n + k)) (footprint I r1 n)" "roomy I r1 n (if over then {?l} else {})"
    and rest: "if over then split_limit ?c < num_used (leaf_at ?c r1 ?l) \<and>
       (\<forall>r2 e2. run (mem_handler E) (after_insert I key ?l (leaf_at ?c r1 ?l)) (r1, e1) = Inr (Inr True, (r2, e2)) \<longrightarrow>
          run (mem_handler E) (faunus_insert I key val) (r, e) = Inr (True, (r2, e2)))
     else run (mem_handler E) (faunus_insert I key val) (r, e) = Inr (True, (r1, e1))"
    using insert_step [OF inv p idx(1-3) key val refl room can] by metis
  show ?thesis
  proof (cases over)
    case False
    have "can (rm_valid r1) e1 k (footprint I r1 n)" by (rule fewer [OF one(5)]) simp_all
    then show ?thesis using rest one False by (intro exI [of _ r1] exI [of _ e1] exI [of _ n]) simp
  next
    case True
    obtain b r2 e2 n' where sp: "run (mem_handler E) (split_leaf I ?l) (r1, e1) = Inr (b, (r2, e2))" "n' \<le> Suc n" "tree_inv I r2 n'"
        "tree_map I r2 n' = tree_map I r1 n" "\<forall>g k. rm_valid r2 g k = rm_valid r1 g k" "can (rm_valid r1) e2 k (footprint I r2 n')" "roomy I r2 n' {}"
      using split_leaf_run [OF one(1,4) idx(4,2) n one(5)] one(6) True by auto
    have "run (mem_handler E) (after_insert I key ?l (leaf_at ?c r1 ?l)) (r1, e1) = Inr (Inr True, (r2, e2))"
      using rest True idx(3,5) sp(1) by (simp add: after_insert_def run_bind track_cache_def track_def mem_run)
    moreover have "rm_valid r2 = rm_valid r1" using sp(5) by blast
    ultimately show ?thesis using rest True sp one by (intro exI [of _ r2] exI [of _ e2] exI [of _ n']) simp
  qed
qed

end

subsection \<open>The allocators of a compute server as a source of pages\<close>

text \<open>
  \<open>stocked Q elems I V e k xs\<close>: every size class that the index uses has at least \<open>k\<close> free slabs, all of them valid memory on servers
  0 to 15; the free slabs and the blocks in use tile disjoint areas; every region of \<open>xs\<close> is a block in use;
  and among any \<open>fuel I\<close> consecutive random numbers there are two with different fingerprint and address bits.
\<close>

definition varied :: "nat \<Rightarrow> (nat \<Rightarrow> u64) \<Rightarrow> bool" where
  "varied n s \<longleftrightarrow> (\<forall>i. (\<forall>fp. \<exists>j < n. Fingerprint_of (ucast (s (i + j) AND 0x0FFF)) \<noteq> fp) \<and>
     (\<forall>a. \<exists>j < n. GlobalAddress_raw (s (i + j) AND 0x0003FFFFFFFFFF) \<noteq> a))"

definition page_sizes :: "FaunusIndex \<Rightarrow> u64 set" where
  "page_sizes I = {item_bytes I, leaf_bytes I, node_bytes I}"

definition stocked ::
  "(u64, 'q) queue_ops \<Rightarrow> ('q \<Rightarrow> u64 multiset) \<Rightarrow> FaunusIndex \<Rightarrow> (GlobalAddress \<Rightarrow> nat \<Rightarrow> bool) \<Rightarrow> ('q, 'cs, 'm) menv \<Rightarrow> nat \<Rightarrow>
   (GlobalAddress \<times> nat) list \<Rightarrow> bool" where
  "stocked Q elems I V e k xs \<longleftrightarrow> queue_law Q elems \<and> varied (fuel I) (me_rand e) \<and>
     (\<exists>live. local_inv elems {..< 2 ^ 64 - 1} live (me_alloc e) \<and>
        (\<forall>sz \<in> page_sizes I. \<exists>sa. me_alloc e sz = Some sa \<and> k \<le> size (elems (free_list sa)) \<and>
           (\<forall>off \<in># elems (free_list sa) + live sz. unat off < 2 ^ 46 \<and> V (GlobalAddress_raw off) (unat sz))) \<and>
        (\<forall>y \<in> set xs. \<exists>sz \<in> dom (me_alloc e). snd y = unat sz \<and> uintptr (fst y) \<in># live sz))"

lemma apart_blocks:
  assumes "block n a \<inter> block k (uintptr h) = {}" and "0 < n" and "0 < k" and "unat a < 2 ^ 50"
  shows "apart (GlobalAddress_raw a) n h k"
proof -
  let ?g = "GlobalAddress_raw a"
  have g: "unat ?g = unat a" using assms(4) by (simp add: unat_GlobalAddress_raw)
  have "unat a + n \<le> unat h \<or> unat h + k \<le> unat a"
  proof (rule ccontr)
    assume "\<not> ?thesis"
    then have "max (unat a) (unat h) \<in> block n a \<inter> block k (uintptr h)" using assms(2,3) by (auto simp: block_def)
    then show False using assms(1) by simp
  qed
  then show ?thesis
    using unat_gaddr_split [of ?g] unat_gaddr_split [of h] g by (cases "server_index ?g = server_index h") (simp_all add: apart_def)
qed

text \<open>Taking a slab from the free list of a class.\<close>

lemma local_pop:
  assumes Q: "queue_law Q elems" and inv: "local_inv elems own live la" and own: "own \<subseteq> {..< 2 ^ 64 - 1}"
    and la: "la sz = Some sa" and deq: "q_try_dequeue Q (free_list sa) = Some (off, q)"
  defines "la' \<equiv> la(sz \<mapsto> sa\<lparr>free_list := q\<rparr>)" and "live' \<equiv> live(sz := add_mset off (live sz))"
  shows "local_allocate Q backing sz la st = Inr (off, la', st)" and "local_inv elems own live' la'"
proof -
  show "local_allocate Q backing sz la st = Inr (off, la', st)"
    using la deq by (simp add: local_allocate_def slab_allocate_def la'_def)
  obtain area where area: "\<And>sz sa. la sz = Some sa \<Longrightarrow> slab_size sa = sz \<and> 0 < sz \<and> area sz \<subseteq> own \<and> tiled (area sz) (unat sz) (elems (free_list sa) + live sz)"
    and sep: "\<forall>sz sz'. sz \<in> dom la \<longrightarrow> sz' \<in> dom la \<longrightarrow> sz \<noteq> sz' \<longrightarrow> area sz \<inter> area sz' = {}"
    using inv unfolding local_inv_def by blast
  have e: "elems (free_list sa) = add_mset off (elems q)" by (rule queue_law_Some [OF Q deq])
  have "slab_size sa' = s \<and> 0 < s \<and> area s \<subseteq> own \<and> tiled (area s) (unat s) (elems (free_list sa') + live' s)" if "la' s = Some sa'" for s sa'
    using that area [of s sa'] area [OF la] e by (cases "s = sz") (auto simp: la'_def live'_def)
  moreover have "dom la' = dom la" using la by (auto simp: la'_def)
  ultimately show "local_inv elems own live' la'" unfolding local_inv_def using sep by (intro exI [of _ area]) simp
qed

lemma fresh_block:
  assumes inv: "local_inv elems own (live(sz := add_mset off (live sz))) la" and "sz \<in> dom la" and "sz' \<in> dom la" and b: "b \<in># live sz'"
  shows "block (unat sz) off \<inter> block (unat sz') b = {}"
proof (rule local_inv_disjoint [OF inv _ _ _ assms(2,3)])
  have "count ((live(sz := add_mset off (live sz))) sz) off = 1" by (rule local_inv_count [OF inv assms(2)]) simp
  then have "off \<notin># live sz" by (simp add: not_in_iff)
  then show "(sz, off) \<noteq> (sz', b)" using b by auto
qed (use b in auto)

lemma stocked_alloc:
  assumes st: "stocked Q elems I V e (Suc k) xs" and sz: "sz \<in> page_sizes I"
  shows "\<exists>off e1. e_alloc (mgr_env Q MQ C) sz e = Inr (off, e1) \<and> V (GlobalAddress_raw off) (unat sz) \<and>
    unat (server_index (GlobalAddress_raw off)) < 16 \<and> (\<forall>y \<in> set xs. apart (GlobalAddress_raw off) (unat sz) (fst y) (snd y)) \<and>
    stocked Q elems I V e1 k ((GlobalAddress_raw off, unat sz) # xs) \<and> me_queues e1 = me_queues e"
proof -
  obtain live where Q: "queue_law Q elems" and var: "varied (fuel I) (me_rand e)" and inv: "local_inv elems {..< 2 ^ 64 - 1} live (me_alloc e)"
    and cls: "\<And>s. s \<in> page_sizes I \<Longrightarrow> \<exists>sa. me_alloc e s = Some sa \<and> Suc k \<le> size (elems (free_list sa)) \<and>
       (\<forall>off \<in># elems (free_list sa) + live s. unat off < 2 ^ 46 \<and> V (GlobalAddress_raw off) (unat s))"
    and xs: "\<forall>y \<in> set xs. \<exists>s \<in> dom (me_alloc e). snd y = unat s \<and> uintptr (fst y) \<in># live s"
    using st unfolding stocked_def by blast
  obtain sa where sa: "me_alloc e sz = Some sa" "Suc k \<le> size (elems (free_list sa))"
      "\<forall>off \<in># elems (free_list sa) + live sz. unat off < 2 ^ 46 \<and> V (GlobalAddress_raw off) (unat sz)"
    using cls [OF sz] by blast
  have "elems (free_list sa) \<noteq> {#}" using sa(2) by auto
  then obtain off q where deq: "q_try_dequeue Q (free_list sa) = Some (off, q)" using queue_law_None [OF Q, of "free_list sa"] by auto
  have el: "elems (free_list sa) = add_mset off (elems q)" by (rule queue_law_Some [OF Q deq])
  define la where "la = (me_alloc e)(sz \<mapsto> sa\<lparr>free_list := q\<rparr>)"
  define live' where "live' = live(sz := add_mset off (live sz))"
  define e1 where "e1 = e\<lparr>me_alloc := la\<rparr>"
  note pop = local_pop [OF Q inv order_refl sa(1) deq, folded la_def live'_def]
  have al: "e_alloc (mgr_env Q MQ C) sz e = Inr (off, e1)" by (simp add: mgr_env_def pop(1) e1_def)
  have dom: "dom la = dom (me_alloc e)" using sa(1) by (auto simp: la_def)
  have off: "unat off < 2 ^ 46" "V (GlobalAddress_raw off) (unat sz)" using sa(3) el by simp_all
  have pos: "0 < unat s" if "s \<in> dom la" for s using pop(2) that unfolding local_inv_def by (auto simp: unat_gt_0)
  have szd: "sz \<in> dom la" using sa(1) dom by auto
  have ap: "\<forall>y \<in> set xs. apart (GlobalAddress_raw off) (unat sz) (fst y) (snd y)"
  proof
    fix y assume "y \<in> set xs"
    then obtain s where s: "s \<in> dom la" "snd y = unat s" "uintptr (fst y) \<in># live s" using xs dom by blast
    have "block (unat sz) off \<inter> block (unat s) (uintptr (fst y)) = {}" by (rule fresh_block [OF pop(2) [unfolded live'_def] szd s(1,3)])
    from apart_blocks [OF this pos [OF szd] pos [OF s(1)]] off(1) s(2) show "apart (GlobalAddress_raw off) (unat sz) (fst y) (snd y)" by simp
  qed
  have "\<exists>sa'. la s = Some sa' \<and> k \<le> size (elems (free_list sa')) \<and> (\<forall>a \<in># elems (free_list sa') + live' s. unat a < 2 ^ 46 \<and> V (GlobalAddress_raw a) (unat s))"
    if s: "s \<in> page_sizes I" for s
  proof (cases "s = sz")
    case True
    then show ?thesis using sa el by (auto simp: la_def live'_def)
  next
    case False
    then show ?thesis using cls [OF s] by (auto simp: la_def live'_def)
  qed
  moreover have "\<exists>s \<in> dom la. snd y = unat s \<and> uintptr (fst y) \<in># live' s" if "y \<in> set ((GlobalAddress_raw off, unat sz) # xs)" for y
    using that xs szd off(1) uintptr_GlobalAddress_raw [of off] unfolding dom by (auto simp: live'_def split: if_splits) (metis)
  ultimately have "stocked Q elems I V e1 k ((GlobalAddress_raw off, unat sz) # xs)"
    unfolding stocked_def using Q var pop(2) by (intro conjI exI [of _ live']) (simp_all add: e1_def)
  moreover have "unat (server_index (GlobalAddress_raw off)) < 16"
    using off(1) addr_small_iff_server [of "GlobalAddress_raw off"] by (simp add: unat_GlobalAddress_raw)
  moreover have "me_queues e1 = me_queues e" by (simp add: e1_def)
  ultimately show ?thesis using al ap off(2) by blast
qed

lemma local_free_dom: "dom (local_free Q sz off la) = dom la"
  by (auto simp: local_free_def split: option.splits if_splits)

lemma stocked_free:
  assumes st: "stocked Q elems I V e k ((g, unat sz) # xs)" and sz: "sz \<in> page_sizes I" and ap: "\<forall>y \<in> set xs. apart g (unat sz) (fst y) (snd y)"
  shows "stocked Q elems I V (e_free (mgr_env Q MQ C) sz (uintptr g) e) k xs"
proof -
  obtain live where Q: "queue_law Q elems" and var: "varied (fuel I) (me_rand e)" and inv: "local_inv elems {..< 2 ^ 64 - 1} live (me_alloc e)"
    and cls: "\<And>s. s \<in> page_sizes I \<Longrightarrow> \<exists>sa. me_alloc e s = Some sa \<and> k \<le> size (elems (free_list sa)) \<and>
       (\<forall>off \<in># elems (free_list sa) + live s. unat off < 2 ^ 46 \<and> V (GlobalAddress_raw off) (unat s))"
    and xs: "\<forall>y \<in> set ((g, unat sz) # xs). \<exists>s \<in> dom (me_alloc e). snd y = unat s \<and> uintptr (fst y) \<in># live s"
    using st unfolding stocked_def by blast
  obtain s where "unat sz = unat s" "uintptr g \<in># live s" using xs by auto
  then have g: "uintptr g \<in># live sz" by (simp add: word_unat_eq_iff [symmetric])
  define la where "la = local_free Q sz (uintptr g) (me_alloc e)"
  define live' where "live' = live(sz := live sz - {#uintptr g#})"
  note inv' = local_free_keeps [OF Q inv g, folded la_def live'_def]
  obtain sa where sa: "me_alloc e sz = Some sa" using cls [OF sz] by blast
  have la: "la = (me_alloc e)(sz \<mapsto> slab_free Q (uintptr g) sa)" by (simp add: la_def local_free_def sa)
  have dom: "dom la = dom (me_alloc e)" using sa by (auto simp: la)
  have pos: "0 < unat sz" using inv sa unfolding local_inv_def by (auto simp: unat_gt_0)
  have "\<exists>sa'. la s = Some sa' \<and> k \<le> size (elems (free_list sa')) \<and> (\<forall>a \<in># elems (free_list sa') + live' s. unat a < 2 ^ 46 \<and> V (GlobalAddress_raw a) (unat s))"
    if s: "s \<in> page_sizes I" for s
  proof (cases "s = sz")
    case True
    then show ?thesis
      using cls [OF sz] sa g by (auto simp: la live'_def slab_free_def queue_law_enqueue [OF Q] dest: in_diffD)
  next
    case False
    then show ?thesis using cls [OF s] by (auto simp: la live'_def)
  qed
  moreover have "\<exists>s \<in> dom la. snd y = unat s \<and> uintptr (fst y) \<in># live' s" if y: "y \<in> set xs" for y
  proof -
    have "y \<in> set ((g, unat sz) # xs)" using y by simp
    with xs obtain s where s: "s \<in> dom la" "snd y = unat s" "uintptr (fst y) \<in># live s" unfolding dom by blast
    have "uintptr (fst y) \<noteq> uintptr g" if "s = sz"
    proof
      assume "uintptr (fst y) = uintptr g"
      then have "fst y = g" by (metis GlobalAddress_raw_uintptr)
      then have "apart g (unat sz) g (unat sz)" using ap y s(2) that by auto
      then show False using apart_refl [of g "unat sz" "unat sz"] pos by simp
    qed
    then show ?thesis using s by (intro bexI [of _ s]) (auto simp: live'_def in_diff_count count_greater_zero_iff [symmetric] simp del: count_greater_zero_iff)
  qed
  ultimately show ?thesis
    unfolding stocked_def using Q var inv' by (intro conjI exI [of _ live']) (simp_all add: mgr_env_def la_def)
qed

text \<open>Random numbers.\<close>

definition skip :: "nat \<Rightarrow> ('q, 'cs, 'm) menv \<Rightarrow> ('q, 'cs, 'm) menv" where
  "skip j e = e\<lparr>me_rand := (\<lambda>i. me_rand e (i + j))\<rparr>"

lemma skip_simps [simp]: "skip i (skip j e) = skip (i + j) e" "me_rand (skip j e) i = me_rand e (i + j)"
  by (simp_all add: skip_def add.assoc)

lemma mgr_env_rand: "e_rand (mgr_env Q MQ C) e = (me_rand e 0, skip 1 e)"
  by (simp add: mgr_env_def skip_def)

lemma random_fp_run:
  assumes "\<exists>j < n. Fingerprint_of (ucast (me_rand e j AND 0x0FFF)) \<noteq> old"
  shows "\<exists>fp i. run (mem_handler (mgr_env Q MQ C)) (random_fp n old) (r, e) = Inr (fp, (r, skip i e))"
  using assms
proof (induction n arbitrary: e)
  case (Suc n)
  show ?case
  proof (cases "Fingerprint_of (ucast (me_rand e 0 AND 0x0FFF)) = old")
    case True
    obtain j where j: "j < Suc n" "Fingerprint_of (ucast (me_rand e j AND 0x0FFF)) \<noteq> old" using Suc.prems by blast
    then obtain j' where "j = Suc j'" using True by (cases j) auto
    then have "\<exists>j < n. Fingerprint_of (ucast (me_rand (skip 1 e) j AND 0x0FFF)) \<noteq> old" using j by auto
    from Suc.IH [OF this] show ?thesis using True by (auto simp: mem_run mgr_env_rand)
  next
    case False
    then show ?thesis by (auto simp: mem_run mgr_env_rand Let_def)
  qed
qed simp

lemma random_addr_run:
  assumes "\<exists>j < n. GlobalAddress_raw (me_rand e j AND 0x0003FFFFFFFFFF) \<noteq> old"
  shows "\<exists>a i. run (mem_handler (mgr_env Q MQ C)) (random_addr n old) (r, e) = Inr (a, (r, skip i e))"
  using assms
proof (induction n arbitrary: e)
  case (Suc n)
  show ?case
  proof (cases "GlobalAddress_raw (me_rand e 0 AND 0x0003FFFFFFFFFF) = old")
    case True
    obtain j where j: "j < Suc n" "GlobalAddress_raw (me_rand e j AND 0x0003FFFFFFFFFF) \<noteq> old" using Suc.prems by blast
    then obtain j' where "j = Suc j'" using True by (cases j) auto
    then have "\<exists>j < n. GlobalAddress_raw (me_rand (skip 1 e) j AND 0x0003FFFFFFFFFF) \<noteq> old" using j by auto
    from Suc.IH [OF this] show ?thesis using True by (auto simp: mem_run mgr_env_rand)
  next
    case False
    then show ?thesis by (auto simp: mem_run mgr_env_rand Let_def)
  qed
qed simp

lemma varied_skip:
  assumes "varied n s"
  shows "varied n (\<lambda>i. s (i + j))"
  unfolding varied_def
proof (intro allI conjI)
  have eq: "i + j' + j = i + j + j'" for i j' by simp
  show "\<exists>j' < n. Fingerprint_of (ucast (s (i + j' + j) AND 0x0FFF)) \<noteq> fp" for i fp
    unfolding eq using assms [unfolded varied_def] by blast
  show "\<exists>j' < n. GlobalAddress_raw (s (i + j' + j) AND 0x0003FFFFFFFFFF) \<noteq> a" for i a
    unfolding eq using assms [unfolded varied_def] by blast
qed

lemma stocked_skip: "stocked Q elems I V e k xs \<Longrightarrow> stocked Q elems I V (skip j e) k xs"
  using varied_skip [of "fuel I" "me_rand e" j] by (auto simp: stocked_def skip_def)

lemma stocked_fewer:
  assumes "stocked Q elems I V e k xs" and "j \<le> k" and "set ys \<subseteq> set xs"
  shows "stocked Q elems I V e j ys"
proof -
  obtain live where live: "queue_law Q elems" "varied (fuel I) (me_rand e)" "local_inv elems {..< 2 ^ 64 - 1} live (me_alloc e)"
    and cls: "\<And>s. s \<in> page_sizes I \<Longrightarrow> \<exists>sa. me_alloc e s = Some sa \<and> k \<le> size (elems (free_list sa)) \<and>
       (\<forall>off \<in># elems (free_list sa) + live s. unat off < 2 ^ 46 \<and> V (GlobalAddress_raw off) (unat s))"
    and xs: "\<forall>y \<in> set xs. \<exists>s \<in> dom (me_alloc e). snd y = unat s \<and> uintptr (fst y) \<in># live s"
    using assms(1) unfolding stocked_def by blast
  have "\<exists>sa. me_alloc e s = Some sa \<and> j \<le> size (elems (free_list sa)) \<and>
       (\<forall>off \<in># elems (free_list sa) + live s. unat off < 2 ^ 46 \<and> V (GlobalAddress_raw off) (unat s))" if "s \<in> page_sizes I" for s
    using cls [OF that] assms(2) le_trans by blast
  moreover have "\<forall>y \<in> set ys. \<exists>s \<in> dom (me_alloc e). snd y = unat s \<and> uintptr (fst y) \<in># live s" using xs assms(3) by blast
  ultimately show ?thesis unfolding stocked_def using live by blast
qed

lemma stocked_scramble:
  assumes "stocked Q elems I V e k xs"
  shows "\<exists>b' e1. run (mem_handler (mgr_env Q MQ C)) (setDifferentRandomFpAddr I b) (r, e) = Inr (b', (r, e1)) \<and>
    stocked Q elems I V e1 k xs \<and> me_queues e1 = me_queues e"
proof -
  have var: "varied (fuel I) (me_rand e)" using assms by (simp add: stocked_def)
  then have "\<exists>j < fuel I. Fingerprint_of (ucast (me_rand e (0 + j) AND 0x0FFF)) \<noteq> getFingerprint b" unfolding varied_def by blast
  then obtain fp i where fp: "run (mem_handler (mgr_env Q MQ C)) (random_fp (fuel I) (getFingerprint b)) (r, e) = Inr (fp, (r, skip i e))"
    using random_fp_run [of "fuel I" e "getFingerprint b" Q MQ C r] by auto
  have "\<exists>j < fuel I. GlobalAddress_raw (me_rand e (i + j) AND 0x0003FFFFFFFFFF) \<noteq> getAddr (setFingerprint b fp)" using var unfolding varied_def by blast
  then obtain a i' where a: "run (mem_handler (mgr_env Q MQ C)) (random_addr (fuel I) (getAddr (setFingerprint b fp))) (r, skip i e) =
      Inr (a, (r, skip i' (skip i e)))"
    using random_addr_run [of "fuel I" "skip i e" "getAddr (setFingerprint b fp)" Q MQ C r] by (auto simp: add.commute)
  have "run (mem_handler (mgr_env Q MQ C)) (setDifferentRandomFpAddr I b) (r, e) = Inr (setAddr (setFingerprint b fp) a, (r, skip i' (skip i e)))"
    by (simp only: setDifferentRandomFpAddr_def run_bind fp a Let_def sum.case prod.case run.simps)
  moreover have "me_queues (skip i' (skip i e)) = me_queues e" by (simp add: skip_def)
  ultimately show ?thesis using stocked_skip [OF stocked_skip [OF assms]] by blast
qed

text \<open>The allocators of a compute server are a source of pages, and using it leaves the maintenance queues alone.\<close>

interpretation slab: page_source "mgr_env Q MQ C" I "\<lambda>V e k xs. stocked Q elems I V e k xs \<and> me_queues e = qs"
  for Q :: "(u64, 'q) queue_ops" and MQ :: "(SmoOp \<times> GlobalAddress, 'm) queue_ops" and C :: "('cs, cache_item) cache_ops" and I elems qs
proof unfold_locales
  fix V k xs sz and e :: "('q, 'cs, 'm) menv"
  assume st: "stocked Q elems I V e (Suc k) xs \<and> me_queues e = qs" and sz: "sz \<in> {item_bytes I, leaf_bytes I, node_bytes I}"
  show "\<exists>off e1. e_alloc (mgr_env Q MQ C) sz e = Inr (off, e1) \<and> V (GlobalAddress_raw off) (unat sz) \<and> unat (server_index (GlobalAddress_raw off)) < 16 \<and>
        (\<forall>y \<in> set xs. apart (GlobalAddress_raw off) (unat sz) (fst y) (snd y)) \<and> (stocked Q elems I V e1 k ((GlobalAddress_raw off, unat sz) # xs) \<and> me_queues e1 = qs)"
    using stocked_alloc [of Q elems I V e k xs sz MQ C] st sz unfolding page_sizes_def by metis
next
  fix V k xs g and e :: "('q, 'cs, 'm) menv"
  assume st: "stocked Q elems I V e k ((g, unat (item_bytes I)) # xs) \<and> me_queues e = qs" and ap: "\<forall>y \<in> set xs. apart g (unat (item_bytes I)) (fst y) (snd y)"
  have "stocked Q elems I V (e_free (mgr_env Q MQ C) (item_bytes I) (uintptr g) e) k xs"
    by (rule stocked_free [OF conjunct1 [OF st] _ ap]) (simp add: page_sizes_def)
  then show "stocked Q elems I V (e_free (mgr_env Q MQ C) (item_bytes I) (uintptr g) e) k xs \<and> me_queues (e_free (mgr_env Q MQ C) (item_bytes I) (uintptr g) e) = qs"
    using st by (simp add: mgr_env_def)
next
  fix V k xs j ys and e :: "('q, 'cs, 'm) menv"
  show "stocked Q elems I V e k xs \<and> me_queues e = qs \<Longrightarrow> j \<le> k \<Longrightarrow> set ys \<subseteq> set xs \<Longrightarrow> stocked Q elems I V e j ys \<and> me_queues e = qs"
    using stocked_fewer by blast
next
  fix V k xs b r and e :: "('q, 'cs, 'm) menv"
  assume "stocked Q elems I V e k xs \<and> me_queues e = qs"
  then show "\<exists>b' e1. run (mem_handler (mgr_env Q MQ C)) (setDifferentRandomFpAddr I b) (r, e) = Inr (b', (r, e1)) \<and> (stocked Q elems I V e1 k xs \<and> me_queues e1 = qs)"
    using stocked_scramble [of Q elems I V e k xs MQ C b r] by auto
qed

subsection \<open>An index of a compute server\<close>

text \<open>
  \<open>faunus_store Q elems I w n k\<close>: the memory servers of the compute server \<open>w\<close> hold an index of height \<open>n\<close> with room in every leaf,
  and its allocators have \<open>k\<close> free slabs of every size the index uses; \<open>stored I w n\<close> is the map it stores.
\<close>

definition faunus_store ::
  "(u64, 'q) queue_ops \<Rightarrow> ('q \<Rightarrow> u64 multiset) \<Rightarrow> FaunusIndex \<Rightarrow> ('q, 'cs, 'm) cworld \<Rightarrow> nat \<Rightarrow> nat \<Rightarrow> bool" where
  "faunus_store Q elems I w n k \<longleftrightarrow> tree_inv I (fst (mgr_abs w)) n \<and> roomy I (fst (mgr_abs w)) n {} \<and>
     stocked Q elems I (rm_valid (fst (mgr_abs w))) (snd (mgr_abs w)) k (footprint I (fst (mgr_abs w)) n)"

definition stored :: "FaunusIndex \<Rightarrow> ('q, 'cs, 'm) cworld \<Rightarrow> nat \<Rightarrow> bytes \<rightharpoonup> bytes" where
  "stored I w n = tree_map I (fst (mgr_abs w)) n"

definition usable_key :: "Config \<Rightarrow> bytes \<Rightarrow> bool" where
  "usable_key c key \<longleftrightarrow> length key = KEY_SIZE c \<and> key \<noteq> ArrayVar_max (KEY_SIZE c)"

lemma store_insert:
  assumes st: "faunus_store Q elems I w n (n + 3 + k)" and idx: "plain_index I" "Suc n < fuel I" "Suc n < 2 ^ 64" "Suc n \<le> levels I"
    and key: "usable_key (cfg I) key" and val: "length val = VALUE_SIZE (cfg I)"
  shows "\<exists>w' n'. run (mgr_handler Q MQ C tid) (faunus_insert I key val) w = Inr (True, w') \<and> n' \<le> Suc n \<and>
    faunus_store Q elems I w' n' k \<and> stored I w' n' = (stored I w n)(key \<mapsto> val)"
proof -
  let ?r = "fst (mgr_abs w)" and ?e = "snd (mgr_abs w)"
  have st: "tree_inv I ?r n" "roomy I ?r n {}" "stocked Q elems I (rm_valid ?r) ?e (Suc (Suc (Suc n + k))) (footprint I ?r n)"
    using st by (simp_all add: faunus_store_def numeral_3_eq_3)
  have key: "length key = KEY_SIZE (cfg I)" "key \<noteq> ArrayVar_max (KEY_SIZE (cfg I))" using key by (simp_all add: usable_key_def)
  have "n < levels I" using idx(4) by simp
  then obtain r' e' n' where run: "run (mem_handler (mgr_env Q MQ C)) (faunus_insert I key val) (mgr_abs w) = Inr (True, (r', e'))" and rest: "n' \<le> Suc n"
      "tree_inv I r' n'" "roomy I r' n' {}" "tree_map I r' n' = (tree_map I ?r n)(key \<mapsto> val)" "stocked Q elems I (rm_valid r') e' k (footprint I r' n')"
    using slab.insert_run [OF st(1,2) idx(1-3) _ key val conjI [OF st(3) refl], of MQ C] by auto
  obtain w' where "run (mgr_handler Q MQ C tid) (faunus_insert I key val) w = Inr (True, w')" "mgr_abs w' = (r', e')"
    using mgr.run_refines [OF run] by blast
  then show ?thesis using rest unfolding faunus_store_def stored_def by (intro exI [of _ w'] exI [of _ n']) simp
qed

lemma store_reads:
  assumes "faunus_store Q elems I w n k" and "\<not> has_cache I" and "usable_key (cfg I) key"
  shows "\<exists>w'. run (mgr_handler Q MQ C tid) (faunus_read I key) w = Inr ((stored I w n key \<noteq> None, stored I w n key), w') \<and> mgr_abs w' = mgr_abs w"
  using tree_read_mgr [of I w n key] assms by (simp add: faunus_store_def stored_def usable_key_def)

subsection \<open>A sample store\<close>

text \<open>
  One region of 3000 zero bytes with the empty index in it, and slab allocators with 20 free slabs of every size that the sample index uses.
\<close>

definition slabs :: "u64 \<Rightarrow> u64 \<Rightarrow> nat \<Rightarrow> u64 list" where
  "slabs start sz n = map (\<lambda>i. start + of_nat i * sz) [0..<n]"

definition sample_allocator :: "u64 list LocalAllocator" where
  "sample_allocator = [8 \<mapsto> \<lparr>slab_size = 8, num_slabs = 1, free_list = []\<rparr>,
     64 \<mapsto> \<lparr>slab_size = 64, num_slabs = 1, free_list = tl (slabs 64 64 20)\<rparr>,
     72 \<mapsto> \<lparr>slab_size = 72, num_slabs = 1, free_list = slabs 1400 72 20\<rparr>,
     2 \<mapsto> \<lparr>slab_size = 2, num_slabs = 1, free_list = slabs 2900 2 20\<rparr>]"

definition sample_store :: "rmemory \<Rightarrow> (u64 list, unit, (SmoOp \<times> GlobalAddress) list) cworld" where
  "sample_store r = (sample_world r)\<lparr>cw_alloc := sample_allocator, cw_rand := (\<lambda>i. of_nat i)\<rparr>"

definition sample_like :: "FaunusIndex \<Rightarrow> bool" where
  "sample_like I \<longleftrightarrow> cfg I = sample_config\<lparr>MAINTENANCE_ENABLED := MAINTENANCE_ENABLED (cfg I)\<rparr> \<and> root_offset_pointer I = GlobalAddress_raw 8 \<and> fuel I = 10"

lemma sample_sizes:
  assumes "sample_like I"
  shows "sizeof_LeafNode (cfg I) = 64" "sizeof_InternalNode (cfg I) = 72" "sizeof_KVItem (cfg I) = 2" "page_sizes I = {2, 64, 72}"
    "branch_factor (cfg I) = 4" "config_ok (cfg I)"
proof -
  obtain b where b: "cfg I = sample_config\<lparr>MAINTENANCE_ENABLED := b\<rparr>" using assms by (auto simp: sample_like_def)
  show s: "sizeof_LeafNode (cfg I) = 64" "sizeof_InternalNode (cfg I) = 72" "sizeof_KVItem (cfg I) = 2" "branch_factor (cfg I) = 4"
    unfolding b by (simp_all add: sizeof_LeafNode_def sizeof_InternalNode_def sizeof_KVItem_def sizeof_Header_def header_pad_def node_pad_def
      sizeof_InternalEntry_def sample_config_def)
  show "page_sizes I = {2, 64, 72}" by (simp add: page_sizes_def item_bytes_def leaf_bytes_def node_bytes_def s)
  show "config_ok (cfg I)" using sample_config_ok unfolding b by (simp add: config_ok_def)
qed

lemma sample_plain: "plain_index sample_index"
proof -
  have "branch_factor sample_config = 2 ^ 2" "split_limit sample_config = 2" "\<not> MAINTENANCE_ENABLED sample_config"
    by (simp_all add: sample_config_def split_limit_def)
  then show ?thesis unfolding plain_index_def by (auto intro!: exI [of _ 2])
qed

text \<open>Consecutive numbers differ in their lowest bit, which fingerprints and addresses keep.\<close>

lemma sample_varied: "varied 10 (\<lambda>i. of_nat i)"
proof -
  have f: "bit (Fingerprint_of (ucast ((of_nat i :: u64) AND 0x0FFF))) 0 = odd i" for i
    unfolding Fingerprint_of_def bit_ucast_iff bit_and_iff by (simp add: bit_0)
  have a: "bit (GlobalAddress_raw (of_nat i AND 0x0003FFFFFFFFFF)) 0 = odd i" for i
    unfolding GlobalAddress_raw_def bit_ucast_iff bit_and_iff by (simp add: bit_0)
  have step: "odd (i + 0) \<noteq> odd (i + 1)" for i :: nat by simp
  have "Fingerprint_of (ucast ((of_nat (i + 0) :: u64) AND 0x0FFF)) \<noteq> fp \<or> Fingerprint_of (ucast ((of_nat (i + 1) :: u64) AND 0x0FFF)) \<noteq> fp" for i fp
    using f [of "i + 0"] f [of "i + 1"] step [of i] by metis
  moreover have "GlobalAddress_raw (of_nat (i + 0) AND 0x0003FFFFFFFFFF) \<noteq> x \<or> GlobalAddress_raw (of_nat (i + 1) AND 0x0003FFFFFFFFFF) \<noteq> x" for i x
    using a [of "i + 0"] a [of "i + 1"] step [of i] by metis
  ultimately show ?thesis unfolding varied_def by (meson one_less_numeral_iff semiring_norm(76) zero_less_numeral)
qed

lemma slabs_tiled:
  assumes "unat start + n * unat sz < 2 ^ 64" and "0 < sz"
  shows "tiled {unat start ..< unat start + n * unat sz} (unat sz) (mset (slabs start sz n))"
  unfolding slabs_def by (rule tiled_slabs [OF assms])

lemma slabs_tl: "mset (slabs 64 64 20) = mset (tl (slabs 64 64 20)) + {#64#}"
  by (simp add: slabs_def upt_rec)

lemma sample_local_inv:
  "local_inv mset {..< 2 ^ 64 - 1} ((\<lambda>_. {#})(8 := {#8#}, 64 := {#64#})) sample_allocator"
proof -
  define area where "area = ((\<lambda>_. {}) :: u64 \<Rightarrow> nat set)(8 := {8..<16}, 64 := {64..<1344}, 72 := {1400..<2840}, 2 := {2900..<2940})"
  have t: "tiled {8..<16} 8 {#8 :: u64#}" by (simp add: tiled_def block_def)
  have l: "tiled {64..<1344} 64 (mset (slabs 64 64 20))" "tiled {1400..<2840} 72 (mset (slabs 1400 72 20))" "tiled {2900..<2940} 2 (mset (slabs 2900 2 20))"
    using slabs_tiled [of 64 20 64] slabs_tiled [of 1400 20 72] slabs_tiled [of 2900 20 2] by simp_all
  have "slab_size sa = sz \<and> 0 < sz \<and> area sz \<subseteq> {..< 2 ^ 64 - 1} \<and>
      tiled (area sz) (unat sz) (mset (free_list sa) + ((\<lambda>_. {#})(8 := {#8#}, 64 := {#64#})) sz)"
    if "sample_allocator sz = Some sa" for sz sa
    using that t l slabs_tl by (auto simp: sample_allocator_def area_def split: if_splits)
  moreover have "\<forall>sz sz'. sz \<in> dom sample_allocator \<longrightarrow> sz' \<in> dom sample_allocator \<longrightarrow> sz \<noteq> sz' \<longrightarrow> area sz \<inter> area sz' = {}"
    by (auto simp: sample_allocator_def area_def split: if_splits)
  ultimately show ?thesis unfolding local_inv_def by (intro exI [of _ area]) blast
qed

lemma sample_valid:
  assumes "unat off + n \<le> 3000"
  shows "rm_valid [replicate 3000 0] (GlobalAddress_raw off) n"
proof -
  have "unat (GlobalAddress_raw off) = unat off" using assms by (simp add: unat_GlobalAddress_raw)
  then have split: "unat (server_index (GlobalAddress_raw off)) * 2 ^ 42 + unat (gaddr_offset (GlobalAddress_raw off)) = unat off"
    using unat_gaddr_split [of "GlobalAddress_raw off"] by simp
  have zero: "unat (server_index (GlobalAddress_raw off)) = 0"
  proof (rule ccontr)
    assume "\<not> ?thesis"
    then have "2 ^ 42 \<le> unat (server_index (GlobalAddress_raw off)) * 2 ^ 42" by simp
    then show False using split assms by simp
  qed
  then show ?thesis using split assms by (simp add: rm_valid_def)
qed

lemma slabs_below:
  assumes "unat start + n * unat sz \<le> 3000" and "off \<in> set (slabs start sz n)"
  shows "unat off + unat sz \<le> 3000"
proof -
  obtain i where i: "i < n" "off = start + of_nat i * sz" using assms(2) by (auto simp: slabs_def)
  have le: "Suc i * unat sz \<le> n * unat sz" using i(1) by (intro mult_le_mono) simp_all
  moreover have "unat off = unat start + i * unat sz"
    unfolding i(2) by (rule unat_slab_offset [of start n sz i]) (use assms(1) i(1) in simp_all)
  ultimately show ?thesis using assms(1) by simp
qed

lemma sample_stocked:
  assumes like: "sample_like I" and valid: "\<And>g k. rm_valid r g k = rm_valid [replicate 3000 0] g k"
  shows "stocked fifo_ops mset I (rm_valid r) (snd (mgr_abs (sample_store r))) 19 [(GlobalAddress_raw 8, 8), (GlobalAddress_raw 64, 64)]"
proof -
  let ?live = "((\<lambda>_. {#})(8 := {#8#}, 64 := {#64#})) :: u64 \<Rightarrow> u64 multiset"
  let ?e = "snd (mgr_abs (sample_store r))"
  have e: "me_alloc ?e = sample_allocator" "me_rand ?e = (\<lambda>i. of_nat i)" by (simp_all add: mgr_abs_def sample_store_def)
  have ok: "unat off < 2 ^ 46 \<and> rm_valid r (GlobalAddress_raw off) (unat sz)"
    if "unat start + n * unat sz \<le> 3000" "off \<in> set (slabs start sz n)" for off start sz n
    using slabs_below [OF that] sample_valid [OF slabs_below [OF that]] by (simp add: valid)
  have "set (slabs 64 64 20) = insert 64 (set (tl (slabs 64 64 20)))" using arg_cong [OF slabs_tl, of set_mset] by simp
  then have c: "\<forall>off \<in># mset (tl (slabs 64 64 20)) + {#64#}. unat off < 2 ^ 46 \<and> rm_valid r (GlobalAddress_raw off) 64"
      "\<forall>off \<in># mset (slabs 1400 72 20). unat off < 2 ^ 46 \<and> rm_valid r (GlobalAddress_raw off) 72"
      "\<forall>off \<in># mset (slabs 2900 2 20). unat off < 2 ^ 46 \<and> rm_valid r (GlobalAddress_raw off) 2"
    using ok [of 64 20 64] ok [of 1400 20 72] ok [of 2900 20 2] by auto
  have "\<exists>sa. sample_allocator sz = Some sa \<and> 19 \<le> size (mset (free_list sa)) \<and>
      (\<forall>off \<in># mset (free_list sa) + ?live sz. unat off < 2 ^ 46 \<and> rm_valid r (GlobalAddress_raw off) (unat sz))"
    if "sz \<in> page_sizes I" for sz
    using that c unfolding sample_sizes(4) [OF like] by (auto simp: sample_allocator_def slabs_def)
  then show ?thesis
    unfolding stocked_def e using fifo_queue_law sample_varied sample_local_inv like
    by (intro conjI exI [of _ ?live]) (auto simp: sample_like_def sample_allocator_def uintptr_GlobalAddress_raw)
qed

lemma sample_faunus_store:
  assumes like: "sample_like I"
  shows "\<exists>r. faunus_store fifo_ops mset I (sample_store r) 0 19 \<and> stored I (sample_store r) 0 = Map.empty \<and>
     fst (mgr_abs (sample_store r)) = r \<and> root_at I r = GlobalAddress_raw 64"
proof -
  let ?r0 = "[replicate 3000 0] :: rmemory"
  define E :: "(bool, cache_item) env_ops" where "E = \<lparr>e_alloc = (\<lambda>n e. Inr (if e then 64 else 8, True)), e_free = (\<lambda>n off e. e), e_rand = (\<lambda>e. (0, e)), e_search = (\<lambda>key e. (None, e)),
    e_add = (\<lambda>lo hi x e. e), e_invalidate = (\<lambda>x e. e), e_enqueue = (\<lambda>i op g e. e), e_local = (\<lambda>c g e. Inr (False, e))\<rparr>"
  note sizes = sample_sizes [OF like]
  have small: "rm_small ?r0" by (simp add: rm_small_def)
  have v: "rm_valid ?r0 (GlobalAddress_raw 8) 8" "rm_valid ?r0 (GlobalAddress_raw 64) 64" "rm_valid ?r0 (GlobalAddress_raw 64) 72"
    using sample_valid [of 8 8] sample_valid [of 64 64] sample_valid [of 64 72] by simp_all
  have ap: "apart (GlobalAddress_raw 64) 64 (GlobalAddress_raw 8) 8" by code_simp
  have "unat (gaddr_offset (GlobalAddress_raw 8)) = 8" "unat (server_index (GlobalAddress_raw 8)) = 0" by code_simp+
  then have "rm_load ?r0 (GlobalAddress_raw 8) 8 = replicate 8 0" by (simp add: rm_load_def bslice_def)
  then have zero: "rm_load64 ?r0 (GlobalAddress_raw 8) = 0" by (simp add: rm_load64_def) code_simp
  have I': "I = I\<lparr>root_offset_pointer := GlobalAddress_raw 8, num_queues := if (0 :: nat) > 0 then 0 else num_queues I\<rparr>" using like by (simp add: sample_like_def)
  obtain r where r: "rm_load64 r (GlobalAddress_raw 8) = uintptr (GlobalAddress_raw 64)" "root_at I r = GlobalAddress_raw 64"
      "leaf_at (cfg I) r (GlobalAddress_raw 64) = root_leaf (cfg I)" "rm_small r = rm_small ?r0" "\<forall>g n. rm_valid r g n = rm_valid ?r0 g n"
    using initialize_run [OF _ rm_small_ok [OF small] _ _ _ _ _ _ I', of E False True 64 True] sizes v ap zero by (auto simp: E_def)
  have ptr: "root_offset_pointer I = GlobalAddress_raw 8" "0 < fuel I" using like by (simp_all add: sample_like_def)
  note empty = empty_tree [OF sizes(6), of r, unfolded r(2) ptr(1) sizes(1,2)]
  have e: "tree_inv I r 0" "tree_map I r 0 = Map.empty" "footprint I r 0 = [(GlobalAddress_raw 8, 8), (GlobalAddress_raw 64, 64)]"
    using small r v ap ptr(2) by (intro empty; simp add: apart_commute)+
  have m: "fst (mgr_abs (sample_store r)) = r" using sample_world_memory [of r] by (simp add: mgr_abs_def sample_store_def)
  have "num_used (root_leaf (cfg I)) = 0" by (simp add: num_used_taken taken_slots_root_leaf)
  then have "roomy I r 0 {}" using r(2,3) sizes(5) by (simp add: roomy_def)
  then show ?thesis
    using e m r(2) sample_stocked [OF like, of r] r(5) by (intro exI [of _ r]) (simp add: faunus_store_def stored_def)
qed

lemma sample_index_like: "sample_like sample_index"
  by (simp add: sample_like_def)

subsection \<open>Properties\<close>

text \<open>
  C1. Insertion refines map update. An index without node cache and maintenance threads, whose leaves have a power of two of slots and
  whose watermark is below them, is in the memory of a compute server's memory servers with room in every leaf, and the slab allocators have \<open>n + 3 + k\<close>
  free slabs of every size in use. Then \<^verbatim>\<open>insert\<close> run by the manager returns true, whatever it splits on the way up to a new root; the invariant
  holds again with room in every leaf and \<open>k\<close> slabs left; the tree has grown by at most one level; the stored map is the old one with
  the key bound to the new value, whether the key was there or not; and every \<^verbatim>\<open>read\<close> afterwards returns what this map says.
\<close>

theorem insert_refines_update:
  assumes "faunus_store Q elems I w n (n + 3 + k)" and "plain_index I" and "Suc n < fuel I" and "Suc n < 2 ^ 64" and "Suc n \<le> levels I"
    and "usable_key (cfg I) key" and "length val = VALUE_SIZE (cfg I)"
  shows "\<exists>w' n'. run (mgr_handler Q MQ C tid) (faunus_insert I key val) w = Inr (True, w') \<and> n' \<le> Suc n \<and>
    faunus_store Q elems I w' n' k \<and> stored I w' n' = (stored I w n)(key \<mapsto> val) \<and>
    (\<forall>key'. usable_key (cfg I) key' \<longrightarrow> (\<exists>w''. run (mgr_handler Q MQ C tid) (faunus_read I key') w' =
       Inr ((((stored I w n)(key \<mapsto> val)) key' \<noteq> None, ((stored I w n)(key \<mapsto> val)) key'), w'') \<and> mgr_abs w'' = mgr_abs w'))"
proof -
  have cache: "\<not> has_cache I" using assms(2) by (auto simp: plain_index_def)
  obtain w' n' where w': "run (mgr_handler Q MQ C tid) (faunus_insert I key val) w = Inr (True, w')" "n' \<le> Suc n" "faunus_store Q elems I w' n' k"
      "stored I w' n' = (stored I w n)(key \<mapsto> val)"
    using store_insert [OF assms] by blast
  then show ?thesis using store_reads [OF w'(3) cache, unfolded w'(4)] by blast
qed

theorem insert_refines_update_witness:
  "\<exists>w w' w'' n'. run (mgr_handler fifo_ops fifo_ops no_cache 0) (faunus_insert sample_index [7] [42]) w = Inr (True, w') \<and>
    stored sample_index w' n' = [[7] \<mapsto> [42]] \<and>
    run (mgr_handler fifo_ops fifo_ops no_cache 0) (faunus_read sample_index [7]) w' = Inr ((True, Some [42]), w'')"
proof -
  obtain r where r: "faunus_store fifo_ops mset sample_index (sample_store r) 0 (0 + 3 + 16)" "stored sample_index (sample_store r) 0 = Map.empty"
    using sample_faunus_store [OF sample_index_like] by auto
  have key: "usable_key (cfg sample_index) [7]" using sample_keys by (simp add: usable_key_def)
  show ?thesis
    using insert_refines_update [OF r(1) sample_plain _ _ _ key, of "[42]" fifo_ops no_cache 0] key r(2) sample_keys by (force simp: sample_index_def)
qed

end
