(* ===== verification/Maintenance.thy ===== *)
theory Maintenance
  imports Faunus_Insert
begin

text \<open>
  \<^verbatim>\<open>src/src/util/maintenance_queue.hpp\<close> and the maintenance part of \<^verbatim>\<open>src/src/kv_index/faunus_index.cpp\<close>: the
  queues of structure-modification requests, the worker that serves one of them, and the requests that stop the workers. The
  queue below is third-party (\<open>queue_ops\<close>, \<open>queue_law\<close>); it keeps what is put in, in no order that the
  workers may rely on. What other threads put in while a worker polls is the argument \<open>arrivals\<close>: the requests
  that arrive before each poll. A worker that finds nothing polls again; the polls are bounded by fuel.
\<close>

type_synonym rpc = "SmoOp \<times> GlobalAddress"

subsection \<open>The queue\<close>

definition mq_enqueue :: "(rpc, 'm) queue_ops \<Rightarrow> rpc \<Rightarrow> 'm \<Rightarrow> 'm" where
  "mq_enqueue MQ rpc q = q_enqueue MQ rpc q"

definition mq_try_dequeue :: "(rpc, 'm) queue_ops \<Rightarrow> 'm \<Rightarrow> (rpc \<times> 'm) option" where
  "mq_try_dequeue MQ q = q_try_dequeue MQ q"

primrec wait_dequeue ::
  "nat \<Rightarrow> (rpc, 'm) queue_ops \<Rightarrow> (nat \<Rightarrow> rpc list) \<Rightarrow> nat \<Rightarrow> 'm \<Rightarrow> err + (rpc \<times> nat \<times> 'm)" where
  "wait_dequeue 0 MQ arrivals t q = Inl Diverges"
| "wait_dequeue (Suc n) MQ arrivals t q =
     (case mq_try_dequeue MQ (fold (mq_enqueue MQ) (arrivals t) q) of
        Some (rpc, q') \<Rightarrow> Inr (rpc, Suc t, q')
      | None \<Rightarrow> wait_dequeue n MQ arrivals (Suc t) (fold (mq_enqueue MQ) (arrivals t) q))"

definition mq_empty :: "(rpc, 'm) queue_ops \<Rightarrow> 'm \<Rightarrow> bool \<times> 'm" where
  "mq_empty MQ q = (case mq_try_dequeue MQ q of None \<Rightarrow> (True, q) | Some (dummy, q') \<Rightarrow> (False, q'))"

subsection \<open>The queues of an index\<close>

definition create_maintenance_queues :: "(rpc, 'm) queue_ops \<Rightarrow> nat \<Rightarrow> 'm list" where
  "create_maintenance_queues MQ n = replicate n (q_empty MQ)"

definition get_maintenance_queue :: "nat \<Rightarrow> 'm list \<Rightarrow> 'm option" where
  "get_maintenance_queue cs_id queues = (if cs_id < length queues then Some (queues ! cs_id) else None)"

definition stop_maintenance :: "(rpc, 'm) queue_ops \<Rightarrow> nat \<Rightarrow> 'm list \<Rightarrow> 'm list" where
  "stop_maintenance MQ threads_per_queue queues =
     map (\<lambda>q. fold (mq_enqueue MQ) (replicate threads_per_queue (STOP, Null)) q) queues"

definition num_maintenance_queues :: "'m list \<Rightarrow> nat" where
  "num_maintenance_queues queues = length queues"

definition finalize :: "(rpc, 'm) queue_ops \<Rightarrow> nat \<Rightarrow> 'm list \<Rightarrow> bool \<times> 'm list" where
  "finalize MQ num_maintenance_threads_per_queue queues = (True, stop_maintenance MQ num_maintenance_threads_per_queue queues)"

subsection \<open>The worker\<close>

text \<open>
  One request: the statistics of an insertion around \<^verbatim>\<open>split_leaf\<close>. The latency is what the clock measures,
  a stream of the model. The promise of the request is not observed by anyone; the results are collected instead.
\<close>

definition process_rpc ::
  "(u64, 'q) queue_ops \<Rightarrow> (rpc, 'm) queue_ops \<Rightarrow> ('cs, cache_item) cache_ops \<Rightarrow> nat \<Rightarrow> FaunusIndex \<Rightarrow> rat \<Rightarrow> rpc \<Rightarrow>
   ('q, 'cs, 'm) cworld \<Rightarrow> err + (bool \<times> ('q, 'cs, 'm) cworld)" where
  "process_rpc Q MQ C tid I latency_us rpc w =
     (let track = (\<lambda>f w. if has_tracker I then w\<lparr>cw_mgr := with_tracker tid f (cw_mgr w)\<rparr> else w);
          w1 = track (begin_operation Insert) w
      in case fst rpc of
           SPLIT \<Rightarrow> (case run (mgr_handler Q MQ C tid) (split_leaf I (snd rpc)) w1 of
               Inl e \<Rightarrow> Inl e
             | Inr (result, w2) \<Rightarrow> Inr (result, track (end_operation latency_us result) w2))
         | MERGE \<Rightarrow> Inl AssertionFailed
         | STOP \<Rightarrow> Inr (False, w1))"

primrec worker_loop ::
  "nat \<Rightarrow> (u64, 'q) queue_ops \<Rightarrow> (rpc, 'm) queue_ops \<Rightarrow> ('cs, cache_item) cache_ops \<Rightarrow> nat \<Rightarrow> FaunusIndex \<Rightarrow> (nat \<Rightarrow> rat) \<Rightarrow>
   (nat \<Rightarrow> rpc list) \<Rightarrow> nat \<Rightarrow> 'm \<Rightarrow> (GlobalAddress \<times> bool) list \<Rightarrow> ('q, 'cs, 'm) cworld \<Rightarrow>
   err + ((GlobalAddress \<times> bool) list \<times> nat \<times> 'm \<times> ('q, 'cs, 'm) cworld)" where
  "worker_loop 0 Q MQ C tid I lat arrivals t q processed w = Inl Diverges"
| "worker_loop (Suc n) Q MQ C tid I lat arrivals t q processed w =
     (case wait_dequeue (Suc n) MQ arrivals t q of
        Inl e \<Rightarrow> Inl e
      | Inr (rpc, t', q') \<Rightarrow>
          if fst rpc = STOP then Inr (processed, t', q', w)
          else (case process_rpc Q MQ C tid I (lat (length processed)) rpc w of
                  Inl e \<Rightarrow> Inl e
                | Inr (result, w') \<Rightarrow> worker_loop n Q MQ C tid I lat arrivals t' q' (processed @ [(snd rpc, result)]) w'))"

definition maintenance_worker ::
  "nat \<Rightarrow> (u64, 'q) queue_ops \<Rightarrow> (rpc, 'm) queue_ops \<Rightarrow> ('cs, cache_item) cache_ops \<Rightarrow> nat \<Rightarrow> nat \<Rightarrow> FaunusIndex \<Rightarrow> (nat \<Rightarrow> rat) \<Rightarrow>
   (nat \<Rightarrow> rpc list) \<Rightarrow> ('q, 'cs, 'm) cworld \<Rightarrow> err + ((GlobalAddress \<times> bool) list \<times> ('q, 'cs, 'm) cworld)" where
  "maintenance_worker n Q MQ C cs_id tid I lat arrivals w =
     (case get_maintenance_queue cs_id (cw_queues w) of
        None \<Rightarrow> Inr ([], w)
      | Some queue \<Rightarrow>
          (case worker_loop n Q MQ C tid I lat arrivals 0 queue [] w of
             Inl e \<Rightarrow> Inl e
           | Inr (processed, t, q, w') \<Rightarrow> Inr (processed, w'\<lparr>cw_queues := (cw_queues w')[cs_id := q]\<rparr>)))"

subsection \<open>What is still to be served\<close>

definition pending :: "('m \<Rightarrow> rpc multiset) \<Rightarrow> (nat \<Rightarrow> rpc list) \<Rightarrow> nat \<Rightarrow> nat \<Rightarrow> 'm \<Rightarrow> rpc multiset" where
  "pending elems arrivals N t q = elems q + sum_list (map (\<lambda>i. mset (arrivals i)) [t..<N])"

lemma elems_mq_fold:
  assumes "queue_law MQ elems"
  shows "elems (fold (mq_enqueue MQ) xs q) = mset xs + elems q"
  by (induction xs arbitrary: q) (simp_all add: mq_enqueue_def queue_law_enqueue [OF assms])

lemma pending_poll:
  assumes "queue_law MQ elems" and "\<forall>i \<ge> N. arrivals i = []"
  shows "pending elems arrivals N (Suc t) (fold (mq_enqueue MQ) (arrivals t) q) = pending elems arrivals N t q"
  using assms by (cases "t < N") (simp_all add: pending_def elems_mq_fold upt_conv_Cons)

lemma wait_dequeue_returns:
  assumes law: "queue_law MQ elems" and quiet: "\<forall>i \<ge> N. arrivals i = []"
    and "pending elems arrivals N t q \<noteq> {#}" and "N - t < n"
  shows "\<exists>rpc t' q'. wait_dequeue n MQ arrivals t q = Inr (rpc, t', q') \<and> t < t' \<and>
    pending elems arrivals N t q = add_mset rpc (pending elems arrivals N t' q')"
  using assms(3,4)
proof (induction n arbitrary: t q)
  case (Suc n)
  define q1 where "q1 = fold (mq_enqueue MQ) (arrivals t) q"
  have p: "pending elems arrivals N (Suc t) q1 = pending elems arrivals N t q"
    unfolding q1_def by (rule pending_poll [OF law quiet])
  show ?case
  proof (cases "q_try_dequeue MQ q1")
    case None
    then have "elems q1 = {#}" using queue_law_None [OF law] by blast
    moreover have "pending elems arrivals N (Suc t) q1 \<noteq> {#}" using Suc.prems(1) p by simp
    ultimately have "t < N" by (intro ccontr [of "t < N"]) (simp add: pending_def)
    then have "N - Suc t < n" using Suc.prems(2) by linarith
    then obtain rpc t' q' where "wait_dequeue n MQ arrivals (Suc t) q1 = Inr (rpc, t', q') \<and> Suc t < t' \<and>
        pending elems arrivals N (Suc t) q1 = add_mset rpc (pending elems arrivals N t' q')"
      using Suc.IH [of "Suc t" q1] Suc.prems p by auto
    then show ?thesis using None p by (auto simp: mq_try_dequeue_def q1_def [symmetric])
  next
    case (Some x)
    then obtain rpc q' where x: "q_try_dequeue MQ q1 = Some (rpc, q')" by (cases x) auto
    have "elems q1 = add_mset rpc (elems q')" by (rule queue_law_Some [OF law x])
    then show ?thesis using x p by (auto simp: mq_try_dequeue_def q1_def [symmetric] pending_def)
  qed
qed simp

lemma process_split: "process_rpc Q MQ C tid I l (op, g) w = Inr (b, w') \<Longrightarrow> op \<noteq> MERGE"
  by (auto simp: process_rpc_def)

text \<open>What a worker leaves behind: the served requests, its stop request and the rest make up what there was; an error is one of a request.\<close>

fun worker_result ::
  "(rat \<Rightarrow> rpc \<Rightarrow> 'w \<Rightarrow> err + (bool \<times> 'w)) \<Rightarrow> rpc multiset \<Rightarrow> (nat \<Rightarrow> 'm \<Rightarrow> rpc multiset) \<Rightarrow> (GlobalAddress \<times> bool) list \<Rightarrow>
   err + ((GlobalAddress \<times> bool) list \<times> nat \<times> 'm \<times> 'w) \<Rightarrow> bool" where
  "worker_result process M rest processed (Inl e) \<longleftrightarrow> (\<exists>rpc l w. rpc \<in># M \<and> fst rpc \<noteq> STOP \<and> process l rpc w = Inl e)"
| "worker_result process M rest processed (Inr (all, t, q, w)) \<longleftrightarrow>
     (\<exists>new g. all = processed @ new \<and> M = add_mset (STOP, g) (mset (map (\<lambda>x. (SPLIT, fst x)) new) + rest t q))"

lemma worker_result_step:
  "worker_result process M rest (processed @ [(g, b)]) res \<Longrightarrow> worker_result process (add_mset (SPLIT, g) M) rest processed res"
proof (induction process M rest "processed @ [(g, b)]" res rule: worker_result.induct)
  case (2 process M rest all t q w)
  then obtain new h where "all = (processed @ [(g, b)]) @ new" "M = add_mset (STOP, h) (mset (map (\<lambda>x. (SPLIT, fst x)) new) + rest t q)"
    by auto
  then show ?case by (auto intro!: exI [of _ "(g, b) # new"])
qed fastforce

lemma worker_loop_ends:
  assumes law: "queue_law MQ elems" and quiet: "\<forall>i \<ge> N. arrivals i = []"
    and "\<exists>g. (STOP, g) \<in># pending elems arrivals N t q" and "N - t + size (pending elems arrivals N t q) \<le> n"
  shows "worker_result (process_rpc Q MQ C tid I) (pending elems arrivals N t q) (pending elems arrivals N) processed
    (worker_loop n Q MQ C tid I lat arrivals t q processed w)"
  using assms(3,4)
proof (induction n arbitrary: t q processed w)
  case (Suc n)
  have ne: "pending elems arrivals N t q \<noteq> {#}" using Suc.prems(1) by auto
  then have "0 < size (pending elems arrivals N t q)" by (simp add: nonempty_has_size)
  then have "N - t < Suc n" using Suc.prems(2) by linarith
  then obtain op g t' q' where d: "wait_dequeue (Suc n) MQ arrivals t q = Inr ((op, g), t', q')" "t < t'"
      "pending elems arrivals N t q = add_mset (op, g) (pending elems arrivals N t' q')"
    using wait_dequeue_returns [OF law quiet ne] by (metis surj_pair)
  show ?case
  proof (cases "op = STOP")
    case False
    show ?thesis
    proof (cases "process_rpc Q MQ C tid I (lat (length processed)) (op, g) w")
      case (Inl e)
      have "worker_loop (Suc n) Q MQ C tid I lat arrivals t q processed w = Inl e" using d(1) Inl False by (simp del: wait_dequeue.simps)
      then show ?thesis using Inl d(3) False by fastforce
    next
      case (Inr x)
      then obtain b w1 where x: "process_rpc Q MQ C tid I (lat (length processed)) (op, g) w = Inr (b, w1)" by (cases x) auto
      have op: "op = SPLIT" using process_split [OF x] False by (cases op) auto
      have run: "worker_loop (Suc n) Q MQ C tid I lat arrivals t q processed w =
          worker_loop n Q MQ C tid I lat arrivals t' q' (processed @ [(g, b)]) w1"
        using d(1) x False by (simp del: wait_dequeue.simps)
      have stop: "\<exists>g. (STOP, g) \<in># pending elems arrivals N t' q'" using Suc.prems(1) d(3) False by auto
      have "N - t' + size (pending elems arrivals N t' q') \<le> n" using Suc.prems(2) d(2,3) by simp
      from worker_result_step [OF Suc.IH [OF stop this]] show ?thesis unfolding run d(3) op .
    qed
  qed (use d in \<open>simp del: wait_dequeue.simps\<close>)
next
  case 0
  then show ?case by (auto simp: nonempty_has_size)
qed

subsection \<open>Properties\<close>





text \<open>
  A request reaches one queue. With maintenance on and \<open>n\<close> queues, \<^verbatim>\<open>request_smo\<close> run by a compute server returns true and
  adds the request to one of the \<open>n\<close> queues, the same one for the same leaf, and changes no other queue, no memory and no allocator.
\<close>

theorem request_reaches_queue:
  assumes "MAINTENANCE_ENABLED (cfg I)" and "0 < num_queues I" and "num_queues I < 2 ^ 64" and "num_queues I = length (cw_queues w)"
  shows "\<exists>i < length (cw_queues w). i = unat (hash_int (uintptr leaf) mod of_nat (num_queues I)) \<and>
    run (mgr_handler Q MQ C tid) (request_smo I op leaf) w =
      Inr (True, w\<lparr>cw_queues := (cw_queues w)[i := q_enqueue MQ (op, leaf) (cw_queues w ! i)]\<rparr>)"
proof -
  let ?i = "unat (hash_int (uintptr leaf) mod of_nat (num_queues I))"
  have "unat (of_nat (num_queues I) :: u64) = num_queues I" using assms(3) by (simp add: unat_of_nat take_bit_eq_mod)
  then have "?i < num_queues I" using assms(2) by (simp add: unat_mod)
  then show ?thesis
    using assms by (intro exI [of _ ?i]) (simp add: request_smo_def mgr_handler_def)
qed

theorem request_reaches_queue_witness:
  "run (mgr_handler fifo_ops fifo_ops no_cache 0)
      (request_smo (sample_index\<lparr>cfg := sample_config\<lparr>MAINTENANCE_ENABLED := True\<rparr>, num_queues := 1\<rparr>) SPLIT 64)
      ((sample_world sample_memory)\<lparr>cw_queues := [[]]\<rparr>) =
    Inr (True, (sample_world sample_memory)\<lparr>cw_queues := [[(SPLIT, 64)]]\<rparr>)"
  using request_reaches_queue [of "sample_index\<lparr>cfg := sample_config\<lparr>MAINTENANCE_ENABLED := True\<rparr>, num_queues := 1\<rparr>"
      "(sample_world sample_memory)\<lparr>cw_queues := [[]]\<rparr>" 64 fifo_ops fifo_ops no_cache 0 SPLIT]
  by (simp add: fifo_ops_def)

text \<open>
  Asking whether a maintenance queue is empty loses a request: on a queue with requests \<^verbatim>\<open>empty\<close> returns false, and one of
  the requests is gone, although the method is declared \<^verbatim>\<open>const\<close>.
\<close>

theorem empty_loses_request:
  assumes "queue_law MQ elems" and "elems q \<noteq> {#}"
  shows "\<exists>rpc q'. mq_empty MQ q = (False, q') \<and> elems q = add_mset rpc (elems q')"
proof -
  obtain rpc q' where "q_try_dequeue MQ q = Some (rpc, q')" using queue_law_None [OF assms(1), of q] assms(2) by fastforce
  then show ?thesis using queue_law_Some [OF assms(1)] by (auto simp: mq_empty_def mq_try_dequeue_def)
qed

theorem empty_loses_request_witness:
  "\<exists>q'. mq_empty fifo_ops [(SPLIT, 64)] = (False, q') \<and> size (mset q') = 0"
  using empty_loses_request [OF fifo_queue_law, of "[(SPLIT, 64)]"] by (auto dest: arg_cong [where f = size])

end
