(* ===== verification/Faunus_Deferred.thy ===== *)
theory Faunus_Deferred
  imports Faunus_Store Maintenance
begin

text \<open>
  Splits that are left to the maintenance threads: with \<^verbatim>\<open>MAINTENANCE_ENABLED\<close> an insertion into a leaf above the watermark puts a request
  into a queue, and a worker performs the split later (\<^verbatim>\<open>insert\<close>, \<^verbatim>\<open>request_smo\<close>, \<^verbatim>\<open>maintenance_worker\<close> and \<^verbatim>\<open>process_rpc\<close> of
  \<^verbatim>\<open>src/src/kv_index/faunus_index.cpp\<close>).
\<close>

subsection \<open>A server of requests\<close>

text \<open>
  What a worker relies on: as long as the requests that are still to be served satisfy \<open>J\<close> together with the state of the compute server, each of them
  can be taken next, whatever the order; serving it succeeds and keeps \<open>J\<close> for the others.
\<close>

locale served_requests =
  fixes Q :: "(u64, 'q) queue_ops" and MQ :: "(rpc, 'm) queue_ops" and C :: "('cs, cache_item) cache_ops" and tid :: nat and I :: FaunusIndex
    and J :: "rpc multiset \<Rightarrow> ('q, 'cs, 'm) cworld \<Rightarrow> bool"
  assumes serves: "J (add_mset (op, g) M) w \<Longrightarrow> op \<noteq> STOP \<Longrightarrow> \<exists>b w'. process_rpc Q MQ C tid I lat (op, g) w = Inr (b, w') \<and> J M w'"
    and stops: "J (add_mset (STOP, g) M) w \<Longrightarrow> J M w"
begin

lemma worker_loop_serves:
  assumes law: "queue_law MQ elems" and quiet: "\<forall>i \<ge> N. arrivals i = []"
    and "\<exists>g. (STOP, g) \<in># pending elems arrivals N t q" and "N - t + size (pending elems arrivals N t q) \<le> n"
    and "J (pending elems arrivals N t q) w"
  shows "\<exists>all t' q' w'. worker_loop n Q MQ C tid I lat arrivals t q processed w = Inr (all, t', q', w') \<and> J (pending elems arrivals N t' q') w'"
  using assms(3-5)
proof (induction n arbitrary: t q processed w)
  case (Suc n)
  have ne: "pending elems arrivals N t q \<noteq> {#}" using Suc.prems(1) by auto
  then have "N - t < Suc n" using Suc.prems(2) by (simp add: nonempty_has_size)
  then obtain op g t' q' where d: "wait_dequeue (Suc n) MQ arrivals t q = Inr ((op, g), t', q')" "t < t'"
      "pending elems arrivals N t q = add_mset (op, g) (pending elems arrivals N t' q')"
    using wait_dequeue_returns [OF law quiet ne] by (metis surj_pair)
  note J = Suc.prems(3) [unfolded d(3)]
  show ?case
  proof (cases "op = STOP")
    case True
    then show ?thesis using d(1) stops J by (simp del: wait_dequeue.simps)
  next
    case False
    obtain b w' where w': "process_rpc Q MQ C tid I (lat (length processed)) (op, g) w = Inr (b, w')" "J (pending elems arrivals N t' q') w'"
      using serves [OF J False] by blast
    have stop: "\<exists>g. (STOP, g) \<in># pending elems arrivals N t' q'" using Suc.prems(1) d(3) False by auto
    have "N - t' + size (pending elems arrivals N t' q') \<le> n" using Suc.prems(2) d(2,3) by simp
    from Suc.IH [OF stop this w'(2)] show ?thesis using d(1) w'(1) False by (simp del: wait_dequeue.simps)
  qed
next
  case 0
  then show ?case by (auto simp: nonempty_has_size)
qed

end

subsection \<open>An index with requests\<close>

text \<open>
  \<open>deferred Q elems I H n k m M w\<close>: an index of height \<open>n\<close> that stores the map \<open>m\<close> is in the memory of \<open>w\<close>; the requests \<open>M\<close> are for leaves of it, and
  every full leaf has one; even if each request makes the tree grow, its height stays below \<open>H\<close>; and there are enough slabs for all requests, and \<open>k\<close> more.
\<close>

definition deferred ::
  "(u64, 'q) queue_ops \<Rightarrow> ('q \<Rightarrow> u64 multiset) \<Rightarrow> FaunusIndex \<Rightarrow> nat \<Rightarrow> nat \<Rightarrow> nat \<Rightarrow> (bytes \<rightharpoonup> bytes) \<Rightarrow> rpc multiset \<Rightarrow> ('q, 'cs, 'm) cworld \<Rightarrow> bool" where
  "deferred Q elems I H n k m M w \<longleftrightarrow>
     (let r = fst (mgr_abs w); ls = set (leaves (cfg I) r n (root_at I r)) in
      tree_inv I r n \<and> tree_map I r n = m \<and> roomy I r n {l. (SPLIT, l) \<in># M} \<and> (\<forall>x \<in># M. fst x = STOP \<or> fst x = SPLIT \<and> snd x \<in> ls) \<and>
      n + size M \<le> H \<and> stocked Q elems I (rm_valid r) (snd (mgr_abs w)) (size M * (H + 2) + k) (footprint I r n))"

text \<open>An index without node cache whose height may reach \<open>H\<close>.\<close>

definition tall_index :: "FaunusIndex \<Rightarrow> nat \<Rightarrow> bool" where
  "tall_index I H \<longleftrightarrow> 3 \<le> branch_factor (cfg I) \<and> \<not> has_cache I \<and> H < fuel I \<and> H < 2 ^ 64 \<and> H \<le> levels I"

lemma mgr_abs_tracker: "mgr_abs (w\<lparr>cw_mgr := with_tracker tid f (cw_mgr w)\<rparr>) = mgr_abs w"
  by (simp add: mgr_abs_def rmem_def with_tracker_def split: option.splits)

lemma deferred_abs: "mgr_abs w' = mgr_abs w \<Longrightarrow> deferred Q elems I H n k m M w' = deferred Q elems I H n k m M w"
  by (simp add: deferred_def)

lemma roomy_mono: "roomy I r n X \<Longrightarrow> X \<subseteq> Y \<Longrightarrow> roomy I r n Y"
  by (auto simp: roomy_def)

lemma deferred_split:
  assumes tall: "tall_index I H" and d: "deferred Q elems I H n k m (add_mset (SPLIT, l) M) w"
  shows "\<exists>b w' n'. run (mgr_handler Q MQ C tid) (split_leaf I l) w = Inr (b, w') \<and> deferred Q elems I H n' k m M w' \<and>
    cw_queues w' = cw_queues w"
proof -
  let ?r = "fst (mgr_abs w)" and ?e = "snd (mgr_abs w)" and ?k = "size M * (H + 2) + k"
  let ?ls = "set (leaves (cfg I) ?r n (root_at I ?r))"
  have inv: "tree_inv I ?r n" "tree_map I ?r n = m" "roomy I ?r n (insert l {l. (SPLIT, l) \<in># M})" "l \<in> ?ls"
      "\<forall>x \<in># M. fst x = STOP \<or> fst x = SPLIT \<and> snd x \<in> ?ls" "Suc n + size M \<le> H"
      "stocked Q elems I (rm_valid ?r) ?e (size (add_mset (SPLIT, l) M) * (H + 2) + k) (footprint I ?r n)"
    using d by (auto simp: deferred_def Let_def insert_def [symmetric] Un_def [symmetric] Collect_disj_eq elim: roomy_mono)
  have idx: "3 \<le> branch_factor (cfg I)" "\<not> has_cache I" "Suc n < fuel I" "Suc n < 2 ^ 64" "n < levels I"
    using tall inv(6) by (simp_all add: tall_index_def)
  have "stocked Q elems I (rm_valid ?r) ?e (Suc (Suc n + ?k)) (footprint I ?r n)"
    by (rule stocked_fewer [OF inv(7)]) (use inv(6) in simp_all)
  then obtain b r' e' n' where run: "run (mem_handler (mgr_env Q MQ C)) (split_leaf I l) (?r, ?e) = Inr (b, (r', e'))" "n' \<le> Suc n" "tree_inv I r' n'"
      "tree_map I r' n' = m" "\<forall>g k. rm_valid r' g k = rm_valid ?r g k" "stocked Q elems I (rm_valid ?r) e' ?k (footprint I r' n')"
      "me_queues e' = me_queues ?e" "roomy I r' n' {l. (SPLIT, l) \<in># M}" "?ls \<subseteq> set (leaves (cfg I) r' n' (root_at I r'))"
    using slab.split_leaf_run [OF inv(1,4) idx, of Q elems ?e ?k "me_queues ?e" MQ C] inv(2,3) by auto
  obtain w' where w': "run (mgr_handler Q MQ C tid) (split_leaf I l) w = Inr (b, w')" "mgr_abs w' = (r', e')"
    using mgr.run_refines [of Q MQ C "split_leaf I l" w b "(r', e')" tid] run(1) by auto
  moreover have "rm_valid r' = rm_valid ?r" using run(5) by blast
  moreover have "cw_queues w' = cw_queues w" using run(7) arg_cong [OF w'(2), of "\<lambda>x. me_queues (snd x)"] by (simp add: mgr_abs_def)
  ultimately show ?thesis
    using run(2-4,6,8,9) inv(5,6) by (intro exI [of _ b] exI [of _ w'] exI [of _ n']) (auto simp: deferred_def)
qed

text \<open>The worker of a queue can serve every request of it, while the requests \<open>others\<close> wait in other queues.\<close>

definition servable ::
  "(u64, 'q) queue_ops \<Rightarrow> ('q \<Rightarrow> u64 multiset) \<Rightarrow> FaunusIndex \<Rightarrow> nat \<Rightarrow> nat \<Rightarrow> (bytes \<rightharpoonup> bytes) \<Rightarrow> 'm list \<Rightarrow> rpc multiset \<Rightarrow> rpc multiset \<Rightarrow>
   ('q, 'cs, 'm) cworld \<Rightarrow> bool" where
  "servable Q elems I H k m qs others M w \<longleftrightarrow> tall_index I H \<and> cw_queues w = qs \<and> (\<exists>n. deferred Q elems I H n k m (M + others) w)"

lemma process_split_serves:
  assumes J: "servable Q elems I H k m qs others (add_mset (op, g) M) w" and op: "op \<noteq> STOP"
  shows "\<exists>b w'. process_rpc Q MQ C tid I lat (op, g) w = Inr (b, w') \<and> servable Q elems I H k m qs others M w'"
proof -
  obtain n where tall: "tall_index I H" "cw_queues w = qs" and n: "deferred Q elems I H n k m (add_mset (op, g) (M + others)) w"
    using J by (auto simp: servable_def)
  then have split: "op = SPLIT" using op by (auto simp: deferred_def Let_def)
  define w1 where "w1 = (if has_tracker I then w\<lparr>cw_mgr := with_tracker tid (begin_operation Insert) (cw_mgr w)\<rparr> else w)"
  have "mgr_abs w1 = mgr_abs w" by (simp add: w1_def mgr_abs_tracker)
  from n [folded deferred_abs [OF this]] have "deferred Q elems I H n k m (add_mset (SPLIT, g) (M + others)) w1" unfolding split .
  from deferred_split [OF tall(1) this, of MQ C tid] obtain b w2 n' where w2: "run (mgr_handler Q MQ C tid) (split_leaf I g) w1 = Inr (b, w2)"
      "deferred Q elems I H n' k m (M + others) w2" "cw_queues w2 = cw_queues w1" by blast
  define w3 where "w3 = (if has_tracker I then w2\<lparr>cw_mgr := with_tracker tid (end_operation lat b) (cw_mgr w2)\<rparr> else w2)"
  have "mgr_abs w3 = mgr_abs w2" by (simp add: w3_def mgr_abs_tracker)
  note w2(2) [folded deferred_abs [OF this]]
  moreover have "cw_queues w3 = qs" using w2(3) tall(2) by (simp add: w1_def w3_def)
  moreover have "process_rpc Q MQ C tid I lat (op, g) w = Inr (b, w3)"
    using w2(1) split by (simp add: process_rpc_def Let_def w1_def w3_def)
  ultimately show ?thesis using tall(1) by (auto simp: servable_def)
qed

interpretation splits: served_requests Q MQ C tid I "servable Q elems I H k m qs others"
  for Q :: "(u64, 'q) queue_ops" and MQ :: "(rpc, 'm) queue_ops" and C :: "('cs, cache_item) cache_ops" and tid I H elems k m qs others
proof unfold_locales
  fix g M and w :: "('q, 'cs, 'm) cworld"
  assume J: "servable Q elems I H k m qs others (add_mset (STOP, g) M) w"
  then obtain n where n: "deferred Q elems I H n k m (add_mset (STOP, g) (M + others)) w" by (auto simp: servable_def)
  have "deferred Q elems I H n k m (M + others) w"
    using n stocked_fewer [of Q elems I _ _ "size (add_mset (STOP, g) (M + others)) * (H + 2) + k" _ "size (M + others) * (H + 2) + k"]
    by (auto simp: deferred_def Let_def)
  then show "servable Q elems I H k m qs others M w" using J by (auto simp: servable_def)
qed (rule process_split_serves)

subsection \<open>Insertions that request splits\<close>

text \<open>An index whose insertions leave the splits to \<open>q\<close> maintenance queues.\<close>

definition queued_index :: "FaunusIndex \<Rightarrow> nat \<Rightarrow> bool" where
  "queued_index I q \<longleftrightarrow> (\<exists>p \<le> 8. branch_factor (cfg I) = 2 ^ p) \<and> split_limit (cfg I) < branch_factor (cfg I) \<and> has_tracker I \<and>
     MAINTENANCE_ENABLED (cfg I) \<and> num_queues I = q \<and> 0 < q \<and> q < 2 ^ 64"

definition all_requests :: "('m \<Rightarrow> rpc multiset) \<Rightarrow> 'm list \<Rightarrow> rpc multiset" where
  "all_requests melems qs = sum_list (map melems qs)"

definition other_requests :: "('m \<Rightarrow> rpc multiset) \<Rightarrow> nat \<Rightarrow> 'm list \<Rightarrow> rpc multiset" where
  "other_requests melems i qs = all_requests melems (take i qs @ drop (Suc i) qs)"

lemma all_requests_update:
  assumes "i < length qs"
  shows "all_requests melems (qs[i := q]) = melems q + other_requests melems i qs"
  using assms by (simp add: all_requests_def other_requests_def upd_conv_take_nth_drop)

lemma all_requests_split:
  assumes "i < length qs"
  shows "all_requests melems qs = melems (qs ! i) + other_requests melems i qs"
  using all_requests_update [OF assms, of melems "qs ! i"] by simp

lemma queue_of_leaf:
  assumes "queued_index I q"
  shows "unat (hash_int (uintptr l) mod of_nat (num_queues I)) < q"
proof -
  have "unat (of_nat q :: u64) = q" using assms by (simp add: queued_index_def unat_of_nat take_bit_eq_mod)
  then show ?thesis using assms by (simp add: queued_index_def unat_mod)
qed

lemma stocked_queues: "stocked Q elems I V (e\<lparr>me_queues := qs\<rparr>) k xs = stocked Q elems I V e k xs"
  by (simp add: stocked_def)

text \<open>The same as \<open>slab.insert_run\<close>, with a request in place of the split.\<close>

lemma queued_insert_run:
  fixes e :: "('q, 'cs, 'm) menv"
  assumes inv: "tree_inv I r n" "roomy I r n X" and idx: "queued_index I q" "\<not> has_cache I"
    and key: "length key = KEY_SIZE (cfg I)" "key \<noteq> ArrayVar_max (KEY_SIZE (cfg I))" and val: "length val = VALUE_SIZE (cfg I)"
    and l_def: "l = leaf_for (cfg I) r n (root_at I r) key" and room: "num_used (leaf_at (cfg I) r l) < branch_factor (cfg I)"
    and can: "stocked Q elems I (rm_valid r) e (Suc k) (footprint I r n)"
    and i_def: "i = unat (hash_int (uintptr l) mod of_nat (num_queues I))"
  shows "\<exists>r' e' ask. run (mem_handler (mgr_env Q MQ C)) (faunus_insert I key val) (r, e) = Inr (True, (r', e')) \<and>
    tree_inv I r' n \<and> tree_map I r' n = (tree_map I r n)(key \<mapsto> val) \<and> rm_valid r' = rm_valid r \<and>
    leaves (cfg I) r' n (root_at I r') = leaves (cfg I) r n (root_at I r) \<and> l \<in> set (leaves (cfg I) r n (root_at I r)) \<and>
    roomy I r' n (if ask then insert l X else X) \<and> stocked Q elems I (rm_valid r) e' k (footprint I r' n) \<and>
    me_queues e' = (if ask then (me_queues e)[i := q_enqueue MQ (SPLIT, l) (me_queues e ! i)] else me_queues e)"
proof -
  let ?E = "mgr_env Q MQ C :: (('q, 'cs, 'm) menv, cache_item) env_ops" and ?c = "cfg I" and ?bf = "branch_factor (cfg I)"
  obtain p where p: "?bf = 2 ^ p" "p \<le> 8" and q: "split_limit ?c < ?bf" "has_tracker I" "MAINTENANCE_ENABLED ?c" "num_queues I \<noteq> 0"
    using idx(1) by (auto simp: queued_index_def)
  obtain r1 e1 over where one: "tree_inv I r1 n" "tree_map I r1 n = (tree_map I r n)(key \<mapsto> val)" "rm_valid r1 = rm_valid r"
      "leaves ?c r1 n (root_at I r1) = leaves ?c r n (root_at I r)" "l \<in> set (leaves ?c r n (root_at I r))"
      "stocked Q elems I (rm_valid r) e1 k (footprint I r1 n) \<and> me_queues e1 = me_queues e" "roomy I r1 n (if over then insert l X else X)"
    and rest: "if over then split_limit ?c < num_used (leaf_at ?c r1 l) \<and>
       (\<forall>r2 e2. run (mem_handler ?E) (after_insert I key l (leaf_at ?c r1 l)) (r1, e1) = Inr (Inr True, (r2, e2)) \<longrightarrow>
          run (mem_handler ?E) (faunus_insert I key val) (r, e) = Inr (True, (r2, e2)))
     else run (mem_handler ?E) (faunus_insert I key val) (r, e) = Inr (True, (r1, e1))"
    using slab.insert_step [OF inv p q(1) idx(2) q(2) key val l_def room conjI [OF can refl], of MQ C] by metis
  show ?thesis
  proof (cases over)
    case False
    then show ?thesis using rest one by (intro exI [of _ r1] exI [of _ e1] exI [of _ False]) simp
  next
    case True
    have "run (mem_handler ?E) (after_insert I key l (leaf_at ?c r1 l)) (r1, e1) = Inr (Inr True, (r1, e_enqueue ?E i SPLIT l e1))"
      using rest True q by (simp add: after_insert_def run_bind track_cache_def track_def mem_run request_smo_def assert_then_def i_def)
    moreover have "e_enqueue ?E i SPLIT l e1 = e1\<lparr>me_queues := (me_queues e)[i := q_enqueue MQ (SPLIT, l) (me_queues e ! i)]\<rparr>"
      using one(6) by (simp add: mgr_env_def)
    ultimately show ?thesis
      using rest True one by (intro exI [of _ r1] exI [of _ "e_enqueue ?E i SPLIT l e1"] exI [of _ True]) (simp add: stocked_queues)
  qed
qed


subsection \<open>Sample requests\<close>

definition queued_sample :: FaunusIndex where
  "queued_sample = sample_index\<lparr>cfg := sample_config\<lparr>MAINTENANCE_ENABLED := True\<rparr>, num_queues := 1\<rparr>"

definition requested :: "rpc list list \<Rightarrow> rmemory \<Rightarrow> (u64 list, unit, rpc list) cworld" where
  "requested qs r = (sample_store r)\<lparr>cw_queues := qs\<rparr>"

lemma queued_sample_like: "sample_like queued_sample" "queued_index queued_sample 1" "tall_index queued_sample 4"
proof -
  show "sample_like queued_sample" by (simp add: sample_like_def queued_sample_def sample_index_def)
  show "queued_index queued_sample 1" by (auto simp: queued_index_def queued_sample_def sample_config_def split_limit_def intro!: exI [of _ 2])
  show "tall_index queued_sample 4" by (simp add: tall_index_def queued_sample_def sample_config_def sample_index_def)
qed

lemma requested_deferred:
  assumes "all_requests mset qs = M" and "\<forall>x \<in># M. x = (STOP, Null) \<or> x = (SPLIT, GlobalAddress_raw 64)" and "size M \<le> 4" and "size M * 6 + k \<le> 19"
  shows "\<exists>r. deferred fifo_ops mset queued_sample 4 0 k Map.empty (all_requests mset (cw_queues (requested qs r))) (requested qs r)"
proof -
  obtain r where r: "faunus_store fifo_ops mset queued_sample (sample_store r) 0 19" "stored queued_sample (sample_store r) 0 = Map.empty"
      "fst (mgr_abs (sample_store r)) = r" "root_at queued_sample r = GlobalAddress_raw 64"
    using sample_faunus_store [OF queued_sample_like(1)] by blast
  have m: "fst (mgr_abs (requested qs r)) = r" "snd (mgr_abs (requested qs r)) = (snd (mgr_abs (sample_store r)))\<lparr>me_queues := qs\<rparr>"
    using r(3) by (simp_all add: requested_def mgr_abs_def)
  have "roomy queued_sample r 0 {l. (SPLIT, l) \<in># M}" using r(1,3) by (auto simp: faunus_store_def roomy_def)
  moreover have "stocked fifo_ops mset queued_sample (rm_valid r) (snd (mgr_abs (sample_store r))) (size M * 6 + k) (footprint queued_sample r 0)"
    by (rule stocked_fewer [OF _ assms(4) order_refl]) (use r(1,3) in \<open>simp add: faunus_store_def\<close>)
  moreover have "cw_queues (requested qs r) = qs" by (simp add: requested_def)
  ultimately show ?thesis
    using r assms(1-3) m by (intro exI [of _ r]) (fastforce simp: deferred_def faunus_store_def stored_def stocked_queues)
qed

subsection \<open>Properties\<close>




end
