(* ===== verification/Sherman_Layout.thy ===== *)
theory Sherman_Layout
  imports Faunus_Node
begin

text \<open>
  \<^verbatim>\<open>src/src/kv_index/sherman_index.hpp\<close>: the pages of the Sherman index and how they lie in remote
  memory. All classes are packed, so a page of 1024 bytes is the lock word, the front version, the
  header, the records, padding and the rear version, without gaps. The names of the sources get the prefix
  \<open>S\<close> or \<open>s_\<close> where the Faunus index has the same. Key and value sizes are those of \<open>Config\<close>; the
  type \<^verbatim>\<open>Fingerprint\<close> repeats the one of \<open>Kv_Block\<close>. A \<^verbatim>\<open>LeafEntry\<close> takes 11 bytes: two for
  the fingerprint, one for the padding field of 4 bits, eight for the pointer.
\<close>

definition kMaxLevelOfTree :: nat where "kMaxLevelOfTree = 7"
definition kInternalPageSize :: nat where "kInternalPageSize = 1024"
definition kLeafPageSize :: nat where "kLeafPageSize = 1024"

record SHeader =
  s_leftmost_ptr :: GlobalAddress
  s_sibling_ptr :: GlobalAddress
  s_level :: u8
  s_last_index :: "16 word"
  s_lowest :: bytes
  s_highest :: bytes

record SInternalEntry =
  s_key :: bytes
  s_ptr :: GlobalAddress

record SLeafEntry =
  s_fingerprint :: Fingerprint
  s_kv_ptr :: GlobalAddress

record SInternalPage =
  i_lock :: u64
  i_front_version :: u8
  i_hdr :: SHeader
  i_records :: "SInternalEntry list"
  i_rear_version :: u8

record SLeafPage =
  l_lock :: u64
  l_front_version :: u8
  l_hdr :: SHeader
  l_records :: "SLeafEntry list"
  l_rear_version :: u8

definition s_is_empty :: "SLeafEntry \<Rightarrow> bool" where
  "s_is_empty e \<longleftrightarrow> s_kv_ptr e = Null"

subsection \<open>Sizes\<close>

definition sizeof_SHeader :: "Config \<Rightarrow> nat" where
  "sizeof_SHeader c = 19 + 2 * KEY_SIZE c"

definition sizeof_SInternalEntry :: "Config \<Rightarrow> nat" where
  "sizeof_SInternalEntry c = KEY_SIZE c + 8"

definition sizeof_SLeafEntry :: nat where
  "sizeof_SLeafEntry = 11"

definition kInternalCardinality :: "Config \<Rightarrow> nat" where
  "kInternalCardinality c = (kInternalPageSize - sizeof_SHeader c - 2 - 8) div sizeof_SInternalEntry c"

definition kLeafCardinality :: "Config \<Rightarrow> nat" where
  "kLeafCardinality c = (kLeafPageSize - sizeof_SHeader c - 2 - 8) div sizeof_SLeafEntry"

definition kLeafPagePadding :: "Config \<Rightarrow> nat" where
  "kLeafPagePadding c = kLeafPageSize - 8 - 1 - sizeof_SHeader c - sizeof_SLeafEntry * kLeafCardinality c - 1"

definition kInternalPagePadding :: "Config \<Rightarrow> nat" where
  "kInternalPagePadding c =
     kInternalPageSize - 8 - 1 - sizeof_SHeader c - sizeof_SInternalEntry c * kInternalCardinality c - 1"

text \<open>
  The key sizes for which both page classes compile to 1024 bytes and the constructor of a new root can set
  its second record.
\<close>

definition sherman_ok :: "Config \<Rightarrow> bool" where
  "sherman_ok c \<longleftrightarrow> config_ok c \<and> sizeof_SHeader c + 10 \<le> kInternalPageSize \<and> 2 \<le> kInternalCardinality c"

subsection \<open>Constructors\<close>

definition SHeader_init :: "Config \<Rightarrow> u8 \<Rightarrow> SHeader" where
  "SHeader_init c lvl =
     \<lparr>s_leftmost_ptr = Null, s_sibling_ptr = Null, s_level = lvl, s_last_index = - 1,
      s_lowest = ArrayVar_min (KEY_SIZE c), s_highest = ArrayVar_max (KEY_SIZE c)\<rparr>"

definition SInternalEntry_init :: "Config \<Rightarrow> SInternalEntry" where
  "SInternalEntry_init c = \<lparr>s_key = ArrayVar_min (KEY_SIZE c), s_ptr = Null\<rparr>"

definition SLeafEntry_init :: SLeafEntry where
  "SLeafEntry_init = \<lparr>s_fingerprint = Fingerprint_of 0, s_kv_ptr = Null\<rparr>"

definition SInternalPage_init :: "Config \<Rightarrow> u8 \<Rightarrow> SInternalPage" where
  "SInternalPage_init c lvl =
     \<lparr>i_lock = 0, i_front_version = 0, i_hdr = SHeader_init c lvl,
      i_records = (replicate (kInternalCardinality c) (SInternalEntry_init c))
        [0 := (SInternalEntry_init c)\<lparr>s_ptr := Null\<rparr>],
      i_rear_version = 0\<rparr>"

definition SInternalPage_root :: "Config \<Rightarrow> GlobalAddress \<Rightarrow> bytes \<Rightarrow> GlobalAddress \<Rightarrow> u8 \<Rightarrow> SInternalPage" where
  "SInternalPage_root c left key right lvl =
     (let rs = replicate (kInternalCardinality c) (SInternalEntry_init c) in
      \<lparr>i_lock = 0, i_front_version = 0,
       i_hdr = (SHeader_init c lvl)\<lparr>s_leftmost_ptr := left, s_last_index := 0\<rparr>,
       i_records = rs[0 := \<lparr>s_key = key, s_ptr = right\<rparr>, 1 := (rs ! 1)\<lparr>s_ptr := Null\<rparr>],
       i_rear_version = 0\<rparr>)"

definition SLeafPage_init :: "Config \<Rightarrow> u8 \<Rightarrow> SLeafPage" where
  "SLeafPage_init c lvl =
     \<lparr>l_lock = 0, l_front_version = 0, l_hdr = SHeader_init c lvl,
      l_records = replicate (kLeafCardinality c) SLeafEntry_init, l_rear_version = 0\<rparr>"

definition i_set_consistent :: "SInternalPage \<Rightarrow> SInternalPage" where
  "i_set_consistent p = p\<lparr>i_front_version := i_front_version p + 1, i_rear_version := i_front_version p + 1\<rparr>"

definition l_set_consistent :: "SLeafPage \<Rightarrow> SLeafPage" where
  "l_set_consistent p = p\<lparr>l_front_version := l_front_version p + 1, l_rear_version := l_front_version p + 1\<rparr>"

definition i_check_consistent :: "SInternalPage \<Rightarrow> bool" where
  "i_check_consistent p \<longleftrightarrow> i_rear_version p = i_front_version p"

definition l_check_consistent :: "SLeafPage \<Rightarrow> bool" where
  "l_check_consistent p \<longleftrightarrow> l_rear_version p = l_front_version p"

subsection \<open>Images in memory\<close>

definition enc_sheader :: "SHeader \<Rightarrow> bytes" where
  "enc_sheader h = bytes_of_u64 (uintptr (s_leftmost_ptr h)) @ bytes_of_u64 (uintptr (s_sibling_ptr h)) @
     [s_level h] @ le_bytes 2 (ucast (s_last_index h)) @ s_lowest h @ s_highest h"

definition dec_sheader :: "Config \<Rightarrow> bytes \<Rightarrow> SHeader" where
  "dec_sheader c bs =
     \<lparr>s_leftmost_ptr = GlobalAddress_raw (u64_of_bytes (bslice 0 8 bs)),
      s_sibling_ptr = GlobalAddress_raw (u64_of_bytes (bslice 8 8 bs)),
      s_level = ucast (le_val (bslice 16 1 bs)),
      s_last_index = ucast (le_val (bslice 17 2 bs)),
      s_lowest = bslice 19 (KEY_SIZE c) bs, s_highest = bslice (19 + KEY_SIZE c) (KEY_SIZE c) bs\<rparr>"

definition enc_sinternal_entry :: "SInternalEntry \<Rightarrow> bytes" where
  "enc_sinternal_entry e = s_key e @ bytes_of_u64 (uintptr (s_ptr e))"

definition dec_sinternal_entry :: "Config \<Rightarrow> bytes \<Rightarrow> SInternalEntry" where
  "dec_sinternal_entry c bs =
     \<lparr>s_key = bslice 0 (KEY_SIZE c) bs, s_ptr = GlobalAddress_raw (u64_of_bytes (bslice (KEY_SIZE c) 8 bs))\<rparr>"

definition enc_sleaf_entry :: "SLeafEntry \<Rightarrow> bytes" where
  "enc_sleaf_entry e = le_bytes 2 (ucast (s_fingerprint e)) @ [0] @ bytes_of_u64 (uintptr (s_kv_ptr e))"

definition dec_sleaf_entry :: "bytes \<Rightarrow> SLeafEntry" where
  "dec_sleaf_entry bs =
     \<lparr>s_fingerprint = ucast (le_val (bslice 0 2 bs)), s_kv_ptr = GlobalAddress_raw (u64_of_bytes (bslice 3 8 bs))\<rparr>"

definition enc_sinternal :: "Config \<Rightarrow> SInternalPage \<Rightarrow> bytes" where
  "enc_sinternal c p = bytes_of_u64 (i_lock p) @ [i_front_version p] @ enc_sheader (i_hdr p) @
     concat (map enc_sinternal_entry (i_records p)) @ replicate (kInternalPagePadding c) 0 @ [i_rear_version p]"

definition dec_sinternal :: "Config \<Rightarrow> bytes \<Rightarrow> SInternalPage" where
  "dec_sinternal c bs =
     \<lparr>i_lock = u64_of_bytes (bslice 0 8 bs), i_front_version = ucast (le_val (bslice 8 1 bs)),
      i_hdr = dec_sheader c (bslice 9 (sizeof_SHeader c) bs),
      i_records = map (\<lambda>i. dec_sinternal_entry c
          (bslice (9 + sizeof_SHeader c + i * sizeof_SInternalEntry c) (sizeof_SInternalEntry c) bs))
        [0..<kInternalCardinality c],
      i_rear_version = ucast (le_val (bslice (kInternalPageSize - 1) 1 bs))\<rparr>"

definition s_record_offset :: "Config \<Rightarrow> nat \<Rightarrow> nat" where
  "s_record_offset c i = 9 + sizeof_SHeader c + i * sizeof_SLeafEntry"

definition enc_sleaf :: "Config \<Rightarrow> SLeafPage \<Rightarrow> bytes" where
  "enc_sleaf c p = bytes_of_u64 (l_lock p) @ [l_front_version p] @ enc_sheader (l_hdr p) @
     concat (map enc_sleaf_entry (l_records p)) @ replicate (kLeafPagePadding c) 0 @ [l_rear_version p]"

definition dec_sleaf :: "Config \<Rightarrow> bytes \<Rightarrow> SLeafPage" where
  "dec_sleaf c bs =
     \<lparr>l_lock = u64_of_bytes (bslice 0 8 bs), l_front_version = ucast (le_val (bslice 8 1 bs)),
      l_hdr = dec_sheader c (bslice 9 (sizeof_SHeader c) bs),
      l_records = map (\<lambda>i. dec_sleaf_entry (bslice (s_record_offset c i) sizeof_SLeafEntry bs)) [0..<kLeafCardinality c],
      l_rear_version = ucast (le_val (bslice (kLeafPageSize - 1) 1 bs))\<rparr>"

subsection \<open>Shape of the pages\<close>

definition sheader_wf :: "Config \<Rightarrow> SHeader \<Rightarrow> bool" where
  "sheader_wf c h \<longleftrightarrow> length (s_lowest h) = KEY_SIZE c \<and> length (s_highest h) = KEY_SIZE c"

definition sinternal_wf :: "Config \<Rightarrow> SInternalPage \<Rightarrow> bool" where
  "sinternal_wf c p \<longleftrightarrow> sheader_wf c (i_hdr p) \<and> length (i_records p) = kInternalCardinality c \<and>
     (\<forall>e \<in> set (i_records p). length (s_key e) = KEY_SIZE c)"

definition sleaf_wf :: "Config \<Rightarrow> SLeafPage \<Rightarrow> bool" where
  "sleaf_wf c p \<longleftrightarrow> sheader_wf c (l_hdr p) \<and> length (l_records p) = kLeafCardinality c"

lemma div_mult_le_nat: "(a :: nat) div b * b \<le> a"
  by (metis div_times_less_eq_dividend)

lemma page_layout:
  assumes "sherman_ok c"
  shows "9 + sizeof_SHeader c + sizeof_SInternalEntry c * kInternalCardinality c + kInternalPagePadding c + 1 = 1024"
    and "9 + sizeof_SHeader c + sizeof_SLeafEntry * kLeafCardinality c + kLeafPagePadding c + 1 = 1024"
proof -
  have "sizeof_SInternalEntry c * kInternalCardinality c \<le> 1024 - sizeof_SHeader c - 2 - 8"
    using div_mult_le_nat [of "1024 - sizeof_SHeader c - 2 - 8" "sizeof_SInternalEntry c"]
    by (simp add: kInternalCardinality_def kInternalPageSize_def mult.commute)
  then show "9 + sizeof_SHeader c + sizeof_SInternalEntry c * kInternalCardinality c + kInternalPagePadding c + 1 = 1024"
    using assms unfolding kInternalPagePadding_def sherman_ok_def kInternalPageSize_def by linarith
  have "sizeof_SLeafEntry * kLeafCardinality c \<le> 1024 - sizeof_SHeader c - 2 - 8"
    using div_mult_le_nat [of "1024 - sizeof_SHeader c - 2 - 8" sizeof_SLeafEntry]
    by (simp add: kLeafCardinality_def kLeafPageSize_def mult.commute)
  then show "9 + sizeof_SHeader c + sizeof_SLeafEntry * kLeafCardinality c + kLeafPagePadding c + 1 = 1024"
    using assms unfolding kLeafPagePadding_def sherman_ok_def kInternalPageSize_def kLeafPageSize_def by linarith
qed

lemma record_in_page:
  assumes "sherman_ok c" and "i < kLeafCardinality c"
  shows "s_record_offset c i + sizeof_SLeafEntry \<le> 1023"
proof -
  have "Suc i * sizeof_SLeafEntry \<le> kLeafCardinality c * sizeof_SLeafEntry"
    using assms(2) by (intro mult_le_mono1) simp
  then show ?thesis
    using page_layout(2) [OF assms(1)] by (simp add: s_record_offset_def mult.commute)
qed

subsection \<open>Round trips\<close>

lemma ucast_le_bytes2 [simp]:
  "ucast (le_val (le_bytes 2 (ucast (x :: 16 word)))) = x"
  "ucast (le_val (le_bytes 2 (ucast (y :: 12 word)))) = y"
  by (rule bit_word_eqI; simp add: le_val_le_bytes bit_simps; fastforce dest: bit_imp_le_length)+

lemma ucast_byte [simp]: "ucast (ucast b :: u64) = (b :: u8)"
  by (rule bit_word_eqI) (simp add: bit_simps)

lemma bslice_Cons [byte_simps]: "0 < off \<Longrightarrow> bslice off n (x # xs) = bslice (off - 1) n xs"
  by (cases off) (simp_all add: bslice_def)

lemma length_concat_map: "(\<And>x. x \<in> set xs \<Longrightarrow> length (f x) = n) \<Longrightarrow> length (concat (map f xs)) = length xs * n"
  by (induction xs) simp_all

lemma bslice_single [simp]: "bslice 0 (Suc 0) (x # xs) = [x]"
  by (simp add: bslice_def)

lemma length_enc_sheader: "sheader_wf c h \<Longrightarrow> length (enc_sheader h) = sizeof_SHeader c"
  by (simp add: enc_sheader_def sheader_wf_def sizeof_SHeader_def)

lemma dec_enc_sheader: "sheader_wf c h \<Longrightarrow> dec_sheader c (enc_sheader h) = h"
  by (simp add: dec_sheader_def enc_sheader_def sheader_wf_def byte_simps)

lemma length_enc_sinternal_entry: "length (s_key e) = KEY_SIZE c \<Longrightarrow> length (enc_sinternal_entry e) = sizeof_SInternalEntry c"
  by (simp add: enc_sinternal_entry_def sizeof_SInternalEntry_def)

lemma dec_enc_sinternal_entry: "length (s_key e) = KEY_SIZE c \<Longrightarrow> dec_sinternal_entry c (enc_sinternal_entry e) = e"
  by (simp add: dec_sinternal_entry_def enc_sinternal_entry_def byte_simps)

lemma length_enc_sleaf_entry [simp]: "length (enc_sleaf_entry e) = sizeof_SLeafEntry"
  by (simp add: enc_sleaf_entry_def sizeof_SLeafEntry_def)

lemma dec_enc_sleaf_entry [simp]: "dec_sleaf_entry (enc_sleaf_entry e) = e"
  by (simp add: dec_sleaf_entry_def enc_sleaf_entry_def byte_simps)

lemma bslice_records:
  assumes "\<And>x. x \<in> set xs \<Longrightarrow> length (enc x) = n" and "length pre = k" and "i < length xs"
  shows "bslice (k + i * n) n (pre @ concat (map enc xs) @ rest) = enc (xs ! i)"
proof -
  have "length (concat (map enc xs)) = length xs * n" using assms(1) by (rule length_concat_map)
  moreover have "i * n + n \<le> length xs * n" using assms(3) by (metis Suc_leI add.commute mult_Suc mult_le_mono1)
  moreover have "bslice (i * n) n (concat (map enc xs)) = enc (xs ! i)"
    using assms(1,3) bslice_concat [of "map enc xs" n i] by auto
  ultimately show ?thesis using assms(2) by (simp add: bslice_append_right bslice_append_left)
qed

lemma length_enc_sinternal:
  assumes "sherman_ok c" and "sinternal_wf c p"
  shows "length (enc_sinternal c p) = kInternalPageSize"
proof -
  have "length (concat (map enc_sinternal_entry (i_records p))) = length (i_records p) * sizeof_SInternalEntry c"
    using assms(2) by (intro length_concat_map) (simp add: sinternal_wf_def length_enc_sinternal_entry)
  then show ?thesis
    using assms(2) page_layout(1) [OF assms(1)]
    by (simp add: enc_sinternal_def sinternal_wf_def length_enc_sheader [of c] kInternalPageSize_def mult.commute)
qed

lemma length_enc_sleaf:
  assumes "sherman_ok c" and "sleaf_wf c p"
  shows "length (enc_sleaf c p) = kLeafPageSize"
proof -
  have "length (concat (map enc_sleaf_entry (l_records p))) = length (l_records p) * sizeof_SLeafEntry"
    by (intro length_concat_map) simp
  then show ?thesis
    using assms(2) page_layout(2) [OF assms(1)]
    by (simp add: enc_sleaf_def sleaf_wf_def length_enc_sheader [of c] kLeafPageSize_def mult.commute)
qed

lemma page_ends:
  assumes "length h = n" and "length (a @ b # h @ rs @ [z]) = 1024" and "length a = 8"
  shows "bslice 0 8 (a @ b # h @ rs @ [z]) = a" "bslice 8 1 (a @ b # h @ rs @ [z]) = [b]"
    "bslice 9 n (a @ b # h @ rs @ [z]) = h" "bslice 1023 1 (a @ b # h @ rs @ [z]) = [z]"
proof -
  show "bslice 0 8 (a @ b # h @ rs @ [z]) = a" "bslice 8 1 (a @ b # h @ rs @ [z]) = [b]"
    using assms by (simp_all add: bslice_def)
  show "bslice 9 n (a @ b # h @ rs @ [z]) = h"
    using assms by (simp add: bslice_def)
  have "length (a @ b # h @ rs) = 1023" using assms(2) by simp
  then have "drop 1023 ((a @ b # h @ rs) @ [z]) = [z]" by (simp only: drop_append) simp
  then show "bslice 1023 1 (a @ b # h @ rs @ [z]) = [z]" by (simp add: bslice_def)
qed

lemma dec_enc_sinternal:
  assumes ok: "sherman_ok c" and wf: "sinternal_wf c p"
  shows "dec_sinternal c (enc_sinternal c p) = p"
proof -
  let ?rs = "concat (map enc_sinternal_entry (i_records p))"
  define bs where "bs = enc_sinternal c p"
  have len: "length (enc_sheader (i_hdr p)) = sizeof_SHeader c" using wf by (simp add: sinternal_wf_def length_enc_sheader)
  have bs: "bs = bytes_of_u64 (i_lock p) @ i_front_version p # enc_sheader (i_hdr p) @
      (?rs @ replicate (kInternalPagePadding c) 0) @ [i_rear_version p]"
    by (simp add: bs_def enc_sinternal_def)
  have "length bs = 1024" using length_enc_sinternal [OF ok wf] by (simp add: bs_def kInternalPageSize_def)
  note ends = page_ends [OF len this [unfolded bs] length_le_bytes, folded bs]
  have "dec_sinternal_entry c (bslice (9 + sizeof_SHeader c + i * sizeof_SInternalEntry c) (sizeof_SInternalEntry c) bs) =
      i_records p ! i" if i: "i < length (i_records p)" for i
  proof -
    have e: "length (s_key e) = KEY_SIZE c" if "e \<in> set (i_records p)" for e using wf that by (simp add: sinternal_wf_def)
    have "bslice (9 + sizeof_SHeader c + i * sizeof_SInternalEntry c) (sizeof_SInternalEntry c)
        ((bytes_of_u64 (i_lock p) @ [i_front_version p] @ enc_sheader (i_hdr p)) @ ?rs @
          (replicate (kInternalPagePadding c) 0 @ [i_rear_version p])) = enc_sinternal_entry (i_records p ! i)"
      by (rule bslice_records) (use i len e in \<open>auto intro: length_enc_sinternal_entry\<close>)
    then show ?thesis using i e by (simp add: bs dec_enc_sinternal_entry)
  qed
  then have "map (\<lambda>i. dec_sinternal_entry c (bslice (9 + sizeof_SHeader c + i * sizeof_SInternalEntry c) (sizeof_SInternalEntry c) bs))
      [0..<kInternalCardinality c] = i_records p"
    using wf by (intro nth_equalityI) (auto simp: sinternal_wf_def)
  then show ?thesis
    unfolding bs_def [symmetric]
    using ends wf by (simp add: dec_sinternal_def kInternalPageSize_def sinternal_wf_def dec_enc_sheader)
qed

lemma dec_enc_sleaf:
  assumes ok: "sherman_ok c" and wf: "sleaf_wf c p"
  shows "dec_sleaf c (enc_sleaf c p) = p"
proof -
  let ?rs = "concat (map enc_sleaf_entry (l_records p))"
  define bs where "bs = enc_sleaf c p"
  have len: "length (enc_sheader (l_hdr p)) = sizeof_SHeader c" using wf by (simp add: sleaf_wf_def length_enc_sheader)
  have bs: "bs = bytes_of_u64 (l_lock p) @ l_front_version p # enc_sheader (l_hdr p) @
      (?rs @ replicate (kLeafPagePadding c) 0) @ [l_rear_version p]"
    by (simp add: bs_def enc_sleaf_def)
  have "length bs = 1024" using length_enc_sleaf [OF ok wf] by (simp add: bs_def kLeafPageSize_def)
  note ends = page_ends [OF len this [unfolded bs] length_le_bytes, folded bs]
  have "dec_sleaf_entry (bslice (s_record_offset c i) sizeof_SLeafEntry bs) = l_records p ! i"
    if i: "i < length (l_records p)" for i
  proof -
    have "bslice (9 + sizeof_SHeader c + i * sizeof_SLeafEntry) sizeof_SLeafEntry
        ((bytes_of_u64 (l_lock p) @ [l_front_version p] @ enc_sheader (l_hdr p)) @ ?rs @
          (replicate (kLeafPagePadding c) 0 @ [l_rear_version p])) = enc_sleaf_entry (l_records p ! i)"
      by (rule bslice_records) (use i len in simp_all)
    then show ?thesis by (simp add: bs s_record_offset_def)
  qed
  then have "map (\<lambda>i. dec_sleaf_entry (bslice (s_record_offset c i) sizeof_SLeafEntry bs)) [0..<kLeafCardinality c] = l_records p"
    using wf by (intro nth_equalityI) (auto simp: sleaf_wf_def)
  then show ?thesis
    unfolding bs_def [symmetric]
    using ends wf by (simp add: dec_sleaf_def kLeafPageSize_def sleaf_wf_def dec_enc_sheader)
qed

subsection \<open>Pages in remote memory\<close>

definition sinternal_at :: "Config \<Rightarrow> rmemory \<Rightarrow> GlobalAddress \<Rightarrow> SInternalPage" where
  "sinternal_at c r g = dec_sinternal c (rm_load r g kInternalPageSize)"

definition sleaf_at :: "Config \<Rightarrow> rmemory \<Rightarrow> GlobalAddress \<Rightarrow> SLeafPage" where
  "sleaf_at c r g = dec_sleaf c (rm_load r g kLeafPageSize)"

text \<open>\<^verbatim>\<open>search_node\<close> reads every page as a leaf page and looks at its header before it knows its kind.\<close>

lemma page_views:
  "i_hdr (sinternal_at c r g) = l_hdr (sleaf_at c r g)" "i_lock (sinternal_at c r g) = l_lock (sleaf_at c r g)"
  "i_front_version (sinternal_at c r g) = l_front_version (sleaf_at c r g)"
  "i_rear_version (sinternal_at c r g) = l_rear_version (sleaf_at c r g)"
  by (simp_all add: sinternal_at_def sleaf_at_def dec_sinternal_def dec_sleaf_def kInternalPageSize_def kLeafPageSize_def)

lemma sinternal_at_store:
  assumes "rm_valid r g kInternalPageSize" and "sherman_ok c" and "sinternal_wf c p"
  shows "sinternal_at c (rm_store r g (enc_sinternal c p)) g = p"
  unfolding sinternal_at_def
  by (rule rm.object_roundtrip) (use assms in \<open>simp_all add: length_enc_sinternal dec_enc_sinternal\<close>)

lemma sleaf_at_store:
  assumes "rm_valid r g kLeafPageSize" and "sherman_ok c" and "sleaf_wf c p"
  shows "sleaf_at c (rm_store r g (enc_sleaf c p)) g = p"
  unfolding sleaf_at_def
  by (rule rm.object_roundtrip) (use assms in \<open>simp_all add: length_enc_sleaf dec_enc_sleaf\<close>)

lemma length_dec_spages [simp]:
  "length (i_records (dec_sinternal c bs)) = kInternalCardinality c" "length (l_records (dec_sleaf c bs)) = kLeafCardinality c"
  by (simp_all add: dec_sinternal_def dec_sleaf_def)

lemma dec_wf:
  assumes "sherman_ok c" and "length bs = 1024"
  shows "sinternal_wf c (dec_sinternal c bs)" and "sleaf_wf c (dec_sleaf c bs)"
proof -
  have h: "sizeof_SHeader c \<le> 1000"
  proof -
    have "0 < sizeof_SInternalEntry c" by (simp add: sizeof_SInternalEntry_def)
    then have "2 * sizeof_SInternalEntry c \<le> 1014 - sizeof_SHeader c"
      using assms(1) by (simp add: sherman_ok_def kInternalCardinality_def kInternalPageSize_def less_eq_div_iff_mult_less_eq)
    moreover have "8 < sizeof_SInternalEntry c" using assms(1) by (simp add: sherman_ok_def config_ok_def sizeof_SInternalEntry_def)
    ultimately show ?thesis by linarith
  qed
  have "sheader_wf c (dec_sheader c (bslice 9 (sizeof_SHeader c) bs))"
    using h assms(2) by (simp add: sheader_wf_def dec_sheader_def length_bslice sizeof_SHeader_def)
  moreover have "length (s_key (dec_sinternal_entry c
      (bslice (9 + sizeof_SHeader c + i * sizeof_SInternalEntry c) (sizeof_SInternalEntry c) bs))) = KEY_SIZE c"
    if "i < kInternalCardinality c" for i
  proof -
    have "Suc i * sizeof_SInternalEntry c \<le> kInternalCardinality c * sizeof_SInternalEntry c"
      using that by (intro mult_le_mono1) simp
    then have "9 + sizeof_SHeader c + i * sizeof_SInternalEntry c + sizeof_SInternalEntry c \<le> 1024"
      using page_layout(1) [OF assms(1)] by (simp add: mult.commute)
    then show ?thesis
      using assms(2) by (simp add: dec_sinternal_entry_def length_bslice sizeof_SInternalEntry_def)
  qed
  ultimately show "sinternal_wf c (dec_sinternal c bs)" and "sleaf_wf c (dec_sleaf c bs)"
    by (auto simp: sinternal_wf_def sleaf_wf_def dec_sinternal_def dec_sleaf_def)
qed

lemma page_at_wf:
  assumes "sherman_ok c" and "rm_valid r g 1024"
  shows "sinternal_wf c (sinternal_at c r g)" and "sleaf_wf c (sleaf_at c r g)"
  using dec_wf [OF assms(1), of "rm_load r g 1024"] rm.length_load [OF assms(2)]
  by (simp_all add: sinternal_at_def sleaf_at_def kInternalPageSize_def kLeafPageSize_def)

lemma dec_sleaf_record:
  assumes ok: "sherman_ok c" and len: "length bs = 1024" and i: "i < kLeafCardinality c"
  shows "dec_sleaf c (bsplice (s_record_offset c i) (enc_sleaf_entry e) bs) =
    (dec_sleaf c bs)\<lparr>l_records := (l_records (dec_sleaf c bs))[i := e]\<rparr>"
proof -
  let ?bs = "bsplice (s_record_offset c i) (enc_sleaf_entry e) bs"
  note room = record_in_page [OF ok i]
  have other: "bslice a n ?bs = bslice a n bs"
    if "a + n \<le> 9 + sizeof_SHeader c \<or> 1023 \<le> a" "a + n \<le> 1024" for a n
    using that len room by (intro bslice_bsplice_disjoint) (auto simp: s_record_offset_def)
  have "dec_sleaf_entry (bslice (s_record_offset c j) sizeof_SLeafEntry ?bs) = (l_records (dec_sleaf c bs))[i := e] ! j"
    if j: "j < kLeafCardinality c" for j
  proof (cases "j = i")
    case True
    then show ?thesis using len room j by (simp add: bslice_bsplice_same)
  next
    case False
    then have "s_record_offset c j + sizeof_SLeafEntry \<le> s_record_offset c i \<or>
        s_record_offset c i + sizeof_SLeafEntry \<le> s_record_offset c j"
      by (auto simp: s_record_offset_def sizeof_SLeafEntry_def)
    then show ?thesis
      using len room record_in_page [OF ok j] j False by (simp add: bslice_bsplice_disjoint dec_sleaf_def)
  qed
  then have "map (\<lambda>j. dec_sleaf_entry (bslice (s_record_offset c j) sizeof_SLeafEntry ?bs)) [0..<kLeafCardinality c] =
      (l_records (dec_sleaf c bs))[i := e]"
    by (intro nth_equalityI) simp_all
  moreover have "9 + sizeof_SHeader c \<le> 1024" using page_layout(2) [OF ok] by linarith
  ultimately show ?thesis by (simp add: dec_sleaf_def kLeafPageSize_def other)
qed

lemma dec_page_lock:
  assumes "length bs = 1024" and "sherman_ok c"
  shows "dec_sleaf c (bsplice 0 (bytes_of_u64 v) bs) = (dec_sleaf c bs)\<lparr>l_lock := v\<rparr>"
    and "dec_sinternal c (bsplice 0 (bytes_of_u64 v) bs) = (dec_sinternal c bs)\<lparr>i_lock := v\<rparr>"
proof -
  have other: "bslice a n (bsplice 0 (bytes_of_u64 v) bs) = bslice a n bs" if "8 \<le> a" "a + n \<le> 1024" for a n
    using that assms by (intro bslice_bsplice_disjoint) auto
  have same: "bslice 0 8 (bsplice 0 (bytes_of_u64 v) bs) = bytes_of_u64 v" using assms by (simp add: bslice_bsplice_same)
  have "bslice (s_record_offset c j) sizeof_SLeafEntry (bsplice 0 (bytes_of_u64 v) bs) =
      bslice (s_record_offset c j) sizeof_SLeafEntry bs" if "j < kLeafCardinality c" for j
    using record_in_page [OF assms(2) that] by (intro other) (auto simp: s_record_offset_def)
  moreover have "9 + sizeof_SHeader c \<le> 1024" using page_layout(2) [OF assms(2)] by linarith
  ultimately show "dec_sleaf c (bsplice 0 (bytes_of_u64 v) bs) = (dec_sleaf c bs)\<lparr>l_lock := v\<rparr>"
    by (simp add: dec_sleaf_def kLeafPageSize_def other same cong: map_cong)
  have "bslice (9 + sizeof_SHeader c + j * sizeof_SInternalEntry c) (sizeof_SInternalEntry c) (bsplice 0 (bytes_of_u64 v) bs) =
      bslice (9 + sizeof_SHeader c + j * sizeof_SInternalEntry c) (sizeof_SInternalEntry c) bs"
    if "j < kInternalCardinality c" for j
  proof (rule other)
    have "Suc j * sizeof_SInternalEntry c \<le> kInternalCardinality c * sizeof_SInternalEntry c"
      using that by (intro mult_le_mono1) simp
    then show "9 + sizeof_SHeader c + j * sizeof_SInternalEntry c + sizeof_SInternalEntry c \<le> 1024"
      using page_layout(1) [OF assms(2)] by (simp add: mult.commute)
  qed simp
  then show "dec_sinternal c (bsplice 0 (bytes_of_u64 v) bs) = (dec_sinternal c bs)\<lparr>i_lock := v\<rparr>"
    using \<open>9 + sizeof_SHeader c \<le> 1024\<close> by (simp add: dec_sinternal_def kInternalPageSize_def other same cong: map_cong)
qed

lemma record_store:
  assumes "sherman_ok c" and "rm_small r" and "rm_valid r g 1024" and "i < kLeafCardinality c"
  shows "sleaf_at c (rm_store r (gaddr_add g (of_nat (s_record_offset c i))) (enc_sleaf_entry e)) g =
    (sleaf_at c r g)\<lparr>l_records := (l_records (sleaf_at c r g))[i := e]\<rparr>"
    and "rm_valid r (gaddr_add g (of_nat (s_record_offset c i))) sizeof_SLeafEntry"
proof -
  have fits: "s_record_offset c i + length (enc_sleaf_entry e) \<le> 1024" "0 < length (enc_sleaf_entry e)"
    using record_in_page [OF assms(1,4)] by (simp_all add: sizeof_SLeafEntry_def)
  show "sleaf_at c (rm_store r (gaddr_add g (of_nat (s_record_offset c i))) (enc_sleaf_entry e)) g =
    (sleaf_at c r g)\<lparr>l_records := (l_records (sleaf_at c r g))[i := e]\<rparr>"
    using sub_store [OF assms(2,3) fits] dec_sleaf_record [OF assms(1) rm.length_load [OF assms(3)] assms(4)]
    by (simp add: sleaf_at_def kLeafPageSize_def)
  show "rm_valid r (gaddr_add g (of_nat (s_record_offset c i))) sizeof_SLeafEntry"
    using sub_valid [OF assms(2,3) fits] by simp
qed

lemma page_lock_store:
  assumes "sherman_ok c" and "rm_small r" and "rm_valid r g 1024"
  shows "sleaf_at c (rm_store r g (bytes_of_u64 v)) g = (sleaf_at c r g)\<lparr>l_lock := v\<rparr>"
    and "sinternal_at c (rm_store r g (bytes_of_u64 v)) g = (sinternal_at c r g)\<lparr>i_lock := v\<rparr>"
    and "rm_load64 r g = l_lock (sleaf_at c r g)" and "rm_valid r g 8"
proof -
  have "rm_load (rm_store r g (bytes_of_u64 v)) g 1024 = bsplice 0 (bytes_of_u64 v) (rm_load r g 1024)"
    using sub_store [OF assms(2,3), of 0 "bytes_of_u64 v"] by simp
  then show "sleaf_at c (rm_store r g (bytes_of_u64 v)) g = (sleaf_at c r g)\<lparr>l_lock := v\<rparr>"
    and "sinternal_at c (rm_store r g (bytes_of_u64 v)) g = (sinternal_at c r g)\<lparr>i_lock := v\<rparr>"
    using dec_page_lock [OF rm.length_load [OF assms(3)] assms(1)]
    by (simp_all add: sleaf_at_def sinternal_at_def kLeafPageSize_def kInternalPageSize_def)
  show "rm_load64 r g = l_lock (sleaf_at c r g)"
    by (simp add: rm_load64_def sleaf_at_def dec_sleaf_def rm_load_def bslice_bslice kLeafPageSize_def)
  show "rm_valid r g 8" using rm.valid_mono [OF assms(3)] by simp
qed

end
