(* ===== verification/Sherman_Page.thy ===== *)
theory Sherman_Page
  imports Sherman_Layout
begin

text \<open>
  The computations of \<^verbatim>\<open>src/src/kv_index/sherman_index.cpp\<close> on pages that a client holds in its own
  memory: choosing the child of an internal page, inserting a separator, splitting an
  internal page and splitting a leaf. The abstract view is the one of \<open>Faunus_Node\<close>: the lists of
  separators and children of a page, and \<open>route\<close>.
\<close>

subsection \<open>Definitions\<close>

text \<open>The number of records in use, \<^verbatim>\<open>hdr.last_index + 1\<close> with a signed 16-bit \<^verbatim>\<open>last_index\<close>.\<close>

definition s_count :: "SHeader \<Rightarrow> nat" where
  "s_count h = nat (sint (s_last_index h) + 1)"

definition select_child :: "bytes \<Rightarrow> SInternalPage \<Rightarrow> err + GlobalAddress" where
  "select_child key page =
     (let cnt = s_count (i_hdr page); rs = i_records page in
      if key_lt key (s_key (rs ! 0)) then Inr (s_leftmost_ptr (i_hdr page))
      else case find (\<lambda>i. key_lt key (s_key (rs ! i))) [1..<min cnt (length rs)] of
             Some i \<Rightarrow> Inr (s_ptr (rs ! (i - 1)))
           | None \<Rightarrow> if 0 < cnt \<and> cnt \<le> length rs then Inr (s_ptr (rs ! (cnt - 1))) else Inl UndefinedBehaviour)"

datatype record_pos = UpdateAt nat | InsertAt nat

definition record_position :: "bytes \<Rightarrow> nat \<Rightarrow> SInternalEntry list \<Rightarrow> record_pos" where
  "record_position key cnt rs =
     (case find (\<lambda>i. key_eq (s_key (rs ! i)) key \<or> key_lt (s_key (rs ! i)) key) (rev [0..<cnt]) of
        None \<Rightarrow> InsertAt 0
      | Some i \<Rightarrow> if key_eq (s_key (rs ! i)) key then UpdateAt i else InsertAt (Suc i))"

fun shift_records :: "nat \<Rightarrow> nat \<Rightarrow> 'a list \<Rightarrow> 'a list" where
  "shift_records insert_index 0 rs = rs"
| "shift_records insert_index (Suc j) rs =
     (if Suc j > insert_index then shift_records insert_index j (rs[Suc j := rs ! j]) else rs)"

definition internal_insert :: "Config \<Rightarrow> bytes \<Rightarrow> GlobalAddress \<Rightarrow> SInternalPage \<Rightarrow> err + SInternalPage" where
  "internal_insert c key v page =
     (let cnt = s_count (i_hdr page); rs = i_records page in
      if kInternalCardinality c < cnt then Inl UndefinedBehaviour
      else if cnt = kInternalCardinality c then Inl AssertionFailed
      else Inr (case record_position key cnt rs of
          UpdateAt i \<Rightarrow> page\<lparr>i_records := rs[i := (rs ! i)\<lparr>s_ptr := v\<rparr>]\<rparr>
        | InsertAt i \<Rightarrow> page\<lparr>i_records := (shift_records i cnt rs)[i := \<lparr>s_key = key, s_ptr = v\<rparr>],
                           i_hdr := (i_hdr page)\<lparr>s_last_index := s_last_index (i_hdr page) + 1\<rparr>\<rparr>))"

text \<open>
  The split of a full internal page at \<open>page_addr\<close>: the separator to insert one level up, the old
  page and its new right sibling at \<open>sibling_addr\<close>, both ready to be written.
\<close>

definition internal_split ::
  "Config \<Rightarrow> GlobalAddress \<Rightarrow> GlobalAddress \<Rightarrow> SInternalPage \<Rightarrow> err + (bytes \<times> SInternalPage \<times> SInternalPage)" where
  "internal_split c page_addr sibling_addr page =
     (let h = i_hdr page; rs = i_records page; cnt = s_count h; m = cnt div 2; split_key = s_key (rs ! m);
          sib = SInternalPage_init c (s_level h);
          sib_rs = fold (\<lambda>i s. s[i - Suc m := rs ! i]) [Suc m..<cnt] (i_records sib);
          sib_h = (i_hdr sib)\<lparr>s_last_index := s_last_index (i_hdr sib) + of_nat (cnt - Suc m), s_leftmost_ptr := s_ptr (rs ! m),
             s_lowest := split_key, s_highest := s_highest h, s_sibling_ptr := s_sibling_ptr h\<rparr>;
          h' = h\<lparr>s_last_index := s_last_index h - of_nat (cnt - m), s_highest := split_key, s_sibling_ptr := sibling_addr\<rparr>
      in if \<not> (key_gt split_key (s_lowest h) \<and> key_lt split_key (s_highest h)) then Inl AssertionFailed
         else if sibling_addr = page_addr \<or> s_sibling_ptr h = page_addr \<or> s_sibling_ptr h = sibling_addr then Inl AssertionFailed
         else Inr (split_key, i_set_consistent (page\<lparr>i_hdr := h'\<rparr>),
                   i_set_consistent (sib\<lparr>i_hdr := sib_h, i_records := sib_rs\<rparr>)))"

text \<open>
  The split of a full leaf: \<open>ke\<close> are its entries with their keys, in the order of the keys. \<^verbatim>\<open>std::sort\<close>
  on distinct keys is \<open>sort_key\<close>.
\<close>

definition sort_entries :: "(bytes \<times> SLeafEntry) list \<Rightarrow> (bytes \<times> SLeafEntry) list" where
  "sort_entries = sort_key (\<lambda>x. be_val (fst x))"

definition leaf_split ::
  "Config \<Rightarrow> GlobalAddress \<Rightarrow> GlobalAddress \<Rightarrow> (bytes \<times> SLeafEntry) list \<Rightarrow> SLeafPage \<Rightarrow> err + (bytes \<times> SLeafPage \<times> SLeafPage)" where
  "leaf_split c leaf_address sibling_addr ke page =
     (let h = l_hdr page; n = length ke; m = n div 2; split_key = fst (ke ! m);
          rs1 = fold (\<lambda>i rs. rs[i := snd (ke ! i)]) [0..<n] (l_records page);
          rs2 = fold (\<lambda>i rs. rs[i := SLeafEntry_init]) [n..<kLeafCardinality c] rs1;
          sib = SLeafPage_init c (s_level h);
          (rs3, sib_rs) = fold (\<lambda>i (l, s). (l[i := SLeafEntry_init], s[i - m := l ! i])) [m..<n] (rs2, l_records sib);
          sib_h = (l_hdr sib)\<lparr>s_last_index := s_last_index (l_hdr sib) + of_nat (n - m), s_lowest := split_key,
             s_highest := s_highest h, s_sibling_ptr := s_sibling_ptr h\<rparr>;
          h' = h\<lparr>s_last_index := s_last_index h - of_nat (n - m), s_highest := split_key, s_sibling_ptr := sibling_addr\<rparr>
      in if \<not> (key_gt split_key (s_lowest h) \<and> key_lt split_key (s_highest h)) then Inl AssertionFailed
         else if sibling_addr = leaf_address \<or> s_sibling_ptr h = leaf_address \<or> s_sibling_ptr h = sibling_addr then Inl AssertionFailed
         else Inr (split_key, l_set_consistent (page\<lparr>l_hdr := h', l_records := rs3\<rparr>),
                   l_set_consistent (sib\<lparr>l_hdr := sib_h, l_records := sib_rs\<rparr>)))"

subsection \<open>Separators and children\<close>

definition s_separators :: "SInternalPage \<Rightarrow> bytes list" where
  "s_separators p = map s_key (take (s_count (i_hdr p)) (i_records p))"

definition s_children :: "SInternalPage \<Rightarrow> GlobalAddress list" where
  "s_children p = s_leftmost_ptr (i_hdr p) # map s_ptr (take (s_count (i_hdr p)) (i_records p))"

definition sinternal_ok :: "Config \<Rightarrow> SInternalPage \<Rightarrow> bool" where
  "sinternal_ok c p \<longleftrightarrow> sinternal_wf c p \<and> 0 < s_count (i_hdr p) \<and> s_count (i_hdr p) \<le> kInternalCardinality c \<and>
     sorted_wrt (<) (map be_val (s_separators p)) \<and>
     (\<forall>s \<in> set (s_separators p). be_val (s_lowest (i_hdr p)) < be_val s \<and> be_val s < be_val (s_highest (i_hdr p)))"

lemma spage_parts:
  assumes "sinternal_ok c p"
  shows "s_count (i_hdr p) \<le> length (i_records p)" "length (s_separators p) = s_count (i_hdr p)"
    "length (s_children p) = Suc (s_count (i_hdr p))"
    "i < s_count (i_hdr p) \<Longrightarrow> s_separators p ! i = s_key (i_records p ! i)"
    "i < s_count (i_hdr p) \<Longrightarrow> s_children p ! Suc i = s_ptr (i_records p ! i)"
    "i < length (i_records p) \<Longrightarrow> length (s_key (i_records p ! i)) = KEY_SIZE c"
    "s \<in> set (s_separators p) \<Longrightarrow> length s = KEY_SIZE c"
  using assms by (auto simp: sinternal_ok_def sinternal_wf_def s_separators_def s_children_def dest: in_set_takeD)

lemma select_child_route:
  assumes ok: "sinternal_ok c p" and k: "length k = KEY_SIZE c"
  shows "select_child k p = Inr (route (s_separators p) (s_children p) k)"
proof -
  let ?n = "s_count (i_hdr p)" and ?rs = "i_records p" and ?j = "rank (s_separators p) k"
  note parts = spage_parts [OF ok]
  have n: "0 < ?n" and sorted: "sorted_wrt (<) (map be_val (s_separators p))" using ok by (simp_all add: sinternal_ok_def)
  have lt: "key_lt k (s_key (?rs ! i)) \<longleftrightarrow> \<not> i < ?j" if "i < ?n" for i
    using that parts(1,2,4) parts(6) [of i] sorted_rank_nth [OF sorted, of i k] k by (simp add: key_lt_iff not_le [symmetric])
  have j: "?j \<le> ?n" using rank_le [of "s_separators p" k] parts(2) by simp
  show ?thesis
  proof (cases ?j)
    case 0
    then show ?thesis using lt [OF n] by (simp add: select_child_def Let_def route_def s_children_def)
  next
    case (Suc i)
    have first: "\<not> key_lt k (s_key (?rs ! 0))" using lt [OF n] Suc by simp
    have child: "route (s_separators p) (s_children p) k = s_ptr (?rs ! i)"
      using parts(5) [of i] Suc j by (simp add: route_def)
    show ?thesis
    proof (cases "?j = ?n")
      case True
      then have "find (\<lambda>i. key_lt k (s_key (?rs ! i))) [1..<?n] = None" using lt by (auto simp: find_None_iff)
      then show ?thesis using first n parts(1) child Suc True by (simp add: select_child_def Let_def min_absorb1)
    next
      case False
      then have "?j < ?n" using j by simp
      then have "find (\<lambda>i. key_lt k (s_key (?rs ! i))) [1..<?n] = Some ([1..<?n] ! i)"
        by (intro find_first [of i "[1..<?n]" "\<lambda>i. key_lt k (s_key (?rs ! i))"]) (use lt Suc in simp_all)
      then show ?thesis using first parts(1) child Suc \<open>?j < ?n\<close> by (simp add: select_child_def Let_def min_absorb1)
    qed
  qed
qed

subsection \<open>The signed record counter\<close>

lemma sint_small_index: "k \<le> 1024 \<Longrightarrow> sint (of_nat k - 1 :: 16 word) = int k - 1"
proof (cases k)
  case (Suc j)
  assume "k \<le> 1024"
  then have "sint (of_nat j :: 16 word) = int j"
    using Suc by (simp add: signed_of_nat signed_take_bit_int_eq_self)
  then show ?thesis using Suc by simp
qed simp

lemma s_count_index: "k \<le> 1024 \<Longrightarrow> s_last_index h = of_nat k - 1 \<Longrightarrow> s_count h = k"
  by (simp add: s_count_def sint_small_index)

lemma last_index_of_count: "0 < s_count h \<Longrightarrow> s_last_index h = of_nat (s_count h) - 1"
  by (simp add: s_count_def)

lemma cardinality_small: "sherman_ok c \<Longrightarrow> kInternalCardinality c \<le> 1024"
  using div_le_dividend [of "1024 - sizeof_SHeader c - 2 - 8" "sizeof_SInternalEntry c"]
  unfolding kInternalCardinality_def kInternalPageSize_def by linarith

subsection \<open>Inserting a separator\<close>

lemma length_shift_records [simp]: "length (shift_records i n rs) = length rs"
  by (induction n arbitrary: rs) simp_all

lemma shift_records_nth:
  assumes "n < length rs" and "i \<le> n" and "p < length rs"
  shows "shift_records i n rs ! p = (if i < p \<and> p \<le> n then rs ! (p - 1) else rs ! p)"
  using assms
proof (induction n arbitrary: rs)
  case (Suc j)
  show ?case
  proof (cases "i = Suc j")
    case False
    then have "i \<le> j" using Suc.prems(2) by simp
    then have "shift_records i j (rs[Suc j := rs ! j]) ! p =
        (if i < p \<and> p \<le> j then (rs[Suc j := rs ! j]) ! (p - 1) else (rs[Suc j := rs ! j]) ! p)"
      using Suc.prems by (intro Suc.IH) simp_all
    then show ?thesis using Suc.prems \<open>i \<le> j\<close> by (auto simp: nth_list_update)
  qed auto
qed simp

lemma shifted_records:
  assumes "n < length rs" and "i \<le> n"
  shows "take (Suc n) ((shift_records i n rs)[i := x]) = insert_at i x (take n rs)" (is "?l = ?r")
proof (rule nth_equalityI)
  show "length ?l = length ?r" using assms by simp
  fix p assume "p < length ?l"
  then have "p \<le> n" using assms by simp
  then show "?l ! p = ?r ! p"
    using assms by (auto simp: nth_insert_at shift_records_nth nth_list_update)
qed

lemma map_insert_at: "map f (insert_at i x xs) = insert_at i (f x) (map f xs)"
  by (simp add: insert_at_def take_map drop_map)

lemma record_position_rank:
  assumes ok: "sinternal_ok c p" and key: "length key = KEY_SIZE c" "key \<notin> set (s_separators p)"
  shows "record_position key (s_count (i_hdr p)) (i_records p) = InsertAt (rank (s_separators p) key)"
proof -
  let ?n = "s_count (i_hdr p)" and ?rs = "i_records p" and ?j = "rank (s_separators p) key"
  let ?P = "\<lambda>i. key_eq (s_key (?rs ! i)) key \<or> key_lt (s_key (?rs ! i)) key"
  note parts = spage_parts [OF ok]
  have sorted: "sorted_wrt (<) (map be_val (s_separators p))" using ok by (simp add: sinternal_ok_def)
  have ne: "\<not> key_eq (s_key (?rs ! i)) key" if "i < ?n" for i
    using that parts(1,2,4) parts(6) [of i] key nth_mem [of i "s_separators p"] by (simp add: key_eq_iff) metis
  have P: "?P i \<longleftrightarrow> i < ?j" if "i < ?n" for i
    using that parts(1,2,4) parts(6) [of i] key sorted_rank_nth [OF sorted, of i key] ne [OF that]
      be_val_inj [of "s_key (?rs ! i)" key] by (auto simp: key_order_simps)
  have j: "?j \<le> ?n" using rank_le [of "s_separators p" key] parts(2) by simp
  show ?thesis
  proof (cases ?j)
    case 0
    then have "find ?P (rev [0..<?n]) = None" using P by (auto simp: find_None_iff)
    then show ?thesis using 0 by (simp add: record_position_def)
  next
    case (Suc i)
    have "find ?P (rev [0..<?n]) = Some (rev [0..<?n] ! (?n - ?j))"
      by (rule find_first [of "?n - ?j" "rev [0..<?n]" ?P]) (use P j Suc in \<open>auto simp: rev_nth\<close>)
    moreover have "rev [0..<?n] ! (?n - ?j) = i" using j Suc by (simp add: rev_nth)
    ultimately show ?thesis using Suc ne [of i] j by (simp add: record_position_def)
  qed
qed

lemma internal_insert_view:
  assumes c: "sherman_ok c" and ok: "sinternal_ok c p" and room: "s_count (i_hdr p) < kInternalCardinality c"
    and key: "length key = KEY_SIZE c" "key \<notin> set (s_separators p)"
  defines "j \<equiv> rank (s_separators p) key"
  shows "\<exists>p'. internal_insert c key v p = Inr p' \<and> sinternal_wf c p' \<and> s_count (i_hdr p') = Suc (s_count (i_hdr p)) \<and>
    s_separators p' = insert_at j key (s_separators p) \<and> s_children p' = insert_at (Suc j) v (s_children p) \<and>
    i_hdr p' = (i_hdr p)\<lparr>s_last_index := s_last_index (i_hdr p) + 1\<rparr> \<and> i_lock p' = i_lock p \<and>
    i_front_version p' = i_front_version p \<and> i_rear_version p' = i_rear_version p"
proof -
  let ?n = "s_count (i_hdr p)" and ?rs = "i_records p"
  define rs' where "rs' = (shift_records j ?n ?rs)[j := \<lparr>s_key = key, s_ptr = v\<rparr>]"
  define p' where "p' = p\<lparr>i_records := rs', i_hdr := (i_hdr p)\<lparr>s_last_index := s_last_index (i_hdr p) + 1\<rparr>\<rparr>"
  note parts = spage_parts [OF ok]
  have wf: "sinternal_wf c p" and n0: "0 < ?n" using ok by (simp_all add: sinternal_ok_def)
  then have len: "length ?rs = kInternalCardinality c" by (simp add: sinternal_wf_def)
  have j: "j \<le> ?n" using rank_le [of "s_separators p" key] parts(2) by (simp add: j_def)
  have ins: "internal_insert c key v p = Inr p'"
    using room record_position_rank [OF ok key] by (simp add: internal_insert_def Let_def p'_def rs'_def j_def)
  have cnt: "s_count (i_hdr p') = Suc ?n"
    using last_index_of_count [OF n0] room cardinality_small [OF c] by (intro s_count_index) (simp_all add: p'_def)
  have take: "take (Suc ?n) rs' = insert_at j \<lparr>s_key = key, s_ptr = v\<rparr> (take ?n ?rs)"
    using room len j by (simp add: rs'_def shifted_records)
  have "\<forall>e \<in> set rs'. length (s_key e) = KEY_SIZE c"
  proof
    fix e assume "e \<in> set rs'"
    then obtain q where "q < length rs'" "e = rs' ! q" by (metis in_set_conv_nth)
    then show "length (s_key e) = KEY_SIZE c"
      using parts(6) [of q] parts(6) [of "q - 1"] key(1) room len j
      by (auto simp: rs'_def nth_list_update shift_records_nth)
  qed
  then have wf': "sinternal_wf c p'" using wf by (simp add: sinternal_wf_def sheader_wf_def p'_def rs'_def)
  have view: "s_separators p' = insert_at j key (s_separators p)" "s_children p' = insert_at (Suc j) v (s_children p)"
    using take cnt by (simp_all add: s_separators_def s_children_def p'_def map_insert_at) (simp add: insert_at_def)
  show ?thesis using ins wf' cnt view by (intro exI [of _ p']) (simp add: p'_def)
qed

lemma internal_insert_ok:
  assumes c: "sherman_ok c" and ok: "sinternal_ok c p" and room: "s_count (i_hdr p) < kInternalCardinality c"
    and key: "length key = KEY_SIZE c" "key \<notin> set (s_separators p)"
    and fence: "be_val (s_lowest (i_hdr p)) < be_val key" "be_val key < be_val (s_highest (i_hdr p))"
    and ins: "internal_insert c key v p = Inr p'"
  shows "sinternal_ok c p'"
proof -
  have "be_val s \<noteq> be_val key" if "s \<in> set (s_separators p)" for s
    using that key spage_parts(7) [OF ok] be_val_inj [of s key] by auto
  then have "sorted_wrt (<) (map be_val (insert_at (rank (s_separators p) key) key (s_separators p)))"
    using ok by (intro sorted_insert_at) (simp_all add: sinternal_ok_def)
  then show ?thesis
    using internal_insert_view [OF c ok room key, of v] ins ok room fence
    by (auto simp: sinternal_ok_def set_insert_at)
qed

subsection \<open>Splitting an internal page\<close>

lemma internal_split_view:
  assumes c: "sherman_ok c" and ok: "sinternal_ok c p" and cnt: "2 \<le> s_count (i_hdr p)"
    and addr: "b \<noteq> a" "s_sibling_ptr (i_hdr p) \<noteq> a" "s_sibling_ptr (i_hdr p) \<noteq> b"
  defines "m \<equiv> s_count (i_hdr p) div 2" and "n \<equiv> s_count (i_hdr p)"
  shows "\<exists>l s. internal_split c a b p = Inr (s_separators p ! m, l, s) \<and> sinternal_wf c l \<and> sinternal_wf c s \<and>
    s_count (i_hdr l) = m \<and> s_count (i_hdr s) = n - Suc m \<and>
    s_separators l = take m (s_separators p) \<and> s_children l = take (Suc m) (s_children p) \<and>
    s_separators s = drop (Suc m) (s_separators p) \<and> s_children s = drop (Suc m) (s_children p) \<and>
    i_hdr l = (i_hdr p)\<lparr>s_last_index := s_last_index (i_hdr p) - of_nat (n - m), s_highest := s_separators p ! m, s_sibling_ptr := b\<rparr> \<and>
    s_level (i_hdr s) = s_level (i_hdr p) \<and> s_lowest (i_hdr s) = s_separators p ! m \<and>
    s_highest (i_hdr s) = s_highest (i_hdr p) \<and> s_sibling_ptr (i_hdr s) = s_sibling_ptr (i_hdr p) \<and>
    i_check_consistent l \<and> i_check_consistent s \<and> i_lock l = i_lock p \<and> i_lock s = 0"
proof -
  let ?rs = "i_records p"
  note parts = spage_parts [OF ok, folded n_def]
  have nm: "n div 2 = m" by (simp add: m_def n_def)
  have m: "0 < m" "m < n" using cnt by (auto simp: m_def n_def)
  have wf: "sinternal_wf c p" using ok by (simp add: sinternal_ok_def)
  have small: "n \<le> kInternalCardinality c" "n \<le> 1024"
    using ok cardinality_small [OF c] by (auto simp: sinternal_ok_def n_def)
  have len: "length ?rs = kInternalCardinality c" using wf by (simp add: sinternal_wf_def)
  have sk: "s_separators p ! m = s_key (?rs ! m)" using parts(4) m by simp
  define sib where "sib = SInternalPage_init c (s_level (i_hdr p))"
  have sib: "length (i_records sib) = kInternalCardinality c" "\<forall>e \<in> set (i_records sib). length (s_key e) = KEY_SIZE c"
      "i_hdr sib = SHeader_init c (s_level (i_hdr p))" "i_lock sib = 0"
    using set_update_subset_insert [of "replicate (kInternalCardinality c) (SInternalEntry_init c)" 0 "(SInternalEntry_init c)\<lparr>s_ptr := Null\<rparr>"]
    by (auto simp: sib_def SInternalPage_init_def SInternalEntry_init_def)
  define srs where "srs = fold (\<lambda>i s. s[i - Suc m := ?rs ! i]) [Suc m..<n] (i_records sib)"
  define seg where "seg = drop (Suc m) (take n ?rs)"
  have srs: "srs = seg @ drop (n - Suc m) (i_records sib)"
  proof -
    have "map (\<lambda>q. ?rs ! (q + Suc m)) [0..<n - Suc m] = seg"
      using m small len by (intro nth_equalityI) (simp_all add: seg_def add.commute)
    then show ?thesis
      using fold_update_range [of "n - Suc m" "i_records sib" "Suc m" "\<lambda>i. ?rs ! i"] m small sib(1)
      by (simp add: srs_def)
  qed
  define l where "l = i_set_consistent (p\<lparr>i_hdr := (i_hdr p)\<lparr>s_last_index := s_last_index (i_hdr p) - of_nat (n - m),
      s_highest := s_key (?rs ! m), s_sibling_ptr := b\<rparr>\<rparr>)"
  define s where "s = i_set_consistent (sib\<lparr>i_hdr := (i_hdr sib)\<lparr>s_last_index := s_last_index (i_hdr sib) + of_nat (n - Suc m),
      s_leftmost_ptr := s_ptr (?rs ! m), s_lowest := s_key (?rs ! m), s_highest := s_highest (i_hdr p),
      s_sibling_ptr := s_sibling_ptr (i_hdr p)\<rparr>, i_records := srs\<rparr>)"
  have "s_separators p ! m \<in> set (s_separators p)" using parts(2) m by simp
  then have fence: "be_val (s_lowest (i_hdr p)) < be_val (s_key (?rs ! m))" "be_val (s_key (?rs ! m)) < be_val (s_highest (i_hdr p))"
    using ok sk by (auto simp: sinternal_ok_def)
  have lens: "length (s_key (?rs ! m)) = KEY_SIZE c" "length (s_lowest (i_hdr p)) = KEY_SIZE c" "length (s_highest (i_hdr p)) = KEY_SIZE c"
    using wf parts(1,6) m by (auto simp: sinternal_wf_def sheader_wf_def)
  have run: "internal_split c a b p = Inr (s_separators p ! m, l, s)"
    using fence lens addr sk
    by (simp add: internal_split_def Let_def l_def s_def nm n_def [symmetric] sib_def [symmetric] srs_def [symmetric] key_order_simps)
  have cl: "s_count (i_hdr l) = m"
  proof (rule s_count_index)
    have "s_last_index (i_hdr p) = of_nat n - 1" using last_index_of_count [of "i_hdr p"] m by (simp add: n_def)
    then show "s_last_index (i_hdr l) = of_nat m - 1" using m by (simp add: l_def i_set_consistent_def of_nat_diff)
  qed (use m small in simp)
  have cs: "s_count (i_hdr s) = n - Suc m"
    by (rule s_count_index) (use small sib in \<open>simp_all add: s_def i_set_consistent_def SHeader_init_def\<close>)
  have ts: "take (n - Suc m) srs = seg" using m small len by (simp add: srs seg_def)
  have "sinternal_wf c l" using wf lens by (simp add: sinternal_wf_def sheader_wf_def l_def i_set_consistent_def)
  moreover have "sinternal_wf c s"
  proof -
    have "length srs = kInternalCardinality c" using sib m small len by (simp add: srs seg_def)
    moreover have "\<forall>e \<in> set srs. length (s_key e) = KEY_SIZE c"
      using sib(2) wf by (auto simp: srs seg_def sinternal_wf_def dest: in_set_dropD in_set_takeD)
    ultimately show ?thesis using lens sib by (simp add: sinternal_wf_def sheader_wf_def s_def i_set_consistent_def)
  qed
  moreover have "s_separators l = take m (s_separators p)" "s_children l = take (Suc m) (s_children p)"
    unfolding s_separators_def s_children_def cl
    using m by (simp_all add: take_map min_absorb1 n_def [symmetric] l_def i_set_consistent_def)
  moreover have "s_separators s = drop (Suc m) (s_separators p)"
    unfolding s_separators_def cs using ts by (simp add: s_def i_set_consistent_def n_def [symmetric] seg_def drop_map)
  moreover have "s_children s = drop (Suc m) (s_children p)"
  proof -
    have "drop m (take n ?rs) = ?rs ! m # seg" using m small len by (simp add: seg_def Cons_nth_drop_Suc [symmetric])
    moreover have "drop (Suc m) (s_children p) = map s_ptr (drop m (take n ?rs))"
      by (simp add: s_children_def n_def [symmetric] drop_map)
    moreover have "s_children s = s_ptr (?rs ! m) # map s_ptr seg"
      unfolding s_children_def cs using ts by (simp add: s_def i_set_consistent_def)
    ultimately show ?thesis by simp
  qed
  ultimately show ?thesis
    using run cl cs sk sib
    by (intro exI [of _ l] exI [of _ s])
       (simp add: l_def s_def i_set_consistent_def i_check_consistent_def SHeader_init_def)
qed

lemma sorted_middle:
  assumes "sorted_wrt (<) (map be_val ss)" and "m < length ss"
  shows "\<forall>x \<in> set (take m ss). be_val x < be_val (ss ! m)" and "\<forall>x \<in> set (drop (Suc m) ss). be_val (ss ! m) < be_val x"
proof -
  have ss: "ss = take m ss @ ss ! m # drop (Suc m) ss" using id_take_nth_drop [OF assms(2)] .
  have s: "sorted_wrt (<) (map be_val (take m ss) @ be_val (ss ! m) # map be_val (drop (Suc m) ss))"
    using assms(1) ss by (metis list.simps(9) map_append)
  show "\<forall>x \<in> set (take m ss). be_val x < be_val (ss ! m)" "\<forall>x \<in> set (drop (Suc m) ss). be_val (ss ! m) < be_val x"
    using s by (simp_all add: sorted_wrt_append del: take_map drop_map)
qed

lemma internal_split_ok:
  assumes c: "sherman_ok c" and ok: "sinternal_ok c p" and cnt: "3 \<le> s_count (i_hdr p)"
    and addr: "b \<noteq> a" "s_sibling_ptr (i_hdr p) \<noteq> a" "s_sibling_ptr (i_hdr p) \<noteq> b"
    and split: "internal_split c a b p = Inr (sk, l, s)"
  shows "sinternal_ok c l" and "sinternal_ok c s"
proof -
  let ?ss = "s_separators p" and ?m = "s_count (i_hdr p) div 2"
  have m: "?m < length ?ss" "0 < ?m" "?m < s_count (i_hdr p)" "0 < s_count (i_hdr p) - Suc ?m"
    using spage_parts(2) [OF ok] cnt by auto
  have sorted: "sorted_wrt (<) (map be_val ?ss)" and fences: "\<forall>s \<in> set ?ss. be_val (s_lowest (i_hdr p)) < be_val s \<and> be_val s < be_val (s_highest (i_hdr p))"
    using ok by (simp_all add: sinternal_ok_def)
  have "2 \<le> s_count (i_hdr p)" using cnt by simp
  note view = internal_split_view [OF c ok this addr] split
  have "?ss ! ?m \<in> set ?ss" using m(1) by simp
  then have mid: "be_val (s_lowest (i_hdr p)) < be_val (?ss ! ?m)" "be_val (?ss ! ?m) < be_val (s_highest (i_hdr p))"
    using fences by auto
  have halves: "sorted_wrt (<) (map be_val (take ?m ?ss))" "sorted_wrt (<) (map be_val (drop (Suc ?m) ?ss))"
    using sorted by (simp_all add: take_map [symmetric] drop_map [symmetric] sorted_wrt_take sorted_wrt_drop)
  note parts = sorted_middle [OF sorted m(1)]
  have "s_count (i_hdr p) \<le> kInternalCardinality c" using ok by (simp add: sinternal_ok_def)
  then show "sinternal_ok c l" "sinternal_ok c s"
    using view halves parts fences m mid
    by (auto simp: sinternal_ok_def dest: in_set_takeD in_set_dropD)
qed

subsection \<open>Splitting a leaf\<close>

lemma move_records:
  assumes "m \<le> n" and "n \<le> length L" and "n - m \<le> length S"
  shows "fold (\<lambda>i (l, s). (l[i := e], s[i - m := l ! i])) [m..<n] (L, S) =
    (take m L @ replicate (n - m) e @ drop n L, drop m (take n L) @ drop (n - m) S)"
  using assms
proof (induction n rule: dec_induct)
  case (step n)
  have "drop n L = L ! n # drop (Suc n) L" "drop (n - m) S = S ! (n - m) # drop (Suc n - m) S"
    using step by (simp_all add: Cons_nth_drop_Suc Suc_diff_le)
  moreover have "take (Suc n) L = take n L @ [L ! n]" using step.prems by (simp add: take_Suc_conv_app_nth)
  ultimately show ?case
    using step by (simp add: list_update_append nth_append Suc_diff_le replicate_append_same [symmetric])
qed simp

lemma leaf_split_view:
  assumes wf: "sleaf_wf c p" and ke: "length ke \<le> kLeafCardinality c" "0 < length ke"
    and fence: "key_gt (fst (ke ! (length ke div 2))) (s_lowest (l_hdr p))" "key_lt (fst (ke ! (length ke div 2))) (s_highest (l_hdr p))"
    and sk: "length (fst (ke ! (length ke div 2))) = KEY_SIZE c"
    and addr: "b \<noteq> a" "s_sibling_ptr (l_hdr p) \<noteq> a" "s_sibling_ptr (l_hdr p) \<noteq> b"
  defines "m \<equiv> length ke div 2" and "n \<equiv> length ke"
  shows "\<exists>l s. leaf_split c a b ke p = Inr (fst (ke ! m), l, s) \<and> sleaf_wf c l \<and> sleaf_wf c s \<and>
    l_records l = map snd (take m ke) @ replicate (kLeafCardinality c - m) SLeafEntry_init \<and>
    l_records s = map snd (drop m ke) @ replicate (kLeafCardinality c - (n - m)) SLeafEntry_init \<and>
    l_hdr l = (l_hdr p)\<lparr>s_last_index := s_last_index (l_hdr p) - of_nat (n - m), s_highest := fst (ke ! m), s_sibling_ptr := b\<rparr> \<and>
    s_leftmost_ptr (l_hdr s) = Null \<and> s_level (l_hdr s) = s_level (l_hdr p) \<and> s_lowest (l_hdr s) = fst (ke ! m) \<and>
    s_highest (l_hdr s) = s_highest (l_hdr p) \<and> s_sibling_ptr (l_hdr s) = s_sibling_ptr (l_hdr p) \<and>
    l_check_consistent l \<and> l_check_consistent s \<and> l_lock l = l_lock p \<and> l_lock s = 0"
proof -
  let ?K = "kLeafCardinality c"
  have nm: "n div 2 = m" "m \<le> n" "length ke = n" by (simp_all add: m_def n_def)
  have len: "length (l_records p) = ?K" "n \<le> ?K" using wf ke by (simp_all add: sleaf_wf_def n_def)
  define sib where "sib = SLeafPage_init c (s_level (l_hdr p))"
  have sib: "l_records sib = replicate ?K SLeafEntry_init" "l_hdr sib = SHeader_init c (s_level (l_hdr p))" "l_lock sib = 0"
    by (simp_all add: sib_def SLeafPage_init_def)
  define rs1 where "rs1 = fold (\<lambda>i rs. rs[i := snd (ke ! i)]) [0..<n] (l_records p)"
  define rs2 where "rs2 = fold (\<lambda>i rs. rs[i := SLeafEntry_init]) [n..<?K] rs1"
  have rs1: "rs1 = map snd ke @ drop n (l_records p)"
  proof -
    have "map (\<lambda>i. snd (ke ! i)) [0..<n] = map snd ke" by (rule nth_equalityI) (simp_all add: nm)
    then show ?thesis
      using fold_update_segment [of 0 n "l_records p" "\<lambda>i. snd (ke ! i)"] len by (simp add: rs1_def)
  qed
  have rs2: "rs2 = map snd ke @ replicate (?K - n) SLeafEntry_init"
    using fold_update_segment [of n ?K rs1 "\<lambda>i. SLeafEntry_init"] len by (simp add: rs2_def rs1 nm map_replicate_const)
  have moved: "fold (\<lambda>i (l, s). (l[i := SLeafEntry_init], s[i - m := l ! i])) [m..<n] (rs2, l_records sib) =
      (map snd (take m ke) @ replicate (?K - m) SLeafEntry_init, map snd (drop m ke) @ replicate (?K - (n - m)) SLeafEntry_init)"
    using move_records [of m n rs2 "l_records sib" SLeafEntry_init] nm len sib(1)
    by (simp add: rs2 take_map drop_map replicate_add [symmetric])
  define l where "l = l_set_consistent (p\<lparr>l_hdr := (l_hdr p)\<lparr>s_last_index := s_last_index (l_hdr p) - of_nat (n - m),
      s_highest := fst (ke ! m), s_sibling_ptr := b\<rparr>, l_records := map snd (take m ke) @ replicate (?K - m) SLeafEntry_init\<rparr>)"
  define s where "s = l_set_consistent (sib\<lparr>l_hdr := (l_hdr sib)\<lparr>s_last_index := s_last_index (l_hdr sib) + of_nat (n - m),
      s_lowest := fst (ke ! m), s_highest := s_highest (l_hdr p), s_sibling_ptr := s_sibling_ptr (l_hdr p)\<rparr>,
      l_records := map snd (drop m ke) @ replicate (?K - (n - m)) SLeafEntry_init\<rparr>)"
  have run: "leaf_split c a b ke p = Inr (fst (ke ! m), l, s)"
    using fence addr
    by (simp add: leaf_split_def Let_def nm rs1_def [symmetric] rs2_def [symmetric] sib_def [symmetric] moved l_def s_def)
  have "sleaf_wf c l" "sleaf_wf c s"
    using wf sk nm len sib
    by (auto simp: sleaf_wf_def sheader_wf_def l_def s_def l_set_consistent_def)
  then show ?thesis
    using run sib
    by (intro exI [of _ l] exI [of _ s]) (simp add: l_def s_def l_set_consistent_def l_check_consistent_def SHeader_init_def)
qed

subsection \<open>Properties\<close>

text \<open>
  C19. Inserting a separator into an internal Sherman page that has room. For a well-formed page and a new key
  strictly between its fences the insertion succeeds, the result is well formed, and the selection of a child
  goes to the new child exactly for the keys from the new separator up to the next old one.
\<close>

theorem sherman_insert_routes:
  assumes "sherman_ok c" and "sinternal_ok c p" and "s_count (i_hdr p) < kInternalCardinality c"
    and "length key = KEY_SIZE c" and "length k = KEY_SIZE c" and "key \<notin> set (s_separators p)"
    and "be_val (s_lowest (i_hdr p)) < be_val key" and "be_val key < be_val (s_highest (i_hdr p))"
  shows "\<exists>p'. internal_insert c key v p = Inr p' \<and> sinternal_ok c p' \<and>
    select_child k p' =
      (if be_val key \<le> be_val k \<and> (\<forall>s \<in> set (s_separators p). \<not> (be_val key < be_val s \<and> be_val s \<le> be_val k))
       then Inr v else select_child k p)"
proof -
  obtain p' where p': "internal_insert c key v p = Inr p'"
      "s_separators p' = insert_at (rank (s_separators p) key) key (s_separators p)"
      "s_children p' = insert_at (Suc (rank (s_separators p) key)) v (s_children p)"
    using internal_insert_view [OF assms(1-4,6)] by blast
  have ok: "sinternal_ok c p'" using internal_insert_ok [OF assms(1-4,6-8) p'(1)] .
  have r: "rank (s_separators p) x < length (s_children p)" for x
    using rank_le [of "s_separators p" x] spage_parts(2,3) [OF assms(2)] by simp
  have "select_child k p' = Inr (if be_val key \<le> be_val k \<and> rank (s_separators p) k = rank (s_separators p) key then v
      else route (s_separators p) (s_children p) k)"
    unfolding select_child_route [OF ok assms(5)] p'(2,3) route_insert_at [OF r r] ..
  then show ?thesis
    using p'(1) ok rank_eq_iff [of key k "s_separators p"] select_child_route [OF assms(2,5)] by auto
qed

text \<open>Pages for the witnesses: keys of 100 bytes, so that an internal page has 7 records; and of 200 bytes, for 2 records.\<close>

definition page_config :: "nat \<Rightarrow> Config" where
  "page_config n = \<lparr>KEY_SIZE = n, VALUE_SIZE = 1, branch_factor = 4, SPLIT_WATERMARK = 1 / 2, MAINTENANCE_ENABLED = False\<rparr>"

definition page_key :: "nat \<Rightarrow> u8 \<Rightarrow> bytes" where
  "page_key n b = replicate (n - 1) 0 @ [b]"

definition page_sample :: "nat \<Rightarrow> nat \<Rightarrow> SInternalPage" where
  "page_sample n cnt =
     \<lparr>i_lock = 0, i_front_version = 1,
      i_hdr = \<lparr>s_leftmost_ptr = 1000, s_sibling_ptr = 9000, s_level = 1, s_last_index = of_nat cnt - 1,
               s_lowest = page_key n 0, s_highest = page_key n 200\<rparr>,
      i_records = map (\<lambda>i. \<lparr>s_key = page_key n (of_nat (20 + 20 * i)), s_ptr = of_nat (2000 + i)\<rparr>) [0..<kInternalCardinality (page_config n)],
      i_rear_version = 1\<rparr>"

lemma page_key_simps [simp]:
  "be_val (page_key n b) = unat b" "0 < n \<Longrightarrow> length (page_key n b) = n" "page_key n a = page_key n b \<longleftrightarrow> a = b"
  "KEY_SIZE (page_config n) = n"
  by (simp_all add: page_key_def be_val_snoc page_config_def)

lemma page_sample_ok:
  "sherman_ok (page_config 100)" "kInternalCardinality (page_config 100) = 7"
  "sherman_ok (page_config 200)" "kInternalCardinality (page_config 200) = 2"
  "s_count (i_hdr (page_sample 100 3)) = 3" "s_count (i_hdr (page_sample 100 7)) = 7" "s_count (i_hdr (page_sample 200 2)) = 2"
  by (simp_all add: sherman_ok_def config_ok_def page_config_def kInternalCardinality_def kInternalPageSize_def
      sizeof_SHeader_def sizeof_SInternalEntry_def page_sample_def s_count_def)

lemma page_sample_fences [simp]:
  "s_lowest (i_hdr (page_sample n k)) = page_key n 0" "s_highest (i_hdr (page_sample n k)) = page_key n 200"
  "s_sibling_ptr (i_hdr (page_sample n k)) = 9000"
  by (simp_all add: page_sample_def)

lemma page_sample_separators:
  assumes "s_count (i_hdr (page_sample n k)) = k" and "k \<le> kInternalCardinality (page_config n)"
  shows "s_separators (page_sample n k) = map (\<lambda>i. page_key n (of_nat (20 + 20 * i))) [0..<k]"
  using assms by (simp add: s_separators_def page_sample_def take_map comp_def)

lemma page_sample_view:
  assumes "0 < n" and "0 < k" and "k \<le> kInternalCardinality (page_config n)" and "k \<le> 7" and "s_count (i_hdr (page_sample n k)) = k"
  shows "sinternal_ok (page_config n) (page_sample n k)"
proof -
  have u: "unat (of_nat (20 + 20 * i) :: u8) = 20 + 20 * i" if "i < 7" for i :: nat
    using that by (simp only: unat_of_nat take_bit_eq_mod) simp
  have "sinternal_wf (page_config n) (page_sample n k)"
    using assms(1) by (auto simp: sinternal_wf_def sheader_wf_def page_sample_def)
  moreover have "sorted_wrt (<) (map be_val (s_separators (page_sample n k)))"
    unfolding page_sample_separators [OF assms(5,3)]
    using assms(4) u by (auto simp: sorted_wrt_iff_nth_less simp del: of_nat_add of_nat_mult)
  moreover have "\<forall>s \<in> set (s_separators (page_sample n k)). 0 < be_val s \<and> be_val s < 200"
    unfolding page_sample_separators [OF assms(5,3)]
    using assms(4) u by (auto simp del: of_nat_add of_nat_mult)
  ultimately show ?thesis using assms(2,3,5) by (simp add: sinternal_ok_def)
qed

theorem sherman_insert_routes_witness:
  "\<exists>p'. internal_insert (page_config 100) (page_key 100 50) 77 (page_sample 100 3) = Inr p' \<and>
    select_child (page_key 100 55) p' = Inr 77"
proof -
  have "s_separators (page_sample 100 3) = [page_key 100 20, page_key 100 40, page_key 100 60]"
    using page_sample_separators [of 100 3] by (simp add: page_sample_ok upt_rec)
  then show ?thesis
    using sherman_insert_routes [of "page_config 100" "page_sample 100 3" "page_key 100 50" "page_key 100 55" 77]
      page_sample_view [of 100 3]
    by (auto simp: page_sample_ok)
qed

text \<open>
  C20. Splitting an internal Sherman page. A well-formed page with at least three records, none of whose
  addresses clash, is split into two well-formed pages that are linked as siblings and share the split key as
  fence; selecting a child in the page that is responsible for a key gives what the old page gave.
\<close>

theorem sherman_split_routes:
  assumes "sherman_ok c" and "sinternal_ok c p" and "3 \<le> s_count (i_hdr p)"
    and "b \<noteq> a" and "s_sibling_ptr (i_hdr p) \<noteq> a" and "s_sibling_ptr (i_hdr p) \<noteq> b"
  shows "\<exists>sk l s. internal_split c a b p = Inr (sk, l, s) \<and> sinternal_ok c l \<and> sinternal_ok c s \<and>
    s_lowest (i_hdr l) = s_lowest (i_hdr p) \<and> s_highest (i_hdr l) = sk \<and> s_sibling_ptr (i_hdr l) = b \<and>
    s_lowest (i_hdr s) = sk \<and> s_highest (i_hdr s) = s_highest (i_hdr p) \<and> s_sibling_ptr (i_hdr s) = s_sibling_ptr (i_hdr p) \<and>
    be_val (s_lowest (i_hdr p)) < be_val sk \<and> be_val sk < be_val (s_highest (i_hdr p)) \<and>
    (\<forall>k. length k = KEY_SIZE c \<longrightarrow> select_child k p = select_child k (if be_val k < be_val sk then l else s))"
proof -
  let ?ss = "s_separators p" and ?m = "s_count (i_hdr p) div 2"
  have "2 \<le> s_count (i_hdr p)" using assms(3) by simp
  then obtain l s where split: "internal_split c a b p = Inr (?ss ! ?m, l, s)"
    and view: "s_separators l = take ?m ?ss" "s_children l = take (Suc ?m) (s_children p)"
      "s_separators s = drop (Suc ?m) ?ss" "s_children s = drop (Suc ?m) (s_children p)"
    and hdr: "s_lowest (i_hdr l) = s_lowest (i_hdr p)" "s_highest (i_hdr l) = ?ss ! ?m" "s_sibling_ptr (i_hdr l) = b"
      "s_lowest (i_hdr s) = ?ss ! ?m" "s_highest (i_hdr s) = s_highest (i_hdr p)" "s_sibling_ptr (i_hdr s) = s_sibling_ptr (i_hdr p)"
    using internal_split_view [OF assms(1,2) _ assms(4-6)] by fastforce
  note ok = internal_split_ok [OF assms split]
  have m: "?m < length ?ss" using spage_parts(2) [OF assms(2)] assms(3) by simp
  then have mid: "?ss ! ?m \<in> set ?ss" by simp
  have "select_child k p = select_child k (if be_val k < be_val (?ss ! ?m) then l else s)" if "length k = KEY_SIZE c" for k
    using route_halves [of ?ss ?m "s_children p" k] m assms(2) spage_parts(2,3) [OF assms(2)] view
      select_child_route [OF assms(2) that] select_child_route [OF ok(1) that] select_child_route [OF ok(2) that]
    by (simp add: sinternal_ok_def)
  then show ?thesis
    using split ok hdr mid assms(2) by (intro exI [of _ "?ss ! ?m"] exI [of _ l] exI [of _ s]) (simp add: sinternal_ok_def)
qed

theorem sherman_split_routes_witness:
  "\<exists>sk l s. internal_split (page_config 100) 5000 6000 (page_sample 100 7) = Inr (sk, l, s) \<and>
    select_child (page_key 100 70) (page_sample 100 7) = select_child (page_key 100 70) (if be_val (page_key 100 70) < be_val sk then l else s)"
  using sherman_split_routes [of "page_config 100" "page_sample 100 7" 6000 5000] page_sample_view [of 100 7]
  by (fastforce simp: page_sample_ok)

text \<open>
  Keys that leave room for only two records in an internal page (195 to 244 bytes, which compile). A page
  that holds two records is full, and its split gives the new sibling no record at all: every search that
  reaches the sibling reads \<^verbatim>\<open>records[-1]\<close>.
\<close>

theorem sherman_split_two_records:
  assumes "sherman_ok c" and "sinternal_ok c p" and "s_count (i_hdr p) = 2" and "kInternalCardinality c = 2"
    and "b \<noteq> a" and "s_sibling_ptr (i_hdr p) \<noteq> a" and "s_sibling_ptr (i_hdr p) \<noteq> b" and "length k = KEY_SIZE c"
  shows "\<exists>sk l s. internal_split c a b p = Inr (sk, l, s) \<and> select_child k s = Inl UndefinedBehaviour"
proof -
  have "2 \<le> s_count (i_hdr p)" using assms(3) by simp
  then obtain l s where split: "internal_split c a b p = Inr (s_separators p ! 1, l, s)" and cnt: "s_count (i_hdr s) = 0"
    using internal_split_view [OF assms(1,2) _ assms(5-7)] assms(3) by fastforce
  have "s_key (i_records s ! 0) = ArrayVar_min (KEY_SIZE c)"
    using split assms(3,4)
    by (auto simp: internal_split_def Let_def i_set_consistent_def SInternalPage_init_def SInternalEntry_init_def split: if_splits)
  then have "\<not> key_lt k (s_key (i_records s ! 0))"
    using key_min_le [OF assms(8)] assms(8) by (simp add: key_ge_iff key_lt_iff length_ArrayVar)
  then have "select_child k s = Inl UndefinedBehaviour" using cnt by (simp add: select_child_def)
  then show ?thesis using split by blast
qed

theorem sherman_split_two_records_witness:
  "\<exists>sk l s. internal_split (page_config 200) 5000 6000 (page_sample 200 2) = Inr (sk, l, s) \<and>
    select_child (page_key 200 70) s = Inl UndefinedBehaviour"
  using sherman_split_two_records [of "page_config 200" "page_sample 200 2" 6000 5000 "page_key 200 70"] page_sample_view [of 200 2]
  by (auto simp: page_sample_ok)

lemma sort_entries_strict:
  assumes "distinct (map fst kes)" and "\<forall>x \<in> set kes. length (fst x) = N"
  shows "sorted_wrt (\<lambda>x y. be_val (fst x) < be_val (fst y)) (sort_entries kes)"
proof -
  have "inj_on be_val (fst ` set kes)" using assms(2) be_val_inj by (auto simp: inj_on_def)
  then have "distinct (map (\<lambda>x. be_val (fst x)) kes)"
    using assms(1) by (simp add: distinct_map comp_inj_on [unfolded comp_def])
  moreover have "mset (map (\<lambda>x. be_val (fst x)) (sort_entries kes)) = mset (map (\<lambda>x. be_val (fst x)) kes)"
    by (simp add: sort_entries_def)
  ultimately have "distinct (map (\<lambda>x. be_val (fst x)) (sort_entries kes))" by (metis mset_eq_imp_distinct_iff)
  then show ?thesis
    using sorted_sort_key [of "\<lambda>x. be_val (fst x)" kes] strict_sorted_iff [of "map (\<lambda>x. be_val (fst x)) (sort_entries kes)"]
    by (simp add: sort_entries_def sorted_wrt_map)
qed

definition live_records :: "SLeafPage \<Rightarrow> SLeafEntry list" where
  "live_records p = filter (\<lambda>e. \<not> s_is_empty e) (l_records p)"

lemma live_padded:
  assumes "l_records p = map snd xs @ replicate n SLeafEntry_init" and "\<forall>x \<in> set xs. \<not> s_is_empty (snd x)"
  shows "live_records p = map snd xs"
  using assms by (simp add: live_records_def filter_map comp_def SLeafEntry_init_def s_is_empty_def)

text \<open>
  C21. Splitting a leaf of the Sherman index. The entries with keys below the split key stay, the others
  move to the sibling, none is lost or duplicated, both pages have the fences for their keys, are linked, and are
  half full.
\<close>

theorem sherman_leaf_split:
  assumes "sleaf_wf c p" and "2 \<le> length kes" and "length kes \<le> kLeafCardinality c" and "distinct (map fst kes)"
    and "\<forall>x \<in> set kes. length (fst x) = KEY_SIZE c \<and> \<not> s_is_empty (snd x) \<and>
      be_val (s_lowest (l_hdr p)) \<le> be_val (fst x) \<and> be_val (fst x) < be_val (s_highest (l_hdr p))"
    and "b \<noteq> a" and "s_sibling_ptr (l_hdr p) \<noteq> a" and "s_sibling_ptr (l_hdr p) \<noteq> b"
  shows "\<exists>sk l s. leaf_split c a b (sort_entries kes) p = Inr (sk, l, s) \<and>
    mset (live_records l) = mset (map snd (filter (\<lambda>x. be_val (fst x) < be_val sk) kes)) \<and>
    mset (live_records s) = mset (map snd (filter (\<lambda>x. be_val sk \<le> be_val (fst x)) kes)) \<and>
    length (live_records l) = length kes div 2 \<and> length (live_records s) = length kes - length kes div 2 \<and>
    s_lowest (l_hdr l) = s_lowest (l_hdr p) \<and> s_highest (l_hdr l) = sk \<and> s_sibling_ptr (l_hdr l) = b \<and>
    s_lowest (l_hdr s) = sk \<and> s_highest (l_hdr s) = s_highest (l_hdr p) \<and> s_sibling_ptr (l_hdr s) = s_sibling_ptr (l_hdr p)"
proof -
  define ke where "ke = sort_entries kes"
  have same: "mset ke = mset kes" "set ke = set kes" "length ke = length kes" by (simp_all add: ke_def sort_entries_def)
  have sorted: "sorted_wrt (\<lambda>x y. be_val (fst x) < be_val (fst y)) ke"
    unfolding ke_def using assms(4,5) by (intro sort_entries_strict) auto
  define m where "m = length ke div 2"
  have m: "0 < m" "m < length ke" using assms(2) same(3) by (auto simp: m_def)
  let ?sk = "fst (ke ! m)"
  have "ke ! m \<in> set ke" "ke ! 0 \<in> set ke" using m by (auto intro!: nth_mem)
  then have mem: "ke ! m \<in> set kes" "ke ! 0 \<in> set kes" unfolding same(2) .
  have "be_val (fst (ke ! 0)) < be_val ?sk" using sorted_wrt_nth_less [OF sorted, of 0 m] m by simp
  moreover have "be_val (s_lowest (l_hdr p)) \<le> be_val (fst (ke ! 0))" "be_val ?sk < be_val (s_highest (l_hdr p))" "length ?sk = KEY_SIZE c"
    using assms(5) mem by auto
  ultimately have fence: "key_gt ?sk (s_lowest (l_hdr p))" "key_lt ?sk (s_highest (l_hdr p))" and len: "length ?sk = KEY_SIZE c"
    using assms(1) by (simp_all add: key_order_simps sleaf_wf_def sheader_wf_def)
  obtain l s where split: "leaf_split c a b ke p = Inr (?sk, l, s)"
    and recs: "l_records l = map snd (take m ke) @ replicate (kLeafCardinality c - m) SLeafEntry_init"
      "l_records s = map snd (drop m ke) @ replicate (kLeafCardinality c - (length ke - m)) SLeafEntry_init"
    and hdr: "s_lowest (l_hdr l) = s_lowest (l_hdr p)" "s_highest (l_hdr l) = ?sk" "s_sibling_ptr (l_hdr l) = b"
      "s_lowest (l_hdr s) = ?sk" "s_highest (l_hdr s) = s_highest (l_hdr p)" "s_sibling_ptr (l_hdr s) = s_sibling_ptr (l_hdr p)"
    using leaf_split_view [OF assms(1), of ke b a] assms(3,6-8) same(3) fence len m unfolding m_def by fastforce
  have live: "live_records l = map snd (take m ke)" "live_records s = map snd (drop m ke)"
    by (rule live_padded, rule recs, use assms(5) same(2) in \<open>auto dest: in_set_takeD in_set_dropD\<close>)+
  have ke: "ke = take m ke @ ke ! m # drop (Suc m) ke" using id_take_nth_drop [OF m(2)] .
  have "sorted_wrt (\<lambda>x y. be_val (fst x) < be_val (fst y)) (take m ke @ ke ! m # drop (Suc m) ke)"
    using sorted ke by simp
  then have less: "\<forall>x \<in> set (take m ke). be_val (fst x) < be_val ?sk" and ge: "\<forall>x \<in> set (drop m ke). be_val ?sk \<le> be_val (fst x)"
    using m(2) by (auto simp: sorted_wrt_append Cons_nth_drop_Suc [symmetric] less_imp_le)
  have parts: "filter (\<lambda>x. be_val (fst x) < be_val ?sk) ke = take m ke" "filter (\<lambda>x. be_val ?sk \<le> be_val (fst x)) ke = drop m ke"
  proof -
    have "filter P ke = filter P (take m ke) @ filter P (drop m ke)" for P
      by (metis append_take_drop_id filter_append)
    then show "filter (\<lambda>x. be_val (fst x) < be_val ?sk) ke = take m ke" "filter (\<lambda>x. be_val ?sk \<le> be_val (fst x)) ke = drop m ke"
      using less ge by (auto simp: filter_id_conv filter_empty_conv not_less not_le)
  qed
  have "mset (map snd (filter P ke)) = mset (map snd (filter P kes))" for P
    using same(1) by (metis mset_filter mset_map)
  then have "mset (live_records l) = mset (map snd (filter (\<lambda>x. be_val (fst x) < be_val ?sk) kes))"
    "mset (live_records s) = mset (map snd (filter (\<lambda>x. be_val ?sk \<le> be_val (fst x)) kes))"
    unfolding live parts [symmetric] by blast+
  moreover have "length (live_records l) = length kes div 2" "length (live_records s) = length kes - length kes div 2"
    using live same(3) by (simp_all add: m_def)
  ultimately show ?thesis using split hdr unfolding ke_def by blast
qed

theorem sherman_leaf_split_witness:
  "\<exists>sk l s. leaf_split (page_config 1) 64 128 (sort_entries [([9], \<lparr>s_fingerprint = 9, s_kv_ptr = 500\<rparr>), ([4], \<lparr>s_fingerprint = 4, s_kv_ptr = 600\<rparr>)])
      (SLeafPage_init (page_config 1) 0) = Inr (sk, l, s) \<and>
    length (live_records l) = 1 \<and> length (live_records s) = 1"
proof -
  have "kLeafCardinality (page_config 1) = 90"
    by (simp add: kLeafCardinality_def kLeafPageSize_def sizeof_SHeader_def sizeof_SLeafEntry_def)
  moreover have "sleaf_wf (page_config 1) (SLeafPage_init (page_config 1) 0)"
    by (simp add: sleaf_wf_def sheader_wf_def SLeafPage_init_def SHeader_init_def length_ArrayVar)
  moreover have "be_val (s_lowest (l_hdr (SLeafPage_init (page_config 1) 0))) = 0" "be_val (s_highest (l_hdr (SLeafPage_init (page_config 1) 0))) = 255"
      "s_sibling_ptr (l_hdr (SLeafPage_init (page_config 1) 0)) = Null"
    by (simp_all add: SLeafPage_init_def SHeader_init_def ArrayVar_max_be_val ArrayVar_min_def ArrayVar_default_def)
  moreover have "(500 :: GlobalAddress) \<noteq> Null" "(600 :: GlobalAddress) \<noteq> Null" "(64 :: GlobalAddress) \<noteq> Null" "(128 :: GlobalAddress) \<noteq> Null"
    by (simp_all add: Null_def GlobalAddress_raw_def)
  ultimately show ?thesis
    using sherman_leaf_split [of "page_config 1" "SLeafPage_init (page_config 1) 0"
        "[([9], \<lparr>s_fingerprint = 9, s_kv_ptr = 500\<rparr>), ([4], \<lparr>s_fingerprint = 4, s_kv_ptr = 600\<rparr>)]" 128 64]
    by (simp add: s_is_empty_def del: split_paired_Ex) blast
qed

end
