(* ===== verification/Sherman_Index.thy ===== *)
theory Sherman_Index
  imports Sherman_Page
begin

text \<open>
  \<^verbatim>\<open>src/src/kv_index/sherman_index.cpp\<close>: the operations of the Sherman index as client programs. The object
  \<^verbatim>\<open>ShermanIndex\<close> is the record \<open>ShermanIndex\<close>; its pointers to the cache, to the lock manager and to
  the statistics tracker may be null. The thread-local \<^verbatim>\<open>path_stack\<close> is a list that the functions pass on; an access
  beyond its seven entries is undefined behaviour. The retry loop of \<^verbatim>\<open>insert\<close> runs up to a million times.
  The other loops have no bound in the source (re-reading an inconsistent page, the walk to siblings, the
  descent of \<^verbatim>\<open>read\<close>, the compare-and-swap loop of \<^verbatim>\<open>try_lock_address\<close>, whose counter starts again whenever
  the lock word changes): they run at most \<open>s_fuel\<close> times here and abort with \<open>Diverges\<close> when that is not enough.
\<close>

record ShermanIndex =
  s_cfg :: Config
  s_root_offset_pointer :: GlobalAddress
  s_has_cache :: bool
  s_has_locks :: bool
  s_has_tracker :: bool
  s_tag :: u64
  s_fuel :: nat

record ShermanCacheEntry =
  s_start :: bytes
  s_end :: bytes
  s_item :: "GlobalAddress \<times> SInternalPage"

type_synonym 'a sprog = "(ShermanCacheEntry, 'a) prog"

record SearchResult =
  sr_is_leaf :: bool
  sr_level :: u8
  sr_slibing :: GlobalAddress
  sr_next_level :: GlobalAddress
  sr_val :: bytes

definition SearchResult_init :: "Config \<Rightarrow> SearchResult" where
  "SearchResult_init c = \<lparr>sr_is_leaf = False, sr_level = 0, sr_slibing = Null, sr_next_level = Null,
     sr_val = ArrayVar_default (VALUE_SIZE c)\<rparr>"

text \<open>
  The tag that the constructor chooses: from the lower half of the tag of the lock manager and a running
  number, or from the address of the object.
\<close>

definition sherman_tag :: "u64 option \<Rightarrow> u32 \<Rightarrow> u64 \<Rightarrow> u64" where
  "sherman_tag mgr_tag next_id hash_val =
     (case mgr_tag of
        Some t \<Rightarrow> push_bit 32 (ucast (ucast t :: u32)) OR ucast next_id
      | None \<Rightarrow> (let tag = hash_val AND 0xFFFFFFFFFFFFFFFF in if tag = 0 then 1 else tag))"

definition ShermanIndex_init :: "Config \<Rightarrow> GlobalAddress \<Rightarrow> bool \<Rightarrow> u64 option \<Rightarrow> u32 \<Rightarrow> u64 \<Rightarrow> nat \<Rightarrow> ShermanIndex" where
  "ShermanIndex_init c ptr cache mgr_tag next_id hash_val f =
     \<lparr>s_cfg = c, s_root_offset_pointer = ptr, s_has_cache = cache, s_has_locks = (mgr_tag \<noteq> None), s_has_tracker = False,
      s_tag = sherman_tag mgr_tag next_id hash_val, s_fuel = f\<rparr>"

definition sherman_cache_entries :: "u64 \<Rightarrow> u64" where
  "sherman_cache_entries cache_size_bytes = max 1 (cache_size_bytes div 2048)"

definition s_required_sizes :: "Config \<Rightarrow> nat set" where
  "s_required_sizes c = {8, kLeafPageSize, kInternalPageSize, sizeof_KVItem c}"

definition s_track :: "ShermanIndex \<Rightarrow> TrackEvent \<Rightarrow> 'a sprog \<Rightarrow> 'a sprog" where
  "s_track I ev p = (if s_has_tracker I then Track ev p else p)"

definition s_track_unchecked :: "ShermanIndex \<Rightarrow> TrackEvent \<Rightarrow> 'a sprog \<Rightarrow> 'a sprog" where
  "s_track_unchecked I ev p = (if s_has_tracker I then Track ev p else Abort NullDereference)"

definition with_page :: "bytes option \<Rightarrow> (bytes \<Rightarrow> 'a sprog) \<Rightarrow> 'a sprog" where
  "with_page buf k = (case buf of Some bs \<Rightarrow> k bs | None \<Rightarrow> Abort UndefinedBehaviour)"

definition page_bytes :: u64 where
  "page_bytes = of_nat kLeafPageSize"

definition s_item_bytes :: "ShermanIndex \<Rightarrow> u64" where
  "s_item_bytes I = of_nat (sizeof_KVItem (s_cfg I))"

subsection \<open>The root\<close>

definition s_get_root_offset :: "ShermanIndex \<Rightarrow> GlobalAddress sprog" where
  "s_get_root_offset I =
     bind (rdma_read_object (s_root_offset_pointer I) 8) (\<lambda>(ok, buf).
       assert_then ok (with_page buf (\<lambda>bs. Ret (GlobalAddress_raw (u64_of_bytes bs)))))"

definition s_initialize :: "ShermanIndex \<Rightarrow> (bool \<times> ShermanIndex) sprog" where
  "s_initialize I =
     Allocate 8 (\<lambda>ptr. Allocate page_bytes (\<lambda>root_offset.
       let I' = I\<lparr>s_root_offset_pointer := GlobalAddress_raw ptr\<rparr>;
           root_page = l_set_consistent (SLeafPage_init (s_cfg I) 0)
       in bind (rdma_write_object (GlobalAddress_raw root_offset) (enc_sleaf (s_cfg I) root_page)) (\<lambda>ok.
            assert_then ok
              (Perform (CasOp (s_root_offset_pointer I') 0 root_offset) (\<lambda>(ok, out).
                 assert_then ok (Ret (True, I')))))))"

definition s_update_root_offset ::
  "ShermanIndex \<Rightarrow> GlobalAddress \<Rightarrow> bytes \<Rightarrow> GlobalAddress \<Rightarrow> nat \<Rightarrow> GlobalAddress \<Rightarrow> bool sprog" where
  "s_update_root_offset I left key right lvl old_root =
     Allocate page_bytes (\<lambda>off.
       let new_root_address = GlobalAddress_raw off;
           new_root = i_set_consistent (SInternalPage_root (s_cfg I) left key right (of_nat lvl))
       in bind (rdma_write_object new_root_address (enc_sinternal (s_cfg I) new_root)) (\<lambda>ok.
            assert_then ok
              (Perform (CasOp (s_root_offset_pointer I) (uintptr old_root) (uintptr new_root_address)) (\<lambda>(ok, out).
                 assert_then ok (Ret (out_expected (uintptr old_root) out = uintptr old_root))))))"

subsection \<open>Locks\<close>

fun lock_loop :: "nat \<Rightarrow> u64 \<Rightarrow> GlobalAddress \<Rightarrow> nat \<Rightarrow> u64 \<Rightarrow> bool sprog" where
  "lock_loop 0 tag lock_addr retry_cnt pre_conflict_tag = Abort Diverges"
| "lock_loop (Suc n) tag lock_addr retry_cnt pre_conflict_tag =
     Perform (CasOp lock_addr 0 tag) (\<lambda>(ok, out). assert_then ok
       (let current_value = out_expected 0 out in
        if current_value = 0 then Ret True
        else if drop_bit 32 current_value = drop_bit 32 tag then Ret True
        else if Suc retry_cnt > 1000000 then Abort AssertionFailed
        else lock_loop n tag lock_addr (if current_value \<noteq> pre_conflict_tag then 0 else Suc retry_cnt) current_value))"

definition try_lock_address :: "ShermanIndex \<Rightarrow> GlobalAddress \<Rightarrow> bool sprog" where
  "try_lock_address I lock_addr =
     (let remote = lock_loop (s_fuel I) (s_tag I) lock_addr 0 0 in
      if s_has_locks I
      then LocalLock LAcquire lock_addr (\<lambda>is_handover.
             s_track I (TrackLocalLock is_handover) (if is_handover then Ret True else remote))
      else remote)"

definition unlock_address :: "ShermanIndex \<Rightarrow> GlobalAddress \<Rightarrow> unit sprog" where
  "unlock_address I lock_addr =
     (let remote = bind (rdma_cas_release_lock lock_addr) (\<lambda>_. Ret ()) in
      if s_has_locks I
      then LocalLock LRelease lock_addr (\<lambda>handover. if \<not> handover then remote else Ret ())
      else remote)"

definition lock_and_read_page :: "ShermanIndex \<Rightarrow> GlobalAddress \<Rightarrow> GlobalAddress \<Rightarrow> u64 \<Rightarrow> bytes sprog" where
  "lock_and_read_page I lock_addr page_address page_size =
     bind (try_lock_address I lock_addr) (\<lambda>lock_success.
       if \<not> lock_success then Abort Exception
       else Perform (ReadOp page_address True page_size) (\<lambda>(ok, out).
              assert_then ok (with_page (out_bytes out) Ret)))"

definition write_page_and_unlock :: "ShermanIndex \<Rightarrow> bytes \<Rightarrow> GlobalAddress \<Rightarrow> GlobalAddress \<Rightarrow> unit sprog" where
  "write_page_and_unlock I page_buffer page_address lock_addr =
     (let write = WriteOp page_address (Some page_buffer) (of_nat (length page_buffer));
          release = WriteOp lock_addr (Some (bytes_of_u64 0)) 8;
          finish = (if s_has_locks I then LocalLock LRelease lock_addr (\<lambda>_. Ret ()) else Ret ());
          go = (\<lambda>should_unlock_remote. PerformBatch (if should_unlock_remote then [write, release] else [write])
                  (\<lambda>(ok, outs). assert_then ok finish))
      in if s_has_locks I then LocalLock LCanHandOver lock_addr (\<lambda>handover. go (\<not> handover)) else go True)"

subsection \<open>Searching a page\<close>

fun search_records :: "ShermanIndex \<Rightarrow> bytes \<Rightarrow> SLeafEntry list \<Rightarrow> bytes option sprog" where
  "search_records I key [] = Ret None"
| "search_records I key (r # rs) =
     (if s_is_empty r then search_records I key rs
      else if s_fingerprint r = Fingerprint_of_key key
      then bind (rdma_read_object (s_kv_ptr r) (s_item_bytes I)) (\<lambda>(ok, buf).
             if \<not> ok then search_records I key rs
             else with_page buf (\<lambda>bs.
               let kv_item = dec_item (s_cfg I) bs in
               if key_eq (item_key kv_item) key then Ret (Some (item_value kv_item)) else search_records I key rs))
      else search_records I key rs)"

primrec search_node ::
  "nat \<Rightarrow> ShermanIndex \<Rightarrow> GlobalAddress \<Rightarrow> bytes \<Rightarrow> bool \<Rightarrow> SearchResult \<Rightarrow> GlobalAddress list \<Rightarrow>
   (bool \<times> SearchResult \<times> GlobalAddress list) sprog" where
  "search_node 0 I node_address key from_cache result path = Abort Diverges"
| "search_node (Suc n) I node_address key from_cache result path =
     bind (rdma_read_object node_address page_bytes) (\<lambda>(ok, buf). assert_then ok (with_page buf (\<lambda>bs.
       let c = s_cfg I; page = dec_sleaf c bs; h = l_hdr page;
           re_read = search_node n I node_address key from_cache;
           result1 = result\<lparr>sr_is_leaf := (s_leftmost_ptr h = Null), sr_level := s_level h\<rparr>;
           path1 = path[unat (s_level h) := node_address]
       in if \<not> l_check_consistent page then re_read result path
          else if \<not> unat (s_level h) < length path then Abort UndefinedBehaviour
          else if key_ge key (s_highest h)
          then assert_then (s_sibling_ptr h \<noteq> Null) (assert_then (s_sibling_ptr h \<noteq> node_address)
                 (Ret (True, result1\<lparr>sr_slibing := s_sibling_ptr h\<rparr>, path1)))
          else assert_then (key_ge key (s_lowest h))
            (if sr_is_leaf result1
             then if from_cache \<and> (key_lt key (s_lowest h) \<or> key_ge key (s_highest h)) then Ret (False, result1, path1)
                  else assert_then (sr_level result1 = 0)
                    (bind (search_records I key (l_records page)) (\<lambda>v.
                       Ret (True, case v of None \<Rightarrow> result1 | Some x \<Rightarrow> result1\<lparr>sr_val := x\<rparr>, path1)))
             else assert_then (sr_level result1 \<noteq> 0) (assert_then (\<not> from_cache)
               (let internal_page = dec_sinternal c bs;
                    rest = (case select_child key internal_page of
                        Inl e \<Rightarrow> Abort e
                      | Inr g \<Rightarrow> Ret (True, result1\<lparr>sr_next_level := g\<rparr>, path1))
                in if \<not> i_check_consistent internal_page then re_read result1 path1
                   else if sr_level result1 = 1 \<and> s_has_cache I
                   then CacheAdd (s_lowest h) (s_highest h)
                          \<lparr>s_start = s_lowest h, s_end = s_highest h, s_item = (node_address, internal_page)\<rparr> rest
                   else rest))))))"

definition before_operation :: "GlobalAddress list" where
  "before_operation = replicate kMaxLevelOfTree Null"

definition get_leaf_from_cache_entry :: "ShermanCacheEntry \<Rightarrow> bytes \<Rightarrow> err + GlobalAddress" where
  "get_leaf_from_cache_entry entry key =
     (if key_gt (s_start entry) key \<or> key_le (s_end entry) key then Inr Null
      else select_child key (snd (s_item entry)))"

subsection \<open>Inserting into internal pages\<close>

primrec insert_to_internal ::
  "nat \<Rightarrow> ShermanIndex \<Rightarrow> GlobalAddress \<Rightarrow> bytes \<Rightarrow> GlobalAddress \<Rightarrow> GlobalAddress \<Rightarrow> nat \<Rightarrow> GlobalAddress list \<Rightarrow> unit sprog" where
  "insert_to_internal 0 I page_addr key v root_addr lvl path = Abort Diverges"
| "insert_to_internal (Suc n) I page_addr key v root_addr lvl path =
     bind (lock_and_read_page I page_addr page_addr (of_nat kInternalPageSize)) (\<lambda>bs.
       let c = s_cfg I; page = dec_sinternal c bs; h = i_hdr page in
       assert_then (unat (s_level h) = lvl) (assert_then (i_check_consistent page)
         (if key_ge key (s_highest h)
          then bind (unlock_address I page_addr) (\<lambda>_. assert_then (s_sibling_ptr h \<noteq> Null)
                 (insert_to_internal n I (s_sibling_ptr h) key v root_addr lvl path))
          else assert_then (key_ge key (s_lowest h))
            (case internal_insert c key v page of
               Inl e \<Rightarrow> Abort e
             | Inr page1 \<Rightarrow>
                 if s_count (i_hdr page1) \<noteq> kInternalCardinality c
                 then write_page_and_unlock I (enc_sinternal c (i_set_consistent page1)) page_addr page_addr
                 else Allocate (of_nat kInternalPageSize) (\<lambda>off.
                   let sibling_addr = GlobalAddress_raw off in
                   case internal_split c page_addr sibling_addr page1 of
                     Inl e \<Rightarrow> Abort e
                   | Inr (split_key, page2, sibling) \<Rightarrow>
                       bind (rdma_write_object sibling_addr (enc_sinternal c sibling)) (\<lambda>ok. assert_then ok
                         (bind (write_page_and_unlock I (enc_sinternal c page2) page_addr page_addr) (\<lambda>_.
                           bind (if root_addr = page_addr
                                 then s_update_root_offset I page_addr split_key sibling_addr (Suc lvl) root_addr else Ret False)
                             (\<lambda>grown. if grown then Ret ()
                                else if \<not> Suc lvl < length path then Abort UndefinedBehaviour
                                else if path ! Suc lvl \<noteq> Null
                                then insert_to_internal n I (path ! Suc lvl) split_key sibling_addr root_addr (Suc lvl) path
                                else Abort AssertionFailed)))))))))"

primrec search_to_level ::
  "nat \<Rightarrow> ShermanIndex \<Rightarrow> bytes \<Rightarrow> GlobalAddress \<Rightarrow> GlobalAddress \<Rightarrow> nat \<Rightarrow> GlobalAddress \<Rightarrow> SearchResult \<Rightarrow> GlobalAddress list \<Rightarrow> unit sprog" where
  "search_to_level 0 I key v root_addr lvl p result path = Abort Diverges"
| "search_to_level (Suc n) I key v root_addr lvl p result path =
     bind (search_node (s_fuel I) I p key False result path) (\<lambda>(success, result', path').
       if \<not> success
       then bind (s_get_root_offset I) (\<lambda>p'. search_to_level n I key v root_addr lvl p' result' path')
       else if unat (sr_level result') = lvl then insert_to_internal (s_fuel I) I p key v root_addr lvl path'
       else assert_then (sr_level result' \<noteq> 0)
         (if sr_slibing result' \<noteq> Null
          then search_to_level n I key v root_addr lvl (sr_slibing result') result' path'
          else if unat (sr_level result') \<noteq> Suc lvl
          then search_to_level n I key v root_addr lvl (sr_next_level result') result' path'
          else insert_to_internal (s_fuel I) I (sr_next_level result') key v root_addr lvl path'))"

definition search_and_insert_to_internal ::
  "ShermanIndex \<Rightarrow> bytes \<Rightarrow> GlobalAddress \<Rightarrow> nat \<Rightarrow> GlobalAddress list \<Rightarrow> unit sprog" where
  "search_and_insert_to_internal I key v lvl path =
     bind (s_get_root_offset I) (\<lambda>root_addr.
       search_to_level (s_fuel I) I key v root_addr lvl root_addr (SearchResult_init (s_cfg I)) path)"

subsection \<open>Inserting into leaves\<close>

text \<open>
  The loop over the records: \<open>None\<close> when the key was there and its item has been overwritten, otherwise
  the number of records in use and the first free one.
\<close>

fun scan_leaf ::
  "ShermanIndex \<Rightarrow> bytes \<Rightarrow> bytes \<Rightarrow> GlobalAddress \<Rightarrow> nat \<Rightarrow> nat \<Rightarrow> nat option \<Rightarrow> SLeafEntry list \<Rightarrow> (nat \<times> nat option) option sprog" where
  "scan_leaf I key value lock_addr i cnt empty_index [] = Ret (Some (cnt, empty_index))"
| "scan_leaf I key value lock_addr i cnt empty_index (r # rs) =
     (if \<not> s_is_empty r
      then let go_on = scan_leaf I key value lock_addr (Suc i) (Suc cnt) empty_index rs in
           if s_fingerprint r = Fingerprint_of_key key
           then bind (rdma_read_object (s_kv_ptr r) (s_item_bytes I)) (\<lambda>(ok, buf).
                  if \<not> ok then go_on
                  else with_page buf (\<lambda>bs.
                    let kv_item = dec_item (s_cfg I) bs in
                    if key_eq (item_key kv_item) key
                    then bind (rdma_write_object (s_kv_ptr r) (enc_item (kv_item\<lparr>item_value := value\<rparr>))) (\<lambda>_.
                           bind (unlock_address I lock_addr) (\<lambda>_. Ret None))
                    else go_on))
           else go_on
      else scan_leaf I key value lock_addr (Suc i) cnt (if empty_index = None then Some i else empty_index) rs)"

fun read_entries :: "ShermanIndex \<Rightarrow> SLeafEntry list \<Rightarrow> (bytes \<times> SLeafEntry) list sprog" where
  "read_entries I [] = Ret []"
| "read_entries I (r # rs) =
     (if s_is_empty r then read_entries I rs
      else bind (rdma_read_object (s_kv_ptr r) (s_item_bytes I)) (\<lambda>(ok, buf).
             if \<not> ok then read_entries I rs
             else with_page buf (\<lambda>bs.
               bind (read_entries I rs) (\<lambda>kes. Ret ((item_key (dec_item (s_cfg I) bs), r) # kes)))))"

text \<open>The part of \<^verbatim>\<open>insert_to_leaf\<close> from the point where the page turns out to be full.\<close>

definition split_full_leaf ::
  "ShermanIndex \<Rightarrow> GlobalAddress \<Rightarrow> GlobalAddress \<Rightarrow> nat \<Rightarrow> nat \<Rightarrow> SLeafPage \<Rightarrow> GlobalAddress list \<Rightarrow> bool sprog" where
  "split_full_leaf I leaf_address root_addr lvl cnt page path =
     (let c = s_cfg I in
      bind (read_entries I (l_records page)) (\<lambda>kes.
        let keyed_entries = sort_entries kes in
        assert_then (length keyed_entries = cnt)
          (Allocate page_bytes (\<lambda>off.
             let sibling_addr = GlobalAddress_raw off in
             case leaf_split c leaf_address sibling_addr keyed_entries page of
               Inl e \<Rightarrow> Abort e
             | Inr (split_key, page', sibling) \<Rightarrow>
                 bind (rdma_write_object sibling_addr (enc_sleaf c sibling)) (\<lambda>_.
                   bind (write_page_and_unlock I (enc_sleaf c page') leaf_address leaf_address) (\<lambda>_.
                     bind (if root_addr = leaf_address
                           then s_update_root_offset I leaf_address split_key sibling_addr (Suc lvl) root_addr else Ret False)
                       (\<lambda>grown. if grown then Ret True
                          else if \<not> Suc lvl < length path then Abort UndefinedBehaviour
                          else bind (if path ! Suc lvl \<noteq> Null
                                     then insert_to_internal (s_fuel I) I (path ! Suc lvl) split_key sibling_addr root_addr (Suc lvl) path
                                     else search_and_insert_to_internal I split_key sibling_addr (Suc lvl) path)
                                 (\<lambda>_. Ret True))))))))"

text \<open>What follows the loop: a new record in the first free one, written back alone unless the page is now full.\<close>

definition insert_record ::
  "ShermanIndex \<Rightarrow> GlobalAddress \<Rightarrow> bytes \<Rightarrow> bytes \<Rightarrow> GlobalAddress \<Rightarrow> nat \<Rightarrow> SLeafPage \<Rightarrow> GlobalAddress list \<Rightarrow>
   (nat \<times> nat option) option \<Rightarrow> bool sprog" where
  "insert_record I leaf_address key value root_addr lvl page path scan =
     (let c = s_cfg I in case scan of
        None \<Rightarrow> Ret True
      | Some (cnt, empty_index) \<Rightarrow>
          assert_then (cnt \<noteq> kLeafCardinality c) (case empty_index of
            None \<Rightarrow> Abort AssertionFailed
          | Some i \<Rightarrow>
              Allocate (s_item_bytes I) (\<lambda>off.
                let kv_item_addr = GlobalAddress_raw off;
                    r = \<lparr>s_fingerprint = Fingerprint_of_key key, s_kv_ptr = kv_item_addr\<rparr>;
                    page' = page\<lparr>l_records := (l_records page)[i := r]\<rparr>
                in bind (rdma_write_object kv_item_addr (enc_item \<lparr>item_key = key, item_value = value\<rparr>)) (\<lambda>_.
                     if Suc cnt \<noteq> kLeafCardinality c
                     then bind (write_page_and_unlock I (enc_sleaf_entry r)
                                  (gaddr_add leaf_address (of_nat (s_record_offset c i))) leaf_address) (\<lambda>_. Ret True)
                     else split_full_leaf I leaf_address root_addr lvl (Suc cnt) page' path))))"

primrec insert_to_leaf ::
  "nat \<Rightarrow> ShermanIndex \<Rightarrow> GlobalAddress \<Rightarrow> bytes \<Rightarrow> bytes \<Rightarrow> GlobalAddress \<Rightarrow> nat \<Rightarrow> bool \<Rightarrow> GlobalAddress list \<Rightarrow> bool sprog" where
  "insert_to_leaf 0 I leaf_address key value root_addr lvl from_cache path = Abort Diverges"
| "insert_to_leaf (Suc n) I leaf_address key value root_addr lvl from_cache path =
     bind (lock_and_read_page I leaf_address leaf_address page_bytes) (\<lambda>bs.
       let c = s_cfg I; page = dec_sleaf c bs; h = l_hdr page in
       assert_then (unat (s_level h) = lvl) (assert_then (l_check_consistent page)
         (if from_cache \<and> (key_lt key (s_lowest h) \<or> key_ge key (s_highest h))
          then bind (unlock_address I leaf_address) (\<lambda>_. Ret False)
          else if key_ge key (s_highest h)
          then bind (unlock_address I leaf_address) (\<lambda>_. assert_then (s_sibling_ptr h \<noteq> Null)
                 (bind (insert_to_leaf n I (s_sibling_ptr h) key value root_addr lvl False path) (\<lambda>_. Ret True)))
          else assert_then (key_ge key (s_lowest h))
            (bind (scan_leaf I key value leaf_address 0 0 None (l_records page))
               (insert_record I leaf_address key value root_addr lvl page path)))))"

subsection \<open>The operations\<close>

primrec insert_search ::
  "nat \<Rightarrow> ShermanIndex \<Rightarrow> bytes \<Rightarrow> bytes \<Rightarrow> GlobalAddress \<Rightarrow> bool \<Rightarrow> GlobalAddress \<Rightarrow> SearchResult \<Rightarrow> GlobalAddress list \<Rightarrow> bool sprog" where
  "insert_search 0 I key value root_addr again p result path =
     (if again then s_track_unchecked I TrackRetry (Ret False) else Ret False)"
| "insert_search (Suc n) I key value root_addr again p result path =
     (let go =
        bind (search_node (s_fuel I) I p key False result path) (\<lambda>(success, result', path').
          if \<not> success
          then bind (s_get_root_offset I) (\<lambda>p'. insert_search n I key value root_addr True p' result' path')
          else if sr_is_leaf result'
          then bind (insert_to_leaf (s_fuel I) I p key value root_addr 0 False path') (\<lambda>_. Ret True)
          else assert_then (sr_level result' \<noteq> 0)
            (if sr_slibing result' \<noteq> Null
             then insert_search n I key value root_addr True (sr_slibing result') result' path'
             else if sr_level result' \<noteq> 1
             then insert_search n I key value root_addr True (sr_next_level result') result' path'
             else bind (insert_to_leaf (s_fuel I) I (sr_next_level result') key value root_addr 0 False path') (\<lambda>_. Ret True)))
      in if again then s_track_unchecked I TrackRetry go else go)"

definition sherman_insert :: "ShermanIndex \<Rightarrow> bytes \<Rightarrow> bytes \<Rightarrow> bool sprog" where
  "sherman_insert I key value =
     (let path = before_operation;
          from_root = bind (s_get_root_offset I) (\<lambda>root_addr.
            insert_search 1000000 I key value root_addr False root_addr (SearchResult_init (s_cfg I)) path)
      in if s_has_cache I
         then CacheSearch key (\<lambda>cached. case cached of
             None \<Rightarrow> s_track I TrackCacheMiss from_root
           | Some (handle, entry) \<Rightarrow>
               (case get_leaf_from_cache_entry entry key of
                  Inl e \<Rightarrow> Abort e
                | Inr cached_address \<Rightarrow>
                    bind (s_get_root_offset I) (\<lambda>root_addr.
                      bind (insert_to_leaf (s_fuel I) I cached_address key value root_addr 0 True path) (\<lambda>ok.
                        if ok then s_track I TrackCacheHit (Ret True)
                        else CacheInvalidate handle (s_track I TrackCacheMiss from_root)))))
         else from_root)"

primrec s_read_loop ::
  "nat \<Rightarrow> ShermanIndex \<Rightarrow> bytes \<Rightarrow> GlobalAddress \<Rightarrow> bool \<Rightarrow> nat option \<Rightarrow> GlobalAddress \<Rightarrow> SearchResult \<Rightarrow> GlobalAddress list \<Rightarrow>
   (bool \<times> bytes option) sprog" where
  "s_read_loop 0 I key root_addr from_cache cached_entry p result path = Abort Diverges"
| "s_read_loop (Suc n) I key root_addr from_cache cached_entry p result path =
     bind (search_node (s_fuel I) I p key False result path) (\<lambda>(success, result', path').
       if \<not> success
       then if from_cache
            then (case cached_entry of
                    None \<Rightarrow> s_read_loop n I key root_addr False cached_entry root_addr result' path'
                  | Some handle \<Rightarrow> CacheInvalidate handle (s_track_unchecked I TrackCacheMiss
                      (s_read_loop n I key root_addr False cached_entry root_addr result' path')))
            else s_read_loop n I key root_addr from_cache cached_entry p result' path'
       else let go_on = (\<lambda>p'. s_read_loop n I key root_addr from_cache None p' result' path');
                go = (if sr_is_leaf result'
                      then if key_ne (sr_val result') (ArrayVar_min (VALUE_SIZE (s_cfg I)))
                           then Ret (True, Some (sr_val result'))
                           else if sr_slibing result' \<noteq> Null then go_on (sr_slibing result')
                           else Ret (False, None)
                      else go_on (if sr_slibing result' = Null then sr_next_level result' else sr_slibing result'))
            in if cached_entry \<noteq> None then s_track I TrackCacheHit go else go)"

definition sherman_read :: "ShermanIndex \<Rightarrow> bytes \<Rightarrow> GlobalAddress list \<Rightarrow> (bool \<times> bytes option) sprog" where
  "sherman_read I key path =
     bind (s_get_root_offset I) (\<lambda>root_addr.
       let start = (\<lambda>from_cache cached_entry p. s_read_loop (s_fuel I) I key root_addr from_cache cached_entry p
              ((SearchResult_init (s_cfg I))\<lparr>sr_val := ArrayVar_min (VALUE_SIZE (s_cfg I))\<rparr>) path)
       in if s_has_cache I
          then CacheSearch key (\<lambda>cached. case cached of
              None \<Rightarrow> s_track I TrackCacheMiss (start False None root_addr)
            | Some (handle, entry) \<Rightarrow>
                (case get_leaf_from_cache_entry entry key of
                   Inl e \<Rightarrow> Abort e
                 | Inr p \<Rightarrow> start True (Some handle) p))
          else start False None root_addr)"

definition sherman_del :: "bytes \<Rightarrow> bool sprog" where
  "sherman_del key = Abort AssertionFailed"

end
