(* ===== verification/Sherman_Correct.thy ===== *)
theory Sherman_Correct
  imports Sherman_Index Search_Tree Regions
begin

text \<open>
  What the operations of the Sherman index do when no other client interferes: \<open>s_tree_inv\<close> is the invariant of an index in
  remote memory between operations, \<open>s_tree_map\<close> the map it stores, and the lemmas execute the
  programs of \<open>Sherman_Index\<close> on such memories.
\<close>

subsection \<open>The tree in memory\<close>

definition s_leaf_page :: "Config \<Rightarrow> rmemory \<Rightarrow> GlobalAddress \<Rightarrow> bool" where
  "s_leaf_page c r g \<longleftrightarrow> rm_valid r g 1024 \<and> l_lock (sleaf_at c r g) = 0 \<and> l_check_consistent (sleaf_at c r g) \<and>
     s_leftmost_ptr (l_hdr (sleaf_at c r g)) = Null \<and> s_level (l_hdr (sleaf_at c r g)) = 0"

definition s_inner_page :: "Config \<Rightarrow> rmemory \<Rightarrow> nat \<Rightarrow> GlobalAddress \<Rightarrow> bool" where
  "s_inner_page c r n g \<longleftrightarrow> rm_valid r g 1024 \<and> i_lock (sinternal_at c r g) = 0 \<and> i_check_consistent (sinternal_at c r g) \<and>
     s_leftmost_ptr (i_hdr (sinternal_at c r g)) \<noteq> Null \<and> unat (s_level (i_hdr (sinternal_at c r g))) = n \<and>
     sinternal_ok c (sinternal_at c r g)"

definition s_view :: "Config \<Rightarrow> rmemory \<Rightarrow> tree_view" where
  "s_view c r = \<lparr>tv_seps = (\<lambda>g. s_separators (sinternal_at c r g)), tv_kids = (\<lambda>g. s_children (sinternal_at c r g)),
     tv_lo = (\<lambda>g. s_lowest (l_hdr (sleaf_at c r g))), tv_hi = (\<lambda>g. s_highest (l_hdr (sleaf_at c r g))),
     tv_leaf = s_leaf_page c r, tv_inner = s_inner_page c r\<rparr>"

lemma s_view_simps [simp]:
  "tv_seps (s_view c r) g = s_separators (sinternal_at c r g)" "tv_kids (s_view c r) g = s_children (sinternal_at c r g)"
  "tv_lo (s_view c r) g = s_lowest (l_hdr (sleaf_at c r g))" "tv_hi (s_view c r) g = s_highest (l_hdr (sleaf_at c r g))"
  "tv_leaf (s_view c r) g = s_leaf_page c r g" "tv_inner (s_view c r) n g = s_inner_page c r n g"
  by (simp_all add: s_view_def)

definition s_root :: "ShermanIndex \<Rightarrow> rmemory \<Rightarrow> GlobalAddress" where
  "s_root I r = GlobalAddress_raw (rm_load64 r (s_root_offset_pointer I))"

definition s_item_of :: "Config \<Rightarrow> rmemory \<Rightarrow> SLeafEntry \<Rightarrow> KVItem" where
  "s_item_of c r e = item_at c r (s_kv_ptr e)"

definition s_entry_ok :: "Config \<Rightarrow> rmemory \<Rightarrow> SLeafEntry \<Rightarrow> bool" where
  "s_entry_ok c r e \<longleftrightarrow> rm_valid r (s_kv_ptr e) (sizeof_KVItem c) \<and>
     s_fingerprint e = Fingerprint_of_key (item_key (s_item_of c r e))"

definition s_leaf_ok :: "Config \<Rightarrow> rmemory \<Rightarrow> SLeafPage \<Rightarrow> bool" where
  "s_leaf_ok c r p \<longleftrightarrow> (\<forall>e \<in> set (live_records p). s_entry_ok c r e) \<and>
     distinct (map (\<lambda>e. item_key (s_item_of c r e)) (live_records p)) \<and> length (live_records p) < kLeafCardinality c"

definition s_leaf_map :: "Config \<Rightarrow> rmemory \<Rightarrow> SLeafPage \<Rightarrow> bytes \<rightharpoonup> bytes" where
  "s_leaf_map c r p = map_of (map (\<lambda>e. item_pair (s_item_of c r e)) (live_records p))"

text \<open>What a \<^verbatim>\<open>read\<close> reports for a key that the map binds: the code takes the value of all zero bytes for an absent key.\<close>

definition s_visible :: "Config \<Rightarrow> bytes option \<Rightarrow> bool \<times> bytes option" where
  "s_visible c x = (case x of None \<Rightarrow> (False, None)
     | Some v \<Rightarrow> if v = ArrayVar_min (VALUE_SIZE c) then (False, None) else (True, Some v))"

subsection \<open>Reading pages and items\<close>

lemma unat_page_bytes [simp]: "unat page_bytes = 1024" "unat (of_nat kInternalPageSize :: u64) = 1024"
  by (simp_all add: page_bytes_def kLeafPageSize_def kInternalPageSize_def)

lemma unat_s_item_bytes: "sherman_ok (s_cfg I) \<Longrightarrow> unat (s_item_bytes I) = sizeof_KVItem (s_cfg I)"
  by (auto simp: s_item_bytes_def sizeof_KVItem_def sherman_ok_def config_ok_def unat_of_nat take_bit_eq_mod simp del: of_nat_add)

lemma read_page_run:
  assumes "rm_ok r" and "rm_valid r g 1024"
  shows "run (mem_handler E) (bind (rdma_read_object g page_bytes) (\<lambda>(ok, buf). assert_then ok (with_page buf k))) (r, e) =
    run (mem_handler E) (k (rm_load r g 1024)) (r, e)"
  using assms by (simp add: run_bind rdma_read_object_run assert_then_def with_page_def)

lemma read_item_run:
  assumes "rm_ok r" and "rm_valid r g (sizeof_KVItem (s_cfg I))" and "sherman_ok (s_cfg I)"
  shows "run (mem_handler E) (rdma_read_object g (s_item_bytes I)) (r, e) =
    Inr ((True, Some (rm_load r g (sizeof_KVItem (s_cfg I)))), (r, e))"
  using assms rdma_read_object_run [of r g "s_item_bytes I" E e] by (simp add: unat_s_item_bytes)

lemma s_get_root_offset_run:
  assumes "rm_ok r" and "rm_valid r (s_root_offset_pointer I) 8"
  shows "run (mem_handler E) (s_get_root_offset I) (r, e) = Inr (s_root I r, (r, e))"
  using assms rdma_read_object_run [of r "s_root_offset_pointer I" 8 E e]
  by (simp add: s_get_root_offset_def run_bind assert_then_def with_page_def s_root_def rm_load64_def)

lemma search_records_run:
  assumes "rm_ok r" and "sherman_ok (s_cfg I)" and "length key = KEY_SIZE (s_cfg I)"
    and "\<forall>x \<in> set (filter (\<lambda>e. \<not> s_is_empty e) rs). s_entry_ok (s_cfg I) r x"
  shows "run (mem_handler E) (search_records I key rs) (r, e) =
    Inr (map_of (map (\<lambda>x. item_pair (s_item_of (s_cfg I) r x)) (filter (\<lambda>x. \<not> s_is_empty x) rs)) key, (r, e))"
  using assms(4)
proof (induction rs)
  case (Cons x rs)
  then have IH: "run (mem_handler E) (search_records I key rs) (r, e) =
      Inr (map_of (map (\<lambda>x. item_pair (s_item_of (s_cfg I) r x)) (filter (\<lambda>x. \<not> s_is_empty x) rs)) key, (r, e))" by simp
  show ?case
  proof (cases "s_is_empty x")
    case False
    then have x: "rm_valid r (s_kv_ptr x) (sizeof_KVItem (s_cfg I))" "s_fingerprint x = Fingerprint_of_key (item_key (s_item_of (s_cfg I) r x))"
      using Cons.prems by (auto simp: s_entry_ok_def)
    have "length (item_key (s_item_of (s_cfg I) r x)) = length key"
      using length_item_key_at [OF x(1)] assms(3) by (simp add: s_item_of_def)
    then show ?thesis
      using False IH x read_item_run [OF assms(1) x(1) assms(2), of E e]
      by (auto simp: run_bind with_page_def Let_def item_at_def [symmetric] s_item_of_def [symmetric] key_eq_iff item_pair_def)
  qed (use IH in simp)
qed simp

lemma search_node_leaf_run:
  assumes ok: "rm_ok r" "sherman_ok (s_cfg I)" and key: "length key = KEY_SIZE (s_cfg I)"
    and leaf: "s_leaf_page (s_cfg I) r g" "s_leaf_ok (s_cfg I) r (sleaf_at (s_cfg I) r g)"
    and bounds: "be_val (s_lowest (l_hdr (sleaf_at (s_cfg I) r g))) \<le> be_val key" "be_val key < be_val (s_highest (l_hdr (sleaf_at (s_cfg I) r g)))"
    and path: "path \<noteq> []"
  shows "run (mem_handler E) (search_node (Suc n) I g key False res path) (r, e) =
    Inr ((True, res\<lparr>sr_is_leaf := True, sr_level := 0,
        sr_val := (case s_leaf_map (s_cfg I) r (sleaf_at (s_cfg I) r g) key of None \<Rightarrow> sr_val res | Some v \<Rightarrow> v)\<rparr>, path[0 := g]), (r, e))"
proof -
  let ?p = "sleaf_at (s_cfg I) r g"
  have v: "rm_valid r g 1024" using leaf(1) by (simp add: s_leaf_page_def)
  then have wf: "sleaf_wf (s_cfg I) ?p" using page_at_wf(2) [OF ok(2)] by simp
  then have cmp: "key_ge key (s_lowest (l_hdr ?p))" "\<not> key_ge key (s_highest (l_hdr ?p))"
    using bounds key by (simp_all add: key_ge_iff sleaf_wf_def sheader_wf_def)
  have rec: "run (mem_handler E) (search_records I key (l_records ?p)) (r, e) = Inr (s_leaf_map (s_cfg I) r ?p key, (r, e))"
    unfolding s_leaf_map_def live_records_def
    by (rule search_records_run [OF ok key]) (use leaf(2) in \<open>simp add: s_leaf_ok_def live_records_def\<close>)
  have page: "dec_sleaf (s_cfg I) (rm_load r g 1024) = ?p" by (simp add: sleaf_at_def kLeafPageSize_def)
  show ?thesis
    unfolding search_node.simps read_page_run [OF ok(1) v]
    using leaf(1) cmp rec path
    by (auto simp: Let_def page s_leaf_page_def assert_then_def run_bind split: option.split)
qed

lemma search_node_inner_run:
  assumes ok: "rm_ok r" "sherman_ok (s_cfg I)" and key: "length key = KEY_SIZE (s_cfg I)"
    and inner: "s_inner_page (s_cfg I) r (Suc m) g" and cache: "\<not> s_has_cache I"
    and bounds: "be_val (s_lowest (l_hdr (sleaf_at (s_cfg I) r g))) \<le> be_val key" "be_val key < be_val (s_highest (l_hdr (sleaf_at (s_cfg I) r g)))"
    and path: "Suc m < length path"
  shows "run (mem_handler E) (search_node (Suc n) I g key False res path) (r, e) =
    Inr ((True, res\<lparr>sr_is_leaf := False, sr_level := s_level (i_hdr (sinternal_at (s_cfg I) r g)),
        sr_next_level := route (s_separators (sinternal_at (s_cfg I) r g)) (s_children (sinternal_at (s_cfg I) r g)) key\<rparr>, path[Suc m := g]), (r, e))"
proof -
  let ?p = "sinternal_at (s_cfg I) r g" and ?l = "sleaf_at (s_cfg I) r g"
  note views = page_views [of "s_cfg I" r g]
  have v: "rm_valid r g 1024" and lvl: "unat (s_level (i_hdr ?p)) = Suc m" and good: "sinternal_ok (s_cfg I) ?p"
    using inner by (simp_all add: s_inner_page_def)
  have wf: "sleaf_wf (s_cfg I) ?l" using page_at_wf(2) [OF ok(2) v] by simp
  then have cmp: "key_ge key (s_lowest (l_hdr ?l))" "\<not> key_ge key (s_highest (l_hdr ?l))"
    using bounds key by (simp_all add: key_ge_iff sleaf_wf_def sheader_wf_def)
  have lvl0: "s_level (l_hdr ?l) \<noteq> 0" using lvl views(1) by (auto simp: unat_eq_0)
  have page: "dec_sleaf (s_cfg I) (rm_load r g 1024) = ?l" "dec_sinternal (s_cfg I) (rm_load r g 1024) = ?p"
    by (simp_all add: sleaf_at_def sinternal_at_def kLeafPageSize_def kInternalPageSize_def)
  show ?thesis
    unfolding search_node.simps read_page_run [OF ok(1) v]
    using inner cmp path lvl lvl0 cache select_child_route [OF good key] views
    by (simp add: Let_def page s_inner_page_def assert_then_def l_check_consistent_def i_check_consistent_def)
qed

subsection \<open>Reading a key\<close>

definition s_tree_ok :: "ShermanIndex \<Rightarrow> rmemory \<Rightarrow> nat \<Rightarrow> bool" where
  "s_tree_ok I r n \<longleftrightarrow> sherman_ok (s_cfg I) \<and> rm_small r \<and> n < kMaxLevelOfTree \<and> n < s_fuel I \<and>
     rm_valid r (s_root_offset_pointer I) 8 \<and>
     tree (s_view (s_cfg I) r) (s_root I r) n (ArrayVar_min (KEY_SIZE (s_cfg I))) (ArrayVar_max (KEY_SIZE (s_cfg I)))"

definition s_leaf_for :: "ShermanIndex \<Rightarrow> rmemory \<Rightarrow> nat \<Rightarrow> bytes \<Rightarrow> GlobalAddress" where
  "s_leaf_for I r n key = tree_leaf_for (s_view (s_cfg I) r) n (s_root I r) key"

definition s_tree_map :: "ShermanIndex \<Rightarrow> rmemory \<Rightarrow> nat \<Rightarrow> bytes \<rightharpoonup> bytes" where
  "s_tree_map I r n key = s_leaf_map (s_cfg I) r (sleaf_at (s_cfg I) r (s_leaf_for I r n key)) key"

lemma tree_fences:
  assumes "tree V g n lo hi"
  shows "lo = tv_lo V g" "hi = tv_hi V g"
  using assms by (auto elim: tree.cases)

lemma value_lengths:
  assumes "s_leaf_ok c r p" and "s_leaf_map c r p k = Some v"
  shows "length v = VALUE_SIZE c"
proof -
  obtain e where "e \<in> set (live_records p)" "v = item_value (s_item_of c r e)"
    using map_of_SomeD [OF assms(2) [unfolded s_leaf_map_def]] by (auto simp: item_pair_def)
  then show ?thesis
    using assms(1) by (auto simp: s_leaf_ok_def s_entry_ok_def s_item_of_def item_at_def dec_item_def rm.length_load
        sizeof_KVItem_def length_bslice)
qed

lemma s_read_loop_run:
  assumes t: "tree (s_view (s_cfg I) r) g n lo hi" "be_val lo \<le> be_val key" "be_val key < be_val hi"
    and ok: "rm_ok r" "sherman_ok (s_cfg I)" and key: "length key = KEY_SIZE (s_cfg I)" and cache: "\<not> s_has_cache I"
    and leaf: "s_leaf_ok (s_cfg I) r (sleaf_at (s_cfg I) r (tree_leaf_for (s_view (s_cfg I) r) n g key))"
    and path: "n < length path" and fuel: "0 < s_fuel I" "n < m"
    and res: "sr_slibing res = Null" "sr_val res = ArrayVar_min (VALUE_SIZE (s_cfg I))"
  shows "run (mem_handler E) (s_read_loop m I key root_addr False None g res path) (r, e) =
    Inr (s_visible (s_cfg I) (s_leaf_map (s_cfg I) r (sleaf_at (s_cfg I) r (tree_leaf_for (s_view (s_cfg I) r) n g key)) key), (r, e))"
  using t leaf path fuel(2) res
proof (induction n arbitrary: g lo hi m res path)
  case 0
  obtain f where f: "s_fuel I = Suc f" using fuel(1) by (cases "s_fuel I") auto
  obtain m' where m: "m = Suc m'" using 0 by (cases m) auto
  have g: "s_leaf_page (s_cfg I) r g" and b: "lo = s_lowest (l_hdr (sleaf_at (s_cfg I) r g))" "hi = s_highest (l_hdr (sleaf_at (s_cfg I) r g))"
    using 0(1) by (auto elim: tree_0E)
  have "path \<noteq> []" using 0 by auto
  note step = search_node_leaf_run [OF ok key g _ _ _ this, of E f res e]
  show ?case
    using step 0 b value_lengths [of "s_cfg I" r "sleaf_at (s_cfg I) r g" key]
    by (auto simp: m f run_bind s_visible_def Let_def key_ne_iff length_ArrayVar split: option.split)
next
  case (Suc n)
  obtain f where f: "s_fuel I = Suc f" using fuel(1) by (cases "s_fuel I") auto
  obtain m' where m: "m = Suc m'" "n < m'" using Suc.prems by (cases m) auto
  have g: "s_inner_page (s_cfg I) r (Suc n) g" and b: "lo = s_lowest (l_hdr (sleaf_at (s_cfg I) r g))" "hi = s_highest (l_hdr (sleaf_at (s_cfg I) r g))"
    using Suc.prems(1) by (auto elim: tree_SucE)
  obtain j where j: "route (s_separators (sinternal_at (s_cfg I) r g)) (s_children (sinternal_at (s_cfg I) r g)) key = s_children (sinternal_at (s_cfg I) r g) ! j"
      "tree (s_view (s_cfg I) r) (s_children (sinternal_at (s_cfg I) r g) ! j) n (tv_bounds (s_view (s_cfg I) r) g ! j) (tv_bounds (s_view (s_cfg I) r) g ! Suc j)"
      "be_val (tv_bounds (s_view (s_cfg I) r) g ! j) \<le> be_val key" "be_val key < be_val (tv_bounds (s_view (s_cfg I) r) g ! Suc j)"
    using tree_step [OF Suc.prems(1-3)] by auto
  note step = search_node_inner_run [OF ok key g cache Suc.prems(2,3) [unfolded b] Suc.prems(5), of E f res e]
  show ?case
    using step Suc.IH [OF j(2-4), of "path[Suc n := g]" m'] Suc.prems(4-8) m j(1)
    by (simp add: f run_bind Let_def)
qed

lemma key_in_range:
  assumes "length key = N" and "key \<noteq> ArrayVar_max N"
  shows "be_val (ArrayVar_min N) \<le> be_val key" "be_val key < be_val (ArrayVar_max N)"
  using key_min_le [OF assms(1)] key_lt_max_iff [OF assms(1)] assms by (simp_all add: key_ge_iff key_lt_iff length_ArrayVar)

lemma sherman_read_run:
  assumes ok: "s_tree_ok I r n" and cache: "\<not> s_has_cache I"
    and key: "length key = KEY_SIZE (s_cfg I)" "key \<noteq> ArrayVar_max (KEY_SIZE (s_cfg I))"
    and leaf: "s_leaf_ok (s_cfg I) r (sleaf_at (s_cfg I) r (s_leaf_for I r n key))" and path: "length path = kMaxLevelOfTree"
  shows "run (mem_handler E) (sherman_read I key path) (r, e) = Inr (s_visible (s_cfg I) (s_tree_map I r n key), (r, e))"
proof -
  have t: "tree (s_view (s_cfg I) r) (s_root I r) n (ArrayVar_min (KEY_SIZE (s_cfg I))) (ArrayVar_max (KEY_SIZE (s_cfg I)))"
    and c: "sherman_ok (s_cfg I)" "rm_ok r" and f: "0 < s_fuel I" "n < s_fuel I" and p: "n < length path"
    and ptr: "rm_valid r (s_root_offset_pointer I) 8"
    using ok path rm_small_ok by (auto simp: s_tree_ok_def)
  show ?thesis
    using s_read_loop_run [OF t key_in_range [OF key] c(2,1) key(1) cache leaf [unfolded s_leaf_for_def] p f,
        of "(SearchResult_init (s_cfg I))\<lparr>sr_val := ArrayVar_min (VALUE_SIZE (s_cfg I))\<rparr>" E "s_root I r" e]
    by (simp add: sherman_read_def run_bind s_get_root_offset_run [OF c(2) ptr] cache SearchResult_init_def
        s_tree_map_def s_leaf_for_def)
qed

end
