(* ===== verification/Sherman_Insert.thy ===== *)
theory Sherman_Insert
  imports Sherman_Correct
begin

text \<open>
  Insertion into the Sherman index. The locale \<open>sequential_locks\<close> states what the code relies on when it locks
  a page through the local lock manager: an idle lock is acquired without a handover, a lock without
  waiters is released without one, and allocations do not touch the locks. The lemmas execute
  \<^verbatim>\<open>insert\<close> for a leaf that need not be split and show that it updates the stored map.
\<close>

subsection \<open>Changing one record of a leaf\<close>

lemma s_leaf_put:
  assumes ok: "s_leaf_ok c r p" and live: "live_records p = xs @ old @ ys" "live_records p' = xs @ [x] @ ys"
    and same: "\<forall>e \<in> set xs \<union> set ys. s_item_of c r' e = s_item_of c r e"
    and valid: "\<And>g n. rm_valid r' g n = rm_valid r g n"
    and x: "rm_valid r (s_kv_ptr x) (sizeof_KVItem c)" "s_item_of c r' x = it" "s_fingerprint x = Fingerprint_of_key (item_key it)"
    and old: "old = [] \<and> s_leaf_map c r p (item_key it) = None \<or> (\<exists>e. old = [e] \<and> item_key (s_item_of c r e) = item_key it)"
    and room: "length (live_records p') < kLeafCardinality c"
  shows "s_leaf_ok c r' p'" and "s_leaf_map c r' p' = (s_leaf_map c r p)(item_key it \<mapsto> item_value it)"
proof -
  let ?key = "\<lambda>e. item_key (s_item_of c r e)" and ?pair = "\<lambda>e. item_pair (s_item_of c r e)"
  have dist: "distinct (map ?key (xs @ old @ ys))" using ok live by (simp add: s_leaf_ok_def)
  have fresh: "item_key it \<notin> ?key ` (set xs \<union> set ys)"
    using old
  proof
    assume "old = [] \<and> s_leaf_map c r p (item_key it) = None"
    then have "item_key it \<notin> fst ` set (map ?pair (xs @ ys))" by (simp add: s_leaf_map_def live map_of_eq_None_iff image_Un)
    then show ?thesis by (simp add: item_pair_def image_Un image_image)
  next
    assume "\<exists>e. old = [e] \<and> ?key e = item_key it"
    then show ?thesis using dist by auto
  qed
  have keys: "map (\<lambda>e. item_key (s_item_of c r' e)) (live_records p') = map ?key xs @ item_key it # map ?key ys"
    and pairs: "map (\<lambda>e. item_pair (s_item_of c r' e)) (live_records p') = map ?pair xs @ (item_key it, item_value it) # map ?pair ys"
    using same x(2) by (simp_all add: live item_pair_def)
  have "\<forall>e \<in> set (live_records p'). s_entry_ok c r' e"
    using ok x same valid by (auto simp: s_leaf_ok_def live s_entry_ok_def)
  then show "s_leaf_ok c r' p'" using dist fresh room by (auto simp: s_leaf_ok_def keys)
  have notin: "item_key it \<notin> fst ` set (map ?pair xs)" using fresh by (auto simp: item_pair_def)
  have "s_leaf_map c r' p' = (map_of (map ?pair xs @ map ?pair ys))(item_key it \<mapsto> item_value it)"
    unfolding s_leaf_map_def pairs by (rule map_of_insert [OF notin])
  moreover have "(map_of (map ?pair xs @ map ?pair ys))(item_key it \<mapsto> item_value it) = (s_leaf_map c r p)(item_key it \<mapsto> item_value it)"
    using old
  proof
    assume "\<exists>e. old = [e] \<and> ?key e = item_key it"
    then obtain e where e: "old = [e]" "?key e = item_key it" by blast
    then have "s_leaf_map c r p = (map_of (map ?pair xs @ map ?pair ys))(item_key it \<mapsto> item_value (s_item_of c r e))"
      using map_of_insert [OF notin, of "item_value (s_item_of c r e)" "map ?pair ys"] by (simp add: s_leaf_map_def live item_pair_def)
    then show ?thesis by simp
  qed (simp add: s_leaf_map_def live)
  ultimately show "s_leaf_map c r' p' = (s_leaf_map c r p)(item_key it \<mapsto> item_value it)" by simp
qed

lemma live_records_update:
  assumes "i < length (l_records p)" and "s_is_empty (l_records p ! i)" and "\<not> s_is_empty x"
  shows "\<exists>xs ys. live_records p = xs @ ys \<and> live_records (p\<lparr>l_records := (l_records p)[i := x]\<rparr>) = xs @ [x] @ ys"
proof (intro exI conjI)
  let ?P = "\<lambda>e. \<not> s_is_empty e"
  show "live_records p = filter ?P (take i (l_records p)) @ filter ?P (drop (Suc i) (l_records p))"
    unfolding live_records_def by (subst id_take_nth_drop [OF assms(1)]) (use assms(2) in simp)
  show "live_records (p\<lparr>l_records := (l_records p)[i := x]\<rparr>) = filter ?P (take i (l_records p)) @ [x] @ filter ?P (drop (Suc i) (l_records p))"
    using assms by (simp add: live_records_def upd_conv_take_nth_drop)
qed

subsection \<open>The invariant\<close>

definition s_leaf_items :: "Config \<Rightarrow> SLeafPage \<Rightarrow> (GlobalAddress \<times> nat) list" where
  "s_leaf_items c p = map (\<lambda>e. (s_kv_ptr e, sizeof_KVItem c)) (live_records p)"

definition s_leaves :: "ShermanIndex \<Rightarrow> rmemory \<Rightarrow> nat \<Rightarrow> GlobalAddress list" where
  "s_leaves I r n = tree_leaves (s_view (s_cfg I) r) n (s_root I r)"

definition s_page_regions :: "ShermanIndex \<Rightarrow> rmemory \<Rightarrow> nat \<Rightarrow> (GlobalAddress \<times> nat) list" where
  "s_page_regions I r n = (s_root_offset_pointer I, 8) #
     map (\<lambda>g. (g, 1024)) (tree_inner (s_view (s_cfg I) r) n (s_root I r) @ s_leaves I r n)"

definition s_footprint :: "ShermanIndex \<Rightarrow> rmemory \<Rightarrow> nat \<Rightarrow> (GlobalAddress \<times> nat) list" where
  "s_footprint I r n = s_page_regions I r n @
     concat (map (\<lambda>l. s_leaf_items (s_cfg I) (sleaf_at (s_cfg I) r l)) (s_leaves I r n))"

definition s_tree_inv :: "ShermanIndex \<Rightarrow> rmemory \<Rightarrow> nat \<Rightarrow> bool" where
  "s_tree_inv I r n \<longleftrightarrow> s_tree_ok I r n \<and> regions_apart (s_footprint I r n) \<and>
     (\<forall>l \<in> set (s_leaves I r n). s_leaf_ok (s_cfg I) r (sleaf_at (s_cfg I) r l))"

lemma s_leaf_for_leaves: "s_tree_ok I r n \<Longrightarrow> s_leaf_for I r n key \<in> set (s_leaves I r n)"
  unfolding s_tree_ok_def s_leaf_for_def s_leaves_def using tree_leaf_in_leaves by blast

lemma s_page_valid:
  assumes "s_tree_ok I r n"
  shows "\<forall>l \<in> set (s_leaves I r n). rm_valid r l 1024"
    and "\<forall>h \<in> set (tree_inner (s_view (s_cfg I) r) n (s_root I r)). rm_valid r h 1024"
  using tree_pages [of "s_view (s_cfg I) r" "s_root I r" n] assms
  by (force simp: s_tree_ok_def s_leaves_def s_leaf_page_def s_inner_page_def)+

lemma page_same:
  assumes "changes r r' xs" and "rm_valid r g 1024" and "\<forall>x \<in> set xs. apart (fst x) (snd x) g 1024"
  shows "sleaf_at c r' g = sleaf_at c r g" and "sinternal_at c r' g = sinternal_at c r g"
  using changesD(3) [OF assms] by (simp_all add: sleaf_at_def sinternal_at_def kLeafPageSize_def kInternalPageSize_def)

lemma item_same:
  assumes "changes r r' xs" and "rm_valid r (s_kv_ptr e) (sizeof_KVItem c)" and "\<forall>x \<in> set xs. apart (fst x) (snd x) (s_kv_ptr e) (sizeof_KVItem c)"
  shows "s_item_of c r' e = s_item_of c r e"
  using changesD(3) [OF assms] by (simp add: s_item_of_def item_at_def)

text \<open>
  Rewriting the item of one record, or filling a free record with a new item, on the leaf that is responsible
  for a key.
\<close>

lemma s_footprint_split:
  assumes "s_leaves I r n = L1 @ l # L2"
  shows "s_footprint I r n = (s_root_offset_pointer I, 8) # map (\<lambda>g. (g, 1024)) (tree_inner (s_view (s_cfg I) r) n (s_root I r)) @
    map (\<lambda>g. (g, 1024)) L1 @ (l, 1024) # map (\<lambda>g. (g, 1024)) L2 @
    concat (map (\<lambda>l. s_leaf_items (s_cfg I) (sleaf_at (s_cfg I) r l)) L1) @ s_leaf_items (s_cfg I) (sleaf_at (s_cfg I) r l) @
    concat (map (\<lambda>l. s_leaf_items (s_cfg I) (sleaf_at (s_cfg I) r l)) L2)"
  by (simp add: s_footprint_def s_page_regions_def assms)

lemma s_tree_frame:
  assumes ok: "s_tree_ok I r n" and leaves: "s_leaves I r n = L1 @ l # L2" and ch: "changes r r' xs"
    and pages: "\<forall>x \<in> set xs. \<forall>h \<in> set (tree_inner (s_view (s_cfg I) r) n (s_root I r) @ L1 @ L2). apart (fst x) (snd x) h 1024"
    and ptr: "\<forall>x \<in> set xs. apart (fst x) (snd x) (s_root_offset_pointer I) 8"
    and leaf: "l_hdr (sleaf_at (s_cfg I) r' l) = l_hdr (sleaf_at (s_cfg I) r l)" "s_leaf_page (s_cfg I) r' l"
  shows "s_tree_ok I r' n" and "s_leaves I r' n = s_leaves I r n" and "s_leaf_for I r' n k = s_leaf_for I r n k"
    and "s_page_regions I r' n = s_page_regions I r n"
    and "\<forall>h \<in> set (L1 @ L2). sleaf_at (s_cfg I) r' h = sleaf_at (s_cfg I) r h"
proof -
  let ?c = "s_cfg I" and ?V = "s_view (s_cfg I) r" and ?V' = "s_view (s_cfg I) r'"
  have t: "tree ?V (s_root I r) n (ArrayVar_min (KEY_SIZE ?c)) (ArrayVar_max (KEY_SIZE ?c))"
    and pv: "rm_valid r (s_root_offset_pointer I) 8" using ok by (simp_all add: s_tree_ok_def)
  have root: "s_root I r' = s_root I r" using changesD(3) [OF ch pv ptr] by (simp add: s_root_def rm_load64_def)
  have same: "sleaf_at ?c r' h = sleaf_at ?c r h \<and> sinternal_at ?c r' h = sinternal_at ?c r h"
    if "h \<in> set (tree_inner ?V n (s_root I r) @ L1 @ L2)" for h
    using page_same [OF ch, of h ?c] s_page_valid [OF ok] pages that leaves by auto
  then show "\<forall>h \<in> set (L1 @ L2). sleaf_at ?c r' h = sleaf_at ?c r h" by simp
  have inner: "\<forall>h \<in> set (tree_inner ?V n (s_root I r)). agree_inner ?V ?V' h"
    using same changesD(1) [OF ch] by (auto simp: agree_inner_def s_inner_page_def)
  have "agree_leaf ?V ?V' l"
    using leaf tree_pages [OF t] leaves by (auto simp: agree_leaf_def s_leaves_def)
  then have lvs: "\<forall>h \<in> set (tree_leaves ?V n (s_root I r)). agree_leaf ?V ?V' h"
    using same changesD(1) [OF ch] leaves by (auto simp: agree_leaf_def s_leaf_page_def s_leaves_def)
  show "s_tree_ok I r' n"
    using ok tree_agree [OF t inner lvs] changesD(1,2) [OF ch] root by (simp add: s_tree_ok_def)
  show "s_leaves I r' n = s_leaves I r n" "s_leaf_for I r' n k = s_leaf_for I r n k" "s_page_regions I r' n = s_page_regions I r n"
    using tree_agree_shape [OF t inner, of k] root by (simp_all add: s_leaves_def s_leaf_for_def s_page_regions_def)
qed

lemma s_tree_put:
  assumes inv: "s_tree_inv I r n" and l: "l = s_leaf_for I r n key" and p: "p = sleaf_at (s_cfg I) r l"
    and ch: "changes r r' [(l, 1024), (a, sizeof_KVItem (s_cfg I))]"
    and p': "sleaf_at (s_cfg I) r' l = p'" "l_hdr p' = l_hdr p" "l_lock p' = 0" "l_check_consistent p'"
    and live: "live_records p = xs @ old @ ys" "live_records p' = xs @ [x] @ ys"
    and x: "s_kv_ptr x = a" "rm_valid r a (sizeof_KVItem (s_cfg I))" "s_item_of (s_cfg I) r' x = it"
      "s_fingerprint x = Fingerprint_of_key key" "item_key it = key"
    and old: "old = [] \<and> s_leaf_map (s_cfg I) r p key = None \<and> (\<forall>y \<in> set (s_footprint I r n). apart a (sizeof_KVItem (s_cfg I)) (fst y) (snd y)) \<or>
      (\<exists>e. old = [e] \<and> s_kv_ptr e = a \<and> item_key (s_item_of (s_cfg I) r e) = key)"
    and room: "length (live_records p') < kLeafCardinality (s_cfg I)"
  shows "s_tree_inv I r' n \<and> s_tree_map I r' n = (s_tree_map I r n)(key \<mapsto> item_value it)"
proof -
  let ?c = "s_cfg I" and ?sz = "sizeof_KVItem (s_cfg I)" and ?IN = "tree_inner (s_view (s_cfg I) r) n (s_root I r)"
  let ?f = "\<lambda>e. (s_kv_ptr e, ?sz)" and ?items = "\<lambda>l. s_leaf_items ?c (sleaf_at ?c r l)"
  have ok: "s_tree_ok I r n" and ap: "regions_apart (s_footprint I r n)"
    and lok: "\<forall>l \<in> set (s_leaves I r n). s_leaf_ok ?c r (sleaf_at ?c r l)" using inv by (simp_all add: s_tree_inv_def)
  have mem: "l \<in> set (s_leaves I r n)" using s_leaf_for_leaves [OF ok] l by simp
  then obtain L1 L2 where L: "s_leaves I r n = L1 @ l # L2" by (meson split_list)
  have il: "?items l = map ?f (xs @ old @ ys)" using live(1) p by (simp add: s_leaf_items_def)
  note fp = s_footprint_split [OF L, unfolded il]
  note ap' = ap [unfolded fp]
  have aap: "\<forall>y \<in> set ((s_root_offset_pointer I, 8) # map (\<lambda>g. (g, 1024)) (?IN @ L1 @ l # L2) @ concat (map ?items (L1 @ L2)) @ map ?f (xs @ ys)).
      apart a ?sz (fst y) (snd y)"
    using old
  proof
    assume "\<exists>e. old = [e] \<and> s_kv_ptr e = a \<and> item_key (s_item_of ?c r e) = key"
    then obtain e where "old = [e]" "s_kv_ptr e = a" by blast
    then have "s_footprint I r n = ((s_root_offset_pointer I, 8) # map (\<lambda>g. (g, 1024)) (?IN @ L1 @ l # L2) @
        concat (map ?items L1) @ map ?f xs) @ (a, ?sz) # (map ?f ys @ concat (map ?items L2))"
      by (simp add: fp)
    from regions_apart_mid [OF ap [unfolded this]] show ?thesis by auto
  qed (simp add: fp ball_Un)
  have lap: "\<forall>y \<in> set ((s_root_offset_pointer I, 8) # map (\<lambda>g. (g, 1024)) (?IN @ L1 @ L2) @ concat (map ?items (L1 @ L2)) @ map ?f (xs @ ys)).
      apart l 1024 (fst y) (snd y)"
  proof -
    have "s_footprint I r n = ((s_root_offset_pointer I, 8) # map (\<lambda>g. (g, 1024)) (?IN @ L1)) @ (l, 1024) #
        (map (\<lambda>g. (g, 1024)) L2 @ concat (map ?items L1) @ map ?f (xs @ old @ ys) @ concat (map ?items L2))"
      by (simp add: fp)
    from regions_apart_mid [OF ap [unfolded this]] show ?thesis by auto
  qed
  have v: "rm_valid r l 1024" using s_page_valid(1) [OF ok] mem by simp
  have lp: "s_leaf_page ?c r' l"
    using p' tree_pages [of "s_view ?c r" "s_root I r" n] ok mem changesD(1) [OF ch] p
    by (auto simp: s_leaf_page_def s_tree_ok_def s_leaves_def)
  have outside: "\<forall>x \<in> set [(l, 1024), (a, ?sz)]. apart (fst x) (snd x) (fst y) (snd y)"
    if "y \<in> set ((s_root_offset_pointer I, 8) # map (\<lambda>g. (g, 1024)) (?IN @ L1 @ L2) @ concat (map ?items (L1 @ L2)) @ map ?f (xs @ ys))" for y
    using that lap aap by auto
  have pg: "\<forall>x \<in> set [(l, 1024), (a, ?sz)]. \<forall>h \<in> set (?IN @ L1 @ L2). apart (fst x) (snd x) h 1024"
    and pt: "\<forall>x \<in> set [(l, 1024), (a, ?sz)]. apart (fst x) (snd x) (s_root_offset_pointer I) 8"
    using outside by auto
  have hdr: "l_hdr (sleaf_at ?c r' l) = l_hdr (sleaf_at ?c r l)" using p' p by simp
  note frame = s_tree_frame [OF ok L ch pg pt hdr lp]
  have item: "s_item_of ?c r' e = s_item_of ?c r e" if e: "e \<in> set xs \<union> set ys \<or> (\<exists>h \<in> set (L1 @ L2). e \<in> set (live_records (sleaf_at ?c r h)))" for e
  proof (rule item_same [OF ch])
    have "e \<in> set (live_records p) \<or> (\<exists>h \<in> set (L1 @ L2). e \<in> set (live_records (sleaf_at ?c r h)))"
      using e by (auto simp: live)
    then show "rm_valid r (s_kv_ptr e) ?sz" using lok L p by (auto simp: s_leaf_ok_def s_entry_ok_def)
    have "?f e \<in> set (concat (map ?items (L1 @ L2)) @ map ?f (xs @ ys))" using e by (auto simp: s_leaf_items_def)
    then show "\<forall>x \<in> set [(l, 1024), (a, ?sz)]. apart (fst x) (snd x) (s_kv_ptr e) ?sz" using outside [of "?f e"] by auto
  qed
  have pok: "s_leaf_ok ?c r p" using lok mem p by simp
  have put: "s_leaf_ok ?c r' p'" "s_leaf_map ?c r' p' = (s_leaf_map ?c r p)(key \<mapsto> item_value it)"
    using s_leaf_put [OF pok live, of r' it] item changesD(1) [OF ch] x old room by auto
  have other: "sleaf_at ?c r' h = sleaf_at ?c r h" "s_leaf_ok ?c r' (sleaf_at ?c r h)" "s_leaf_map ?c r' (sleaf_at ?c r h) = s_leaf_map ?c r (sleaf_at ?c r h)"
    if h: "h \<in> set (L1 @ L2)" for h
  proof -
    have i: "\<forall>e \<in> set (live_records (sleaf_at ?c r h)). s_item_of ?c r' e = s_item_of ?c r e" using item h by blast
    then show "s_leaf_map ?c r' (sleaf_at ?c r h) = s_leaf_map ?c r (sleaf_at ?c r h)" by (simp add: s_leaf_map_def cong: map_cong)
    have "s_leaf_ok ?c r (sleaf_at ?c r h)" using lok L h by auto
    then show "s_leaf_ok ?c r' (sleaf_at ?c r h)"
      using i changesD(1) [OF ch] by (auto simp: s_leaf_ok_def s_entry_ok_def cong: map_cong)
    show "sleaf_at ?c r' h = sleaf_at ?c r h" using frame(5) h by blast
  qed
  have il': "s_leaf_items ?c (sleaf_at ?c r' l) = map ?f xs @ (a, ?sz) # map ?f ys" using live(2) p'(1) x(1) by (simp add: s_leaf_items_def)
  have cs: "concat (map (\<lambda>l. s_leaf_items ?c (sleaf_at ?c r' l)) L1) = concat (map ?items L1)"
    "concat (map (\<lambda>l. s_leaf_items ?c (sleaf_at ?c r' l)) L2) = concat (map ?items L2)"
    using other(1) by (auto intro!: arg_cong [where f = concat])
  have "s_footprint I r' n = s_page_regions I r n @ concat (map ?items L1) @ (map ?f xs @ (a, ?sz) # map ?f ys) @ concat (map ?items L2)"
    unfolding s_footprint_def frame(2,4) L by (simp add: il' cs)
  moreover have "regions_apart ((s_page_regions I r n @ concat (map ?items L1) @ map ?f xs) @ (a, ?sz) # (map ?f ys @ concat (map ?items L2)))"
    using old
  proof
    assume "\<exists>e. old = [e] \<and> s_kv_ptr e = a \<and> item_key (s_item_of ?c r e) = key"
    then show ?thesis using ap' by (auto simp: s_page_regions_def L)
  next
    assume o: "old = [] \<and> s_leaf_map ?c r p key = None \<and> (\<forall>y \<in> set (s_footprint I r n). apart a ?sz (fst y) (snd y))"
    then have fo: "s_footprint I r n = (s_page_regions I r n @ concat (map ?items L1) @ map ?f xs) @ (map ?f ys @ concat (map ?items L2))"
      by (simp add: s_footprint_def L il)
    show ?thesis by (rule regions_apart_insert [OF ap [unfolded fo]]) (use o [unfolded fo] in simp)
  qed
  ultimately have "regions_apart (s_footprint I r' n)" by simp
  moreover have "\<forall>h \<in> set (s_leaves I r' n). s_leaf_ok ?c r' (sleaf_at ?c r' h)"
    using other put(1) p'(1) by (auto simp: frame(2) L)
  ultimately have "s_tree_inv I r' n" using frame(1) by (simp add: s_tree_inv_def)
  moreover have "s_tree_map I r' n k = ((s_tree_map I r n)(key \<mapsto> item_value it)) k" for k
  proof -
    let ?h = "s_leaf_for I r n k"
    have "?h \<in> set (L1 @ l # L2)" using s_leaf_for_leaves [OF ok, of k] L by simp
    moreover have "apart l 1024 l 1024" if "l \<in> set (L1 @ L2)" using pg that by simp
    then have "l \<notin> set (L1 @ L2)" by (auto simp: apart_def)
    ultimately show ?thesis
      using other(1,3) [of ?h] put(2) p'(1) p l by (auto simp: s_tree_map_def frame(3))
  qed
  ultimately show ?thesis by blast
qed

subsection \<open>Scanning a leaf\<close>

lemma scan_absent:
  assumes "rm_ok r" and "sherman_ok (s_cfg I)" and "length key = KEY_SIZE (s_cfg I)"
    and "\<forall>x \<in> set (filter (\<lambda>e. \<not> s_is_empty e) rs). s_entry_ok (s_cfg I) r x \<and> item_key (s_item_of (s_cfg I) r x) \<noteq> key"
  shows "\<exists>em'. run (mem_handler E) (scan_leaf I key v g i cnt em rs) (r, e) =
      Inr (Some (cnt + length (filter (\<lambda>e. \<not> s_is_empty e) rs), em'), (r, e)) \<and>
    (case em' of None \<Rightarrow> em = None \<and> (\<forall>x \<in> set rs. \<not> s_is_empty x)
     | Some j \<Rightarrow> em = Some j \<or> i \<le> j \<and> j - i < length rs \<and> s_is_empty (rs ! (j - i)))"
  using assms(4)
proof (induction rs arbitrary: i cnt em)
  case (Cons x rs)
  show ?case
  proof (cases "s_is_empty x")
    case True
    obtain em' where "run (mem_handler E) (scan_leaf I key v g (Suc i) cnt (if em = None then Some i else em) rs) (r, e) =
        Inr (Some (cnt + length (filter (\<lambda>e. \<not> s_is_empty e) rs), em'), (r, e))"
      "case em' of None \<Rightarrow> (if em = None then Some i else em) = None \<and> (\<forall>x \<in> set rs. \<not> s_is_empty x)
       | Some j \<Rightarrow> (if em = None then Some i else em) = Some j \<or> Suc i \<le> j \<and> j - Suc i < length rs \<and> s_is_empty (rs ! (j - Suc i))"
      using Cons.IH [of "Suc i" cnt "if em = None then Some i else em"] Cons.prems by auto
    then show ?thesis
      using True by (intro exI [of _ em']) (auto split: option.splits if_splits simp: Suc_diff_le nth_Cons' Suc_le_eq)
  next
    case False
    obtain em' where IH: "run (mem_handler E) (scan_leaf I key v g (Suc i) (Suc cnt) em rs) (r, e) =
        Inr (Some (Suc cnt + length (filter (\<lambda>e. \<not> s_is_empty e) rs), em'), (r, e))"
      "case em' of None \<Rightarrow> em = None \<and> (\<forall>x \<in> set rs. \<not> s_is_empty x)
       | Some j \<Rightarrow> em = Some j \<or> Suc i \<le> j \<and> j - Suc i < length rs \<and> s_is_empty (rs ! (j - Suc i))"
      using Cons.IH [of "Suc i" "Suc cnt" em] Cons.prems by auto
    have x: "rm_valid r (s_kv_ptr x) (sizeof_KVItem (s_cfg I))" "item_key (s_item_of (s_cfg I) r x) \<noteq> key"
      using Cons.prems False by (auto simp: s_entry_ok_def)
    have "length (item_key (s_item_of (s_cfg I) r x)) = length key"
      using length_item_key_at [OF x(1)] assms(3) by (simp add: s_item_of_def)
    then have "run (mem_handler E) (scan_leaf I key v g i cnt em (x # rs)) (r, e) =
        run (mem_handler E) (scan_leaf I key v g (Suc i) (Suc cnt) em rs) (r, e)"
      using False x read_item_run [OF assms(1) x(1) assms(2), of E e]
      by (simp add: run_bind with_page_def Let_def item_at_def [symmetric] s_item_of_def [symmetric] key_eq_iff)
    then show ?thesis
      using False IH by (intro exI [of _ em']) (auto split: option.splits simp: Suc_diff_le nth_Cons' Suc_le_eq)
  qed
qed (simp split: option.split)

lemma scan_present:
  assumes "rm_ok r" and "sherman_ok (s_cfg I)" and "length key = KEY_SIZE (s_cfg I)"
    and "\<forall>y \<in> set (filter (\<lambda>e. \<not> s_is_empty e) rs). s_entry_ok (s_cfg I) r y"
    and "distinct (map (\<lambda>y. item_key (s_item_of (s_cfg I) r y)) (filter (\<lambda>e. \<not> s_is_empty e) rs))"
    and "x \<in> set rs" and "\<not> s_is_empty x" and "item_key (s_item_of (s_cfg I) r x) = key"
  shows "run (mem_handler E) (scan_leaf I key v g i cnt em rs) (r, e) =
    run (mem_handler E) (bind (rdma_write_object (s_kv_ptr x) (enc_item ((s_item_of (s_cfg I) r x)\<lparr>item_value := v\<rparr>)))
      (\<lambda>_. bind (unlock_address I g) (\<lambda>_. Ret None))) (r, e)"
  using assms(4-6)
proof (induction rs arbitrary: i cnt em)
  case (Cons y rs)
  show ?case
  proof (cases "s_is_empty y")
    case True
    then show ?thesis using Cons assms(7) by auto
  next
    case False
    have y: "rm_valid r (s_kv_ptr y) (sizeof_KVItem (s_cfg I))" "s_fingerprint y = Fingerprint_of_key (item_key (s_item_of (s_cfg I) r y))"
      using Cons.prems(1) False by (auto simp: s_entry_ok_def)
    have len: "length (item_key (s_item_of (s_cfg I) r y)) = length key"
      using length_item_key_at [OF y(1)] assms(3) by (simp add: s_item_of_def)
    note rd = read_item_run [OF assms(1) y(1) assms(2), of E e]
    show ?thesis
    proof (cases "y = x")
      case True
      then show ?thesis
        using False y rd len assms(8)
        by (simp add: run_bind with_page_def Let_def item_at_def [symmetric] s_item_of_def [symmetric] key_eq_iff)
    next
      case ne: False
      then have "x \<in> set rs" using Cons.prems(3) by simp
      then have "item_key (s_item_of (s_cfg I) r y) \<noteq> key" using Cons.prems(2) False assms(7,8) by auto
      then have "run (mem_handler E) (scan_leaf I key v g i cnt em (y # rs)) (r, e) =
          run (mem_handler E) (scan_leaf I key v g (Suc i) (Suc cnt) em rs) (r, e)"
        using False rd len
        by (simp add: run_bind with_page_def Let_def item_at_def [symmetric] s_item_of_def [symmetric] key_eq_iff)
      then show ?thesis using Cons.IH [of "Suc i" "Suc cnt" em] Cons.prems(1,2) \<open>x \<in> set rs\<close> False by simp
    qed
  qed
qed simp

subsection \<open>Locking a page\<close>

locale sequential_locks =
  fixes E :: "('e, ShermanCacheEntry) env_ops"
    and idle held :: "GlobalAddress \<Rightarrow> 'e \<Rightarrow> bool"
  assumes acquire: "idle g e \<Longrightarrow> \<exists>e'. e_local E LAcquire g e = Inr (False, e') \<and> held g e'"
    and ask: "held g e \<Longrightarrow> e_local E LCanHandOver g e = Inr (False, e)"
    and release: "held g e \<Longrightarrow> \<exists>e'. e_local E LRelease g e = Inr (False, e')"
    and alloc_keeps: "held g e \<Longrightarrow> e_alloc E n e = Inr (off, e') \<Longrightarrow> held g e'"
begin

lemma try_lock_run:
  assumes "rm_ok r" and "rm_valid r g 8" and "rm_load64 r g = 0" and "0 < s_fuel I" and "s_has_locks I \<Longrightarrow> idle g e"
  shows "\<exists>e'. run (mem_handler E) (try_lock_address I g) (r, e) = Inr (True, (rm_store r g (bytes_of_u64 (s_tag I)), e')) \<and>
    (if s_has_locks I then e_local E LAcquire g e = Inr (False, e') \<and> held g e' else e' = e)"
proof -
  obtain f where f: "s_fuel I = Suc f" using assms(4) by (cases "s_fuel I") auto
  have remote: "run (mem_handler E) (lock_loop (s_fuel I) (s_tag I) g 0 0) (r, e') = Inr (True, (rm_store r g (bytes_of_u64 (s_tag I)), e'))" for e'
    using assms(1-3) by (simp add: f mem_run assert_then_def)
  show ?thesis
  proof (cases "s_has_locks I")
    case True
    then obtain e' where "e_local E LAcquire g e = Inr (False, e')" "held g e'" using acquire assms(5) by blast
    then show ?thesis using True remote by (simp add: try_lock_address_def mem_run s_track_def Let_def)
  qed (use remote in \<open>simp add: try_lock_address_def\<close>)
qed

lemma lock_and_read_run:
  assumes "rm_ok r" and "rm_valid r g 1024" and "rm_load64 r g = 0" and "0 < s_fuel I" and "s_has_locks I \<Longrightarrow> idle g e"
  shows "\<exists>e'. run (mem_handler E) (lock_and_read_page I g g page_bytes) (r, e) =
      Inr (rm_load (rm_store r g (bytes_of_u64 (s_tag I))) g 1024, (rm_store r g (bytes_of_u64 (s_tag I)), e')) \<and>
    (if s_has_locks I then e_local E LAcquire g e = Inr (False, e') \<and> held g e' else e' = e)"
proof -
  have v: "rm_valid r g 8" using rm.valid_mono [OF assms(2)] by simp
  then have "rm_ok (rm_store r g (bytes_of_u64 (s_tag I)))" "rm_valid (rm_store r g (bytes_of_u64 (s_tag I))) g 1024"
    using assms(1,2) rm_ok_store rm.valid_store [of r g "bytes_of_u64 (s_tag I)"] by auto
  then show ?thesis
    using try_lock_run [OF assms(1) v assms(3,4), of e] assms(5)
    by (auto simp: lock_and_read_page_def run_bind mem_run assert_then_def with_page_def)
qed

lemma unlock_run:
  assumes "rm_ok r" and "rm_valid r g 8" and "s_has_locks I \<Longrightarrow> held g e"
  shows "\<exists>e'. run (mem_handler E) (unlock_address I g) (r, e) = Inr ((), (rm_store r g (bytes_of_u64 0), e'))"
proof -
  have remote: "run (mem_handler E) (bind (rdma_cas_release_lock g) (\<lambda>_. Ret ())) (r, e') = Inr ((), (rm_store r g (bytes_of_u64 0), e'))" for e'
    using assms(1,2) by (simp add: rdma_cas_release_lock_def mem_run)
  show ?thesis
  proof (cases "s_has_locks I")
    case True
    then obtain e' where "e_local E LRelease g e = Inr (False, e')" using release assms(3) by blast
    then show ?thesis using True remote by (simp add: unlock_address_def mem_run Let_def)
  qed (use remote in \<open>simp add: unlock_address_def\<close>)
qed

lemma write_unlock_run:
  assumes "rm_ok r" and "rm_valid r a (length bs)" and "rm_valid r g 8" and "s_has_locks I \<Longrightarrow> held g e"
  shows "\<exists>e'. run (mem_handler E) (write_page_and_unlock I bs a g) (r, e) =
    Inr ((), (rm_store (rm_store r a bs) g (bytes_of_u64 0), e'))"
proof -
  have len: "unat (of_nat (length bs) :: u64) = length bs"
  proof -
    let ?mem = "r ! unat (server_index a)"
    have "?mem \<in> set r" and "length bs \<le> length ?mem" using assms(2) by (auto simp: rm_valid_def)
    then have "length bs < 2 ^ 64" using assms(1) by (auto simp: rm_ok_def mem_ok_def)
    then show ?thesis by (simp add: unat_of_nat)
  qed
  have batch: "run (mem_handler E) (PerformBatch [WriteOp a (Some bs) (of_nat (length bs)), WriteOp g (Some (bytes_of_u64 0)) 8]
      (\<lambda>(ok, outs). assert_then ok p)) (r, e) = run (mem_handler E) p (rm_store (rm_store r a bs) g (bytes_of_u64 0), e)" for p
    using assms(1-3) len by (simp add: mem_run assert_then_def)
  show ?thesis
  proof (cases "s_has_locks I")
    case True
    then have h: "held g e" using assms(4) by simp
    then obtain e' where "e_local E LRelease g e = Inr (False, e')" using release by blast
    then show ?thesis
      using True ask [OF h] batch [of "LocalLock LRelease g (\<lambda>_. Ret ())"]
      by (simp add: write_page_and_unlock_def Let_def mem_run del: run.simps(4))
  qed (use batch [of "Ret ()"] in \<open>simp add: write_page_and_unlock_def Let_def del: run.simps(4)\<close>)
qed

end

subsection \<open>Inserting into a leaf\<close>

lemma changes_weaken:
  assumes "changes r r' xs" and "set xs \<subseteq> set ys"
  shows "changes r r' ys"
  by (rule changes_mono [OF assms(1)]) (use assms(2) in blast)

lemma changes_lock:
  assumes "rm_small r" and "rm_valid r g 1024"
  shows "changes r (rm_store r g (bytes_of_u64 v)) [(g, 1024)]"
  using changes_sub_store [OF assms, of 0 "bytes_of_u64 v"] by simp

lemma s_leaf_facts:
  assumes "s_tree_inv I r n" and "length key = KEY_SIZE (s_cfg I)" and "key \<noteq> ArrayVar_max (KEY_SIZE (s_cfg I))"
  defines "l \<equiv> s_leaf_for I r n key"
  shows "s_leaf_page (s_cfg I) r l" "s_leaf_ok (s_cfg I) r (sleaf_at (s_cfg I) r l)" "rm_valid r l 1024" "rm_small r" "sherman_ok (s_cfg I)"
    "be_val (s_lowest (l_hdr (sleaf_at (s_cfg I) r l))) \<le> be_val key" "be_val key < be_val (s_highest (l_hdr (sleaf_at (s_cfg I) r l)))"
    "\<forall>x \<in> set (live_records (sleaf_at (s_cfg I) r l)). apart l 1024 (s_kv_ptr x) (sizeof_KVItem (s_cfg I))" "0 < s_fuel I" "rm_ok r"
proof -
  have ok: "s_tree_ok I r n" and ap: "regions_apart (s_footprint I r n)"
    and lok: "\<forall>l \<in> set (s_leaves I r n). s_leaf_ok (s_cfg I) r (sleaf_at (s_cfg I) r l)"
    using assms(1) by (simp_all add: s_tree_inv_def)
  have mem: "l \<in> set (s_leaves I r n)" using s_leaf_for_leaves [OF ok] by (simp add: l_def)
  have t: "tree (s_view (s_cfg I) r) (s_root I r) n (ArrayVar_min (KEY_SIZE (s_cfg I))) (ArrayVar_max (KEY_SIZE (s_cfg I)))"
    using ok by (simp add: s_tree_ok_def)
  show "s_leaf_page (s_cfg I) r l"
    "be_val (s_lowest (l_hdr (sleaf_at (s_cfg I) r l))) \<le> be_val key" "be_val key < be_val (s_highest (l_hdr (sleaf_at (s_cfg I) r l)))"
    using tree_leaf_bounds [OF t key_in_range [OF assms(2,3)]] by (simp_all add: l_def s_leaf_for_def)
  then show "rm_valid r l 1024" by (simp add: s_leaf_page_def)
  show "s_leaf_ok (s_cfg I) r (sleaf_at (s_cfg I) r l)" using lok mem by simp
  show "rm_small r" "sherman_ok (s_cfg I)" "0 < s_fuel I" "rm_ok r" using ok rm_small_ok by (auto simp: s_tree_ok_def)
  have "\<forall>y \<in> set (concat (map (\<lambda>l. s_leaf_items (s_cfg I) (sleaf_at (s_cfg I) r l)) (s_leaves I r n))). apart l 1024 (fst y) (snd y)"
    using ap mem by (auto simp: s_footprint_def regions_apart_append s_page_regions_def)
  then show "\<forall>x \<in> set (live_records (sleaf_at (s_cfg I) r l)). apart l 1024 (s_kv_ptr x) (sizeof_KVItem (s_cfg I))"
    using mem by (auto simp: s_leaf_items_def)
qed

lemma s_locked_page:
  assumes "s_tree_inv I r n" and "length key = KEY_SIZE (s_cfg I)" and "key \<noteq> ArrayVar_max (KEY_SIZE (s_cfg I))"
    and l_def: "l = s_leaf_for I r n key" and r1_def: "r1 = rm_store r l (bytes_of_u64 t)"
  shows "changes r r1 [(l, 1024)]" "rm_ok r1" "rm_small r1" "sleaf_at (s_cfg I) r1 l = (sleaf_at (s_cfg I) r l)\<lparr>l_lock := t\<rparr>"
    "rm_load64 r l = 0" "\<forall>x \<in> set (live_records (sleaf_at (s_cfg I) r l)). s_item_of (s_cfg I) r1 x = s_item_of (s_cfg I) r x \<and> s_entry_ok (s_cfg I) r1 x"
proof -
  note f = s_leaf_facts [OF assms(1-3), folded l_def]
  show ch: "changes r r1 [(l, 1024)]" unfolding r1_def by (rule changes_lock [OF f(4,3)])
  then show "rm_small r1" using changesD(2) f(4) by blast
  then show "rm_ok r1" by (rule rm_small_ok)
  show "sleaf_at (s_cfg I) r1 l = (sleaf_at (s_cfg I) r l)\<lparr>l_lock := t\<rparr>" "rm_load64 r l = 0"
    using page_lock_store(1,3) [OF f(5,4,3)] f(1) by (simp_all add: r1_def s_leaf_page_def)
  show "\<forall>x \<in> set (live_records (sleaf_at (s_cfg I) r l)). s_item_of (s_cfg I) r1 x = s_item_of (s_cfg I) r x \<and> s_entry_ok (s_cfg I) r1 x"
  proof
    fix x assume x: "x \<in> set (live_records (sleaf_at (s_cfg I) r l))"
    then have "s_entry_ok (s_cfg I) r x" using f(2) by (simp add: s_leaf_ok_def)
    moreover have "s_item_of (s_cfg I) r1 x = s_item_of (s_cfg I) r x"
      using item_same [OF ch] f(8) x calculation by (simp add: s_entry_ok_def)
    ultimately show "s_item_of (s_cfg I) r1 x = s_item_of (s_cfg I) r x \<and> s_entry_ok (s_cfg I) r1 x"
      using changesD(1) [OF ch] by (simp add: s_entry_ok_def)
  qed
qed

text \<open>The memory after the item of an existing record, or of a new one, has been written and the page unlocked.\<close>

lemma s_updated_memory:
  assumes inv: "s_tree_inv I r n" and key: "length key = KEY_SIZE (s_cfg I)" "key \<noteq> ArrayVar_max (KEY_SIZE (s_cfg I))"
    and val: "length val = VALUE_SIZE (s_cfg I)"
    and x: "x \<in> set (live_records (sleaf_at (s_cfg I) r (s_leaf_for I r n key)))" "item_key (s_item_of (s_cfg I) r x) = key"
    and l_def: "l = s_leaf_for I r n key"
    and r3_def: "r3 = rm_store (rm_store (rm_store r l (bytes_of_u64 t)) (s_kv_ptr x) (enc_item \<lparr>item_key = key, item_value = val\<rparr>)) l (bytes_of_u64 0)"
  shows "s_tree_inv I r3 n \<and> s_tree_map I r3 n = (s_tree_map I r n)(key \<mapsto> val)"
proof -
  let ?c = "s_cfg I" and ?sz = "sizeof_KVItem (s_cfg I)" and ?it = "\<lparr>item_key = key, item_value = val\<rparr>"
  note f = s_leaf_facts [OF inv key, folded l_def]
  define r1 where "r1 = rm_store r l (bytes_of_u64 t)"
  define r2 where "r2 = rm_store r1 (s_kv_ptr x) (enc_item ?it)"
  note k = s_locked_page [OF inv key l_def r1_def]
  have r3: "r3 = rm_store r2 l (bytes_of_u64 0)" by (simp add: r3_def r2_def r1_def)
  have wf: "item_wf ?c ?it" using key val by (simp add: item_wf_def)
  then have len: "length (enc_item ?it) = ?sz" by (rule length_enc_item)
  have xa: "rm_valid r (s_kv_ptr x) ?sz" "apart l 1024 (s_kv_ptr x) ?sz"
    using x(1) f(2,8) by (auto simp: s_leaf_ok_def s_entry_ok_def l_def)
  have v1: "rm_valid r1 (s_kv_ptr x) ?sz" "rm_valid r1 l 1024" using xa(1) f(3) changesD(1) [OF k(1)] by auto
  have c2: "changes r1 r2 [(s_kv_ptr x, ?sz)]" unfolding r2_def using changes_store [of r1 "s_kv_ptr x" "enc_item ?it"] v1 len by simp
  have s2: "rm_small r2" "rm_valid r2 l 1024" "rm_valid r2 (s_kv_ptr x) ?sz" using k(3) v1 changesD(1,2) [OF c2] by auto
  have c3: "changes r2 r3 [(l, 1024)]" unfolding r3 by (rule changes_lock [OF s2(1,2)])
  have ch: "changes r r3 [(l, 1024), (s_kv_ptr x, ?sz)]"
    by (rule changes_weaken [OF changes_trans [OF changes_trans [OF k(1) c2] c3]]) simp
  have p2: "sleaf_at ?c r2 l = (sleaf_at ?c r l)\<lparr>l_lock := t\<rparr>"
    using page_same(1) [OF c2 v1(2)] xa(2) k(4) by (simp add: apart_commute)
  have p3: "sleaf_at ?c r3 l = sleaf_at ?c r l"
    using page_lock_store(1) [OF f(5) s2(1,2), of 0] p2 f(1) by (simp add: r3 s_leaf_page_def)
  have it: "s_item_of ?c r3 x = ?it"
  proof -
    have "s_item_of ?c r2 x = ?it" using item_at_store [OF v1(1) wf] by (simp add: s_item_of_def r2_def)
    then show ?thesis using item_same [OF c3 s2(3)] xa(2) by simp
  qed
  obtain xs ys where live: "live_records (sleaf_at ?c r l) = xs @ [x] @ ys" using x(1) by (metis append_Cons append_Nil l_def split_list)
  have fpx: "s_fingerprint x = Fingerprint_of_key key" using x f(2) by (auto simp: s_leaf_ok_def s_entry_ok_def l_def)
  show ?thesis
    using s_tree_put [OF inv l_def refl ch p3 refl _ _ live live refl xa(1) it fpx]
      f(1,2) x(2) by (simp add: s_leaf_page_def s_leaf_ok_def)
qed

lemma s_inserted_memory:
  assumes inv: "s_tree_inv I r n" and key: "length key = KEY_SIZE (s_cfg I)" "key \<noteq> ArrayVar_max (KEY_SIZE (s_cfg I))"
    and val: "length val = VALUE_SIZE (s_cfg I)" and absent: "s_tree_map I r n key = None"
    and j: "j < kLeafCardinality (s_cfg I)" "s_is_empty (l_records (sleaf_at (s_cfg I) r (s_leaf_for I r n key)) ! j)"
    and a: "a \<noteq> Null" "rm_valid r a (sizeof_KVItem (s_cfg I))" "\<forall>y \<in> set (s_footprint I r n). apart a (sizeof_KVItem (s_cfg I)) (fst y) (snd y)"
    and room: "Suc (length (live_records (sleaf_at (s_cfg I) r (s_leaf_for I r n key)))) < kLeafCardinality (s_cfg I)"
    and l_def: "l = s_leaf_for I r n key" and x_def: "x = \<lparr>s_fingerprint = Fingerprint_of_key key, s_kv_ptr = a\<rparr>"
    and r4_def: "r4 = rm_store (rm_store (rm_store (rm_store r l (bytes_of_u64 t)) a (enc_item \<lparr>item_key = key, item_value = val\<rparr>))
      (gaddr_add l (of_nat (s_record_offset (s_cfg I) j))) (enc_sleaf_entry x)) l (bytes_of_u64 0)"
  shows "s_tree_inv I r4 n \<and> s_tree_map I r4 n = (s_tree_map I r n)(key \<mapsto> val)"
proof -
  let ?c = "s_cfg I" and ?sz = "sizeof_KVItem (s_cfg I)" and ?it = "\<lparr>item_key = key, item_value = val\<rparr>"
  let ?ra = "gaddr_add l (of_nat (s_record_offset ?c j))"
  note f = s_leaf_facts [OF inv key, folded l_def]
  define p where "p = sleaf_at ?c r l"
  define r1 where "r1 = rm_store r l (bytes_of_u64 t)"
  define r2 where "r2 = rm_store r1 a (enc_item ?it)"
  define r3 where "r3 = rm_store r2 ?ra (enc_sleaf_entry x)"
  note k = s_locked_page [OF inv key l_def r1_def]
  have r4: "r4 = rm_store r3 l (bytes_of_u64 0)" by (simp add: r4_def r3_def r2_def r1_def)
  have wf: "item_wf ?c ?it" using key val by (simp add: item_wf_def)
  then have len: "length (enc_item ?it) = ?sz" by (rule length_enc_item)
  have ok: "s_tree_ok I r n" using inv by (simp add: s_tree_inv_def)
  have "(l, 1024) \<in> set (s_footprint I r n)"
    using s_leaf_for_leaves [OF ok, of key] by (auto simp: s_footprint_def s_page_regions_def l_def)
  then have al: "apart a ?sz l 1024" using a(3) by fastforce
  have v1: "rm_valid r1 a ?sz" "rm_valid r1 l 1024" using a(2) f(3) changesD(1) [OF k(1)] by auto
  have c2: "changes r1 r2 [(a, ?sz)]" unfolding r2_def using changes_store [of r1 a "enc_item ?it"] v1 len by simp
  have s2: "rm_small r2" "rm_valid r2 l 1024" "rm_valid r2 a ?sz" using k(3) v1 changesD(1,2) [OF c2] by auto
  have fits: "s_record_offset ?c j + length (enc_sleaf_entry x) \<le> 1024" "0 < length (enc_sleaf_entry x)"
    using record_in_page [OF f(5) j(1)] by (simp_all add: sizeof_SLeafEntry_def)
  have c3: "changes r2 r3 [(l, 1024)]" unfolding r3_def by (rule changes_sub_store [OF s2(1,2) fits])
  have s3: "rm_small r3" "rm_valid r3 l 1024" "rm_valid r3 a ?sz" using s2 changesD(1,2) [OF c3] by auto
  have c4: "changes r3 r4 [(l, 1024)]" unfolding r4 by (rule changes_lock [OF s3(1,2)])
  have ch: "changes r r4 [(l, 1024), (a, ?sz)]"
    by (rule changes_weaken [OF changes_trans [OF changes_trans [OF changes_trans [OF k(1) c2] c3] c4]]) simp
  have "sleaf_at ?c r2 l = p\<lparr>l_lock := t\<rparr>" using page_same(1) [OF c2 v1(2)] al k(4) by (simp add: p_def)
  then have "sleaf_at ?c r3 l = p\<lparr>l_lock := t, l_records := (l_records p)[j := x]\<rparr>"
    using record_store(1) [OF f(5) s2(1,2) j(1), of x] by (simp add: r3_def)
  then have p4: "sleaf_at ?c r4 l = p\<lparr>l_records := (l_records p)[j := x]\<rparr>"
    using page_lock_store(1) [OF f(5) s3(1,2), of 0] f(1) by (simp add: r4 s_leaf_page_def p_def)
  have it: "s_item_of ?c r4 x = ?it"
  proof -
    have kx: "s_kv_ptr x = a" by (simp add: x_def)
    have "s_item_of ?c r2 x = ?it" using item_at_store [OF v1(1) wf] by (simp add: s_item_of_def r2_def kx)
    moreover have "s_item_of ?c r3 x = s_item_of ?c r2 x" by (rule item_same [OF c3]) (use s2 al kx in \<open>auto simp: apart_commute\<close>)
    moreover have "s_item_of ?c r4 x = s_item_of ?c r3 x" by (rule item_same [OF c4]) (use s3 al kx in \<open>auto simp: apart_commute\<close>)
    ultimately show ?thesis by simp
  qed
  have jl: "j < length (l_records p)" "s_is_empty (l_records p ! j)" "\<not> s_is_empty x"
    using j a(1) by (simp_all add: p_def sleaf_at_def l_def x_def s_is_empty_def)
  obtain xs ys where live: "live_records p = xs @ [] @ ys" "live_records (p\<lparr>l_records := (l_records p)[j := x]\<rparr>) = xs @ [x] @ ys"
    using live_records_update [OF jl] by auto
  have old: "[] = [] \<and> s_leaf_map ?c r p key = None \<and> (\<forall>y \<in> set (s_footprint I r n). apart a ?sz (fst y) (snd y)) \<or>
      (\<exists>e. [] = [e] \<and> s_kv_ptr e = a \<and> item_key (s_item_of ?c r e) = key)"
    using absent a(3) by (simp add: s_tree_map_def p_def l_def)
  have "length (live_records (p\<lparr>l_records := (l_records p)[j := x]\<rparr>)) < kLeafCardinality ?c"
    using live room by (simp add: p_def l_def)
  then show ?thesis
    using s_tree_put [OF inv l_def p_def ch p4 _ _ _ live _ a(2) it _ _ old] f(1) by (simp add: s_leaf_page_def p_def l_check_consistent_def x_def)
qed

context sequential_locks
begin

lemma insert_to_leaf_prefix:
  assumes inv: "s_tree_inv I r n" and key: "length key = KEY_SIZE (s_cfg I)" "key \<noteq> ArrayVar_max (KEY_SIZE (s_cfg I))"
    and l: "l = s_leaf_for I r n key" and r1: "r1 = rm_store r l (bytes_of_u64 (s_tag I))" and idle: "s_has_locks I \<Longrightarrow> idle l e"
  shows "\<exists>e1. run (mem_handler E) (insert_to_leaf (Suc m) I l key val root_addr 0 False path) (r, e) =
      run (mem_handler E) (bind (scan_leaf I key val l 0 0 None (l_records (sleaf_at (s_cfg I) r l)))
        (insert_record I l key val root_addr 0 ((sleaf_at (s_cfg I) r l)\<lparr>l_lock := s_tag I\<rparr>) path)) (r1, e1) \<and>
    (if s_has_locks I then e_local E LAcquire l e = Inr (False, e1) \<and> held l e1 else e1 = e)"
proof -
  let ?c = "s_cfg I" and ?p = "sleaf_at (s_cfg I) r l"
  note f = s_leaf_facts [OF inv key, folded l] and k = s_locked_page [OF inv key l r1]
  obtain e1 where e1: "run (mem_handler E) (lock_and_read_page I l l page_bytes) (r, e) = Inr (rm_load r1 l 1024, (r1, e1))"
    "if s_has_locks I then e_local E LAcquire l e = Inr (False, e1) \<and> held l e1 else e1 = e"
    using lock_and_read_run [OF f(10,3) k(5) f(9), of e] idle unfolding r1 by blast
  have page: "dec_sleaf ?c (rm_load r1 l 1024) = ?p\<lparr>l_lock := s_tag I\<rparr>" using k(4) by (simp add: sleaf_at_def kLeafPageSize_def)
  have "sleaf_wf ?c ?p" using page_at_wf(2) [OF f(5,3)] .
  then have cmp: "key_ge key (s_lowest (l_hdr ?p))" "\<not> key_ge key (s_highest (l_hdr ?p))"
    using f(6,7) key by (simp_all add: key_ge_iff sleaf_wf_def sheader_wf_def)
  show ?thesis
    using e1 f(1) cmp by (intro exI [of _ e1]) (simp add: run_bind page Let_def assert_then_def s_leaf_page_def l_check_consistent_def)
qed

lemma insert_to_leaf_update:
  assumes inv: "s_tree_inv I r n" and key: "length key = KEY_SIZE (s_cfg I)" "key \<noteq> ArrayVar_max (KEY_SIZE (s_cfg I))"
    and val: "length val = VALUE_SIZE (s_cfg I)" and l: "l = s_leaf_for I r n key" and idle: "s_has_locks I \<Longrightarrow> idle l e"
    and present: "s_tree_map I r n key \<noteq> None"
  shows "\<exists>r' e'. run (mem_handler E) (insert_to_leaf (Suc m) I l key val root_addr 0 False path) (r, e) = Inr (True, (r', e')) \<and>
    s_tree_inv I r' n \<and> s_tree_map I r' n = (s_tree_map I r n)(key \<mapsto> val)"
proof -
  let ?c = "s_cfg I" and ?p = "sleaf_at (s_cfg I) r l"
  define r1 where "r1 = rm_store r l (bytes_of_u64 (s_tag I))"
  note f = s_leaf_facts [OF inv key, folded l] and k = s_locked_page [OF inv key l r1_def]
  obtain x where x: "x \<in> set (live_records ?p)" "item_key (s_item_of ?c r x) = key"
    using present map_of_SomeD by (fastforce simp: s_tree_map_def s_leaf_map_def item_pair_def l)
  then have xr: "x \<in> set (l_records ?p)" "\<not> s_is_empty x" by (auto simp: live_records_def)
  have it: "(s_item_of ?c r1 x)\<lparr>item_value := val\<rparr> = \<lparr>item_key = key, item_value = val\<rparr>" "item_key (s_item_of ?c r1 x) = key" using x k(6) by auto
  have live: "\<forall>y \<in> set (filter (\<lambda>e. \<not> s_is_empty e) (l_records ?p)). s_entry_ok ?c r1 y"
    "distinct (map (\<lambda>y. item_key (s_item_of ?c r1 y)) (filter (\<lambda>e. \<not> s_is_empty e) (l_records ?p)))"
  proof -
    have same: "map (\<lambda>y. item_key (s_item_of ?c r1 y)) (live_records ?p) = map (\<lambda>y. item_key (s_item_of ?c r y)) (live_records ?p)" using k(6) by simp
    have "distinct (map (\<lambda>y. item_key (s_item_of ?c r y)) (live_records ?p))" using f(2) by (simp add: s_leaf_ok_def)
    then show "distinct (map (\<lambda>y. item_key (s_item_of ?c r1 y)) (filter (\<lambda>e. \<not> s_is_empty e) (l_records ?p)))"
      unfolding live_records_def [symmetric] by (simp only: same)
  qed (use k(6) in \<open>simp add: live_records_def\<close>)
  obtain e1 where e1: "run (mem_handler E) (insert_to_leaf (Suc m) I l key val root_addr 0 False path) (r, e) =
      run (mem_handler E) (bind (scan_leaf I key val l 0 0 None (l_records ?p))
        (insert_record I l key val root_addr 0 (?p\<lparr>l_lock := s_tag I\<rparr>) path)) (r1, e1)"
    "s_has_locks I \<Longrightarrow> held l e1"
    using insert_to_leaf_prefix [OF inv key l r1_def idle, of m val root_addr path] by (auto split: if_splits)
  define r2 where "r2 = rm_store r1 (s_kv_ptr x) (enc_item \<lparr>item_key = key, item_value = val\<rparr>)"
  have v: "rm_valid r1 (s_kv_ptr x) (length (enc_item \<lparr>item_key = key, item_value = val\<rparr>))"
    using x(1) k(6) length_enc_item [of ?c "\<lparr>item_key = key, item_value = val\<rparr>"] key val by (auto simp: s_entry_ok_def item_wf_def)
  have r2: "rm_ok r2" "rm_valid r2 l 8"
    using rm_ok_store [OF v] k(2) rm.valid_store [OF v] changesD(1) [OF k(1)] rm.valid_mono [OF f(3), of 8] by (auto simp: r2_def)
  obtain e2 where e2: "run (mem_handler E) (unlock_address I l) (r2, e1) = Inr ((), (rm_store r2 l (bytes_of_u64 0), e2))"
    using unlock_run [OF r2 e1(2)] by blast
  have "run (mem_handler E) (scan_leaf I key val l 0 0 None (l_records ?p)) (r1, e1) = Inr (None, (rm_store r2 l (bytes_of_u64 0), e2))"
    unfolding scan_present [OF k(2) f(5) key(1) live xr it(2)] it(1)
    using rdma_write_object_run [OF k(2) v, of E e1] e2 by (simp add: run_bind r2_def)
  then have "run (mem_handler E) (insert_to_leaf (Suc m) I l key val root_addr 0 False path) (r, e) = Inr (True, (rm_store r2 l (bytes_of_u64 0), e2))"
    unfolding e1(1) by (simp add: run_bind insert_record_def)
  moreover have "s_tree_inv I (rm_store r2 l (bytes_of_u64 0)) n \<and> s_tree_map I (rm_store r2 l (bytes_of_u64 0)) n = (s_tree_map I r n)(key \<mapsto> val)"
    using x by (intro s_updated_memory [OF inv key val _ _ l]) (auto simp: r2_def r1_def l)
  ultimately show ?thesis by blast
qed

lemma insert_to_leaf_fresh:
  assumes inv: "s_tree_inv I r n" and key: "length key = KEY_SIZE (s_cfg I)" "key \<noteq> ArrayVar_max (KEY_SIZE (s_cfg I))"
    and val: "length val = VALUE_SIZE (s_cfg I)" and l: "l = s_leaf_for I r n key" and idle: "s_has_locks I \<Longrightarrow> idle l e"
    and absent: "s_tree_map I r n key = None"
    and room: "Suc (length (live_records (sleaf_at (s_cfg I) r l))) < kLeafCardinality (s_cfg I)"
    and alloc: "\<And>e1. if s_has_locks I then e_local E LAcquire l e = Inr (False, e1) else e1 = e \<Longrightarrow> \<exists>e2. e_alloc E (s_item_bytes I) e1 = Inr (off, e2)"
    and a: "a = GlobalAddress_raw off" "a \<noteq> Null" "rm_valid r a (sizeof_KVItem (s_cfg I))"
      "\<forall>y \<in> set (s_footprint I r n). apart a (sizeof_KVItem (s_cfg I)) (fst y) (snd y)"
  shows "\<exists>r' e'. run (mem_handler E) (insert_to_leaf (Suc m) I l key val root_addr 0 False path) (r, e) = Inr (True, (r', e')) \<and>
    s_tree_inv I r' n \<and> s_tree_map I r' n = (s_tree_map I r n)(key \<mapsto> val)"
proof -
  let ?c = "s_cfg I" and ?p = "sleaf_at (s_cfg I) r l" and ?it = "\<lparr>item_key = key, item_value = val\<rparr>"
  let ?x = "\<lparr>s_fingerprint = Fingerprint_of_key key, s_kv_ptr = a\<rparr>"
  define r1 where "r1 = rm_store r l (bytes_of_u64 (s_tag I))"
  note f = s_leaf_facts [OF inv key, folded l] and k = s_locked_page [OF inv key l r1_def]
  obtain e1 where e1: "run (mem_handler E) (insert_to_leaf (Suc m) I l key val root_addr 0 False path) (r, e) =
      run (mem_handler E) (bind (scan_leaf I key val l 0 0 None (l_records ?p))
        (insert_record I l key val root_addr 0 (?p\<lparr>l_lock := s_tag I\<rparr>) path)) (r1, e1)"
    "if s_has_locks I then e_local E LAcquire l e = Inr (False, e1) \<and> held l e1 else e1 = e"
    using insert_to_leaf_prefix [OF inv key l r1_def idle, of m val root_addr path] by blast
  have "if s_has_locks I then e_local E LAcquire l e = Inr (False, e1) else e1 = e" using e1(2) by simp
  then obtain e2 where e2: "e_alloc E (s_item_bytes I) e1 = Inr (off, e2)" using alloc by blast
  have held: "s_has_locks I \<Longrightarrow> held l e2" using alloc_keeps [OF _ e2] e1(2) by simp
  have keys: "\<forall>y \<in> set (filter (\<lambda>e. \<not> s_is_empty e) (l_records ?p)). s_entry_ok ?c r1 y \<and> item_key (s_item_of ?c r1 y) \<noteq> key"
  proof -
    have "key \<notin> fst ` set (map (\<lambda>e. item_pair (s_item_of ?c r e)) (live_records ?p))"
      using absent by (simp add: s_tree_map_def s_leaf_map_def map_of_eq_None_iff l)
    then show ?thesis using k(6) by (auto simp: live_records_def item_pair_def image_image)
  qed
  obtain em where em': "run (mem_handler E) (scan_leaf I key val l 0 0 None (l_records ?p)) (r1, e1) =
      Inr (Some (0 + length (filter (\<lambda>e. \<not> s_is_empty e) (l_records ?p)), em), (r1, e1)) \<and>
      (case em of None \<Rightarrow> (None :: nat option) = None \<and> (\<forall>x \<in> set (l_records ?p). \<not> s_is_empty x)
        | Some j \<Rightarrow> None = Some j \<or> 0 \<le> j \<and> j - 0 < length (l_records ?p) \<and> s_is_empty (l_records ?p ! (j - 0)))"
    using scan_absent [OF k(2) f(5) key(1) keys, of E val l 0 0 None e1] by (elim exE)
  then have scan: "run (mem_handler E) (scan_leaf I key val l 0 0 None (l_records ?p)) (r1, e1) = Inr (Some (length (live_records ?p), em), (r1, e1))"
    by (simp add: live_records_def)
  have em: "em = None \<Longrightarrow> \<forall>x \<in> set (l_records ?p). \<not> s_is_empty x"
      "em = Some j \<Longrightarrow> j < length (l_records ?p) \<and> s_is_empty (l_records ?p ! j)" for j
    using conjunct2 [OF em'] by auto
  have lenr: "length (l_records ?p) = kLeafCardinality ?c" by (simp add: sleaf_at_def)
  have "em \<noteq> None"
  proof
    assume "em = None"
    then have "live_records ?p = l_records ?p" using em(1) by (simp add: live_records_def)
    then show False using room lenr by simp
  qed
  then obtain j where j: "em = Some j" "j < kLeafCardinality ?c" "s_is_empty (l_records ?p ! j)" using em(2) lenr by auto
  define r2 where "r2 = rm_store r1 a (enc_item ?it)"
  have va: "rm_valid r1 a (length (enc_item ?it))"
    using a(3) changesD(1) [OF k(1)] length_enc_item [of ?c ?it] key val by (auto simp: item_wf_def)
  have r2: "rm_small r2" "rm_valid r2 l 1024" "rm_ok r2"
    using rm_small_store [OF va] k(3) rm.valid_store [OF va] changesD(1) [OF k(1)] f(3) rm_small_ok by (auto simp: r2_def)
  have rec: "rm_valid r2 (gaddr_add l (of_nat (s_record_offset ?c j))) (length (enc_sleaf_entry ?x))" "rm_valid r2 l 8"
    using record_store(2) [OF f(5) r2(1,2) j(2)] rm.valid_mono [OF r2(2), of 8] by simp_all
  define r4 where "r4 = rm_store (rm_store r2 (gaddr_add l (of_nat (s_record_offset ?c j))) (enc_sleaf_entry ?x)) l (bytes_of_u64 0)"
  obtain e3 where e3: "run (mem_handler E) (write_page_and_unlock I (enc_sleaf_entry ?x) (gaddr_add l (of_nat (s_record_offset ?c j))) l) (r2, e2) = Inr ((), (r4, e3))"
    using write_unlock_run [OF r2(3) rec held] unfolding r4_def by blast
  have "run (mem_handler E) (insert_to_leaf (Suc m) I l key val root_addr 0 False path) (r, e) = Inr (True, (r4, e3))"
    unfolding e1(1) using scan j(1) room e2 e3 rdma_write_object_run [OF k(2) va, of E e2]
    by (simp add: a(1) [symmetric] run_bind insert_record_def assert_then_def mem_run r2_def [symmetric] Let_def)
  moreover have "s_tree_inv I r4 n \<and> s_tree_map I r4 n = (s_tree_map I r n)(key \<mapsto> val)"
    using j(2,3) room a absent by (intro s_inserted_memory [OF inv key val _ _ _ _ _ _ _ l refl]) (auto simp: r4_def r2_def r1_def l)
  ultimately show ?thesis by blast
qed

lemma insert_search_run:
  assumes t: "tree (s_view (s_cfg I) r) g n lo hi" "be_val lo \<le> be_val key" "be_val key < be_val hi"
    and ok: "rm_ok r" "sherman_ok (s_cfg I)" and key: "length key = KEY_SIZE (s_cfg I)" and cache: "\<not> s_has_cache I" and tracker: "s_has_tracker I"
    and leaf: "s_leaf_ok (s_cfg I) r (sleaf_at (s_cfg I) r (tree_leaf_for (s_view (s_cfg I) r) n g key))"
    and path: "n < length path" and fuel: "0 < s_fuel I" "n < m" and res: "sr_slibing res = Null"
  shows "\<exists>path'. run (mem_handler E) (insert_search m I key val root_addr again g res path) (r, e) =
    run (mem_handler E) (bind (insert_to_leaf (s_fuel I) I (tree_leaf_for (s_view (s_cfg I) r) n g key) key val root_addr 0 False path') (\<lambda>_. Ret True)) (r, e)"
  using t leaf path fuel(2) res
proof (induction n arbitrary: g lo hi m res path again)
  case 0
  obtain f where f: "s_fuel I = Suc f" using fuel(1) by (cases "s_fuel I") auto
  obtain m' where m: "m = Suc m'" using 0 by (cases m) auto
  have g: "s_leaf_page (s_cfg I) r g" and b: "lo = s_lowest (l_hdr (sleaf_at (s_cfg I) r g))" "hi = s_highest (l_hdr (sleaf_at (s_cfg I) r g))"
    using 0(1) by (auto elim: tree_0E)
  have "path \<noteq> []" using 0 by auto
  note step = search_node_leaf_run [OF ok key g _ _ _ this, of E f res e]
  show ?case
    using step 0 b tracker
    by (intro exI [of _ "path[0 := g]"]) (auto simp: m f run_bind Let_def s_track_unchecked_def mem_run simp del: insert_to_leaf.simps)
next
  case (Suc n)
  obtain f where f: "s_fuel I = Suc f" using fuel(1) by (cases "s_fuel I") auto
  obtain m' where m: "m = Suc m'" "n < m'" using Suc.prems by (cases m) auto
  let ?p = "sinternal_at (s_cfg I) r g"
  have g: "s_inner_page (s_cfg I) r (Suc n) g" and b: "lo = s_lowest (l_hdr (sleaf_at (s_cfg I) r g))" "hi = s_highest (l_hdr (sleaf_at (s_cfg I) r g))"
    using Suc.prems(1) by (auto elim: tree_SucE)
  obtain j where j: "route (s_separators ?p) (s_children ?p) key = s_children ?p ! j"
      "tree (s_view (s_cfg I) r) (s_children ?p ! j) n (tv_bounds (s_view (s_cfg I) r) g ! j) (tv_bounds (s_view (s_cfg I) r) g ! Suc j)"
      "be_val (tv_bounds (s_view (s_cfg I) r) g ! j) \<le> be_val key" "be_val key < be_val (tv_bounds (s_view (s_cfg I) r) g ! Suc j)"
    using tree_step [OF Suc.prems(1-3)] by auto
  have lvl: "unat (s_level (i_hdr ?p)) = Suc n" using g by (simp add: s_inner_page_def)
  then have l0: "s_level (i_hdr ?p) \<noteq> 0" and l1: "s_level (i_hdr ?p) = 1 \<longleftrightarrow> n = 0" by (auto simp: unat_eq_0 word_unat_eq_iff)
  note step = search_node_inner_run [OF ok key g cache Suc.prems(2,3) [unfolded b] Suc.prems(5), of E f res e]
  show ?case
  proof (cases "n = 0")
    case True
    then show ?thesis
      using step Suc.prems m j(1) l0 l1 tracker
      by (intro exI [of _ "path[Suc n := g]"])
         (auto simp: f run_bind Let_def s_track_unchecked_def mem_run assert_then_def simp del: insert_to_leaf.simps)
  next
    case False
    let ?res = "res\<lparr>sr_is_leaf := False, sr_level := s_level (i_hdr ?p), sr_next_level := s_children ?p ! j\<rparr>"
    have "run (mem_handler E) (insert_search m I key val root_addr again g res path) (r, e) =
        run (mem_handler E) (insert_search m' I key val root_addr True (s_children ?p ! j) ?res (path[Suc n := g])) (r, e)"
      using step Suc.prems m j(1) l0 l1 tracker False
      by (simp add: f run_bind Let_def s_track_unchecked_def mem_run assert_then_def del: insert_to_leaf.simps)
    then show ?thesis using Suc.IH [OF j(2-4), of "path[Suc n := g]" m' ?res True] Suc.prems(4-7) m j(1) by simp
  qed
qed

lemma sherman_insert_prefix:
  assumes inv: "s_tree_inv I r n" and key: "length key = KEY_SIZE (s_cfg I)" "key \<noteq> ArrayVar_max (KEY_SIZE (s_cfg I))"
    and cache: "\<not> s_has_cache I" and tracker: "s_has_tracker I"
  shows "\<exists>path'. run (mem_handler E) (sherman_insert I key val) (r, e) =
    run (mem_handler E) (bind (insert_to_leaf (s_fuel I) I (s_leaf_for I r n key) key val (s_root I r) 0 False path') (\<lambda>_. Ret True)) (r, e)"
proof -
  have ok: "s_tree_ok I r n" using inv by (simp add: s_tree_inv_def)
  have t: "tree (s_view (s_cfg I) r) (s_root I r) n (ArrayVar_min (KEY_SIZE (s_cfg I))) (ArrayVar_max (KEY_SIZE (s_cfg I)))"
    and p: "n < length before_operation" and ptr: "rm_valid r (s_root_offset_pointer I) 8" and m: "n < 1000000"
    using ok by (auto simp: s_tree_ok_def before_operation_def kMaxLevelOfTree_def)
  note f = s_leaf_facts [OF inv key]
  have "sr_slibing (SearchResult_init (s_cfg I)) = Null" by (simp add: SearchResult_init_def)
  from insert_search_run [OF t key_in_range [OF key] f(10,5) key(1) cache tracker f(2) [unfolded s_leaf_for_def] p f(9) m this]
  show ?thesis by (simp add: sherman_insert_def cache run_bind s_get_root_offset_run [OF f(10) ptr] s_leaf_for_def)
qed

lemma sherman_insert_run:
  assumes inv: "s_tree_inv I r n" and key: "length key = KEY_SIZE (s_cfg I)" "key \<noteq> ArrayVar_max (KEY_SIZE (s_cfg I))"
    and val: "length val = VALUE_SIZE (s_cfg I)" and flags: "\<not> s_has_cache I" "s_has_tracker I"
    and l: "l = s_leaf_for I r n key" and idle: "s_has_locks I \<Longrightarrow> idle l e"
    and fresh: "s_tree_map I r n key = None \<Longrightarrow>
      Suc (length (live_records (sleaf_at (s_cfg I) r l))) < kLeafCardinality (s_cfg I) \<and>
      (\<forall>e1. (if s_has_locks I then e_local E LAcquire l e = Inr (False, e1) else e1 = e) \<longrightarrow> (\<exists>e2. e_alloc E (s_item_bytes I) e1 = Inr (off, e2))) \<and>
      a \<noteq> Null \<and> rm_valid r a (sizeof_KVItem (s_cfg I)) \<and> (\<forall>y \<in> set (s_footprint I r n). apart a (sizeof_KVItem (s_cfg I)) (fst y) (snd y))"
    and a: "a = GlobalAddress_raw off"
  shows "\<exists>r' e'. run (mem_handler E) (sherman_insert I key val) (r, e) = Inr (True, (r', e')) \<and>
    s_tree_inv I r' n \<and> s_tree_map I r' n = (s_tree_map I r n)(key \<mapsto> val)"
proof -
  obtain f where f: "s_fuel I = Suc f" using s_leaf_facts(9) [OF inv key] by (cases "s_fuel I") auto
  obtain path where run: "run (mem_handler E) (sherman_insert I key val) (r, e) =
      run (mem_handler E) (bind (insert_to_leaf (Suc f) I l key val (s_root I r) 0 False path) (\<lambda>_. Ret True)) (r, e)"
    using sherman_insert_prefix [OF inv key flags, of val e] f l by auto
  have "\<exists>r' e'. run (mem_handler E) (insert_to_leaf (Suc f) I l key val (s_root I r) 0 False path) (r, e) = Inr (True, (r', e')) \<and>
      s_tree_inv I r' n \<and> s_tree_map I r' n = (s_tree_map I r n)(key \<mapsto> val)"
  proof (cases "s_tree_map I r n key = None")
    case True
    then show ?thesis using fresh by (intro insert_to_leaf_fresh [OF inv key val l idle True _ _ a]) auto
  next
    case False
    show ?thesis by (intro insert_to_leaf_update [OF inv key val l idle False])
  qed
  then show ?thesis unfolding run by (auto simp: run_bind)
qed

end

end
