(* ===== verification/Sherman_Map.thy ===== *)
theory Sherman_Map
  imports Sherman_Insert
begin

text \<open>
  The Sherman index as a map: the local locks of \<open>Local_Lock\<close> give what \<open>sequential_locks\<close> asks for,
  \<^verbatim>\<open>initialize\<close> creates the empty map, \<^verbatim>\<open>insert\<close> updates it and \<^verbatim>\<open>read\<close> returns it.
\<close>

subsection \<open>Uncontended local locks\<close>

definition lock_node :: "GlobalAddress \<Rightarrow> LocalLockManager \<Rightarrow> LocalLockNode" where
  "lock_node g m = local_locks m ! unat (get_lock_index g)"

definition lock_idle :: "GlobalAddress \<Rightarrow> LocalLockManager \<Rightarrow> bool" where
  "lock_idle g m \<longleftrightarrow> unat (get_lock_index g) < length (local_locks m) \<and>
     nxt (lock_node g m) = srv (lock_node g m) \<and> nxt (lock_node g m) < 2 ^ 32 - 1 \<and>
     \<not> handover_flags (lock_node g m) ! flag_slot (next_ticket (ticket_lock (lock_node g m)))"

definition lock_held :: "GlobalAddress \<Rightarrow> LocalLockManager \<Rightarrow> bool" where
  "lock_held g m \<longleftrightarrow> unat (get_lock_index g) < length (local_locks m) \<and> nxt (lock_node g m) = Suc (srv (lock_node g m))"

lemma nxt_flags [simp]: "nxt (nd\<lparr>handover_flags := fs\<rparr>) = nxt nd" "srv (nd\<lparr>handover_flags := fs\<rparr>) = srv nd"
  by (simp_all add: nxt_def srv_def)

lemma node_acquire_idle:
  assumes "nxt nd = srv nd" and "nxt nd < 2 ^ 32 - 1" and "\<not> handover_flags nd ! flag_slot (next_ticket (ticket_lock nd))"
  shows "\<exists>nd'. node_acquire nd = Inr (False, nd') \<and> nxt nd' = Suc (srv nd')"
proof -
  let ?nd = "nd\<lparr>ticket_lock := ticket_lock nd + 1\<rparr>"
  note n = take_ticket_counts [OF assms(2)]
  have "unat (next_ticket (ticket_lock nd)) = unat (current_serving (ticket_lock ?nd))"
    using n(2) assms(1) by (simp only: nxt_srv)
  then have "next_ticket (ticket_lock nd) = current_serving (ticket_lock nd + 1)" by (simp add: word_unat_eq_iff)
  then show ?thesis
    using n assms(1,3) by (simp add: node_acquire_def numeral_eq_Suc)
qed

lemma no_waiters:
  assumes "nxt nd = Suc (srv nd)"
  shows "waiters (ticket_lock nd) = 0"
proof -
  have "unat (next_ticket (ticket_lock nd)) = Suc (unat (current_serving (ticket_lock nd)))"
    using assms by (simp only: nxt_srv)
  then have "next_ticket (ticket_lock nd) = current_serving (ticket_lock nd) + 1"
    using unsigned_less [of "next_ticket (ticket_lock nd)", where 'a = nat] by (simp add: word_unat_eq_iff unat_word_ariths)
  then show ?thesis by (simp add: waiters_def)
qed

lemma node_release_alone:
  assumes "nxt nd = Suc (srv nd)"
  shows "\<exists>nd'. node_release nd = (False, nd')"
  using no_waiters [OF assms] by (simp add: node_release_def numeral_eq_Suc)

interpretation locks: sequential_locks "mgr_env Q MQ C" "\<lambda>g e. lock_idle g (me_locks e)" "\<lambda>g e. lock_held g (me_locks e)" for Q MQ C
proof unfold_locales
  fix g n off and e e' :: "('a, 'c, 'b) menv"
  show "\<exists>e'. e_local (mgr_env Q MQ C) LAcquire g e = Inr (False, e') \<and> lock_held g (me_locks e')" if "lock_idle g (me_locks e)"
    using node_acquire_idle [of "lock_node g (me_locks e)"] that
    by (auto simp: mgr_env_def lock_manager_call_def Let_def lock_idle_def lock_held_def lock_node_def)
  show "e_local (mgr_env Q MQ C) LCanHandOver g e = Inr (False, e)" if "lock_held g (me_locks e)"
    using no_waiters [of "lock_node g (me_locks e)"] that
    by (simp add: mgr_env_def lock_manager_call_def Let_def lock_held_def lock_node_def can_hand_over_def)
  show "\<exists>e'. e_local (mgr_env Q MQ C) LRelease g e = Inr (False, e')" if "lock_held g (me_locks e)"
    using node_release_alone [of "lock_node g (me_locks e)"] that
    by (auto simp: mgr_env_def lock_manager_call_def Let_def lock_held_def lock_node_def)
  show "lock_held g (me_locks e')" if "lock_held g (me_locks e)" "e_alloc (mgr_env Q MQ C) n e = Inr (off, e')"
    using that by (auto simp: mgr_env_def split: sum.splits prod.splits)
qed

subsection \<open>The empty index\<close>

definition s_root_page :: "Config \<Rightarrow> SLeafPage" where
  "s_root_page c = l_set_consistent (SLeafPage_init c 0)"

lemma s_root_page_facts:
  "live_records (s_root_page c) = []" "sleaf_wf c (s_root_page c)" "l_lock (s_root_page c) = 0" "l_check_consistent (s_root_page c)"
  "l_hdr (s_root_page c) = SHeader_init c 0"
  by (simp_all add: s_root_page_def l_set_consistent_def SLeafPage_init_def live_records_def SLeafEntry_init_def s_is_empty_def
      sleaf_wf_def sheader_wf_def SHeader_init_def length_ArrayVar l_check_consistent_def)

lemma leaf_cardinality_pos:
  assumes "sherman_ok c"
  shows "0 < kLeafCardinality c"
proof -
  have "2 * sizeof_SInternalEntry c \<le> kInternalCardinality c * sizeof_SInternalEntry c"
    using assms by (intro mult_le_mono1) (simp add: sherman_ok_def)
  then have "2 * sizeof_SInternalEntry c \<le> 1024 - sizeof_SHeader c - 2 - 8"
    using div_mult_le_nat [of "1024 - sizeof_SHeader c - 2 - 8" "sizeof_SInternalEntry c"]
    unfolding kInternalCardinality_def kInternalPageSize_def by linarith
  then have "11 \<le> 1024 - sizeof_SHeader c - 2 - 8" by (simp add: sizeof_SInternalEntry_def)
  then show ?thesis by (simp add: kLeafCardinality_def kLeafPageSize_def sizeof_SLeafEntry_def div_greater_zero_iff)
qed

lemma s_empty_tree:
  assumes c: "sherman_ok (s_cfg I)" and "rm_small r" and "0 < s_fuel I" and "rm_valid r (s_root_offset_pointer I) 8"
    and v: "rm_valid r (s_root I r) 1024" and page: "sleaf_at (s_cfg I) r (s_root I r) = s_root_page (s_cfg I)"
    and "apart (s_root_offset_pointer I) 8 (s_root I r) 1024"
  shows "s_tree_inv I r 0" and "s_tree_map I r 0 = Map.empty" and "s_leaf_for I r 0 k = s_root I r"
    and "s_footprint I r 0 = [(s_root_offset_pointer I, 8), (s_root I r, 1024)]"
proof -
  note f = s_root_page_facts [of "s_cfg I"]
  have leaf: "s_leaf_page (s_cfg I) r (s_root I r)" using v f by (simp add: s_leaf_page_def page SHeader_init_def)
  have card: "0 < kLeafCardinality (s_cfg I)" using leaf_cardinality_pos [OF c] .
  have "tree (s_view (s_cfg I) r) (s_root I r) 0 (ArrayVar_min (KEY_SIZE (s_cfg I))) (ArrayVar_max (KEY_SIZE (s_cfg I)))"
    using tree.leaf [of "s_view (s_cfg I) r" "s_root I r"] leaf by (simp add: page f SHeader_init_def)
  then have "s_tree_ok I r 0" using assms(1-4) by (simp add: s_tree_ok_def kMaxLevelOfTree_def)
  moreover show fp: "s_footprint I r 0 = [(s_root_offset_pointer I, 8), (s_root I r, 1024)]"
    by (simp add: s_footprint_def s_page_regions_def s_leaves_def s_leaf_items_def page f)
  ultimately show "s_tree_inv I r 0" using assms(7) card by (simp add: s_tree_inv_def s_leaves_def s_leaf_ok_def page f)
  show "s_leaf_for I r 0 k = s_root I r" by (simp add: s_leaf_for_def)
  show "s_tree_map I r 0 = Map.empty" by (simp add: fun_eq_iff s_tree_map_def s_leaf_for_def s_leaf_map_def page f)
qed

lemma s_initialize_run:
  assumes c: "sherman_ok (s_cfg I)" and ok: "rm_ok r"
    and alloc: "e_alloc E 8 e = Inr (ptr, e1)" "e_alloc E page_bytes e1 = Inr (off, e2)"
    and valid: "rm_valid r (GlobalAddress_raw ptr) 8" "rm_valid r (GlobalAddress_raw off) 1024"
    and apart: "apart (GlobalAddress_raw off) 1024 (GlobalAddress_raw ptr) 8" and zero: "rm_load64 r (GlobalAddress_raw ptr) = 0"
    and new: "I' = I\<lparr>s_root_offset_pointer := GlobalAddress_raw ptr\<rparr>"
  shows "\<exists>r'. run (mem_handler E) (s_initialize I) (r, e) = Inr ((True, I'), (r', e2)) \<and> s_root I' r' = GlobalAddress_raw off \<and>
    sleaf_at (s_cfg I) r' (GlobalAddress_raw off) = s_root_page (s_cfg I) \<and>
    rm_small r' = rm_small r \<and> (\<forall>g n. rm_valid r' g n = rm_valid r g n)"
proof -
  let ?p = "GlobalAddress_raw ptr" and ?g = "GlobalAddress_raw off" and ?c = "s_cfg I"
  let ?bs = "enc_sleaf ?c (s_root_page ?c)"
  have len: "length ?bs = 1024" using length_enc_sleaf [OF c s_root_page_facts(2)] by (simp add: kLeafPageSize_def)
  then have v: "rm_valid r ?g (length ?bs)" using valid(2) by simp
  define r1 where "r1 = rm_store r ?g ?bs"
  define r2 where "r2 = rm_store r1 ?p (bytes_of_u64 off)"
  have r1: "rm_ok r1" "\<And>g n. rm_valid r1 g n = rm_valid r g n"
    using v ok by (simp_all add: r1_def rm_ok_store rm_valid_store)
  have p1: "rm_load64 r1 ?p = 0"
    using rm_load_store_apart [OF v valid(1)] apart len zero by (simp add: r1_def rm_load64_def)
  have v1: "rm_valid r1 ?p (length (bytes_of_u64 off))" using valid(1) r1(2) by simp
  have "run (mem_handler E) (s_initialize I) (r, e) = Inr ((True, I'), (r2, e2))"
    using alloc valid(1) r1 p1 rdma_write_object_run [OF ok v, of E e2]
    by (simp add: s_initialize_def mem_run Let_def run_bind s_root_page_def [symmetric] r1_def [symmetric] r2_def new assert_then_def)
  moreover have "sleaf_at ?c r2 ?g = s_root_page ?c"
  proof -
    have "apart ?p 8 ?g 1024" using apart by (simp add: apart_commute)
    then have "sleaf_at ?c r2 ?g = sleaf_at ?c r1 ?g"
      using rm_load_store_apart [OF v1, of ?g 1024] valid(2) r1(2) by (simp add: sleaf_at_def r2_def kLeafPageSize_def)
    then show ?thesis using sleaf_at_store [of r ?g, OF _ c s_root_page_facts(2)] valid(2) by (simp add: r1_def kLeafPageSize_def)
  qed
  moreover have "s_root I' r2 = ?g" using rm.load_store_same [OF v1] by (simp add: s_root_def new rm_load64_def r2_def)
  moreover have "rm_small r2 = rm_small r" using rm_small_store [OF v1] rm_small_store [OF v] by (simp add: r1_def r2_def)
  ultimately show ?thesis using rm_valid_store [OF v1] r1(2) by (intro exI [of _ r2]) (simp add: r2_def)
qed

subsection \<open>A sample index\<close>

text \<open>A region of 4096 zero bytes; an environment without locks that hands out 64 and then 2048 after the root pointer.\<close>

definition s_sample_env :: "(nat, ShermanCacheEntry) env_ops" where
  "s_sample_env = \<lparr>e_alloc = (\<lambda>n e. Inr (of_nat e, 8 * e)), e_free = (\<lambda>n off e. e), e_rand = (\<lambda>e. (of_nat e, Suc e)),
     e_search = (\<lambda>key e. (None, e)), e_add = (\<lambda>lo hi x e. e), e_invalidate = (\<lambda>x e. e), e_enqueue = (\<lambda>i op g e. e),
     e_local = (\<lambda>c g e. Inr (False, e))\<rparr>"

definition s_sample_index :: "bool \<Rightarrow> ShermanIndex" where
  "s_sample_index locks = \<lparr>s_cfg = sample_config, s_root_offset_pointer = GlobalAddress_raw 8, s_has_cache = False, s_has_locks = locks,
     s_has_tracker = True, s_tag = 5, s_fuel = 10\<rparr>"

definition s_zeros :: rmemory where
  "s_zeros = [replicate 4096 0]"

definition s_sample_world :: "rmemory \<Rightarrow> (u64 list, unit, (SmoOp \<times> GlobalAddress) list) cworld" where
  "s_sample_world r = \<lparr>cw_mgr = RDMAManager_init (map (\<lambda>mem. \<lparr>ms_rdma = mem, next_offset = 0, allocated = {}\<rparr>) r) 0 0,
     cw_alloc = [of_nat (sizeof_KVItem sample_config) \<mapsto> \<lparr>slab_size = 8, num_slabs = 1, free_list = [2048]\<rparr>], cw_rr = 0, cw_clock = (\<lambda>_. 0),
     cw_rand = (\<lambda>_. 0), cw_cache = (), cw_queues = [], cw_locks = LocalLockManager_init 1 1\<rparr>"

definition s_no_cache :: "(unit, ShermanCacheEntry) cache_ops" where
  "s_no_cache = \<lparr>c_search = (\<lambda>key cs. (None, cs)), c_add = (\<lambda>lo hi x cs. cs), c_invalidate = (\<lambda>e cs. cs)\<rparr>"

lemma s_sample_simps [simp]:
  "s_cfg (s_sample_index b) = sample_config" "s_root_offset_pointer (s_sample_index b) = GlobalAddress_raw 8"
  "s_has_cache (s_sample_index b) = False" "s_has_locks (s_sample_index b) = b" "s_has_tracker (s_sample_index b)"
  "s_fuel (s_sample_index b) = 10" "fst (mgr_abs (s_sample_world r)) = r" "cw_locks (s_sample_world r) = LocalLockManager_init 1 1"
  by (simp_all add: s_sample_index_def s_sample_world_def mgr_abs_def rmem_def RDMAManager_init_def comp_def)

lemma s_sample_config: "sherman_ok sample_config" "kLeafCardinality sample_config = 90" "sizeof_KVItem sample_config = 2"
  "KEY_SIZE sample_config = 1" "VALUE_SIZE sample_config = 1"
  by (simp_all add: sherman_ok_def kInternalCardinality_def kLeafCardinality_def sizeof_SHeader_def kInternalPageSize_def
      kLeafPageSize_def sizeof_SInternalEntry_def sizeof_SLeafEntry_def sizeof_KVItem_def sample_config_def config_ok_def)

lemma s_sample_addresses:
  "unat (server_index (GlobalAddress_raw 8)) = 0" "unat (gaddr_offset (GlobalAddress_raw 8)) = 8"
  "unat (server_index (GlobalAddress_raw 64)) = 0" "unat (gaddr_offset (GlobalAddress_raw 64)) = 64"
  "unat (server_index (GlobalAddress_raw 2048)) = 0" "unat (gaddr_offset (GlobalAddress_raw 2048)) = 2048"
  "unat (get_lock_index (GlobalAddress_raw 64)) = 64" "GlobalAddress_raw 2048 \<noteq> Null" "[7] \<noteq> ArrayVar_max (KEY_SIZE sample_config)"
  by code_simp+

lemma s_zeros_facts:
  "rm_small s_zeros" "rm_valid s_zeros (GlobalAddress_raw 8) 8" "rm_valid s_zeros (GlobalAddress_raw 64) 1024"
  "apart (GlobalAddress_raw 64) 1024 (GlobalAddress_raw 8) 8" "rm_valid s_zeros (GlobalAddress_raw 2048) 2"
  "apart (GlobalAddress_raw 2048) 2 (GlobalAddress_raw 8) 8" "apart (GlobalAddress_raw 2048) 2 (GlobalAddress_raw 64) 1024"
  by (simp_all add: s_zeros_def rm_small_def rm_valid_def apart_def s_sample_addresses)

lemma s_zeros_root: "rm_load64 s_zeros (GlobalAddress_raw 8) = 0"
  by (simp add: rm_load64_def rm_load_def s_zeros_def s_sample_addresses bslice_def take_replicate numeral_eq_Suc)

subsection \<open>Through the manager of a compute server\<close>

lemma sherman_read_mgr:
  assumes "s_tree_inv I (fst (mgr_abs w)) n" and "\<not> s_has_cache I" and "length key = KEY_SIZE (s_cfg I)"
    and "key \<noteq> ArrayVar_max (KEY_SIZE (s_cfg I))" and "length path = kMaxLevelOfTree"
  shows "\<exists>w'. run (mgr_handler Q MQ C tid) (sherman_read I key path) w =
    Inr ((case s_tree_map I (fst (mgr_abs w)) n key of
        None \<Rightarrow> (False, None)
      | Some v \<Rightarrow> if v = ArrayVar_min (VALUE_SIZE (s_cfg I)) then (False, None) else (True, Some v)), w') \<and> mgr_abs w' = mgr_abs w"
proof (rule mgr.run_refines)
  have ok: "s_tree_ok I (fst (mgr_abs w)) n" using assms(1) by (simp add: s_tree_inv_def)
  then have leaf: "s_leaf_ok (s_cfg I) (fst (mgr_abs w)) (sleaf_at (s_cfg I) (fst (mgr_abs w)) (s_leaf_for I (fst (mgr_abs w)) n key))"
    using assms(1) s_leaf_for_leaves by (simp add: s_tree_inv_def)
  from sherman_read_run [OF ok assms(2-4) leaf assms(5), of _ "snd (mgr_abs w)"]
  show "run (mem_handler (mgr_env Q MQ C)) (sherman_read I key path) (mgr_abs w) = Inr ((case s_tree_map I (fst (mgr_abs w)) n key of
        None \<Rightarrow> (False, None)
      | Some v \<Rightarrow> if v = ArrayVar_min (VALUE_SIZE (s_cfg I)) then (False, None) else (True, Some v)), mgr_abs w)"
    by (simp add: s_visible_def)
qed

lemma sherman_insert_mgr:
  assumes "s_tree_inv I (fst (mgr_abs w)) n" and "length key = KEY_SIZE (s_cfg I)" and "key \<noteq> ArrayVar_max (KEY_SIZE (s_cfg I))"
    and "length val = VALUE_SIZE (s_cfg I)" and "\<not> s_has_cache I" and "s_has_tracker I"
    and "s_has_locks I \<Longrightarrow> lock_idle (s_leaf_for I (fst (mgr_abs w)) n key) (cw_locks w)"
    and "s_tree_map I (fst (mgr_abs w)) n key = None \<Longrightarrow>
      Suc (length (live_records (sleaf_at (s_cfg I) (fst (mgr_abs w)) (s_leaf_for I (fst (mgr_abs w)) n key)))) < kLeafCardinality (s_cfg I) \<and>
      (\<exists>w1. mgr_alloc Q (s_item_bytes I) w = Inr (off, w1)) \<and>
      GlobalAddress_raw off \<noteq> Null \<and> rm_valid (fst (mgr_abs w)) (GlobalAddress_raw off) (sizeof_KVItem (s_cfg I)) \<and>
      (\<forall>y \<in> set (s_footprint I (fst (mgr_abs w)) n). apart (GlobalAddress_raw off) (sizeof_KVItem (s_cfg I)) (fst y) (snd y))"
  shows "\<exists>w'. run (mgr_handler Q MQ C tid) (sherman_insert I key val) w = Inr (True, w') \<and> s_tree_inv I (fst (mgr_abs w')) n \<and>
    s_tree_map I (fst (mgr_abs w')) n = (s_tree_map I (fst (mgr_abs w)) n)(key \<mapsto> val)"
proof -
  define r where "r = fst (mgr_abs w)"
  define e where "e = snd (mgr_abs w)"
  have abs: "mgr_abs w = (r, e)" by (simp add: r_def e_def)
  have locks: "me_locks e = cw_locks w" by (simp add: e_def mgr_abs_def)
  have alloc: "\<exists>e2. e_alloc (mgr_env Q MQ C) (s_item_bytes I) e1 = Inr (off, e2)"
    if w1: "\<exists>w1. mgr_alloc Q (s_item_bytes I) w = Inr (off, w1)" and e1: "if s_has_locks I then e_local (mgr_env Q MQ C) LAcquire g e = Inr (False, e1) else e1 = e" for e1 g
  proof -
    have "\<exists>m. e1 = e\<lparr>me_locks := m\<rparr>"
      using e1 by (cases "s_has_locks I") (auto simp: mgr_env_def intro: exI [of _ "me_locks e"] split: sum.splits prod.splits)
    then show ?thesis
      using w1 by (auto simp: mgr_env_def mgr_alloc_def e_def mgr_abs_def local_allocate_strip split: sum.splits prod.splits)
  qed
  obtain r' e' where run: "run (mem_handler (mgr_env Q MQ C)) (sherman_insert I key val) (mgr_abs w) = Inr (True, (r', e'))"
    and inv: "s_tree_inv I r' n" "s_tree_map I r' n = (s_tree_map I r n)(key \<mapsto> val)"
  proof -
    have fresh: "s_tree_map I r n key = None \<Longrightarrow>
      Suc (length (live_records (sleaf_at (s_cfg I) r (s_leaf_for I r n key)))) < kLeafCardinality (s_cfg I) \<and>
      (\<forall>e1. (if s_has_locks I then e_local (mgr_env Q MQ C) LAcquire (s_leaf_for I r n key) e = Inr (False, e1) else e1 = e) \<longrightarrow>
        (\<exists>e2. e_alloc (mgr_env Q MQ C) (s_item_bytes I) e1 = Inr (off, e2))) \<and>
      GlobalAddress_raw off \<noteq> Null \<and> rm_valid r (GlobalAddress_raw off) (sizeof_KVItem (s_cfg I)) \<and>
      (\<forall>y \<in> set (s_footprint I r n). apart (GlobalAddress_raw off) (sizeof_KVItem (s_cfg I)) (fst y) (snd y))"
      using assms(8) [folded r_def] alloc by blast
    have idle: "s_has_locks I \<Longrightarrow> lock_idle (s_leaf_for I r n key) (me_locks e)" using assms(7) locks r_def by simp
    show thesis
      using locks.sherman_insert_run [OF assms(1-6) [folded r_def] refl idle fresh refl] that unfolding abs by blast
  qed
  show ?thesis using mgr.run_refines [OF run] inv unfolding r_def by fastforce
qed

subsection \<open>Properties\<close>

text \<open>
  C10. Initialisation of the Sherman index. When the allocator hands out a zeroed root pointer and a page apart from
  it, \<^verbatim>\<open>initialize\<close> succeeds and leaves an index of one empty leaf that satisfies the invariant and stores the empty map.
\<close>

theorem sherman_initialize_empty:
  assumes "sherman_ok (s_cfg I)" and "rm_small r" and "0 < s_fuel I"
    and "e_alloc E 8 e = Inr (ptr, e1)" and "e_alloc E page_bytes e1 = Inr (off, e2)"
    and "rm_valid r (GlobalAddress_raw ptr) 8" and "rm_valid r (GlobalAddress_raw off) 1024"
    and "apart (GlobalAddress_raw off) 1024 (GlobalAddress_raw ptr) 8" and "rm_load64 r (GlobalAddress_raw ptr) = 0"
  shows "\<exists>r'. run (mem_handler E) (s_initialize I) (r, e) = Inr ((True, I\<lparr>s_root_offset_pointer := GlobalAddress_raw ptr\<rparr>), (r', e2)) \<and>
    s_tree_inv (I\<lparr>s_root_offset_pointer := GlobalAddress_raw ptr\<rparr>) r' 0 \<and>
    s_tree_map (I\<lparr>s_root_offset_pointer := GlobalAddress_raw ptr\<rparr>) r' 0 = Map.empty \<and>
    s_footprint (I\<lparr>s_root_offset_pointer := GlobalAddress_raw ptr\<rparr>) r' 0 = [(GlobalAddress_raw ptr, 8), (GlobalAddress_raw off, 1024)] \<and>
    (\<forall>g n. rm_valid r' g n = rm_valid r g n)"
proof -
  define I' where "I' = I\<lparr>s_root_offset_pointer := GlobalAddress_raw ptr\<rparr>"
  obtain r' where run: "run (mem_handler E) (s_initialize I) (r, e) = Inr ((True, I'), (r', e2))"
    and r': "s_root I' r' = GlobalAddress_raw off" "sleaf_at (s_cfg I) r' (GlobalAddress_raw off) = s_root_page (s_cfg I)"
      "rm_small r' = rm_small r" "\<forall>g n. rm_valid r' g n = rm_valid r g n"
    using s_initialize_run [OF assms(1) rm_small_ok [OF assms(2)] assms(4-9) I'_def] by blast
  have "s_tree_inv I' r' 0" "s_tree_map I' r' 0 = Map.empty" "s_footprint I' r' 0 = [(s_root_offset_pointer I', 8), (s_root I' r', 1024)]"
    using assms r' by (intro s_empty_tree; simp add: I'_def apart_commute)+
  then show ?thesis using run r'(1,4) unfolding I'_def [symmetric] by (intro exI [of _ r']) (simp add: I'_def)
qed

theorem sherman_initialize_empty_witness:
  "\<exists>r'. run (mem_handler s_sample_env) (s_initialize (s_sample_index False)) (s_zeros, 8) = Inr ((True, s_sample_index False), (r', 512)) \<and>
    s_tree_inv (s_sample_index False) r' 0 \<and> s_tree_map (s_sample_index False) r' 0 = Map.empty"
proof -
  have I: "(s_sample_index False)\<lparr>s_root_offset_pointer := GlobalAddress_raw 8\<rparr> = s_sample_index False" by (simp add: s_sample_index_def)
  have "e_alloc s_sample_env 8 8 = Inr (8, 64)" "e_alloc s_sample_env page_bytes 64 = Inr (64, 512)" by (simp_all add: s_sample_env_def)
  then show ?thesis
    using sherman_initialize_empty [of "s_sample_index False" s_zeros s_sample_env 8 8 64 64 512] s_sample_config(1) s_zeros_facts s_zeros_root
    unfolding I by auto
qed

text \<open>
  C9. Reading from the Sherman index, end to end. On an index that satisfies the invariant, without a page cache and
  when no other client interferes, \<^verbatim>\<open>read\<close> run by the manager of a compute server reports what the stored map says, with
  one exception: a key bound to the value of all zero bytes is reported as absent. The memory stays as it was.
\<close>

theorem sherman_read_returns_stored:
  assumes "s_tree_inv I (fst (mgr_abs w)) n" and "\<not> s_has_cache I" and "length key = KEY_SIZE (s_cfg I)"
    and "key \<noteq> ArrayVar_max (KEY_SIZE (s_cfg I))" and "length path = kMaxLevelOfTree"
  shows "\<exists>w'. run (mgr_handler Q MQ C tid) (sherman_read I key path) w =
    Inr ((case s_tree_map I (fst (mgr_abs w)) n key of
        None \<Rightarrow> (False, None)
      | Some v \<Rightarrow> if v = ArrayVar_min (VALUE_SIZE (s_cfg I)) then (False, None) else (True, Some v)), w') \<and> mgr_abs w' = mgr_abs w"
  by (rule sherman_read_mgr [OF assms])


lemma s_sample_start:
  "\<exists>r. s_tree_inv (s_sample_index b) r 0 \<and> s_tree_map (s_sample_index b) r 0 = Map.empty \<and> rm_valid r (GlobalAddress_raw 2048) 2 \<and>
    s_footprint (s_sample_index b) r 0 = [(GlobalAddress_raw 8, 8), (GlobalAddress_raw 64, 1024)] \<and>
    live_records (sleaf_at sample_config r (s_leaf_for (s_sample_index b) r 0 [7])) = [] \<and>
    s_leaf_for (s_sample_index b) r 0 [7] = GlobalAddress_raw 64"
proof -
  have al: "e_alloc s_sample_env 8 8 = Inr (8, 64)" "e_alloc s_sample_env page_bytes 64 = Inr (64, 512)" by (simp_all add: s_sample_env_def)
  have c: "sherman_ok (s_cfg (s_sample_index b))" by (simp add: s_sample_config)
  have I: "s_sample_index b = (s_sample_index b)\<lparr>s_root_offset_pointer := GlobalAddress_raw 8\<rparr>" by (simp add: s_sample_index_def)
  obtain r where r: "s_root (s_sample_index b) r = GlobalAddress_raw 64"
    "sleaf_at sample_config r (GlobalAddress_raw 64) = s_root_page sample_config" "rm_small r" "\<forall>g n. rm_valid r g n = rm_valid s_zeros g n"
    using s_initialize_run [OF c rm_small_ok [OF s_zeros_facts(1)] al s_zeros_facts(2-4) s_zeros_root I] s_zeros_facts(1) by auto
  have t: "s_tree_inv (s_sample_index b) r 0" "s_tree_map (s_sample_index b) r 0 = Map.empty"
      "s_footprint (s_sample_index b) r 0 = [(s_root_offset_pointer (s_sample_index b), 8), (s_root (s_sample_index b) r, 1024)]"
      "s_leaf_for (s_sample_index b) r 0 [7] = s_root (s_sample_index b) r"
    using c r s_zeros_facts by (intro s_empty_tree; simp add: apart_commute)+
  show ?thesis
    using t r s_zeros_facts(5) by (intro exI [of _ r]) (simp add: s_root_page_facts)
qed

lemma s_sample_lock: "lock_idle (GlobalAddress_raw 64) (LocalLockManager_init 1 1)"
proof -
  have "lock_node (GlobalAddress_raw 64) (LocalLockManager_init 1 1) = LocalLockNode_init"
    by (simp add: lock_node_def LocalLockManager_init_def s_sample_addresses kNumOfLock_def)
  then show ?thesis
    by (simp add: lock_idle_def s_sample_addresses LocalLockManager_init_def kNumOfLock_def LocalLockNode_init_def nxt_def srv_def
        flag_slot_def kHandoverFlagSlots_def)
qed

lemma s_sample_alloc: "\<exists>w1. mgr_alloc fifo_ops (s_item_bytes (s_sample_index b)) (s_sample_world r) = Inr (2048, w1)"
  by (simp add: mgr_alloc_def local_allocate_def slab_allocate_def s_item_bytes_def s_sample_world_def fifo_ops_def allocate_nogrowth_def)


lemma s_sample_inserted: "\<exists>r. s_tree_inv (s_sample_index False) r 0 \<and> s_tree_map (s_sample_index False) r 0 [7] = Some [42]"
proof -
  obtain r where r: "s_tree_inv (s_sample_index False) r 0" "s_tree_map (s_sample_index False) r 0 = Map.empty" "rm_valid r (GlobalAddress_raw 2048) 2"
    "s_footprint (s_sample_index False) r 0 = [(GlobalAddress_raw 8, 8), (GlobalAddress_raw 64, 1024)]"
    "live_records (sleaf_at sample_config r (s_leaf_for (s_sample_index False) r 0 [7])) = []"
    using s_sample_start by blast
  let ?e = "snd (mgr_abs (s_sample_world r))"
  have al: "\<exists>e2. e_alloc (mgr_env fifo_ops fifo_ops s_no_cache) (s_item_bytes (s_sample_index False)) ?e = Inr (2048, e2)"
    by (simp add: mgr_env_def mgr_abs_def local_allocate_def slab_allocate_def s_item_bytes_def s_sample_world_def fifo_ops_def allocate_nogrowth_def)
  have "\<exists>r' e'. run (mem_handler (mgr_env fifo_ops fifo_ops s_no_cache)) (sherman_insert (s_sample_index False) [7] [42]) (r, ?e) = Inr (True, (r', e')) \<and>
      s_tree_inv (s_sample_index False) r' 0 \<and> s_tree_map (s_sample_index False) r' 0 = (s_tree_map (s_sample_index False) r 0)([7] \<mapsto> [42])"
    using r al s_sample_addresses(8,9) s_zeros_facts(6,7) s_sample_config
    by (intro locks.sherman_insert_run [where off = 2048 and a = "GlobalAddress_raw 2048", OF r(1) _ _ _ _ _ refl]) simp_all
  then show ?thesis by force
qed

theorem sherman_read_returns_stored_witness:
  "\<exists>w w'. run (mgr_handler fifo_ops fifo_ops s_no_cache 0) (sherman_read (s_sample_index False) [7] (replicate kMaxLevelOfTree Null)) w =
    Inr ((True, Some [42]), w')"
proof -
  obtain r where r: "s_tree_inv (s_sample_index False) r 0" "s_tree_map (s_sample_index False) r 0 [7] = Some [42]" using s_sample_inserted by blast
  then have "\<exists>w'. run (mgr_handler fifo_ops fifo_ops s_no_cache 0) (sherman_read (s_sample_index False) [7] (replicate kMaxLevelOfTree Null)) (s_sample_world r) =
      Inr ((True, Some [42]), w') \<and> mgr_abs w' = mgr_abs (s_sample_world r)"
    using sherman_read_returns_stored [of "s_sample_index False" "s_sample_world r" 0 "[7]" "replicate kMaxLevelOfTree Null" fifo_ops fifo_ops s_no_cache 0]
      s_sample_addresses(9) s_sample_config(4,5) by (simp add: ArrayVar_min_def ArrayVar_default_def)
  then show ?thesis by blast
qed

end
