(* ===== verification/Kv_Index.thy ===== *)
theory Kv_Index
  imports Faunus_Deferred Sherman_Map
begin

text \<open>
  \<^verbatim>\<open>src/src/kv_index/kv_index.hpp\<close>: the base class of the indexes. Its virtual functions are the fields of a record, the constructor
  fills in the defaults of the class, and the derived classes override some of them. The contract that the comments of the class state for \<^verbatim>\<open>read\<close> and
  \<^verbatim>\<open>insert\<close> is the locale \<open>kv_index\<close>; both indexes are interpretations of it. A client that reads and inserts through the base class then sees a map.
\<close>

subsection \<open>The class\<close>

record ('c, 'i, 'w) KVIndex =
  kv_create_cache :: "u64 \<Rightarrow> u64 option"
  kv_read :: "bytes \<Rightarrow> ('c, bool \<times> bytes option) prog"
  kv_insert :: "bytes \<Rightarrow> bytes \<Rightarrow> ('c, bool) prog"
  kv_del :: "bytes \<Rightarrow> ('c, bool) prog"
  kv_maintenance_worker :: "nat \<Rightarrow> nat \<Rightarrow> 'w \<Rightarrow> err + 'w"
  kv_initialize :: "nat \<Rightarrow> ('c, bool \<times> 'i) prog"
  kv_finalize :: "nat \<Rightarrow> 'w \<Rightarrow> bool \<times> 'w"
  kv_get_root_offset_pointer :: GlobalAddress
  kv_get_required_sizes :: "nat set"

text \<open>
  What the class itself implements: no cache, a maintenance worker that returns at once, and \<^verbatim>\<open>initialize\<close> and \<^verbatim>\<open>finalize\<close> that do nothing and return false. The other functions are
  pure virtual, so a derived class has to give them.
\<close>

definition KVIndex_base ::
  "'i \<Rightarrow> (bytes \<Rightarrow> ('c, bool \<times> bytes option) prog) \<Rightarrow> (bytes \<Rightarrow> bytes \<Rightarrow> ('c, bool) prog) \<Rightarrow> (bytes \<Rightarrow> ('c, bool) prog) \<Rightarrow> GlobalAddress \<Rightarrow> nat set \<Rightarrow>
   ('c, 'i, 'w) KVIndex" where
  "KVIndex_base self read_fn insert_fn del_fn ptr sizes =
     \<lparr>kv_create_cache = (\<lambda>cache_size_bytes. None), kv_read = read_fn, kv_insert = insert_fn, kv_del = del_fn,
      kv_maintenance_worker = (\<lambda>cs_id thread_id w. Inr w), kv_initialize = (\<lambda>n. Ret (False, self)), kv_finalize = (\<lambda>n w. (False, w)),
      kv_get_root_offset_pointer = ptr, kv_get_required_sizes = sizes\<rparr>"

definition faunus_cache_entries :: "u64 \<Rightarrow> u64" where
  "faunus_cache_entries cache_size_bytes = max 1 (cache_size_bytes div 2048)"

definition FaunusIndex_init :: "Config \<Rightarrow> GlobalAddress \<Rightarrow> bool \<Rightarrow> u64 \<Rightarrow> nat \<Rightarrow> nat \<Rightarrow> bytes \<Rightarrow> u64 \<Rightarrow> FaunusIndex" where
  "FaunusIndex_init c ptr cache hash_val f lv stale kvb =
     \<lparr>cfg = c, root_offset_pointer = ptr, has_cache = cache, has_tracker = False, tid_hash = hash_val, num_queues = 0, fuel = f, levels = lv,
      oob = stale, kvb_ptr = kvb\<rparr>"

definition set_stats_tracker :: "bool \<Rightarrow> FaunusIndex \<Rightarrow> FaunusIndex" where
  "set_stats_tracker tracker I = I\<lparr>has_tracker := tracker\<rparr>"

text \<open>The worker polls its queue up to \<open>polls\<close> times; \<open>lat\<close> and \<open>arrivals\<close> are the latencies and requests of \<open>maintenance_worker\<close>.\<close>

definition FaunusIndex_class ::
  "nat \<Rightarrow> (u64, 'q) queue_ops \<Rightarrow> (rpc, 'm) queue_ops \<Rightarrow> ('cs, cache_item) cache_ops \<Rightarrow> (nat \<Rightarrow> rat) \<Rightarrow> (nat \<Rightarrow> rpc list) \<Rightarrow> FaunusIndex \<Rightarrow>
   (cache_item, FaunusIndex, ('q, 'cs, 'm) cworld) KVIndex" where
  "FaunusIndex_class polls Q MQ C lat arrivals I =
     (KVIndex_base I (faunus_read I) (faunus_insert I) (faunus_del I) (root_offset_pointer I) (get_required_sizes (cfg I)))
       \<lparr>kv_create_cache := (\<lambda>b. Some (faunus_cache_entries b)),
        kv_maintenance_worker := (\<lambda>cs_id thread_id w.
          case maintenance_worker polls Q MQ C cs_id thread_id I lat arrivals w of Inl e \<Rightarrow> Inl e | Inr (processed, w') \<Rightarrow> Inr w'),
        kv_initialize := initialize I,
        kv_finalize := (\<lambda>n w. let (ok, queues) = finalize MQ n (cw_queues w) in (ok, w\<lparr>cw_queues := queues\<rparr>))\<rparr>"

definition ShermanIndex_class :: "ShermanIndex \<Rightarrow> GlobalAddress list \<Rightarrow> (ShermanCacheEntry, ShermanIndex, 'w) KVIndex" where
  "ShermanIndex_class I path_stack =
     (KVIndex_base I (\<lambda>key. sherman_read I key path_stack) (sherman_insert I) sherman_del (s_root_offset_pointer I) (s_required_sizes (s_cfg I)))
       \<lparr>kv_create_cache := (\<lambda>b. Some (sherman_cache_entries b)), kv_initialize := (\<lambda>n. s_initialize I)\<rparr>"

subsection \<open>The contract of \<^verbatim>\<open>read\<close> and \<^verbatim>\<open>insert\<close>\<close>

text \<open>
  \<open>holds w k m\<close>: in state \<open>w\<close> the index stores \<open>m\<close> and has the resources for \<open>k\<close> more insertions; \<open>admits w key\<close>: the state lets \<open>key\<close> be inserted now. \<^verbatim>\<open>read\<close>
  reports \<open>view\<close> of what is stored, \<^verbatim>\<open>insert\<close> is an update of the map.
\<close>

datatype KVOp = KVRead bytes | KVInsert bytes bytes

text \<open>A client of the base class: it performs operations one after the other and collects what they return.\<close>

primrec kv_client :: "('c, 'i, 'w) KVIndex \<Rightarrow> KVOp \<Rightarrow> ('c, bool \<times> bytes option) prog" where
  "kv_client K (KVRead key) = kv_read K key"
| "kv_client K (KVInsert key val) = bind (kv_insert K key val) (\<lambda>ok. Ret (ok, None))"

primrec kv_history :: "('c, 'i, 'w) KVIndex \<Rightarrow> KVOp list \<Rightarrow> ('c, (bool \<times> bytes option) list) prog" where
  "kv_history K [] = Ret []"
| "kv_history K (x # xs) = bind (kv_client K x) (\<lambda>res. bind (kv_history K xs) (\<lambda>rest. Ret (res # rest)))"

text \<open>The same operations on a map.\<close>

primrec map_client :: "(bytes option \<Rightarrow> bool \<times> bytes option) \<Rightarrow> KVOp \<Rightarrow> (bytes \<rightharpoonup> bytes) \<Rightarrow> (bool \<times> bytes option) \<times> (bytes \<rightharpoonup> bytes)" where
  "map_client view (KVRead key) m = (view (m key), m)"
| "map_client view (KVInsert key val) m = ((True, None), m(key \<mapsto> val))"

primrec map_history ::
  "(bytes option \<Rightarrow> bool \<times> bytes option) \<Rightarrow> KVOp list \<Rightarrow> (bytes \<rightharpoonup> bytes) \<Rightarrow> (bool \<times> bytes option) list \<times> (bytes \<rightharpoonup> bytes)" where
  "map_history view [] m = ([], m)"
| "map_history view (x # xs) m =
     (let (res, m1) = map_client view x m; (rest, m2) = map_history view xs m1 in (res # rest, m2))"

primrec op_ok :: "(bytes \<Rightarrow> bool) \<Rightarrow> (bytes \<Rightarrow> bool) \<Rightarrow> KVOp \<Rightarrow> bool" where
  "op_ok usable storable (KVRead key) \<longleftrightarrow> usable key"
| "op_ok usable storable (KVInsert key val) \<longleftrightarrow> usable key \<and> storable val"

primrec inserts_in :: "KVOp list \<Rightarrow> nat" where
  "inserts_in [] = 0"
| "inserts_in (x # xs) = (case x of KVRead key \<Rightarrow> 0 | KVInsert key val \<Rightarrow> 1) + inserts_in xs"

text \<open>Every insertion of the list is admitted by the state that the operations before it lead to.\<close>

primrec admitted :: "('w, 'c) handler \<Rightarrow> ('c, 'i, 'w) KVIndex \<Rightarrow> ('w \<Rightarrow> bytes \<Rightarrow> bool) \<Rightarrow> KVOp list \<Rightarrow> 'w \<Rightarrow> bool" where
  "admitted H K admits [] w \<longleftrightarrow> True"
| "admitted H K admits (x # xs) w \<longleftrightarrow> (case x of KVRead key \<Rightarrow> True | KVInsert key val \<Rightarrow> admits w key) \<and>
     (\<forall>res w'. run H (kv_client K x) w = Inr (res, w') \<longrightarrow> admitted H K admits xs w')"

locale kv_index =
  fixes H :: "('w, 'c) handler" and K :: "('c, 'i, 'w) KVIndex" and holds :: "'w \<Rightarrow> nat \<Rightarrow> (bytes \<rightharpoonup> bytes) \<Rightarrow> bool"
    and usable storable :: "bytes \<Rightarrow> bool" and admits :: "'w \<Rightarrow> bytes \<Rightarrow> bool" and view :: "bytes option \<Rightarrow> bool \<times> bytes option"
  assumes reads: "holds w k m \<Longrightarrow> usable key \<Longrightarrow> \<exists>w'. run H (kv_read K key) w = Inr (view (m key), w') \<and> holds w' k m"
    and inserts: "holds w (Suc k) m \<Longrightarrow> usable key \<Longrightarrow> storable val \<Longrightarrow> admits w key \<Longrightarrow>
      \<exists>w'. run H (kv_insert K key val) w = Inr (True, w') \<and> holds w' k (m(key \<mapsto> val))"
begin

lemma history_refines:
  assumes "holds w (inserts_in xs + k) m" and "list_all (op_ok usable storable) xs" and "admitted H K admits xs w"
  shows "\<exists>w'. run H (kv_history K xs) w = Inr (fst (map_history view xs m), w') \<and> holds w' k (snd (map_history view xs m))"
  using assms
proof (induction xs arbitrary: w m)
  case (Cons x xs)
  have "\<exists>w1. run H (kv_client K x) w = Inr (fst (map_client view x m), w1) \<and> holds w1 (inserts_in xs + k) (snd (map_client view x m))"
  proof (cases x)
    case (KVRead key)
    then show ?thesis using reads [of w "inserts_in xs + k" m key] Cons.prems by simp
  next
    case (KVInsert key val)
    then show ?thesis using inserts [of w "inserts_in xs + k" m key val] Cons.prems by (force simp: run_bind)
  qed
  then obtain w1 where w1: "run H (kv_client K x) w = Inr (fst (map_client view x m), w1)" "holds w1 (inserts_in xs + k) (snd (map_client view x m))"
    by blast
  then show ?case
    using Cons.IH [OF w1(2)] Cons.prems(2,3) by (fastforce simp: run_bind Let_def split_def)
qed simp

end

subsection \<open>Faunus\<close>

definition faunus_holds :: "(u64, 'q) queue_ops \<Rightarrow> ('q \<Rightarrow> u64 multiset) \<Rightarrow> FaunusIndex \<Rightarrow> nat \<Rightarrow> ('q, 'cs, 'm) cworld \<Rightarrow> nat \<Rightarrow> (bytes \<rightharpoonup> bytes) \<Rightarrow> bool" where
  "faunus_holds Q elems I N w k m \<longleftrightarrow> plain_index I \<and> N < fuel I \<and> N < 2 ^ 64 \<and> N \<le> levels I \<and>
     (\<exists>n. n + k \<le> N \<and> faunus_store Q elems I w n (k * (N + 3)) \<and> stored I w n = m)"

lemma faunus_store_fewer: "faunus_store Q elems I w n k \<Longrightarrow> j \<le> k \<Longrightarrow> faunus_store Q elems I w n j"
  using stocked_fewer unfolding faunus_store_def by blast

lemma faunus_store_abs: "mgr_abs w' = mgr_abs w \<Longrightarrow> faunus_store Q elems I w' n k = faunus_store Q elems I w n k \<and> stored I w' n = stored I w n"
  by (simp add: faunus_store_def stored_def)

interpretation faunus_kv: kv_index "mgr_handler Q MQ C tid" "FaunusIndex_class polls Q MQ C lat arrivals I" "faunus_holds Q elems I N" "usable_key (cfg I)"
    "\<lambda>val. length val = VALUE_SIZE (cfg I)" "\<lambda>w key. True" "\<lambda>v. (v \<noteq> None, v)"
  for Q :: "(u64, 'q) queue_ops" and MQ :: "(rpc, 'm) queue_ops" and C :: "('cs, cache_item) cache_ops" and tid I elems N polls lat arrivals
proof unfold_locales
  fix w :: "('q, 'cs, 'm) cworld" and k m key
  assume h: "faunus_holds Q elems I N w k m" and key: "usable_key (cfg I) key"
  then obtain n where n: "n + k \<le> N" "faunus_store Q elems I w n (k * (N + 3))" "stored I w n = m" and cache: "\<not> has_cache I"
    by (auto simp: faunus_holds_def plain_index_def)
  obtain w' where w': "run (mgr_handler Q MQ C tid) (faunus_read I key) w = Inr ((m key \<noteq> None, m key), w')" "mgr_abs w' = mgr_abs w"
    using store_reads [OF n(2) cache key, unfolded n(3)] by blast
  then have "faunus_holds Q elems I N w' k m" using h faunus_store_abs [OF w'(2)] unfolding faunus_holds_def by metis
  then show "\<exists>w'. run (mgr_handler Q MQ C tid) (kv_read (FaunusIndex_class polls Q MQ C lat arrivals I) key) w = Inr ((m key \<noteq> None, m key), w') \<and> faunus_holds Q elems I N w' k m"
    using w'(1) by (simp add: FaunusIndex_class_def KVIndex_base_def)
next
  fix w :: "('q, 'cs, 'm) cworld" and k m and key val :: bytes
  assume h: "faunus_holds Q elems I N w (Suc k) m" and key: "usable_key (cfg I) key" and val: "length val = VALUE_SIZE (cfg I)"
  then obtain n where n: "n + Suc k \<le> N" "faunus_store Q elems I w n (Suc k * (N + 3))" "stored I w n = m"
    and idx: "plain_index I" "N < fuel I" "N < 2 ^ 64" "N \<le> levels I"
    by (auto simp: faunus_holds_def)
  have "faunus_store Q elems I w n (n + 3 + k * (N + 3))" by (rule faunus_store_fewer [OF n(2)]) (use n(1) in simp)
  moreover have "Suc n < fuel I" "Suc n < 2 ^ 64" "Suc n \<le> levels I" using n(1) idx by simp_all
  ultimately obtain w' n' where w': "run (mgr_handler Q MQ C tid) (faunus_insert I key val) w = Inr (True, w')" "n' \<le> Suc n"
      "faunus_store Q elems I w' n' (k * (N + 3))" "stored I w' n' = m(key \<mapsto> val)"
    using store_insert [of Q elems I w n "k * (N + 3)" key val MQ C tid] idx(1) key val unfolding n(3) by blast
  then have "faunus_holds Q elems I N w' k (m(key \<mapsto> val))"
    using n(1) idx unfolding faunus_holds_def by (intro conjI exI [of _ n']) simp_all
  then show "\<exists>w'. run (mgr_handler Q MQ C tid) (kv_insert (FaunusIndex_class polls Q MQ C lat arrivals I) key val) w = Inr (True, w') \<and> faunus_holds Q elems I N w' k (m(key \<mapsto> val))"
    using w'(1) by (simp add: FaunusIndex_class_def KVIndex_base_def)
qed

text \<open>The slab allocators of a compute server are made for the sizes that the class asks for; these are all sizes that the index allocates.\<close>

lemma required_sizes_cover:
  assumes "config_ok (cfg I)"
  shows "unat ` (page_sizes I \<union> {8}) \<subseteq> kv_get_required_sizes (FaunusIndex_class polls Q MQ C lat arrivals I)"
  using unat_sizes [OF assms] by (auto simp: page_sizes_def FaunusIndex_class_def KVIndex_base_def get_required_sizes_def)

text \<open>Faunus admits every key as long as it has slabs.\<close>

lemma always_admitted: "admitted H K (\<lambda>w key. True) xs w"
  by (induction xs arbitrary: w) (simp_all split: KVOp.splits)

subsection \<open>Sherman\<close>

text \<open>
  The leaf of the key has an idle local lock; if the key is new, the leaf stays below its capacity and the allocator gives an item outside of the index.
\<close>

definition s_admits :: "(u64, 'q) queue_ops \<Rightarrow> ShermanIndex \<Rightarrow> nat \<Rightarrow> ('q, 'cs, 'm) cworld \<Rightarrow> bytes \<Rightarrow> bool" where
  "s_admits Q I n w key \<longleftrightarrow>
     (let r = fst (mgr_abs w); l = s_leaf_for I r n key in
      (s_has_locks I \<longrightarrow> lock_idle l (cw_locks w)) \<and>
      (s_tree_map I r n key = None \<longrightarrow> Suc (length (live_records (sleaf_at (s_cfg I) r l))) < kLeafCardinality (s_cfg I) \<and>
        (\<exists>off w1. mgr_alloc Q (s_item_bytes I) w = Inr (off, w1) \<and> GlobalAddress_raw off \<noteq> Null \<and>
           rm_valid r (GlobalAddress_raw off) (sizeof_KVItem (s_cfg I)) \<and>
           (\<forall>y \<in> set (s_footprint I r n). apart (GlobalAddress_raw off) (sizeof_KVItem (s_cfg I)) (fst y) (snd y)))))"

definition sherman_holds :: "ShermanIndex \<Rightarrow> nat \<Rightarrow> ('q, 'cs, 'm) cworld \<Rightarrow> nat \<Rightarrow> (bytes \<rightharpoonup> bytes) \<Rightarrow> bool" where
  "sherman_holds I n w k m \<longleftrightarrow> s_tree_inv I (fst (mgr_abs w)) n \<and> s_tree_map I (fst (mgr_abs w)) n = m \<and> \<not> s_has_cache I \<and> s_has_tracker I"

lemma s_admits_insert:
  assumes h: "s_tree_inv I (fst (mgr_abs w)) n" "\<not> s_has_cache I" "s_has_tracker I" and a: "s_admits Q I n w key"
    and key: "usable_key (s_cfg I) key" and val: "length val = VALUE_SIZE (s_cfg I)"
  shows "\<exists>w'. run (mgr_handler Q MQ C tid) (sherman_insert I key val) w = Inr (True, w') \<and> s_tree_inv I (fst (mgr_abs w')) n \<and>
    s_tree_map I (fst (mgr_abs w')) n = (s_tree_map I (fst (mgr_abs w)) n)(key \<mapsto> val)"
proof -
  have k: "length key = KEY_SIZE (s_cfg I)" "key \<noteq> ArrayVar_max (KEY_SIZE (s_cfg I))" using key by (simp_all add: usable_key_def)
  have idle: "s_has_locks I \<Longrightarrow> lock_idle (s_leaf_for I (fst (mgr_abs w)) n key) (cw_locks w)" using a by (simp add: s_admits_def Let_def)
  show ?thesis
  proof (cases "s_tree_map I (fst (mgr_abs w)) n key = None")
    case True
    then obtain off where "Suc (length (live_records (sleaf_at (s_cfg I) (fst (mgr_abs w)) (s_leaf_for I (fst (mgr_abs w)) n key)))) < kLeafCardinality (s_cfg I) \<and>
        (\<exists>w1. mgr_alloc Q (s_item_bytes I) w = Inr (off, w1)) \<and>
        GlobalAddress_raw off \<noteq> Null \<and> rm_valid (fst (mgr_abs w)) (GlobalAddress_raw off) (sizeof_KVItem (s_cfg I)) \<and>
        (\<forall>y \<in> set (s_footprint I (fst (mgr_abs w)) n). apart (GlobalAddress_raw off) (sizeof_KVItem (s_cfg I)) (fst y) (snd y))"
      using a by (auto simp: s_admits_def Let_def)
    from sherman_insert_mgr [OF h(1) k val h(2,3) idle this] show ?thesis .
  next
    case False
    then show ?thesis by (intro sherman_insert_mgr [OF h(1) k val h(2,3) idle]) simp_all
  qed
qed

interpretation sherman_kv: kv_index "mgr_handler Q MQ C tid" "ShermanIndex_class I path_stack" "\<lambda>w k m. length path_stack = kMaxLevelOfTree \<and> sherman_holds I n w k m"
    "usable_key (s_cfg I)" "\<lambda>val. length val = VALUE_SIZE (s_cfg I)" "s_admits Q I n" "s_visible (s_cfg I)"
  for Q :: "(u64, 'q) queue_ops" and MQ :: "(rpc, 'm) queue_ops" and C :: "('cs, ShermanCacheEntry) cache_ops" and tid I path_stack n
proof unfold_locales
  fix w :: "('q, 'cs, 'm) cworld" and k :: nat and m key
  assume h: "length path_stack = kMaxLevelOfTree \<and> sherman_holds I n w k m" and key: "usable_key (s_cfg I) key"
  then have inv: "s_tree_inv I (fst (mgr_abs w)) n" "s_tree_map I (fst (mgr_abs w)) n = m" "\<not> s_has_cache I" by (simp_all add: sherman_holds_def)
  have "length key = KEY_SIZE (s_cfg I)" "key \<noteq> ArrayVar_max (KEY_SIZE (s_cfg I))" using key by (simp_all add: usable_key_def)
  then obtain w' where w': "run (mgr_handler Q MQ C tid) (sherman_read I key path_stack) w = Inr (s_visible (s_cfg I) (m key), w')" "mgr_abs w' = mgr_abs w"
    using sherman_read_mgr [OF inv(1,3)] h unfolding inv(2) s_visible_def by blast
  then show "\<exists>w'. run (mgr_handler Q MQ C tid) (kv_read (ShermanIndex_class I path_stack) key) w = Inr (s_visible (s_cfg I) (m key), w') \<and>
      (length path_stack = kMaxLevelOfTree \<and> sherman_holds I n w' k m)"
    using h by (simp add: ShermanIndex_class_def KVIndex_base_def sherman_holds_def)
next
  fix w :: "('q, 'cs, 'm) cworld" and k :: nat and m and key val :: bytes
  assume h: "length path_stack = kMaxLevelOfTree \<and> sherman_holds I n w (Suc k) m" and key: "usable_key (s_cfg I) key"
    and val: "length val = VALUE_SIZE (s_cfg I)" and a: "s_admits Q I n w key"
  have inv: "s_tree_inv I (fst (mgr_abs w)) n" "\<not> s_has_cache I" "s_has_tracker I" using h by (simp_all add: sherman_holds_def)
  from s_admits_insert [OF inv a key val, of MQ C tid] h
  show "\<exists>w'. run (mgr_handler Q MQ C tid) (kv_insert (ShermanIndex_class I path_stack) key val) w = Inr (True, w') \<and>
      (length path_stack = kMaxLevelOfTree \<and> sherman_holds I n w' k (m(key \<mapsto> val)))"
    by (auto simp: ShermanIndex_class_def KVIndex_base_def sherman_holds_def)
qed

subsection \<open>Properties\<close>

text \<open>
  C2. A client of Faunus sees a map. Take an index without node cache and maintenance threads that stores \<open>m\<close>, whose height may reach \<open>N\<close>, and slab allocators with \<open>N + 3\<close>
  slabs per insertion. Any sequence of reads and insertions through the base class returns what the same sequence does on \<open>m\<close>, however often it splits leaves
  and inner nodes: a read gives the value that was inserted last for its key, an insertion succeeds; and the index stores the resulting map afterwards.
\<close>

theorem faunus_client_sees_map:
  assumes "faunus_holds Q elems I N w (inserts_in xs + k) m"
    and "list_all (op_ok (usable_key (cfg I)) (\<lambda>val. length val = VALUE_SIZE (cfg I))) xs"
  shows "\<exists>w'. run (mgr_handler Q MQ C tid) (kv_history (FaunusIndex_class polls Q MQ C lat arrivals I) xs) w = Inr (fst (map_history (\<lambda>v. (v \<noteq> None, v)) xs m), w') \<and>
    faunus_holds Q elems I N w' k (snd (map_history (\<lambda>v. (v \<noteq> None, v)) xs m))"
  using faunus_kv.history_refines [OF assms always_admitted] .

theorem faunus_client_sees_map_witness:
  "\<exists>w w'. run (mgr_handler fifo_ops fifo_ops no_cache 0)
      (kv_history (FaunusIndex_class 1 fifo_ops fifo_ops no_cache (\<lambda>_. 0) (\<lambda>_. []) sample_index) [KVInsert [7] [42], KVInsert [8] [43], KVInsert [9] [44], KVRead [8], KVRead [5]]) w =
    Inr ([(True, None), (True, None), (True, None), (True, Some [43]), (False, None)], w')"
proof -
  let ?xs = "[KVInsert [7] [42], KVInsert [8] [43], KVInsert [9] [44], KVRead [8], KVRead [5]] :: KVOp list"
  obtain r where r: "faunus_store fifo_ops mset sample_index (sample_store r) 0 19" "stored sample_index (sample_store r) 0 = Map.empty"
    using sample_faunus_store [OF sample_index_like] by auto
  have "levels sample_index = 10" by (simp add: sample_index_def)
  then have h: "faunus_holds fifo_ops mset sample_index 3 (sample_store r) (inserts_in ?xs + 0) Map.empty"
    using faunus_store_fewer [OF r(1), of 18] r(2) sample_plain by (auto simp: faunus_holds_def intro!: exI [of _ 0])
  have "list_all (op_ok (usable_key (cfg sample_index)) (\<lambda>val. length val = VALUE_SIZE (cfg sample_index))) ?xs" by code_simp
  from faunus_client_sees_map [OF h this, of fifo_ops no_cache 0 1 "\<lambda>_. 0" "\<lambda>_. []"] show ?thesis by (auto simp: Let_def)
qed



end
