(* ===== verification/Sherman_Behaviour.thy ===== *)
theory Sherman_Behaviour
  imports Sherman_Map
begin

text \<open>
  The lock of a page and the walk to siblings in the Sherman index: what \<^verbatim>\<open>try_lock_address\<close> does with a lock that
  somebody holds, what a cached page routes, and where \<^verbatim>\<open>read\<close> does not return.
\<close>

subsection \<open>Remote locks that are taken\<close>

lemma lock_loop_conflict:
  assumes "rm_ok r" and "rm_valid r g 8" and "rm_load64 r g = v" and "v \<noteq> 0" and "drop_bit 32 v \<noteq> drop_bit 32 tag"
  shows "run (mem_handler E) (lock_loop (Suc n) tag g k pre) (r, e) =
    (if Suc k > 1000000 then Inl AssertionFailed
     else run (mem_handler E) (lock_loop n tag g (if v \<noteq> pre then 0 else Suc k) v) (r, e))"
  using assms by (simp add: mem_run assert_then_def)

lemma lock_loop_gives_up:
  assumes "rm_ok r" and "rm_valid r g 8" and "rm_load64 r g = v" and "v \<noteq> 0" and "drop_bit 32 v \<noteq> drop_bit 32 tag"
    and "k + m = 1000000"
  shows "run (mem_handler E) (lock_loop (Suc m + n) tag g k v) (r, e) = Inl AssertionFailed"
  using assms(6)
proof (induction m arbitrary: k)
  case 0
  then show ?case using lock_loop_conflict [OF assms(1-5), of E n k v e] by simp
next
  case (Suc m)
  have "run (mem_handler E) (lock_loop (Suc (Suc m) + n) tag g k v) (r, e) =
      run (mem_handler E) (lock_loop (Suc m + n) tag g (Suc k) v) (r, e)"
    using lock_loop_conflict [OF assms(1-5), of E "Suc m + n" k v e] Suc.prems by simp
  then show ?case using Suc.IH [of "Suc k"] Suc.prems by simp
qed

lemma s_locked_word:
  "rm_ok (rm_store s_zeros (GlobalAddress_raw 8) (bytes_of_u64 v))"
  "rm_valid (rm_store s_zeros (GlobalAddress_raw 8) (bytes_of_u64 v)) (GlobalAddress_raw 8) 8"
  "rm_load64 (rm_store s_zeros (GlobalAddress_raw 8) (bytes_of_u64 v)) (GlobalAddress_raw 8) = v"
proof -
  have v: "rm_valid s_zeros (GlobalAddress_raw 8) (length (bytes_of_u64 v))" using s_zeros_facts(2) by simp
  show "rm_ok (rm_store s_zeros (GlobalAddress_raw 8) (bytes_of_u64 v))"
    using rm_ok_store [OF v] rm_small_ok [OF s_zeros_facts(1)] by simp
  show "rm_valid (rm_store s_zeros (GlobalAddress_raw 8) (bytes_of_u64 v)) (GlobalAddress_raw 8) 8"
    using rm_valid_store [OF v] v by simp
  show "rm_load64 (rm_store s_zeros (GlobalAddress_raw 8) (bytes_of_u64 v)) (GlobalAddress_raw 8) = v"
    using rm.load_store_same [OF v] by (simp add: rm_load64_def)
qed



text \<open>
  C36. Clients whose tags agree in the upper half do not exclude each other. A page locked by one of them looks to another one
  like its own: \<^verbatim>\<open>try_lock_address\<close> reports success at the first attempt and writes nothing. Without a lock manager the tag
  is the hash of the address of the index object, so this is the case for two objects in the same 4 GiB of memory.
\<close>

theorem sherman_lock_shared_upper_half:
  assumes "\<not> s_has_locks I" and "rm_ok r" and "rm_valid r g 8" and "rm_load64 r g = v" and "v \<noteq> 0"
    and "drop_bit 32 v = drop_bit 32 (s_tag I)" and "0 < s_fuel I"
  shows "run (mem_handler E) (try_lock_address I g) (r, e) = Inr (True, (r, e))"
  using assms by (cases "s_fuel I") (simp_all add: try_lock_address_def mem_run assert_then_def)

theorem sherman_lock_shared_upper_half_witness:
  "run (mem_handler s_sample_env) (try_lock_address (s_sample_index False) (GlobalAddress_raw 8))
    (rm_store s_zeros (GlobalAddress_raw 8) (bytes_of_u64 9), 0) =
    Inr (True, (rm_store s_zeros (GlobalAddress_raw 8) (bytes_of_u64 9), 0))"
proof -
  have "drop_bit 32 (9 :: u64) = drop_bit 32 (s_tag (s_sample_index False))" by (simp add: s_sample_index_def)
  then show ?thesis using s_locked_word [of 9] by (intro sherman_lock_shared_upper_half [where v = 9]) simp_all
qed

subsection \<open>Cached pages\<close>



subsection \<open>A read that does not return\<close>

lemma search_node_beyond_run:
  assumes ok: "rm_ok r" "sherman_ok (s_cfg I)" and key: "length key = KEY_SIZE (s_cfg I)" and leaf: "s_leaf_page (s_cfg I) r g"
    and beyond: "be_val (s_highest (l_hdr (sleaf_at (s_cfg I) r g))) \<le> be_val key"
    and sib: "s_sibling_ptr (l_hdr (sleaf_at (s_cfg I) r g)) = h" "h \<noteq> Null" "h \<noteq> g" and path: "path \<noteq> []"
  shows "run (mem_handler E) (search_node (Suc n) I g key False res path) (r, e) =
    Inr ((True, res\<lparr>sr_is_leaf := True, sr_level := 0, sr_slibing := h\<rparr>, path[0 := g]), (r, e))"
proof -
  let ?p = "sleaf_at (s_cfg I) r g"
  have v: "rm_valid r g 1024" using leaf by (simp add: s_leaf_page_def)
  then have "sleaf_wf (s_cfg I) ?p" using page_at_wf(2) [OF ok(2)] by simp
  then have cmp: "key_ge key (s_highest (l_hdr ?p))" using beyond key by (simp add: key_ge_iff sleaf_wf_def sheader_wf_def)
  have page: "dec_sleaf (s_cfg I) (rm_load r g 1024) = ?p" by (simp add: sleaf_at_def kLeafPageSize_def)
  show ?thesis
    unfolding search_node.simps read_page_run [OF ok(1) v]
    using leaf cmp sib path by (simp add: Let_def page s_leaf_page_def assert_then_def)
qed

lemma s_read_loop_stuck:
  assumes ok: "rm_ok r" "sherman_ok (s_cfg I)" and key: "length key = KEY_SIZE (s_cfg I)"
    and leaf: "s_leaf_page (s_cfg I) r q" "s_leaf_ok (s_cfg I) r (sleaf_at (s_cfg I) r q)"
    and bounds: "be_val (s_lowest (l_hdr (sleaf_at (s_cfg I) r q))) \<le> be_val key" "be_val key < be_val (s_highest (l_hdr (sleaf_at (s_cfg I) r q)))"
    and absent: "s_leaf_map (s_cfg I) r (sleaf_at (s_cfg I) r q) key = None"
    and fuel: "0 < s_fuel I" and path: "path \<noteq> []" and q: "q \<noteq> Null"
    and res: "sr_slibing res = q" "sr_val res = ArrayVar_min (VALUE_SIZE (s_cfg I))"
  shows "run (mem_handler E) (s_read_loop m I key root_addr fc None q res path) (r, e) = Inl Diverges"
  using res path
proof (induction m arbitrary: res path)
  case (Suc m)
  obtain f where f: "s_fuel I = Suc f" using fuel by (cases "s_fuel I") auto
  note step = search_node_leaf_run [OF ok key leaf bounds Suc.prems(3), of E f res e]
  let ?res = "res\<lparr>sr_is_leaf := True, sr_level := 0, sr_val := ArrayVar_min (VALUE_SIZE (s_cfg I))\<rparr>"
  have "run (mem_handler E) (s_read_loop (Suc m) I key root_addr fc None q res path) (r, e) =
      run (mem_handler E) (s_read_loop m I key root_addr fc None q ?res (path[0 := q])) (r, e)"
    using step absent Suc.prems q by (simp add: f run_bind Let_def key_ne_iff length_ArrayVar)
  then show ?case using Suc.IH [of ?res "path[0 := q]"] Suc.prems by simp
qed simp

text \<open>
  C27. A read through a stale cache entry may never return. The cached page routes the key to a leaf that has been split since;
  the key belongs to the leaf's sibling but is not stored there. The search result keeps the sibling it went to, \<^verbatim>\<open>read\<close>
  takes it for the next page to visit, and visits it again and again: no number of iterations is enough. (On the same memory
  a read from the root reports that the key is absent.)
\<close>

theorem sherman_read_stale_cache_loops:
  assumes "rm_ok r" and "sherman_ok (s_cfg I)" and "length key = KEY_SIZE (s_cfg I)"
    and "s_has_cache I" and "e_search E key e = (Some (h, entry), e')" and "get_leaf_from_cache_entry entry key = Inr p"
    and "s_leaf_page (s_cfg I) r p" and "be_val (s_highest (l_hdr (sleaf_at (s_cfg I) r p))) \<le> be_val key"
    and "s_sibling_ptr (l_hdr (sleaf_at (s_cfg I) r p)) = q" and "q \<noteq> Null" and "q \<noteq> p"
    and "s_leaf_page (s_cfg I) r q" and "s_leaf_ok (s_cfg I) r (sleaf_at (s_cfg I) r q)"
    and "be_val (s_lowest (l_hdr (sleaf_at (s_cfg I) r q))) \<le> be_val key" and "be_val key < be_val (s_highest (l_hdr (sleaf_at (s_cfg I) r q)))"
    and "s_leaf_map (s_cfg I) r (sleaf_at (s_cfg I) r q) key = None"
    and "rm_valid r (s_root_offset_pointer I) 8" and "path \<noteq> []"
  shows "run (mem_handler E) (sherman_read (I\<lparr>s_fuel := n\<rparr>) key path) (r, e) = Inl Diverges"
proof (cases n)
  case 0
  then show ?thesis
    using assms(4-6) s_get_root_offset_run [OF assms(1), of "I\<lparr>s_fuel := n\<rparr>" E e] assms(17)
    by (simp add: sherman_read_def run_bind mem_run)
next
  case (Suc f)
  let ?I = "I\<lparr>s_fuel := n\<rparr>" and ?res = "(SearchResult_init (s_cfg I))\<lparr>sr_val := ArrayVar_min (VALUE_SIZE (s_cfg I))\<rparr>"
  let ?res1 = "?res\<lparr>sr_is_leaf := True, sr_level := 0, sr_slibing := q\<rparr>"
  have first: "run (mem_handler E) (search_node (Suc f) ?I p key False ?res path) (r, e') = Inr ((True, ?res1, path[0 := p]), (r, e'))"
    using search_node_beyond_run [of r ?I key p q path E f ?res e'] assms by simp
  have stuck: "run (mem_handler E) (s_read_loop f ?I key (s_root ?I r) True None q ?res1 (path[0 := p])) (r, e') = Inl Diverges"
    by (rule s_read_loop_stuck) (use assms Suc in simp_all)
  have "run (mem_handler E) (s_read_loop (Suc f) ?I key (s_root ?I r) True (Some h) p ?res path) (r, e') = Inl Diverges"
    using first stuck assms(10) Suc by (simp add: run_bind Let_def key_ne_iff length_ArrayVar s_track_def mem_run)
  then show ?thesis
    using assms(4-6) s_get_root_offset_run [OF assms(1), of ?I E e] assms(17) Suc
    by (simp add: sherman_read_def run_bind mem_run Let_def)
qed

text \<open>Two leaves: the first ends at 5 and has the second, which starts there, as its sibling; the cache has their parent from before.\<close>

definition stale_page :: "GlobalAddress \<Rightarrow> bytes \<Rightarrow> bytes \<Rightarrow> SLeafPage" where
  "stale_page sibling lo hi = (s_root_page sample_config)\<lparr>l_hdr := (SHeader_init sample_config 0)
     \<lparr>s_sibling_ptr := sibling, s_lowest := lo, s_highest := hi\<rparr>\<rparr>"

definition stale_memory :: rmemory where
  "stale_memory = rm_store (rm_store s_zeros (GlobalAddress_raw 64) (enc_sleaf sample_config (stale_page (GlobalAddress_raw 2048) [0] [5])))
     (GlobalAddress_raw 2048) (enc_sleaf sample_config (stale_page Null [5] [255]))"

definition stale_entry :: ShermanCacheEntry where
  "stale_entry = \<lparr>s_start = [0], s_end = [100], s_item = (0, SInternalPage_root sample_config (GlobalAddress_raw 64) [20] (GlobalAddress_raw 64) 1)\<rparr>"

lemma stale_page_facts:
  assumes "length lo = 1" and "length hi = 1"
  shows "sleaf_wf sample_config (stale_page g lo hi)" "live_records (stale_page g lo hi) = []"
    "l_lock (stale_page g lo hi) = 0" "l_check_consistent (stale_page g lo hi)"
    "l_hdr (stale_page g lo hi) = \<lparr>s_leftmost_ptr = Null, s_sibling_ptr = g, s_level = 0, s_last_index = - 1, s_lowest = lo, s_highest = hi\<rparr>"
    "length (enc_sleaf sample_config (stale_page g lo hi)) = 1024"
proof -
  note f = s_root_page_facts [of sample_config]
  show wf: "sleaf_wf sample_config (stale_page g lo hi)"
    using f(2) assms by (simp add: stale_page_def sleaf_wf_def sheader_wf_def s_sample_config)
  show "live_records (stale_page g lo hi) = []" using f(1) by (simp add: stale_page_def live_records_def)
  show "l_lock (stale_page g lo hi) = 0" "l_check_consistent (stale_page g lo hi)"
    using f(3,4) by (simp_all add: stale_page_def l_check_consistent_def)
  show "l_hdr (stale_page g lo hi) = \<lparr>s_leftmost_ptr = Null, s_sibling_ptr = g, s_level = 0, s_last_index = - 1, s_lowest = lo, s_highest = hi\<rparr>"
    by (simp add: stale_page_def SHeader_init_def)
  show "length (enc_sleaf sample_config (stale_page g lo hi)) = 1024"
    using length_enc_sleaf [OF s_sample_config(1) wf] by (simp add: kLeafPageSize_def)
qed

lemma stale_memory_facts:
  "rm_ok stale_memory" "rm_valid stale_memory g n = rm_valid s_zeros g n"
  "sleaf_at sample_config stale_memory (GlobalAddress_raw 64) = stale_page (GlobalAddress_raw 2048) [0] [5]"
  "sleaf_at sample_config stale_memory (GlobalAddress_raw 2048) = stale_page Null [5] [255]"
proof -
  let ?a = "enc_sleaf sample_config (stale_page (GlobalAddress_raw 2048) [0] [5])" and ?b = "enc_sleaf sample_config (stale_page Null [5] [255])"
  let ?r = "rm_store s_zeros (GlobalAddress_raw 64) ?a"
  note a = stale_page_facts [of "[0]" "[5]" "GlobalAddress_raw 2048"] and b = stale_page_facts [of "[5]" "[255]" Null]
  have va: "rm_valid s_zeros (GlobalAddress_raw 64) (length ?a)" "rm_valid s_zeros (GlobalAddress_raw 2048) 1024"
    using a(6) s_zeros_facts(3) by (simp_all add: rm_valid_def s_zeros_def s_sample_addresses)
  have vb: "rm_valid ?r (GlobalAddress_raw 2048) (length ?b)" "rm_valid ?r (GlobalAddress_raw 64) 1024"
    using va b(6) a(6) rm_valid_store [OF va(1)] by simp_all
  have ap: "apart (GlobalAddress_raw 2048) 1024 (GlobalAddress_raw 64) 1024" by (simp add: apart_def s_sample_addresses)
  show "rm_ok stale_memory" using rm_ok_store [OF vb(1)] rm_ok_store [OF va(1)] rm_small_ok [OF s_zeros_facts(1)] by (simp add: stale_memory_def)
  show "rm_valid stale_memory g n = rm_valid s_zeros g n" using rm_valid_store [OF vb(1)] rm_valid_store [OF va(1)] by (simp add: stale_memory_def)
  have "sleaf_at sample_config stale_memory (GlobalAddress_raw 64) = sleaf_at sample_config ?r (GlobalAddress_raw 64)"
    using rm_load_store_apart [OF vb] ap b(6) by (simp add: stale_memory_def sleaf_at_def kLeafPageSize_def)
  then show "sleaf_at sample_config stale_memory (GlobalAddress_raw 64) = stale_page (GlobalAddress_raw 2048) [0] [5]"
    using sleaf_at_store [OF _ s_sample_config(1) a(1), of s_zeros "GlobalAddress_raw 64"] va(1) a(6) by (simp add: kLeafPageSize_def)
  show "sleaf_at sample_config stale_memory (GlobalAddress_raw 2048) = stale_page Null [5] [255]"
    using sleaf_at_store [OF _ s_sample_config(1) b(1), of ?r "GlobalAddress_raw 2048"] vb(1) b(6) by (simp add: kLeafPageSize_def stale_memory_def)
qed

theorem sherman_read_stale_cache_loops_witness:
  "\<forall>n. run (mem_handler (s_sample_env\<lparr>e_search := (\<lambda>key e. (Some (0, stale_entry), e))\<rparr>))
    (sherman_read ((s_sample_index False)\<lparr>s_has_cache := True, s_fuel := n\<rparr>) [9] before_operation) (stale_memory, 0) = Inl Diverges"
proof
  fix n
  let ?E = "s_sample_env\<lparr>e_search := (\<lambda>key e. (Some (0, stale_entry), e))\<rparr>" and ?I = "(s_sample_index False)\<lparr>s_has_cache := True\<rparr>"
  note a = stale_page_facts [of "[0]" "[5]" "GlobalAddress_raw 2048"] and b = stale_page_facts [of "[5]" "[255]" Null] and m = stale_memory_facts
  have route: "get_leaf_from_cache_entry stale_entry [9] = Inr (GlobalAddress_raw 64)"
    by (simp add: get_leaf_from_cache_entry_def stale_entry_def select_child_def SInternalPage_root_def Let_def key_gt_iff key_le_iff key_lt_iff
        kInternalCardinality_def kInternalPageSize_def sizeof_SHeader_def sizeof_SInternalEntry_def s_sample_config)
  have v: "rm_valid s_zeros (GlobalAddress_raw 64) 1024" "rm_valid s_zeros (GlobalAddress_raw 2048) 1024" "rm_valid s_zeros (GlobalAddress_raw 8) 8"
    by (simp_all add: rm_valid_def s_zeros_def s_sample_addresses)
  have pages: "s_leaf_page sample_config stale_memory (GlobalAddress_raw 64)" "s_leaf_page sample_config stale_memory (GlobalAddress_raw 2048)"
    using v a b by (simp_all add: s_leaf_page_def m)
  have q: "s_leaf_ok sample_config stale_memory (sleaf_at sample_config stale_memory (GlobalAddress_raw 2048))"
    "s_leaf_map sample_config stale_memory (sleaf_at sample_config stale_memory (GlobalAddress_raw 2048)) [9] = None"
    using b s_sample_config by (simp_all add: s_leaf_ok_def s_leaf_map_def m)
  have ne: "GlobalAddress_raw 2048 \<noteq> GlobalAddress_raw 64" by code_simp
  have "run (mem_handler ?E) (sherman_read (?I\<lparr>s_fuel := n\<rparr>) [9] before_operation) (stale_memory, 0) = Inl Diverges"
    by (rule sherman_read_stale_cache_loops [where h = 0 and entry = stale_entry and e' = 0 and p = "GlobalAddress_raw 64" and q = "GlobalAddress_raw 2048"])
      (use route v pages q a(5) b(5) ne s_sample_addresses(8) s_sample_config in \<open>simp_all add: m before_operation_def kMaxLevelOfTree_def s_sample_env_def\<close>)
  then show "run (mem_handler ?E) (sherman_read ((s_sample_index False)\<lparr>s_has_cache := True, s_fuel := n\<rparr>) [9] before_operation) (stale_memory, 0) = Inl Diverges"
    by simp
qed

subsection \<open>Pages and their images\<close>



end
