(* ===== verification/Range_Cache.thy ===== *)
theory Range_Cache
  imports Allocators Array_Var
begin

text \<open>
  \<^verbatim>\<open>src/src/cache/range_cache.hpp\<close>: the cache of key ranges that the indexes keep for their inner nodes. Its entries live in
  the slabs of a \<^verbatim>\<open>SlabAllocator\<close> that does not grow, are linked in a skip list ordered by their start, and are handed back
  through a queue of retired entries once no thread is in an epoch in which it may still see them. The skip list and the queues are
  third-party code: the record \<open>cache_deps\<close> holds their operations, \<open>skiplist_law\<close> and \<open>queue_law\<close> what their documentation
  promises. \<open>rc_heap\<close> is the memory of the entries that are constructed and not yet destroyed; an access elsewhere is undefined
  behaviour. A thread is a number; the thread-local variables of the code are functions of it. The operations are composed of
  smaller ones (entering and leaving a guard, allocating and linking an entry, erasing and retiring one, reclaiming a batch), so that
  \<open>cache_step\<close> can interleave these parts of the operations of several threads, each part taken as atomic.
\<close>

subsection \<open>Third-party code\<close>

record 'l skiplist_ops =
  sl_empty :: 'l
  sl_find_smaller_or_equal :: "(u64 \<Rightarrow> bytes) \<Rightarrow> bytes \<Rightarrow> 'l \<Rightarrow> u64 option"
  sl_insert :: "(u64 \<Rightarrow> bytes) \<Rightarrow> u64 \<Rightarrow> 'l \<Rightarrow> 'l"
  sl_erase_node :: "u64 \<Rightarrow> 'l \<Rightarrow> 'l option"
  sl_num_entries :: "'l \<Rightarrow> u32"
  sl_top_layer :: "'l \<Rightarrow> nat"
  sl_layer_entries :: "'l \<Rightarrow> nat \<Rightarrow> u32"
  sl_next :: "'l \<Rightarrow> nat \<Rightarrow> u64 option \<Rightarrow> u64 option"

text \<open>
  The nodes are given by their addresses; the first argument of the search and of the insertion is the comparison, here by the
  key of a node, which is an order on keys of one length. \<open>sl_erase_node\<close> is \<open>None\<close> when the code's function returns an error. \<open>sl_next\<close> follows the links of a
  layer from a node or, for \<open>None\<close>, from the head; it is \<open>None\<close> at the tail.
\<close>

definition skiplist_law :: "'l skiplist_ops \<Rightarrow> ('l \<Rightarrow> u64 set) \<Rightarrow> bool" where
  "skiplist_law S nodes \<longleftrightarrow>
     nodes (sl_empty S) = {} \<and> (\<forall>l. finite (nodes l)) \<and>
     (\<forall>key k l. sl_find_smaller_or_equal S key k l = None \<longrightarrow> (\<forall>b \<in> nodes l. length (key b) = length k) \<longrightarrow> (\<forall>b \<in> nodes l. \<not> key_le (key b) k)) \<and>
     (\<forall>key k l a. sl_find_smaller_or_equal S key k l = Some a \<longrightarrow> a \<in> nodes l) \<and>
     (\<forall>key k l a. sl_find_smaller_or_equal S key k l = Some a \<longrightarrow> (\<forall>b \<in> nodes l. length (key b) = length k) \<longrightarrow>
        key_le (key a) k \<and> (\<forall>b \<in> nodes l. key_le (key b) k \<longrightarrow> key_le (key b) (key a))) \<and>
     (\<forall>key a l. nodes (sl_insert S key a l) = insert a (nodes l)) \<and>
     (\<forall>a l. sl_erase_node S a l = None \<longrightarrow> a \<notin> nodes l) \<and>
     (\<forall>a l l'. sl_erase_node S a l = Some l' \<longrightarrow> a \<in> nodes l \<and> nodes l' = nodes l - {a}) \<and>
     (\<forall>l lvl x a. sl_next S l lvl x = Some a \<longrightarrow> a \<in> nodes l)"

record RetiredItem =
  ri_offset :: u64
  retire_epoch :: u64

record ('l, 'q, 'r) cache_deps =
  d_list :: "'l skiplist_ops"
  d_free :: "(u64, 'q) queue_ops"
  d_free_count :: "'q \<Rightarrow> nat"
  d_retired :: "(RetiredItem, 'r) queue_ops"

subsection \<open>State\<close>

record 'c Entry =
  en_start :: bytes
  en_end :: bytes
  en_item :: 'c
  last_access :: u64

definition Entry_init :: "bytes \<Rightarrow> bytes \<Rightarrow> 'c \<Rightarrow> 'c Entry" where
  "Entry_init s e v = \<lparr>en_start = s, en_end = e, en_item = v, last_access = 0\<rparr>"

record ('l, 'q, 'r, 'c) RangeCache =
  rc_list :: 'l
  rc_slab :: "'q SlabAllocator"
  rc_heap :: "u64 \<rightharpoonup> 'c Entry"
  access_update_interval :: u64
  global_epoch :: u64
  registry :: "(nat \<times> u64) list"
  retired_q :: 'r
  tls_access_counter :: "nat \<Rightarrow> u64"
  tls_xorshift_state :: "nat \<Rightarrow> u32"
  xorshift_seed :: "nat \<Rightarrow> u32"
  ts_epoch :: u64
  ts_local :: "nat \<Rightarrow> u64"

text \<open>
  A new cache; the slab comes from \<open>SlabAllocator_new\<close> over the heap allocator. The numbers that replace a zero state of the
  random generator are drawn from \<^verbatim>\<open>std::random_device\<close>: an argument.
\<close>

definition RangeCache_init ::
  "('l, 'q, 'r) cache_deps \<Rightarrow> 'q SlabAllocator \<Rightarrow> u64 \<Rightarrow> (nat \<Rightarrow> u32) \<Rightarrow> ('l, 'q, 'r, 'c) RangeCache" where
  "RangeCache_init D slab interval seed =
     \<lparr>rc_list = sl_empty (d_list D), rc_slab = slab, rc_heap = Map.empty, access_update_interval = interval, global_epoch = 1,
      registry = [], retired_q = q_empty (d_retired D), tls_access_counter = (\<lambda>_. 0), tls_xorshift_state = (\<lambda>_. 0),
      xorshift_seed = seed, ts_epoch = 1, ts_local = (\<lambda>_. 0)\<rparr>"

definition start_of :: "('l, 'q, 'r, 'c) RangeCache \<Rightarrow> u64 \<Rightarrow> bytes" where
  "start_of rc a = (case rc_heap rc a of Some e \<Rightarrow> en_start e | None \<Rightarrow> [])"

subsection \<open>Timestamps and random numbers\<close>

definition next_timestamp :: "nat \<Rightarrow> ('l, 'q, 'r, 'c) RangeCache \<Rightarrow> u64 \<times> ('l, 'q, 'r, 'c) RangeCache" where
  "next_timestamp tid rc =
     (let l = ts_local rc tid; rc1 = rc\<lparr>ts_local := (ts_local rc)(tid := l + 1)\<rparr> in
      if l \<le> 1023 then (push_bit 10 (ts_epoch rc1) OR l, rc1)
      else (push_bit 10 (ts_epoch rc1 + 1), rc1\<lparr>ts_local := (ts_local rc1)(tid := 0), ts_epoch := ts_epoch rc1 + 1\<rparr>))"

definition tls_xorshift :: "nat \<Rightarrow> ('l, 'q, 'r, 'c) RangeCache \<Rightarrow> u32 \<times> ('l, 'q, 'r, 'c) RangeCache" where
  "tls_xorshift tid rc =
     (let x0 = (if tls_xorshift_state rc tid = 0 then xorshift_seed rc tid else tls_xorshift_state rc tid);
          x1 = x0 XOR push_bit 13 x0; x2 = x1 XOR drop_bit 17 x1; x3 = x2 XOR push_bit 5 x2
      in (x3, rc\<lparr>tls_xorshift_state := (tls_xorshift_state rc)(tid := x3)\<rparr>))"

definition update_access :: "nat \<Rightarrow> u64 \<Rightarrow> ('l, 'q, 'r, 'c) RangeCache \<Rightarrow> ('l, 'q, 'r, 'c) RangeCache" where
  "update_access tid a rc =
     (let c = tls_access_counter rc tid; rc1 = rc\<lparr>tls_access_counter := (tls_access_counter rc)(tid := c + 1)\<rparr> in
      if c AND (access_update_interval rc - 1) = 0
      then (let (ts, rc2) = next_timestamp tid rc1
            in rc2\<lparr>rc_heap := (rc_heap rc2)(a := map_option (\<lambda>e. e\<lparr>last_access := ts\<rparr>) (rc_heap rc2 a))\<rparr>)
      else rc1)"

subsection \<open>Epochs\<close>

definition set_epoch :: "nat \<Rightarrow> u64 \<Rightarrow> (nat \<times> u64) list \<Rightarrow> (nat \<times> u64) list" where
  "set_epoch tid e reg =
     (if tid \<in> fst ` set reg then map (\<lambda>(t, x). (t, if t = tid then e else x)) reg else (tid, e) # reg)"

definition guard_enter :: "nat \<Rightarrow> ('l, 'q, 'r, 'c) RangeCache \<Rightarrow> ('l, 'q, 'r, 'c) RangeCache" where
  "guard_enter tid rc = rc\<lparr>registry := set_epoch tid (global_epoch rc) (registry rc)\<rparr>"

definition guard_exit :: "nat \<Rightarrow> ('l, 'q, 'r, 'c) RangeCache \<Rightarrow> ('l, 'q, 'r, 'c) RangeCache" where
  "guard_exit tid rc = rc\<lparr>registry := set_epoch tid 0 (registry rc)\<rparr>"

definition scan_min_epoch :: "('l, 'q, 'r, 'c) RangeCache \<Rightarrow> u64" where
  "scan_min_epoch rc =
     (let m = fold (\<lambda>(t, e) m. if e \<noteq> 0 \<and> e < m then e else m) (registry rc) (- 1)
      in if m = - 1 then global_epoch rc else m)"

definition retire_entry :: "('l, 'q, 'r) cache_deps \<Rightarrow> u64 \<Rightarrow> ('l, 'q, 'r, 'c) RangeCache \<Rightarrow> ('l, 'q, 'r, 'c) RangeCache" where
  "retire_entry D offset rc =
     rc\<lparr>retired_q := q_enqueue (d_retired D) \<lparr>ri_offset = offset, retire_epoch = global_epoch rc\<rparr> (retired_q rc)\<rparr>"

text \<open>The destructor of an entry and the return of its slab: a second destruction of an entry would be undefined behaviour.\<close>

definition free_entry :: "('l, 'q, 'r) cache_deps \<Rightarrow> u64 \<Rightarrow> ('l, 'q, 'r, 'c) RangeCache \<Rightarrow> err + ('l, 'q, 'r, 'c) RangeCache" where
  "free_entry D off rc =
     (if rc_heap rc off = None then Inl UndefinedBehaviour
      else Inr (rc\<lparr>rc_heap := (rc_heap rc)(off := None), rc_slab := slab_free (d_free D) off (rc_slab rc)\<rparr>))"

primrec take_retired :: "nat \<Rightarrow> (RetiredItem, 'r) queue_ops \<Rightarrow> 'r \<Rightarrow> RetiredItem list \<times> 'r" where
  "take_retired 0 R q = ([], q)"
| "take_retired (Suc n) R q =
     (case q_try_dequeue R q of
        None \<Rightarrow> ([], q)
      | Some (ri, q') \<Rightarrow> (let (batch, q'') = take_retired n R q' in (ri # batch, q'')))"

fun free_all :: "('l, 'q, 'r) cache_deps \<Rightarrow> u64 list \<Rightarrow> ('l, 'q, 'r, 'c) RangeCache \<Rightarrow> err + ('l, 'q, 'r, 'c) RangeCache" where
  "free_all D [] rc = Inr rc"
| "free_all D (off # offs) rc = (case free_entry D off rc of Inl e \<Rightarrow> Inl e | Inr rc' \<Rightarrow> free_all D offs rc')"

definition try_reclaim_budgeted ::
  "('l, 'q, 'r) cache_deps \<Rightarrow> nat \<Rightarrow> ('l, 'q, 'r, 'c) RangeCache \<Rightarrow> err + ('l, 'q, 'r, 'c) RangeCache" where
  "try_reclaim_budgeted D budget rc =
     (let (batch, q) = take_retired budget (d_retired D) (retired_q rc); rc1 = rc\<lparr>retired_q := q\<rparr> in
      if batch = [] then Inr rc1
      else let min_epoch = scan_min_epoch rc1;
               to_reenqueue = filter (\<lambda>r. \<not> retire_epoch r < min_epoch) batch
           in case free_all D (map ri_offset (filter (\<lambda>r. retire_epoch r < min_epoch) batch)) rc1 of
                Inl e \<Rightarrow> Inl e
              | Inr rc2 \<Rightarrow>
                  Inr (rc2\<lparr>retired_q := fold (q_enqueue (d_retired D)) to_reenqueue (retired_q rc2),
                           global_epoch := (if to_reenqueue = [] then global_epoch rc2 else global_epoch rc2 + 1)\<rparr>))"

subsection \<open>Entries\<close>

definition alloc_entry ::
  "('l, 'q, 'r) cache_deps \<Rightarrow> bytes \<Rightarrow> bytes \<Rightarrow> 'c \<Rightarrow> ('l, 'q, 'r, 'c) RangeCache \<Rightarrow> u64 option \<times> ('l, 'q, 'r, 'c) RangeCache" where
  "alloc_entry D s e item rc =
     (let (off, slab) = allocate_nogrowth (d_free D) (rc_slab rc) in
      if off = - 1 then (None, rc\<lparr>rc_slab := slab\<rparr>)
      else (Some off, rc\<lparr>rc_slab := slab, rc_heap := (rc_heap rc)(off \<mapsto> Entry_init s e item)\<rparr>))"

text \<open>Erasing a node and retiring its entry, as \<^verbatim>\<open>invalidate\<close> and the eviction do: the node must be that of a constructed entry.\<close>

definition erase_and_retire ::
  "('l, 'q, 'r) cache_deps \<Rightarrow> u64 \<Rightarrow> ('l, 'q, 'r, 'c) RangeCache \<Rightarrow> err + ('l, 'q, 'r, 'c) RangeCache" where
  "erase_and_retire D a rc =
     (if rc_heap rc a = None then Inl UndefinedBehaviour
      else (case sl_erase_node (d_list D) a (rc_list rc) of
              None \<Rightarrow> Inr rc
            | Some l \<Rightarrow> Inr (retire_entry D a (rc\<lparr>rc_list := l\<rparr>))))"

primrec walk :: "nat \<Rightarrow> 'l skiplist_ops \<Rightarrow> 'l \<Rightarrow> nat \<Rightarrow> u64 option \<Rightarrow> u64 option" where
  "walk 0 S l lvl x = x"
| "walk (Suc idx) S l lvl x = (if sl_next S l lvl x \<noteq> None then walk idx S l lvl (sl_next S l lvl x) else x)"

fun pick_layer :: "'l skiplist_ops \<Rightarrow> 'l \<Rightarrow> u32 \<Rightarrow> u32 \<Rightarrow> nat list \<Rightarrow> nat" where
  "pick_layer S l r accum [] = 0"
| "pick_layer S l r accum (L # Ls) =
     (let accum' = accum + sl_layer_entries S l L in if r < accum' then L else pick_layer S l r accum' Ls)"

definition pick_victim_sample ::
  "('l, 'q, 'r) cache_deps \<Rightarrow> nat \<Rightarrow> ('l, 'q, 'r, 'c) RangeCache \<Rightarrow> err + (u64 option \<times> ('l, 'q, 'r, 'c) RangeCache)" where
  "pick_victim_sample D tid rc =
     (let S = d_list D; l = rc_list rc; total = sl_num_entries S l in
      if total = 0 then Inr (None, rc)
      else let (r, rc1) = tls_xorshift tid rc;
               lvl = pick_layer S l (r mod total) 0 [0..<Suc (sl_top_layer S l)];
               (r2, rc2) = tls_xorshift tid rc1
           in if sl_layer_entries S l lvl = 0 then Inl UndefinedBehaviour
              else Inr (sl_next S l lvl (walk (unat (r2 mod sl_layer_entries S l lvl)) S l lvl None), rc2))"

definition access_of :: "('l, 'q, 'r, 'c) RangeCache \<Rightarrow> u64 \<Rightarrow> err + u64" where
  "access_of rc a = (case rc_heap rc a of None \<Rightarrow> Inl UndefinedBehaviour | Some e \<Rightarrow> Inr (last_access e))"

definition evict_power_of_two ::
  "('l, 'q, 'r) cache_deps \<Rightarrow> nat \<Rightarrow> ('l, 'q, 'r, 'c) RangeCache \<Rightarrow> err + ('l, 'q, 'r, 'c) RangeCache" where
  "evict_power_of_two D tid rc =
     (if d_free_count D (free_list (rc_slab rc)) > 0 then Inr rc
      else case pick_victim_sample D tid rc of
        Inl e \<Rightarrow> Inl e
      | Inr (None, rc1) \<Rightarrow> Inr rc1
      | Inr (Some v1, rc1) \<Rightarrow>
          (case pick_victim_sample D tid rc1 of
             Inl e \<Rightarrow> Inl e
           | Inr (None, rc2) \<Rightarrow> Inr rc2
           | Inr (Some v2, rc2) \<Rightarrow>
               (case (access_of rc2 v1, access_of rc2 v2) of
                  (Inr a1, Inr a2) \<Rightarrow> erase_and_retire D (if a1 < a2 then v1 else v2) rc2
                | _ \<Rightarrow> Inl UndefinedBehaviour)))"

subsection \<open>The operations\<close>

definition find_entry ::
  "('l, 'q, 'r) cache_deps \<Rightarrow> bytes \<Rightarrow> ('l, 'q, 'r, 'c) RangeCache \<Rightarrow> err + u64 option" where
  "find_entry D key rc =
     (case sl_find_smaller_or_equal (d_list D) (start_of rc) key (rc_list rc) of
        None \<Rightarrow> Inr None
      | Some a \<Rightarrow>
          (case rc_heap rc a of
             None \<Rightarrow> Inl UndefinedBehaviour
           | Some e \<Rightarrow> Inr (if key_ge key (en_start e) \<and> key_lt key (en_end e) then Some a else None)))"

definition cache_search ::
  "('l, 'q, 'r) cache_deps \<Rightarrow> nat \<Rightarrow> bytes \<Rightarrow> ('l, 'q, 'r, 'c) RangeCache \<Rightarrow> err + (u64 option \<times> ('l, 'q, 'r, 'c) RangeCache)" where
  "cache_search D tid key rc =
     (let rc1 = guard_enter tid rc in
      case find_entry D key rc1 of
        Inl e \<Rightarrow> Inl e
      | Inr None \<Rightarrow> Inr (None, guard_exit tid rc1)
      | Inr (Some a) \<Rightarrow> Inr (Some a, guard_exit tid (update_access tid a rc1)))"

primrec add_attempts ::
  "nat \<Rightarrow> ('l, 'q, 'r) cache_deps \<Rightarrow> nat \<Rightarrow> bytes \<Rightarrow> bytes \<Rightarrow> 'c \<Rightarrow> ('l, 'q, 'r, 'c) RangeCache \<Rightarrow> err + ('l, 'q, 'r, 'c) RangeCache" where
  "add_attempts 0 D tid s e item rc = Inr rc"
| "add_attempts (Suc n) D tid s e item rc =
     (case alloc_entry D s e item rc of
        (Some a, rc1) \<Rightarrow> Inr (rc1\<lparr>rc_list := sl_insert (d_list D) (start_of rc1) a (rc_list rc1)\<rparr>)
      | (None, rc1) \<Rightarrow>
          (case try_reclaim_budgeted D 64 rc1 of
             Inl er \<Rightarrow> Inl er
           | Inr rc2 \<Rightarrow>
               (case evict_power_of_two D tid rc2 of
                  Inl er \<Rightarrow> Inl er
                | Inr rc3 \<Rightarrow> add_attempts n D tid s e item rc3)))"

definition cache_add ::
  "('l, 'q, 'r) cache_deps \<Rightarrow> nat \<Rightarrow> bytes \<Rightarrow> bytes \<Rightarrow> 'c \<Rightarrow> ('l, 'q, 'r, 'c) RangeCache \<Rightarrow> err + ('l, 'q, 'r, 'c) RangeCache" where
  "cache_add D tid s e item rc =
     (case add_attempts 3 D tid s e item (guard_enter tid rc) of Inl er \<Rightarrow> Inl er | Inr rc' \<Rightarrow> Inr (guard_exit tid rc'))"

definition cache_invalidate ::
  "('l, 'q, 'r) cache_deps \<Rightarrow> nat \<Rightarrow> u64 \<Rightarrow> ('l, 'q, 'r, 'c) RangeCache \<Rightarrow> err + ('l, 'q, 'r, 'c) RangeCache" where
  "cache_invalidate D tid e rc =
     (if e = 0 then Inr rc
      else case erase_and_retire D e (guard_enter tid rc) of Inl er \<Rightarrow> Inl er | Inr rc' \<Rightarrow> Inr (guard_exit tid rc'))"

primrec cache_destroy ::
  "nat \<Rightarrow> ('l, 'q, 'r) cache_deps \<Rightarrow> ('l, 'q, 'r, 'c) RangeCache \<Rightarrow> err + ('l, 'q, 'r, 'c) RangeCache" where
  "cache_destroy 0 D rc = Inl Diverges"
| "cache_destroy (Suc n) D rc =
     (case q_try_dequeue (d_retired D) (retired_q rc) of
        None \<Rightarrow> Inr rc
      | Some (ri, q) \<Rightarrow>
          (case free_entry D (ri_offset ri) (rc\<lparr>retired_q := q\<rparr>) of Inl e \<Rightarrow> Inl e | Inr rc' \<Rightarrow> cache_destroy n D rc'))"

subsection \<open>Where the slabs are\<close>

definition deps_law :: "('l, 'q, 'r) cache_deps \<Rightarrow> ('l \<Rightarrow> u64 set) \<Rightarrow> ('q \<Rightarrow> u64 multiset) \<Rightarrow> ('r \<Rightarrow> RetiredItem multiset) \<Rightarrow> bool" where
  "deps_law D nodes felems relems \<longleftrightarrow> skiplist_law (d_list D) nodes \<and> queue_law (d_free D) felems \<and> queue_law (d_retired D) relems \<and>
     (\<forall>q. d_free_count D q = size (felems q))"

lemma deps_laws:
  assumes "deps_law D nodes felems relems"
  shows "skiplist_law (d_list D) nodes" "queue_law (d_free D) felems" "queue_law (d_retired D) relems" "d_free_count D q = size (felems q)"
  using assms by (simp_all add: deps_law_def)

lemma skiplist_laws:
  assumes "skiplist_law S nodes"
  shows "nodes (sl_empty S) = {}" "finite (nodes l)" "nodes (sl_insert S key a l) = insert a (nodes l)"
    "sl_erase_node S a l = None \<Longrightarrow> a \<notin> nodes l" "sl_erase_node S a l = Some l' \<Longrightarrow> a \<in> nodes l \<and> nodes l' = nodes l - {a}"
    "sl_next S l lvl x = Some a \<Longrightarrow> a \<in> nodes l"
    "sl_find_smaller_or_equal S key k l = None \<Longrightarrow> \<forall>b \<in> nodes l. length (key b) = length k \<Longrightarrow> \<forall>b \<in> nodes l. \<not> key_le (key b) k"
    "sl_find_smaller_or_equal S key k l = Some a \<Longrightarrow> a \<in> nodes l"
    "sl_find_smaller_or_equal S key k l = Some a \<Longrightarrow> \<forall>b \<in> nodes l. length (key b) = length k \<Longrightarrow> key_le (key a) k \<and> (\<forall>b \<in> nodes l. key_le (key b) k \<longrightarrow> key_le (key b) (key a))"
  using assms unfolding skiplist_law_def by (elim conjE; simp)+

text \<open>
  Every slab of the cache is free, or holds an entry of the list, or holds a retired entry. A cache is in order when no slab is in two of
  these places and the constructed entries are those of the list and the retired ones.
\<close>

definition slots ::
  "('l \<Rightarrow> u64 set) \<Rightarrow> ('q \<Rightarrow> u64 multiset) \<Rightarrow> ('r \<Rightarrow> RetiredItem multiset) \<Rightarrow> ('l, 'q, 'r, 'c) RangeCache \<Rightarrow> u64 multiset" where
  "slots nodes felems relems rc =
     felems (free_list (rc_slab rc)) + mset_set (nodes (rc_list rc)) + image_mset ri_offset (relems (retired_q rc))"

definition cache_ok ::
  "('l \<Rightarrow> u64 set) \<Rightarrow> ('q \<Rightarrow> u64 multiset) \<Rightarrow> ('r \<Rightarrow> RetiredItem multiset) \<Rightarrow> ('l, 'q, 'r, 'c) RangeCache \<Rightarrow> bool" where
  "cache_ok nodes felems relems rc \<longleftrightarrow>
     (\<forall>x. count (slots nodes felems relems rc) x \<le> 1) \<and> - 1 \<notin># slots nodes felems relems rc \<and>
     dom (rc_heap rc) = nodes (rc_list rc) \<union> ri_offset ` set_mset (relems (retired_q rc))"

lemma slots_apart:
  assumes "\<forall>x. count (A + mset_set N + B) x \<le> (1 :: nat)" and "finite N"
  shows "a \<in># A \<Longrightarrow> a \<notin> N \<and> a \<notin># B" and "a \<in> N \<Longrightarrow> a \<notin># B"
proof -
  have "count A a + count (mset_set N) a + count B a \<le> 1" using assms(1) by simp
  moreover have "a \<in> N \<Longrightarrow> count (mset_set N) a = 1" using assms(2) by simp
  ultimately show "a \<in># A \<Longrightarrow> a \<notin> N \<and> a \<notin># B" and "a \<in> N \<Longrightarrow> a \<notin># B"
    by (auto simp: count_eq_zero_iff [symmetric] simp flip: count_greater_zero_iff)
qed

lemma update_access_core [simp]:
  "rc_list (update_access tid a rc) = rc_list rc" "rc_slab (update_access tid a rc) = rc_slab rc"
  "retired_q (update_access tid a rc) = retired_q rc" "registry (update_access tid a rc) = registry rc"
  "global_epoch (update_access tid a rc) = global_epoch rc" "dom (rc_heap (update_access tid a rc)) = dom (rc_heap rc)"
  by (auto simp: update_access_def next_timestamp_def Let_def split: if_splits)

lemma guard_core [simp]:
  "rc_list (guard_enter tid rc) = rc_list rc" "rc_slab (guard_enter tid rc) = rc_slab rc" "retired_q (guard_enter tid rc) = retired_q rc"
  "global_epoch (guard_enter tid rc) = global_epoch rc" "rc_heap (guard_enter tid rc) = rc_heap rc"
  "rc_list (guard_exit tid rc) = rc_list rc" "rc_slab (guard_exit tid rc) = rc_slab rc" "retired_q (guard_exit tid rc) = retired_q rc"
  "global_epoch (guard_exit tid rc) = global_epoch rc" "rc_heap (guard_exit tid rc) = rc_heap rc"
  by (simp_all add: guard_enter_def guard_exit_def)

lemma cache_ok_cong:
  assumes "rc_list rc' = rc_list rc" and "rc_slab rc' = rc_slab rc" and "retired_q rc' = retired_q rc" and "dom (rc_heap rc') = dom (rc_heap rc)"
  shows "cache_ok nodes felems relems rc' = cache_ok nodes felems relems rc" and "slots nodes felems relems rc' = slots nodes felems relems rc"
  by (simp_all add: cache_ok_def slots_def assms)

lemma put_keeps:
  assumes law: "deps_law D nodes felems relems" and ok: "cache_ok nodes felems relems rc"
    and al: "alloc_entry D s e item rc = (Some a, rc1)" and rc': "rc' = rc1\<lparr>rc_list := sl_insert (d_list D) key a (rc_list rc1)\<rparr>"
  shows "slots nodes felems relems rc' = slots nodes felems relems rc" and "cache_ok nodes felems relems rc'"
    and "rc_heap rc a = None" and "rc_heap rc' = (rc_heap rc)(a \<mapsto> Entry_init s e item)" and "nodes (rc_list rc') = insert a (nodes (rc_list rc))"
    and "retired_q rc' = retired_q rc" and "registry rc' = registry rc" and "global_epoch rc' = global_epoch rc"
proof -
  note S = skiplist_laws [OF deps_laws(1) [OF law]]
  obtain q where q: "q_try_dequeue (d_free D) (free_list (rc_slab rc)) = Some (a, q)" "rc1 = rc\<lparr>rc_slab := (rc_slab rc)\<lparr>free_list := q\<rparr>, rc_heap := (rc_heap rc)(a \<mapsto> Entry_init s e item)\<rparr>"
    using al by (auto simp: alloc_entry_def allocate_nogrowth_def Let_def split: option.splits if_splits)
  have f: "felems (free_list (rc_slab rc)) = add_mset a (felems q)" by (rule queue_law_Some [OF deps_laws(2) [OF law] q(1)])
  have u: "\<forall>x. count (felems (free_list (rc_slab rc)) + mset_set (nodes (rc_list rc)) + image_mset ri_offset (relems (retired_q rc))) x \<le> 1"
    using ok by (simp add: cache_ok_def slots_def)
  have a: "a \<notin> nodes (rc_list rc)" "a \<notin># image_mset ri_offset (relems (retired_q rc))"
    using slots_apart(1) [OF u S(2), of a] f by auto
  show nodes: "nodes (rc_list rc') = insert a (nodes (rc_list rc))" using q(2) S(3) by (simp add: rc')
  show same: "slots nodes felems relems rc' = slots nodes felems relems rc"
    unfolding slots_def nodes using f a(1) S(2) q(2) by (simp add: rc')
  show heap: "rc_heap rc' = (rc_heap rc)(a \<mapsto> Entry_init s e item)" and "retired_q rc' = retired_q rc" "registry rc' = registry rc"
    "global_epoch rc' = global_epoch rc" using q(2) by (simp_all add: rc')
  show "cache_ok nodes felems relems rc'"
    using ok same nodes heap \<open>retired_q rc' = retired_q rc\<close> unfolding cache_ok_def same nodes by auto
  show "rc_heap rc a = None" using ok a by (auto simp: cache_ok_def)
qed

lemma alloc_none:
  assumes law: "deps_law D nodes felems relems" and ok: "cache_ok nodes felems relems rc" and al: "alloc_entry D s e item rc = (None, rc1)"
  shows "rc1 = rc" and "felems (free_list (rc_slab rc)) = {#}"
proof -
  have "q_try_dequeue (d_free D) (free_list (rc_slab rc)) = None"
  proof (rule ccontr)
    assume "q_try_dequeue (d_free D) (free_list (rc_slab rc)) \<noteq> None"
    then obtain a q where q: "q_try_dequeue (d_free D) (free_list (rc_slab rc)) = Some (a, q)" by auto
    then have "a = - 1" using al by (auto simp: alloc_entry_def allocate_nogrowth_def split: if_splits)
    then have "- 1 \<in># slots nodes felems relems rc" using queue_law_Some [OF deps_laws(2) [OF law] q] by (simp add: slots_def)
    then show False using ok by (simp add: cache_ok_def)
  qed
  then show "rc1 = rc" and "felems (free_list (rc_slab rc)) = {#}"
    using al queue_law_None [OF deps_laws(2) [OF law], of "free_list (rc_slab rc)"] by (simp_all add: alloc_entry_def allocate_nogrowth_def)
qed

lemma drop_keeps:
  assumes law: "deps_law D nodes felems relems" and ok: "cache_ok nodes felems relems rc" and er: "erase_and_retire D a rc = Inr rc'"
  shows "slots nodes felems relems rc' = slots nodes felems relems rc" and "cache_ok nodes felems relems rc'"
    and "rc_heap rc' = rc_heap rc" and "registry rc' = registry rc" and "global_epoch rc' = global_epoch rc"
    and "nodes (rc_list rc') = nodes (rc_list rc) - {a}" and "a \<notin> nodes (rc_list rc) \<Longrightarrow> rc' = rc"
    and "a \<in> nodes (rc_list rc) \<Longrightarrow> relems (retired_q rc') = add_mset \<lparr>ri_offset = a, retire_epoch = global_epoch rc\<rparr> (relems (retired_q rc))"
proof -
  note S = skiplist_laws [OF deps_laws(1) [OF law]]
  have E: "(a \<notin> nodes (rc_list rc) \<and> rc' = rc) \<or>
      (\<exists>l. a \<in> nodes (rc_list rc) \<and> nodes l = nodes (rc_list rc) - {a} \<and> rc' = retire_entry D a (rc\<lparr>rc_list := l\<rparr>))"
  proof (cases "sl_erase_node (d_list D) a (rc_list rc)")
    case None
    then show ?thesis using er S(4) by (auto simp: erase_and_retire_def split: if_splits)
  next
    case (Some l)
    then show ?thesis using er S(5) [OF Some] by (auto simp: erase_and_retire_def split: if_splits)
  qed
  then show n: "nodes (rc_list rc') = nodes (rc_list rc) - {a}" and h: "rc_heap rc' = rc_heap rc" and "registry rc' = registry rc"
    and "global_epoch rc' = global_epoch rc" and "a \<notin> nodes (rc_list rc) \<Longrightarrow> rc' = rc"
    by (elim disjE exE conjE; simp add: retire_entry_def)+
  show r: "relems (retired_q rc') = add_mset \<lparr>ri_offset = a, retire_epoch = global_epoch rc\<rparr> (relems (retired_q rc))"
    if "a \<in> nodes (rc_list rc)"
    using E that by (elim disjE exE conjE) (simp_all add: retire_entry_def queue_law_enqueue [OF deps_laws(3) [OF law]])
  have slab: "rc_slab rc' = rc_slab rc" using E by (elim disjE exE conjE) (simp_all add: retire_entry_def)
  show same: "slots nodes felems relems rc' = slots nodes felems relems rc"
  proof (cases "a \<in> nodes (rc_list rc)")
    case True
    then have "mset_set (nodes (rc_list rc)) = add_mset a (mset_set (nodes (rc_list rc) - {a}))" using S(2) by (simp add: mset_set.remove)
    then show ?thesis using r [OF True] slab n by (simp add: slots_def)
  qed (use E in auto)
  show "cache_ok nodes felems relems rc'"
  proof (cases "a \<in> nodes (rc_list rc)")
    case True
    then show ?thesis
      using ok h r [OF True] n unfolding cache_ok_def same by auto
  qed (use E ok in auto)
qed

lemma take_retired_law:
  assumes "queue_law R relems" and "take_retired n R q = (batch, q')"
  shows "relems q = mset batch + relems q'"
  using assms(2)
proof (induction n arbitrary: q batch)
  case (Suc n)
  show ?case
  proof (cases "q_try_dequeue R q")
    case (Some x)
    then obtain ri q1 where x: "q_try_dequeue R q = Some (ri, q1)" by (cases x) auto
    obtain b q2 where b: "take_retired n R q1 = (b, q2)" by force
    then have "batch = ri # b" "q' = q2" using Suc.prems x by auto
    then show ?thesis using Suc.IH [of q1 b] b queue_law_Some [OF assms(1) x] by simp
  qed (use Suc.prems in auto)
qed simp

lemma restrict_map_all: "m |` UNIV = m"
  by (simp add: restrict_map_def)

lemma distinct_of_count: "(\<And>x. count (mset xs) x \<le> 1) \<Longrightarrow> distinct xs"
proof (induction xs)
  case (Cons x xs)
  have "count (mset xs) y \<le> count (mset (x # xs)) y" for y by simp
  then have "count (mset xs) y \<le> 1" for y using Cons.prems [of y] le_trans by blast
  moreover have "count (mset xs) x = 0" using Cons.prems [of x] by simp
  ultimately show ?case using Cons.IH by (simp add: count_eq_zero_iff)
qed simp

lemma free_all_run:
  assumes "distinct offs" and "set offs \<subseteq> dom (rc_heap rc)"
  shows "free_all D offs rc = Inr (rc\<lparr>rc_heap := rc_heap rc |` (- set offs), rc_slab := fold (slab_free (d_free D)) offs (rc_slab rc)\<rparr>)"
  using assms
proof (induction offs arbitrary: rc)
  case (Cons off offs)
  let ?rc = "rc\<lparr>rc_heap := (rc_heap rc)(off := None), rc_slab := slab_free (d_free D) off (rc_slab rc)\<rparr>"
  have "free_entry D off rc = Inr ?rc" using Cons.prems by (auto simp: free_entry_def)
  moreover have "free_all D offs ?rc = Inr (?rc\<lparr>rc_heap := rc_heap ?rc |` (- set offs), rc_slab := fold (slab_free (d_free D)) offs (rc_slab ?rc)\<rparr>)"
    using Cons.prems by (intro Cons.IH) auto
  moreover have "(rc_heap rc)(off := None) |` (- set offs) = rc_heap rc |` (- set (off # offs))" by (auto simp: restrict_map_def fun_eq_iff)
  ultimately show ?case by simp
qed (simp add: restrict_map_all)

lemma felems_fold_free:
  assumes "queue_law Q felems"
  shows "felems (free_list (fold (slab_free Q) offs sa)) = mset offs + felems (free_list sa)"
  by (induction offs arbitrary: sa) (simp_all add: slab_free_def queue_law_enqueue [OF assms])

lemma reclaim_keeps:
  assumes law: "deps_law D nodes felems relems" and ok: "cache_ok nodes felems relems rc"
  shows "\<exists>rc' freed. try_reclaim_budgeted D n rc = Inr rc' \<and> slots nodes felems relems rc' = slots nodes felems relems rc \<and>
    cache_ok nodes felems relems rc' \<and> rc_list rc' = rc_list rc \<and> registry rc' = registry rc \<and>
    (global_epoch rc' = global_epoch rc \<or> global_epoch rc' = global_epoch rc + 1) \<and>
    relems (retired_q rc) = relems (retired_q rc') + freed \<and> (\<forall>r \<in># freed. retire_epoch r < scan_min_epoch rc) \<and>
    rc_heap rc' = rc_heap rc |` (- ri_offset ` set_mset freed)"
proof -
  obtain batch q where b: "take_retired n (d_retired D) (retired_q rc) = (batch, q)" by force
  define rc1 where "rc1 = rc\<lparr>retired_q := q\<rparr>"
  let ?m = "scan_min_epoch rc"
  let ?free = "filter (\<lambda>r. retire_epoch r < ?m) batch" and ?keep = "filter (\<lambda>r. \<not> retire_epoch r < ?m) batch"
  have R: "relems (retired_q rc) = mset batch + relems q" by (rule take_retired_law [OF deps_laws(3) [OF law] b])
  have split: "mset batch = mset ?free + mset ?keep" by (metis mset_filter multiset_partition)
  have m: "scan_min_epoch rc1 = ?m" by (simp add: scan_min_epoch_def rc1_def Let_def)
  have cnt: "count (image_mset ri_offset (relems (retired_q rc))) x \<le> 1" for x
    using ok unfolding cache_ok_def slots_def by (metis add_leE count_union)
  have "distinct (map ri_offset ?free)"
  proof -
    have "count (mset (map ri_offset ?free)) x \<le> 1" for x
    proof -
      have "mset (map ri_offset ?free) \<subseteq># image_mset ri_offset (relems (retired_q rc))"
        unfolding mset_map R mset_filter
        by (intro image_mset_subseteq_mono subset_mset.order_trans [OF multiset_filter_subset mset_subset_eq_add_left])
      then show ?thesis using cnt [of x] by (meson le_trans mset_subset_eq_count)
    qed
    then show ?thesis by (rule distinct_of_count)
  qed
  moreover have "set (map ri_offset ?free) \<subseteq> dom (rc_heap rc1)"
    using ok R by (auto simp: cache_ok_def rc1_def)
  ultimately have free: "free_all D (map ri_offset ?free) rc1 =
      Inr (rc1\<lparr>rc_heap := rc_heap rc1 |` (- set (map ri_offset ?free)), rc_slab := fold (slab_free (d_free D)) (map ri_offset ?free) (rc_slab rc1)\<rparr>)"
    by (rule free_all_run)
  define rc' where "rc' = rc\<lparr>rc_heap := rc_heap rc |` (- set (map ri_offset ?free)),
      rc_slab := fold (slab_free (d_free D)) (map ri_offset ?free) (rc_slab rc), retired_q := fold (q_enqueue (d_retired D)) ?keep q,
      global_epoch := (if ?keep = [] then global_epoch rc else global_epoch rc + 1)\<rparr>"
  have run: "try_reclaim_budgeted D n rc = Inr rc'"
    using b free m by (auto simp: try_reclaim_budgeted_def rc1_def rc'_def Let_def restrict_map_all)
  have R': "relems (retired_q rc) = relems (retired_q rc') + mset ?free"
    unfolding R split by (simp add: rc'_def elems_fold_enqueue [OF deps_laws(3) [OF law]])
  have same: "slots nodes felems relems rc' = slots nodes felems relems rc"
    unfolding slots_def R' by (simp add: rc'_def felems_fold_free [OF deps_laws(2) [OF law]] mset_map [symmetric] ac_simps)
  have out: "ri_offset ` set ?free \<inter> (nodes (rc_list rc) \<union> ri_offset ` set_mset (relems (retired_q rc'))) = {}"
  proof -
    let ?F = "image_mset ri_offset (mset ?free)" and ?K = "image_mset ri_offset (relems (retired_q rc'))"
    have u: "\<forall>x. count (felems (free_list (rc_slab rc)) + mset_set (nodes (rc_list rc)) + (?K + ?F)) x \<le> 1"
      using ok unfolding cache_ok_def slots_def R' by simp
    have "a \<notin># ?F" if "a \<in> nodes (rc_list rc)" for a
      using slots_apart(2) [OF u skiplist_laws(2) [OF deps_laws(1) [OF law]] that] by simp
    moreover have "a \<notin># ?F" if "a \<in># ?K" for a
    proof -
      have "count ?K a + count ?F a \<le> 1" using spec [OF u, of a] by simp
      moreover have "0 < count ?K a" using that by (simp only: count_greater_zero_iff)
      ultimately show ?thesis by (simp only: not_in_iff)
    qed
    moreover have "set_mset ?F = ri_offset ` set ?free" "set_mset ?K = ri_offset ` set_mset (relems (retired_q rc'))" by simp_all
    ultimately show ?thesis by blast
  qed
  have "cache_ok nodes felems relems rc'"
    using ok out unfolding cache_ok_def same R' by (auto simp: rc'_def)
  then show ?thesis
    using run same R' by (intro exI [of _ rc'] exI [of _ "mset ?free"]) (simp add: rc'_def)
qed

subsection \<open>A list in the place of the skip list\<close>

definition list_ops :: "u64 list skiplist_ops" where
  "list_ops =
     \<lparr>sl_empty = [],
      sl_find_smaller_or_equal = (\<lambda>key k l. case filter (\<lambda>a. key_le (key a) k) l of [] \<Rightarrow> None
        | a # as \<Rightarrow> Some (fold (\<lambda>b m. if key_lt (key m) (key b) then b else m) as a)),
      sl_insert = (\<lambda>key a l. if a \<in> set l then l else l @ [a]),
      sl_erase_node = (\<lambda>a l. if a \<in> set l then Some (filter (\<lambda>b. b \<noteq> a) l) else None),
      sl_num_entries = (\<lambda>l. of_nat (length l)), sl_top_layer = (\<lambda>l. 0), sl_layer_entries = (\<lambda>l lvl. of_nat (length l)),
      sl_next = (\<lambda>l lvl x. case x of None \<Rightarrow> (case l of [] \<Rightarrow> None | a # _ \<Rightarrow> Some a)
        | Some a \<Rightarrow> (case dropWhile (\<lambda>b. b \<noteq> a) l of _ # b # _ \<Rightarrow> Some b | _ \<Rightarrow> None))\<rparr>"

lemma fold_latest:
  assumes "\<forall>b \<in> set (a # as). length (key b) = n"
  shows "fold (\<lambda>b m. if key_lt (key m) (key b) then b else m) as a \<in> set (a # as) \<and>
    (\<forall>b \<in> set (a # as). be_val (key b) \<le> be_val (key (fold (\<lambda>b m. if key_lt (key m) (key b) then b else m) as a)))"
  using assms
proof (induction as arbitrary: a)
  case (Cons b as)
  let ?m = "if key_lt (key a) (key b) then b else a"
  have "\<forall>x \<in> set (?m # as). length (key x) = n" using Cons.prems by simp
  note IH = Cons.IH [OF this]
  have "be_val (key a) \<le> be_val (key ?m)" "be_val (key b) \<le> be_val (key ?m)"
    using Cons.prems by (auto simp: key_lt_iff)
  then show ?case using IH by (auto intro: order_trans)
qed simp

lemma list_ops_law: "skiplist_law list_ops set"
proof -
  have find: "a \<in> set l" if s: "sl_find_smaller_or_equal list_ops key k l = Some a" for key k l a
  proof -
    obtain b bs where f: "filter (\<lambda>a. key_le (key a) k) l = b # bs" using s by (auto simp: list_ops_def split: list.splits)
    have "fold (\<lambda>b m. if key_lt (key m) (key b) then b else m) as x \<in> set (x # as)" for as x
    proof (induction as arbitrary: x)
      case (Cons y as)
      then show ?case using Cons.IH [of y] Cons.IH [of x] by auto
    qed simp
    then have "a \<in> set (b # bs)" using s f by (auto simp: list_ops_def)
    then show ?thesis unfolding f [symmetric] by simp
  qed
  have best: "key_le (key a) k \<and> (\<forall>b \<in> set l. key_le (key b) k \<longrightarrow> key_le (key b) (key a))"
    if s: "sl_find_smaller_or_equal list_ops key k l = Some a" and len: "\<forall>b \<in> set l. length (key b) = length k" for key k l a
  proof -
    obtain b bs where f: "filter (\<lambda>a. key_le (key a) k) l = b # bs" using s by (auto simp: list_ops_def split: list.splits)
    have a: "a = fold (\<lambda>b m. if key_lt (key m) (key b) then b else m) bs b" using s f by (simp add: list_ops_def)
    have sub: "x \<in> set (b # bs) \<longleftrightarrow> x \<in> set l \<and> key_le (key x) k" for x unfolding f [symmetric] by auto
    then have "\<forall>x \<in> set (b # bs). length (key x) = length k" using len by blast
    from fold_latest [OF this] have m: "a \<in> set (b # bs)" "\<forall>x \<in> set (b # bs). be_val (key x) \<le> be_val (key a)" unfolding a by blast+
    then have "be_val (key x) \<le> be_val (key a)" if "x \<in> set l" "key_le (key x) k" for x using sub that by blast
    then show ?thesis using m(1) sub len by (simp add: key_le_iff)
  qed
  have nxt: "a \<in> set l" if s: "sl_next list_ops l lvl x = Some a" for l lvl x a
  proof (cases x)
    case (Some b)
    then obtain c ds where "dropWhile (\<lambda>z. z \<noteq> b) l = c # a # ds" using s by (auto simp: list_ops_def split: list.splits)
    then have "a \<in> set (dropWhile (\<lambda>z. z \<noteq> b) l)" by simp
    then show ?thesis by (rule set_dropWhileD)
  qed (use s in \<open>auto simp: list_ops_def split: list.splits\<close>)
  have none: "\<forall>b \<in> set l. \<not> key_le (key b) k" if "sl_find_smaller_or_equal list_ops key k l = None" for key k l
    using that by (auto simp: list_ops_def filter_empty_conv split: list.splits)
  have ins: "set (sl_insert list_ops key a l) = insert a (set l)" for key a l by (auto simp: list_ops_def)
  have er: "sl_erase_node list_ops a l = (if a \<in> set l then Some (filter (\<lambda>b. b \<noteq> a) l) else None)" for a l by (simp add: list_ops_def)
  have er0: "a \<notin> set l" if "sl_erase_node list_ops a l = None" for a l using that by (simp add: er split: if_splits)
  have er1: "a \<in> set l \<and> set l' = set l - {a}" if "sl_erase_node list_ops a l = Some l'" for a l l'
    using that by (auto simp: er split: if_splits)
  have "set (sl_empty list_ops) = {}" by (simp add: list_ops_def)
  then show ?thesis unfolding skiplist_law_def using find best nxt none ins er0 er1 finite_set by blast
qed

definition list_deps :: "(u64 list, u64 list, RetiredItem list) cache_deps" where
  "list_deps = \<lparr>d_list = list_ops, d_free = fifo_ops, d_free_count = length, d_retired = fifo_ops\<rparr>"

lemma list_deps_law: "deps_law list_deps set mset mset"
  by (simp add: deps_law_def list_deps_def list_ops_law fifo_queue_law)

text \<open>Two slabs, one entry, two threads in their guards: thread 0 has seen the entry, thread 1 invalidates it.\<close>

definition sample_slab :: "u64 list SlabAllocator" where
  "sample_slab = \<lparr>slab_size = 64, num_slabs = 2, free_list = [64, 128]\<rparr>"

definition sample_cache :: "(u64 list, u64 list, RetiredItem list, nat) RangeCache" where
  "sample_cache = RangeCache_init list_deps sample_slab 64 (\<lambda>_. 1)"

definition sample_guarded :: "(u64 list, u64 list, RetiredItem list, nat) RangeCache" where
  "sample_guarded = guard_enter 1 (guard_enter 0 sample_cache)"

definition sample_cached :: "(u64 list, u64 list, RetiredItem list, nat) RangeCache" where
  "sample_cached = sample_guarded\<lparr>rc_slab := sample_slab\<lparr>free_list := [128]\<rparr>, rc_heap := [64 \<mapsto> Entry_init [10] [20] 7], rc_list := [64]\<rparr>"

definition sample_retired :: "(u64 list, u64 list, RetiredItem list, nat) RangeCache" where
  "sample_retired = sample_cached\<lparr>rc_list := [], retired_q := [\<lparr>ri_offset = 64, retire_epoch = 1\<rparr>]\<rparr>"

lemmas sample_defs = sample_slab_def sample_cache_def sample_guarded_def sample_cached_def sample_retired_def RangeCache_init_def
  guard_enter_def set_epoch_def

lemma sample_runs:
  "alloc_entry list_deps [10] [20] 7 sample_guarded = (Some 64, sample_cached\<lparr>rc_list := []\<rparr>)"
  "erase_and_retire list_deps 64 sample_cached = Inr sample_retired"
  by (simp_all add: alloc_entry_def allocate_nogrowth_def erase_and_retire_def retire_entry_def list_deps_def list_ops_def fifo_ops_def sample_defs)

end
