(* ===== verification/Range_Cache_Safety.thy ===== *)
theory Range_Cache_Safety
  imports Range_Cache
begin

text \<open>
  Threads that work on one range cache at the same time. \<open>cache_step\<close> interleaves the parts of the operations, each of
  them taken as atomic; next to the cache, the state has for every thread the entries it has seen in the list since it entered its guard. The
  invariant is that a retired entry is not reclaimed while a thread that may have seen it is in its guard.
\<close>

subsection \<open>Steps\<close>

definition active :: "nat \<Rightarrow> ('l, 'q, 'r, 'c) RangeCache \<Rightarrow> bool" where
  "active tid rc \<longleftrightarrow> (\<exists>e. map_of (registry rc) tid = Some e \<and> e \<noteq> 0)"

inductive cache_step ::
  "('l, 'q, 'r) cache_deps \<Rightarrow> ('l \<Rightarrow> u64 set) \<Rightarrow> nat \<Rightarrow> ('l, 'q, 'r, 'c) RangeCache \<times> (nat \<Rightarrow> u64 set) \<Rightarrow>
   ('l, 'q, 'r, 'c) RangeCache \<times> (nat \<Rightarrow> u64 set) \<Rightarrow> bool" for D nodes tid where
  enter: "\<not> active tid rc \<Longrightarrow> cache_step D nodes tid (rc, refs) (guard_enter tid rc, refs(tid := {}))"
| exit: "cache_step D nodes tid (rc, refs) (guard_exit tid rc, refs(tid := {}))"
| see: "active tid rc \<Longrightarrow> a \<in> nodes (rc_list rc) \<Longrightarrow> cache_step D nodes tid (rc, refs) (rc, refs(tid := insert a (refs tid)))"
| touch: "a \<in> refs tid \<Longrightarrow> cache_step D nodes tid (rc, refs) (update_access tid a rc, refs)"
| random: "tls_xorshift tid rc = (x, rc') \<Longrightarrow> cache_step D nodes tid (rc, refs) (rc', refs)"
| put: "active tid rc \<Longrightarrow> alloc_entry D s e item rc = (Some a, rc1) \<Longrightarrow>
    cache_step D nodes tid (rc, refs) (rc1\<lparr>rc_list := sl_insert (d_list D) (start_of rc1) a (rc_list rc1)\<rparr>, refs)"
| full: "active tid rc \<Longrightarrow> alloc_entry D s e item rc = (None, rc1) \<Longrightarrow> cache_step D nodes tid (rc, refs) (rc1, refs)"
| drop: "active tid rc \<Longrightarrow> erase_and_retire D a rc = Inr rc' \<Longrightarrow> cache_step D nodes tid (rc, refs) (rc', refs)"
| reclaim: "active tid rc \<Longrightarrow> try_reclaim_budgeted D n rc = Inr rc' \<Longrightarrow> cache_step D nodes tid (rc, refs) (rc', refs)"

text \<open>The 64-bit epoch counter must not overflow: the last value is the marker of \<^verbatim>\<open>scan_min_epoch\<close>.\<close>

inductive cache_reachable ::
  "('l, 'q, 'r) cache_deps \<Rightarrow> ('l \<Rightarrow> u64 set) \<Rightarrow> ('l, 'q, 'r, 'c) RangeCache \<Rightarrow> ('l, 'q, 'r, 'c) RangeCache \<times> (nat \<Rightarrow> u64 set) \<Rightarrow> bool"
  for D nodes rc0 where
  start: "cache_reachable D nodes rc0 (rc0, \<lambda>_. {})"
| step: "cache_reachable D nodes rc0 s \<Longrightarrow> unat (global_epoch (fst s)) < 2 ^ 64 - 2 \<Longrightarrow> cache_step D nodes tid s s' \<Longrightarrow>
    cache_reachable D nodes rc0 s'"

subsection \<open>Epochs\<close>

lemma map_of_set_epoch: "map_of (set_epoch tid e reg) = (map_of reg)(tid \<mapsto> e)"
proof
  fix u
  have "map_of (map (\<lambda>(t, x). (t, if t = tid then e else x)) reg) u = (if u = tid \<and> tid \<in> fst ` set reg then Some e else map_of reg u)"
    by (induction reg; auto simp: image_iff) force
  then show "map_of (set_epoch tid e reg) u = ((map_of reg)(tid \<mapsto> e)) u"
    by (cases "tid \<in> fst ` set reg"; cases "u = tid") (simp_all add: set_epoch_def)
qed

lemma set_set_epoch: "(t, x) \<in> set (set_epoch tid e reg) \<Longrightarrow> x = e \<or> (t, x) \<in> set reg"
  by (auto simp: set_epoch_def split: if_splits)

lemma min_epoch_fold:
  fixes m :: u64
  shows "fold (\<lambda>(t, e) m. if e \<noteq> 0 \<and> e < m then e else m) reg m \<le> m"
    and "(t, e) \<in> set reg \<Longrightarrow> e \<noteq> 0 \<Longrightarrow> fold (\<lambda>(t, e) m. if e \<noteq> 0 \<and> e < m then e else m) reg m \<le> e"
proof (induction reg arbitrary: m)
  case (Cons p reg)
  obtain t' e' where p: "p = (t', e')" by force
  let ?f = "fold (\<lambda>(t, e) m. if e \<noteq> 0 \<and> e < m then e else m) reg"
  have le: "?f m \<le> m" for m by (rule Cons.IH(1))
  { case 1 show ?case using le [of m] le [of e'] by (auto simp: p intro: order_trans) }
  { case 2 then show ?case using le [of m] le [of e'] Cons.IH(2) by (auto simp: p intro: order_trans) }
qed simp_all

lemma scan_min_le:
  assumes "map_of (registry rc) t = Some e" and "e \<noteq> 0" and "e < - 1"
  shows "scan_min_epoch rc \<le> e"
proof -
  have "(t, e) \<in> set (registry rc)" using map_of_SomeD [OF assms(1)] .
  then have "fold (\<lambda>(t, e) m. if e \<noteq> 0 \<and> e < m then e else m) (registry rc) (- 1) \<le> e"
    using assms(2) by (rule min_epoch_fold(2))
  moreover from this have "fold (\<lambda>(t, e) m. if e \<noteq> 0 \<and> e < m then e else m) (registry rc) (- 1) \<noteq> - 1"
    using assms(3) by (metis leD)
  ultimately show ?thesis unfolding scan_min_epoch_def Let_def by (simp only: if_False)
qed

definition epoch_ok ::
  "('l \<Rightarrow> u64 set) \<Rightarrow> ('r \<Rightarrow> RetiredItem multiset) \<Rightarrow> ('l, 'q, 'r, 'c) RangeCache \<times> (nat \<Rightarrow> u64 set) \<Rightarrow> bool" where
  "epoch_ok nodes relems s \<longleftrightarrow> (case s of (rc, refs) \<Rightarrow>
     global_epoch rc \<noteq> 0 \<and> global_epoch rc < - 1 \<and> (\<forall>(t, e) \<in> set (registry rc). e \<le> global_epoch rc) \<and>
     (\<forall>r \<in># relems (retired_q rc). retire_epoch r \<le> global_epoch rc) \<and>
     (\<forall>t. \<forall>a \<in> refs t. \<exists>e. map_of (registry rc) t = Some e \<and> e \<noteq> 0 \<and>
        (a \<in> nodes (rc_list rc) \<or> (\<exists>r \<in># relems (retired_q rc). ri_offset r = a \<and> e \<le> retire_epoch r))))"

text \<open>What a reference may rely on: its entry is in the list, or retired not before the epoch of the thread.\<close>

lemma epoch_ok_ref:
  assumes "epoch_ok nodes relems (rc, refs)" and "cache_ok nodes felems relems rc" and "a \<in> refs t"
  shows "rc_heap rc a \<noteq> None"
proof -
  have "a \<in> nodes (rc_list rc) \<or> (\<exists>r \<in># relems (retired_q rc). ri_offset r = a)"
    using assms(1,3) unfolding epoch_ok_def prod.case by blast
  then have "a \<in> dom (rc_heap rc)" using assms(2) by (auto simp: cache_ok_def)
  then show ?thesis by auto
qed

lemma epoch_ok_cong:
  assumes "epoch_ok nodes relems (rc, refs)" and "rc_list rc' = rc_list rc" and "retired_q rc' = retired_q rc"
    and "registry rc' = registry rc" and "global_epoch rc' = global_epoch rc"
  shows "epoch_ok nodes relems (rc', refs)"
  using assms by (simp add: epoch_ok_def)

lemma epoch_ok_guard:
  assumes "epoch_ok nodes relems (rc, refs)" and "x = 0 \<or> x = global_epoch rc"
  shows "epoch_ok nodes relems (rc\<lparr>registry := set_epoch tid x (registry rc)\<rparr>, refs(tid := {}))"
  using assms set_set_epoch [of _ _ tid x "registry rc"]
  by (fastforce simp: epoch_ok_def map_of_set_epoch)

lemma epoch_ok_retire:
  assumes ok: "epoch_ok nodes relems (rc, refs)" and n: "nodes (rc_list rc') = nodes (rc_list rc) - {a}"
    and r: "relems (retired_q rc') = add_mset \<lparr>ri_offset = a, retire_epoch = global_epoch rc\<rparr> (relems (retired_q rc))"
    and same: "registry rc' = registry rc" "global_epoch rc' = global_epoch rc"
  shows "epoch_ok nodes relems (rc', refs)"
proof -
  have "\<exists>e. map_of (registry rc) t = Some e \<and> e \<noteq> 0 \<and> (b \<in> nodes (rc_list rc') \<or> (\<exists>r \<in># relems (retired_q rc'). ri_offset r = b \<and> e \<le> retire_epoch r))"
    if b: "b \<in> refs t" for t b
  proof -
    obtain e where e: "map_of (registry rc) t = Some e" "e \<noteq> 0" and
        "b \<in> nodes (rc_list rc) \<or> (\<exists>r \<in># relems (retired_q rc). ri_offset r = b \<and> e \<le> retire_epoch r)"
      using ok b unfolding epoch_ok_def prod.case by blast
    moreover have "e \<le> global_epoch rc" using ok map_of_SomeD [OF e(1)] by (auto simp: epoch_ok_def)
    ultimately show ?thesis using n r by (cases "b = a") auto
  qed
  then show ?thesis using ok same r by (simp add: epoch_ok_def)
qed

lemma epoch_ok_reclaim:
  assumes ok: "epoch_ok nodes relems (rc, refs)" and g: "global_epoch rc' = global_epoch rc \<or> global_epoch rc' = global_epoch rc + 1"
    and small: "unat (global_epoch rc) < 2 ^ 64 - 2" and same: "rc_list rc' = rc_list rc" "registry rc' = registry rc"
    and freed: "relems (retired_q rc) = relems (retired_q rc') + freed" "\<forall>r \<in># freed. retire_epoch r < scan_min_epoch rc"
  shows "epoch_ok nodes relems (rc', refs)"
proof -
  have "unat (global_epoch rc + 1) = Suc (unat (global_epoch rc))" using small by (simp add: unat_word_ariths)
  then have up: "global_epoch rc \<le> global_epoch rc + 1" "global_epoch rc + 1 \<noteq> 0" "global_epoch rc + 1 < - 1"
    using small by (auto simp: word_le_nat_alt word_less_nat_alt unat_minus_1 unat_eq_0 [symmetric])
  have G: "global_epoch rc \<le> global_epoch rc'" "global_epoch rc' \<noteq> 0" "global_epoch rc' < - 1"
    using g up ok by (auto simp: epoch_ok_def)
  have "\<exists>e. map_of (registry rc) t = Some e \<and> e \<noteq> 0 \<and> (a \<in> nodes (rc_list rc) \<or> (\<exists>r \<in># relems (retired_q rc'). ri_offset r = a \<and> e \<le> retire_epoch r))"
    if a: "a \<in> refs t" for t a
  proof -
    obtain e where e: "map_of (registry rc) t = Some e" "e \<noteq> 0" and
        r: "a \<in> nodes (rc_list rc) \<or> (\<exists>r \<in># relems (retired_q rc). ri_offset r = a \<and> e \<le> retire_epoch r)"
      using ok a unfolding epoch_ok_def prod.case by blast
    have "e \<le> global_epoch rc" "global_epoch rc < - 1" using ok map_of_SomeD [OF e(1)] by (auto simp: epoch_ok_def)
    then have min: "scan_min_epoch rc \<le> e" using e by (intro scan_min_le) auto
    have "r \<in># relems (retired_q rc')" if "r \<in># relems (retired_q rc)" "e \<le> retire_epoch r" for r
    proof -
      have "r \<notin># freed" using freed(2) min that(2) by (meson leD order_trans)
      then show ?thesis using that(1) freed(1) by simp
    qed
    then show ?thesis using e r by blast
  qed
  moreover have "\<forall>r \<in># relems (retired_q rc'). retire_epoch r \<le> global_epoch rc'"
    using ok freed(1) G(1) by (auto simp: epoch_ok_def intro: order_trans)
  moreover have "\<forall>(t, e) \<in> set (registry rc). e \<le> global_epoch rc'" using ok G(1) by (auto simp: epoch_ok_def intro: order_trans)
  ultimately show ?thesis using G same by (simp add: epoch_ok_def)
qed

definition cache_inv ::
  "('l \<Rightarrow> u64 set) \<Rightarrow> ('q \<Rightarrow> u64 multiset) \<Rightarrow> ('r \<Rightarrow> RetiredItem multiset) \<Rightarrow> u64 multiset \<Rightarrow>
   ('l, 'q, 'r, 'c) RangeCache \<times> (nat \<Rightarrow> u64 set) \<Rightarrow> bool" where
  "cache_inv nodes felems relems M s \<longleftrightarrow> cache_ok nodes felems relems (fst s) \<and> slots nodes felems relems (fst s) = M \<and> epoch_ok nodes relems s"

lemma cache_inv_cong:
  assumes "cache_inv nodes felems relems M (rc, refs)" and "rc_list rc' = rc_list rc" and "rc_slab rc' = rc_slab rc" and "retired_q rc' = retired_q rc"
    and "dom (rc_heap rc') = dom (rc_heap rc)" and "registry rc' = registry rc" and "global_epoch rc' = global_epoch rc"
  shows "cache_inv nodes felems relems M (rc', refs)"
  using assms cache_ok_cong [OF assms(2-5)] epoch_ok_cong [OF _ assms(2,4,6,7)] by (simp add: cache_inv_def)

lemma cache_inv_step:
  assumes law: "deps_law D nodes felems relems" and "cache_step D nodes tid s s'" and "cache_inv nodes felems relems M s"
    and "unat (global_epoch (fst s)) < 2 ^ 64 - 2"
  shows "cache_inv nodes felems relems M s'"
  using assms(2-4)
proof (induction rule: cache_step.induct)
  case (enter rc refs)
  then show ?case
    using epoch_ok_guard [of nodes relems rc refs "global_epoch rc" tid] cache_ok_cong [of "guard_enter tid rc" rc nodes felems relems]
    by (simp add: cache_inv_def guard_enter_def)
next
  case (exit rc refs)
  then show ?case
    using epoch_ok_guard [of nodes relems rc refs 0 tid] cache_ok_cong [of "guard_exit tid rc" rc nodes felems relems]
    by (simp add: cache_inv_def guard_exit_def)
next
  case (see rc a refs)
  then show ?case by (auto simp: cache_inv_def epoch_ok_def active_def)
next
  case (touch a refs rc)
  then show ?case by (intro cache_inv_cong [OF touch(2)]) simp_all
next
  case (random rc x rc' refs)
  then show ?case by (intro cache_inv_cong [OF random(2)]) (auto simp: tls_xorshift_def Let_def)
next
  case (put rc s e item a rc1 refs)
  have "cache_ok nodes felems relems rc" using put by (simp add: cache_inv_def)
  note k = put_keeps [OF law this put(2) refl]
  have "epoch_ok nodes relems (rc1\<lparr>rc_list := sl_insert (d_list D) (start_of rc1) a (rc_list rc1)\<rparr>, refs)"
    using put(3) k(5-8) by (fastforce simp: cache_inv_def epoch_ok_def)
  then show ?case using put(3) k(1,2) by (simp add: cache_inv_def)
next
  case (full rc s e item rc1 refs)
  then have "rc1 = rc" using alloc_none(1) [OF law _ full(2)] by (simp add: cache_inv_def)
  then show ?case using full by simp
next
  case (drop rc a rc' refs)
  have "cache_ok nodes felems relems rc" using drop by (simp add: cache_inv_def)
  note k = drop_keeps [OF law this drop(2)]
  show ?case
  proof (cases "a \<in> nodes (rc_list rc)")
    case True
    have "epoch_ok nodes relems (rc', refs)"
      using drop(3) by (intro epoch_ok_retire [OF _ k(6,8,4,5)]) (simp_all add: True cache_inv_def)
    then show ?thesis using drop(3) k(1,2) by (simp add: cache_inv_def)
  qed (use k(7) drop in simp)
next
  case (reclaim rc n rc' refs)
  have "cache_ok nodes felems relems rc" using reclaim by (simp add: cache_inv_def)
  then obtain freed where k: "slots nodes felems relems rc' = slots nodes felems relems rc" "cache_ok nodes felems relems rc'"
      "rc_list rc' = rc_list rc" "registry rc' = registry rc" "global_epoch rc' = global_epoch rc \<or> global_epoch rc' = global_epoch rc + 1"
      "relems (retired_q rc) = relems (retired_q rc') + freed" "\<forall>r \<in># freed. retire_epoch r < scan_min_epoch rc"
    using reclaim_keeps [OF law, of rc n] reclaim(2) by auto
  then show ?case using epoch_ok_reclaim [of nodes relems rc refs rc' freed] reclaim by (simp add: cache_inv_def)
qed

lemma cache_inv_reachable:
  assumes law: "deps_law D nodes felems relems" and r: "cache_reachable D nodes rc0 s" and "cache_inv nodes felems relems M (rc0, \<lambda>_. {})"
  shows "cache_inv nodes felems relems M s"
  using r assms(3) by induction (use cache_inv_step [OF law] in auto)

lemma one_less_max: "(1 :: u64) < - 1"
  by (simp add: word_less_nat_alt unat_minus_1)

lemma RangeCache_init_inv:
  assumes law: "deps_law D nodes felems relems" and free: "\<forall>x. count (felems (free_list slab)) x \<le> 1" "- 1 \<notin># felems (free_list slab)"
  shows "cache_inv nodes felems relems (felems (free_list slab)) (RangeCache_init D slab i seed, \<lambda>_. {})"
  using free skiplist_laws(1) [OF deps_laws(1) [OF law]] queue_law_empty [OF deps_laws(3) [OF law]] one_less_max
  by (simp add: cache_inv_def cache_ok_def slots_def epoch_ok_def RangeCache_init_def)

lemma find_entry_ok:
  assumes law: "deps_law D nodes felems relems" and ok: "cache_ok nodes felems relems rc"
  shows "\<exists>x. find_entry D key rc = Inr x"
proof (cases "sl_find_smaller_or_equal (d_list D) (start_of rc) key (rc_list rc)")
  case (Some a)
  then have "a \<in> nodes (rc_list rc)" using skiplist_laws(8) [OF deps_laws(1) [OF law] Some] by simp
  then have "a \<in> dom (rc_heap rc)" using ok by (auto simp: cache_ok_def)
  then show ?thesis using Some by (auto simp: find_entry_def)
qed (simp add: find_entry_def)

text \<open>
  What stays the same of an entry that a thread holds on to: its range and its item, not the time of its last access.
\<close>

definition entry_core :: "('l, 'q, 'r, 'c) RangeCache \<Rightarrow> u64 \<Rightarrow> (bytes \<times> bytes \<times> 'c) option" where
  "entry_core rc a = map_option (\<lambda>e. (en_start e, en_end e, en_item e)) (rc_heap rc a)"

lemma update_access_core_entry [simp]: "entry_core (update_access tid b rc) a = entry_core rc a"
  by (auto simp: entry_core_def update_access_def next_timestamp_def Let_def option.map_comp comp_def split: option.splits)

lemma step_keeps_entry:
  assumes law: "deps_law D nodes felems relems" and "cache_step D nodes tid s s'" and "cache_inv nodes felems relems M s"
    and "unat (global_epoch (fst s)) < 2 ^ 64 - 2" and "rc_heap (fst s) a \<noteq> None" and "rc_heap (fst s') a \<noteq> None"
  shows "entry_core (fst s') a = entry_core (fst s) a"
  using assms(2-6)
proof (induction rule: cache_step.induct)
  case (put rc s e item b rc1 refs)
  have "cache_ok nodes felems relems rc" using put by (simp add: cache_inv_def)
  note k = put_keeps [OF law this put(2) refl]
  have "b \<noteq> a" using put k(3) by auto
  then show ?case using k(4) by (simp add: entry_core_def)
next
  case (touch b refs rc)
  then show ?case by simp
next
  case (full rc s e item rc1 refs)
  then show ?case using alloc_none(1) [OF law _ full(2)] by (simp add: cache_inv_def)
next
  case (drop rc b rc' refs)
  then show ?case using drop_keeps(3) [OF law _ drop(2)] by (simp add: cache_inv_def entry_core_def)
next
  case (reclaim rc n rc' refs)
  have "cache_ok nodes felems relems rc" using reclaim by (simp add: cache_inv_def)
  then obtain rc2 and freed :: "RetiredItem multiset" where "try_reclaim_budgeted D n rc = Inr rc2" "rc_heap rc2 = rc_heap rc |` (- ri_offset ` set_mset freed)"
    using reclaim_keeps [OF law, of rc n] by blast
  then have "rc_heap rc' = rc_heap rc |` (- ri_offset ` set_mset freed)" using reclaim(2) by simp
  then show ?case using reclaim by (auto simp: entry_core_def restrict_map_def split: if_splits)
qed (auto simp: entry_core_def tls_xorshift_def Let_def)

lemma sample_reachable:
  "cache_reachable list_deps set (RangeCache_init list_deps sample_slab 64 (\<lambda>_. 1)) (sample_retired, (\<lambda>_. {})(0 := {64}))"
proof -
  let ?R = "cache_reachable list_deps set (RangeCache_init list_deps sample_slab 64 (\<lambda>_. 1))" and ?none = "\<lambda>_ :: nat. {} :: u64 set"
  have "?R (sample_cache, ?none)" unfolding sample_cache_def by (rule cache_reachable.start)
  then have "?R (guard_enter 0 sample_cache, ?none(0 := {}))"
    by (rule cache_reachable.step) (simp add: sample_defs, rule cache_step.enter, simp add: active_def sample_defs)
  then have "?R (sample_guarded, ?none(0 := {}, 1 := {}))" unfolding sample_guarded_def
    by (rule cache_reachable.step) (simp add: sample_defs, rule cache_step.enter, simp add: active_def sample_defs)
  moreover have "?none(0 := {}, 1 := {}) = ?none" by (simp add: fun_eq_iff)
  ultimately have "?R (sample_guarded, ?none)" by simp
  moreover have "cache_step list_deps set 1 (sample_guarded, ?none) (sample_cached, ?none)"
    using cache_step.put [where tid = 1, OF _ sample_runs(1), of set ?none]
    by (simp add: active_def list_deps_def list_ops_def) (simp add: sample_defs)
  ultimately have "?R (sample_cached, ?none)"
    by (elim cache_reachable.step) (simp add: sample_defs)
  then have "?R (sample_cached, ?none(0 := {64}))"
    by (rule cache_reachable.step) (simp add: sample_defs, rule cache_step.see [where tid = 0 and a = 64 and refs = ?none, simplified], simp_all add: active_def sample_defs)
  then show ?thesis
    by (rule cache_reachable.step) (simp add: sample_defs, rule cache_step.drop [OF _ sample_runs(2), of 1], simp add: active_def sample_defs)
qed

subsection \<open>Properties\<close>

text \<open>
  C11. Epoch-based reclamation protects readers. Whatever the threads do, an entry that a thread has seen in the list since it entered its
  guard stays constructed, with its range and its item, until the thread leaves the guard: no interleaving of insertions, invalidations,
  evictions and reclamations of other threads frees or reuses its slab (up to $2^{64}-2$ epochs).
\<close>

theorem cache_guard_protects:
  assumes "deps_law D nodes felems relems" and "\<forall>x. count (felems (free_list slab)) x \<le> 1" and "- 1 \<notin># felems (free_list slab)"
    and "cache_reachable D nodes (RangeCache_init D slab i seed) (rc, refs)" and "unat (global_epoch rc) < 2 ^ 64 - 2"
    and "cache_step D nodes tid (rc, refs) (rc', refs')" and "a \<in> refs t" and "a \<in> refs' t"
  shows "\<exists>e e'. rc_heap rc a = Some e \<and> rc_heap rc' a = Some e' \<and> en_start e' = en_start e \<and> en_end e' = en_end e \<and> en_item e' = en_item e"
proof -
  have inv: "cache_inv nodes felems relems (felems (free_list slab)) (rc, refs)"
    by (rule cache_inv_reachable [OF assms(1,4) RangeCache_init_inv [OF assms(1-3)]])
  then have inv': "cache_inv nodes felems relems (felems (free_list slab)) (rc', refs')"
    using cache_inv_step [OF assms(1,6)] assms(5) by simp
  have h: "rc_heap rc a \<noteq> None" "rc_heap rc' a \<noteq> None"
    using epoch_ok_ref [of nodes relems rc refs felems a t] epoch_ok_ref [of nodes relems rc' refs' felems a t] inv inv' assms(7,8)
    by (auto simp: cache_inv_def)
  have "entry_core rc' a = entry_core rc a" using step_keeps_entry [OF assms(1,6) inv] assms(5) h by simp
  then show ?thesis using h by (auto simp: entry_core_def)
qed

theorem cache_guard_protects_witness:
  "\<exists>rc' e e'. try_reclaim_budgeted list_deps 64 sample_retired = Inr rc' \<and> rc_heap sample_retired 64 = Some e \<and> rc_heap rc' 64 = Some e' \<and>
     en_start e' = en_start e \<and> en_end e' = en_end e \<and> en_item e' = en_item e"
proof -
  have act: "active 1 sample_retired" by (simp add: active_def sample_defs)
  have "cache_ok set mset mset sample_retired"
    by (simp add: cache_ok_def slots_def sample_defs)
  then obtain rc' where r: "try_reclaim_budgeted list_deps 64 sample_retired = Inr rc'"
    using reclaim_keeps [OF list_deps_law, of sample_retired 64] by blast
  show ?thesis
    using cache_guard_protects [OF list_deps_law _ _ sample_reachable _ cache_step.reclaim [OF act r], of 64 0] r
    by (simp add: sample_slab_def) (simp add: sample_defs)
qed

text \<open>
  C12. The cache neither loses nor duplicates slabs and never touches a destroyed entry. In every reachable state the free slabs, the
  entries of the list and the retired entries are together exactly the slabs that the cache started with, each once; a search and a
  reclamation then run without an access to memory of an entry that is not constructed.
\<close>

theorem cache_slots_conserved:
  assumes "deps_law D nodes felems relems" and "\<forall>x. count (felems (free_list slab)) x \<le> 1" and "- 1 \<notin># felems (free_list slab)"
    and "cache_reachable D nodes (RangeCache_init D slab i seed) (rc, refs)"
  shows "felems (free_list (rc_slab rc)) + mset_set (nodes (rc_list rc)) + image_mset ri_offset (relems (retired_q rc)) = felems (free_list slab) \<and>
    dom (rc_heap rc) = nodes (rc_list rc) \<union> ri_offset ` set_mset (relems (retired_q rc)) \<and>
    (\<exists>x. find_entry D key rc = Inr x) \<and> (\<exists>rc'. try_reclaim_budgeted D n rc = Inr rc')"
proof -
  have inv: "cache_inv nodes felems relems (felems (free_list slab)) (rc, refs)"
    by (rule cache_inv_reachable [OF assms(1,4) RangeCache_init_inv [OF assms(1-3)]])
  then have ok: "cache_ok nodes felems relems rc" by (simp add: cache_inv_def)
  show ?thesis
    using inv ok find_entry_ok [OF assms(1) ok, of key] reclaim_keeps [OF assms(1) ok, of n]
    by (auto simp: cache_inv_def cache_ok_def slots_def)
qed

theorem cache_slots_conserved_witness:
  "mset [128] + mset_set (set (rc_list sample_retired)) + image_mset ri_offset (mset (retired_q sample_retired)) = mset [64, 128 :: u64]"
  using cache_slots_conserved [OF list_deps_law _ _ sample_reachable] by (simp add: sample_defs)

end
