(* ===== verification/Range_Cache_Props.thy ===== *)
theory Range_Cache_Props
  imports Range_Cache_Safety
begin

text \<open>
  What the operations of the range cache return, when it loses entries, and what may happen to an entry after the search that
  returned it.
\<close>

subsection \<open>Searching\<close>

definition covers :: "('l, 'q, 'r, 'c) RangeCache \<Rightarrow> u64 \<Rightarrow> bytes \<Rightarrow> bool" where
  "covers rc a key \<longleftrightarrow> (\<exists>e. rc_heap rc a = Some e \<and> key_ge key (en_start e) \<and> key_lt key (en_end e))"

text \<open>The entries of the list have keys of the given length and non-empty ranges that do not overlap.\<close>

definition ranges_ok :: "('l \<Rightarrow> u64 set) \<Rightarrow> nat \<Rightarrow> ('l, 'q, 'r, 'c) RangeCache \<Rightarrow> bool" where
  "ranges_ok nodes n rc \<longleftrightarrow>
     (\<forall>a \<in> nodes (rc_list rc). \<forall>e. rc_heap rc a = Some e \<longrightarrow> length (en_start e) = n \<and> length (en_end e) = n \<and> be_val (en_start e) < be_val (en_end e)) \<and>
     (\<forall>a \<in> nodes (rc_list rc). \<forall>b \<in> nodes (rc_list rc). \<forall>e f. a \<noteq> b \<and> rc_heap rc a = Some e \<and> rc_heap rc b = Some f \<longrightarrow>
        be_val (en_end e) \<le> be_val (en_start f) \<or> be_val (en_end f) \<le> be_val (en_start e))"

lemma ranges_okD:
  assumes "ranges_ok nodes n rc" and "a \<in> nodes (rc_list rc)" and "rc_heap rc a = Some e"
  shows "length (en_start e) = n" "length (en_end e) = n" "be_val (en_start e) < be_val (en_end e)"
    and "b \<in> nodes (rc_list rc) \<Longrightarrow> rc_heap rc b = Some f \<Longrightarrow> a \<noteq> b \<Longrightarrow> be_val (en_end e) \<le> be_val (en_start f) \<or> be_val (en_end f) \<le> be_val (en_start e)"
  using assms unfolding ranges_ok_def by blast+

lemma find_entry_covers:
  assumes law: "deps_law D nodes felems relems" and ok: "cache_ok nodes felems relems rc" and R: "ranges_ok nodes (length key) rc"
  shows "\<exists>r. find_entry D key rc = Inr r \<and> (\<forall>a. r = Some a \<longleftrightarrow> a \<in> nodes (rc_list rc) \<and> covers rc a key)"
proof -
  note S = skiplist_laws [OF deps_laws(1) [OF law]]
  have heap: "\<exists>e. rc_heap rc a = Some e" if "a \<in> nodes (rc_list rc)" for a
  proof -
    have "a \<in> dom (rc_heap rc)" using that ok by (auto simp: cache_ok_def)
    then show ?thesis by auto
  qed
  have len: "\<forall>b \<in> nodes (rc_list rc). length (start_of rc b) = length key"
    using heap ranges_okD(1) [OF R] by (fastforce simp: start_of_def)
  have cov: "covers rc b key \<longleftrightarrow> be_val (en_start f) \<le> be_val key \<and> be_val key < be_val (en_end f)"
    if "b \<in> nodes (rc_list rc)" "rc_heap rc b = Some f" for b f
    using that ranges_okD(1,2) [OF R that] by (simp add: covers_def key_ge_iff key_lt_iff)
  show ?thesis
  proof (cases "sl_find_smaller_or_equal (d_list D) (start_of rc) key (rc_list rc)")
    case None
    have "\<not> covers rc b key" if b: "b \<in> nodes (rc_list rc)" for b
    proof -
      obtain f where f: "rc_heap rc b = Some f" using heap [OF b] by blast
      have "\<not> key_le (start_of rc b) key" using S(7) [OF None len] b by blast
      then show ?thesis using cov [OF b f] ranges_okD(1) [OF R b f] f by (simp add: start_of_def key_le_iff)
    qed
    then show ?thesis using None by (auto simp: find_entry_def)
  next
    case (Some a)
    have a: "a \<in> nodes (rc_list rc)" by (rule S(8) [OF Some])
    obtain e where e: "rc_heap rc a = Some e" using heap [OF a] by blast
    have le: "be_val (en_start e) \<le> be_val key"
      using S(9) [OF Some len] e ranges_okD(1) [OF R a e] by (simp add: start_of_def key_le_iff)
    have only: "b = a" if b: "b \<in> nodes (rc_list rc)" "covers rc b key" for b
    proof (rule ccontr)
      assume "b \<noteq> a"
      obtain f where f: "rc_heap rc b = Some f" using heap [OF b(1)] by blast
      have k: "be_val (en_start f) \<le> be_val key" "be_val key < be_val (en_end f)" using b cov f by blast+
      have "key_le (start_of rc b) key" using k(1) f ranges_okD(1) [OF R b(1) f] by (simp add: start_of_def key_le_iff)
      then have "key_le (start_of rc b) (start_of rc a)" using S(9) [OF Some len] b(1) by blast
      then have "be_val (en_start f) \<le> be_val (en_start e)"
        using e f ranges_okD(1) [OF R a e] ranges_okD(1) [OF R b(1) f] by (simp add: start_of_def key_le_iff)
      then show False using ranges_okD(3,4) [OF R a e] b(1) f \<open>b \<noteq> a\<close> k le by force
    qed
    let ?r = "if covers rc a key then Some a else None"
    have "find_entry D key rc = Inr ?r" using Some e by (simp add: find_entry_def covers_def)
    moreover have "?r = Some b \<longleftrightarrow> b \<in> nodes (rc_list rc) \<and> covers rc b key" for b using only [of b] a by (cases "b = a") auto
    ultimately show ?thesis by blast
  qed
qed

text \<open>
  C25. A search finds the entry that covers the key. When the entries of the list have non-empty ranges that do not overlap, \<^verbatim>\<open>search\<close>
  returns the entry whose range contains the key if there is one, and none otherwise; it changes neither the list nor the free and
  retired entries.
\<close>

theorem cache_search_finds:
  assumes "deps_law D nodes felems relems" and "cache_ok nodes felems relems rc" and "ranges_ok nodes (length key) rc"
  shows "\<exists>r rc'. cache_search D tid key rc = Inr (r, rc') \<and> (\<forall>a. r = Some a \<longleftrightarrow> a \<in> nodes (rc_list rc) \<and> covers rc a key) \<and>
    cache_ok nodes felems relems rc' \<and> rc_list rc' = rc_list rc \<and> rc_slab rc' = rc_slab rc \<and> retired_q rc' = retired_q rc"
proof -
  have "cache_ok nodes felems relems (guard_enter tid rc)" "ranges_ok nodes (length key) (guard_enter tid rc)"
    using assms(2,3) cache_ok_cong(1) [of "guard_enter tid rc" rc nodes felems relems] by (simp_all add: ranges_ok_def)
  then obtain r where r: "find_entry D key (guard_enter tid rc) = Inr r" "\<forall>a. r = Some a \<longleftrightarrow> a \<in> nodes (rc_list rc) \<and> covers rc a key"
    using find_entry_covers [OF assms(1)] by (fastforce simp: covers_def)
  have ok: "cache_ok nodes felems relems rc'"
    if "rc_list rc' = rc_list rc" "rc_slab rc' = rc_slab rc" "retired_q rc' = retired_q rc" "dom (rc_heap rc') = dom (rc_heap rc)" for rc'
    using cache_ok_cong(1) [OF that] assms(2) by simp
  show ?thesis
  proof (cases r)
    case None
    then show ?thesis using r ok [of "guard_exit tid (guard_enter tid rc)"] by (intro exI [of _ r]) (simp add: cache_search_def Let_def)
  next
    case (Some a)
    have "cache_search D tid key rc = Inr (r, guard_exit tid (update_access tid a (guard_enter tid rc)))"
      using r(1) [unfolded Some] by (simp add: cache_search_def Let_def Some)
    then show ?thesis
      using r(2) ok [of "guard_exit tid (update_access tid a (guard_enter tid rc))"]
      by (intro exI [of _ r] exI [of _ "guard_exit tid (update_access tid a (guard_enter tid rc))"]) simp
  qed
qed

theorem cache_search_finds_witness:
  "\<exists>rc'. cache_search list_deps 0 [12] sample_cached = Inr (Some 64, rc') \<and> rc_list rc' = [64]"
proof -
  have "cache_ok set mset mset sample_cached" by (simp add: cache_ok_def slots_def sample_defs list_deps_def fifo_ops_def)
  moreover have "ranges_ok set (length [12 :: 8 word]) sample_cached" by (simp add: ranges_ok_def sample_defs Entry_init_def)
  ultimately obtain r rc' where r: "cache_search list_deps 0 [12] sample_cached = Inr (r, rc')"
      "\<And>a. r = Some a \<longleftrightarrow> a \<in> set (rc_list sample_cached) \<and> covers sample_cached a [12]" "rc_list rc' = rc_list sample_cached"
    using cache_search_finds [OF list_deps_law, of sample_cached "[12]" 0] by blast
  have "r = Some 64" using r(2) [of 64] by (simp add: covers_def sample_defs Entry_init_def key_ge_iff key_lt_iff)
  then show ?thesis using r(1,3) by (simp add: sample_defs)
qed

subsection \<open>A full cache\<close>

definition same_core :: "('l, 'q, 'r, 'c) RangeCache \<Rightarrow> ('l, 'q, 'r, 'c) RangeCache \<Rightarrow> bool" where
  "same_core rc1 rc \<longleftrightarrow> rc_list rc1 = rc_list rc \<and> rc_slab rc1 = rc_slab rc \<and> retired_q rc1 = retired_q rc \<and> rc_heap rc1 = rc_heap rc \<and>
     registry rc1 = registry rc \<and> global_epoch rc1 = global_epoch rc"

lemma pick_victim_core: "pick_victim_sample D tid rc = Inr (v, rc1) \<Longrightarrow> same_core rc1 rc"
  by (auto simp: pick_victim_sample_def tls_xorshift_def Let_def same_core_def split: if_splits)

lemma evict_cases:
  assumes ev: "evict_power_of_two D tid rc = Inr rc'"
  shows "\<exists>rc1. same_core rc1 rc \<and> (rc' = rc1 \<or> (\<exists>v. erase_and_retire D v rc1 = Inr rc'))"
proof (cases "d_free_count D (free_list (rc_slab rc)) > 0")
  case False
  then obtain x rc1 where p: "pick_victim_sample D tid rc = Inr (x, rc1)"
    using ev by (cases "pick_victim_sample D tid rc") (auto simp: evict_power_of_two_def)
  show ?thesis
  proof (cases x)
    case None
    then show ?thesis using ev False p pick_victim_core [OF p] by (auto simp: evict_power_of_two_def)
  next
    case (Some v1)
    then obtain y rc2 where q: "pick_victim_sample D tid rc1 = Inr (y, rc2)"
      using ev False p by (cases "pick_victim_sample D tid rc1") (auto simp: evict_power_of_two_def)
    have "same_core rc2 rc" using pick_victim_core [OF p] pick_victim_core [OF q] by (simp add: same_core_def)
    moreover have "rc' = rc2 \<or> (\<exists>v. erase_and_retire D v rc2 = Inr rc')"
      using ev False p q Some by (auto simp: evict_power_of_two_def split: option.splits sum.splits)
    ultimately show ?thesis by blast
  qed
qed (use ev in \<open>auto simp: evict_power_of_two_def same_core_def\<close>)

text \<open>
  The state of an \<^verbatim>\<open>add\<close> that finds no free slab: nothing is free and every retired entry was retired in the epoch of its own
  guard or later.
\<close>

definition starved ::
  "('l \<Rightarrow> u64 set) \<Rightarrow> ('q \<Rightarrow> u64 multiset) \<Rightarrow> ('r \<Rightarrow> RetiredItem multiset) \<Rightarrow> nat \<Rightarrow> u64 \<Rightarrow> ('l, 'q, 'r, 'c) RangeCache \<Rightarrow> bool" where
  "starved nodes felems relems tid E rc \<longleftrightarrow> cache_ok nodes felems relems rc \<and> felems (free_list (rc_slab rc)) = {#} \<and>
     map_of (registry rc) tid = Some E \<and> E \<noteq> 0 \<and> E < - 1 \<and> E \<le> global_epoch rc \<and> (\<forall>r \<in># relems (retired_q rc). E \<le> retire_epoch r)"

lemma starved_reclaim:
  assumes law: "deps_law D nodes felems relems" and st: "starved nodes felems relems tid E rc" and "unat (global_epoch rc) < 2 ^ 64 - 1"
  shows "\<exists>rc'. try_reclaim_budgeted D n rc = Inr rc' \<and> starved nodes felems relems tid E rc' \<and> rc_list rc' = rc_list rc \<and>
    rc_heap rc' = rc_heap rc \<and> relems (retired_q rc') = relems (retired_q rc) \<and> unat (global_epoch rc') \<le> Suc (unat (global_epoch rc))"
proof -
  have ok: "cache_ok nodes felems relems rc" using st by (simp add: starved_def)
  obtain rc' and freed :: "RetiredItem multiset" where k: "try_reclaim_budgeted D n rc = Inr rc'" "slots nodes felems relems rc' = slots nodes felems relems rc"
      "cache_ok nodes felems relems rc'" "rc_list rc' = rc_list rc" "registry rc' = registry rc"
      "global_epoch rc' = global_epoch rc \<or> global_epoch rc' = global_epoch rc + 1"
      "relems (retired_q rc) = relems (retired_q rc') + freed" "\<forall>r \<in># freed. retire_epoch r < scan_min_epoch rc"
      "rc_heap rc' = rc_heap rc |` (- ri_offset ` set_mset freed)"
    using reclaim_keeps [OF law ok, of n] by blast
  have min: "scan_min_epoch rc \<le> E" using st scan_min_le [of rc tid E] by (simp add: starved_def)
  have "freed = {#}"
  proof (rule ccontr)
    assume "freed \<noteq> {#}"
    then obtain r where "r \<in># freed" by blast
    then have "retire_epoch r < E" "E \<le> retire_epoch r" using k(7,8) min st by (auto simp: starved_def intro: order_less_le_trans)
    then show False by simp
  qed
  then have r: "relems (retired_q rc') = relems (retired_q rc)" and h: "rc_heap rc' = rc_heap rc"
    using k(7,9) by (simp_all add: restrict_map_all)
  have up: "unat (global_epoch rc + 1) = Suc (unat (global_epoch rc))" using assms(3) by (simp add: unat_word_ariths)
  then have g: "global_epoch rc \<le> global_epoch rc'" "unat (global_epoch rc') \<le> Suc (unat (global_epoch rc))"
    using k(6) by (auto simp: word_le_nat_alt)
  have "felems (free_list (rc_slab rc')) = {#}" using k(2,4) r st by (simp add: slots_def starved_def)
  then have "starved nodes felems relems tid E rc'" using st k(3,5) r g(1) by (auto simp: starved_def intro: order_trans)
  then show ?thesis using k(1,4) h r g(2) by blast
qed

lemma starved_evict:
  assumes law: "deps_law D nodes felems relems" and st: "starved nodes felems relems tid E rc" and ev: "evict_power_of_two D tid rc = Inr rc'"
  shows "starved nodes felems relems tid E rc' \<and> nodes (rc_list rc') \<subseteq> nodes (rc_list rc) \<and> rc_heap rc' = rc_heap rc \<and>
    size (relems (retired_q rc')) \<le> Suc (size (relems (retired_q rc))) \<and> global_epoch rc' = global_epoch rc"
proof -
  obtain rc1 where c: "rc_list rc1 = rc_list rc" "rc_slab rc1 = rc_slab rc" "retired_q rc1 = retired_q rc" "rc_heap rc1 = rc_heap rc"
      "registry rc1 = registry rc" "global_epoch rc1 = global_epoch rc" and d: "rc' = rc1 \<or> (\<exists>v. erase_and_retire D v rc1 = Inr rc')"
    using evict_cases [OF ev] unfolding same_core_def by blast
  have st1: "starved nodes felems relems tid E rc1" using st c cache_ok_cong(1) [of rc1 rc nodes felems relems] by (simp add: starved_def)
  show ?thesis
    using d
  proof
    assume "\<exists>v. erase_and_retire D v rc1 = Inr rc'"
    then obtain v where v: "erase_and_retire D v rc1 = Inr rc'" by blast
    have "cache_ok nodes felems relems rc1" using st1 by (simp add: starved_def)
    note k = drop_keeps [OF law this v]
    show ?thesis
    proof (cases "v \<in> nodes (rc_list rc1)")
      case True
      have slab: "felems (free_list (rc_slab rc')) = {#}"
        using v st1 by (auto simp: erase_and_retire_def retire_entry_def starved_def split: if_splits option.splits)
      then have "starved nodes felems relems tid E rc'"
        using st1 k(2,4,5) k(8) [OF True] by (auto simp: starved_def)
      then show ?thesis using k c k(8) [OF True] by auto
    qed (use k(7) st1 c in auto)
  qed (use st1 c in auto)
qed

lemma starved_add:
  assumes law: "deps_law D nodes felems relems" and "starved nodes felems relems tid E rc" and "unat (global_epoch rc) + n < 2 ^ 64 - 1"
    and "add_attempts n D tid s e item rc = Inr rc'"
  shows "cache_ok nodes felems relems rc' \<and> nodes (rc_list rc') \<subseteq> nodes (rc_list rc) \<and> rc_heap rc' = rc_heap rc \<and>
    size (relems (retired_q rc')) \<le> size (relems (retired_q rc)) + n"
  using assms(2-4)
proof (induction n arbitrary: rc)
  case (Suc n)
  have ok: "cache_ok nodes felems relems rc" and free: "felems (free_list (rc_slab rc)) = {#}" using Suc.prems(1) by (simp_all add: starved_def)
  have "q_try_dequeue (d_free D) (free_list (rc_slab rc)) = None" using free queue_law_None [OF deps_laws(2) [OF law]] by blast
  then have al: "alloc_entry D s e item rc = (None, rc)" by (simp add: alloc_entry_def allocate_nogrowth_def)
  obtain rc2 where r: "try_reclaim_budgeted D 64 rc = Inr rc2" "starved nodes felems relems tid E rc2" "rc_list rc2 = rc_list rc"
      "rc_heap rc2 = rc_heap rc" "relems (retired_q rc2) = relems (retired_q rc)" "unat (global_epoch rc2) \<le> Suc (unat (global_epoch rc))"
    using starved_reclaim [OF law Suc.prems(1), of 64] Suc.prems(2) by auto
  obtain rc3 where ev: "evict_power_of_two D tid rc2 = Inr rc3" and go: "add_attempts n D tid s e item rc3 = Inr rc'"
    using Suc.prems(3) al r(1) by (auto split: sum.splits)
  note k = starved_evict [OF law r(2) ev]
  have "unat (global_epoch rc3) + n < 2 ^ 64 - 1" using k r(6) Suc.prems(2) by simp
  then show ?case using Suc.IH [OF conjunct1 [OF k] _ go] k r by fastforce
qed (simp add: starved_def)

text \<open>
  An addition to a full cache is lost, and costs up to three entries. With no free slab and no retired entry, \<^verbatim>\<open>add\<close> evicts an entry
  in each of its three attempts, but it cannot reclaim what it retired in its own epoch: it returns without having stored the new
  entry; the contents of all slabs are as before, and up to three entries are no longer in the list.
\<close>

theorem cache_add_full_drops:
  assumes "deps_law D nodes felems relems" and "cache_ok nodes felems relems rc" and "felems (free_list (rc_slab rc)) = {#}"
    and "relems (retired_q rc) = {#}" and "global_epoch rc \<noteq> 0" and "unat (global_epoch rc) < 2 ^ 64 - 4"
    and "cache_add D tid s e item rc = Inr rc'"
  shows "rc_heap rc' = rc_heap rc \<and> nodes (rc_list rc') \<subseteq> nodes (rc_list rc) \<and>
    nodes (rc_list rc) = nodes (rc_list rc') \<union> ri_offset ` set_mset (relems (retired_q rc')) \<and> size (relems (retired_q rc')) \<le> 3"
proof -
  let ?g = "guard_enter tid rc"
  obtain rc1 where run: "add_attempts 3 D tid s e item ?g = Inr rc1" "rc' = guard_exit tid rc1"
    using assms(7) by (auto simp: cache_add_def split: sum.splits)
  have "cache_ok nodes felems relems ?g" using assms(2) cache_ok_cong(1) [of ?g rc nodes felems relems] by simp
  moreover have "global_epoch rc < - 1" using assms(6) by (simp add: word_less_nat_alt unat_minus_1)
  moreover have "map_of (registry ?g) tid = Some (global_epoch rc)" by (simp add: guard_enter_def map_of_set_epoch)
  ultimately have st: "starved nodes felems relems tid (global_epoch rc) ?g" using assms(3-5) by (simp add: starved_def)
  have k: "cache_ok nodes felems relems rc1" "nodes (rc_list rc1) \<subseteq> nodes (rc_list rc)" "rc_heap rc1 = rc_heap rc" "size (relems (retired_q rc1)) \<le> 3"
    using starved_add [OF assms(1) st _ run(1)] assms(4,6) by simp_all
  have "nodes (rc_list rc) = nodes (rc_list rc1) \<union> ri_offset ` set_mset (relems (retired_q rc1))"
    using k(1,3) assms(2,4) unfolding cache_ok_def by auto
  then show ?thesis using k run(2) by simp
qed

definition sample_one :: "(u64 list, u64 list, RetiredItem list, nat) RangeCache" where
  "sample_one = sample_cache\<lparr>rc_slab := sample_slab\<lparr>num_slabs := 1, free_list := []\<rparr>, rc_heap := [64 \<mapsto> Entry_init [10] [20] 7], rc_list := [64]\<rparr>"

theorem cache_add_full_drops_witness:
  "\<exists>rc'. cache_add list_deps 1 [30] [40] 8 sample_one = Inr rc' \<and> rc_heap rc' = [64 \<mapsto> Entry_init [10] [20] 7]"
proof -
  have "case cache_add list_deps 1 [30] [40] 8 sample_one of Inr rc' \<Rightarrow> True | _ \<Rightarrow> False" by code_simp
  then obtain rc' where r: "cache_add list_deps 1 [30] [40] 8 sample_one = Inr rc'" by (auto split: sum.splits)
  have "cache_ok set mset mset sample_one" by (simp add: cache_ok_def slots_def sample_one_def sample_defs list_deps_def fifo_ops_def)
  then show ?thesis
    using cache_add_full_drops [OF list_deps_law _ _ _ _ _ r] r by (simp add: sample_one_def sample_defs list_deps_def fifo_ops_def)
qed

subsection \<open>Destruction\<close>

lemma free_retired_keeps:
  assumes law: "deps_law D nodes felems relems" and ok: "cache_ok nodes felems relems rc" and q: "q_try_dequeue (d_retired D) (retired_q rc) = Some (ri, q)"
  shows "\<exists>rc'. free_entry D (ri_offset ri) (rc\<lparr>retired_q := q\<rparr>) = Inr rc' \<and> cache_ok nodes felems relems rc' \<and> rc_list rc' = rc_list rc \<and>
    retired_q rc' = q \<and> slots nodes felems relems rc' = slots nodes felems relems rc"
proof -
  let ?a = "ri_offset ri"
  have r: "relems (retired_q rc) = add_mset ri (relems q)" by (rule queue_law_Some [OF deps_laws(3) [OF law] q])
  let ?rc = "rc\<lparr>retired_q := q, rc_heap := (rc_heap rc)(?a := None), rc_slab := slab_free (d_free D) ?a (rc_slab rc)\<rparr>"
  have "?a \<in> dom (rc_heap rc)" using ok r by (auto simp: cache_ok_def)
  then have "free_entry D ?a (rc\<lparr>retired_q := q\<rparr>) = Inr ?rc" by (auto simp: free_entry_def)
  moreover have same: "slots nodes felems relems ?rc = slots nodes felems relems rc"
    unfolding slots_def r by (simp add: slab_free_def queue_law_enqueue [OF deps_laws(2) [OF law]])
  moreover have "cache_ok nodes felems relems ?rc"
  proof -
    have u: "\<forall>x. count (felems (free_list (rc_slab rc)) + mset_set (nodes (rc_list rc)) + image_mset ri_offset (relems (retired_q rc))) x \<le> 1"
      using ok by (simp add: cache_ok_def slots_def)
    have "?a \<notin> nodes (rc_list rc)" using slots_apart(2) [OF u skiplist_laws(2) [OF deps_laws(1) [OF law]], of ?a] r by auto
    moreover have "count (image_mset ri_offset (relems q)) ?a = 0" using spec [OF u, of ?a] r by simp
    then have "?a \<notin># image_mset ri_offset (relems q)" by (simp only: not_in_iff)
    ultimately show ?thesis using ok same r unfolding cache_ok_def same by auto
  qed
  ultimately show ?thesis by (intro exI [of _ ?rc]) simp
qed

text \<open>
  The destructor ends after one round per retired entry, with every one of them destroyed once; the entries that are still in the list
  are left as they are.
\<close>

lemma cache_destroy_frees:
  assumes law: "deps_law D nodes felems relems" and "cache_ok nodes felems relems rc" and "size (relems (retired_q rc)) < n"
  shows "\<exists>rc'. cache_destroy n D rc = Inr rc' \<and> relems (retired_q rc') = {#} \<and> dom (rc_heap rc') = nodes (rc_list rc) \<and>
    slots nodes felems relems rc' = slots nodes felems relems rc"
  using assms(2,3)
proof (induction n arbitrary: rc)
  case (Suc n)
  show ?case
  proof (cases "q_try_dequeue (d_retired D) (retired_q rc)")
    case None
    then have "relems (retired_q rc) = {#}" using queue_law_None [OF deps_laws(3) [OF law]] by blast
    then show ?thesis using None Suc.prems(1) by (simp add: cache_ok_def)
  next
    case (Some x)
    then obtain ri q where x: "q_try_dequeue (d_retired D) (retired_q rc) = Some (ri, q)" by (cases x) auto
    obtain rc1 where f: "free_entry D (ri_offset ri) (rc\<lparr>retired_q := q\<rparr>) = Inr rc1" "cache_ok nodes felems relems rc1" "rc_list rc1 = rc_list rc"
        "retired_q rc1 = q" "slots nodes felems relems rc1 = slots nodes felems relems rc"
      using free_retired_keeps [OF law Suc.prems(1) x] by blast
    have "size (relems (retired_q rc1)) < n" using Suc.prems(2) queue_law_Some [OF deps_laws(3) [OF law] x] f(4) by simp
    from Suc.IH [OF f(2) this] show ?thesis using x f by auto
  qed
qed simp

subsection \<open>After a search\<close>

text \<open>
  The entry that a search returned may be replaced before its caller reads it. The guard of \<^verbatim>\<open>search\<close> ends when it returns: in a
  cache with one slab, after the search of thread 0 has returned the entry for the keys 10 to 20, thread 1 invalidates it and adds the range
  30 to 40 twice, and the address that thread 0 holds is now the entry of that range.
\<close>

theorem cache_result_reused:
  "map_sum id fst (cache_search list_deps 0 [12] sample_one) = Inr (Some 64) \<and>
   (case cache_search list_deps 0 [12] sample_one of Inr (_, rc1) \<Rightarrow>
      (case cache_invalidate list_deps 1 64 rc1 of Inr rc2 \<Rightarrow>
        (case cache_add list_deps 1 [30] [40] 8 rc2 of Inr rc3 \<Rightarrow>
          (case cache_add list_deps 1 [30] [40] 8 rc3 of Inr rc4 \<Rightarrow>
             entry_core rc1 64 = Some ([10], [20], 7) \<and> entry_core rc4 64 = Some ([30], [40], 8)
           | _ \<Rightarrow> False) | _ \<Rightarrow> False) | _ \<Rightarrow> False) | _ \<Rightarrow> False)"
  by code_simp

end
