(* ===== verification/Config.thy ===== *)
theory Config
  imports Thread_Stats
begin

text \<open>
  \<^verbatim>\<open>src/src/config/config.hpp\<close>, the part of \<^verbatim>\<open>src/src/util/thread_logging.hpp\<close> that it uses, and the operation picker
  of \<^verbatim>\<open>src/src/util/benchmark.hpp\<close>: the configuration of a run, how it is read from a YAML document, and how a client chooses its
  operations from it. The YAML parser is third-party code: \<open>yaml_ops\<close> has the access to a member of a node and the
  conversions of a node, which fail (the code throws) with \<open>None\<close>. Numbers of type \<^verbatim>\<open>double\<close> are real numbers, without rounding.
\<close>

subsection \<open>Characters and log levels\<close>

definition tolower :: "char \<Rightarrow> char" where
  "tolower c = (if 65 \<le> (of_char c :: nat) \<and> (of_char c :: nat) \<le> 90 then char_of ((of_char c :: nat) + 32) else c)"

datatype LogLevel = LOG_ERROR | LOG_WARN | LOG_INFO | LOG_DEBUG

definition level_to_string :: "LogLevel \<Rightarrow> string" where
  "level_to_string l = (case l of LOG_ERROR \<Rightarrow> ''ERR'' | LOG_WARN \<Rightarrow> ''WRN'' | LOG_INFO \<Rightarrow> ''INF'' | LOG_DEBUG \<Rightarrow> ''DBG'')"

definition log_level_from_string :: "string \<Rightarrow> err + LogLevel" where
  "log_level_from_string s =
     (if s = ''ERROR'' then Inr LOG_ERROR
      else if s = ''WARN'' \<or> s = ''WARNING'' then Inr LOG_WARN
      else if s = ''INFO'' then Inr LOG_INFO
      else if s = ''DEBUG'' then Inr LOG_DEBUG
      else Inl Exception)"

subsection \<open>The configuration\<close>

datatype DistType = Uniform | Skewed

record DistributionConfig =
  dist_type :: DistType
  key_space :: u64
  zipf :: real

definition parse_type :: "string \<Rightarrow> DistType" where
  "parse_type raw =
     (let lower = map tolower raw in
      if lower = ''uniform'' then Uniform else if lower = ''skewed'' then Skewed else Uniform)"

definition dist_to_string :: "DistType \<Rightarrow> string" where
  "dist_to_string t = (case t of Uniform \<Rightarrow> ''uniform'' | Skewed \<Rightarrow> ''skewed'')"

datatype IndexType = Faunus | Sherman

record IndexConfig =
  num_cs :: u64
  threads_per_cs :: u64
  num_ms :: u64
  mem_per_ms :: u64
  base_rtt_ns :: u64
  key_size :: u64
  value_size :: u64
  kv_per_thread :: u64
  initial_slabs_per_size :: u64
  log_level :: LogLevel
  cpu_binding_enabled :: bool
  cpu_binding_start_core :: u64
  cpu_isolation_required :: bool
  maintenance_cs :: u64
  threads_per_maintenance_cs :: u64
  total_ops :: u64
  ops_per_client :: u64
  warmup_inserts :: u64
  operation_mix :: "real list"
  workload :: string
  index_type :: IndexType
  index :: string
  distribution :: DistributionConfig
  use_cache :: bool
  max_cs_cache_size_kb :: u64
  max_mcs_cache_size_kb :: u64

definition IndexConfig_init :: IndexConfig where
  "IndexConfig_init =
     \<lparr>num_cs = 8, threads_per_cs = 8, num_ms = 8, mem_per_ms = 512 * 1024, base_rtt_ns = 3000, key_size = 8, value_size = 8,
      kv_per_thread = 1000, initial_slabs_per_size = 1024, log_level = LOG_INFO, cpu_binding_enabled = False,
      cpu_binding_start_core = 0, cpu_isolation_required = False, maintenance_cs = 0, threads_per_maintenance_cs = 0,
      total_ops = 50000, ops_per_client = 0, warmup_inserts = 1000, operation_mix = [1 / 2, 1 / 2, 0], workload = '''',
      index_type = Faunus, index = ''faunus'', distribution = \<lparr>dist_type = Uniform, key_space = 1000000, zipf = 99 / 100\<rparr>,
      use_cache = True, max_cs_cache_size_kb = 1024, max_mcs_cache_size_kb = 1024\<rparr>"

subsection \<open>Reading a document\<close>

record 'y yaml_ops =
  y_get :: "'y \<Rightarrow> string \<Rightarrow> 'y option"
  y_size :: "'y \<Rightarrow> u64 option"
  y_bool :: "'y \<Rightarrow> bool option"
  y_string :: "'y \<Rightarrow> string option"
  y_double :: "'y \<Rightarrow> real option"
  y_ratios :: "'y \<Rightarrow> (string \<rightharpoonup> real) option"

text \<open>
  \<open>load_field\<close> is the statement \<^verbatim>\<open>if (node["k"]) cfg.k = node["k"].as<T>();\<close> for the conversion \<open>as_T\<close>; the assignment may fail
  itself.
\<close>

definition load_field ::
  "'y yaml_ops \<Rightarrow> ('y \<Rightarrow> 'a option) \<Rightarrow> string \<Rightarrow> ('a \<Rightarrow> 'c \<Rightarrow> err + 'c) \<Rightarrow> 'y \<Rightarrow> 'c \<Rightarrow> err + 'c" where
  "load_field Y as_T k assign node cfg =
     (case y_get Y node k of
        None \<Rightarrow> Inr cfg
      | Some n \<Rightarrow> (case as_T n of None \<Rightarrow> Inl Exception | Some v \<Rightarrow> assign v cfg))"

fun load_fields :: "('y \<Rightarrow> 'c \<Rightarrow> err + 'c) list \<Rightarrow> 'y \<Rightarrow> 'c \<Rightarrow> err + 'c" where
  "load_fields [] node cfg = Inr cfg"
| "load_fields (f # fs) node cfg = (case f node cfg of Inl e \<Rightarrow> Inl e | Inr cfg' \<Rightarrow> load_fields fs node cfg')"

text \<open>The members that are copied as they are, in the order of the code.\<close>

definition scalar_fields :: "'y yaml_ops \<Rightarrow> ('y \<Rightarrow> IndexConfig \<Rightarrow> err + IndexConfig) list" where
  "scalar_fields Y =
     (let size = (\<lambda>k upd. load_field Y (y_size Y) k (\<lambda>v c. Inr (upd (\<lambda>_. v) c)));
          flag = (\<lambda>k upd. load_field Y (y_bool Y) k (\<lambda>v c. Inr (upd (\<lambda>_. v) c)))
      in [size ''num_cs'' num_cs_update, size ''threads_per_cs'' threads_per_cs_update, size ''num_ms'' num_ms_update,
          size ''mem_per_ms'' mem_per_ms_update, size ''base_rtt_ns'' base_rtt_ns_update, size ''key_size'' key_size_update,
          size ''value_size'' value_size_update, size ''kv_per_thread'' kv_per_thread_update,
          size ''initial_slabs_per_size'' initial_slabs_per_size_update,
          load_field Y (y_string Y) ''log_level''
            (\<lambda>s c. case log_level_from_string s of Inl e \<Rightarrow> Inl e | Inr l \<Rightarrow> Inr (c\<lparr>log_level := l\<rparr>)),
          flag ''cpu_binding_enabled'' cpu_binding_enabled_update, size ''cpu_binding_start_core'' cpu_binding_start_core_update,
          flag ''cpu_isolation_required'' cpu_isolation_required_update, size ''maintenance_cs'' maintenance_cs_update,
          size ''threads_per_maintenance_cs'' threads_per_maintenance_cs_update, size ''total_ops'' total_ops_update,
          size ''ops_per_client'' ops_per_client_update, size ''warmup_inserts'' warmup_inserts_update])"

definition load_workload :: "'y yaml_ops \<Rightarrow> 'y \<Rightarrow> IndexConfig \<Rightarrow> err + IndexConfig" where
  "load_workload Y node cfg =
     (let set_workload = (\<lambda>s c. Inr (c\<lparr>workload := s\<rparr>)) in
      if y_get Y node ''workload'' \<noteq> None then load_field Y (y_string Y) ''workload'' set_workload node cfg
      else load_field Y (y_string Y) ''preset'' set_workload node cfg)"

definition load_index :: "'y yaml_ops \<Rightarrow> 'y \<Rightarrow> IndexConfig \<Rightarrow> err + IndexConfig" where
  "load_index Y = load_field Y (y_string Y) ''index''
     (\<lambda>s c. let raw = map tolower s in Inr (c\<lparr>index := raw, index_type := (if raw = ''sherman'' then Sherman else Faunus)\<rparr>))"

definition presets :: "string \<Rightarrow> real list option" where
  "presets = [''write-only'' \<mapsto> [1, 0, 0], ''write-intensive'' \<mapsto> [1 / 2, 1 / 2, 0], ''read-intensive'' \<mapsto> [5 / 100, 95 / 100, 0]]"

definition apply_preset :: "IndexConfig \<Rightarrow> IndexConfig" where
  "apply_preset cfg =
     (if workload cfg = '''' then cfg
      else case presets (map tolower (workload cfg)) of Some m \<Rightarrow> cfg\<lparr>operation_mix := m\<rparr> | None \<Rightarrow> cfg)"

definition load_cache :: "'y yaml_ops \<Rightarrow> 'y \<Rightarrow> IndexConfig \<Rightarrow> err + IndexConfig" where
  "load_cache Y = load_field Y Some ''cache'' (\<lambda>cache_node.
     load_fields
       [load_field Y (y_bool Y) ''enabled'' (\<lambda>v c. Inr (c\<lparr>use_cache := v\<rparr>)),
        load_field Y (y_size Y) ''max_size_kb'' (\<lambda>v c. Inr (c\<lparr>max_cs_cache_size_kb := v, max_mcs_cache_size_kb := v\<rparr>)),
        load_field Y (y_size Y) ''max_mcs_size_kb'' (\<lambda>v c. Inr (c\<lparr>max_mcs_cache_size_kb := v\<rparr>))] cache_node)"

definition normalise_mix :: "real list \<Rightarrow> real list" where
  "normalise_mix m =
     (let total = m ! 0 + m ! 1 + m ! 2 in if total \<le> 0 then [1, 0, 0] else map (\<lambda>r. r / total) m)"

definition load_mix :: "'y yaml_ops \<Rightarrow> 'y \<Rightarrow> IndexConfig \<Rightarrow> err + IndexConfig" where
  "load_mix Y = load_field Y (y_ratios Y) ''operation_mix'' (\<lambda>mix cfg.
     let get_ratio = (\<lambda>key def. case mix key of None \<Rightarrow> def | Some r \<Rightarrow> r); m = operation_mix cfg
     in Inr (cfg\<lparr>operation_mix :=
          normalise_mix [get_ratio ''insert'' (m ! 0), get_ratio ''read'' (m ! 1), get_ratio ''delete'' (m ! 2)]\<rparr>))"

definition load_distribution :: "'y yaml_ops \<Rightarrow> 'y \<Rightarrow> IndexConfig \<Rightarrow> err + IndexConfig" where
  "load_distribution Y = load_field Y Some ''distribution'' (\<lambda>dist_node.
     load_fields
       [load_field Y (y_string Y) ''type'' (\<lambda>s c. Inr (c\<lparr>distribution := (distribution c)\<lparr>dist_type := parse_type s\<rparr>\<rparr>)),
        load_field Y (y_size Y) ''key_space'' (\<lambda>v c. Inr (c\<lparr>distribution := (distribution c)\<lparr>key_space := v\<rparr>\<rparr>)),
        load_field Y (y_double Y) ''zipf'' (\<lambda>v c. Inr (c\<lparr>distribution := (distribution c)\<lparr>zipf := v\<rparr>\<rparr>))] dist_node)"

definition clamp_zipf :: "DistributionConfig \<Rightarrow> DistributionConfig" where
  "clamp_zipf d =
     (if dist_type d = Skewed
      then let z = (if zipf d \<le> 0 then 1 / 2 else zipf d) in d\<lparr>zipf := (if z \<ge> 1 then 1 - 1 / 1000000 else z)\<rparr>
      else d)"

definition ensure_key_space :: "IndexConfig \<Rightarrow> IndexConfig" where
  "ensure_key_space cfg =
     (let minimum_space = warmup_inserts cfg + ops_per_client cfg in
      if key_space (distribution cfg) < minimum_space
      then cfg\<lparr>distribution := (distribution cfg)\<lparr>key_space := minimum_space\<rparr>\<rparr> else cfg)"

definition load_config :: "'y yaml_ops \<Rightarrow> 'y \<Rightarrow> err + IndexConfig" where
  "load_config Y node =
     map_sum id (\<lambda>c. ensure_key_space (c\<lparr>distribution := clamp_zipf (distribution c)\<rparr>))
       (load_fields (scalar_fields Y @ [load_workload Y, load_index Y, \<lambda>_ c. Inr (apply_preset c), load_cache Y, load_mix Y,
          load_distribution Y]) node IndexConfig_init)"

subsection \<open>Choosing an operation\<close>

text \<open>The number \<open>r\<close> is drawn from the interval from 0 (included) to 1 (excluded).\<close>

definition weighted_pick :: "real list \<Rightarrow> real \<Rightarrow> OperationKind" where
  "weighted_pick mix r =
     (let c1 = mix ! 0; c2 = c1 + mix ! 1 in
      if r < c1 then Insert else if r < c2 then Read else Delete)"

definition operation_name :: "OperationKind \<Rightarrow> string" where
  "operation_name kind = (case kind of Insert \<Rightarrow> ''insert'' | Read \<Rightarrow> ''read'' | Update \<Rightarrow> ''update'' | Delete \<Rightarrow> ''delete'')"

subsection \<open>What a configuration guarantees\<close>

definition mix_ok :: "real list \<Rightarrow> bool" where
  "mix_ok m \<longleftrightarrow> length m = 3 \<and> sum_list m = 1"

lemma length_3: "length m = 3 \<Longrightarrow> \<exists>a b c. m = [a, b, c]"
  by (auto simp: length_Suc_conv numeral_3_eq_3)

lemma load_fields_inv:
  assumes "\<And>f c c'. f \<in> set fs \<Longrightarrow> P c \<Longrightarrow> f node c = Inr c' \<Longrightarrow> P c'" and "P cfg" and "load_fields fs node cfg = Inr cfg'"
  shows "P cfg'"
  using assms
proof (induction fs arbitrary: cfg)
  case (Cons f fs)
  then obtain c1 where "f node cfg = Inr c1" "load_fields fs node c1 = Inr cfg'" by (cases "f node cfg") auto
  then show ?case using Cons.IH [of c1] Cons.prems by auto
qed simp

lemma load_field_inv:
  assumes "load_field Y as_T k assign node cfg = Inr cfg'" and "P cfg" and "\<And>v. assign v cfg = Inr cfg' \<Longrightarrow> P cfg'"
  shows "P cfg'"
  using assms by (auto simp: load_field_def split: option.splits)

definition config_inv :: "IndexConfig \<Rightarrow> bool" where
  "config_inv c \<longleftrightarrow> mix_ok (operation_mix c) \<and> (index_type c = Sherman \<longleftrightarrow> index c = ''sherman'')"

lemma normalise_mix_ok: "mix_ok (normalise_mix [a, b, c])"
  by (simp add: normalise_mix_def mix_ok_def Let_def add_divide_distrib [symmetric] add.assoc numeral_2_eq_2)

lemma apply_preset_ok: "mix_ok (operation_mix c) \<Longrightarrow> mix_ok (operation_mix (apply_preset c))"
  by (auto simp: apply_preset_def presets_def mix_ok_def split: option.splits if_splits)

lemma scalar_field_inv:
  assumes "f \<in> set (scalar_fields Y)" and "config_inv c" and "f node c = Inr c'"
  shows "config_inv c'"
proof -
  have "list_all (\<lambda>f. \<forall>c c'. f node c = Inr c' \<longrightarrow> config_inv c \<longrightarrow> config_inv c') (scalar_fields Y)"
    unfolding scalar_fields_def Let_def list.pred_inject
    by (intro conjI allI impI; (erule load_field_inv)?; auto simp: config_inv_def split: sum.splits)
  then show ?thesis using assms by (auto simp: list_all_iff)
qed

lemma load_fields_of_inv:
  assumes "\<And>f c c'. f \<in> set fs \<Longrightarrow> config_inv c \<Longrightarrow> f n c = Inr c' \<Longrightarrow> config_inv c'" and "config_inv c" and "load_fields fs n c = Inr c'"
  shows "config_inv c'"
  by (rule load_fields_inv [where P = config_inv, OF _ assms(2,3)]) (rule assms(1))

lemma loaders_inv:
  assumes "config_inv c"
  shows "load_workload Y node c = Inr c' \<Longrightarrow> config_inv c'" and "load_index Y node c = Inr c' \<Longrightarrow> config_inv c'"
    and "config_inv (apply_preset c)" and "load_cache Y node c = Inr c' \<Longrightarrow> config_inv c'"
    and "load_mix Y node c = Inr c' \<Longrightarrow> config_inv c'" and "load_distribution Y node c = Inr c' \<Longrightarrow> config_inv c'"
proof -
  show "config_inv c'" if "load_workload Y node c = Inr c'"
    using that assms unfolding load_workload_def Let_def by (auto simp: config_inv_def split: if_splits elim!: load_field_inv)
  show "config_inv c'" if "load_index Y node c = Inr c'"
    using that unfolding load_index_def by (rule load_field_inv) (use assms in \<open>auto simp: config_inv_def Let_def split: if_splits\<close>)
  show "config_inv (apply_preset c)"
    using assms apply_preset_ok [of c] by (auto simp: config_inv_def apply_preset_def split: option.splits)
  show "config_inv c'" if "load_mix Y node c = Inr c'"
    using that unfolding load_mix_def by (rule load_field_inv) (use assms in \<open>auto simp: config_inv_def Let_def normalise_mix_ok\<close>)
  show "config_inv c'" if "load_cache Y node c = Inr c'"
    using that unfolding load_cache_def
  proof (rule load_field_inv)
    fix n
    assume "load_fields [load_field Y (y_bool Y) ''enabled'' (\<lambda>v c. Inr (c\<lparr>use_cache := v\<rparr>)),
        load_field Y (y_size Y) ''max_size_kb'' (\<lambda>v c. Inr (c\<lparr>max_cs_cache_size_kb := v, max_mcs_cache_size_kb := v\<rparr>)),
        load_field Y (y_size Y) ''max_mcs_size_kb'' (\<lambda>v c. Inr (c\<lparr>max_mcs_cache_size_kb := v\<rparr>))] n c = Inr c'"
    then show "config_inv c'"
      by (rule load_fields_of_inv [OF _ assms, rotated]) (auto simp: config_inv_def elim!: load_field_inv)
  qed (rule assms)
  show "config_inv c'" if "load_distribution Y node c = Inr c'"
    using that unfolding load_distribution_def
  proof (rule load_field_inv)
    fix n
    assume "load_fields [load_field Y (y_string Y) ''type'' (\<lambda>s c. Inr (c\<lparr>distribution := (distribution c)\<lparr>dist_type := parse_type s\<rparr>\<rparr>)),
        load_field Y (y_size Y) ''key_space'' (\<lambda>v c. Inr (c\<lparr>distribution := (distribution c)\<lparr>key_space := v\<rparr>\<rparr>)),
        load_field Y (y_double Y) ''zipf'' (\<lambda>v c. Inr (c\<lparr>distribution := (distribution c)\<lparr>zipf := v\<rparr>\<rparr>))] n c = Inr c'"
    then show "config_inv c'"
      by (rule load_fields_of_inv [OF _ assms, rotated]) (auto simp: config_inv_def elim!: load_field_inv)
  qed (rule assms)
qed


text \<open>A document with a skew of 2 and ratios that do not add up to 1.\<close>

definition sample_yaml :: "string yaml_ops" where
  "sample_yaml =
     \<lparr>y_get = (\<lambda>n k. if n = '''' \<and> k \<in> {''distribution'', ''operation_mix''} \<or> n = ''distribution'' \<and> k \<in> {''type'', ''zipf''} then Some k else None),
      y_size = (\<lambda>_. None), y_bool = (\<lambda>_. None), y_string = (\<lambda>n. Some ''Skewed''), y_double = (\<lambda>n. Some 2),
      y_ratios = (\<lambda>n. Some [''insert'' \<mapsto> 3, ''read'' \<mapsto> 1])\<rparr>"


end
