(* ===== verification/Workload.thy ===== *)
theory Workload
  imports Config Array_Var
begin

text \<open>
  \<^verbatim>\<open>src/src/util/distribution.hpp\<close>, \<^verbatim>\<open>src/src/util/key_management.hpp\<close> and the percentiles of
  \<^verbatim>\<open>src/src/util/benchmark.hpp\<close>: how a client draws the keys of its operations. Numbers of type \<^verbatim>\<open>double\<close> are real numbers
  without rounding, \<^verbatim>\<open>std::pow\<close> on a base that is not negative is \<open>powr\<close>. The numbers that the standard library's engines draw are
  arguments: \<open>u\<close> from the interval from 0 to 1 (1 excluded), or a stream of draws.
\<close>

subsection \<open>The Zipf distribution\<close>

record ZipfianSampler =
  theta :: real
  alpha :: real
  zeta_2_theta :: real
  items :: nat
  zetan :: real
  eta :: real

fun add_terms :: "real \<Rightarrow> nat list \<Rightarrow> real \<Rightarrow> real" where
  "add_terms \<theta> [] s = s"
| "add_terms \<theta> (i # is) s = add_terms \<theta> is (s + real i powr - \<theta>)"

fun sub_terms :: "real \<Rightarrow> nat list \<Rightarrow> real \<Rightarrow> real" where
  "sub_terms \<theta> [] s = s"
| "sub_terms \<theta> (i # is) s = sub_terms \<theta> is (s - real i powr - \<theta>)"

definition harmonic :: "nat \<Rightarrow> real \<Rightarrow> real" where
  "harmonic n \<theta> = (if n = 0 then 0 else add_terms \<theta> [1..<Suc n] 0)"

definition zipf_reset :: "ZipfianSampler \<Rightarrow> ZipfianSampler" where
  "zipf_reset z = z\<lparr>items := 0, zetan := 0, eta := 0\<rparr>"

definition ZipfianSampler_init :: "real \<Rightarrow> ZipfianSampler" where
  "ZipfianSampler_init \<theta> =
     zipf_reset \<lparr>theta = \<theta>, alpha = (if \<theta> = 0 then 0 else 1 / (1 - \<theta>)), zeta_2_theta = harmonic 2 \<theta>, items = 0, zetan = 0, eta = 0\<rparr>"

text \<open>The smallest positive normal \<^verbatim>\<open>double\<close> is \<^verbatim>\<open>std::numeric_limits<double>::min()\<close>.\<close>

definition double_min :: real where "double_min = 1 / 2 ^ 1022"

definition zipf_update_item_count :: "nat \<Rightarrow> ZipfianSampler \<Rightarrow> ZipfianSampler" where
  "zipf_update_item_count count z =
     (if count = items z then z
      else if count = 0 then zipf_reset z
      else
        let z1 = (if items z = 0 then z\<lparr>items := 1, zetan := 1\<rparr> else z);
            s = (if count > items z1 then add_terms (theta z) [items z1 + 1..<Suc count] (zetan z1)
                 else sub_terms (theta z) (rev [Suc count..<Suc (items z1)]) (zetan z1));
            z2 = z1\<lparr>zetan := s, items := count\<rparr>
        in if theta z = 0 then z2\<lparr>eta := 0\<rparr>
           else let one_minus_theta = 1 - theta z;
                    denom_term = (if items z2 > 1 then 1 - (2 / real (items z2)) powr one_minus_theta else 1);
                    numerator = 1 - zeta_2_theta z / zetan z2;
                    numerator' = (if numerator \<le> 0 then double_min else numerator)
                in z2\<lparr>eta := denom_term / numerator'\<rparr>)"

text \<open>The conversion of a negative base's power, which is not a number, to an index would be undefined.\<close>

definition zipf_sample :: "ZipfianSampler \<Rightarrow> real \<Rightarrow> err + nat" where
  "zipf_sample z u =
     (if items z = 0 then Inr 0
      else if theta z = 0 \<or> items z = 1 then Inr 0
      else let uz = u * zetan z in
        if uz < 1 then Inr 0
        else if uz < 1 + (1 / 2) powr theta z then Inr (min 1 (items z - 1))
        else let base = eta z * u - eta z + 1 in
          if base < 0 then Inl UndefinedBehaviour
          else let idx = nat \<lfloor>real (items z) * base powr alpha z\<rfloor> in Inr (if idx \<ge> items z then items z - 1 else idx))"

subsection \<open>The sampler of a client\<close>

record KeySelectionSampler =
  ks_type :: DistType
  active_count :: nat
  zipf_sampler :: ZipfianSampler
  uniform_count :: nat

definition KeySelectionSampler_init :: "DistributionConfig \<Rightarrow> KeySelectionSampler" where
  "KeySelectionSampler_init c = \<lparr>ks_type = dist_type c, active_count = 0, zipf_sampler = ZipfianSampler_init (zipf c), uniform_count = 0\<rparr>"

definition update_active_count :: "nat \<Rightarrow> KeySelectionSampler \<Rightarrow> KeySelectionSampler" where
  "update_active_count count k =
     (let k1 = k\<lparr>active_count := count\<rparr> in
      if ks_type k = Skewed then k1\<lparr>zipf_sampler := zipf_update_item_count count (zipf_sampler k)\<rparr>
      else k1\<lparr>uniform_count := count\<rparr>)"

text \<open>
  \<open>draw n\<close> is the draw of \<^verbatim>\<open>std::uniform_int_distribution\<close> from 0 to \<open>n\<close>, \<open>u\<close> that of \<^verbatim>\<open>std::uniform_real_distribution\<close>.
\<close>

definition uniform_sample :: "nat \<Rightarrow> (nat \<Rightarrow> nat) \<Rightarrow> nat" where
  "uniform_sample count draw = (if count = 0 then 0 else draw (count - 1))"

definition ks_sample :: "KeySelectionSampler \<Rightarrow> (nat \<Rightarrow> nat) \<Rightarrow> real \<Rightarrow> err + nat" where
  "ks_sample k draw u =
     (if active_count k = 0 then Inr 0
      else map_sum id (\<lambda>idx. if idx \<ge> active_count k then active_count k - 1 else idx)
        (if ks_type k = Uniform then Inr (uniform_sample (uniform_count k) draw) else zipf_sample (zipf_sampler k) u))"

subsection \<open>Keys and values\<close>

primrec key_bytes :: "nat \<Rightarrow> u64 \<Rightarrow> bytes" where
  "key_bytes 0 raw = []"
| "key_bytes (Suc n) raw = ucast (raw AND 0xFF) # key_bytes n (drop_bit 8 raw OR push_bit 56 raw)"

definition key_of_index :: "nat \<Rightarrow> u64 \<Rightarrow> bytes" where
  "key_of_index N key_index = key_bytes N (key_index * 0x517CC1B727220A95)"

text \<open>The loops that draw until the key or value is usable; \<open>draws t\<close> is what the generator gives in round \<open>t\<close>.\<close>

primrec sample_key_from_global_space :: "nat \<Rightarrow> nat \<Rightarrow> (nat \<Rightarrow> u64) \<Rightarrow> nat \<Rightarrow> u64 \<Rightarrow> err + bytes" where
  "sample_key_from_global_space 0 N draws t key_space_size = Inl Diverges"
| "sample_key_from_global_space (Suc n) N draws t key_space_size =
     (if draws t \<ge> key_space_size \<and> key_space_size = 0 then Inl UndefinedBehaviour
      else let key_index = (if draws t \<ge> key_space_size then draws t mod key_space_size else draws t);
               key = key_of_index N key_index
           in if key_eq key (ArrayVar_min N) \<or> key_eq key (ArrayVar_max N)
              then sample_key_from_global_space n N draws (Suc t) key_space_size else Inr key)"

primrec generate_random_value :: "nat \<Rightarrow> nat \<Rightarrow> (nat \<Rightarrow> nat \<Rightarrow> u8) \<Rightarrow> nat \<Rightarrow> err + bytes" where
  "generate_random_value 0 N draws t = Inl Diverges"
| "generate_random_value (Suc n) N draws t =
     (let value = map (draws t) [0..<N] in
      if key_eq value (ArrayVar_min N) then generate_random_value n N draws (Suc t) else Inr value)"

subsection \<open>Percentiles of samples\<close>

text \<open>A percentile outside of the unit interval reads outside of the samples.\<close>

definition percentile_of :: "real list \<Rightarrow> real \<Rightarrow> err + real" where
  "percentile_of xs p =
     (let index = p * real (length xs - 1); lower = nat \<lfloor>index\<rfloor>; upper = min (lower + 1) (length xs - 1);
          fraction = index - real lower
      in if p < 0 \<or> lower \<ge> length xs then Inl UndefinedBehaviour
         else Inr (xs ! lower + fraction * (xs ! upper - xs ! lower)))"

definition percentiles_calculate :: "real list \<Rightarrow> real list \<Rightarrow> (err + real) list" where
  "percentiles_calculate samples percentiles =
     (if samples = [] then replicate (length percentiles) (Inr 0) else map (percentile_of (sort samples)) percentiles)"

definition percentiles_standard :: "real list \<Rightarrow> (err + real) list" where
  "percentiles_standard samples = percentiles_calculate samples [50 / 100, 95 / 100, 99 / 100]"

subsection \<open>The sampler depends only on its number of items\<close>

lemma add_terms_sum: "add_terms \<theta> is s = s + (\<Sum>i\<leftarrow>is. real i powr - \<theta>)"
  by (induction "is" arbitrary: s) simp_all

lemma sub_terms_sum: "sub_terms \<theta> is s = s - (\<Sum>i\<leftarrow>is. real i powr - \<theta>)"
  by (induction "is" arbitrary: s) simp_all

lemma sum_terms_upt: "(\<Sum>i\<leftarrow>[a..<b]. f i) = (\<Sum>i = a..<b. f i :: real)"
  by (simp add: interv_sum_list_conv_sum_set_nat)

lemma harmonic_sum: "harmonic n \<theta> = (\<Sum>i = 1..<Suc n. real i powr - \<theta>)"
  by (simp only: harmonic_def add_terms_sum sum_terms_upt) simp

lemma harmonic_diff: "a \<le> b \<Longrightarrow> harmonic b \<theta> = harmonic a \<theta> + (\<Sum>i = Suc a..<Suc b. real i powr - \<theta>)"
  unfolding harmonic_sum by (subst sum.atLeastLessThan_concat [symmetric, of 1 "Suc a" "Suc b"]) simp_all

lemma harmonic_1 [simp]: "harmonic (Suc 0) \<theta> = 1" and harmonic_2: "harmonic 2 \<theta> = 1 + 2 powr - \<theta>"
  by (simp_all add: harmonic_sum numeral_2_eq_2)

lemma harmonic_pos: "0 < n \<Longrightarrow> 1 \<le> harmonic n \<theta>"
  using harmonic_diff [of 1 n \<theta>] by (simp add: sum_nonneg)

lemma harmonic_mono: "a \<le> b \<Longrightarrow> harmonic a \<theta> \<le> harmonic b \<theta>"
  by (simp add: harmonic_diff [of a b] sum_nonneg)

lemma harmonic_less: "a < b \<Longrightarrow> harmonic a \<theta> < harmonic b \<theta>"
proof -
  assume "a < b"
  have "0 < (1 + real a) powr - \<theta>" by (simp add: add_nonneg_eq_0_iff)
  moreover have "harmonic (Suc a) \<theta> = harmonic a \<theta> + (1 + real a) powr - \<theta>" using harmonic_diff [of a "Suc a" \<theta>] by simp
  moreover have "harmonic (Suc a) \<theta> \<le> harmonic b \<theta>" using \<open>a < b\<close> by (intro harmonic_mono) simp
  ultimately show ?thesis by linarith
qed

definition zipf_eta :: "real \<Rightarrow> nat \<Rightarrow> real" where
  "zipf_eta \<theta> n =
     (if n = 0 \<or> \<theta> = 0 then 0
      else let numerator = 1 - harmonic 2 \<theta> / harmonic n \<theta>
           in (if n > 1 then 1 - (2 / real n) powr (1 - \<theta>) else 1) / (if numerator \<le> 0 then double_min else numerator))"

definition zipf_state :: "real \<Rightarrow> nat \<Rightarrow> ZipfianSampler" where
  "zipf_state \<theta> n = (ZipfianSampler_init \<theta>)\<lparr>items := n, zetan := harmonic n \<theta>, eta := zipf_eta \<theta> n\<rparr>"

lemma zipf_state_fields [simp]:
  "theta (zipf_state \<theta> n) = \<theta>" "items (zipf_state \<theta> n) = n" "zetan (zipf_state \<theta> n) = harmonic n \<theta>" "eta (zipf_state \<theta> n) = zipf_eta \<theta> n"
  "zeta_2_theta (zipf_state \<theta> n) = harmonic 2 \<theta>" "alpha (zipf_state \<theta> n) = (if \<theta> = 0 then 0 else 1 / (1 - \<theta>))"
  by (simp_all add: zipf_state_def ZipfianSampler_init_def zipf_reset_def)

lemma zipf_init_state: "ZipfianSampler_init \<theta> = zipf_state \<theta> 0"
  by (simp add: zipf_state_def ZipfianSampler_init_def zipf_reset_def zipf_eta_def harmonic_def)

lemma zipf_update_sum:
  "(if m > a then add_terms \<theta> [a + 1..<Suc m] (harmonic a \<theta>) else sub_terms \<theta> (rev [Suc m..<Suc a]) (harmonic a \<theta>)) = harmonic m \<theta>"
  using harmonic_diff [of a m \<theta>] harmonic_diff [of m a \<theta>] sum_terms_upt [of "\<lambda>i. real i powr - \<theta>"]
  by (simp add: add_terms_sum sub_terms_sum rev_map [symmetric] del: upt_Suc)

lemma zipf_reset_state: "zipf_reset (zipf_state \<theta> n) = zipf_state \<theta> 0"
  by (simp add: zipf_reset_def zipf_state_def ZipfianSampler_init_def zipf_eta_def harmonic_def)

lemma zipf_state_upd:
  "(zipf_state \<theta> n)\<lparr>zetan := harmonic m \<theta>, items := m, eta := zipf_eta \<theta> m\<rparr> = zipf_state \<theta> m"
  by (simp add: zipf_reset_def zipf_state_def ZipfianSampler_init_def)

lemma zipf_update_state: "zipf_update_item_count m (zipf_state \<theta> n) = zipf_state \<theta> m"
proof (cases "m = n \<or> m = 0")
  case True
  then show ?thesis by (elim disjE) (simp_all add: zipf_update_item_count_def zipf_reset_state)
next
  case False
  define a where "a = (if n = 0 then 1 else n)"
  define z1 where "z1 = (if n = 0 then (zipf_state \<theta> n)\<lparr>items := 1, zetan := 1\<rparr> else zipf_state \<theta> n)"
  have z1: "items z1 = a" "zetan z1 = harmonic a \<theta>" by (simp_all add: a_def z1_def)
  have st: "z1\<lparr>zetan := harmonic m \<theta>, items := m, eta := x\<rparr> = (zipf_state \<theta> m)\<lparr>eta := x\<rparr>" for x
    using arg_cong [OF zipf_state_upd [of \<theta> n m], of "\<lambda>z. z\<lparr>eta := x\<rparr>"] by (cases "n = 0") (simp_all add: z1_def)
  have m: "zipf_state \<theta> m = (zipf_state \<theta> m)\<lparr>eta := zipf_eta \<theta> m\<rparr>" by (simp add: zipf_state_def)
  have "zipf_update_item_count m (zipf_state \<theta> n) = (zipf_state \<theta> m)\<lparr>eta := zipf_eta \<theta> m\<rparr>"
    using False unfolding zipf_update_item_count_def Let_def zipf_state_fields z1_def [symmetric] z1 zipf_update_sum st
    by (simp add: zipf_eta_def Let_def)
  then show ?thesis using m by simp
qed

lemma zipf_updates: "fold zipf_update_item_count counts (ZipfianSampler_init \<theta>) = zipf_state \<theta> (last (0 # counts))"
proof -
  have "fold zipf_update_item_count counts (zipf_state \<theta> n) = zipf_state \<theta> (last (n # counts))" for n
    by (induction counts arbitrary: n) (simp_all add: zipf_update_state)
  then show ?thesis by (simp add: zipf_init_state)
qed

text \<open>The base of the power in the last branch: not below the value for which the index is 2.\<close>

lemma zipf_base:
  assumes "0 < \<theta>" and "\<theta> < 1" and "2 \<le> n" and "u < 1" and "harmonic 2 \<theta> \<le> u * harmonic n \<theta>"
  shows "(2 / real n) powr (1 - \<theta>) \<le> zipf_eta \<theta> n * u - zipf_eta \<theta> n + 1" and "3 \<le> n"
proof -
  let ?H = "harmonic n \<theta>" and ?Z = "harmonic 2 \<theta>" and ?d = "1 - (2 / real n) powr (1 - \<theta>)"
  have H: "0 < ?H" using harmonic_pos [of n \<theta>] assms(3) by simp
  then have "u * ?H < ?H" using assms(4) by simp
  then have lt: "?Z < ?H" using assms(5) by linarith
  then show "3 \<le> n" using assms(3) by (cases "n = 2") auto
  have num: "0 < 1 - ?Z / ?H" using lt H by simp
  then have eta: "zipf_eta \<theta> n = ?d / (1 - ?Z / ?H)" using assms(1-3) by (simp add: zipf_eta_def Let_def)
  have "(2 / real n) powr (1 - \<theta>) \<le> 1" using assms(2,3) by (intro powr_le1) simp_all
  then have d: "0 \<le> ?d" by simp
  have "?Z / ?H \<le> u" using assms(5) H by (simp add: pos_divide_le_eq)
  then have "zipf_eta \<theta> n * (1 - u) \<le> zipf_eta \<theta> n * (1 - ?Z / ?H)"
    using d num eta by (intro mult_left_mono) simp_all
  also have "\<dots> = ?d" unfolding eta by (rule nonzero_eq_divide_eq [THEN iffD1, OF _ refl]) (use num in linarith)
  finally show "(2 / real n) powr (1 - \<theta>) \<le> zipf_eta \<theta> n * u - zipf_eta \<theta> n + 1" by (simp add: algebra_simps)
qed



subsection \<open>Keys\<close>

lemma rotate_bits:
  fixes x :: u64
  shows "bit (drop_bit 8 x OR push_bit 56 x) k \<longleftrightarrow> k < 64 \<and> bit x ((k + 8) mod 64)"
proof (cases "k < 56")
  case True
  then show ?thesis by (auto simp: bit_simps add.commute)
next
  case False
  show ?thesis
  proof (cases "k < 64")
    case True
    then have "(k + 8) mod 64 = k - 56" using False by (simp add: le_mod_geq)
    moreover have "bit (drop_bit 8 x OR push_bit 56 x) k \<longleftrightarrow> bit x (8 + k) \<or> bit x (k - 56)"
      using True False by (simp add: bit_or_iff bit_drop_bit_eq bit_push_bit_iff)
    moreover have "\<not> bit x (8 + k)" using bit_imp_le_length [of x "8 + k"] False by auto
    ultimately show ?thesis using True by simp
  next
    case False
    then show ?thesis using bit_imp_le_length [of "drop_bit 8 x OR push_bit 56 x" k] by auto
  qed
qed

lemma key_bytes_nth: "i < n \<Longrightarrow> k < 8 \<Longrightarrow> bit (key_bytes n x ! i) k \<longleftrightarrow> bit x ((k + 8 * i) mod 64)"
proof (induction n arbitrary: i x)
  case (Suc n)
  show ?case
  proof (cases i)
    case 0
    have "(0xFF :: u64) = mask 8" by (simp add: mask_eq_exp_minus_1)
    then have "bit (0xFF :: u64) k" using Suc.prems by (simp only: bit_mask_iff) simp
    then show ?thesis using Suc.prems 0 by (auto simp: bit_simps)
  next
    case (Suc j)
    have "(((k + 8 * j) mod 64) + 8) mod 64 = (k + 8 * Suc j) mod 64" by (simp add: mod_simps ac_simps)
    then show ?thesis using Suc.IH [of j "drop_bit 8 x OR push_bit 56 x"] Suc.prems Suc by (simp add: rotate_bits)
  qed
qed simp

lemma length_key_bytes [simp]: "length (key_bytes n x) = n"
  by (induction n arbitrary: x) simp_all

lemma key_bytes_inj:
  assumes "8 \<le> n" and "key_bytes n x = key_bytes n y"
  shows "x = y"
proof (rule bit_word_eqI)
  fix m assume "m < LENGTH(64)"
  then have m: "m mod 8 < 8" "m div 8 < n" "(m mod 8 + 8 * (m div 8)) mod 64 = m" using assms(1) by simp_all
  show "bit x m = bit y m" using key_bytes_nth [OF m(2,1), of x] key_bytes_nth [OF m(2,1), of y] assms(2) m(3) by simp
qed

lemma index_hash_inj: "(a :: u64) * 0x517CC1B727220A95 = b * 0x517CC1B727220A95 \<longleftrightarrow> a = b"
proof
  assume "a * 0x517CC1B727220A95 = b * 0x517CC1B727220A95"
  then have "a * 0x517CC1B727220A95 * 0x2040003D780970BD = b * 0x517CC1B727220A95 * 0x2040003D780970BD" by simp
  moreover have "(0x517CC1B727220A95 :: u64) * 0x2040003D780970BD = 1" by code_simp
  ultimately show "a = b" by (simp only: mult.assoc mult_1_right)
qed simp

lemma key_of_index_inj: "8 \<le> N \<Longrightarrow> key_of_index N i = key_of_index N j \<longleftrightarrow> i = j"
  using key_bytes_inj [of N "i * 0x517CC1B727220A95" "j * 0x517CC1B727220A95"] index_hash_inj [of i j] by (auto simp: key_of_index_def)

lemma key_of_index_min: "8 \<le> N \<Longrightarrow> key_of_index N i = ArrayVar_min N \<longleftrightarrow> i = 0"
proof -
  have "key_bytes n 0 = replicate n 0" for n by (induction n) simp_all
  then have "key_of_index N 0 = ArrayVar_min N" by (simp add: key_of_index_def ArrayVar_min_def ArrayVar_default_def)
  then show "8 \<le> N \<Longrightarrow> ?thesis" using key_of_index_inj [of N i 0] by simp
qed

text \<open>A draw is usable when its key is neither the least nor the greatest key.\<close>

definition usable :: "nat \<Rightarrow> u64 \<Rightarrow> bool" where
  "usable N i \<longleftrightarrow> key_of_index N i \<noteq> ArrayVar_min N \<and> key_of_index N i \<noteq> ArrayVar_max N"

lemma sample_key_step:
  assumes "0 < K"
  shows "sample_key_from_global_space (Suc n) N draws t K =
    (if usable N (draws t mod K) then Inr (key_of_index N (draws t mod K)) else sample_key_from_global_space n N draws (Suc t) K)"
proof -
  have "(if draws t \<ge> K then draws t mod K else draws t) = draws t mod K"
    by (simp add: word_le_nat_alt word_arith_nat_mod not_le unat_arith_simps)
  moreover have "K \<noteq> 0" using assms by auto
  moreover have "length (key_of_index N i) = N" for i by (simp add: key_of_index_def)
  ultimately show ?thesis by (simp add: Let_def usable_def key_eq_iff ArrayVar_min_def ArrayVar_max_def ArrayVar_default_def)
qed

text \<open>
  C39. The keys of a client. For keys of at least eight bytes, different indexes of the key space give different keys; the draw returns the key of
  the first index of the stream that is usable, and it returns as soon as there is one. In a key space of one key there is none: the
  loop never ends.
\<close>

theorem sample_key_first_usable:
  assumes "8 \<le> N" and "0 < K" and "k < n" and "usable N (draws (t + k) mod K)" and "\<forall>j < k. \<not> usable N (draws (t + j) mod K)"
  shows "sample_key_from_global_space n N draws t K = Inr (key_of_index N (draws (t + k) mod K)) \<and> draws (t + k) mod K \<noteq> 0 \<and>
    (\<forall>i. key_of_index N i = key_of_index N (draws (t + k) mod K) \<longrightarrow> i = draws (t + k) mod K) \<and>
    (\<forall>m. sample_key_from_global_space m N draws t 1 = Inl Diverges)"
proof -
  have "sample_key_from_global_space n N draws t K = Inr (key_of_index N (draws (t + k) mod K))"
    using assms(3-5)
  proof (induction k arbitrary: n t)
    case 0
    then show ?case by (cases n) (simp_all add: sample_key_step assms(2) del: sample_key_from_global_space.simps(2))
  next
    case (Suc k)
    obtain n' where n: "n = Suc n'" using Suc.prems(1) by (cases n) auto
    have "sample_key_from_global_space n' N draws (Suc t) K = Inr (key_of_index N (draws (Suc t + k) mod K))"
      using Suc.prems(1,2) n spec [OF Suc.prems(3), of "Suc _"] by (intro Suc.IH) auto
    then show ?case using n spec [OF Suc.prems(3), of 0] by (simp add: sample_key_step assms(2) del: sample_key_from_global_space.simps(2))
  qed
  moreover have "draws (t + k) mod K \<noteq> 0" using assms(4) key_of_index_min [OF assms(1)] by (metis usable_def)
  moreover have "sample_key_from_global_space m N draws s 1 = Inl Diverges" for m s
    using key_of_index_min [OF assms(1), of 0]
    by (induction m arbitrary: s) (simp_all add: sample_key_step usable_def del: sample_key_from_global_space.simps(2))
  ultimately show ?thesis using key_of_index_inj [OF assms(1)] by blast
qed

theorem sample_key_first_usable_witness:
  "sample_key_from_global_space 2 8 (\<lambda>t. of_nat t) 0 100 = Inr (key_of_index 8 1)"
proof -
  have "usable 8 1" "\<not> usable 8 0" by code_simp+
  then show ?thesis using sample_key_first_usable [of 8 100 1 2 "\<lambda>t. of_nat t" 0] by simp
qed

subsection \<open>Percentiles\<close>

lemma interpolate_bounds:
  fixes a b f :: real
  assumes "a \<le> b" and "0 \<le> f" and "f \<le> 1"
  shows "a \<le> a + f * (b - a)" and "a + f * (b - a) \<le> b"
proof -
  show "a \<le> a + f * (b - a)" using assms by simp
  have "f * (b - a) \<le> 1 * (b - a)" using assms by (intro mult_right_mono) simp_all
  then show "a + f * (b - a) \<le> b" by simp
qed

text \<open>A percentile from 0 to 1 of samples is between two neighbours of the sorted samples.\<close>

lemma percentile_of_bounds:
  assumes "sorted xs" and "xs \<noteq> []" and "0 \<le> p" and "p \<le> 1"
  shows "\<exists>r. percentile_of xs p = Inr r \<and> xs ! nat \<lfloor>p * real (length xs - 1)\<rfloor> \<le> r \<and>
    r \<le> xs ! min (nat \<lfloor>p * real (length xs - 1)\<rfloor> + 1) (length xs - 1)"
proof -
  let ?x = "p * real (length xs - 1)" and ?n = "length xs - 1"
  let ?l = "nat \<lfloor>?x\<rfloor>"
  have x: "0 \<le> ?x" "?x \<le> real ?n" using assms(3,4) mult_right_mono [of p 1 "real ?n"] by simp_all
  have l: "real ?l \<le> ?x" "?x < real ?l + 1" using x(1) by linarith+
  then have "?l \<le> ?n" using x(2) by linarith
  then have "?l < length xs" "?l \<le> min (?l + 1) ?n" "min (?l + 1) ?n < length xs" using assms(2) by (cases xs; auto)+
  then have "xs ! ?l \<le> xs ! min (?l + 1) ?n" using assms(1) by (simp add: sorted_nth_mono)
  note b = interpolate_bounds [OF this, of "?x - real ?l"]
  have "percentile_of xs p = Inr (xs ! ?l + (?x - real ?l) * (xs ! min (?l + 1) ?n - xs ! ?l))"
    unfolding percentile_of_def Let_def using assms(3) \<open>?l < length xs\<close> by (intro if_not_P) linarith
  then show ?thesis using b l by (intro exI conjI) (assumption, simp_all only: diff_ge_0_iff_ge diff_le_eq add.commute less_imp_le)
qed

end
