(* ===== verification/Cpu_Affinity.thy ===== *)
theory Cpu_Affinity
  imports Prelude
begin

text \<open>
  \<^verbatim>\<open>src/src/util/cpu_affinity.cpp\<close> on Linux: binding threads to cores, and the check for isolated cores. The operating system is
  third-party code: \<open>os\<close> has the number of processors, what the kernel answers to \<^verbatim>\<open>sched_setaffinity\<close>, the cores of the calling
  thread (\<open>None\<close> when the kernel does not tell) and the first line of the file of isolated cores, if it can be opened. Log messages are not modelled.
\<close>

record os =
  nprocs :: nat
  accepts :: "nat set \<Rightarrow> bool"
  affinity :: "nat set option"
  isolated_file :: "string option"

definition get_cpu_count :: "os \<Rightarrow> nat" where
  "get_cpu_count s = nprocs s"

text \<open>\<^verbatim>\<open>CPU_SET\<close> ignores a core beyond the size of the set, 1024.\<close>

definition bind_to_core :: "nat \<Rightarrow> os \<Rightarrow> bool \<times> os" where
  "bind_to_core core_id s =
     (let cpuset = (if core_id < 1024 then {core_id} else {}) in
      if accepts s cpuset then (True, s\<lparr>affinity := Some cpuset\<rparr>) else (False, s))"

definition get_current_affinity :: "os \<Rightarrow> nat list" where
  "get_current_affinity s = (case affinity s of None \<Rightarrow> [] | Some cpuset \<Rightarrow> filter (\<lambda>i. i \<in> cpuset) [0..<1024])"

definition validate_cores :: "nat list \<Rightarrow> os \<Rightarrow> bool" where
  "validate_cores core_ids s = list_all (\<lambda>core_id. \<not> core_id \<ge> get_cpu_count s) core_ids"

fun to_string :: "nat \<Rightarrow> string" where
  "to_string n = (if n < 10 then [char_of (48 + n)] else to_string (n div 10) @ [char_of (48 + n mod 10)])"

declare to_string.simps [simp del]

fun occurs_in :: "string \<Rightarrow> string \<Rightarrow> bool" where
  "occurs_in s [] = (s = [])"
| "occurs_in s (c # cs) = (take (length s) (c # cs) = s \<or> occurs_in s cs)"

definition is_core_busy :: "nat \<Rightarrow> os \<Rightarrow> bool" where
  "is_core_busy core_id s =
     (case isolated_file s of
        Some isolated_cores \<Rightarrow> if occurs_in (to_string core_id) isolated_cores then False else False
      | None \<Rightarrow> False)"

definition bind_to_core_exclusive :: "nat \<Rightarrow> os \<Rightarrow> bool \<times> os" where
  "bind_to_core_exclusive core_id s = (let (ok, s') = bind_to_core core_id s in if \<not> ok then (False, s') else (True, s'))"

fun check_core_isolation :: "nat list \<Rightarrow> os \<Rightarrow> bool" where
  "check_core_isolation [] s = True"
| "check_core_isolation (core_id # core_ids) s = (if is_core_busy core_id s then False else check_core_isolation core_ids s)"

fun comma_list :: "nat list \<Rightarrow> string" where
  "comma_list [] = ''''"
| "comma_list [c] = to_string c"
| "comma_list (c # cs) = to_string c @ '','' @ comma_list cs"

definition describe_current_affinity :: "os \<Rightarrow> string" where
  "describe_current_affinity s =
     (let cores = get_current_affinity s in
      if cores = [] then ''unknown/error''
      else if length cores = 1 then ''core '' @ to_string (cores ! 0)
      else ''cores ['' @ comma_list cores @ '']'')"

definition newline :: string where "newline = [CHR 0x0A]"

definition get_isolation_recommendations :: "nat \<Rightarrow> string" where
  "get_isolation_recommendations required_cores =
     (let cores = comma_list [0..<required_cores] in
      ''CPU Isolation Recommendations for '' @ to_string required_cores @ '' cores:'' @ newline @
      ''=========================================='' @ newline @
      ''1. Kernel boot parameters (add to GRUB_CMDLINE_LINUX in /etc/default/grub):'' @ newline @
      ''   isolcpus='' @ cores @ newline @ ''   nohz_full='' @ cores @ newline @ ''   rcu_nocbs='' @ cores @ newline @ newline @
      ''2. After adding parameters, run:'' @ newline @ ''   sudo update-grub && sudo reboot'' @ newline @ newline @
      ''3. Verify isolation after reboot:'' @ newline @ ''   cat /proc/cmdline | grep isolcpus'' @ newline @
      ''   cat /sys/devices/system/cpu/isolated'' @ newline @ newline @
      ''4. Alternative: Use cgroups to limit other processes:'' @ newline @
      ''   echo 0 > /sys/fs/cgroup/cpuset/system.slice/cpuset.cpus'' @ newline @
      ''   # (requires systemd and cgroup configuration)'' @ newline @ newline @
      ''5. Runtime verification:'' @ newline @ ''   - Monitor with: htop, top, or perf'' @ newline @
      ''   - Check for interrupts: cat /proc/interrupts'' @ newline @ ''   - Verify exclusive binding: taskset -p <pid>'' @ newline)"

subsection \<open>What the functions report\<close>

text \<open>
  After a successful binding to a core the thread is reported to be bound to this core, and to nothing else; binding to a core that does
  not exist for the kernel changes nothing.
\<close>

theorem bind_reports_core:
  assumes "core_id < 1024"
  shows "bind_to_core core_id s = (ok, s') \<Longrightarrow>
    (if ok then get_current_affinity s' = [core_id] \<and> describe_current_affinity s' = ''core '' @ to_string core_id else s' = s)"
proof -
  assume b: "bind_to_core core_id s = (ok, s')"
  have "filter (\<lambda>i. i = core_id) [0..<n] = (if core_id < n then [core_id] else [])" for n by (induction n) auto
  then have "filter (\<lambda>i. i = core_id) [0..<1024] = [core_id]" using assms by simp
  then have "get_current_affinity (s\<lparr>affinity := Some {core_id}\<rparr>) = [core_id]" by (simp add: get_current_affinity_def)
  then show ?thesis
    using b assms by (auto simp: bind_to_core_def describe_current_affinity_def Let_def split: if_splits)
qed

text \<open>The isolation check accepts every core, whatever the file of isolated cores says.\<close>

theorem isolation_check_always_passes: "\<not> is_core_busy core_id s \<and> check_core_isolation core_ids s"
proof -
  have busy: "\<not> is_core_busy c s" for c by (simp add: is_core_busy_def split: option.splits)
  then have "check_core_isolation core_ids s" by (induction core_ids) simp_all
  then show ?thesis using busy by blast
qed

end
