(* ===== verification/Runtime.thy ===== *)
theory Runtime
  imports Thread_Stats Cpu_Affinity "HOL-Library.Multiset"
begin

text \<open>
  What runs around the indexes: precise sleeping (\<^verbatim>\<open>src/src/util/precise_sleep.hpp\<close>), the profiler
  (\<^verbatim>\<open>src/src/util/profiler.*\<close>, the branch with \<^verbatim>\<open>ENABLE_PROFILING\<close>), the threads of a compute server (\<^verbatim>\<open>src/src/rdma/compute_server.*\<close>) and the recorder of
  \<^verbatim>\<open>src/src/util/benchmark.hpp\<close>. The clock and \<^verbatim>\<open>sleep_for\<close> belong to the operating system: they are arguments.
\<close>

subsection \<open>Sleeping\<close>

text \<open>
  \<open>now i\<close> is the \<open>i\<close>-th reading of the clock, in nanoseconds; \<open>wakes us i\<close> is the number of the first reading after a thread that has taken \<open>i\<close> readings slept
  for \<open>us\<close> microseconds. The functions return the number of readings when they return. A conversion to \<^verbatim>\<open>int64_t\<close> that does not fit is undefined.
\<close>

definition to_int64 :: "rat \<Rightarrow> err + int" where
  "to_int64 x = (let i = (if 0 \<le> x then \<lfloor>x\<rfloor> else \<lceil>x\<rceil>) in if - (2 ^ 63) \<le> i \<and> i < 2 ^ 63 then Inr i else Inl UndefinedBehaviour)"

primrec busy_wait_until :: "nat \<Rightarrow> (nat \<Rightarrow> int) \<Rightarrow> int \<Rightarrow> nat \<Rightarrow> err + nat" where
  "busy_wait_until 0 now target i = Inl Diverges"
| "busy_wait_until (Suc n) now target i = (if now i < target then busy_wait_until n now target (Suc i) else Inr (Suc i))"

definition sleep_microseconds :: "nat \<Rightarrow> (nat \<Rightarrow> int) \<Rightarrow> (int \<Rightarrow> nat \<Rightarrow> nat) \<Rightarrow> rat \<Rightarrow> nat \<Rightarrow> err + nat" where
  "sleep_microseconds n now wakes duration_us i =
     (if duration_us \<le> 0 then Inr i
      else case to_int64 (duration_us * 1000) of
             Inl e \<Rightarrow> Inl e
           | Inr duration_ns \<Rightarrow>
               let target = now i + duration_ns in
               if duration_us < 50 then busy_wait_until n now target (Suc i)
               else let sleep_us = duration_us - 15 in
                    if sleep_us > 0
                    then (case to_int64 sleep_us of
                            Inl e \<Rightarrow> Inl e
                          | Inr us \<Rightarrow> busy_wait_until n now target (wakes us (Suc i)))
                    else busy_wait_until n now target (Suc i))"

definition sleep_nanoseconds :: "nat \<Rightarrow> (nat \<Rightarrow> int) \<Rightarrow> (int \<Rightarrow> nat \<Rightarrow> nat) \<Rightarrow> rat \<Rightarrow> nat \<Rightarrow> err + nat" where
  "sleep_nanoseconds n now wakes duration_ns i = sleep_microseconds n now wakes (duration_ns / 1000) i"

definition precise_sleep_us :: "nat \<Rightarrow> (nat \<Rightarrow> int) \<Rightarrow> (int \<Rightarrow> nat \<Rightarrow> nat) \<Rightarrow> rat \<Rightarrow> nat \<Rightarrow> err + nat" where
  "precise_sleep_us n now wakes duration_us i = sleep_microseconds n now wakes duration_us i"

definition precise_sleep_ns :: "nat \<Rightarrow> (nat \<Rightarrow> int) \<Rightarrow> (int \<Rightarrow> nat \<Rightarrow> nat) \<Rightarrow> rat \<Rightarrow> nat \<Rightarrow> err + nat" where
  "precise_sleep_ns n now wakes duration_ns i = sleep_nanoseconds n now wakes duration_ns i"

lemma busy_wait_until_reached:
  assumes "target \<le> now (i + d)" and "d < n"
  shows "\<exists>j. busy_wait_until n now target i = Inr (Suc j) \<and> i \<le> j \<and> j \<le> i + d \<and> target \<le> now j \<and> (\<forall>x. i \<le> x \<and> x < j \<longrightarrow> now x < target)"
  using assms
proof (induction n arbitrary: i d)
  case (Suc n)
  show ?case
  proof (cases "now i < target")
    case True
    with Suc.prems(1) obtain d' where d: "d = Suc d'" by (cases d) auto
    obtain j where j: "busy_wait_until n now target (Suc i) = Inr (Suc j)" "Suc i \<le> j" "j \<le> Suc i + d'" "target \<le> now j"
        "\<forall>x. Suc i \<le> x \<and> x < j \<longrightarrow> now x < target"
      using Suc.IH [of "Suc i" d'] Suc.prems d by auto
    have "now x < target" if "i \<le> x" "x < j" for x using that j(5) True by (cases "x = i") simp_all
    then show ?thesis using j True d by (intro exI [of _ j]) auto
  next
    case False
    then show ?thesis by (intro exI [of _ i]) auto
  qed
qed simp

text \<open>
  A sleep of \<open>d\<close> microseconds ends when the clock advances, and not before the clock has advanced by the whole nanoseconds of \<open>d\<close>.
\<close>

theorem sleep_lasts:
  assumes "0 < d" and "d * 1000 < 2 ^ 63" and clock: "\<And>t k. \<exists>x. k \<le> x \<and> t \<le> now x"
  shows "\<exists>n j. sleep_microseconds n now wakes d i = Inr (Suc j) \<and> now i + \<lfloor>d * 1000\<rfloor> \<le> now j"
proof -
  have p: "0 < d * 1000" using assms(1) by simp
  have f: "0 \<le> \<lfloor>d * 1000\<rfloor>" "\<lfloor>d * 1000\<rfloor> < 2 ^ 63" using p assms(2) by (simp_all add: floor_less_iff)
  have ns: "to_int64 (d * 1000) = Inr \<lfloor>d * 1000\<rfloor>" using f p by (simp add: to_int64_def Let_def)
  have wait: "\<exists>n j. busy_wait_until n now (now i + \<lfloor>d * 1000\<rfloor>) k = Inr (Suc j) \<and> now i + \<lfloor>d * 1000\<rfloor> \<le> now j" for k
  proof -
    obtain x where x: "k \<le> x" "now i + \<lfloor>d * 1000\<rfloor> \<le> now x" using clock by blast
    then have "now i + \<lfloor>d * 1000\<rfloor> \<le> now (k + (x - k))" by simp
    from busy_wait_until_reached [where now = now and i = k and d = "x - k", OF this lessI] show ?thesis by blast
  qed
  show ?thesis
  proof (cases "d < 50")
    case True
    then show ?thesis using wait [of "Suc i"] ns assms(1) by (simp add: sleep_microseconds_def Let_def)
  next
    case False
    have "\<lfloor>d - 15\<rfloor> \<le> \<lfloor>d * 1000\<rfloor>" by (rule floor_mono) (use assms(1) in simp)
    then have us: "to_int64 (d - 15) = Inr \<lfloor>d - 15\<rfloor>" using False f by (simp add: to_int64_def Let_def)
    then show ?thesis using wait [of "wakes \<lfloor>d - 15\<rfloor> (Suc i)"] ns assms(1) False by (simp add: sleep_microseconds_def Let_def)
  qed
qed

subsection \<open>The profiler\<close>

text \<open>
  The samples of each thread by name, and the samples that have been published. The names are the keys of a map, which
  \<^verbatim>\<open>operator[]\<close> extends with zero counters.
\<close>

record ProfileStats =
  ps_count :: u64
  ps_total_ns :: u64

record profiler =
  tls_stats :: "nat \<Rightarrow> string \<rightharpoonup> ProfileStats"
  global_stats :: "string \<rightharpoonup> ProfileStats"

definition ProfileStats_init :: ProfileStats where
  "ProfileStats_init = \<lparr>ps_count = 0, ps_total_ns = 0\<rparr>"

definition average_ns :: "ProfileStats \<Rightarrow> rat" where
  "average_ns s = (if ps_count s = 0 then 0 else of_nat (unat (ps_total_ns s)) / of_nat (unat (ps_count s)))"

definition at_key :: "(string \<rightharpoonup> ProfileStats) \<Rightarrow> string \<Rightarrow> ProfileStats" where
  "at_key m name = (case m name of None \<Rightarrow> ProfileStats_init | Some s \<Rightarrow> s)"

definition merge_stats :: "ProfileStats \<Rightarrow> ProfileStats \<Rightarrow> ProfileStats" where
  "merge_stats a b = \<lparr>ps_count = ps_count a + ps_count b, ps_total_ns = ps_total_ns a + ps_total_ns b\<rparr>"

definition profiler_add_sample :: "nat \<Rightarrow> string \<Rightarrow> u64 \<Rightarrow> profiler \<Rightarrow> profiler" where
  "profiler_add_sample tid name duration_ns P =
     P\<lparr>tls_stats := (tls_stats P)(tid := (tls_stats P tid)(name \<mapsto>
        \<lparr>ps_count = ps_count (at_key (tls_stats P tid) name) + 1, ps_total_ns = ps_total_ns (at_key (tls_stats P tid) name) + duration_ns\<rparr>))\<rparr>"

definition scoped_end :: "nat \<Rightarrow> string \<Rightarrow> u64 \<Rightarrow> u64 \<Rightarrow> profiler \<Rightarrow> profiler" where
  "scoped_end tid name start end_time P = profiler_add_sample tid name (end_time - start) P"

definition publish_thread_stats :: "nat \<Rightarrow> profiler \<Rightarrow> profiler" where
  "publish_thread_stats tid P =
     (if tls_stats P tid = Map.empty then P
      else P\<lparr>global_stats := (\<lambda>name. case tls_stats P tid name of
               None \<Rightarrow> global_stats P name
             | Some s \<Rightarrow> Some (merge_stats (at_key (global_stats P) name) s)),
             tls_stats := (tls_stats P)(tid := Map.empty)\<rparr>)"

definition profiler_snapshot :: "nat \<Rightarrow> profiler \<Rightarrow> (string \<rightharpoonup> ProfileStats) \<times> profiler" where
  "profiler_snapshot tid P = (let P' = publish_thread_stats tid P in (global_stats P', P'))"

definition profiler_reset :: "profiler \<Rightarrow> profiler" where
  "profiler_reset P = P\<lparr>global_stats := Map.empty\<rparr>"

text \<open>What has been recorded for a name so far, published or not, by the threads \<open>T\<close>.\<close>

definition recorded :: "nat set \<Rightarrow> string \<Rightarrow> profiler \<Rightarrow> u64" where
  "recorded T name P = ps_count (at_key (global_stats P) name) + (\<Sum>t \<in> T. ps_count (at_key (tls_stats P t) name))"

lemma at_key_simps [simp]: "at_key (m(name \<mapsto> s)) name' = (if name' = name then s else at_key m name')" "at_key Map.empty name = ProfileStats_init"
  by (simp_all add: at_key_def)

lemma recorded_tls:
  assumes "finite T" and "t \<in> T"
  shows "recorded T name P = ps_count (at_key (global_stats P) name) + ps_count (at_key (tls_stats P t) name) +
    (\<Sum>x \<in> T - {t}. ps_count (at_key (tls_stats P x) name))"
  unfolding recorded_def sum.remove [OF assms] by (simp add: add.assoc)

text \<open>Publishing loses no sample, whichever thread publishes and however often; each sample counts once, modulo $2^{64}$; a reset forgets what was published only.\<close>

theorem publish_keeps_samples:
  assumes "finite T" and "t \<in> T"
  shows "recorded T name (publish_thread_stats t P) = recorded T name P"
    and "recorded T name (profiler_add_sample t name' d P) = recorded T name P + (if name' = name then 1 else 0)"
    and "fst (profiler_snapshot t P) name = None \<Longrightarrow> ps_count (at_key (tls_stats P t) name) = 0"
proof -
  have same: "(\<Sum>x \<in> T - {t}. ps_count (at_key (((tls_stats P)(t := m)) x) name)) = (\<Sum>x \<in> T - {t}. ps_count (at_key (tls_stats P x) name))" for m
    by (rule sum.cong) simp_all
  show "recorded T name (publish_thread_stats t P) = recorded T name P"
    unfolding recorded_tls [OF assms]
    by (auto simp: publish_thread_stats_def same merge_stats_def ProfileStats_init_def at_key_def split: option.splits)
  show "recorded T name (profiler_add_sample t name' d P) = recorded T name P + (if name' = name then 1 else 0)"
    unfolding recorded_tls [OF assms] by (simp add: profiler_add_sample_def same)
  show "fst (profiler_snapshot t P) name = None \<Longrightarrow> ps_count (at_key (tls_stats P t) name) = 0"
    by (auto simp: profiler_snapshot_def publish_thread_stats_def at_key_def ProfileStats_init_def split: option.splits if_splits)
qed

subsection \<open>The threads of a compute server\<close>

text \<open>
  A worker gets its number, its entry of the statistics and the shared manager and allocator; what it does to these is not of interest here, so that a worker is
  a function on its entry. A thread first binds itself to the core of the server; a failure is logged and the worker runs all the same.
\<close>

record ComputeServer =
  cs_id :: nat
  num_threads :: nat
  cs_stats :: "ThreadStats list"
  cs_worker :: "nat \<Rightarrow> ThreadStats \<Rightarrow> ThreadStats"
  core_id :: "nat option"
  use_exclusive_binding :: bool

definition ComputeServer_init :: "nat \<Rightarrow> nat \<Rightarrow> (nat \<Rightarrow> ThreadStats \<Rightarrow> ThreadStats) \<Rightarrow> nat option \<Rightarrow> bool \<Rightarrow> ComputeServer" where
  "ComputeServer_init i n worker core exclusive =
     \<lparr>cs_id = i, num_threads = n, cs_stats = replicate n ThreadStats_init, cs_worker = worker, core_id = core, use_exclusive_binding = exclusive\<rparr>"

definition thread_binding :: "ComputeServer \<Rightarrow> os \<Rightarrow> bool \<times> os" where
  "thread_binding s sys =
     (case core_id s of
        None \<Rightarrow> (False, sys)
      | Some c \<Rightarrow> if use_exclusive_binding s then bind_to_core_exclusive c sys else bind_to_core c sys)"

definition thread_body :: "nat \<Rightarrow> os \<Rightarrow> ComputeServer \<Rightarrow> os \<times> ComputeServer" where
  "thread_body i sys s =
     (snd (thread_binding s sys), s\<lparr>cs_stats := (cs_stats s)[i := cs_worker s i (cs_stats s ! i)]\<rparr>)"

text \<open>\<^verbatim>\<open>start\<close> and \<^verbatim>\<open>join\<close>: every thread runs once; \<open>order\<close> is the order in which they get to their entries.\<close>

definition start_and_join :: "nat list \<Rightarrow> os \<Rightarrow> ComputeServer \<Rightarrow> ComputeServer" where
  "start_and_join order sys s = fold (\<lambda>i s. snd (thread_body i sys s)) order s"

lemma run_threads:
  assumes "distinct order" and "set order \<subseteq> {..<length (cs_stats s)}"
  shows "cs_stats (start_and_join order sys s) = map (\<lambda>i. if i \<in> set order then cs_worker s i (cs_stats s ! i) else cs_stats s ! i) [0..<length (cs_stats s)]"
  using assms
proof (induction order arbitrary: s)
  case Nil
  then show ?case by (simp add: start_and_join_def map_nth)
next
  case (Cons i order)
  let ?s = "snd (thread_body i sys s)"
  have s: "cs_stats ?s = (cs_stats s)[i := cs_worker s i (cs_stats s ! i)]" "cs_worker ?s = cs_worker s" by (simp_all add: thread_body_def)
  have "start_and_join (i # order) sys s = start_and_join order sys ?s" by (simp add: start_and_join_def)
  then show ?case using Cons.IH [of ?s] Cons.prems s by (auto simp: nth_list_update)
qed

text \<open>Whatever the order of the threads and whether or not they could be bound to a core, each worker has run once, on its own entry.\<close>

theorem compute_server_runs_workers:
  assumes "mset order = mset [0..<n]"
  shows "cs_stats (start_and_join order sys (ComputeServer_init i n worker core exclusive)) = map (\<lambda>i. worker i ThreadStats_init) [0..<n]"
proof -
  have "distinct order" using assms by (metis distinct_upt mset_eq_imp_distinct_iff)
  moreover have "set order = {0..<n}" using mset_eq_setD [OF assms] by simp
  ultimately show ?thesis by (subst run_threads) (auto simp: ComputeServer_init_def)
qed

subsection \<open>The recorder\<close>

definition record_result :: "OperationKind \<Rightarrow> int \<Rightarrow> int \<Rightarrow> bool \<Rightarrow> ThreadStats \<Rightarrow> ThreadStats" where
  "record_result kind start end_time success st = ts_update kind (oe_record_operation (of_int (end_time - start) / 1000) success) st"

definition recorder_reset :: "ThreadStats \<Rightarrow> ThreadStats" where
  "recorder_reset st = ts_reset st"

text \<open>An operation that is ended in the tracker and given to the recorder as well, as the driver does, is counted twice.\<close>

theorem operation_counted_twice:
  assumes "tracking_active t" and "current_op t = kind" and "length (st_stats t) = 4" and "rdma_op_counts t = replicate 4 0"
  shows "successes (record_result kind start e True (st_stats (end_operation us True t)) ! kind_index kind) = successes (st_stats t ! kind_index kind) + 2"
proof -
  have "kind_index kind < 4" by (cases kind) simp_all
  then show ?thesis
    using assms by (simp add: record_result_def end_operation_def Let_def record_op_counts_def tr_update_def ts_update_def oe_record_operation_def
        oe_record_rtt_count_def oe_record_bytes_read_def oe_record_bytes_written_def oe_record_retry_count_def)
qed

end
