(* ===== verification/Spec2Isabelle.thy ===== *)
theory Spec2Isabelle
  imports Kv_Index Sherman_Behaviour Range_Cache_Props Workload Runtime
begin

text \<open>
  \<^bold>\<open>A verification development for Faunus\<close>, a key-value index over disaggregated memory. The repository simulates a cluster in one
  process: memory servers own regions of bytes, compute servers run client threads, and clients reach the memory only through one-sided RDMA
  verbs. Two B+ trees live in this memory, Faunus (slots with fingerprints, lock bits in the slots, out-of-place items) and Sherman (pages of 1024
  bytes with versions and lock words). All paths below are relative to \<^verbatim>\<open>src/src\<close>.

  \<^bold>\<open>Machine model.\<close> \<open>Prelude\<close> has the machine integers (words of their width, so additions wrap), the byte images and the errors of
  the code: a failed assertion (the Makefile never defines \<^verbatim>\<open>NDEBUG\<close>), an exception, undefined behaviour, a null dereference, and
  \<open>Diverges\<close> for a loop that did not end within its fuel. \<open>Global_Address\<close> (\<^verbatim>\<open>rdma/global_address.hpp\<close>), \<open>Kv_Block\<close> (the bit fields of
  \<^verbatim>\<open>kv_index/faunus_index.hpp\<close>) and \<open>Array_Var\<close> (\<^verbatim>\<open>util/array_var.hpp\<close>) are the values that travel; their theorems are round trips of
  the bit fields, the order of byte arrays as the order of numbers, and arithmetic modulo their size.

  \<^bold>\<open>RDMA.\<close> \<open>Rdma_Simulation\<close> (\<^verbatim>\<open>rdma/rdma_simulation.*\<close>) has the region of a server and the verbs; \<open>Memory_Server\<close>
  (\<^verbatim>\<open>rdma/memory_server.*\<close>) the bump allocator, the request queues and the worker (all requests are served); \<open>Thread_Stats\<close>
  (\<^verbatim>\<open>util/thread_stats.hpp\<close>, \<^verbatim>\<open>util/histogram_latency_sampler.hpp\<close>) the statistics; \<open>Rdma_Manager\<close> (\<^verbatim>\<open>rdma/rdma_manager.*\<close>) routing,
  latency model and accounting. \<open>Remote_Memory\<close> abstracts from the manager: only the regions count, and \<open>perform_op\<close>,
  \<open>perform_batch\<close> refine one step on them; the locale \<open>byte_store\<close> states the laws of loads and stores and is interpreted on the
  regions. \<open>Allocators\<close> (\<^verbatim>\<open>rdma/local_allocator.hpp\<close>, \<^verbatim>\<open>rpc_allocator.hpp\<close>, \<^verbatim>\<open>simple_allocator.hpp\<close>) has the slab allocators over the
  locale \<open>chunk_source\<close>, interpreted on the RPC allocator: allocations never overlap.

  \<^bold>\<open>Client programs.\<close> \<open>Client_Prog\<close> is the interface between the indexes and everything below them. A function of an index is a
  \<open>prog\<close>, a tree of calls (memory operations, batches, allocation, cache, local locks, statistics, random numbers, maintenance requests);
  \<open>run\<close> executes it against a handler. \<open>mgr_handler\<close> is the compute server of the code, \<open>mem_handler\<close> an abstract one over memory regions;
  the locale \<open>handler_refinement\<close> carries every run over from the second to the first and is interpreted on them. The theorems on
  the indexes are proved on memory regions and, where the operation succeeds, stated for the manager.

  \<^bold>\<open>Local locks.\<close> \<open>Local_Lock\<close> (\<^verbatim>\<open>util/local_lock_manager.hpp\<close>) has the ticket lock with handover, one atomic access per step. Under every
  interleaving of any number of threads two threads never hold the lock at once while fewer than $2^{32}$ tickets have been
  issued, and a waiting thread is served; the counter-example shows what the carry of the ticket counter does afterwards.

  \<^bold>\<open>Faunus.\<close> \<open>Faunus_Layout\<close> (types, sizes and images of \<^verbatim>\<open>kv_index/faunus_index.hpp\<close>), \<open>Faunus_Node\<close> and \<open>Faunus_Leaf\<close> (the computations of
  \<^verbatim>\<open>kv_index/faunus_index.cpp\<close> on nodes in local memory), \<open>Faunus_Index\<close> (search, candidates, read), \<open>Faunus_Update\<close> (insert, splits,
  new roots, requests). \<open>Regions\<close>, \<open>Faunus_Correct\<close> and \<open>Faunus_Map\<close> have the invariant \<open>tree_inv\<close> of an index in memory and the finite map
  \<open>tree_map\<close> that it stores; \<open>Faunus_Insert\<close> shows that \<open>initialize\<close> creates the empty map, that \<open>read\<close> returns the map, that an \<open>insert\<close> that
  needs no split updates it and that an \<open>insert\<close> into a leaf that is full and stays full fails its assertion. \<open>Split_Tree\<close> (search trees with a split that is not
  yet known to the parent), \<open>Faunus_Grow\<close> (new separators, splits of inner nodes, new roots) and \<open>Faunus_Split\<close> (splits of leaves) show that
  each of these steps keeps the stored map. The pages they need come from the locale \<open>page_source\<close>; \<open>Faunus_Store\<close> interprets it
  on the slab allocators of a compute server (\<open>slab\<close>) and has insertions with all their splits as updates of the map.
  \<open>Maintenance\<close> (\<^verbatim>\<open>util/maintenance_queue.hpp\<close> and the worker of \<^verbatim>\<open>faunus_index.cpp\<close>) has the queues of split requests, their
  workers and how they are stopped; in \<open>Faunus_Deferred\<close> an insertion leaves its split to them, and the locale \<open>served_requests\<close>, interpreted on the
  split requests, shows that a worker serves them in any order and keeps the stored map.

  \<^bold>\<open>Sherman.\<close> \<open>Sherman_Layout\<close> (\<^verbatim>\<open>kv_index/sherman_index.hpp\<close>), \<open>Sherman_Page\<close> (page computations), \<open>Sherman_Index\<close> (all operations of
  \<^verbatim>\<open>kv_index/sherman_index.cpp\<close>) and \<open>Search_Tree\<close> (trees of pages, independent of their layout); \<open>Sherman_Correct\<close>, \<open>Sherman_Insert\<close> and
  \<open>Sherman_Map\<close> are the counterparts of the Faunus theories, with the locale \<open>sequential_locks\<close> for what the code relies on when nobody
  else wants the lock, interpreted on the local locks. \<open>Sherman_Behaviour\<close> has typing of page images, cached routing, and the
  situations in which a lock or a read does not do what its caller expects.

  \<^bold>\<open>Both indexes.\<close> \<open>Kv_Index\<close> (\<^verbatim>\<open>kv_index/kv_index.hpp\<close>) has the base class with its virtual functions. The locale \<open>kv_index\<close> is the contract of
  \<open>read\<close> and \<open>insert\<close> and is interpreted on both indexes: a client that uses one of them through the base class sees a map.

  \<^bold>\<open>Range cache.\<close> \<open>Range_Cache\<close> (\<^verbatim>\<open>cache/range_cache.hpp\<close>) has entries in slabs, a skip list, epochs and retired entries;
  \<open>Range_Cache_Safety\<close> interleaves the parts of the operations of any number of threads and shows that an entry that a thread may have
  seen in its guard is not freed or reused, and that no slab is lost or duplicated; \<open>Range_Cache_Props\<close> has what the operations return.

  \<^bold>\<open>Running a benchmark.\<close> \<open>Config\<close> (\<^verbatim>\<open>config/config.hpp\<close>, the log levels, the operation picker of \<^verbatim>\<open>util/benchmark.hpp\<close>), \<open>Workload\<close>
  (\<^verbatim>\<open>util/distribution.hpp\<close>, \<^verbatim>\<open>util/key_management.hpp\<close>, percentiles), \<open>Cpu_Affinity\<close> (\<^verbatim>\<open>util/cpu_affinity.cpp\<close>) and \<open>Runtime\<close>
  (\<^verbatim>\<open>rdma/compute_server.*\<close>, \<^verbatim>\<open>util/precise_sleep.hpp\<close>, \<^verbatim>\<open>util/profiler.*\<close>, the recorder of \<^verbatim>\<open>util/benchmark.hpp\<close>): each worker of a compute server runs once on its
  entry of the statistics, a sleep lasts as long as asked, publishing loses no sample.

  \<^bold>\<open>Third-party code\<close> is an argument: the concurrent queues (\<open>queue_ops\<close> with \<open>queue_law\<close>: what is put in is taken out once, in no particular
  order), the skip list (\<open>skiplist_ops\<close> with \<open>skiplist_law\<close>), the YAML parser, the operating system, the hash and the random engines of the standard
  library. The witnesses use a list as queue and as skip list.

  \<^bold>\<open>Bounds and fuel.\<close> Loops over arrays are structural. Retry loops of the code that count to a million count down the same number. Loops of the code
  without a bound take fuel and give \<open>Diverges\<close> without it: the descent in a tree (the theorems ask for more fuel than the height), the propagation of a split (one level at a time, and the theorems ask for
  room for the height that the tree may reach; an insertion into a tree of height \<open>n\<close> takes at most \<open>n + 3\<close> slabs), the walk of
  Sherman's \<open>read\<close> (one theorem shows that no fuel is enough), the lock loop (ends after 1000002 rounds), the workers (the
  number of polls is stated), the key sampler (one round per draw up to the first usable one). Floating-point numbers are rational or real numbers
  without rounding.

  \<^bold>\<open>Not modelled:\<close> interleavings of memory operations of several clients on one tree (the map theorems are about one client at a time, the locks
  and the cache about many threads); the C++ memory model below sequential consistency; Sherman insertions that split, as updates of the
  map (their steps on pages are); printing of trees and statistics, log files, the scheduling of threads and the benchmark drivers (\<^verbatim>\<open>apps/kv_test.cpp\<close>,
  \<^verbatim>\<open>cache/bench.cpp\<close>).
\<close>

end
